(* ===== verification/Prelude.thy ===== *)
theory Prelude
  imports "HOL-Library.Word" "HOL-Library.Monad_Syntax"
begin

text \<open>
  Shared vocabulary of the development: the machine integers of the Rust sources, the
  little-endian byte layout of integers in memory and on disk, slices of byte arrays
  (\<open>bs[off..off+n]\<close> read and overwritten), the \<open>iter().enumerate().find(..)\<close> idiom,
  and the facts about them that the component proofs rest on.

  A computation that panics (a failed \<open>assert!\<close>, an \<open>unwrap\<close> of \<open>None\<close>, an index
  out of range) or never returns because it takes a lock it already holds is \<open>None\<close> in
  the model; a computation that returns is \<open>Some\<close> of its results. State is passed
  explicitly, in the \<open>do\<close> notation of the option monad.
\<close>

section \<open>Machine integers\<close>

type_synonym u8 = "8 word"
type_synonym u32 = "32 word"
type_synonym u64 = "64 word"
type_synonym bytes = "8 word list"

named_theorems byte_simps \<open>slices, splices and integer layouts\<close>

section \<open>Panics\<close>

text \<open>\<open>assert!(b)\<close>: a panic unless \<open>b\<close> holds.\<close>

definition assert_that :: "bool \<Rightarrow> unit option" where
  "assert_that b = (if b then Some () else None)"

lemma assert_that_True [simp]: "assert_that True = Some ()"
  by (simp add: assert_that_def)

lemma assert_that_False [simp]: "assert_that False = None"
  by (simp add: assert_that_def)

lemma assert_that_bind_Some [simp]:
  "(assert_that b \<bind> f = Some r) \<longleftrightarrow> b \<and> f () = Some r"
  by (cases b) simp_all

text \<open>\<open>xs[i]\<close> with the bounds check of Rust.\<close>

definition index_at :: "'a list \<Rightarrow> nat \<Rightarrow> 'a option" where
  "index_at xs i = (if i < length xs then Some (xs ! i) else None)"

lemma index_at_Some [simp]: "i < length xs \<Longrightarrow> index_at xs i = Some (xs ! i)"
  by (simp add: index_at_def)

lemma index_at_None [simp]: "length xs \<le> i \<Longrightarrow> index_at xs i = None"
  by (simp add: index_at_def)

section \<open>Loops over a list\<close>

text \<open>\<open>for x in xs { .. }\<close> with a body that may panic.\<close>

primrec foldo :: "('a \<Rightarrow> 's \<Rightarrow> 's option) \<Rightarrow> 'a list \<Rightarrow> 's \<Rightarrow> 's option" where
  "foldo f [] s = Some s"
| "foldo f (x # xs) s = f x s \<bind> foldo f xs"

lemma foldo_append [simp]: "foldo f (xs @ ys) s = foldo f xs s \<bind> foldo f ys"
proof (induction xs arbitrary: s)
  case (Cons x xs)
  then show ?case by (cases "f x s") simp_all
qed simp

lemma foldo_cong [fundef_cong]:
  "xs = ys \<Longrightarrow> s = t \<Longrightarrow> (\<And>x u. x \<in> set ys \<Longrightarrow> f x u = g x u) \<Longrightarrow> foldo f xs s = foldo g ys t"
proof (induction xs arbitrary: ys s t)
  case (Cons x xs)
  have "f x s = g x s" using Cons.prems by auto
  moreover have "foldo f xs u = foldo g xs u" for u
    using Cons.prems by (intro Cons.IH) auto
  then have "foldo f xs = foldo g xs" by blast
  ultimately show ?case using Cons.prems(1,2) [symmetric] by simp
qed simp

text \<open>The rule for loops: an assertion indexed by the items already visited.\<close>

lemma foldo_rule:
  assumes init: "P [] s"
    and loop: "\<And>pre x rest u. xs = pre @ x # rest \<Longrightarrow> P pre u \<Longrightarrow>
      \<exists>v. f x u = Some v \<and> P (pre @ [x]) v"
  shows "\<exists>t. foldo f xs s = Some t \<and> P xs t"
proof -
  have "\<exists>t. foldo f rest u = Some t \<and> P xs t" if "xs = pre @ rest" "P pre u" for pre rest u
    using that
  proof (induction rest arbitrary: pre u)
    case (Cons x rest)
    obtain v where v: "f x u = Some v" "P (pre @ [x]) v"
      using loop [OF Cons.prems] by blast
    have "\<exists>t. foldo f rest v = Some t \<and> P xs t"
      using Cons.prems(1) v(2) by (intro Cons.IH [of "pre @ [x]"]) simp_all
    with v(1) show ?case by simp
  qed simp
  from this [of "[]" xs s] init show ?thesis by simp
qed

section \<open>Searching\<close>

text \<open>\<open>xs.iter().enumerate().find(P)\<close>, the index of the first match.\<close>

fun find_index :: "('a \<Rightarrow> bool) \<Rightarrow> 'a list \<Rightarrow> nat option" where
  "find_index P [] = None"
| "find_index P (x # xs) = (if P x then Some 0 else map_option Suc (find_index P xs))"

lemma find_index_None_iff: "find_index P xs = None \<longleftrightarrow> (\<forall>x\<in>set xs. \<not> P x)"
  by (induction xs) auto

lemma find_index_SomeD:
  "find_index P xs = Some i \<Longrightarrow> i < length xs \<and> P (xs ! i) \<and> (\<forall>j<i. \<not> P (xs ! j))"
proof (induction xs arbitrary: i)
  case (Cons x xs)
  show ?case
  proof (cases "P x")
    case True
    with Cons.prems show ?thesis by simp
  next
    case False
    with Cons.prems obtain k where k: "find_index P xs = Some k" and i: "i = Suc k" by auto
    with Cons.IH [OF k] False show ?thesis by (auto simp: nth_Cons split: nat.splits)
  qed
qed simp

lemma find_index_ex: "x \<in> set xs \<Longrightarrow> P x \<Longrightarrow> \<exists>i. find_index P xs = Some i"
  using find_index_None_iff [of P xs] by (cases "find_index P xs") auto

lemma find_index_eqI:
  "i < length xs \<Longrightarrow> P (xs ! i) \<Longrightarrow> (\<And>j. j < i \<Longrightarrow> \<not> P (xs ! j)) \<Longrightarrow> find_index P xs = Some i"
proof (induction xs arbitrary: i)
  case (Cons x xs)
  show ?case
  proof (cases i)
    case 0
    with Cons.prems show ?thesis by simp
  next
    case (Suc k)
    have "\<not> P x" using Cons.prems(3) [of 0] Suc by simp
    moreover have "find_index P xs = Some k"
    proof (rule Cons.IH)
      show "k < length xs" "P (xs ! k)" using Cons.prems(1,2) Suc by simp_all
      show "\<not> P (xs ! j)" if "j < k" for j
        using Cons.prems(3) [of "Suc j"] Suc that by simp
    qed
    ultimately show ?thesis using Suc by simp
  qed
qed simp

section \<open>Slices of byte arrays\<close>

text \<open>\<open>bs[off..off+n]\<close> read, and overwritten by \<open>copy_from_slice\<close>.\<close>

definition slice_at :: "nat \<Rightarrow> nat \<Rightarrow> 'a list \<Rightarrow> 'a list" where
  "slice_at off n bs = take n (drop off bs)"

definition splice_at :: "nat \<Rightarrow> 'a list \<Rightarrow> 'a list \<Rightarrow> 'a list" where
  "splice_at off xs bs = take off bs @ xs @ drop (off + length xs) bs"

lemma length_slice [byte_simps, simp]: "off + n \<le> length bs \<Longrightarrow> length (slice_at off n bs) = n"
  by (simp add: slice_at_def)

lemma length_splice [byte_simps, simp]:
  "off + length xs \<le> length bs \<Longrightarrow> length (splice_at off xs bs) = length bs"
  by (simp add: splice_at_def)

lemma nth_slice: "i < n \<Longrightarrow> off + n \<le> length bs \<Longrightarrow> slice_at off n bs ! i = bs ! (off + i)"
  by (simp add: slice_at_def)

lemma nth_splice:
  "off + length xs \<le> length bs \<Longrightarrow> i < length bs \<Longrightarrow>
   splice_at off xs bs ! i = (if off \<le> i \<and> i < off + length xs then xs ! (i - off) else bs ! i)"
  by (auto simp: splice_at_def nth_append)

lemma slice_splice_same [byte_simps]:
  "off + length xs \<le> length bs \<Longrightarrow> slice_at off (length xs) (splice_at off xs bs) = xs"
  by (simp add: slice_at_def splice_at_def)

lemma slice_splice_disjoint [byte_simps]:
  assumes "off + length xs \<le> length bs" "o' + n \<le> length bs"
    and "o' + n \<le> off \<or> off + length xs \<le> o'"
  shows "slice_at o' n (splice_at off xs bs) = slice_at o' n bs"
  using assms by (intro nth_equalityI) (auto simp: nth_slice nth_splice)

lemma splice_slice_id [byte_simps]:
  "off + n \<le> length bs \<Longrightarrow> splice_at off (slice_at off n bs) bs = bs"
  by (intro nth_equalityI) (auto simp: nth_slice nth_splice)

lemma slice_0_all [byte_simps, simp]: "length bs = n \<Longrightarrow> slice_at 0 n bs = bs"
  by (simp add: slice_at_def)

lemma splice_0_all [byte_simps, simp]: "length xs = length bs \<Longrightarrow> splice_at 0 xs bs = xs"
  by (simp add: splice_at_def)

lemma splice_nil [byte_simps, simp]: "splice_at off [] bs = bs"
  by (simp add: splice_at_def)

lemma slice_slice:
  "o2 + n2 \<le> n1 \<Longrightarrow> slice_at o2 n2 (slice_at o1 n1 bs) = slice_at (o1 + o2) n2 bs"
  by (simp add: slice_at_def drop_take min_def add.commute [of o1])

lemma slice_append_slice: "slice_at off a bs @ slice_at (off + a) b bs = slice_at off (a + b) bs"
  by (simp add: slice_at_def take_add add.commute)

lemma splice_splice_adjacent:
  "off + length xs + length ys \<le> length bs \<Longrightarrow>
   splice_at (off + length xs) ys (splice_at off xs bs) = splice_at off (xs @ ys) bs"
  by (simp add: splice_at_def ac_simps)

lemma splice_slice_chunks:
  "off + a + b \<le> length bs \<Longrightarrow> o' + a + b \<le> length xs \<Longrightarrow>
   splice_at (off + a) (slice_at (o' + a) b xs) (splice_at off (slice_at o' a xs) bs) =
   splice_at off (slice_at o' (a + b) xs) bs"
  using splice_splice_adjacent [of off "slice_at o' a xs" "slice_at (o' + a) b xs" bs]
  by (simp add: slice_append_slice)

section \<open>Little-endian integers\<close>

primrec le_decode :: "bytes \<Rightarrow> nat" where
  "le_decode [] = 0"
| "le_decode (b # bs) = unat b + 256 * le_decode bs"

primrec le_encode :: "nat \<Rightarrow> nat \<Rightarrow> bytes" where
  "le_encode 0 n = []"
| "le_encode (Suc k) n = of_nat (n mod 256) # le_encode k (n div 256)"

lemma length_le_encode [simp]: "length (le_encode k n) = k"
  by (induction k arbitrary: n) auto

lemma unat_u8_less: "unat (b :: u8) < 256"
proof -
  have "unat b < 2 ^ LENGTH(8)" by (rule unsigned_less)
  then show ?thesis by simp
qed

lemma unat_of_nat_u8: "n < 256 \<Longrightarrow> unat (of_nat n :: u8) = n"
  by (simp add: unat_of_nat take_bit_eq_mod)

lemma le_decode_encode: "le_decode (le_encode k n) = n mod 256 ^ k"
proof (induction k arbitrary: n)
  case (Suc k)
  have "n mod 256 + 256 * (n div 256 mod 256 ^ k) = n mod (256 * 256 ^ k)"
    by (simp add: mod_mult2_eq)
  then show ?case by (simp add: Suc unat_of_nat_u8)
qed simp

lemma le_encode_decode: "le_encode (length bs) (le_decode bs) = bs"
  by (induction bs) (simp_all add: unat_u8_less)

lemma le_decode_less: "le_decode bs < 256 ^ length bs"
proof (induction bs)
  case (Cons b bs)
  have "unat b + 256 * le_decode bs < 256 * Suc (le_decode bs)"
    using unat_u8_less [of b] by simp
  also have "\<dots> \<le> 256 * 256 ^ length bs"
    using Cons by (intro mult_le_mono2) simp
  finally show ?case by simp
qed simp

section \<open>Arrays of integers in memory\<close>

text \<open>\<open>[uN; n]\<close> laid out contiguously, \<open>w\<close> bytes for each element.\<close>

definition decode_array :: "nat \<Rightarrow> nat \<Rightarrow> bytes \<Rightarrow> 'l::len word list" where
  "decode_array w n bs = map (\<lambda>i. of_nat (le_decode (slice_at (w * i) w bs))) [0..<n]"

definition encode_array :: "nat \<Rightarrow> 'l::len word list \<Rightarrow> bytes" where
  "encode_array w xs = concat (map (\<lambda>x. le_encode w (unat x)) xs)"

lemma length_decode_array [simp]: "length (decode_array w n bs) = n"
  by (simp add: decode_array_def)

lemma nth_decode_array:
  "i < n \<Longrightarrow> decode_array w n bs ! i = of_nat (le_decode (slice_at (w * i) w bs))"
  by (simp add: decode_array_def)

lemma length_encode_array [simp]: "length (encode_array w xs) = w * length xs"
  by (induction xs) (simp_all add: encode_array_def)

lemma slice_encode_array:
  "i < length xs \<Longrightarrow> slice_at (w * i) w (encode_array w xs) = le_encode w (unat (xs ! i))"
proof (induction xs arbitrary: i)
  case (Cons x xs)
  show ?case
  proof (cases i)
    case 0
    then show ?thesis by (simp add: encode_array_def slice_at_def)
  next
    case (Suc k)
    with Cons.IH [of k] Cons.prems show ?thesis
      by (simp add: encode_array_def slice_at_def)
  qed
qed simp

lemma decode_array_append:
  "w * n \<le> length xs \<Longrightarrow> decode_array w n (xs @ ys) = decode_array w n xs"
proof -
  assume "w * n \<le> length xs"
  moreover have "w * i + w \<le> w * n" if "i < n" for i
    using that by (metis Suc_leI mult_Suc_right add.commute mult_le_mono2)
  ultimately have "slice_at (w * i) w (xs @ ys) = slice_at (w * i) w xs" if "i < n" for i
    using that by (fastforce simp: slice_at_def)
  then show ?thesis by (simp add: decode_array_def)
qed

lemma unat_less_of_bytes: "8 * w = LENGTH('l::len) \<Longrightarrow> unat (x :: 'l word) < 256 ^ w"
proof -
  assume w: "8 * w = LENGTH('l)"
  have "unat x < 2 ^ LENGTH('l)" by (rule unsigned_less)
  then show ?thesis by (simp add: power_mult flip: w)
qed

lemma decode_encode_array [simp]:
  "8 * w = LENGTH('l::len) \<Longrightarrow> n = length xs \<Longrightarrow>
   decode_array w n (encode_array w (xs :: 'l word list)) = xs"
  by (intro nth_equalityI)
    (simp_all add: nth_decode_array slice_encode_array le_decode_encode unat_less_of_bytes)

lemma concat_slices: "concat (map (\<lambda>i. slice_at (w * i) w bs) [0..<n]) = take (w * n) bs"
proof (induction n)
  case (Suc n)
  have "w * Suc n = w * n + w" by simp
  then have "take (w * n) bs @ slice_at (w * n) w bs = take (w * Suc n) bs"
    by (simp only: slice_at_def take_add)
  with Suc show ?case by (simp del: mult_Suc_right)
qed simp

lemma encode_decode_array [simp]:
  assumes w: "8 * w = LENGTH('l::len)" and len: "length bs = w * n"
  shows "encode_array w (decode_array w n bs :: 'l word list) = bs"
proof -
  have "le_encode w (unat (of_nat (le_decode (slice_at (w * i) w bs)) :: 'l word)) = slice_at (w * i) w bs"
    if "i < n" for i
  proof -
    have "w * i + w \<le> w * n"
      using that by (metis Suc_leI mult_Suc_right add.commute mult_le_mono2)
    then have l: "length (slice_at (w * i) w bs) = w" using len by simp
    have "le_decode (slice_at (w * i) w bs) < 256 ^ w"
      using le_decode_less [of "slice_at (w * i) w bs"] l by simp
    then have "le_decode (slice_at (w * i) w bs) < 2 ^ LENGTH('l)"
      by (simp add: power_mult flip: w)
    then have "unat (of_nat (le_decode (slice_at (w * i) w bs)) :: 'l word) = le_decode (slice_at (w * i) w bs)"
      by (simp add: unat_of_nat take_bit_nat_eq_self)
    then show ?thesis using le_encode_decode [of "slice_at (w * i) w bs"] l by simp
  qed
  then have "encode_array w (decode_array w n bs :: 'l word list)
      = concat (map (\<lambda>i. slice_at (w * i) w bs) [0..<n])"
    by (auto simp: encode_array_def decode_array_def intro!: arg_cong [where f = concat])
  also have "\<dots> = bs" using len by (simp add: concat_slices)
  finally show ?thesis .
qed

section \<open>Memory representations\<close>

text \<open>
  A \<open>#[repr(C)]\<close> type as the sources cast it onto raw memory: its \<open>size_of\<close>, the value
  a run of bytes stands for (\<open>None\<close> where the bytes are no value of the type) and the
  bytes a value is stored as. Trailing padding is counted by \<open>size_of\<close> and written by
  nobody, so \<open>to_mem\<close> may be shorter than \<open>size_of\<close>.
\<close>

record 'a repr =
  size_of :: nat
  from_mem :: "bytes \<Rightarrow> 'a option"
  to_mem :: "'a \<Rightarrow> bytes"

locale mem_repr =
  fixes R :: "'a repr" and valid :: "'a \<Rightarrow> bool"
  assumes to_mem_fits: "valid x \<Longrightarrow> length (to_mem R x) \<le> size_of R"
    and from_mem_valid: "from_mem R bs = Some x \<Longrightarrow> length bs = size_of R \<Longrightarrow> valid x"
    and store_load: "valid x \<Longrightarrow> length bs = size_of R \<Longrightarrow>
      from_mem R (splice_at 0 (to_mem R x) bs) = Some x"
begin

text \<open>Storing at an offset of a larger block and loading there again.\<close>

lemma load_stored_at:
  assumes v: "valid x" and fits: "off + size_of R \<le> length bs"
  shows "from_mem R (slice_at off (size_of R) (splice_at off (to_mem R x) bs)) = Some x"
proof -
  let ?old = "slice_at off (size_of R) bs"
  have le: "length (to_mem R x) \<le> size_of R" by (rule to_mem_fits [OF v])
  have lo: "length ?old = size_of R" using fits by simp
  have "slice_at off (size_of R) (splice_at off (to_mem R x) bs) = splice_at 0 (to_mem R x) ?old"
    by (rule nth_equalityI)
      (use le fits lo in \<open>auto simp: nth_slice nth_splice\<close>)
  then show ?thesis using store_load [OF v lo] by simp
qed

end

lemma slice_outside_store:
  assumes "off + length xs \<le> length bs" "o' + n \<le> length bs"
    and "o' + n \<le> off \<or> off + m \<le> o'" "length xs \<le> m"
  shows "slice_at o' n (splice_at off xs bs) = slice_at o' n bs"
  using assms by (intro slice_splice_disjoint) auto

end
