(* ===== verification/Address.thy ===== *)
theory Address
  imports Prelude
begin

unbundle bit_operations_syntax

text \<open>
  Addresses and page numbers of the Sv39 paging scheme (\<open>os/src/mm/address.rs\<close>) with the
  constants of \<open>os/src/config.rs\<close>. \<open>usize\<close> is 64 bits wide on the target, and the kernel is
  built in release mode, so additions wrap. The four newtypes of the source over \<open>usize\<close> are
  type synonyms; every \<open>From\<close> conversion between them is a function of its own, \<open>None\<close> where
  the conversion panics.
\<close>

section \<open>Types and constants\<close>

type_synonym usize = "64 word"
type_synonym PhysAddr = usize
type_synonym VirtAddr = usize
type_synonym PhysPageNum = usize
type_synonym VirtPageNum = usize

definition PAGE_SIZE_BITS :: nat where "PAGE_SIZE_BITS = 0xc"
definition PAGE_SIZE :: usize where "PAGE_SIZE = 0x1000"
definition USER_STACK_SIZE :: usize where "USER_STACK_SIZE = 4096 * 2"
definition KERNEL_STACK_SIZE :: usize where "KERNEL_STACK_SIZE = 4096 * 2"
definition MEMORY_END :: usize where "MEMORY_END = 0x80800000"
definition TRAMPOLINE :: usize where "TRAMPOLINE = - 1 - PAGE_SIZE + 1"
definition TRAP_CONTEXT_BASE :: usize where "TRAP_CONTEXT_BASE = TRAMPOLINE - PAGE_SIZE"
definition MMIO :: "(usize \<times> usize) list" where "MMIO = [(0x10001000, 0x1000)]"

definition PA_WIDTH_SV39 :: nat where "PA_WIDTH_SV39 = 56"
definition PPN_WIDTH_SV39 :: nat where "PPN_WIDTH_SV39 = PA_WIDTH_SV39 - PAGE_SIZE_BITS"
definition VA_WIDTH_SV39 :: nat where "VA_WIDTH_SV39 = 39"
definition VPN_WIDTH_SV39 :: nat where "VPN_WIDTH_SV39 = VA_WIDTH_SV39 - PAGE_SIZE_BITS"

lemmas mm_consts = PAGE_SIZE_BITS_def PAGE_SIZE_def PA_WIDTH_SV39_def PPN_WIDTH_SV39_def
  VA_WIDTH_SV39_def VPN_WIDTH_SV39_def

text \<open>\<open>(1 << n) - 1\<close>\<close>

definition low_mask :: "nat \<Rightarrow> usize" where
  "low_mask n = push_bit n 1 - 1"

section \<open>Conversions\<close>

definition PhysAddr_from :: "usize \<Rightarrow> PhysAddr" where
  "PhysAddr_from v = v AND low_mask PA_WIDTH_SV39"

definition PhysPageNum_from :: "usize \<Rightarrow> PhysPageNum" where
  "PhysPageNum_from v = v AND low_mask PPN_WIDTH_SV39"

definition VirtAddr_from :: "usize \<Rightarrow> VirtAddr" where
  "VirtAddr_from v = v AND low_mask VA_WIDTH_SV39"

definition VirtPageNum_from :: "usize \<Rightarrow> VirtPageNum" where
  "VirtPageNum_from v = v AND low_mask PPN_WIDTH_SV39"

definition usize_from_VirtAddr :: "VirtAddr \<Rightarrow> usize" where
  "usize_from_VirtAddr v =
    (if v \<ge> push_bit (VA_WIDTH_SV39 - 1) 1 then v OR NOT (low_mask VA_WIDTH_SV39) else v)"

definition VA_page_offset :: "usize \<Rightarrow> usize" where
  "VA_page_offset a = a AND (PAGE_SIZE - 1)"

definition VA_floor :: "usize \<Rightarrow> usize" where
  "VA_floor a = a div PAGE_SIZE"

definition VA_ceil :: "usize \<Rightarrow> usize" where
  "VA_ceil a = (if a = 0 then 0 else (a - 1 + PAGE_SIZE) div PAGE_SIZE)"

definition VA_aligned :: "usize \<Rightarrow> bool" where
  "VA_aligned a \<longleftrightarrow> VA_page_offset a = 0"

definition PA_page_offset :: "PhysAddr \<Rightarrow> usize" where
  "PA_page_offset a = a AND (PAGE_SIZE - 1)"

definition PA_floor :: "PhysAddr \<Rightarrow> PhysPageNum" where
  "PA_floor a = a div PAGE_SIZE"

definition PA_ceil :: "PhysAddr \<Rightarrow> PhysPageNum" where
  "PA_ceil a = (if a = 0 then 0 else (a - 1 + PAGE_SIZE) div PAGE_SIZE)"

definition PA_aligned :: "PhysAddr \<Rightarrow> bool" where
  "PA_aligned a \<longleftrightarrow> PA_page_offset a = 0"

definition VirtPageNum_from_VirtAddr :: "VirtAddr \<Rightarrow> VirtPageNum option" where
  "VirtPageNum_from_VirtAddr v = do {
    assert_that (VA_page_offset v = 0);
    Some (VA_floor v)
  }"

definition PhysPageNum_from_PhysAddr :: "PhysAddr \<Rightarrow> PhysPageNum option" where
  "PhysPageNum_from_PhysAddr v = do {
    assert_that (PA_page_offset v = 0);
    Some (PA_floor v)
  }"

definition VirtAddr_from_VirtPageNum :: "VirtPageNum \<Rightarrow> VirtAddr" where
  "VirtAddr_from_VirtPageNum v = push_bit PAGE_SIZE_BITS v"

definition PhysAddr_from_PhysPageNum :: "PhysPageNum \<Rightarrow> PhysAddr" where
  "PhysAddr_from_PhysPageNum v = push_bit PAGE_SIZE_BITS v"

text \<open>
  \<open>VirtPageNum::indexes\<close>: the loop \<open>for i in (0..3).rev()\<close> over the array \<open>idx\<close> and the
  remaining page number.
\<close>

fun indexes_loop :: "nat \<Rightarrow> VirtPageNum \<Rightarrow> usize list \<Rightarrow> usize list" where
  "indexes_loop 0 vpn idx = idx"
| "indexes_loop (Suc i) vpn idx = indexes_loop i (drop_bit 9 vpn) (idx[i := vpn AND 511])"

definition indexes :: "VirtPageNum \<Rightarrow> usize list" where
  "indexes vpn = indexes_loop 3 vpn (replicate 3 0)"

section \<open>Ranges of page numbers\<close>

definition step :: "usize \<Rightarrow> usize" where
  "step v = v + 1"

record 'a SimpleRange =
  range_l :: 'a
  range_r :: 'a

definition SimpleRange_new :: "'a::linorder \<Rightarrow> 'a \<Rightarrow> 'a SimpleRange option" where
  "SimpleRange_new start end' = do {
    assert_that (start \<le> end');
    Some \<lparr>range_l = start, range_r = end'\<rparr>
  }"

definition get_start :: "'a SimpleRange \<Rightarrow> 'a" where
  "get_start r = range_l r"

definition get_end :: "'a SimpleRange \<Rightarrow> 'a" where
  "get_end r = range_r r"

record 'a SimpleRangeIterator =
  iter_current :: 'a
  iter_end :: 'a

definition SimpleRangeIterator_new :: "'a \<Rightarrow> 'a \<Rightarrow> 'a SimpleRangeIterator" where
  "SimpleRangeIterator_new l r = \<lparr>iter_current = l, iter_end = r\<rparr>"

definition into_iter :: "'a SimpleRange \<Rightarrow> 'a SimpleRangeIterator" where
  "into_iter r = SimpleRangeIterator_new (range_l r) (range_r r)"

definition iter_next ::
  "usize SimpleRangeIterator \<Rightarrow> (usize \<times> usize SimpleRangeIterator) option" where
  "iter_next it =
    (if iter_current it = iter_end it then None
     else Some (iter_current it, it\<lparr>iter_current := step (iter_current it)\<rparr>))"

type_synonym VPNRange = "usize SimpleRange"

lemma iter_next_measure:
  "iter_next it = Some (t, it') \<Longrightarrow>
   unat (iter_end it' - iter_current it') < unat (iter_end it - iter_current it)"
proof -
  assume h: "iter_next it = Some (t, it')"
  then have ne: "iter_current it \<noteq> iter_end it"
    and it': "it' = it\<lparr>iter_current := iter_current it + 1\<rparr>"
    by (auto simp: iter_next_def step_def split: if_splits)
  define d where "d = iter_end it - iter_current it"
  have "d \<noteq> 0" using ne by (simp add: d_def)
  then have "unat (d - 1) < unat d"
    by (metis measure_unat)
  moreover have "iter_end it' - iter_current it' = d - 1" by (simp add: it' d_def)
  ultimately show ?thesis by (simp add: d_def)
qed

text \<open>The items a \<open>for\<close> loop over the iterator visits: it calls \<open>next\<close> until that is \<open>None\<close>.\<close>

function iter_items :: "usize SimpleRangeIterator \<Rightarrow> usize list" where
  "iter_items it = (case iter_next it of None \<Rightarrow> [] | Some (t, it') \<Rightarrow> t # iter_items it')"
  by pat_completeness auto
termination
  by (relation "measure (\<lambda>it. unat (iter_end it - iter_current it))")
    (auto intro: iter_next_measure)

declare iter_items.simps [simp del]

definition range_items :: "VPNRange \<Rightarrow> VirtPageNum list" where
  "range_items r = iter_items (into_iter r)"


section \<open>Masks and fields\<close>

named_theorems addr_simps \<open>addresses and page numbers as numbers\<close>

lemma low_mask_eq: "low_mask n = mask n"
  by (simp add: low_mask_def mask_eq_exp_minus_1 push_bit_eq_mult)

lemma and_low_mask: "v AND low_mask n = take_bit n v"
  by (simp add: low_mask_eq take_bit_eq_mask)

lemma unat_and_low_mask [addr_simps]: "unat (v AND low_mask n) = unat v mod 2 ^ n"
  by (simp add: and_low_mask unsigned_take_bit_eq flip: take_bit_eq_mod)

lemma page_low_mask: "PAGE_SIZE - 1 = low_mask 12"
  by (simp add: PAGE_SIZE_def low_mask_eq mask_eq_exp_minus_1)

lemma unat_PAGE_SIZE [simp]: "unat PAGE_SIZE = 4096"
  by (simp add: PAGE_SIZE_def)

lemma PA_ops [simp]: "PA_page_offset = VA_page_offset" "PA_floor = VA_floor" "PA_ceil = VA_ceil"
  "PA_aligned = VA_aligned"
  by (simp_all add: fun_eq_iff PA_page_offset_def VA_page_offset_def PA_floor_def VA_floor_def
      PA_ceil_def VA_ceil_def PA_aligned_def VA_aligned_def)

lemma unat_VA_floor [addr_simps]: "unat (VA_floor a) = unat a div 4096"
  by (simp add: VA_floor_def unat_div)

lemma unat_VA_page_offset [addr_simps]: "unat (VA_page_offset a) = unat a mod 4096"
  by (simp add: VA_page_offset_def page_low_mask unat_and_low_mask)

lemma unat_VirtAddr_from [addr_simps]: "unat (VirtAddr_from v) = unat v mod 2 ^ 39"
  by (simp add: VirtAddr_from_def mm_consts unat_and_low_mask)

lemma unat_PhysAddr_from [addr_simps]: "unat (PhysAddr_from v) = unat v mod 2 ^ 56"
  by (simp add: PhysAddr_from_def mm_consts unat_and_low_mask)

lemma unat_PhysPageNum_from [addr_simps]: "unat (PhysPageNum_from v) = unat v mod 2 ^ 44"
  by (simp add: PhysPageNum_from_def mm_consts unat_and_low_mask)

lemma unat_usize_less: "unat (v :: usize) < 2 ^ 64"
  using unsigned_less [of v] by simp

lemma unat_add_usize:
  "unat (a :: usize) + unat b < 2 ^ 64 \<Longrightarrow> unat (a + b) = unat a + unat b"
  by (simp add: unat_word_ariths)

lemma unat_push_12 [addr_simps]: "unat p < 2 ^ 52 \<Longrightarrow> unat (push_bit 12 p :: usize) = 4096 * unat p"
  by (simp add: push_bit_eq_mult unat_mult_lem [THEN iffD1] unat_word_ariths)

lemma PhysPageNum_from_id: "unat p < 2 ^ 44 \<Longrightarrow> PhysPageNum_from p = p"
  by (rule word_unat_eq_iff [THEN iffD2]) (simp add: unat_PhysPageNum_from)

lemma VirtAddr_from_id: "unat v < 2 ^ 39 \<Longrightarrow> VirtAddr_from v = v"
  by (rule word_unat_eq_iff [THEN iffD2]) (simp add: unat_VirtAddr_from)

lemma unat_VA_ceil [addr_simps]:
  assumes "unat a < 2 ^ 64 - 4096"
  shows "unat (VA_ceil a) = (unat a + 4095) div 4096"
proof (cases "a = 0")
  case False
  then have "unat (a - 1) = unat a - 1" "0 < unat a"
    by (simp_all add: unat_minus_one unat_gt_0)
  moreover from this assms have "unat (a - 1 + PAGE_SIZE) = unat a - 1 + 4096"
    by (subst unat_add_usize) auto
  ultimately show ?thesis using False by (simp add: VA_ceil_def unat_div)
qed (simp add: VA_ceil_def)

section \<open>Indexes\<close>

lemma unat_and_511: "unat (v AND 511 :: usize) = unat v mod 512"
  using unat_and_low_mask [of v 9] by (simp add: low_mask_eq mask_eq_exp_minus_1)

lemma unat_drop_bit_div: "unat (drop_bit n v :: usize) = unat v div 2 ^ n"
  by (simp only: unat_drop_bit_eq) (simp only: drop_bit_eq_div)

lemma indexes_eq:
  "indexes vpn = [drop_bit 9 (drop_bit 9 vpn) AND 511, drop_bit 9 vpn AND 511, vpn AND 511]"
  by (simp add: indexes_def numeral_3_eq_3)

lemma unat_indexes:
  "map unat (indexes vpn) = [unat vpn div 2 ^ 18 mod 512, unat vpn div 2 ^ 9 mod 512, unat vpn mod 512]"
  by (simp add: indexes_eq unat_and_511 unat_drop_bit_div)

lemma length_indexes [simp]: "length (indexes vpn) = 3"
  by (simp add: indexes_eq)

lemma indexes_recompose:
  assumes "unat vpn < 2 ^ 27" "map unat (indexes vpn) = [i, j, k]"
  shows "unat vpn = i * 2 ^ 18 + j * 2 ^ 9 + k"
proof -
  define n where "n = unat vpn"
  have "n < 134217728" using assms(1) by (simp add: n_def)
  then have "n div 262144 mod 512 = n div 262144" by simp
  moreover have "n = n div 262144 * 262144 + n div 512 mod 512 * 512 + n mod 512"
  proof -
    have "n div 262144 = n div 512 div 512" by (simp flip: div_mult2_eq)
    then show ?thesis
      using div_mult_mod_eq [of n 512] div_mult_mod_eq [of "n div 512" 512] by linarith
  qed
  ultimately show ?thesis using assms(2) by (simp add: unat_indexes n_def [symmetric])
qed

lemma indexes_inj:
  assumes "unat v < 2 ^ 27" "unat w < 2 ^ 27" "indexes v = indexes w"
  shows "v = w"
proof -
  obtain i j k where "map unat (indexes v) = [i, j, k]" by (simp add: unat_indexes)
  with assms show ?thesis
    by (intro word_unat_eq_iff [THEN iffD2]) (metis indexes_recompose)
qed

section \<open>Ranges\<close>

lemma iter_items_eq:
  "iter_items it = map (\<lambda>i. iter_current it + of_nat i) [0..<unat (iter_end it - iter_current it)]"
proof (induction it rule: iter_items.induct)
  case (1 it)
  show ?case
  proof (cases "iter_current it = iter_end it")
    case True
    then show ?thesis by (simp add: iter_items.simps [of it] iter_next_def)
  next
    case False
    let ?it' = "it\<lparr>iter_current := step (iter_current it)\<rparr>"
    have nx: "iter_next it = Some (iter_current it, ?it')"
      using False by (simp add: iter_next_def)
    define d where "d = iter_end it - iter_current it"
    have "d \<noteq> 0" using False by (simp add: d_def)
    then have d: "unat d = Suc (unat (d - 1))"
      by (simp add: unat_minus_one unat_gt_0)
    have "iter_end it - (iter_current it + 1) = d - 1" by (simp add: d_def)
    then have d1: "iter_end ?it' - iter_current ?it' = d - 1" by (simp add: step_def)
    have "iter_items ?it' = map (\<lambda>i. iter_current it + 1 + of_nat i) [0..<unat (d - 1)]"
      by (subst 1 [OF nx refl], subst d1) (simp add: step_def)
    moreover have "iter_items it = iter_current it # iter_items ?it'"
      by (subst iter_items.simps) (simp add: nx)
    ultimately show ?thesis
      by (simp add: d [unfolded d_def] d_def upt_conv_Cons map_Suc_upt [symmetric] add.assoc
          del: upt_Suc)
  qed
qed

lemma range_items_eq:
  "range_items r = map (\<lambda>i. range_l r + of_nat i) [0..<unat (range_r r - range_l r)]"
  by (simp add: range_items_def into_iter_def SimpleRangeIterator_new_def iter_items_eq)

lemma map_unat_range_items:
  assumes "range_l r \<le> range_r r"
  shows "map unat (range_items r) = [unat (range_l r)..<unat (range_r r)]"
proof -
  have le: "unat (range_l r) \<le> unat (range_r r)" using assms by (simp add: word_le_nat_alt)
  have d: "unat (range_r r - range_l r) = unat (range_r r) - unat (range_l r)"
    by (rule unat_sub [OF assms])
  have "unat (range_l r + of_nat i) = unat (range_l r) + i"
    if "i < unat (range_r r) - unat (range_l r)" for i
    using that unat_usize_less [of "range_r r"]
    by (subst unat_add_usize) (simp_all add: unat_of_nat take_bit_nat_eq_self)
  then have "map unat (range_items r)
      = map (\<lambda>i. i + unat (range_l r)) [0..<unat (range_r r) - unat (range_l r)]"
    by (simp add: range_items_eq d add.commute)
  also have "\<dots> = [unat (range_l r)..<unat (range_r r)]"
    using le by (simp add: map_add_upt)
  finally show ?thesis .
qed

lemma set_range_items:
  assumes "range_l r \<le> range_r r"
  shows "set (range_items r) = {range_l r..<range_r r}"
proof -
  have "unat ` set (range_items r) = {unat (range_l r)..<unat (range_r r)}"
    using map_unat_range_items [OF assms] by (metis set_map set_upt)
  also have "\<dots> = unat ` {range_l r..<range_r r}"
  proof
    show "{unat (range_l r)..<unat (range_r r)} \<subseteq> unat ` {range_l r..<range_r r}"
    proof
      fix n assume n: "n \<in> {unat (range_l r)..<unat (range_r r)}"
      then have "unat (of_nat n :: usize) = n"
        using unat_usize_less [of "range_r r"] by (simp add: unat_of_nat take_bit_nat_eq_self)
      with n show "n \<in> unat ` {range_l r..<range_r r}"
        by (intro image_eqI [of _ _ "of_nat n"]) (auto simp: word_le_nat_alt word_less_nat_alt)
    qed
  qed (auto simp: word_le_nat_alt word_less_nat_alt)
  finally show ?thesis
    by (rule inj_image_eq_iff [THEN iffD1, rotated]) (simp add: inj_def word_unat_eq_iff)
qed

lemma distinct_range_items:
  "range_l r \<le> range_r r \<Longrightarrow> distinct (range_items r)"
  by (metis distinct_map distinct_upt map_unat_range_items)

section \<open>Properties\<close>

lemma take_bit_27_eq_iff:
  "take_bit 27 (v :: usize) = take_bit 27 w \<longleftrightarrow> unat v mod 2 ^ 27 = unat w mod 2 ^ 27"
  by (simp only: word_unat_eq_iff unsigned_take_bit_eq take_bit_eq_mod [where 'a = nat])

lemma mod_fields: "(n :: nat) mod 2 ^ 27 = n div 2 ^ 18 mod 512 * 2 ^ 18 + n div 2 ^ 9 mod 512 * 2 ^ 9 + n mod 512"
proof -
  have "n mod (512 * (512 * 512)) = 512 * (n div 512 mod (512 * 512)) + n mod 512"
    by (rule mod_mult2_eq)
  moreover have "n div 512 mod (512 * 512) = 512 * (n div 512 div 512 mod 512) + n div 512 mod 512"
    by (rule mod_mult2_eq)
  moreover have "n div 512 div 512 = n div 262144" by (simp flip: div_mult2_eq)
  ultimately show ?thesis by simp
qed

lemma indexes_take_bit:
  "indexes v = [drop_bit 18 (take_bit 27 v), drop_bit 9 (take_bit 18 v), take_bit 9 v]"
proof -
  have "x AND 511 = take_bit 9 (x :: usize)" for x
    by (simp add: take_bit_eq_mask mask_eq_exp_minus_1)
  then show ?thesis by (simp add: indexes_eq take_bit_drop_bit)
qed

lemma indexes_eq_iff: "indexes v = indexes w \<longleftrightarrow> take_bit 27 v = take_bit 27 w" (is "?l \<longleftrightarrow> ?r")
proof
  assume ?l
  then have "map unat (indexes v) = map unat (indexes w)" by simp
  then show ?r by (simp only: unat_indexes take_bit_27_eq_iff mod_fields) simp
next
  assume r: ?r
  have "take_bit n v = take_bit n w" if "n \<le> 27" for n
  proof -
    have "take_bit n v = take_bit n (take_bit 27 v)" using that by (simp add: min_def)
    also have "\<dots> = take_bit n w" using that unfolding r by (simp add: min_def)
    finally show ?thesis .
  qed
  then show ?l by (simp add: indexes_take_bit)
qed

text \<open>
  \<open>VirtPageNum::indexes\<close>: the three indexes are below 512, so every access to a page table of
  512 entries is in range, and two page numbers have the same indexes exactly when their low 27 bits
  agree: within the Sv39 address space, different pages never share a page-table slot.
\<close>

theorem indexes_spec:
  "list_all (\<lambda>i. unat i < 512) (indexes v)
   \<and> (indexes v = indexes w \<longleftrightarrow> take_bit 27 v = take_bit 27 w)"
proof
  show "list_all (\<lambda>i. unat i < 512) (indexes v)" by (simp add: indexes_eq unat_and_511)
  show "indexes v = indexes w \<longleftrightarrow> take_bit 27 v = take_bit 27 w" by (rule indexes_eq_iff)
qed

text \<open>
  \<open>VirtAddr::from(usize)\<close> and back: the round trip keeps the low 39 bits and extends bit 38,
  the sign bit of an Sv39 address, over the high bits.
\<close>

theorem virt_addr_sign_extend:
  "usize_from_VirtAddr (VirtAddr_from u) = signed_take_bit 38 u"
proof -
  let ?v = "take_bit 39 u"
  have v: "VirtAddr_from u = ?v" by (simp add: VirtAddr_from_def and_low_mask VA_WIDTH_SV39_def)
  have "push_bit 38 1 \<le> ?v \<longleftrightarrow> bit u 38"
  proof -
    have "unat ?v = unat u mod (2 ^ 38 * 2)"
      by (simp only: unsigned_take_bit_eq) (simp add: take_bit_eq_mod [where 'a = nat])
    also have "\<dots> = 2 ^ 38 * (unat u div 2 ^ 38 mod 2) + unat u mod 2 ^ 38" by (rule mod_mult2_eq)
    finally have m: "unat ?v = 2 ^ 38 * (unat u div 2 ^ 38 mod 2) + unat u mod 2 ^ 38" .
    have b: "bit u 38 \<longleftrightarrow> unat u div 2 ^ 38 mod 2 = 1"
    proof -
      have "bit u 38 \<longleftrightarrow> bit (unat u) 38" by (simp add: bit_unsigned_iff)
      then show ?thesis by (simp add: bit_iff_odd odd_iff_mod_2_eq_one)
    qed
    have "unat u mod 2 ^ 38 < 2 ^ 38" by simp
    with m b show ?thesis
      by (simp add: word_le_nat_alt push_bit_eq_mult) (cases "odd (unat u div 2 ^ 38)"; simp add: odd_iff_mod_2_eq_one even_iff_mod_2_eq_zero)
  qed
  then have e: "usize_from_VirtAddr (VirtAddr_from u) = (if bit u 38 then ?v OR NOT (mask 39) else ?v)"
    by (simp add: usize_from_VirtAddr_def v VA_WIDTH_SV39_def low_mask_eq)
  show ?thesis
  proof (rule bit_word_eqI)
    fix n assume n: "n < LENGTH(64)"
    consider "n < 38" | "n = 38" | "38 < n" by linarith
    then show "bit (usize_from_VirtAddr (VirtAddr_from u)) n = bit (signed_take_bit 38 u) n"
      unfolding e using n by cases (auto simp: bit_simps min_def)
  qed
qed

text \<open>
  A range of page numbers is refused when its ends are in the wrong order; otherwise the
  iterator terminates and yields every page number from the start up to the end, once each and in
  ascending order, for any ends of the machine word.
\<close>

theorem vpn_range_items:
  "map_option (\<lambda>r. map unat (range_items r)) (SimpleRange_new l r)
   = (if l \<le> r then Some [unat l..<unat r] else None)"
  by (simp add: SimpleRange_new_def map_unat_range_items)

end
