(* ===== verification/Allocator.thy ===== *)
theory Allocator
  imports Prelude
begin

text \<open>
  What the kernel expects of an allocator of numbered resources: physical frames
  (\<open>StackFrameAllocator\<close>), process ids, thread ids and kernel stacks (\<open>RecycleAllocator\<close>). The
  providers interpret the locale on their own operations; the clients use the facts proved here.
\<close>

text \<open>
  \<open>live s\<close> are the resources handed out and not yet returned, \<open>managed\<close> those the allocator is
  in charge of, \<open>room s\<close> says that another one can be handed out. Returning a managed resource that
  is not live panics.
\<close>

locale id_allocator =
  fixes alloc :: "'s \<Rightarrow> ('i \<times> 's) option"
    and dealloc :: "'i \<Rightarrow> 's \<Rightarrow> 's option"
    and inv :: "'s \<Rightarrow> bool"
    and live :: "'s \<Rightarrow> 'i set"
    and room :: "'s \<Rightarrow> bool"
    and managed :: "'i set"
  assumes alloc_room: "inv s \<Longrightarrow> room s \<Longrightarrow> \<exists>i s'. alloc s = Some (i, s')"
    and alloc_fresh: "inv s \<Longrightarrow> room s \<Longrightarrow> alloc s = Some (i, s') \<Longrightarrow>
      inv s' \<and> i \<in> managed \<and> i \<notin> live s \<and> live s' = insert i (live s)"
    and dealloc_live: "inv s \<Longrightarrow> i \<in> live s \<Longrightarrow>
      \<exists>s'. dealloc i s = Some s' \<and> inv s' \<and> live s' = live s - {i} \<and> room s'"
    and dealloc_dead: "inv s \<Longrightarrow> i \<in> managed \<Longrightarrow> i \<notin> live s \<Longrightarrow> dealloc i s = None"
begin

lemma alloc_ok:
  assumes "inv s" "room s"
  obtains i s' where "alloc s = Some (i, s')" "inv s'" "i \<in> managed" "i \<notin> live s"
    "live s' = insert i (live s)"
  using alloc_room [OF assms] alloc_fresh [OF assms] by blast

text \<open>A list of different live resources can be returned, in any order.\<close>

lemma dealloc_all:
  "inv s \<Longrightarrow> distinct is \<Longrightarrow> set is \<subseteq> live s \<Longrightarrow>
   \<exists>s'. foldo dealloc is s = Some s' \<and> inv s' \<and> live s' = live s - set is"
proof (induction "is" arbitrary: s)
  case (Cons i "is")
  obtain s1 where s1: "dealloc i s = Some s1" "inv s1" "live s1 = live s - {i}"
    using dealloc_live [of s i] Cons.prems by auto
  then obtain s2 where "foldo dealloc is s1 = Some s2" "inv s2" "live s2 = live s1 - set is"
    using Cons.IH [of s1] Cons.prems by auto
  with s1 show ?case by auto
qed simp

text \<open>A returned resource that is not handed out again cannot be returned twice.\<close>

lemma double_dealloc:
  assumes "inv s" "i \<in> live s" "i \<in> managed" "dealloc i s = Some s'"
  shows "dealloc i s' = None"
  using dealloc_live [OF assms(1,2)] dealloc_dead [of s' i] assms(3,4) by auto

end

end
