(* ===== verification/FrameAlloc.thy ===== *)
theory FrameAlloc
  imports Address Allocator
begin

text \<open>
  The physical frame allocator (\<open>os/src/mm/frame_allocator.rs\<close>) and physical memory. Memory is a
  function from physical page numbers to the 4096 bytes of the page: the kernel reaches it only
  through \<open>PhysPageNum::get_bytes_array\<close>, \<open>get_pte_array\<close> and \<open>PhysAddr::get_mut\<close>, under the
  identity mapping. A \<open>FrameTracker\<close> is its page number; its \<open>Drop\<close> is the explicit call of
  \<open>frame_dealloc\<close> at the place where the source drops it.
\<close>

section \<open>The allocator\<close>

record StackFrameAllocator =
  fa_current :: usize
  fa_end :: usize
  fa_recycled :: "usize list"

definition StackFrameAllocator_new :: StackFrameAllocator where
  "StackFrameAllocator_new = \<lparr>fa_current = 0, fa_end = 0, fa_recycled = []\<rparr>"

definition fa_alloc :: "StackFrameAllocator \<Rightarrow> PhysPageNum option \<times> StackFrameAllocator" where
  "fa_alloc a =
    (if fa_recycled a \<noteq> [] then
       (Some (PhysPageNum_from (last (fa_recycled a))), a\<lparr>fa_recycled := butlast (fa_recycled a)\<rparr>)
     else if fa_current a = fa_end a then (None, a)
     else let a' = a\<lparr>fa_current := fa_current a + 1\<rparr>
          in (Some (PhysPageNum_from (fa_current a' - 1)), a'))"

definition fa_dealloc :: "PhysPageNum \<Rightarrow> StackFrameAllocator \<Rightarrow> StackFrameAllocator option" where
  "fa_dealloc ppn a =
    (if ppn \<ge> fa_current a \<or> find (\<lambda>v. v = ppn) (fa_recycled a) \<noteq> None then None
     else Some (a\<lparr>fa_recycled := fa_recycled a @ [ppn]\<rparr>))"

definition fa_init :: "PhysPageNum \<Rightarrow> PhysPageNum \<Rightarrow> StackFrameAllocator \<Rightarrow> StackFrameAllocator" where
  "fa_init l r a = a\<lparr>fa_current := l, fa_end := r\<rparr>"

section \<open>Memory and trackers\<close>

record kmem =
  FRAME_ALLOCATOR :: StackFrameAllocator
  pages :: "PhysPageNum \<Rightarrow> bytes"

type_synonym FrameTracker = PhysPageNum

definition get_bytes_array :: "kmem \<Rightarrow> PhysPageNum \<Rightarrow> bytes" where
  "get_bytes_array k ppn = pages k ppn"

definition set_bytes_array :: "PhysPageNum \<Rightarrow> bytes \<Rightarrow> kmem \<Rightarrow> kmem" where
  "set_bytes_array ppn bs k = k\<lparr>pages := (pages k)(ppn := bs)\<rparr>"

definition FrameTracker_new :: "PhysPageNum \<Rightarrow> kmem \<Rightarrow> FrameTracker \<times> kmem" where
  "FrameTracker_new ppn k = (ppn, set_bytes_array ppn (map (\<lambda>_. 0) (get_bytes_array k ppn)) k)"

definition init_frame_allocator :: "usize \<Rightarrow> kmem \<Rightarrow> kmem" where
  "init_frame_allocator ekernel k = k\<lparr>FRAME_ALLOCATOR :=
    fa_init (PA_ceil (PhysAddr_from ekernel)) (PA_floor (PhysAddr_from MEMORY_END)) (FRAME_ALLOCATOR k)\<rparr>"

definition frame_alloc :: "kmem \<Rightarrow> FrameTracker option \<times> kmem" where
  "frame_alloc k = (case fa_alloc (FRAME_ALLOCATOR k) of (r, a) \<Rightarrow>
    let k = k\<lparr>FRAME_ALLOCATOR := a\<rparr>
    in (case r of None \<Rightarrow> (None, k)
        | Some ppn \<Rightarrow> (case FrameTracker_new ppn k of (f, k) \<Rightarrow> (Some f, k))))"

definition frame_dealloc :: "PhysPageNum \<Rightarrow> kmem \<Rightarrow> kmem option" where
  "frame_dealloc ppn k = map_option (\<lambda>a. k\<lparr>FRAME_ALLOCATOR := a\<rparr>) (fa_dealloc ppn (FRAME_ALLOCATOR k))"

text \<open>\<open>frame_alloc().unwrap()\<close>\<close>

definition frame_alloc_unwrap :: "kmem \<Rightarrow> (FrameTracker \<times> kmem) option" where
  "frame_alloc_unwrap k = (case frame_alloc k of (Some f, k) \<Rightarrow> Some (f, k) | (None, _) \<Rightarrow> None)"

text \<open>\<open>Drop for FrameTracker\<close>, for the trackers of a container that is dropped.\<close>

definition drop_frames :: "FrameTracker list \<Rightarrow> kmem \<Rightarrow> kmem option" where
  "drop_frames fs k = foldo frame_dealloc fs k"

section \<open>Invariant\<close>

text \<open>
  The allocator manages the frames from \<open>l\<close>, the argument of \<open>init\<close>, up to \<open>fa_end\<close>. The frames
  in use are those below \<open>fa_current\<close> that have not been recycled.
\<close>

definition fa_inv :: "PhysPageNum \<Rightarrow> StackFrameAllocator \<Rightarrow> bool" where
  "fa_inv l a \<longleftrightarrow> l \<le> fa_current a \<and> fa_current a \<le> fa_end a \<and> unat (fa_end a) \<le> 2 ^ 44
    \<and> distinct (fa_recycled a) \<and> set (fa_recycled a) \<subseteq> {l..<fa_current a}"

definition fa_live :: "PhysPageNum \<Rightarrow> StackFrameAllocator \<Rightarrow> PhysPageNum set" where
  "fa_live l a = {l..<fa_current a} - set (fa_recycled a)"

definition fa_room :: "StackFrameAllocator \<Rightarrow> bool" where
  "fa_room a \<longleftrightarrow> fa_recycled a \<noteq> [] \<or> fa_current a \<noteq> fa_end a"

lemma ppn_from_below: "p < e \<Longrightarrow> unat e \<le> 2 ^ 44 \<Longrightarrow> PhysPageNum_from p = p"
  by (rule PhysPageNum_from_id) (simp add: word_less_nat_alt)

lemma find_eq_None: "find (\<lambda>v. v = x) xs \<noteq> None \<longleftrightarrow> x \<in> set xs"
  by (auto simp: find_None_iff)

lemma fa_alloc_recycled:
  assumes "fa_inv l a" "fa_recycled a \<noteq> []"
  shows "fa_alloc a = (Some (last (fa_recycled a)), a\<lparr>fa_recycled := butlast (fa_recycled a)\<rparr>)"
proof -
  have "last (fa_recycled a) < fa_end a"
    using assms last_in_set [OF assms(2)] unfolding fa_inv_def
    by (meson atLeastLessThan_iff order_less_le_trans subsetD)
  then show ?thesis
    using assms by (simp add: fa_alloc_def fa_inv_def ppn_from_below)
qed

lemma fa_alloc_fresh:
  assumes "fa_inv l a" "fa_recycled a = []" "fa_current a \<noteq> fa_end a"
  shows "fa_alloc a = (Some (fa_current a), a\<lparr>fa_current := fa_current a + 1\<rparr>)"
proof -
  have "fa_current a < fa_end a" "unat (fa_end a) \<le> 2 ^ 44"
    using assms by (simp_all add: fa_inv_def order_less_le)
  with assms show ?thesis by (simp add: fa_alloc_def ppn_from_below Let_def)
qed

lemma unat_Suc_below: "(c :: usize) < e \<Longrightarrow> unat (c + 1) = Suc (unat c)"
  using unat_usize_less [of e] by (subst unat_add_usize) (simp_all add: word_less_nat_alt)

lemma atLeastLessThan_plus_one:
  fixes c :: usize
  assumes "l \<le> c" "c < e"
  shows "{l..<c + 1} = insert c {l..<c}"
  using assms unat_Suc_below [OF assms(2)]
  by (auto simp: word_less_nat_alt word_le_nat_alt less_Suc_eq word_unat_eq_iff)

definition fa_take :: "StackFrameAllocator \<Rightarrow> (PhysPageNum \<times> StackFrameAllocator) option" where
  "fa_take a = (case fa_alloc a of (Some p, a') \<Rightarrow> Some (p, a') | (None, _) \<Rightarrow> None)"

interpretation fa: id_allocator fa_take fa_dealloc "fa_inv l" "fa_live l" fa_room "{l..}" for l
proof unfold_locales
  fix s assume inv: "fa_inv l s" and room: "fa_room s"
  then show "\<exists>i s'. fa_take s = Some (i, s')"
    using fa_alloc_recycled [OF inv] fa_alloc_fresh [OF inv]
    by (cases "fa_recycled s = []") (simp_all add: fa_take_def fa_room_def)
next
  fix s i s' assume inv: "fa_inv l s" and room: "fa_room s" and t: "fa_take s = Some (i, s')"
  show "fa_inv l s' \<and> i \<in> {l..} \<and> i \<notin> fa_live l s \<and> fa_live l s' = insert i (fa_live l s)"
  proof (cases "fa_recycled s = []")
    case True
    with room inv have lt: "fa_current s < fa_end s"
      by (simp add: fa_room_def fa_inv_def order_less_le)
    have r: "i = fa_current s" "s' = s\<lparr>fa_current := fa_current s + 1\<rparr>"
      using t fa_alloc_fresh [OF inv True] lt by (auto simp: fa_take_def)
    have "l \<le> fa_current s" using inv by (simp add: fa_inv_def)
    note R = atLeastLessThan_plus_one [OF this lt]
    have "fa_current s + 1 \<le> fa_end s" "l \<le> fa_current s + 1"
      using lt \<open>l \<le> fa_current s\<close> unat_Suc_below [OF lt]
      by (simp_all add: word_le_nat_alt word_less_nat_alt)
    with inv lt show ?thesis
      by (simp add: r fa_inv_def fa_live_def R True)
  next
    case False
    have r: "i = last (fa_recycled s)" "s' = s\<lparr>fa_recycled := butlast (fa_recycled s)\<rparr>"
      using t fa_alloc_recycled [OF inv False] by (simp_all add: fa_take_def)
    obtain xs x where xs: "fa_recycled s = xs @ [x]" using False by (metis rev_exhaust)
    show ?thesis using inv by (auto simp: r xs fa_inv_def fa_live_def)
  qed
next
  fix s i assume "fa_inv l s" "i \<in> fa_live l s"
  then show "\<exists>s'. fa_dealloc i s = Some s' \<and> fa_inv l s' \<and> fa_live l s' = fa_live l s - {i} \<and> fa_room s'"
    by (auto simp: fa_dealloc_def fa_inv_def fa_live_def fa_room_def find_None_iff)
next
  fix s i assume "fa_inv l s" "i \<in> {l..}" "i \<notin> fa_live l s"
  then show "fa_dealloc i s = None"
    by (auto simp: fa_dealloc_def fa_inv_def fa_live_def find_None_iff)
qed

section \<open>Frames with their contents\<close>

definition kmem_inv :: "PhysPageNum \<Rightarrow> kmem \<Rightarrow> bool" where
  "kmem_inv l k \<longleftrightarrow> fa_inv l (FRAME_ALLOCATOR k) \<and> (\<forall>p. length (pages k p) = 4096)"

definition live_frames :: "PhysPageNum \<Rightarrow> kmem \<Rightarrow> PhysPageNum set" where
  "live_frames l k = fa_live l (FRAME_ALLOCATOR k)"

definition has_frame :: "kmem \<Rightarrow> bool" where
  "has_frame k \<longleftrightarrow> fa_room (FRAME_ALLOCATOR k)"

lemma frame_alloc_unwrap_eq:
  "frame_alloc_unwrap k = map_option (\<lambda>(p, a). (p, k\<lparr>FRAME_ALLOCATOR := a,
     pages := (pages k)(p := map (\<lambda>_. 0) (pages k p))\<rparr>)) (fa_take (FRAME_ALLOCATOR k))"
  by (auto simp: frame_alloc_unwrap_def frame_alloc_def fa_take_def FrameTracker_new_def Let_def
      set_bytes_array_def get_bytes_array_def split: prod.splits option.splits)

interpretation km: id_allocator frame_alloc_unwrap frame_dealloc "kmem_inv l" "live_frames l"
  has_frame "{l..}" for l
proof unfold_locales
  fix s i s' assume "kmem_inv l s" "has_frame s" "frame_alloc_unwrap s = Some (i, s')"
  then show "kmem_inv l s' \<and> i \<in> {l..} \<and> i \<notin> live_frames l s \<and> live_frames l s' = insert i (live_frames l s)"
    using fa.alloc_fresh [of l "FRAME_ALLOCATOR s"]
    by (auto simp: kmem_inv_def live_frames_def has_frame_def frame_alloc_unwrap_eq)
next
  fix s assume "kmem_inv l s" "has_frame s"
  then show "\<exists>i s'. frame_alloc_unwrap s = Some (i, s')"
    using fa.alloc_room [of l "FRAME_ALLOCATOR s"]
    by (auto simp: kmem_inv_def has_frame_def frame_alloc_unwrap_eq)
next
  fix s i assume "kmem_inv l s" "i \<in> live_frames l s"
  then show "\<exists>s'. frame_dealloc i s = Some s' \<and> kmem_inv l s' \<and> live_frames l s' = live_frames l s - {i} \<and> has_frame s'"
    using fa.dealloc_live [of l "FRAME_ALLOCATOR s" i]
    by (auto simp: kmem_inv_def live_frames_def has_frame_def frame_dealloc_def)
next
  fix s i assume "kmem_inv l s" "i \<in> {l..}" "i \<notin> live_frames l s"
  then show "frame_dealloc i s = None"
    using fa.dealloc_dead [of l "FRAME_ALLOCATOR s" i]
    by (simp add: kmem_inv_def live_frames_def frame_dealloc_def)
qed

lemma frame_alloc_pages:
  assumes "kmem_inv l k" "frame_alloc_unwrap k = Some (p, k')"
  shows "pages k' = (pages k)(p := replicate 4096 0)"
  using assms by (auto simp: frame_alloc_unwrap_eq kmem_inv_def map_replicate_const)

lemma frame_dealloc_pages: "frame_dealloc p k = Some k' \<Longrightarrow> pages k' = pages k"
  by (auto simp: frame_dealloc_def)

lemma kmem_inv_pages: "kmem_inv l k \<Longrightarrow> length bs = 4096 \<Longrightarrow> kmem_inv l (set_bytes_array p bs k)"
  by (simp add: kmem_inv_def set_bytes_array_def)

lemma live_frames_set_bytes [simp]: "live_frames l (set_bytes_array p bs k) = live_frames l k"
  by (simp add: live_frames_def set_bytes_array_def)

lemma live_frame_bounds:
  assumes "kmem_inv l k" "p \<in> live_frames l k"
  shows "l \<le> p" "unat p < 2 ^ 44"
  using assms
  by (auto simp: kmem_inv_def live_frames_def fa_inv_def fa_live_def word_less_nat_alt word_le_nat_alt)

text \<open>The number of frames that can still be handed out.\<close>

definition free_frames :: "kmem \<Rightarrow> nat" where
  "free_frames k = length (fa_recycled (FRAME_ALLOCATOR k))
    + unat (fa_end (FRAME_ALLOCATOR k) - fa_current (FRAME_ALLOCATOR k))"

lemma has_frame_free: "has_frame k \<longleftrightarrow> 0 < free_frames k"
  by (auto simp: has_frame_def fa_room_def free_frames_def unat_gt_0)

lemma free_frames_set_bytes [simp]: "free_frames (set_bytes_array p bs k) = free_frames k"
  by (simp add: free_frames_def set_bytes_array_def)

lemma frame_alloc_free:
  assumes inv: "kmem_inv l k" and a: "frame_alloc_unwrap k = Some (p, k')"
  shows "free_frames k = Suc (free_frames k')"
proof (cases "fa_recycled (FRAME_ALLOCATOR k) = []")
  case True
  let ?a = "FRAME_ALLOCATOR k"
  have f: "fa_inv l ?a" using inv by (simp add: kmem_inv_def)
  have ne: "fa_current ?a \<noteq> fa_end ?a"
    using a True by (auto simp: frame_alloc_unwrap_eq fa_take_def fa_alloc_def)
  define d where "d = fa_end ?a - fa_current ?a"
  have "d \<noteq> 0" using ne by (simp add: d_def)
  then have u: "unat d = Suc (unat (d - 1))" by (simp add: unat_minus_one unat_gt_0)
  have e: "fa_end ?a - (fa_current ?a + 1) = d - 1" by (simp add: d_def)
  show ?thesis
    using a True fa_alloc_fresh [OF f True ne]
    by (auto simp: frame_alloc_unwrap_eq fa_take_def free_frames_def e u d_def [symmetric])
next
  case False
  with inv a show ?thesis
    using fa_alloc_recycled [of l "FRAME_ALLOCATOR k"]
    by (auto simp: frame_alloc_unwrap_eq fa_take_def free_frames_def kmem_inv_def)
qed

lemma frame_dealloc_free: "frame_dealloc p k = Some k' \<Longrightarrow> free_frames k' = Suc (free_frames k)"
  by (auto simp: frame_dealloc_def fa_dealloc_def free_frames_def split: if_splits)

text \<open>What clients use: the effect of an allocation that has room.\<close>

lemma frame_alloc_ok:
  assumes "kmem_inv l k" "0 < free_frames k"
  obtains p k' where "frame_alloc_unwrap k = Some (p, k')" "kmem_inv l k'" "p \<notin> live_frames l k"
    "live_frames l k' = insert p (live_frames l k)" "pages k' = (pages k)(p := replicate 4096 0)"
    "free_frames k = Suc (free_frames k')" "unat p < 2 ^ 44"
proof -
  obtain p k' where a: "frame_alloc_unwrap k = Some (p, k')" "kmem_inv l k'" "p \<notin> live_frames l k"
    "live_frames l k' = insert p (live_frames l k)"
    using km.alloc_ok [OF assms(1)] assms(2) has_frame_free by metis
  then show thesis
    using frame_alloc_pages [OF assms(1)] frame_alloc_free [OF assms(1)] live_frame_bounds(2) [OF a(2)]
    by (intro that) auto
qed

lemma drop_frames_ok:
  assumes "kmem_inv l k" "distinct fs" "set fs \<subseteq> live_frames l k"
  shows "\<exists>k'. drop_frames fs k = Some k' \<and> kmem_inv l k' \<and> live_frames l k' = live_frames l k - set fs
    \<and> pages k' = pages k"
proof -
  obtain k' where k': "foldo frame_dealloc fs k = Some k'" "kmem_inv l k'" "live_frames l k' = live_frames l k - set fs"
    using km.dealloc_all [OF assms] by blast
  have "foldo frame_dealloc fs k = Some k' \<Longrightarrow> pages k' = pages k" for fs k
    by (induction fs arbitrary: k) (auto simp: bind_eq_Some_conv frame_dealloc_pages)
  then show ?thesis using k' by (simp add: drop_frames_def)
qed

section \<open>Properties\<close>

text \<open>Memory as the kernel finds it after \<open>init_frame_allocator\<close>, with all pages zero.\<close>

definition boot_kmem :: "usize \<Rightarrow> kmem" where
  "boot_kmem ekernel = init_frame_allocator ekernel
    \<lparr>FRAME_ALLOCATOR = StackFrameAllocator_new, pages = \<lambda>_. replicate 4096 0\<rparr>"

lemma boot_kmem_inv:
  assumes "unat ekernel \<le> unat MEMORY_END"
  shows "kmem_inv (VA_ceil ekernel) (boot_kmem ekernel)" "live_frames (VA_ceil ekernel) (boot_kmem ekernel) = {}"
    "fa_end (FRAME_ALLOCATOR (boot_kmem ekernel)) = 0x80800"
    "fa_current (FRAME_ALLOCATOR (boot_kmem ekernel)) = VA_ceil ekernel"
    "fa_recycled (FRAME_ALLOCATOR (boot_kmem ekernel)) = []"
proof -
  have me: "unat MEMORY_END = 2155872256" by (simp add: MEMORY_END_def)
  have "unat (PhysAddr_from ekernel) = unat ekernel" using assms me by (simp add: unat_PhysAddr_from)
  then have id: "PhysAddr_from ekernel = ekernel" by (simp add: word_unat_eq_iff)
  have e: "VA_floor (PhysAddr_from MEMORY_END) = 0x80800"
    by (simp add: word_unat_eq_iff unat_VA_floor unat_PhysAddr_from me)
  have "unat (VA_ceil ekernel) = (unat ekernel + 4095) div 4096"
    using assms me by (intro unat_VA_ceil) simp
  also have "\<dots> \<le> (2155872256 + 4095) div 4096" using assms me by (intro div_le_mono) simp
  finally have "VA_ceil ekernel \<le> 0x80800" by (simp add: word_le_nat_alt)
  then show "kmem_inv (VA_ceil ekernel) (boot_kmem ekernel)" "live_frames (VA_ceil ekernel) (boot_kmem ekernel) = {}"
    "fa_end (FRAME_ALLOCATOR (boot_kmem ekernel)) = 0x80800"
    "fa_current (FRAME_ALLOCATOR (boot_kmem ekernel)) = VA_ceil ekernel"
    "fa_recycled (FRAME_ALLOCATOR (boot_kmem ekernel)) = []"
    by (simp_all add: kmem_inv_def live_frames_def fa_live_def boot_kmem_def init_frame_allocator_def
        fa_init_def fa_inv_def StackFrameAllocator_new_def id e)
qed

lemma no_room_all_live:
  "kmem_inv l k \<Longrightarrow> \<not> has_frame k \<Longrightarrow> live_frames l k = {l..<fa_end (FRAME_ALLOCATOR k)}"
  by (simp add: has_frame_def fa_room_def live_frames_def fa_live_def)

text \<open>
  C18. \<open>frame_alloc\<close> is safe: from a state that satisfies the invariant, either every frame of the
  managed region is in use and it returns \<open>None\<close> with nothing changed, or it returns a frame of the
  region that was not in use, adds exactly that frame to those in use, zeroes it and leaves every other page
  alone, and the invariant holds again.
\<close>

theorem frame_alloc_spec:
  assumes inv: "kmem_inv l k"
  shows "(frame_alloc k = (None, k) \<and> live_frames l k = {l..<fa_end (FRAME_ALLOCATOR k)})
    \<or> (\<exists>p k'. frame_alloc k = (Some p, k') \<and> p \<in> {l..<fa_end (FRAME_ALLOCATOR k)}
        \<and> p \<notin> live_frames l k \<and> live_frames l k' = insert p (live_frames l k)
        \<and> pages k' = (pages k)(p := replicate 4096 0) \<and> kmem_inv l k')"
proof (cases "has_frame k")
  case True
  obtain p k' where a: "frame_alloc_unwrap k = Some (p, k')" "kmem_inv l k'" "p \<in> {l..}"
    "p \<notin> live_frames l k" "live_frames l k' = insert p (live_frames l k)"
    by (rule km.alloc_ok [OF inv True])
  have e: "frame_alloc k = (Some p, k')"
    using a(1) by (auto simp: frame_alloc_unwrap_def split: prod.splits option.splits)
  have "fa_end (FRAME_ALLOCATOR k') = fa_end (FRAME_ALLOCATOR k)"
    using e by (auto simp: frame_alloc_def fa_alloc_def Let_def FrameTracker_new_def set_bytes_array_def
        split: if_splits)
  moreover have "p < fa_end (FRAME_ALLOCATOR k')"
    using a(2,5) unfolding kmem_inv_def fa_inv_def live_frames_def fa_live_def
    by (metis DiffD1 atLeastLessThan_iff insertI1 order_less_le_trans)
  ultimately show ?thesis using a e frame_alloc_pages [OF inv a(1)] by simp
next
  case False
  then have "frame_alloc k = (None, k)"
    by (simp add: frame_alloc_def fa_alloc_def has_frame_def fa_room_def)
  with no_room_all_live [OF inv False] show ?thesis by simp
qed

theorem frame_alloc_spec_witness:
  "(frame_alloc (boot_kmem 0x80500000) = (None, boot_kmem 0x80500000)
      \<and> live_frames 0x80500 (boot_kmem 0x80500000) = {0x80500..<0x80800})
    \<or> (\<exists>p k'. frame_alloc (boot_kmem 0x80500000) = (Some p, k') \<and> p \<in> {0x80500..<0x80800}
        \<and> p \<notin> live_frames 0x80500 (boot_kmem 0x80500000)
        \<and> live_frames 0x80500 k' = insert p (live_frames 0x80500 (boot_kmem 0x80500000))
        \<and> pages k' = (pages (boot_kmem 0x80500000))(p := replicate 4096 0) \<and> kmem_inv 0x80500 k')"
proof -
  have c: "VA_ceil 0x80500000 = (0x80500 :: usize)" by (simp add: VA_ceil_def PAGE_SIZE_def)
  have "unat (0x80500000 :: usize) \<le> unat MEMORY_END" by (simp add: MEMORY_END_def)
  note b = boot_kmem_inv [OF this, unfolded c]
  show ?thesis using frame_alloc_spec [OF b(1)] by (simp only: b(3))
qed

text \<open>
  \<open>frame_dealloc\<close>: a frame in use is returned, is the only one to leave the set of frames in use,
  no page is touched, and the allocator hands it out next; a frame of the region that is not in use
  (never allocated, or returned before) makes the kernel panic.
\<close>

theorem frame_dealloc_spec:
  assumes inv: "kmem_inv l k" and p: "l \<le> p"
  shows "if p \<in> live_frames l k
    then \<exists>k'. frame_dealloc p k = Some k' \<and> kmem_inv l k' \<and> live_frames l k' = live_frames l k - {p}
      \<and> pages k' = pages k \<and> fst (frame_alloc k') = Some p
    else frame_dealloc p k = None"
proof (cases "p \<in> live_frames l k")
  case True
  obtain k' where k': "frame_dealloc p k = Some k'" "kmem_inv l k'" "live_frames l k' = live_frames l k - {p}"
    using km.dealloc_live [OF inv True] by blast
  have "fa_recycled (FRAME_ALLOCATOR k') = fa_recycled (FRAME_ALLOCATOR k) @ [p]"
    using k'(1) by (auto simp: frame_dealloc_def fa_dealloc_def split: if_splits)
  then have "fst (frame_alloc k') = Some p"
    using fa_alloc_recycled [of l "FRAME_ALLOCATOR k'"] k'(2)
    by (simp add: frame_alloc_def kmem_inv_def FrameTracker_new_def Let_def)
  with True k' frame_dealloc_pages [OF k'(1)] show ?thesis by simp
qed (use km.dealloc_dead [OF inv] p in simp)

theorem frame_dealloc_spec_witness:
  "if (0x80501 :: usize) \<in> live_frames 0x80500 (boot_kmem 0x80500000)
    then \<exists>k'. frame_dealloc 0x80501 (boot_kmem 0x80500000) = Some k' \<and> kmem_inv 0x80500 k'
      \<and> live_frames 0x80500 k' = live_frames 0x80500 (boot_kmem 0x80500000) - {0x80501}
      \<and> pages k' = pages (boot_kmem 0x80500000) \<and> fst (frame_alloc k') = Some 0x80501
    else frame_dealloc 0x80501 (boot_kmem 0x80500000) = None"
proof -
  have c: "VA_ceil 0x80500000 = (0x80500 :: usize)" by (simp add: VA_ceil_def PAGE_SIZE_def)
  have "unat (0x80500000 :: usize) \<le> unat MEMORY_END" by (simp add: MEMORY_END_def)
  note b = boot_kmem_inv [OF this, unfolded c]
  show ?thesis by (rule frame_dealloc_spec [OF b(1)]) simp
qed

end
