(* ===== verification/PageTable.thy ===== *)
theory PageTable
  imports FrameAlloc
begin

text \<open>
  Sv39 page tables (\<open>os/src/mm/page_table.rs\<close>): entries, the three-level walk, mapping and
  unmapping, and the helpers with which the kernel reaches user memory. A \<open>&mut PageTableEntry\<close> is
  its location, a page number and an index; a \<open>&mut [u8]\<close> into a page is the page number with the
  two ends of the slice.
\<close>

section \<open>Entries\<close>

type_synonym PTEFlags = u8

definition PTE_V :: PTEFlags where "PTE_V = 1"
definition PTE_R :: PTEFlags where "PTE_R = 2"
definition PTE_W :: PTEFlags where "PTE_W = 4"
definition PTE_X :: PTEFlags where "PTE_X = 8"
definition PTE_U :: PTEFlags where "PTE_U = 16"

type_synonym PageTableEntry = usize

definition PTE_new :: "PhysPageNum \<Rightarrow> PTEFlags \<Rightarrow> PageTableEntry" where
  "PTE_new ppn flags = push_bit 10 ppn OR ucast flags"

definition PTE_empty :: PageTableEntry where
  "PTE_empty = 0"

definition PTE_ppn :: "PageTableEntry \<Rightarrow> PhysPageNum" where
  "PTE_ppn bits = PhysPageNum_from (drop_bit 10 bits AND low_mask 44)"

definition PTE_flags :: "PageTableEntry \<Rightarrow> PTEFlags" where
  "PTE_flags bits = ucast bits"

definition is_valid :: "PageTableEntry \<Rightarrow> bool" where
  "is_valid pte \<longleftrightarrow> PTE_flags pte AND PTE_V \<noteq> 0"

definition readable :: "PageTableEntry \<Rightarrow> bool" where
  "readable pte \<longleftrightarrow> PTE_flags pte AND PTE_R \<noteq> 0"

definition writable :: "PageTableEntry \<Rightarrow> bool" where
  "writable pte \<longleftrightarrow> PTE_flags pte AND PTE_W \<noteq> 0"

definition executable :: "PageTableEntry \<Rightarrow> bool" where
  "executable pte \<longleftrightarrow> PTE_flags pte AND PTE_X \<noteq> 0"

section \<open>Tables\<close>

record PageTable =
  root_ppn :: PhysPageNum
  pt_frames :: "FrameTracker list"

type_synonym pte_ref = "PhysPageNum \<times> usize"

definition get_pte_array :: "kmem \<Rightarrow> PhysPageNum \<Rightarrow> PageTableEntry list" where
  "get_pte_array k ppn = decode_array 8 512 (pages k ppn)"

definition get_pte :: "kmem \<Rightarrow> pte_ref \<Rightarrow> PageTableEntry option" where
  "get_pte k r = index_at (get_pte_array k (fst r)) (unat (snd r))"

definition set_pte :: "pte_ref \<Rightarrow> PageTableEntry \<Rightarrow> kmem \<Rightarrow> kmem" where
  "set_pte r pte k =
    set_bytes_array (fst r) (encode_array 8 ((get_pte_array k (fst r))[unat (snd r) := pte])) k"

definition PageTable_new :: "kmem \<Rightarrow> (PageTable \<times> kmem) option" where
  "PageTable_new k = do {
    (frame, k) \<leftarrow> frame_alloc_unwrap k;
    Some (\<lparr>root_ppn = frame, pt_frames = [frame]\<rparr>, k)
  }"

fun find_pte_create_loop ::
  "usize list \<Rightarrow> PhysPageNum \<Rightarrow> PageTable \<Rightarrow> kmem \<Rightarrow> (pte_ref option \<times> PageTable \<times> kmem) option" where
  "find_pte_create_loop [] ppn pt k = Some (None, pt, k)"
| "find_pte_create_loop [i] ppn pt k = do {
    _ \<leftarrow> get_pte k (ppn, i);
    Some (Some (ppn, i), pt, k)
  }"
| "find_pte_create_loop (i # j # js) ppn pt k = do {
    pte \<leftarrow> get_pte k (ppn, i);
    if \<not> is_valid pte then do {
      (frame, k) \<leftarrow> frame_alloc_unwrap k;
      let pte = PTE_new frame PTE_V;
      let k = set_pte (ppn, i) pte k;
      find_pte_create_loop (j # js) (PTE_ppn pte) (pt\<lparr>pt_frames := pt_frames pt @ [frame]\<rparr>) k
    } else find_pte_create_loop (j # js) (PTE_ppn pte) pt k
  }"

definition find_pte_create ::
  "PageTable \<Rightarrow> VirtPageNum \<Rightarrow> kmem \<Rightarrow> (pte_ref option \<times> PageTable \<times> kmem) option" where
  "find_pte_create pt vpn k = find_pte_create_loop (indexes vpn) (root_ppn pt) pt k"

fun find_pte_loop :: "usize list \<Rightarrow> PhysPageNum \<Rightarrow> kmem \<Rightarrow> pte_ref option option" where
  "find_pte_loop [] ppn k = Some None"
| "find_pte_loop [i] ppn k = do { _ \<leftarrow> get_pte k (ppn, i); Some (Some (ppn, i)) }"
| "find_pte_loop (i # j # js) ppn k = do {
    pte \<leftarrow> get_pte k (ppn, i);
    if \<not> is_valid pte then Some None else find_pte_loop (j # js) (PTE_ppn pte) k
  }"

definition find_pte :: "PageTable \<Rightarrow> VirtPageNum \<Rightarrow> kmem \<Rightarrow> pte_ref option option" where
  "find_pte pt vpn k = find_pte_loop (indexes vpn) (root_ppn pt) k"

definition pt_map ::
  "VirtPageNum \<Rightarrow> PhysPageNum \<Rightarrow> PTEFlags \<Rightarrow> PageTable \<Rightarrow> kmem \<Rightarrow> (PageTable \<times> kmem) option" where
  "pt_map vpn ppn flags pt k = do {
    (r, pt, k) \<leftarrow> find_pte_create pt vpn k;
    r \<leftarrow> r;
    pte \<leftarrow> get_pte k r;
    assert_that (\<not> is_valid pte);
    Some (pt, set_pte r (PTE_new ppn (flags OR PTE_V)) k)
  }"

definition pt_unmap :: "VirtPageNum \<Rightarrow> PageTable \<Rightarrow> kmem \<Rightarrow> kmem option" where
  "pt_unmap vpn pt k = do {
    r \<leftarrow> find_pte pt vpn k;
    r \<leftarrow> r;
    pte \<leftarrow> get_pte k r;
    assert_that (is_valid pte);
    Some (set_pte r PTE_empty k)
  }"

definition from_token :: "usize \<Rightarrow> PageTable" where
  "from_token satp = \<lparr>root_ppn = PhysPageNum_from (satp AND low_mask 44), pt_frames = []\<rparr>"

definition pt_translate :: "PageTable \<Rightarrow> VirtPageNum \<Rightarrow> kmem \<Rightarrow> PageTableEntry option option" where
  "pt_translate pt vpn k = do {
    r \<leftarrow> find_pte pt vpn k;
    (case r of None \<Rightarrow> Some None | Some r \<Rightarrow> do { pte \<leftarrow> get_pte k r; Some (Some pte) })
  }"

definition pt_token :: "PageTable \<Rightarrow> usize" where
  "pt_token pt = push_bit 60 8 OR root_ppn pt"

definition translate_va :: "PageTable \<Rightarrow> VirtAddr \<Rightarrow> kmem \<Rightarrow> PhysAddr option option" where
  "translate_va pt va k = do {
    r \<leftarrow> find_pte pt (VA_floor va) k;
    (case r of None \<Rightarrow> Some None | Some r \<Rightarrow> do {
      pte \<leftarrow> get_pte k r;
      let aligned_pa = PhysAddr_from_PhysPageNum (PTE_ppn pte);
      let offset = VA_page_offset va;
      Some (Some (PhysAddr_from (aligned_pa + offset)))
    })
  }"

text \<open>\<open>Drop\<close> of a page table drops its trackers in order.\<close>

definition PageTable_drop :: "PageTable \<Rightarrow> kmem \<Rightarrow> kmem option" where
  "PageTable_drop pt k = drop_frames (pt_frames pt) k"

section \<open>User memory\<close>

record byte_slice =
  sl_ppn :: PhysPageNum
  sl_from :: nat
  sl_to :: nat

definition slice_bytes :: "kmem \<Rightarrow> byte_slice \<Rightarrow> bytes" where
  "slice_bytes k s = slice_at (sl_from s) (sl_to s - sl_from s) (pages k (sl_ppn s))"

text \<open>\<open>&mut page[a..b]\<close> panics unless \<open>a \<le> b \<le> 4096\<close>.\<close>

definition page_slice :: "PhysPageNum \<Rightarrow> nat \<Rightarrow> nat \<Rightarrow> byte_slice option" where
  "page_slice ppn a b = do {
    assert_that (a \<le> b \<and> b \<le> 4096);
    Some \<lparr>sl_ppn = ppn, sl_from = a, sl_to = b\<rparr>
  }"

partial_function (option) tbb_loop ::
  "PageTable \<Rightarrow> kmem \<Rightarrow> usize \<Rightarrow> usize \<Rightarrow> byte_slice list \<Rightarrow> byte_slice list option" where
  "tbb_loop pt k start end' v =
    (if start < end' then do {
       let start_va = VirtAddr_from start;
       let vpn = VA_floor start_va;
       r \<leftarrow> pt_translate pt vpn k;
       pte \<leftarrow> r;
       let ppn = PTE_ppn pte;
       let vpn = step vpn;
       let end_va = min (VirtAddr_from_VirtPageNum vpn) (VirtAddr_from end');
       s \<leftarrow> (if VA_page_offset end_va = 0 then page_slice ppn (unat (VA_page_offset start_va)) 4096
             else page_slice ppn (unat (VA_page_offset start_va)) (unat (VA_page_offset end_va)));
       tbb_loop pt k (usize_from_VirtAddr end_va) end' (v @ [s])
     } else Some v)"

definition translated_byte_buffer :: "kmem \<Rightarrow> usize \<Rightarrow> usize \<Rightarrow> usize \<Rightarrow> byte_slice list option" where
  "translated_byte_buffer k token ptr len = tbb_loop (from_token token) k ptr (ptr + len) []"

text \<open>\<open>PhysAddr::get_mut\<close> of a byte; a null pointer panics in \<open>as_mut().unwrap()\<close>.\<close>

definition PhysAddr_get_mut :: "PhysAddr \<Rightarrow> PhysAddr option" where
  "PhysAddr_get_mut pa = (if pa = 0 then None else Some pa)"

definition load_byte :: "kmem \<Rightarrow> PhysAddr \<Rightarrow> u8" where
  "load_byte k pa = pages k (PA_floor pa) ! unat (PA_page_offset pa)"

definition store_byte :: "PhysAddr \<Rightarrow> u8 \<Rightarrow> kmem \<Rightarrow> kmem" where
  "store_byte pa b k =
    set_bytes_array (PA_floor pa) ((pages k (PA_floor pa))[unat (PA_page_offset pa) := b]) k"

definition translated_refmut :: "kmem \<Rightarrow> usize \<Rightarrow> usize \<Rightarrow> PhysAddr option" where
  "translated_refmut k token ptr = do {
    r \<leftarrow> translate_va (from_token token) (VirtAddr_from ptr) k;
    pa \<leftarrow> r;
    PhysAddr_get_mut pa
  }"

definition translated_ref :: "kmem \<Rightarrow> usize \<Rightarrow> usize \<Rightarrow> PhysAddr option" where
  "translated_ref k token ptr = do {
    r \<leftarrow> translate_va (from_token token) (VirtAddr_from ptr) k;
    pa \<leftarrow> r;
    PhysAddr_get_mut pa
  }"

text \<open>\<open>string.push(ch as char)\<close>: the UTF-8 encoding of the character whose code is the byte.\<close>

definition push_char :: "u8 \<Rightarrow> bytes" where
  "push_char ch = (if ch < 0x80 then [ch] else [0xC0 OR drop_bit 6 ch, 0x80 OR (ch AND 0x3F)])"

partial_function (option) translated_str_loop :: "PageTable \<Rightarrow> kmem \<Rightarrow> usize \<Rightarrow> bytes \<Rightarrow> bytes option" where
  "translated_str_loop pt k va str = do {
    r \<leftarrow> translate_va pt (VirtAddr_from va) k;
    pa \<leftarrow> r;
    pa \<leftarrow> PhysAddr_get_mut pa;
    let ch = load_byte k pa;
    if ch = 0 then Some str else translated_str_loop pt k (va + 1) (str @ push_char ch)
  }"

definition translated_str :: "kmem \<Rightarrow> usize \<Rightarrow> usize \<Rightarrow> bytes option" where
  "translated_str k token ptr = translated_str_loop (from_token token) k ptr []"

section \<open>User buffers\<close>

record UserBuffer =
  buffers :: "byte_slice list"

definition UserBuffer_new :: "byte_slice list \<Rightarrow> UserBuffer" where
  "UserBuffer_new bs = \<lparr>buffers = bs\<rparr>"

definition slice_len :: "byte_slice \<Rightarrow> nat" where
  "slice_len s = sl_to s - sl_from s"

definition UserBuffer_len :: "UserBuffer \<Rightarrow> nat" where
  "UserBuffer_len b = sum_list (map slice_len (buffers b))"

record UserBufferIterator =
  it_buffers :: "byte_slice list"
  current_buffer :: nat
  current_idx :: nat

type_synonym byte_ptr = "PhysPageNum \<times> nat"

definition UserBufferIterator_next ::
  "UserBufferIterator \<Rightarrow> (byte_ptr option \<times> UserBufferIterator) option" where
  "UserBufferIterator_next it =
    (if current_buffer it \<ge> length (it_buffers it) then Some (None, it)
     else do {
       b \<leftarrow> index_at (it_buffers it) (current_buffer it);
       assert_that (current_idx it < slice_len b);
       let r = (sl_ppn b, sl_from b + current_idx it);
       Some (Some r,
         if current_idx it + 1 = slice_len b
         then it\<lparr>current_buffer := current_buffer it + 1, current_idx := 0\<rparr>
         else it\<lparr>current_idx := current_idx it + 1\<rparr>)
     })"

definition UserBuffer_into_iter :: "UserBuffer \<Rightarrow> UserBufferIterator" where
  "UserBuffer_into_iter b = \<lparr>it_buffers = buffers b, current_buffer = 0, current_idx = 0\<rparr>"

section \<open>Facts on entries\<close>

named_theorems pte_simps \<open>fields of page-table entries and entries of tables\<close>

lemma PTE_flags_new [pte_simps, simp]: "PTE_flags (PTE_new p f) = f"
proof (rule bit_word_eqI)
  fix n assume "n < LENGTH(8)"
  then show "bit (PTE_flags (PTE_new p f)) n = bit f n"
    by (simp add: PTE_flags_def PTE_new_def bit_simps)
qed

lemma PTE_ppn_new [pte_simps, simp]:
  assumes "unat p < 2 ^ 44"
  shows "PTE_ppn (PTE_new p f) = p"
proof -
  have hi: "\<not> bit p n" if "44 \<le> n" for n
  proof -
    have "take_bit 44 p = p"
      using assms by (simp add: word_unat_eq_iff unsigned_take_bit_eq take_bit_nat_eq_self)
    then show ?thesis using that by (metis bit_take_bit_iff not_le)
  qed
  have fn: "\<not> bit f (n + 10)" for n using bit_imp_le_length [of f "n + 10"] by auto
  have "drop_bit 10 (PTE_new p f) AND low_mask 44 = p"
  proof (rule bit_word_eqI)
    fix n assume "n < LENGTH(64)"
    then show "bit (drop_bit 10 (PTE_new p f) AND low_mask 44) n = bit p n"
      using hi [of n] fn [of n]
      by (cases "n < 44") (simp_all add: and_low_mask PTE_new_def bit_simps add.commute)
  qed
  then show ?thesis by (simp add: PTE_ppn_def PhysPageNum_from_id [OF assms])
qed

lemma unat_PTE_ppn: "unat (PTE_ppn e) < 2 ^ 44"
  by (simp add: PTE_ppn_def unat_PhysPageNum_from)

lemma is_valid_new [pte_simps, simp]: "is_valid (PTE_new p (f OR PTE_V))" "is_valid (PTE_new p PTE_V)"
proof -
  have "bit ((f OR PTE_V) AND PTE_V) 0" by (simp add: PTE_V_def bit_simps)
  then show "is_valid (PTE_new p (f OR PTE_V))" by (auto simp: is_valid_def)
qed (simp add: is_valid_def PTE_V_def)

lemma is_valid_empty [pte_simps, simp]: "\<not> is_valid 0" "\<not> is_valid PTE_empty"
  by (simp_all add: is_valid_def PTE_flags_def PTE_empty_def)

text \<open>Entry \<open>i\<close> of the table in frame \<open>p\<close>.\<close>

definition entry :: "kmem \<Rightarrow> PhysPageNum \<Rightarrow> usize \<Rightarrow> PageTableEntry" where
  "entry k p i = get_pte_array k p ! unat i"

lemma get_pte_entry [simp]: "unat i < 512 \<Longrightarrow> get_pte k (p, i) = Some (entry k p i)"
  by (simp add: get_pte_def entry_def get_pte_array_def)

lemma entry_set_pte [pte_simps]:
  assumes "unat i < 512" "unat c < 512"
  shows "entry (set_pte (f, c) v k) p i = (if p = f \<and> i = c then v else entry k p i)"
  using assms
  by (auto simp: entry_def get_pte_array_def set_pte_def set_bytes_array_def nth_list_update
      simp flip: word_unat_eq_iff)

lemma entry_zero: "pages k p = replicate 4096 0 \<Longrightarrow> unat i < 512 \<Longrightarrow> entry k p i = 0"
proof -
  have "le_decode (replicate n 0) = 0" for n by (induction n) simp_all
  then show "pages k p = replicate 4096 0 \<Longrightarrow> unat i < 512 \<Longrightarrow> entry k p i = 0"
    by (simp add: entry_def get_pte_array_def nth_decode_array slice_at_def min_def)
qed

lemma entry_pages_cong: "pages k' p = pages k p \<Longrightarrow> entry k' p i = entry k p i"
  by (simp add: entry_def get_pte_array_def)

lemma set_pte_frame [simp]:
  "live_frames l (set_pte r v k) = live_frames l k" "free_frames (set_pte r v k) = free_frames k"
  "p \<noteq> fst r \<Longrightarrow> pages (set_pte r v k) p = pages k p"
  by (simp_all add: set_pte_def) (simp add: set_bytes_array_def)

lemma set_pte_inv: "kmem_inv l k \<Longrightarrow> kmem_inv l (set_pte r v k)"
  by (simp add: set_pte_def kmem_inv_pages get_pte_array_def)

end
