(* ===== verification/PageTableSpec.thy ===== *)
theory PageTableSpec
  imports PageTable
begin

text \<open>
  What a page table means: the tables reachable from the root form a tree, and the tree stands for
  a partial map from virtual page numbers to valid entries. \<open>map\<close> and \<open>unmap\<close> are an update and
  a removal of that map; \<open>find_pte_create\<close> grows the tree without changing the map.
\<close>

section \<open>The tree of tables\<close>

fun walk :: "kmem \<Rightarrow> PhysPageNum \<Rightarrow> usize list \<Rightarrow> PhysPageNum option" where
  "walk k p [] = Some p"
| "walk k p (i # is) = (if is_valid (entry k p i) then walk k (PTE_ppn (entry k p i)) is else None)"

definition idx_ok :: "usize list \<Rightarrow> bool" where
  "idx_ok is \<longleftrightarrow> (\<forall>i\<in>set is. unat i < 512)"

lemma idx_ok_simps [simp]: "idx_ok []" "idx_ok (i # is) \<longleftrightarrow> unat i < 512 \<and> idx_ok is"
  "idx_ok (is @ js) \<longleftrightarrow> idx_ok is \<and> idx_ok js"
  by (auto simp: idx_ok_def)

text \<open>The paths that lead to a table: at most two indexes.\<close>

definition table_path :: "usize list \<Rightarrow> bool" where
  "table_path is \<longleftrightarrow> length is \<le> 2 \<and> idx_ok is"

definition tables :: "kmem \<Rightarrow> PhysPageNum \<Rightarrow> PhysPageNum set" where
  "tables k r = {f. \<exists>is. table_path is \<and> walk k r is = Some f}"

definition wf_tree :: "kmem \<Rightarrow> PhysPageNum \<Rightarrow> bool" where
  "wf_tree k r \<longleftrightarrow> (\<forall>is js f. table_path is \<and> table_path js \<and> walk k r is = Some f \<and> walk k r js = Some f
    \<longrightarrow> is = js)"

text \<open>The map a page table stands for.\<close>

definition mapping :: "kmem \<Rightarrow> PhysPageNum \<Rightarrow> VirtPageNum \<Rightarrow> PageTableEntry option" where
  "mapping k r vpn = (case walk k r (butlast (indexes vpn)) of None \<Rightarrow> None
    | Some f \<Rightarrow> let e = entry k f (last (indexes vpn)) in if is_valid e then Some e else None)"

text \<open>The invariant of a page table with its trackers.\<close>

definition pt_inv :: "PhysPageNum \<Rightarrow> PageTable \<Rightarrow> kmem \<Rightarrow> bool" where
  "pt_inv l pt k \<longleftrightarrow> wf_tree k (root_ppn pt) \<and> set (pt_frames pt) = tables k (root_ppn pt)
    \<and> distinct (pt_frames pt) \<and> set (pt_frames pt) \<subseteq> live_frames l k"

lemma pt_inv_live: "pt_inv l pt k \<Longrightarrow> set (pt_frames pt) \<subseteq> live_frames l k"
  unfolding pt_inv_def by blast

lemma walk_append: "walk k p (is @ js) = walk k p is \<bind> (\<lambda>q. walk k q js)"
  by (induction "is" arbitrary: p) simp_all

lemma walk_cong:
  "(\<And>ps i qs g. is = ps @ i # qs \<Longrightarrow> walk k p ps = Some g \<Longrightarrow> entry k' g i = entry k g i) \<Longrightarrow>
   walk k' p is = walk k p is"
proof (induction "is" arbitrary: p)
  case (Cons i "is")
  have e: "entry k' p i = entry k p i" using Cons.prems [of "[]" i "is"] by simp
  show ?case
  proof (cases "is_valid (entry k p i)")
    case True
    have "walk k' (PTE_ppn (entry k p i)) is = walk k (PTE_ppn (entry k p i)) is"
    proof (rule Cons.IH)
      fix ps j qs g assume "is = ps @ j # qs" "walk k (PTE_ppn (entry k p i)) ps = Some g"
      then show "entry k' g j = entry k g j" using Cons.prems [of "i # ps" j qs g] True by simp
    qed
    with e True show ?thesis by simp
  qed (simp add: e)
qed simp

lemma table_path_prefix: "table_path (ps @ qs) \<Longrightarrow> table_path ps"
  by (auto simp: table_path_def)

lemma indexes_path: "table_path (butlast (indexes vpn))" "unat (last (indexes vpn)) < 512"
  "length (butlast (indexes vpn)) = 2" "indexes vpn = butlast (indexes vpn) @ [last (indexes vpn)]"
  by (simp_all add: indexes_eq table_path_def unat_and_511)

lemma walk_root_table: "r \<in> tables k r"
  unfolding tables_def using walk.simps(1) [of k r] by (auto simp: table_path_def intro!: exI [of _ "[]"])

lemma walk_in_tables: "table_path is \<Longrightarrow> walk k r is = Some f \<Longrightarrow> f \<in> tables k r"
  by (auto simp: tables_def)

text \<open>Only the pages of the tables matter.\<close>

lemma tables_pages_cong:
  assumes same: "\<And>p. p \<in> tables k r \<Longrightarrow> pages k' p = pages k p"
  shows "table_path is \<Longrightarrow> walk k' r is = walk k r is" "tables k' r = tables k r" "wf_tree k' r = wf_tree k r"
    "mapping k' r = mapping k r"
proof -
  have w: "walk k' r is = walk k r is" if "table_path is" for "is"
  proof (rule walk_cong)
    fix ps i qs g assume "is = ps @ i # qs" "walk k r ps = Some g"
    with that have "g \<in> tables k r" by (auto intro: walk_in_tables table_path_prefix)
    then show "entry k' g i = entry k g i" by (intro entry_pages_cong same)
  qed
  then show "table_path is \<Longrightarrow> walk k' r is = walk k r is" .
  show "tables k' r = tables k r" using w by (auto simp: tables_def)
  show "wf_tree k' r = wf_tree k r" using w by (auto simp: wf_tree_def)
  show "mapping k' r = mapping k r"
  proof
    fix vpn
    show "mapping k' r vpn = mapping k r vpn"
      using w [OF indexes_path(1)] entry_pages_cong [OF same [OF walk_in_tables [OF indexes_path(1)]]]
      by (auto simp: mapping_def split: option.splits)
  qed
qed

lemma pt_inv_pages_cong:
  assumes "pt_inv l pt k" "\<And>p. p \<in> set (pt_frames pt) \<Longrightarrow> pages k' p = pages k p"
    and "set (pt_frames pt) \<subseteq> live_frames l k'"
  shows "pt_inv l pt k'" "mapping k' (root_ppn pt) = mapping k (root_ppn pt)"
  using assms tables_pages_cong [of k "root_ppn pt" k'] by (auto simp: pt_inv_def)

section \<open>Writing an entry\<close>

text \<open>A write at index \<open>c\<close> of the table at path \<open>js\<close> is seen only by the paths through that entry.\<close>

lemma walk_set_pte_other:
  assumes wf: "wf_tree k r" and js: "table_path js" "walk k r js = Some f" and c: "unat c < 512"
    and "is": "table_path is" and other: "\<nexists>qs. is = js @ c # qs"
  shows "walk (set_pte (f, c) v k) r is = walk k r is"
proof (rule walk_cong)
  fix ps i qs g assume eq: "is = ps @ i # qs" and w: "walk k r ps = Some g"
  have ps: "table_path ps" and i: "unat i < 512"
    using "is" eq by (auto intro: table_path_prefix simp: table_path_def)
  have "\<not> (g = f \<and> i = c)"
  proof
    assume "g = f \<and> i = c"
    with w js ps wf have "ps = js" by (auto simp: wf_tree_def)
    with eq other \<open>g = f \<and> i = c\<close> show False by blast
  qed
  then show "entry (set_pte (f, c) v k) g i = entry k g i"
    by (auto simp: entry_set_pte [OF i c])
qed

text \<open>Leaf entries: the tree stays, the map changes at one page.\<close>

lemma leaf_write:
  fixes v :: PageTableEntry
  assumes wf: "wf_tree k r" and vpn: "walk k r (butlast (indexes vpn)) = Some f"
  defines "k' \<equiv> set_pte (f, last (indexes vpn)) v k"
  shows "table_path is \<Longrightarrow> walk k' r is = walk k r is" "wf_tree k' r" "tables k' r = tables k r"
    "take_bit 27 w = take_bit 27 vpn \<Longrightarrow> mapping k' r w = (if is_valid v then Some v else None)"
    "take_bit 27 w \<noteq> take_bit 27 vpn \<Longrightarrow> mapping k' r w = mapping k r w"
proof -
  note ip = indexes_path [of vpn]
  have W: "walk k' r is = walk k r is" if "table_path is" for "is"
    unfolding k'_def
  proof (rule walk_set_pte_other [OF wf ip(1) vpn ip(2) that])
    show "\<nexists>qs. is = butlast (indexes vpn) @ last (indexes vpn) # qs"
      using that ip(3) by (auto simp: table_path_def)
  qed
  then show "table_path is \<Longrightarrow> walk k' r is = walk k r is" .
  show "wf_tree k' r" using wf W by (auto simp: wf_tree_def)
  show "tables k' r = tables k r" using W by (auto simp: tables_def)
  have e: "entry k' g i = (if g = f \<and> i = last (indexes vpn) then v else entry k g i)" if "unat i < 512" for g i
    unfolding k'_def by (rule entry_set_pte [OF that ip(2)])
  have ix: "indexes w = indexes vpn \<longleftrightarrow> take_bit 27 w = take_bit 27 vpn"
    by (metis indexes_eq_iff)
  show "mapping k' r w = (if is_valid v then Some v else None)" if "take_bit 27 w = take_bit 27 vpn"
    using that ix W [OF ip(1)] vpn e [OF ip(2)] by (simp add: mapping_def)
  show "mapping k' r w = mapping k r w" if "take_bit 27 w \<noteq> take_bit 27 vpn"
  proof (cases "walk k r (butlast (indexes w))")
    case None
    then show ?thesis using W [OF indexes_path(1) [of w]] by (simp add: mapping_def)
  next
    case (Some g)
    have "\<not> (g = f \<and> last (indexes w) = last (indexes vpn))"
    proof
      assume "g = f \<and> last (indexes w) = last (indexes vpn)"
      moreover from this have "butlast (indexes w) = butlast (indexes vpn)"
        using wf Some vpn indexes_path(1) by (auto simp: wf_tree_def)
      ultimately have "indexes w = indexes vpn" by (metis indexes_path(4))
      with ix that show False by simp
    qed
    then have "entry k' g (last (indexes w)) = entry k g (last (indexes w))"
      using e [OF indexes_path(2) [of w], of g] by auto
    with Some show ?thesis using W [OF indexes_path(1) [of w]] by (simp add: mapping_def)
  qed
qed

section \<open>Growing the tree\<close>

text \<open>
  A fresh zeroed frame \<open>g\<close> hooked in at index \<open>c\<close> of the table at path \<open>js\<close>: one more table, the
  same map.
\<close>

lemma hook_table:
  assumes wf: "wf_tree k r" and js: "table_path (js @ [c])" "walk k r js = Some f"
    and inval: "\<not> is_valid (entry k f c)"
    and g: "g \<notin> tables k r" "pages k g = replicate 4096 0" "unat g < 2 ^ 44"
  defines "k' \<equiv> set_pte (f, c) (PTE_new g PTE_V) k"
  shows "walk k' r (js @ [c]) = Some g" "walk k' r js = Some f" "wf_tree k' r"
    "tables k' r = insert g (tables k r)" "mapping k' r = mapping k r"
proof -
  have jp: "table_path js" and c: "unat c < 512" and len: "length js \<le> 1"
    using js(1) by (auto simp: table_path_def)
  have fg: "f \<noteq> g" using g(1) walk_in_tables [OF jp js(2)] by blast
  have e: "entry k' p i = (if p = f \<and> i = c then PTE_new g PTE_V else entry k p i)" if "unat i < 512" for p i
    unfolding k'_def by (rule entry_set_pte [OF that c])
  have other: "walk k' r is = walk k r is" if "table_path is" "\<nexists>qs. is = js @ c # qs" for "is"
    unfolding k'_def by (rule walk_set_pte_other [OF wf jp js(2) c that])
  have old_None: "walk k r (js @ c # qs) = None" for qs
    using inval js(2) by (simp add: walk_append)
  show f: "walk k' r js = Some f" using other [OF jp] js(2) by simp
  then show gw: "walk k' r (js @ [c]) = Some g"
    using g(3) c by (simp add: walk_append e)
  have g_None: "walk k' r (js @ c # i # qs) = None" if "unat i < 512" for i qs
    using f g(2,3) c that fg by (simp add: walk_append e entry_zero)
  have paths: "walk k' r is = Some q \<longleftrightarrow> walk k r is = Some q \<or> is = js @ [c] \<and> q = g" if "table_path is" for "is" q
  proof (cases "\<exists>qs. is = js @ c # qs")
    case True
    then obtain qs where qs: "is = js @ c # qs" by blast
    show ?thesis
    proof (cases qs)
      case Nil
      with qs gw old_None [of "[]"] show ?thesis by auto
    next
      case (Cons i qs')
      with that qs have "unat i < 512" by (simp add: table_path_def)
      with qs Cons g_None [of i qs'] old_None [of qs] show ?thesis by auto
    qed
  next
    case False
    then show ?thesis using other [OF that] by auto
  qed
  show "tables k' r = insert g (tables k r)"
    using paths js(1) by (auto simp: tables_def)
  show "wf_tree k' r"
    unfolding wf_tree_def
  proof (intro allI impI)
    fix "is" is' q
    assume h: "table_path is \<and> table_path is' \<and> walk k' r is = Some q \<and> walk k' r is' = Some q"
    then have d: "walk k r is = Some q \<or> is = js @ [c] \<and> q = g" "walk k r is' = Some q \<or> is' = js @ [c] \<and> q = g"
      using paths by blast+
    show "is = is'"
    proof (cases "q = g")
      case True
      then have "walk k r is \<noteq> Some q" "walk k r is' \<noteq> Some q" using h g(1) walk_in_tables by blast+
      with d show ?thesis by blast
    next
      case False
      with d h wf show ?thesis by (auto simp: wf_tree_def)
    qed
  qed
  show "mapping k' r = mapping k r"
  proof
    fix vpn
    let ?p = "butlast (indexes vpn)" and ?i = "last (indexes vpn)"
    note ip = indexes_path [of vpn]
    show "mapping k' r vpn = mapping k r vpn"
    proof (cases "walk k' r ?p")
      case None
      moreover have "walk k r ?p = None" using None paths [OF ip(1)] by (cases "walk k r ?p") auto
      ultimately show ?thesis by (simp add: mapping_def)
    next
      case (Some q)
      show ?thesis
      proof (cases "walk k r ?p = Some q")
        case True
        have "q \<noteq> f" using True js(2) jp ip(1,3) len wf unfolding wf_tree_def by (metis not_one_le_zero one_le_numeral Suc_1 not_less_eq_eq order.refl)
        then have "entry k' q ?i = entry k q ?i" by (simp add: e ip(2))
        with Some True show ?thesis by (simp add: mapping_def)
      next
        case False
        with Some paths [OF ip(1)] have p: "?p = js @ [c]" "q = g" by auto
        then have "entry k' q ?i = 0" using fg by (simp add: e ip(2) entry_zero g(2))
        moreover have "walk k r ?p = None" using old_None [of "[]"] p by simp
        ultimately show ?thesis using Some by (simp add: mapping_def)
      qed
    qed
  qed
qed

text \<open>
  The change of state of the operations that may create tables: new tables come from fresh frames,
  and no live frame outside the table changes.
\<close>

definition pt_ext :: "PhysPageNum \<Rightarrow> PageTable \<Rightarrow> kmem \<Rightarrow> PageTable \<Rightarrow> kmem \<Rightarrow> bool" where
  "pt_ext l pt k pt' k' \<longleftrightarrow> kmem_inv l k' \<and> pt_inv l pt' k' \<and> root_ppn pt' = root_ppn pt
    \<and> (\<exists>new. pt_frames pt' = pt_frames pt @ new \<and> set new \<inter> live_frames l k = {}
        \<and> live_frames l k' = live_frames l k \<union> set new \<and> free_frames k = free_frames k' + length new)
    \<and> (\<forall>p\<in>live_frames l k - set (pt_frames pt). pages k' p = pages k p)"

text \<open>A walk that creates tables moreover keeps the map.\<close>

definition pt_grows :: "PhysPageNum \<Rightarrow> PageTable \<Rightarrow> kmem \<Rightarrow> PageTable \<Rightarrow> kmem \<Rightarrow> bool" where
  "pt_grows l pt k pt' k' \<longleftrightarrow> pt_ext l pt k pt' k' \<and> mapping k' (root_ppn pt) = mapping k (root_ppn pt)"

lemma pt_grows_refl: "kmem_inv l k \<Longrightarrow> pt_inv l pt k \<Longrightarrow> pt_grows l pt k pt k"
  by (simp add: pt_grows_def pt_ext_def)

lemma pt_ext_trans:
  assumes a: "pt_ext l pt k pt1 k1" and b: "pt_ext l pt1 k1 pt2 k2"
  shows "pt_ext l pt k pt2 k2"
proof -
  from a obtain n1 where n1: "pt_frames pt1 = pt_frames pt @ n1" "set n1 \<inter> live_frames l k = {}"
      "live_frames l k1 = live_frames l k \<union> set n1" "free_frames k = free_frames k1 + length n1"
    by (auto simp: pt_ext_def)
  from b obtain n2 where n2: "pt_frames pt2 = pt_frames pt1 @ n2" "set n2 \<inter> live_frames l k1 = {}"
      "live_frames l k2 = live_frames l k1 \<union> set n2" "free_frames k1 = free_frames k2 + length n2"
    by (auto simp: pt_ext_def)
  have "pages k2 p = pages k p" if p: "p \<in> live_frames l k - set (pt_frames pt)" for p
  proof -
    have "p \<in> live_frames l k1 - set (pt_frames pt1)" using p n1 by auto
    with a b p show ?thesis by (auto simp: pt_ext_def)
  qed
  moreover have "\<exists>new. pt_frames pt2 = pt_frames pt @ new \<and> set new \<inter> live_frames l k = {}
        \<and> live_frames l k2 = live_frames l k \<union> set new \<and> free_frames k = free_frames k2 + length new"
    using n1 n2 by (intro exI [of _ "n1 @ n2"]) auto
  ultimately show ?thesis using a b by (simp add: pt_ext_def)
qed

lemma pt_grows_trans: "pt_grows l pt k pt1 k1 \<Longrightarrow> pt_grows l pt1 k1 pt2 k2 \<Longrightarrow> pt_grows l pt k pt2 k2"
  unfolding pt_grows_def using pt_ext_trans by (metis pt_ext_def)

lemma hook_step:
  assumes inv: "kmem_inv l k" and pi: "pt_inv l pt k" and js: "table_path (js @ [c])" "walk k (root_ppn pt) js = Some f"
    and inval: "\<not> is_valid (entry k f c)" and free: "0 < free_frames k"
  obtains g k1 where "frame_alloc_unwrap k = Some (g, k1)"
    "pt_grows l pt k (pt\<lparr>pt_frames := pt_frames pt @ [g]\<rparr>) (set_pte (f, c) (PTE_new g PTE_V) k1)"
    "walk (set_pte (f, c) (PTE_new g PTE_V) k1) (root_ppn pt) (js @ [c]) = Some g" "unat g < 2 ^ 44"
    "free_frames k = Suc (free_frames k1)"
proof -
  let ?r = "root_ppn pt"
  obtain g k1 where a: "frame_alloc_unwrap k = Some (g, k1)" "kmem_inv l k1" "g \<notin> live_frames l k"
    "live_frames l k1 = insert g (live_frames l k)" "pages k1 = (pages k)(g := replicate 4096 0)"
    "free_frames k = Suc (free_frames k1)" "unat g < 2 ^ 44"
    by (rule frame_alloc_ok [OF inv free])
  have gt: "g \<notin> tables k ?r" using pi a(3) by (auto simp: pt_inv_def)
  have same: "pages k1 p = pages k p" if "p \<in> tables k ?r" for p
    using that gt a(5) by auto
  note T = tables_pages_cong [of k ?r k1, OF same]
  have f: "f \<in> tables k ?r" using js by (auto intro: walk_in_tables table_path_prefix)
  let ?k = "set_pte (f, c) (PTE_new g PTE_V) k1"
  have w1: "walk k1 ?r js = Some f" using T(1) js by (auto dest: table_path_prefix)
  have inval1: "\<not> is_valid (entry k1 f c)" using inval entry_pages_cong [OF same [OF f]] by simp
  have wf1: "wf_tree k1 ?r" using T(3) pi by (simp add: pt_inv_def)
  have H: "walk ?k ?r (js @ [c]) = Some g" "wf_tree ?k ?r" "tables ?k ?r = insert g (tables k ?r)"
    "mapping ?k ?r = mapping k ?r"
    using hook_table [OF wf1 js(1) w1 inval1] gt a(5,7) T(2,4) by simp_all
  have "pt_grows l pt k (pt\<lparr>pt_frames := pt_frames pt @ [g]\<rparr>) ?k"
    unfolding pt_grows_def pt_ext_def
  proof (intro conjI ballI)
    show "kmem_inv l ?k" by (rule set_pte_inv [OF a(2)])
    show "pt_inv l (pt\<lparr>pt_frames := pt_frames pt @ [g]\<rparr>) ?k"
      using pi H a(3,4) by (auto simp: pt_inv_def)
    show "\<exists>new. pt_frames (pt\<lparr>pt_frames := pt_frames pt @ [g]\<rparr>) = pt_frames pt @ new \<and> set new \<inter> live_frames l k = {}
        \<and> live_frames l ?k = live_frames l k \<union> set new \<and> free_frames k = free_frames ?k + length new"
      using a by (intro exI [of _ "[g]"]) auto
    fix p assume p: "p \<in> live_frames l k - set (pt_frames pt)"
    with f pi have "p \<noteq> f" by (auto simp: pt_inv_def)
    then show "pages ?k p = pages k p" using p a(3,5) by auto
  qed (use H in simp_all)
  with a H that show thesis by blast
qed

text \<open>\<open>find_pte_create\<close> from the table at path \<open>js\<close> on.\<close>

lemma find_pte_create_loop_ok:
  assumes "kmem_inv l k" "pt_inv l pt k" "is \<noteq> []" "idx_ok is" "idx_ok js" "length js + length is = 3"
    and "walk k (root_ppn pt) js = Some f" "length is \<le> Suc (free_frames k)"
  shows "\<exists>q pt' k'. find_pte_create_loop is f pt k = Some (Some (q, last is), pt', k')
    \<and> pt_grows l pt k pt' k' \<and> walk k' (root_ppn pt) (js @ butlast is) = Some q
    \<and> free_frames k < free_frames k' + length is"
  using assms
proof (induction "is" arbitrary: js f pt k rule: induct_list012)
  case (2 i)
  then show ?case using pt_grows_refl [of l k pt] by simp
next
  case (3 i j rest)
  let ?r = "root_ppn pt"
  have tp: "table_path (js @ [i])" using 3 by (simp add: table_path_def)
  have i: "unat i < 512" using 3 by simp
  show ?case
  proof (cases "is_valid (entry k f i)")
    case True
    have "\<exists>q pt' k'. find_pte_create_loop (j # rest) (PTE_ppn (entry k f i)) pt k = Some (Some (q, last (j # rest)), pt', k')
      \<and> pt_grows l pt k pt' k' \<and> walk k' ?r ((js @ [i]) @ butlast (j # rest)) = Some q
      \<and> free_frames k < free_frames k' + length (j # rest)"
      by (rule "3.IH"(2)) (use 3 True in \<open>simp_all add: walk_append\<close>)
    with True i show ?thesis by fastforce
  next
    case False
    have free: "0 < free_frames k" using "3.prems"(8) by simp
    obtain g k1 where g: "frame_alloc_unwrap k = Some (g, k1)"
      "pt_grows l pt k (pt\<lparr>pt_frames := pt_frames pt @ [g]\<rparr>) (set_pte (f, i) (PTE_new g PTE_V) k1)"
      "walk (set_pte (f, i) (PTE_new g PTE_V) k1) ?r (js @ [i]) = Some g" "unat g < 2 ^ 44"
      "free_frames k = Suc (free_frames k1)"
      by (rule hook_step [OF "3.prems"(1,2) tp "3.prems"(7) False free])
    let ?pt = "pt\<lparr>pt_frames := pt_frames pt @ [g]\<rparr>" and ?k = "set_pte (f, i) (PTE_new g PTE_V) k1"
    have "\<exists>q pt' k'. find_pte_create_loop (j # rest) g ?pt ?k = Some (Some (q, last (j # rest)), pt', k')
      \<and> pt_grows l ?pt ?k pt' k' \<and> walk k' (root_ppn ?pt) ((js @ [i]) @ butlast (j # rest)) = Some q
      \<and> free_frames ?k < free_frames k' + length (j # rest)"
      by (rule "3.IH"(2)) (use 3 g in \<open>simp_all add: pt_grows_def pt_ext_def\<close>)
    then obtain q pt' k' where "find_pte_create_loop (j # rest) g ?pt ?k = Some (Some (q, last (j # rest)), pt', k')"
      "pt_grows l ?pt ?k pt' k'" "walk k' ?r (js @ butlast (i # j # rest)) = Some q"
      "free_frames k < free_frames k' + length (i # j # rest)" using g(5) by auto
    with False i g pt_grows_trans [OF g(2)] show ?thesis by (auto simp: Let_def)
  qed
qed simp

lemma find_pte_create_ok:
  assumes "kmem_inv l k" "pt_inv l pt k" "2 \<le> free_frames k"
  shows "\<exists>q pt' k'. find_pte_create pt vpn k = Some (Some (q, last (indexes vpn)), pt', k')
    \<and> pt_grows l pt k pt' k' \<and> walk k' (root_ppn pt) (butlast (indexes vpn)) = Some q
    \<and> free_frames k \<le> free_frames k' + 2"
proof -
  have "idx_ok (indexes vpn)" by (simp add: idx_ok_def indexes_eq unat_and_511)
  moreover have "indexes vpn \<noteq> []" by (simp add: indexes_eq)
  ultimately show ?thesis
    using find_pte_create_loop_ok [of l k pt "indexes vpn" "[]" "root_ppn pt"] assms
    by (auto simp: find_pte_create_def)
qed

section \<open>Lookups\<close>

lemma find_pte_eq:
  "find_pte pt vpn k = Some (map_option (\<lambda>f. (f, last (indexes vpn))) (walk k (root_ppn pt) (butlast (indexes vpn))))"
  by (simp add: find_pte_def indexes_eq unat_and_511 Let_def)

lemma pt_translate_eq:
  "pt_translate pt vpn k = Some (map_option (\<lambda>f. entry k f (last (indexes vpn)))
     (walk k (root_ppn pt) (butlast (indexes vpn))))"
  using indexes_path(2) [of vpn]
  by (cases "walk k (root_ppn pt) (butlast (indexes vpn))") (simp_all add: pt_translate_def find_pte_eq)

lemma pt_translate_mapped:
  "mapping k (root_ppn pt) vpn = Some e \<Longrightarrow> pt_translate pt vpn k = Some (Some e)"
  by (auto simp: pt_translate_eq mapping_def Let_def split: option.splits if_splits)

lemma mapping_walk:
  "mapping k r vpn = Some e \<Longrightarrow>
   \<exists>f. walk k r (butlast (indexes vpn)) = Some f \<and> entry k f (last (indexes vpn)) = e \<and> is_valid e"
  by (auto simp: mapping_def Let_def split: option.splits if_splits)

section \<open>Mapping and unmapping\<close>

text \<open>Update of an abstract map at a page: page numbers are compared by their 27 Sv39 bits.\<close>

definition map_at :: "(VirtPageNum \<Rightarrow> 'a) \<Rightarrow> VirtPageNum \<Rightarrow> 'a \<Rightarrow> VirtPageNum \<Rightarrow> 'a" where
  "map_at m vpn x = (\<lambda>w. if take_bit 27 w = take_bit 27 vpn then x else m w)"

lemma leaf_write_ext:
  fixes v :: PageTableEntry
  assumes ext: "pt_ext l pt k pt' k1" and w: "walk k1 (root_ppn pt) (butlast (indexes vpn)) = Some q"
  defines "k' \<equiv> set_pte (q, last (indexes vpn)) v k1"
  shows "pt_ext l pt k pt' k'"
    "mapping k' (root_ppn pt) = map_at (mapping k1 (root_ppn pt)) vpn (if is_valid v then Some v else None)"
proof -
  have pi: "pt_inv l pt' k1" and r: "root_ppn pt' = root_ppn pt" using ext by (auto simp: pt_ext_def)
  note L = leaf_write [where v = v, OF _ w, folded k'_def]
  have wf: "wf_tree k1 (root_ppn pt)" using pi r by (simp add: pt_inv_def)
  have "pt_inv l pt' k'"
    using pi L(2,3) [OF wf] r unfolding pt_inv_def by (auto simp: k'_def)
  moreover have "q \<in> set (pt_frames pt')"
    using pi r walk_in_tables [OF indexes_path(1) w] by (auto simp: pt_inv_def)
  then have "p \<noteq> q" if "p \<in> live_frames l k - set (pt_frames pt)" for p
    using ext that by (auto simp: pt_ext_def)
  ultimately show "pt_ext l pt k pt' k'"
    using ext by (auto simp: pt_ext_def k'_def intro: set_pte_inv)
  show "mapping k' (root_ppn pt) = map_at (mapping k1 (root_ppn pt)) vpn (if is_valid v then Some v else None)"
    using L(4,5) [OF wf] by (auto simp: map_at_def fun_eq_iff)
qed

lemma pt_map_ok:
  assumes "kmem_inv l k" "pt_inv l pt k" "2 \<le> free_frames k" "mapping k (root_ppn pt) vpn = None"
  shows "\<exists>pt' k'. pt_map vpn ppn flags pt k = Some (pt', k') \<and> pt_ext l pt k pt' k'
    \<and> mapping k' (root_ppn pt) = map_at (mapping k (root_ppn pt)) vpn (Some (PTE_new ppn (flags OR PTE_V)))
    \<and> free_frames k \<le> free_frames k' + 2"
proof -
  obtain q pt' k1 where f: "find_pte_create pt vpn k = Some (Some (q, last (indexes vpn)), pt', k1)"
    "pt_grows l pt k pt' k1" "walk k1 (root_ppn pt) (butlast (indexes vpn)) = Some q"
    "free_frames k \<le> free_frames k1 + 2"
    using find_pte_create_ok [OF assms(1,2,3)] by blast
  have ext: "pt_ext l pt k pt' k1" and m: "mapping k1 (root_ppn pt) = mapping k (root_ppn pt)"
    using f(2) by (auto simp: pt_grows_def)
  have "mapping k1 (root_ppn pt) vpn = None" using assms(4) m by simp
  then have "\<not> is_valid (entry k1 q (last (indexes vpn)))"
    using f(3) by (simp add: mapping_def Let_def split: if_splits)
  then have "pt_map vpn ppn flags pt k
      = Some (pt', set_pte (q, last (indexes vpn)) (PTE_new ppn (flags OR PTE_V)) k1)"
    using f(1) indexes_path(2) by (simp add: pt_map_def)
  with leaf_write_ext [OF ext f(3), of "PTE_new ppn (flags OR PTE_V)"] m f(4) show ?thesis by simp
qed

lemma pt_map_mapped:
  assumes "kmem_inv l k" "pt_inv l pt k" "2 \<le> free_frames k" "mapping k (root_ppn pt) vpn = Some e"
  shows "pt_map vpn ppn flags pt k = None"
proof -
  obtain q pt' k1 where f: "find_pte_create pt vpn k = Some (Some (q, last (indexes vpn)), pt', k1)"
    "pt_grows l pt k pt' k1" "walk k1 (root_ppn pt) (butlast (indexes vpn)) = Some q"
    using find_pte_create_ok [OF assms(1,2,3)] by blast
  then have "mapping k1 (root_ppn pt) vpn = Some e" using assms(4) by (simp add: pt_grows_def)
  then have "is_valid (entry k1 q (last (indexes vpn)))" using f(3) mapping_walk by fastforce
  then show ?thesis using f(1) indexes_path(2) by (simp add: pt_map_def)
qed

lemma pt_ext_refl: "kmem_inv l k \<Longrightarrow> pt_inv l pt k \<Longrightarrow> pt_ext l pt k pt k"
  by (simp add: pt_ext_def)

lemma pt_unmap_ok:
  assumes "kmem_inv l k" "pt_inv l pt k" "mapping k (root_ppn pt) vpn = Some e"
  shows "\<exists>k'. pt_unmap vpn pt k = Some k' \<and> pt_ext l pt k pt k'
    \<and> mapping k' (root_ppn pt) = map_at (mapping k (root_ppn pt)) vpn None
    \<and> pt_translate pt vpn k' = Some (Some PTE_empty)"
proof -
  obtain f where f: "walk k (root_ppn pt) (butlast (indexes vpn)) = Some f"
    "entry k f (last (indexes vpn)) = e" "is_valid e"
    using mapping_walk [OF assms(3)] by blast
  let ?k = "set_pte (f, last (indexes vpn)) PTE_empty k"
  have "pt_unmap vpn pt k = Some ?k"
    using f indexes_path(2) by (simp add: pt_unmap_def find_pte_eq)
  moreover note leaf_write_ext [OF pt_ext_refl [OF assms(1,2)] f(1), of PTE_empty]
  moreover have "walk ?k (root_ppn pt) (butlast (indexes vpn)) = Some f"
    using leaf_write(1) [OF _ f(1) indexes_path(1)] assms(2) f(1) by (simp add: pt_inv_def)
  then have "pt_translate pt vpn ?k = Some (Some PTE_empty)"
    by (simp add: pt_translate_eq entry_set_pte indexes_path(2))
  ultimately show ?thesis by simp
qed

lemma PageTable_new_ok:
  assumes "kmem_inv l k" "0 < free_frames k"
  shows "\<exists>pt k'. PageTable_new k = Some (pt, k') \<and> kmem_inv l k' \<and> pt_inv l pt k'
    \<and> mapping k' (root_ppn pt) = (\<lambda>_. None) \<and> pt_frames pt = [root_ppn pt] \<and> root_ppn pt \<notin> live_frames l k
    \<and> live_frames l k' = insert (root_ppn pt) (live_frames l k) \<and> unat (root_ppn pt) < 2 ^ 44
    \<and> free_frames k = Suc (free_frames k') \<and> (\<forall>p\<in>live_frames l k. pages k' p = pages k p)"
proof -
  obtain p k' where a: "frame_alloc_unwrap k = Some (p, k')" "kmem_inv l k'" "p \<notin> live_frames l k"
    "live_frames l k' = insert p (live_frames l k)" "pages k' = (pages k)(p := replicate 4096 0)"
    "free_frames k = Suc (free_frames k')" "unat p < 2 ^ 44"
    by (rule frame_alloc_ok [OF assms])
  have z: "entry k' p i = 0" if "unat i < 512" for i using entry_zero [OF _ that] a(5) by simp
  have W: "walk k' p is = (if is = [] then Some p else None)" if "idx_ok is" for "is"
    using that z by (cases "is") auto
  have "tables k' p = {p}" "wf_tree k' p"
    using W by (auto simp: tables_def wf_tree_def table_path_def split: if_splits intro!: exI [of _ "[]"])
  moreover have "mapping k' p = (\<lambda>_. None)"
  proof
    fix vpn
    have "butlast (indexes vpn) \<noteq> []" using indexes_path(3) [of vpn] by force
    then show "mapping k' p vpn = None"
      using W [of "butlast (indexes vpn)"] indexes_path(1) [of vpn] by (simp add: mapping_def table_path_def)
  qed
  ultimately show ?thesis using a by (simp add: PageTable_new_def pt_inv_def)
qed

end
