(* ===== verification/MemorySet.thy ===== *)
theory MemorySet
  imports PageTableSpec
begin

text \<open>
  Address spaces (\<open>os/src/mm/memory_set.rs\<close>): map areas, which own the frames of their pages, and
  memory sets, which own a page table and its areas. A \<open>BTreeMap\<close> is the list of its bindings in
  ascending order of the keys. The symbols of the linker script and the ELF parser of the crate
  \<open>xmas_elf\<close> are arguments.
\<close>

section \<open>Ordered maps\<close>

text \<open>\<open>BTreeMap::insert\<close> and \<open>remove\<close>, with the value they replace or remove.\<close>

fun bt_insert :: "'k::linorder \<Rightarrow> 'v \<Rightarrow> ('k \<times> 'v) list \<Rightarrow> 'v option \<times> ('k \<times> 'v) list" where
  "bt_insert k v [] = (None, [(k, v)])"
| "bt_insert k v ((k', v') # m) =
    (if k < k' then (None, (k, v) # (k', v') # m)
     else if k = k' then (Some v', (k, v) # m)
     else map_prod id ((#) (k', v')) (bt_insert k v m))"

fun bt_remove :: "'k \<Rightarrow> ('k \<times> 'v) list \<Rightarrow> 'v option \<times> ('k \<times> 'v) list" where
  "bt_remove k [] = (None, [])"
| "bt_remove k ((k', v') # m) =
    (if k = k' then (Some v', m) else map_prod id ((#) (k', v')) (bt_remove k m))"

lemma bt_insert_last:
  "(\<And>k' v'. (k', v') \<in> set m \<Longrightarrow> k' < k) \<Longrightarrow> bt_insert k v m = (None, m @ [(k, v)])"
  by (induction m) fastforce+

section \<open>Areas\<close>

datatype MapType = Identical | Framed

type_synonym MapPermission = u8

definition MP_R :: MapPermission where "MP_R = 2"
definition MP_W :: MapPermission where "MP_W = 4"
definition MP_X :: MapPermission where "MP_X = 8"
definition MP_U :: MapPermission where "MP_U = 16"

record MapArea =
  vpn_range :: VPNRange
  data_frames :: "(VirtPageNum \<times> FrameTracker) list"
  map_type :: MapType
  map_perm :: MapPermission

definition MapArea_new :: "VirtAddr \<Rightarrow> VirtAddr \<Rightarrow> MapType \<Rightarrow> MapPermission \<Rightarrow> MapArea option" where
  "MapArea_new start_va end_va t perm = do {
    let start_vpn = VA_floor start_va;
    let end_vpn = VA_ceil end_va;
    r \<leftarrow> SimpleRange_new start_vpn end_vpn;
    Some \<lparr>vpn_range = r, data_frames = [], map_type = t, map_perm = perm\<rparr>
  }"

text \<open>\<open>PTEFlags::from_bits\<close> never fails: all eight bits are flags.\<close>

definition PTEFlags_from_bits :: "u8 \<Rightarrow> PTEFlags option" where
  "PTEFlags_from_bits b = Some b"

definition drop_opt :: "FrameTracker option \<Rightarrow> kmem \<Rightarrow> kmem option" where
  "drop_opt old k = (case old of None \<Rightarrow> Some k | Some f \<Rightarrow> frame_dealloc f k)"

type_synonym area_state = "MapArea \<times> PageTable \<times> kmem"

definition map_one :: "VirtPageNum \<Rightarrow> area_state \<Rightarrow> area_state option" where
  "map_one vpn = (\<lambda>(a, pt, k). do {
    (ppn, a, k) \<leftarrow> (case map_type a of
        Identical \<Rightarrow> Some (vpn, a, k)
      | Framed \<Rightarrow> do {
          (frame, k) \<leftarrow> frame_alloc_unwrap k;
          let (old, m) = bt_insert vpn frame (data_frames a);
          k \<leftarrow> drop_opt old k;
          Some (frame, a\<lparr>data_frames := m\<rparr>, k)
        });
    pte_flags \<leftarrow> PTEFlags_from_bits (map_perm a);
    (pt, k) \<leftarrow> pt_map vpn ppn pte_flags pt k;
    Some (a, pt, k)
  })"

definition unmap_one :: "VirtPageNum \<Rightarrow> area_state \<Rightarrow> area_state option" where
  "unmap_one vpn = (\<lambda>(a, pt, k). do {
    (a, k) \<leftarrow> (if map_type a = Framed then do {
        let (old, m) = bt_remove vpn (data_frames a);
        k \<leftarrow> drop_opt old k;
        Some (a\<lparr>data_frames := m\<rparr>, k)
      } else Some (a, k));
    k \<leftarrow> pt_unmap vpn pt k;
    Some (a, pt, k)
  })"

definition area_map :: "area_state \<Rightarrow> area_state option" where
  "area_map s = foldo map_one (range_items (vpn_range (fst s))) s"

definition area_unmap :: "area_state \<Rightarrow> area_state option" where
  "area_unmap s = foldo unmap_one (range_items (vpn_range (fst s))) s"

definition shrink_to :: "VirtPageNum \<Rightarrow> area_state \<Rightarrow> area_state option" where
  "shrink_to new_end s = do {
    r \<leftarrow> SimpleRange_new new_end (get_end (vpn_range (fst s)));
    (a, pt, k) \<leftarrow> foldo unmap_one (range_items r) s;
    r \<leftarrow> SimpleRange_new (get_start (vpn_range a)) new_end;
    Some (a\<lparr>vpn_range := r\<rparr>, pt, k)
  }"

definition append_to :: "VirtPageNum \<Rightarrow> area_state \<Rightarrow> area_state option" where
  "append_to new_end s = do {
    r \<leftarrow> SimpleRange_new (get_end (vpn_range (fst s))) new_end;
    (a, pt, k) \<leftarrow> foldo map_one (range_items r) s;
    r \<leftarrow> SimpleRange_new (get_start (vpn_range a)) new_end;
    Some (a\<lparr>vpn_range := r\<rparr>, pt, k)
  }"

function copy_data_loop :: "PageTable \<Rightarrow> bytes \<Rightarrow> nat \<Rightarrow> VirtPageNum \<Rightarrow> kmem \<Rightarrow> kmem option" where
  "copy_data_loop pt data start current_vpn k = do {
    assert_that (start \<le> length data);
    let src = slice_at start (min (length data) (start + 4096) - start) data;
    r \<leftarrow> pt_translate pt current_vpn k;
    pte \<leftarrow> r;
    let ppn = PTE_ppn pte;
    let k = set_bytes_array ppn (splice_at 0 src (get_bytes_array k ppn)) k;
    if start + 4096 \<ge> length data then Some k
    else copy_data_loop pt data (start + 4096) (step current_vpn) k
  }"
  by pat_completeness auto
termination
  by (relation "measure (\<lambda>(pt, data, start, vpn, k). length data - start)") auto

definition copy_data :: "MapArea \<Rightarrow> PageTable \<Rightarrow> bytes \<Rightarrow> kmem \<Rightarrow> kmem option" where
  "copy_data a pt data k = do {
    assert_that (map_type a = Framed);
    copy_data_loop pt data 0 (get_start (vpn_range a)) k
  }"

definition from_another :: "MapArea \<Rightarrow> MapArea option" where
  "from_another a = do {
    r \<leftarrow> SimpleRange_new (get_start (vpn_range a)) (get_end (vpn_range a));
    Some \<lparr>vpn_range = r, data_frames = [], map_type = map_type a, map_perm = map_perm a\<rparr>
  }"

text \<open>\<open>Drop\<close> of an area drops the trackers in key order.\<close>

definition MapArea_drop :: "MapArea \<Rightarrow> kmem \<Rightarrow> kmem option" where
  "MapArea_drop a k = drop_frames (map snd (data_frames a)) k"

section \<open>Memory sets\<close>

record MemorySet =
  ms_page_table :: PageTable
  ms_areas :: "MapArea list"

text \<open>The addresses of the linker script.\<close>

record linker_symbols =
  stext :: usize
  etext :: usize
  srodata :: usize
  erodata :: usize
  sdata :: usize
  edata :: usize
  sbss_with_stack :: usize
  ebss :: usize
  ekernel :: usize
  strampoline :: usize

definition new_bare :: "kmem \<Rightarrow> (MemorySet \<times> kmem) option" where
  "new_bare k = do {
    (pt, k) \<leftarrow> PageTable_new k;
    Some (\<lparr>ms_page_table = pt, ms_areas = []\<rparr>, k)
  }"

definition ms_token :: "MemorySet \<Rightarrow> usize" where
  "ms_token ms = pt_token (ms_page_table ms)"

definition ms_push :: "MapArea \<Rightarrow> bytes option \<Rightarrow> MemorySet \<times> kmem \<Rightarrow> (MemorySet \<times> kmem) option" where
  "ms_push a data = (\<lambda>(ms, k). do {
    (a, pt, k) \<leftarrow> area_map (a, ms_page_table ms, k);
    k \<leftarrow> (case data of None \<Rightarrow> Some k | Some d \<Rightarrow> copy_data a pt d k);
    Some (ms\<lparr>ms_page_table := pt, ms_areas := ms_areas ms @ [a]\<rparr>, k)
  })"

definition insert_framed_area ::
  "VirtAddr \<Rightarrow> VirtAddr \<Rightarrow> MapPermission \<Rightarrow> MemorySet \<times> kmem \<Rightarrow> (MemorySet \<times> kmem) option" where
  "insert_framed_area start_va end_va permission s = do {
    a \<leftarrow> MapArea_new start_va end_va Framed permission;
    ms_push a None s
  }"

definition map_trampoline :: "linker_symbols \<Rightarrow> MemorySet \<times> kmem \<Rightarrow> (MemorySet \<times> kmem) option" where
  "map_trampoline syms = (\<lambda>(ms, k). do {
    vpn \<leftarrow> VirtPageNum_from_VirtAddr (VirtAddr_from TRAMPOLINE);
    ppn \<leftarrow> PhysPageNum_from_PhysAddr (PhysAddr_from (strampoline syms));
    (pt, k) \<leftarrow> pt_map vpn ppn (PTE_R OR PTE_X) (ms_page_table ms) k;
    Some (ms\<lparr>ms_page_table := pt\<rparr>, k)
  })"

text \<open>An identically mapped section of the kernel.\<close>

definition push_identical ::
  "usize \<Rightarrow> usize \<Rightarrow> MapPermission \<Rightarrow> MemorySet \<times> kmem \<Rightarrow> (MemorySet \<times> kmem) option" where
  "push_identical s e perm st = do {
    a \<leftarrow> MapArea_new (VirtAddr_from s) (VirtAddr_from e) Identical perm;
    ms_push a None st
  }"

definition new_kernel :: "linker_symbols \<Rightarrow> kmem \<Rightarrow> (MemorySet \<times> kmem) option" where
  "new_kernel syms k = do {
    st \<leftarrow> new_bare k;
    st \<leftarrow> map_trampoline syms st;
    st \<leftarrow> push_identical (stext syms) (etext syms) (MP_R OR MP_X) st;
    st \<leftarrow> push_identical (srodata syms) (erodata syms) MP_R st;
    st \<leftarrow> push_identical (sdata syms) (edata syms) (MP_R OR MP_W) st;
    st \<leftarrow> push_identical (sbss_with_stack syms) (ebss syms) (MP_R OR MP_W) st;
    st \<leftarrow> push_identical (ekernel syms) MEMORY_END (MP_R OR MP_W) st;
    foldo (\<lambda>(base, len). push_identical base (base + len) (MP_R OR MP_W)) MMIO st
  }"

text \<open>
  The view of an ELF file that \<open>xmas_elf::ElfFile\<close> gives: \<open>None\<close> stands for its \<open>Err\<close>, which the
  kernel unwraps.
\<close>

record program_header =
  ph_is_load :: "bool option"
  ph_virtual_addr :: u64
  ph_mem_size :: u64
  ph_read :: bool
  ph_write :: bool
  ph_execute :: bool
  ph_offset :: u64
  ph_file_size :: u64

record elf_file =
  elf_magic :: bytes
  elf_ph_count :: nat
  elf_program_header :: "nat \<Rightarrow> program_header option"
  elf_entry_point :: u64
  elf_input :: bytes

definition elf_segment ::
  "elf_file \<Rightarrow> nat \<Rightarrow> VirtPageNum \<times> MemorySet \<times> kmem \<Rightarrow> (VirtPageNum \<times> MemorySet \<times> kmem) option" where
  "elf_segment elf i = (\<lambda>(max_end_vpn, ms, k). do {
    ph \<leftarrow> elf_program_header elf i;
    is_load \<leftarrow> ph_is_load ph;
    if is_load then do {
      let start_va = VirtAddr_from (ph_virtual_addr ph);
      let end_va = VirtAddr_from (ph_virtual_addr ph + ph_mem_size ph);
      let perm = MP_U;
      let perm = (if ph_read ph then perm OR MP_R else perm);
      let perm = (if ph_write ph then perm OR MP_W else perm);
      let perm = (if ph_execute ph then perm OR MP_X else perm);
      a \<leftarrow> MapArea_new start_va end_va Framed perm;
      let max_end_vpn = get_end (vpn_range a);
      let s = unat (ph_offset ph);
      let e = unat (ph_offset ph + ph_file_size ph);
      assert_that (s \<le> e \<and> e \<le> length (elf_input elf));
      (ms, k) \<leftarrow> ms_push a (Some (slice_at s (e - s) (elf_input elf))) (ms, k);
      Some (max_end_vpn, ms, k)
    } else Some (max_end_vpn, ms, k)
  })"

definition from_elf ::
  "(bytes \<Rightarrow> elf_file option) \<Rightarrow> linker_symbols \<Rightarrow> bytes \<Rightarrow> kmem \<Rightarrow> (MemorySet \<times> usize \<times> usize \<times> kmem) option" where
  "from_elf ElfFile_new syms elf_data k = do {
    st \<leftarrow> new_bare k;
    (ms, k) \<leftarrow> map_trampoline syms st;
    elf \<leftarrow> ElfFile_new elf_data;
    assert_that (elf_magic elf = [0x7f, 0x45, 0x4c, 0x46]);
    (max_end_vpn, ms, k) \<leftarrow> foldo (elf_segment elf) [0..<elf_ph_count elf] (0, ms, k);
    let max_end_va = VirtAddr_from_VirtPageNum max_end_vpn;
    let user_stack_base = usize_from_VirtAddr max_end_va;
    let user_stack_base = user_stack_base + PAGE_SIZE;
    Some (ms, user_stack_base, elf_entry_point elf, k)
  }"

definition ms_translate :: "MemorySet \<Rightarrow> VirtPageNum \<Rightarrow> kmem \<Rightarrow> PageTableEntry option option" where
  "ms_translate ms vpn k = pt_translate (ms_page_table ms) vpn k"

definition remove_area_with_start_vpn ::
  "VirtPageNum \<Rightarrow> MemorySet \<times> kmem \<Rightarrow> (MemorySet \<times> kmem) option" where
  "remove_area_with_start_vpn start_vpn = (\<lambda>(ms, k).
    case find_index (\<lambda>a. get_start (vpn_range a) = start_vpn) (ms_areas ms) of
      None \<Rightarrow> Some (ms, k)
    | Some idx \<Rightarrow> do {
        (a, pt, k) \<leftarrow> area_unmap (ms_areas ms ! idx, ms_page_table ms, k);
        k \<leftarrow> MapArea_drop a k;
        Some (\<lparr>ms_page_table = pt, ms_areas = take idx (ms_areas ms) @ drop (Suc idx) (ms_areas ms)\<rparr>, k)
      })"

text \<open>The copy of one page, and of one area, of an existing space.\<close>

definition copy_page :: "MemorySet \<Rightarrow> MemorySet \<Rightarrow> VirtPageNum \<Rightarrow> kmem \<Rightarrow> kmem option" where
  "copy_page user_space ms vpn k = do {
    r \<leftarrow> ms_translate user_space vpn k;
    src \<leftarrow> r;
    r \<leftarrow> ms_translate ms vpn k;
    dst \<leftarrow> r;
    Some (set_bytes_array (PTE_ppn dst) (get_bytes_array k (PTE_ppn src)) k)
  }"

definition copy_area :: "MemorySet \<Rightarrow> MapArea \<Rightarrow> MemorySet \<times> kmem \<Rightarrow> (MemorySet \<times> kmem) option" where
  "copy_area user_space a st = do {
    new_area \<leftarrow> from_another a;
    (ms, k) \<leftarrow> ms_push new_area None st;
    k \<leftarrow> foldo (copy_page user_space ms) (range_items (vpn_range a)) k;
    Some (ms, k)
  }"

definition from_existed_user :: "linker_symbols \<Rightarrow> MemorySet \<Rightarrow> kmem \<Rightarrow> (MemorySet \<times> kmem) option" where
  "from_existed_user syms user_space k = do {
    st \<leftarrow> new_bare k;
    st \<leftarrow> map_trampoline syms st;
    foldo (copy_area user_space) (ms_areas user_space) st
  }"

definition recycle_data_pages :: "MemorySet \<times> kmem \<Rightarrow> (MemorySet \<times> kmem) option" where
  "recycle_data_pages = (\<lambda>(ms, k). do {
    k \<leftarrow> foldo MapArea_drop (ms_areas ms) k;
    Some (ms\<lparr>ms_areas := []\<rparr>, k)
  })"

text \<open>\<open>Drop\<close> of a memory set drops its fields in order: the page table, then the areas.\<close>

definition MemorySet_drop :: "MemorySet \<Rightarrow> kmem \<Rightarrow> kmem option" where
  "MemorySet_drop ms k = do {
    k \<leftarrow> PageTable_drop (ms_page_table ms) k;
    foldo MapArea_drop (ms_areas ms) k
  }"

definition unwrap_translate :: "MemorySet \<Rightarrow> VirtPageNum \<Rightarrow> kmem \<Rightarrow> PageTableEntry option" where
  "unwrap_translate ms vpn k = ms_translate ms vpn k \<bind> (\<lambda>r. r)"

definition remap_test :: "linker_symbols \<Rightarrow> MemorySet \<Rightarrow> kmem \<Rightarrow> unit option" where
  "remap_test syms ms k = do {
    let mid_text = VirtAddr_from ((stext syms + etext syms) div 2);
    let mid_rodata = VirtAddr_from ((srodata syms + erodata syms) div 2);
    let mid_data = VirtAddr_from ((sdata syms + edata syms) div 2);
    pte \<leftarrow> unwrap_translate ms (VA_floor mid_text) k;
    assert_that (\<not> writable pte);
    pte \<leftarrow> unwrap_translate ms (VA_floor mid_rodata) k;
    assert_that (\<not> writable pte);
    pte \<leftarrow> unwrap_translate ms (VA_floor mid_data) k;
    assert_that (\<not> executable pte)
  }"

declare copy_data_loop.simps [simp del]

end
