(* ===== verification/UserMemory.thy ===== *)
theory UserMemory
  imports PageTableSpec
begin

text \<open>
  How the kernel reaches user memory: through a \<open>satp\<close> token, page by page. The facts of this
  theory say that the slices, strings and references the helpers of \<open>page_table.rs\<close> produce are the
  bytes of the user's virtual address space.
\<close>

section \<open>Tokens and virtual bytes\<close>

lemma from_token_token:
  assumes "unat (root_ppn pt) < 2 ^ 44"
  shows "root_ppn (from_token (pt_token pt)) = root_ppn pt"
proof -
  have "take_bit 44 (root_ppn pt) = root_ppn pt"
    using assms by (simp add: word_unat_eq_iff unsigned_take_bit_eq take_bit_nat_eq_self)
  then have "(push_bit 60 8 OR root_ppn pt) AND low_mask 44 = root_ppn pt"
    by (simp add: and_low_mask take_bit_or)
  then show ?thesis using assms by (simp add: from_token_def pt_token_def PhysPageNum_from_id)
qed

lemma pt_translate_root: "root_ppn pt = root_ppn pt' \<Longrightarrow> pt_translate pt = pt_translate pt'"
  by (simp add: fun_eq_iff pt_translate_eq)

text \<open>The byte at virtual address \<open>n\<close>, for a mapped page.\<close>

definition vbyte :: "kmem \<Rightarrow> PhysPageNum \<Rightarrow> nat \<Rightarrow> u8" where
  "vbyte k r n = pages k (PTE_ppn (the (mapping k r (of_nat (n div 4096))))) ! (n mod 4096)"

definition vmapped :: "kmem \<Rightarrow> PhysPageNum \<Rightarrow> nat \<Rightarrow> bool" where
  "vmapped k r n \<longleftrightarrow> mapping k r (of_nat (n div 4096)) \<noteq> None"

lemma unat_of_nat_usize: "n < 2 ^ 64 \<Longrightarrow> unat (of_nat n :: usize) = n"
  by (simp add: unat_of_nat take_bit_nat_eq_self)

lemma user_va:
  assumes "unat a < 2 ^ 39"
  shows "VirtAddr_from a = a" "VA_floor a = of_nat (unat a div 4096)"
proof -
  show "VirtAddr_from a = a" by (rule VirtAddr_from_id [OF assms])
  have "unat (of_nat (unat a div 4096) :: usize) = unat a div 4096"
    using assms by (intro unat_of_nat_usize) (simp add: less_mult_imp_div_less)
  then show "VA_floor a = of_nat (unat a div 4096)" by (simp add: word_unat_eq_iff unat_VA_floor)
qed

section \<open>Byte buffers\<close>

text \<open>One page of the loop: where the slice ends, and how long it is.\<close>

definition chunk_end :: "nat \<Rightarrow> nat \<Rightarrow> nat" where
  "chunk_end s e = min (4096 * (s div 4096 + 1)) e"

lemma chunk_end_bounds:
  assumes "s < e"
  shows "s < chunk_end s e" "chunk_end s e \<le> e" "chunk_end s e \<le> 4096 * (s div 4096) + 4096"
    "chunk_end s e mod 4096 = 0 \<longleftrightarrow> chunk_end s e = 4096 * (s div 4096) + 4096"
    "chunk_end s e mod 4096 \<noteq> 0 \<Longrightarrow> chunk_end s e mod 4096 = s mod 4096 + (chunk_end s e - s)"
proof -
  define d m where "d = s div 4096" and "m = s mod 4096"
  have s: "s = 4096 * d + m" and m: "m < 4096" by (simp_all add: d_def m_def)
  let ?c = "chunk_end s e"
  have c: "?c = min (4096 * d + 4096) e" by (simp add: chunk_end_def d_def)
  show 1: "s < ?c" and "?c \<le> e" and 3: "?c \<le> 4096 * (s div 4096) + 4096"
    using assms s m unfolding c d_def [symmetric] by linarith+
  define x where "x = ?c - 4096 * d"
  have cx: "?c = 4096 * d + x" using 1 s unfolding x_def by linarith
  have x: "m < x" "x \<le> 4096" using 1 3 s cx unfolding d_def [symmetric] by linarith+
  have mod: "?c mod 4096 = x mod 4096" unfolding cx by simp
  show "?c mod 4096 = 0 \<longleftrightarrow> ?c = 4096 * (s div 4096) + 4096"
  proof (cases "x = 4096")
    case True
    then show ?thesis unfolding mod d_def [symmetric] by (simp add: cx)
  next
    case False
    then have "x mod 4096 = x" "0 < x" using x by simp_all
    then show ?thesis using False unfolding mod d_def [symmetric] by (simp add: cx)
  qed
  show "?c mod 4096 = s mod 4096 + (?c - s)" if "?c mod 4096 \<noteq> 0"
  proof -
    have "x \<noteq> 4096" using that unfolding mod by auto
    then have "x mod 4096 = x" using x by simp
    then show ?thesis unfolding mod m_def [symmetric] using x cx s by linarith
  qed
qed

lemma slice_vbytes:
  assumes inv: "kmem_inv l k" and m: "mapping k r (of_nat (s div 4096)) = Some e"
    and c: "s < c" "c \<le> 4096 * (s div 4096) + 4096"
  shows "slice_bytes k \<lparr>sl_ppn = PTE_ppn e, sl_from = s mod 4096, sl_to = s mod 4096 + (c - s)\<rparr> = map (vbyte k r) [s..<c]"
proof (rule nth_equalityI)
  define d m' where "d = s div 4096" and "m' = s mod 4096"
  have s: "s = 4096 * d + m'" and m': "m' < 4096" by (simp_all add: d_def m'_def)
  have fits: "m' + (c - s) \<le> length (pages k (PTE_ppn e))"
  proof -
    have "m' + (c - s) \<le> 4096" using c s unfolding d_def [symmetric] by linarith
    then show ?thesis using inv by (simp add: kmem_inv_def)
  qed
  let ?S = "slice_bytes k \<lparr>sl_ppn = PTE_ppn e, sl_from = s mod 4096, sl_to = s mod 4096 + (c - s)\<rparr>"
  show len: "length ?S = length (map (vbyte k r) [s..<c])"
    using fits by (simp add: slice_bytes_def m'_def)
  fix i assume "i < length ?S"
  then have i: "i < c - s" using len by simp
  have e: "s + i = 4096 * d + (m' + i)" "m' + i < 4096" using s i c unfolding d_def [symmetric] by linarith+
  have "(s + i) div 4096 = d" "(s + i) mod 4096 = m' + i" unfolding e(1) using e(2) by simp_all
  then show "?S ! i = map (vbyte k r) [s..<c] ! i"
    using i fits m by (simp add: slice_bytes_def vbyte_def nth_slice d_def [symmetric] m'_def [symmetric])
qed

lemma page_end_unat:
  assumes "unat a < 2 ^ 38"
  shows "unat (VirtAddr_from_VirtPageNum (step (VA_floor a))) = 4096 * (unat a div 4096 + 1)"
proof -
  have "unat (VA_floor a) = unat a div 4096" by (rule unat_VA_floor)
  moreover have "unat a div 4096 < 2 ^ 26" using assms by (simp add: less_mult_imp_div_less)
  ultimately have "unat (step (VA_floor a)) = unat a div 4096 + 1"
    by (simp add: step_def unat_add_usize)
  then show ?thesis
    using \<open>unat a div 4096 < 2 ^ 26\<close>
    by (simp add: VirtAddr_from_VirtPageNum_def PAGE_SIZE_BITS_def unat_push_12)
qed

lemma usize_from_user: "unat a < 2 ^ 38 \<Longrightarrow> usize_from_VirtAddr a = a"
  by (simp add: usize_from_VirtAddr_def VA_WIDTH_SV39_def word_le_nat_alt push_bit_eq_mult)

lemma usize_from_top: "unat a = 2 ^ 38 \<Longrightarrow> \<not> usize_from_VirtAddr a < a"
proof -
  assume a: "unat a = 2 ^ 38"
  have "a \<le> a OR x" for x :: usize by (simp add: word_le_def unsigned_or_eq or_greater_eq)
  then show "\<not> usize_from_VirtAddr a < a" by (simp add: usize_from_VirtAddr_def not_less)
qed

lemma tbb_loop_ok:
  assumes inv: "kmem_inv l k" and r: "r = root_ppn pt" and e: "unat end' \<le> 2 ^ 38"
    and m: "\<forall>n\<in>{unat start..<unat end'}. vmapped k r n"
  shows "\<exists>ss. tbb_loop pt k start end' v = Some (v @ ss)
    \<and> concat (map (slice_bytes k) ss) = map (vbyte k r) [unat start..<unat end']
    \<and> (\<forall>s\<in>set ss. sl_from s < sl_to s \<and> sl_to s \<le> 4096)"
  using m
proof (induction "unat end' - unat start" arbitrary: start v rule: less_induct)
  case less
  define s e where "s = unat start" and "e = unat end'"
  show ?case
  proof (cases "start < end'")
    case False
    then have "unat end' \<le> unat start" by (simp add: word_less_nat_alt)
    with False show ?thesis by (subst tbb_loop.simps) simp
  next
    case True
    then have se: "s < e" and e38: "e \<le> 2 ^ 38" using assms(3) by (simp_all add: word_less_nat_alt s_def e_def)
    note C = chunk_end_bounds [OF se]
    let ?c = "chunk_end s e"
    have va: "VirtAddr_from start = start" "VA_floor start = of_nat (s div 4096)" "VirtAddr_from end' = end'"
      using user_va [of start] user_va [of end'] se e38 by (simp_all add: s_def e_def)
    obtain pte where pte: "mapping k r (of_nat (s div 4096)) = Some pte"
      using less.prems se by (force simp: vmapped_def s_def e_def)
    have tr: "pt_translate pt (of_nat (s div 4096)) k = Some (Some pte)"
      using pt_translate_mapped [of k pt] pte r by simp
    define end_va where "end_va = min (VirtAddr_from_VirtPageNum (step (VA_floor start))) end'"
    have ue: "unat end_va = ?c"
      using page_end_unat [of start] se e38
      by (simp add: end_va_def chunk_end_def s_def e_def min_def word_le_nat_alt)
    let ?s = "\<lparr>sl_ppn = PTE_ppn pte, sl_from = s mod 4096, sl_to = s mod 4096 + (?c - s)\<rparr>"
    have to: "s mod 4096 + (?c - s) \<le> 4096"
      using C(1,3) mult_div_mod_eq [of 4096 s] by linarith
    have ps: "(if VA_page_offset end_va = 0 then page_slice (PTE_ppn pte) (unat (VA_page_offset start)) 4096
        else page_slice (PTE_ppn pte) (unat (VA_page_offset start)) (unat (VA_page_offset end_va))) = Some ?s"
    proof (cases "?c mod 4096 = 0")
      case True
      then have "?c = 4096 * (s div 4096) + 4096" by (rule iffD1 [OF C(4)])
      then have "s mod 4096 + (?c - s) = 4096" using mult_div_mod_eq [of 4096 s] by linarith
      moreover have "VA_page_offset end_va = 0" using True ue by (simp add: word_unat_eq_iff unat_VA_page_offset)
      ultimately show ?thesis by (simp add: page_slice_def unat_VA_page_offset s_def)
    next
      case False
      moreover from this have "VA_page_offset end_va \<noteq> 0" using ue by (simp add: word_unat_eq_iff unat_VA_page_offset)
      ultimately show ?thesis using C(5) to by (simp add: page_slice_def unat_VA_page_offset ue) (simp add: s_def)
    qed
    have st: "tbb_loop pt k start end' v = tbb_loop pt k (usize_from_VirtAddr end_va) end' (v @ [?s])"
      using True tr ps by (subst tbb_loop.simps) (simp add: va Let_def end_va_def [unfolded va, symmetric]
          split: if_splits)
    have sl: "slice_bytes k ?s = map (vbyte k r) [s..<?c]"
      by (rule slice_vbytes [OF inv pte C(1,3)])
    have "\<exists>ss. tbb_loop pt k (usize_from_VirtAddr end_va) end' (v @ [?s]) = Some ((v @ [?s]) @ ss)
      \<and> concat (map (slice_bytes k) ss) = map (vbyte k r) [?c..<e] \<and> (\<forall>s\<in>set ss. sl_from s < sl_to s \<and> sl_to s \<le> 4096)"
    proof (cases "?c < 2 ^ 38")
      case True
      then have u: "usize_from_VirtAddr end_va = end_va" using ue by (intro usize_from_user) simp
      have lt: "unat end' - unat end_va < unat end' - unat start" using C(1) se ue by (simp add: s_def e_def)
      have "\<forall>n\<in>{unat end_va..<unat end'}. vmapped k r n" using less.prems C(1) ue by (simp add: s_def)
      from less.hyps [OF lt this, of "v @ [?s]"] show ?thesis unfolding u ue e_def .
    next
      case False
      then have "?c = 2 ^ 38" "e = ?c" using C(2) e38 by auto
      then have "end' = end_va" "\<not> usize_from_VirtAddr end_va < end_va"
        using usize_from_top [of end_va] ue by (simp_all add: word_unat_eq_iff e_def)
      with \<open>e = ?c\<close> show ?thesis by (subst tbb_loop.simps) simp
    qed
    then obtain ss where ss: "tbb_loop pt k (usize_from_VirtAddr end_va) end' (v @ [?s]) = Some ((v @ [?s]) @ ss)"
      "concat (map (slice_bytes k) ss) = map (vbyte k r) [?c..<e]" "\<forall>s\<in>set ss. sl_from s < sl_to s \<and> sl_to s \<le> 4096"
      by blast
    have "[s..<e] = [s..<?c] @ [?c..<e]" using C(1,2) upt_add_eq_append [of s ?c "e - ?c"] by simp
    with st ss sl to C(1) show ?thesis
      by (intro exI [of _ "?s # ss"]) (simp add: s_def [symmetric] e_def [symmetric])
  qed
qed

section \<open>References and strings\<close>

lemma translate_va_mapped:
  assumes a: "unat a < 2 ^ 39" and m: "mapping k (root_ppn pt) (of_nat (unat a div 4096)) = Some e"
  shows "\<exists>pa. translate_va pt (VirtAddr_from a) k = Some (Some pa) \<and> VA_floor pa = PTE_ppn e
    \<and> unat (VA_page_offset pa) = unat a mod 4096"
proof -
  obtain f where f: "walk k (root_ppn pt) (butlast (indexes (of_nat (unat a div 4096)))) = Some f"
    "entry k f (last (indexes (of_nat (unat a div 4096)))) = e"
    using mapping_walk [OF m] by blast
  let ?pa = "PhysAddr_from (PhysAddr_from_PhysPageNum (PTE_ppn e) + VA_page_offset a)"
  have p: "unat (PTE_ppn e) < 2 ^ 44" by (rule unat_PTE_ppn)
  then have b: "unat (PhysAddr_from_PhysPageNum (PTE_ppn e)) = 4096 * unat (PTE_ppn e)"
    by (simp add: PhysAddr_from_PhysPageNum_def PAGE_SIZE_BITS_def unat_push_12)
  have o: "unat (VA_page_offset a) = unat a mod 4096" by (rule unat_VA_page_offset)
  have bound: "4096 * unat (PTE_ppn e) + unat a mod 4096 < 2 ^ 56"
  proof -
    have "unat a mod 4096 < 4096" by simp
    then show ?thesis using p by simp
  qed
  then have u: "unat ?pa = 4096 * unat (PTE_ppn e) + unat a mod 4096"
    using b o by (simp add: unat_PhysAddr_from unat_add_usize)
  have "translate_va pt (VirtAddr_from a) k = Some (Some ?pa)"
    using f indexes_path(2) user_va [OF a] by (simp add: translate_va_def find_pte_eq)
  moreover have "VA_floor ?pa = PTE_ppn e" using u by (simp add: word_unat_eq_iff unat_VA_floor)
  moreover have "unat (VA_page_offset ?pa) = unat a mod 4096" using u by (simp add: unat_VA_page_offset)
  ultimately show ?thesis by blast
qed

text \<open>A user string is mapped, not at physical page 0, and ends in a zero byte.\<close>

definition user_string :: "kmem \<Rightarrow> PhysPageNum \<Rightarrow> nat \<Rightarrow> bytes \<Rightarrow> bool" where
  "user_string k r n str \<longleftrightarrow> n + length str < 2 ^ 39
    \<and> (\<forall>i\<le>length str. \<exists>e. mapping k r (of_nat ((n + i) div 4096)) = Some e \<and> PTE_ppn e \<noteq> 0)
    \<and> (\<forall>i<length str. vbyte k r (n + i) = str ! i \<and> str ! i \<noteq> 0) \<and> vbyte k r (n + length str) = 0"

lemma user_string_Cons:
  "user_string k r n (c # str) \<Longrightarrow> user_string k r (Suc n) str \<and> vbyte k r n = c \<and> c \<noteq> 0"
proof -
  assume u: "user_string k r n (c # str)"
  have len: "n + Suc (length str) < 2 ^ 39"
    and m: "\<And>i. i \<le> Suc (length str) \<Longrightarrow> \<exists>e. mapping k r (of_nat ((n + i) div 4096)) = Some e \<and> PTE_ppn e \<noteq> 0"
    and b: "\<And>i. i < Suc (length str) \<Longrightarrow> vbyte k r (n + i) = (c # str) ! i \<and> (c # str) ! i \<noteq> 0"
    and z: "vbyte k r (n + Suc (length str)) = 0"
    using u by (simp_all add: user_string_def)
  have "vbyte k r n = c \<and> c \<noteq> 0" using b [of 0] by simp
  moreover have "user_string k r (Suc n) str"
    unfolding user_string_def
  proof (intro conjI allI impI)
    show "Suc n + length str < 2 ^ 39" using len by simp
    show "vbyte k r (Suc n + length str) = 0" using z by simp
    show "\<exists>e. mapping k r (of_nat ((Suc n + i) div 4096)) = Some e \<and> PTE_ppn e \<noteq> 0" if "i \<le> length str" for i
      using m [of "Suc i"] that by simp
    show "vbyte k r (Suc n + i) = str ! i" "str ! i \<noteq> 0" if "i < length str" for i
      using b [of "Suc i"] that by simp_all
  qed
  ultimately show ?thesis by blast
qed

lemma translated_str_loop_step:
  assumes "unat a < 2 ^ 39" "mapping k (root_ppn pt) (of_nat (unat a div 4096)) = Some e" "PTE_ppn e \<noteq> 0"
  shows "translated_str_loop pt k a acc = (let ch = vbyte k (root_ppn pt) (unat a) in
    if ch = 0 then Some acc else translated_str_loop pt k (a + 1) (acc @ push_char ch))"
proof -
  obtain pa where pa: "translate_va pt (VirtAddr_from a) k = Some (Some pa)" "VA_floor pa = PTE_ppn e"
    "unat (VA_page_offset pa) = unat a mod 4096"
    using translate_va_mapped [OF assms(1,2)] by blast
  have "pa \<noteq> 0" using pa(2) assms(3) by (auto simp: VA_floor_def)
  moreover have "load_byte k pa = vbyte k (root_ppn pt) (unat a)"
    using pa assms(2) by (simp add: load_byte_def vbyte_def)
  ultimately show ?thesis using pa(1) by (subst translated_str_loop.simps) (simp add: PhysAddr_get_mut_def Let_def)
qed

lemma push_ascii: "list_all (\<lambda>c. c < 0x80) str \<Longrightarrow> concat (map push_char str) = str"
  by (induction str) (simp_all add: push_char_def)

lemma push_longer: "list_ex (\<lambda>c. 0x80 \<le> c) str \<Longrightarrow> length str < length (concat (map push_char str))"
proof -
  have "length str + length (filter (\<lambda>c. 0x80 \<le> c) str) = length (concat (map push_char str))"
    by (induction str) (auto simp: push_char_def)
  moreover assume "list_ex (\<lambda>c. 0x80 \<le> c) str"
  then have "0 < length (filter (\<lambda>c. 0x80 \<le> c) str)" by (auto simp: list_ex_iff filter_empty_conv)
  ultimately show ?thesis by linarith
qed

lemma translated_str_loop_ok:
  "user_string k (root_ppn pt) (unat a) str \<Longrightarrow> translated_str_loop pt k a acc = Some (acc @ concat (map push_char str))"
proof (induction str arbitrary: a acc)
  case Nil
  then obtain e where "mapping k (root_ppn pt) (of_nat (unat a div 4096)) = Some e" "PTE_ppn e \<noteq> 0"
    "unat a < 2 ^ 39" "vbyte k (root_ppn pt) (unat a) = 0" by (auto simp: user_string_def)
  then show ?case by (simp add: translated_str_loop_step)
next
  case (Cons c str)
  note U = user_string_Cons [OF Cons.prems]
  from Cons.prems obtain e where e: "mapping k (root_ppn pt) (of_nat (unat a div 4096)) = Some e" "PTE_ppn e \<noteq> 0"
    and a: "unat a < 2 ^ 39"
    unfolding user_string_def by (metis add.right_neutral le0 add_lessD1)
  have "unat (a + 1) = Suc (unat a)" using a by (subst unat_add_usize) simp_all
  with U have "translated_str_loop pt k (a + 1) (acc @ push_char c) = Some ((acc @ push_char c) @ concat (map push_char str))"
    by (intro Cons.IH) simp
  then show ?case using U by (simp add: translated_str_loop_step [OF a e])
qed

section \<open>User buffers\<close>

text \<open>The bytes of a buffer in order, as pointers, and those an iterator has still to visit.\<close>

definition slice_ptrs :: "byte_slice \<Rightarrow> byte_ptr list" where
  "slice_ptrs s = map (\<lambda>i. (sl_ppn s, i)) [sl_from s..<sl_to s]"

definition ub_ptrs :: "byte_slice list \<Rightarrow> byte_ptr list" where
  "ub_ptrs ss = concat (map slice_ptrs ss)"

definition it_rest :: "UserBufferIterator \<Rightarrow> byte_ptr list" where
  "it_rest it = drop (current_idx it) (ub_ptrs (drop (current_buffer it) (it_buffers it)))"

definition it_ok :: "UserBufferIterator \<Rightarrow> bool" where
  "it_ok it \<longleftrightarrow> (\<forall>s\<in>set (it_buffers it). sl_from s < sl_to s)
    \<and> (current_buffer it < length (it_buffers it) \<longrightarrow> current_idx it < slice_len (it_buffers it ! current_buffer it))
    \<and> (length (it_buffers it) \<le> current_buffer it \<longrightarrow> current_idx it = 0)"

lemma length_slice_ptrs [simp]: "length (slice_ptrs s) = slice_len s"
  by (simp add: slice_ptrs_def slice_len_def)

lemma into_iter_ok:
  assumes "\<forall>s\<in>set (buffers b). sl_from s < sl_to s"
  shows "it_ok (UserBuffer_into_iter b)" "it_rest (UserBuffer_into_iter b) = ub_ptrs (buffers b)"
  using assms by (auto simp: it_ok_def it_rest_def UserBuffer_into_iter_def slice_len_def)

lemma UserBufferIterator_next_ok:
  assumes ok: "it_ok it"
  shows "\<exists>it'. UserBufferIterator_next it = Some (case it_rest it of [] \<Rightarrow> None | p # _ \<Rightarrow> Some p, it')
    \<and> it_ok it' \<and> it_rest it' = tl (it_rest it)"
proof (cases "current_buffer it < length (it_buffers it)")
  case False
  then have "it_rest it = []" by (simp add: it_rest_def ub_ptrs_def)
  with False ok show ?thesis by (simp add: UserBufferIterator_next_def)
next
  case True
  define b rest where "b = it_buffers it ! current_buffer it"
    and "rest = ub_ptrs (drop (Suc (current_buffer it)) (it_buffers it))"
  have idx: "current_idx it < slice_len b" and ne: "\<forall>s\<in>set (it_buffers it). sl_from s < sl_to s"
    using ok True by (simp_all add: it_ok_def b_def)
  have dr: "drop (current_buffer it) (it_buffers it) = b # drop (Suc (current_buffer it)) (it_buffers it)"
    using True by (simp add: b_def Cons_nth_drop_Suc)
  have R: "it_rest it = drop (current_idx it) (slice_ptrs b) @ rest"
    using idx by (simp add: it_rest_def dr ub_ptrs_def rest_def)
  have "drop (current_idx it) (slice_ptrs b) = slice_ptrs b ! current_idx it # drop (Suc (current_idx it)) (slice_ptrs b)"
    using idx by (simp add: Cons_nth_drop_Suc)
  moreover have "slice_ptrs b ! current_idx it = (sl_ppn b, sl_from b + current_idx it)"
    using idx by (simp add: slice_ptrs_def slice_len_def)
  ultimately have R': "it_rest it = (sl_ppn b, sl_from b + current_idx it) # drop (Suc (current_idx it)) (slice_ptrs b) @ rest"
    using R by simp
  show ?thesis
  proof (cases "current_idx it + 1 = slice_len b")
    case eq: True
    let ?it = "it\<lparr>current_buffer := current_buffer it + 1, current_idx := 0\<rparr>"
    have "it_ok ?it" using ne ok by (auto simp: it_ok_def slice_len_def)
    moreover have "it_rest ?it = rest" by (simp add: it_rest_def rest_def)
    ultimately show ?thesis using True idx eq R' by (simp add: UserBufferIterator_next_def b_def [symmetric])
  next
    case ne': False
    let ?it = "it\<lparr>current_idx := current_idx it + 1\<rparr>"
    have "it_ok ?it" using ne ne' idx True by (auto simp: it_ok_def b_def)
    moreover have "it_rest ?it = drop (Suc (current_idx it)) (slice_ptrs b) @ rest"
      using idx by (simp add: it_rest_def dr ub_ptrs_def rest_def)
    ultimately show ?thesis using True idx ne' R' by (simp add: UserBufferIterator_next_def b_def [symmetric])
  qed
qed

end
