(* ===== verification/PageTableProps.thy ===== *)
theory PageTableProps
  imports UserMemory
begin

text \<open>
  The properties of page tables and of the access to user memory, with a small address space on
  which they are exercised: one frame with the bytes of the string \<open>ab\<close>, mapped at page 1.
\<close>

section \<open>A sample address space\<close>

lemma boot_sample:
  "kmem_inv 0x80500 (boot_kmem 0x80500000)" "free_frames (boot_kmem 0x80500000) = 768"
  "live_frames 0x80500 (boot_kmem 0x80500000) = {}"
proof -
  have c: "VA_ceil 0x80500000 = (0x80500 :: usize)" by (simp add: VA_ceil_def PAGE_SIZE_def)
  have "unat (0x80500000 :: usize) \<le> unat MEMORY_END" by (simp add: MEMORY_END_def)
  note b = boot_kmem_inv [OF this, unfolded c]
  show "kmem_inv 0x80500 (boot_kmem 0x80500000)" "free_frames (boot_kmem 0x80500000) = 768"
    "live_frames 0x80500 (boot_kmem 0x80500000) = {}"
    by (simp_all only: b free_frames_def) simp
qed

definition sample_ok :: "kmem \<Rightarrow> PageTable \<Rightarrow> PhysPageNum \<Rightarrow> bool" where
  "sample_ok k pt f \<longleftrightarrow> kmem_inv 0x80500 k \<and> pt_inv 0x80500 pt k \<and> unat (root_ppn pt) < 2 ^ 44 \<and> 100 \<le> free_frames k
    \<and> mapping k (root_ppn pt) = map_at (\<lambda>_. None) 1 (Some (PTE_new f (PTE_U OR PTE_V)))
    \<and> f \<in> live_frames 0x80500 k - set (pt_frames pt)
    \<and> unat f < 2 ^ 44 \<and> f \<noteq> 0 \<and> pages k f = 97 # 98 # replicate 4094 0"

lemma sample_space: "\<exists>k pt f. sample_ok k pt f"
proof -
  let ?l = "0x80500 :: usize"
  have fr: "0 < free_frames (boot_kmem 0x80500000)" by (simp add: boot_sample)
  obtain f k1 where f: "frame_alloc_unwrap (boot_kmem 0x80500000) = Some (f, k1)" "kmem_inv ?l k1"
    "live_frames ?l k1 = insert f (live_frames ?l (boot_kmem 0x80500000))"
    "free_frames (boot_kmem 0x80500000) = Suc (free_frames k1)" "unat f < 2 ^ 44"
    by (rule frame_alloc_ok [OF boot_sample(1) fr])
  have "?l \<le> f" using live_frame_bounds(1) [OF f(2)] f(3) by simp
  then have f0: "f \<noteq> 0" by auto
  define k2 where "k2 = set_bytes_array f (97 # 98 # replicate 4094 0) k1"
  have k2: "kmem_inv ?l k2" "free_frames k2 = 767" "live_frames ?l k2 = {f}"
    "pages k2 f = 97 # 98 # replicate 4094 0"
    using f boot_sample by (simp_all add: k2_def kmem_inv_pages) (simp add: set_bytes_array_def)
  have "0 < free_frames k2" by (simp add: k2)
  from PageTable_new_ok [OF k2(1) this] obtain pt k3 where pt: "PageTable_new k2 = Some (pt, k3)"
    "kmem_inv ?l k3" "pt_inv ?l pt k3" "mapping k3 (root_ppn pt) = (\<lambda>_. None)" "pt_frames pt = [root_ppn pt]"
    "root_ppn pt \<notin> live_frames ?l k2" "live_frames ?l k3 = insert (root_ppn pt) (live_frames ?l k2)"
    "unat (root_ppn pt) < 2 ^ 44" "free_frames k2 = Suc (free_frames k3)" "\<forall>p\<in>live_frames ?l k2. pages k3 p = pages k2 p"
    by blast
  have "2 \<le> free_frames k3" "mapping k3 (root_ppn pt) 1 = None" using pt(4,9) k2 by simp_all
  from pt_map_ok [OF pt(2,3) this, of f PTE_U] obtain pt' k4 where m: "pt_ext ?l pt k3 pt' k4"
    "mapping k4 (root_ppn pt) = map_at (\<lambda>_. None) 1 (Some (PTE_new f (PTE_U OR PTE_V)))"
    "free_frames k3 \<le> free_frames k4 + 2"
    using pt(4) by auto
  from m(1) obtain new where new: "pt_frames pt' = pt_frames pt @ new" "set new \<inter> live_frames ?l k3 = {}"
    "live_frames ?l k4 = live_frames ?l k3 \<union> set new" "free_frames k3 = free_frames k4 + length new"
    by (auto simp: pt_ext_def)
  have "pages k4 f = pages k3 f" using m(1) pt k2 by (auto simp: pt_ext_def)
  then have "pages k4 f = 97 # 98 # replicate 4094 0" using pt(10) k2 by simp
  then show ?thesis
    using m pt f0 f(5) new k2 by (intro exI [of _ k4] exI [of _ pt'] exI [of _ f]) (auto simp: pt_ext_def sample_ok_def)
qed

section \<open>Mapping and unmapping\<close>

text \<open>
  C16. \<open>PageTable::map\<close> refines an update of the abstract map from pages to entries. With two free
  frames, mapping a page that is not mapped succeeds: afterwards \<open>translate\<close> of the page returns an
  entry with the given frame and flags and the valid bit, every page that differs in its 27 bits
  keeps its entry, the tree of tables is well formed, its new tables are frames that were free, and no other frame in use
  is touched. Mapping a page that is already mapped panics.
\<close>

theorem pt_map_refines:
  assumes inv: "kmem_inv l k" "pt_inv l pt k" "2 \<le> free_frames k" and ppn: "unat ppn < 2 ^ 44"
  shows "if mapping k (root_ppn pt) vpn = None
    then \<exists>pt' k' pte. pt_map vpn ppn flags pt k = Some (pt', k') \<and> pt_ext l pt k pt' k'
      \<and> pt_translate pt' vpn k' = Some (Some pte) \<and> PTE_ppn pte = ppn \<and> PTE_flags pte = flags OR PTE_V
      \<and> mapping k' (root_ppn pt') = map_at (mapping k (root_ppn pt)) vpn (Some pte)
    else pt_map vpn ppn flags pt k = None"
proof (cases "mapping k (root_ppn pt) vpn")
  case None
  obtain pt' k' where m: "pt_map vpn ppn flags pt k = Some (pt', k')" "pt_ext l pt k pt' k'"
    "mapping k' (root_ppn pt) = map_at (mapping k (root_ppn pt)) vpn (Some (PTE_new ppn (flags OR PTE_V)))"
    using pt_map_ok [OF inv None] by blast
  have r: "root_ppn pt' = root_ppn pt" using m(2) by (simp add: pt_ext_def)
  have "mapping k' (root_ppn pt') vpn = Some (PTE_new ppn (flags OR PTE_V))"
    using m(3) r by (simp add: map_at_def)
  then have "pt_translate pt' vpn k' = Some (Some (PTE_new ppn (flags OR PTE_V)))"
    by (rule pt_translate_mapped)
  with None m r ppn show ?thesis by simp
qed (use pt_map_mapped [OF inv] in simp)

theorem pt_map_refines_witness:
  "\<exists>k pt. mapping k (root_ppn pt) 2 = None
    \<and> (\<exists>pt' k' pte. pt_map 2 0x80600 (PTE_R OR PTE_U) pt k = Some (pt', k') \<and> pt_ext 0x80500 pt k pt' k'
      \<and> pt_translate pt' 2 k' = Some (Some pte) \<and> PTE_ppn pte = 0x80600 \<and> PTE_flags pte = (PTE_R OR PTE_U) OR PTE_V
      \<and> mapping k' (root_ppn pt') = map_at (mapping k (root_ppn pt)) 2 (Some pte))"
proof -
  obtain k pt f where "sample_ok k pt f" using sample_space by blast
  then have s: "kmem_inv 0x80500 k" "pt_inv 0x80500 pt k" "100 \<le> free_frames k"
    "mapping k (root_ppn pt) = map_at (\<lambda>_. None) 1 (Some (PTE_new f (PTE_U OR PTE_V)))"
    by (simp_all add: sample_ok_def)
  have n: "mapping k (root_ppn pt) 2 = None" by (simp add: s(4) map_at_def)
  have "2 \<le> free_frames k" "unat (0x80600 :: usize) < 2 ^ 44" using s(3) by simp_all
  note R = pt_map_refines [OF s(1,2) this, of 2 "PTE_R OR PTE_U"]
  show ?thesis by (rule exI [of _ k], rule exI [of _ pt], rule conjI [OF n]) (use R n in \<open>simp only: if_True not_False_eq_True\<close>)
qed

text \<open>
  C31. \<open>PageTable::unmap\<close> removes exactly one page from the abstract map and keeps every table, and
  unmapping a page that is not mapped panics. But \<open>translate\<close> of the page still returns \<open>Some\<close>
  afterwards, namely the empty entry, whose frame number is 0: the callers that only test for
  \<open>None\<close> do not notice that the page is gone.
\<close>

theorem pt_unmap_refines:
  assumes inv: "kmem_inv l k" "pt_inv l pt k"
  shows "if mapping k (root_ppn pt) vpn \<noteq> None
    then \<exists>k'. pt_unmap vpn pt k = Some k' \<and> pt_ext l pt k pt k'
      \<and> mapping k' (root_ppn pt) = map_at (mapping k (root_ppn pt)) vpn None
      \<and> pt_translate pt vpn k' = Some (Some PTE_empty) \<and> PTE_ppn PTE_empty = 0
    else pt_unmap vpn pt k = None"
proof (cases "mapping k (root_ppn pt) vpn")
  case None
  then show ?thesis
    using indexes_path(2) [of vpn]
    by (auto simp: pt_unmap_def find_pte_eq mapping_def Let_def split: option.splits if_splits)
next
  case (Some e)
  moreover have "PTE_ppn PTE_empty = 0" by (simp add: PTE_ppn_def PTE_empty_def PhysPageNum_from_def)
  ultimately show ?thesis using pt_unmap_ok [OF inv Some] by auto
qed

theorem pt_unmap_refines_witness:
  "\<exists>k pt. mapping k (root_ppn pt) 1 \<noteq> None \<and> (\<exists>k'. pt_unmap 1 pt k = Some k' \<and> pt_ext 0x80500 pt k pt k'
      \<and> mapping k' (root_ppn pt) = map_at (mapping k (root_ppn pt)) 1 None
      \<and> pt_translate pt 1 k' = Some (Some PTE_empty) \<and> PTE_ppn PTE_empty = 0)"
proof -
  obtain k pt f where "sample_ok k pt f" using sample_space by blast
  then have s: "kmem_inv 0x80500 k" "pt_inv 0x80500 pt k"
    "mapping k (root_ppn pt) = map_at (\<lambda>_. None) 1 (Some (PTE_new f (PTE_U OR PTE_V)))"
    by (simp_all add: sample_ok_def)
  have n: "mapping k (root_ppn pt) 1 \<noteq> None" by (simp add: s(3) map_at_def)
  note R = pt_unmap_refines [OF s(1,2), of 1]
  show ?thesis by (rule exI [of _ k], rule exI [of _ pt], rule conjI [OF n]) (use R n in \<open>simp only: if_True not_False_eq_True\<close>)
qed

section \<open>User memory\<close>

text \<open>
  \<open>translated_byte_buffer\<close> terminates and is faithful: for a buffer in the lower half of the
  address space whose pages are all mapped, it returns slices that are not empty, stay within
  their pages, and together are the bytes of the buffer in order, page boundaries notwithstanding.
\<close>

theorem translated_byte_buffer_spec:
  assumes "kmem_inv l k" "unat (root_ppn pt) < 2 ^ 44" "unat ptr + unat len \<le> 2 ^ 38"
    and m: "\<forall>n\<in>{unat ptr..<unat ptr + unat len}. vmapped k (root_ppn pt) n"
  shows "\<exists>ss. translated_byte_buffer k (pt_token pt) ptr len = Some ss
    \<and> concat (map (slice_bytes k) ss) = map (vbyte k (root_ppn pt)) [unat ptr..<unat ptr + unat len]
    \<and> list_all (\<lambda>s. sl_from s < sl_to s \<and> sl_to s \<le> 4096) ss"
proof -
  have u: "unat (ptr + len) = unat ptr + unat len" using assms(3) by (intro unat_add_usize) simp
  have e: "unat (ptr + len) \<le> 2 ^ 38" using assms(3) u by simp
  have m': "\<forall>n\<in>{unat ptr..<unat (ptr + len)}. vmapped k (root_ppn pt) n" using m u by simp
  from tbb_loop_ok [OF assms(1) from_token_token [OF assms(2), symmetric] e m', of "[]"]
  show ?thesis by (simp add: translated_byte_buffer_def u list_all_iff)
qed

theorem translated_byte_buffer_spec_witness:
  "\<exists>k pt ss. translated_byte_buffer k (pt_token pt) 4096 2 = Some ss
    \<and> concat (map (slice_bytes k) ss) = [97, 98] \<and> list_all (\<lambda>s. sl_from s < sl_to s \<and> sl_to s \<le> 4096) ss"
proof -
  obtain k pt f where "sample_ok k pt f" using sample_space by blast
  then have s: "kmem_inv 0x80500 k" "unat (root_ppn pt) < 2 ^ 44" "unat f < 2 ^ 44"
    "mapping k (root_ppn pt) = map_at (\<lambda>_. None) 1 (Some (PTE_new f (PTE_U OR PTE_V)))"
    "pages k f = 97 # 98 # replicate 4094 0"
    by (simp_all add: sample_ok_def)
  have b: "{4096..<4098} = {4096, 4097 :: nat}" "[4096..<4098] = [4096, 4097 :: nat]" by (auto simp: upt_rec)
  have vb: "vbyte k (root_ppn pt) 4096 = 97" "vbyte k (root_ppn pt) 4097 = 98"
    using s by (simp_all add: vbyte_def map_at_def)
  have m: "\<forall>n\<in>{unat (4096 :: usize)..<unat (4096 :: usize) + unat (2 :: usize)}. vmapped k (root_ppn pt) n"
    by (simp add: b vmapped_def s(4) map_at_def)
  from translated_byte_buffer_spec [OF s(1,2) _ m] vb show ?thesis by (simp add: b) blast
qed

text \<open>
  C32. \<open>translated_str\<close> terminates on every string of the user's address space that ends in a zero
  byte and returns the string that has its bytes as the codes of its characters. For ASCII these are
  the bytes of the user's string; a byte of 128 or more becomes two bytes, so that a string that is
  not ASCII arrives changed.
\<close>

theorem translated_str_spec:
  assumes "unat (root_ppn pt) < 2 ^ 44" "user_string k (root_ppn pt) (unat ptr) str"
  shows "translated_str k (pt_token pt) ptr = Some (concat (map push_char str))
    \<and> (list_all (\<lambda>c. c < 0x80) str \<longrightarrow> concat (map push_char str) = str)
    \<and> (list_ex (\<lambda>c. 0x80 \<le> c) str \<longrightarrow> length (concat (map push_char str)) \<noteq> length str)"
proof -
  have "translated_str k (pt_token pt) ptr = Some (concat (map push_char str))"
    using translated_str_loop_ok [of k "from_token (pt_token pt)" ptr str "[]"] assms from_token_token
    by (simp add: translated_str_def)
  then show ?thesis using push_ascii [of str] push_longer [of str] by auto
qed

theorem translated_str_spec_witness:
  "\<exists>k pt. translated_str k (pt_token pt) 4096 = Some [97, 98]"
proof -
  obtain k pt f where "sample_ok k pt f" using sample_space by blast
  then have s: "unat (root_ppn pt) < 2 ^ 44" "unat f < 2 ^ 44" "f \<noteq> 0"
    "mapping k (root_ppn pt) = map_at (\<lambda>_. None) 1 (Some (PTE_new f (PTE_U OR PTE_V)))"
    "pages k f = 97 # 98 # replicate 4094 0"
    by (simp_all add: sample_ok_def)
  have vb: "vbyte k (root_ppn pt) 4096 = 97" "vbyte k (root_ppn pt) 4097 = 98" "vbyte k (root_ppn pt) 4098 = 0"
    using s by (simp_all add: vbyte_def map_at_def)
  have "user_string k (root_ppn pt) (unat (4096 :: usize)) [97, 98]"
    unfolding user_string_def
  proof (intro conjI allI impI)
    fix i assume "i \<le> length [97, 98 :: u8]"
    then have "(4096 + i) div 4096 = 1" by simp
    then show "\<exists>e. mapping k (root_ppn pt) (of_nat ((unat (4096 :: usize) + i) div 4096)) = Some e \<and> PTE_ppn e \<noteq> 0"
      using s by (simp add: map_at_def)
  next
    fix i assume "i < length [97, 98 :: u8]"
    then consider "i = 0" | "i = 1" by force
    then show "vbyte k (root_ppn pt) (unat (4096 :: usize) + i) = [97, 98] ! i" "[97, 98 :: u8] ! i \<noteq> 0"
      by (cases; simp add: vb)+
  qed (simp_all add: vb)
  from translated_str_spec [OF s(1) this] have "translated_str k (pt_token pt) 4096 = Some [97, 98]" by simp
  then show ?thesis by blast
qed

end
