(* ===== verification/MemorySpec.thy ===== *)
theory MemorySpec
  imports MemorySet PageTableProps
begin

text \<open>
  The invariant of an address space and what its operations do to it: inserting an area gives every
  page a fresh zeroed frame of its own, removing an area returns exactly its frames, and the copy
  of a space for \<open>fork\<close> has the same pages with the same contents in frames of its own.
\<close>

section \<open>Areas\<close>

text \<open>Pages are below \<open>2^27\<close>, so that page numbers are compared as such.\<close>

definition range_ok :: "VPNRange \<Rightarrow> bool" where
  "range_ok r \<longleftrightarrow> range_l r \<le> range_r r \<and> unat (range_r r) \<le> 2 ^ 27"

lemma range_items_page:
  assumes "range_ok r" "v \<in> set (range_items r)"
  shows "unat v < 2 ^ 27" "range_l r \<le> v" "v < range_r r"
proof -
  have "v \<in> {range_l r..<range_r r}" using assms by (simp add: range_ok_def set_range_items)
  then show "range_l r \<le> v" "v < range_r r" by auto
  then show "unat v < 2 ^ 27" using assms(1) by (simp add: range_ok_def word_less_nat_alt)
qed

lemma take_bit_27_page: "unat v < 2 ^ 27 \<Longrightarrow> take_bit 27 (v :: usize) = v"
  by (simp add: word_unat_eq_iff unsigned_take_bit_eq take_bit_nat_eq_self)

lemma map_at_page:
  "unat v < 2 ^ 27 \<Longrightarrow> unat w < 2 ^ 27 \<Longrightarrow> map_at m v x w = (if w = v then x else m w)"
  by (simp add: map_at_def take_bit_27_page)

definition area_frames :: "MapArea \<Rightarrow> FrameTracker list" where
  "area_frames a = map snd (data_frames a)"

definition area_pages :: "MapArea \<Rightarrow> VirtPageNum list" where
  "area_pages a = range_items (vpn_range a)"

text \<open>The entry the page table holds for a page of an area in frame \<open>f\<close>.\<close>

definition area_pte :: "MapArea \<Rightarrow> PhysPageNum \<Rightarrow> PageTableEntry" where
  "area_pte a f = PTE_new f (map_perm a OR PTE_V)"

definition area_ok :: "kmem \<Rightarrow> PhysPageNum \<Rightarrow> MapArea \<Rightarrow> bool" where
  "area_ok k r a \<longleftrightarrow> range_ok (vpn_range a) \<and> (case map_type a of
      Framed \<Rightarrow> map fst (data_frames a) = area_pages a
        \<and> (\<forall>(v, f)\<in>set (data_frames a). mapping k r v = Some (area_pte a f))
    | Identical \<Rightarrow> data_frames a = [] \<and> (\<forall>v\<in>set (area_pages a). mapping k r v = Some (area_pte a v)))"

text \<open>
  After the pages \<open>vs\<close> of an area have been mapped: the frames \<open>fs\<close> they got are new and zeroed,
  the page table has grown by new frames only, and nothing else in use has changed.
\<close>

definition mapped_pages ::
  "PhysPageNum \<Rightarrow> area_state \<Rightarrow> VirtPageNum list \<Rightarrow> area_state \<Rightarrow> bool" where
  "mapped_pages l = (\<lambda>(a, pt, k) vs (a', pt', k'). \<exists>fs. a' = a\<lparr>data_frames := zip vs fs\<rparr> \<and> length fs = length vs
    \<and> distinct fs \<and> kmem_inv l k' \<and> pt_inv l pt' k' \<and> root_ppn pt' = root_ppn pt
    \<and> set (pt_frames pt) \<subseteq> set (pt_frames pt')
    \<and> set fs \<inter> (live_frames l k \<union> set (pt_frames pt')) = {}
    \<and> set (pt_frames pt') \<inter> live_frames l k \<subseteq> set (pt_frames pt)
    \<and> live_frames l k' = live_frames l k \<union> set fs \<union> set (pt_frames pt')
    \<and> (\<forall>f\<in>set fs. pages k' f = replicate 4096 0)
    \<and> (\<forall>p\<in>live_frames l k - set (pt_frames pt). pages k' p = pages k p)
    \<and> (\<forall>w. unat w < 2 ^ 27 \<longrightarrow> mapping k' (root_ppn pt) w
        = (case map_of (zip vs fs) w of None \<Rightarrow> mapping k (root_ppn pt) w | Some f \<Rightarrow> Some (area_pte a f)))
    \<and> free_frames k \<le> free_frames k' + 3 * length vs)"

lemma mapped_pages_refl:
  "kmem_inv l k \<Longrightarrow> pt_inv l pt k \<Longrightarrow> data_frames a = [] \<Longrightarrow> mapped_pages l (a, pt, k) [] (a, pt, k)"
  by (auto simp: mapped_pages_def pt_inv_def)

lemma map_one_framed:
  assumes t: "map_type a = Framed" and m: "mapped_pages l (a, pt, k) vs (a1, pt1, k1)"
    and v: "unat v < 2 ^ 27" "\<forall>u\<in>set vs. u < v" and un: "mapping k (root_ppn pt) v = None"
    and free: "3 * length vs + 3 \<le> free_frames k" and vs: "\<forall>u\<in>set vs. unat u < 2 ^ 27"
  shows "\<exists>s. map_one v (a1, pt1, k1) = Some s \<and> mapped_pages l (a, pt, k) (vs @ [v]) s"
proof -
  let ?r = "root_ppn pt"
  from m obtain fs where fs: "a1 = a\<lparr>data_frames := zip vs fs\<rparr>" "length fs = length vs" "distinct fs"
    "kmem_inv l k1" "pt_inv l pt1 k1" "root_ppn pt1 = ?r" "set (pt_frames pt) \<subseteq> set (pt_frames pt1)"
    "set fs \<inter> (live_frames l k \<union> set (pt_frames pt1)) = {}" "set (pt_frames pt1) \<inter> live_frames l k \<subseteq> set (pt_frames pt)"
    "live_frames l k1 = live_frames l k \<union> set fs \<union> set (pt_frames pt1)"
    "\<forall>f\<in>set fs. pages k1 f = replicate 4096 0" "\<forall>p\<in>live_frames l k - set (pt_frames pt). pages k1 p = pages k p"
    "\<forall>w. unat w < 2 ^ 27 \<longrightarrow> mapping k1 ?r w
        = (case map_of (zip vs fs) w of None \<Rightarrow> mapping k ?r w | Some f \<Rightarrow> Some (area_pte a f))"
    "free_frames k \<le> free_frames k1 + 3 * length vs"
    unfolding mapped_pages_def by auto
  have free1: "3 \<le> free_frames k1" using free fs(14) by simp
  obtain f k2 where f: "frame_alloc_unwrap k1 = Some (f, k2)" "kmem_inv l k2" "f \<notin> live_frames l k1"
    "live_frames l k2 = insert f (live_frames l k1)" "pages k2 = (pages k1)(f := replicate 4096 0)"
    "free_frames k1 = Suc (free_frames k2)" "unat f < 2 ^ 44"
    using frame_alloc_ok [OF fs(4)] free1 by (metis not_gr0 not_numeral_le_zero)
  have tf: "set (pt_frames pt1) \<subseteq> live_frames l k1" by (rule pt_inv_live [OF fs(5)])
  have pt2: "pt_inv l pt1 k2" "mapping k2 ?r = mapping k1 ?r"
  proof -
    have same: "pages k2 p = pages k1 p" if "p \<in> set (pt_frames pt1)" for p using that f(3,5) tf by auto
    have live: "set (pt_frames pt1) \<subseteq> live_frames l k2" using tf f(4) by auto
    show "pt_inv l pt1 k2" "mapping k2 ?r = mapping k1 ?r"
      using pt_inv_pages_cong [OF fs(5) same live] fs(6) by simp_all
  qed
  have keys: "map_of (zip vs fs) v = None" using v(2) fs(2) by (auto simp: map_of_eq_None_iff dest!: set_zip_leftD)
  have un2: "mapping k2 (root_ppn pt1) v = None" using fs(13) v(1) keys un pt2(2) fs(6) by simp
  have "2 \<le> free_frames k2" using free1 f(6) by simp
  from pt_map_ok [OF f(2) pt2(1) this un2, of f "map_perm a"] fs(6) obtain pt3 k3 where
    p: "pt_map v f (map_perm a) pt1 k2 = Some (pt3, k3)" "pt_ext l pt1 k2 pt3 k3"
    "mapping k3 ?r = map_at (mapping k2 ?r) v (Some (area_pte a f))" "free_frames k2 \<le> free_frames k3 + 2"
    by (auto simp: area_pte_def)
  from p(2) obtain new where new: "pt_frames pt3 = pt_frames pt1 @ new" "set new \<inter> live_frames l k2 = {}"
    "live_frames l k3 = live_frames l k2 \<union> set new" "kmem_inv l k3" "pt_inv l pt3 k3" "root_ppn pt3 = ?r"
    "\<forall>p\<in>live_frames l k2 - set (pt_frames pt1). pages k3 p = pages k2 p"
    using fs(6) by (auto simp: pt_ext_def)
  have ins: "bt_insert v f (zip vs fs) = (None, zip (vs @ [v]) (fs @ [f]))"
    using v(2) fs(2) by (subst bt_insert_last) (auto dest: set_zip_leftD)
  let ?a = "a\<lparr>data_frames := zip (vs @ [v]) (fs @ [f])\<rparr>"
  have st: "map_one v (a1, pt1, k1) = Some (?a, pt3, k3)"
    using t f(1) p(1) ins by (simp add: map_one_def fs(1) drop_opt_def PTEFlags_from_bits_def)
  have "mapped_pages l (a, pt, k) (vs @ [v]) (?a, pt3, k3)"
    unfolding mapped_pages_def prod.case
  proof (intro exI [of _ "fs @ [f]"] conjI)
    show "\<forall>fa\<in>set (fs @ [f]). pages k3 fa = replicate 4096 0"
    proof
      fix g assume "g \<in> set (fs @ [f])"
      moreover from this have "g \<in> live_frames l k2 - set (pt_frames pt1)"
        using fs(8,10) f(3,4) tf by auto
      ultimately show "pages k3 g = replicate 4096 0" using new(7) f(3,5) fs(10,11) by auto
    qed
    show "\<forall>p\<in>live_frames l k - set (pt_frames pt). pages k3 p = pages k p"
    proof
      fix q assume q: "q \<in> live_frames l k - set (pt_frames pt)"
      then have "q \<in> live_frames l k2 - set (pt_frames pt1)" "q \<noteq> f" using fs(9,10) f(3,4) by auto
      then show "pages k3 q = pages k q" using new(7) f(5) fs(12) q by auto
    qed
    show "\<forall>w. unat w < 2 ^ 27 \<longrightarrow> mapping k3 ?r w = (case map_of (zip (vs @ [v]) (fs @ [f])) w of
        None \<Rightarrow> mapping k ?r w | Some g \<Rightarrow> Some (area_pte a g))"
    proof (intro allI impI)
      fix w :: usize assume w: "unat w < 2 ^ 27"
      have mo: "map_of (zip (vs @ [v]) (fs @ [f])) w = (if w = v then Some f else map_of (zip vs fs) w)"
        unfolding zip_append [OF fs(2) [symmetric]] map_of_append map_add_def
        using keys by (simp split: option.splits)
      have "mapping k3 ?r w = (if w = v then Some (area_pte a f) else mapping k1 ?r w)"
        unfolding p(3) pt2(2) by (rule map_at_page [OF v(1) w])
      then show "mapping k3 ?r w = (case map_of (zip (vs @ [v]) (fs @ [f])) w of
          None \<Rightarrow> mapping k ?r w | Some g \<Rightarrow> Some (area_pte a g))"
        unfolding mo using fs(13) w by simp
    qed
  qed (use fs f new p free in auto)
  with st show ?thesis by blast
qed

lemma area_map_framed:
  assumes t: "map_type a = Framed" "range_ok (vpn_range a)" "data_frames a = []"
    and inv: "kmem_inv l k" "pt_inv l pt k"
    and un: "\<forall>v\<in>set (area_pages a). mapping k (root_ppn pt) v = None"
    and free: "3 * length (area_pages a) \<le> free_frames k"
  shows "\<exists>s. area_map (a, pt, k) = Some s \<and> mapped_pages l (a, pt, k) (area_pages a) s"
proof -
  let ?vs = "range_items (vpn_range a)"
  have le: "range_l (vpn_range a) \<le> range_r (vpn_range a)" using t(2) by (simp add: range_ok_def)
  have "\<exists>s. foldo map_one ?vs (a, pt, k) = Some s \<and> mapped_pages l (a, pt, k) ?vs s"
  proof (rule foldo_rule)
    show "mapped_pages l (a, pt, k) [] (a, pt, k)" by (rule mapped_pages_refl [OF inv t(3)])
    fix pre v rest u assume vs: "?vs = pre @ v # rest" and m: "mapped_pages l (a, pt, k) pre u"
    have "map unat ?vs = [unat (range_l (vpn_range a))..<unat (range_r (vpn_range a))]"
      by (rule map_unat_range_items [OF le])
    then have "sorted_wrt (<) (map unat ?vs)" by simp
    then have lt: "\<forall>w\<in>set pre. w < v" by (auto simp: vs sorted_wrt_append word_less_nat_alt)
    have page: "\<forall>w\<in>set ?vs. unat w < 2 ^ 27" using range_items_page(1) [OF t(2)] by blast
    obtain a1 pt1 k1 where u: "u = (a1, pt1, k1)" by (cases u)
    have "v \<in> set ?vs" "set pre \<subseteq> set ?vs" by (auto simp: vs)
    then show "\<exists>s. map_one v u = Some s \<and> mapped_pages l (a, pt, k) (pre @ [v]) s"
      unfolding u using page un free lt
      by (intro map_one_framed [OF t(1) m [unfolded u]]) (auto simp: area_pages_def vs)
  qed
  then show ?thesis by (simp add: area_map_def area_pages_def)
qed

section \<open>Memory sets\<close>

definition TRAMPOLINE_VPN :: VirtPageNum where
  "TRAMPOLINE_VPN = VA_floor (VirtAddr_from TRAMPOLINE)"

lemma TRAMPOLINE_VPN_eq: "TRAMPOLINE_VPN = 0x7FFFFFF"
  by (simp add: TRAMPOLINE_VPN_def word_unat_eq_iff unat_VA_floor unat_VirtAddr_from TRAMPOLINE_def PAGE_SIZE_def)

definition ms_pages :: "MemorySet \<Rightarrow> VirtPageNum list" where
  "ms_pages ms = concat (map area_pages (ms_areas ms))"

definition ms_frames :: "MemorySet \<Rightarrow> FrameTracker list" where
  "ms_frames ms = pt_frames (ms_page_table ms) @ concat (map area_frames (ms_areas ms))"

abbreviation ms_root :: "MemorySet \<Rightarrow> PhysPageNum" where
  "ms_root ms \<equiv> root_ppn (ms_page_table ms)"

text \<open>
  The invariant: the frames of the tables and of all areas are in use and pairwise different, the
  areas do not overlap, and the mapped pages are those of the areas and the trampoline.
\<close>

definition ms_inv :: "PhysPageNum \<Rightarrow> MemorySet \<Rightarrow> kmem \<Rightarrow> bool" where
  "ms_inv l ms k \<longleftrightarrow> kmem_inv l k \<and> pt_inv l (ms_page_table ms) k
    \<and> (\<forall>a\<in>set (ms_areas ms). area_ok k (ms_root ms) a)
    \<and> distinct (ms_pages ms) \<and> TRAMPOLINE_VPN \<notin> set (ms_pages ms)
    \<and> distinct (ms_frames ms) \<and> set (ms_frames ms) \<subseteq> live_frames l k
    \<and> (\<forall>w. unat w < 2 ^ 27 \<longrightarrow> mapping k (ms_root ms) w \<noteq> None \<longrightarrow> w \<in> set (ms_pages ms) \<or> w = TRAMPOLINE_VPN)"

definition fresh_area :: "MemorySet \<Rightarrow> MapArea \<Rightarrow> bool" where
  "fresh_area ms a \<longleftrightarrow> map_type a = Framed \<and> range_ok (vpn_range a) \<and> data_frames a = []
    \<and> set (area_pages a) \<inter> insert TRAMPOLINE_VPN (set (ms_pages ms)) = {}"

lemma area_pages_page: "range_ok (vpn_range a) \<Longrightarrow> v \<in> set (area_pages a) \<Longrightarrow> unat v < 2 ^ 27"
  by (simp only: area_pages_def) (rule range_items_page(1))

lemma area_ok_pages: "area_ok k r a \<Longrightarrow> v \<in> set (area_pages a) \<Longrightarrow> unat v < 2 ^ 27"
  using area_pages_page by (auto simp: area_ok_def)

lemma distinct_area_pages: "range_ok (vpn_range a) \<Longrightarrow> distinct (area_pages a)"
  by (simp add: area_pages_def range_ok_def distinct_range_items)

lemma area_ok_mapping_cong:
  assumes ok: "area_ok k r a" and eq: "\<And>v. v \<in> set (area_pages a) \<Longrightarrow> mapping k' r v = mapping k r v"
  shows "area_ok k' r a"
proof (cases "map_type a")
  case Framed
  have "v \<in> set (area_pages a)" if "(v, f) \<in> set (data_frames a)" for v f
  proof -
    have "map fst (data_frames a) = area_pages a" using ok Framed by (simp add: area_ok_def)
    then have "set (area_pages a) = fst ` set (data_frames a)" by (metis list.set_map)
    with that show ?thesis by force
  qed
  with ok eq Framed show ?thesis by (fastforce simp: area_ok_def)
qed (use ok eq in \<open>simp add: area_ok_def\<close>)

lemma ms_push_framed:
  assumes inv: "ms_inv l ms k" and fr: "fresh_area ms a" and free: "3 * length (area_pages a) \<le> free_frames k"
  shows "\<exists>a' pt' k'. ms_push a None (ms, k) = Some (ms\<lparr>ms_page_table := pt', ms_areas := ms_areas ms @ [a']\<rparr>, k')
    \<and> ms_inv l (ms\<lparr>ms_page_table := pt', ms_areas := ms_areas ms @ [a']\<rparr>) k'
    \<and> mapped_pages l (a, ms_page_table ms, k) (area_pages a) (a', pt', k')"
proof -
  let ?pt = "ms_page_table ms" and ?r = "ms_root ms" and ?vs = "area_pages a"
  have A: "map_type a = Framed" "range_ok (vpn_range a)" "data_frames a = []"
    "set ?vs \<inter> insert TRAMPOLINE_VPN (set (ms_pages ms)) = {}" using fr by (auto simp: fresh_area_def)
  have I: "kmem_inv l k" "pt_inv l ?pt k" "\<And>b. b \<in> set (ms_areas ms) \<Longrightarrow> area_ok k ?r b"
    "distinct (ms_pages ms)" "TRAMPOLINE_VPN \<notin> set (ms_pages ms)" "distinct (ms_frames ms)" "set (ms_frames ms) \<subseteq> live_frames l k"
    "\<And>w. unat w < 2 ^ 27 \<Longrightarrow> mapping k ?r w \<noteq> None \<Longrightarrow> w \<in> set (ms_pages ms) \<or> w = TRAMPOLINE_VPN"
    using inv by (auto simp: ms_inv_def)
  have un: "\<forall>v\<in>set ?vs. mapping k ?r v = None"
    using A(4) I(8) area_pages_page [OF A(2)] by blast
  from area_map_framed [OF A(1-3) I(1,2) un free] obtain a' pt' k' where
    m: "area_map (a, ?pt, k) = Some (a', pt', k')" "mapped_pages l (a, ?pt, k) ?vs (a', pt', k')" by auto
  from m(2) obtain fs where fs: "a' = a\<lparr>data_frames := zip ?vs fs\<rparr>" "length fs = length ?vs" "distinct fs"
    "kmem_inv l k'" "pt_inv l pt' k'" "root_ppn pt' = ?r" "set (pt_frames ?pt) \<subseteq> set (pt_frames pt')"
    "set fs \<inter> (live_frames l k \<union> set (pt_frames pt')) = {}" "set (pt_frames pt') \<inter> live_frames l k \<subseteq> set (pt_frames ?pt)"
    "live_frames l k' = live_frames l k \<union> set fs \<union> set (pt_frames pt')"
    "\<And>w. unat w < 2 ^ 27 \<Longrightarrow> mapping k' ?r w
        = (case map_of (zip ?vs fs) w of None \<Rightarrow> mapping k ?r w | Some f \<Rightarrow> Some (area_pte a f))"
    unfolding mapped_pages_def by auto
  let ?ms = "ms\<lparr>ms_page_table := pt', ms_areas := ms_areas ms @ [a']\<rparr>"
  have a': "area_pages a' = ?vs" "area_frames a' = fs" "area_pte a' = area_pte a" "map_type a' = Framed"
    "vpn_range a' = vpn_range a"
    using fs(1,2) A(1) by (simp_all add: area_pages_def area_frames_def area_pte_def fun_eq_iff)
  have old: "mapping k' ?r w = mapping k ?r w" if "unat w < 2 ^ 27" "w \<notin> set ?vs" for w
  proof -
    have "map_of (zip ?vs fs) w = None" using that(2) by (auto simp: map_of_eq_None_iff dest!: set_zip_leftD)
    then show ?thesis using fs(11) [OF that(1)] by simp
  qed
  have "area_ok k' ?r a'"
  proof -
    have "map_of (zip ?vs fs) v = Some f" if "(v, f) \<in> set (zip ?vs fs)" for v f
      using that distinct_area_pages [OF A(2)] fs(2) by (intro map_of_is_SomeI) simp_all
    then have "mapping k' ?r v = Some (area_pte a f)" if "(v, f) \<in> set (zip ?vs fs)" for v f
      using fs(11) [of v] that area_pages_page [OF A(2)] by (fastforce dest: set_zip_leftD)
    moreover have "map fst (data_frames a') = ?vs" using fs(1,2) by simp
    ultimately show ?thesis using a' A fs(1) by (auto simp: area_ok_def)
  qed
  moreover have "area_ok k' ?r b" if b: "b \<in> set (ms_areas ms)" for b
  proof (rule area_ok_mapping_cong [OF I(3) [OF b]])
    fix v assume v: "v \<in> set (area_pages b)"
    then have "v \<in> set (ms_pages ms)" using b by (auto simp: ms_pages_def)
    then show "mapping k' ?r v = mapping k ?r v"
      using A(4) area_ok_pages [OF I(3) [OF b] v] by (intro old) auto
  qed
  moreover have "ms_pages ?ms = ms_pages ms @ ?vs" by (simp add: ms_pages_def a')
  moreover have "distinct (ms_frames ?ms)" "set (ms_frames ?ms) \<subseteq> live_frames l k'"
  proof -
    let ?ds = "concat (map area_frames (ms_areas ms))"
    have F: "ms_frames ?ms = pt_frames pt' @ ?ds @ fs" by (simp add: ms_frames_def a')
    have ds: "distinct ?ds" "set ?ds \<subseteq> live_frames l k" "set ?ds \<inter> set (pt_frames ?pt) = {}"
      using I(6,7) by (auto simp: ms_frames_def)
    have "distinct (pt_frames pt')" using fs(5) by (simp add: pt_inv_def)
    then show "distinct (ms_frames ?ms)" using ds fs(3,8,9) by (simp add: F) blast
    show "set (ms_frames ?ms) \<subseteq> live_frames l k'" using ds(2) fs(10) by (simp only: F set_append) blast
  qed
  moreover have "w \<in> set (ms_pages ms @ ?vs) \<or> w = TRAMPOLINE_VPN"
    if "unat w < 2 ^ 27" "mapping k' ?r w \<noteq> None" for w
    using that old [of w] I(8) [of w] by (cases "w \<in> set ?vs") auto
  ultimately have "ms_inv l ?ms k'"
    unfolding ms_inv_def using fs(4,5,6) I(4,5) A(4) distinct_area_pages [OF A(2)] by auto
  moreover have "ms_push a None (ms, k) = Some (?ms, k')" by (simp add: ms_push_def m(1))
  ultimately show ?thesis using m(2) by blast
qed

end
