(* ===== verification/MemoryFork.thy ===== *)
theory MemoryFork
  imports MemorySpec
begin

text \<open>
  Fresh address spaces and the copy of an address space by \<open>MemorySet::from_existed_user\<close>, which
  \<open>fork\<close> uses.
\<close>

section \<open>Fresh spaces\<close>

lemma ms_inv_pages_cong:
  assumes inv: "ms_inv l ms k" and k': "kmem_inv l k'" "set (ms_frames ms) \<subseteq> live_frames l k'"
    and same: "\<And>p. p \<in> set (pt_frames (ms_page_table ms)) \<Longrightarrow> pages k' p = pages k p"
  shows "ms_inv l ms k'" "mapping k' (ms_root ms) = mapping k (ms_root ms)"
proof -
  have pi: "pt_inv l (ms_page_table ms) k" using inv by (simp add: ms_inv_def)
  have live: "set (pt_frames (ms_page_table ms)) \<subseteq> live_frames l k'" using k'(2) by (simp add: ms_frames_def)
  note P = pt_inv_pages_cong [OF pi same live]
  show m: "mapping k' (ms_root ms) = mapping k (ms_root ms)" by (rule P(2))
  have "area_ok k' (ms_root ms) a" if "a \<in> set (ms_areas ms)" for a
  proof (rule area_ok_mapping_cong)
    show "area_ok k (ms_root ms) a" using inv that unfolding ms_inv_def by blast
  qed (simp only: m)
  then show "ms_inv l ms k'" using inv k' P(1) unfolding ms_inv_def m by blast
qed

definition trampoline_pte :: "linker_symbols \<Rightarrow> PageTableEntry" where
  "trampoline_pte syms = PTE_new (VA_floor (PhysAddr_from (strampoline syms))) ((PTE_R OR PTE_X) OR PTE_V)"

text \<open>What a new space made of fresh frames satisfies with respect to the memory it was made in.\<close>

definition fresh_space :: "PhysPageNum \<Rightarrow> kmem \<Rightarrow> MemorySet \<Rightarrow> kmem \<Rightarrow> bool" where
  "fresh_space l k ms k' \<longleftrightarrow> ms_inv l ms k' \<and> set (ms_frames ms) \<inter> live_frames l k = {}
    \<and> live_frames l k' = live_frames l k \<union> set (ms_frames ms)
    \<and> (\<forall>p\<in>live_frames l k. pages k' p = pages k p)"

lemma new_space_ok:
  assumes inv: "kmem_inv l k" "3 \<le> free_frames k" and al: "VA_page_offset (PhysAddr_from (strampoline syms)) = 0"
  shows "\<exists>ms k'. new_bare k \<bind> map_trampoline syms = Some (ms, k') \<and> fresh_space l k ms k' \<and> ms_areas ms = []
    \<and> mapping k' (ms_root ms) TRAMPOLINE_VPN = Some (trampoline_pte syms) \<and> free_frames k \<le> free_frames k' + 3"
proof -
  have "0 < free_frames k" using inv(2) by simp
  from PageTable_new_ok [OF inv(1) this] obtain pt k1 where pt: "PageTable_new k = Some (pt, k1)"
    "kmem_inv l k1" "pt_inv l pt k1" "mapping k1 (root_ppn pt) = (\<lambda>_. None)" "pt_frames pt = [root_ppn pt]"
    "root_ppn pt \<notin> live_frames l k" "live_frames l k1 = insert (root_ppn pt) (live_frames l k)"
    "free_frames k = Suc (free_frames k1)" "\<forall>p\<in>live_frames l k. pages k1 p = pages k p"
    by blast
  have "2 \<le> free_frames k1" "mapping k1 (root_ppn pt) TRAMPOLINE_VPN = None" using pt(4,8) inv(2) by simp_all
  from pt_map_ok [OF pt(2,3) this, of "VA_floor (PhysAddr_from (strampoline syms))" "PTE_R OR PTE_X"] obtain pt' k' where m:
    "pt_map TRAMPOLINE_VPN (VA_floor (PhysAddr_from (strampoline syms))) (PTE_R OR PTE_X) pt k1 = Some (pt', k')"
    "pt_ext l pt k1 pt' k'" "mapping k' (root_ppn pt) = map_at (\<lambda>_. None) TRAMPOLINE_VPN (Some (trampoline_pte syms))"
    "free_frames k1 \<le> free_frames k' + 2"
    using pt(4) by (auto simp: trampoline_pte_def)
  from m(2) obtain new where new: "pt_frames pt' = pt_frames pt @ new" "set new \<inter> live_frames l k1 = {}"
    "live_frames l k' = live_frames l k1 \<union> set new" "kmem_inv l k'" "pt_inv l pt' k'" "root_ppn pt' = root_ppn pt"
    "\<forall>p\<in>live_frames l k1 - set (pt_frames pt). pages k' p = pages k1 p"
    by (auto simp: pt_ext_def)
  let ?ms = "\<lparr>ms_page_table = pt', ms_areas = []\<rparr>"
  have tv: "unat TRAMPOLINE_VPN < 2 ^ 27" by (simp add: TRAMPOLINE_VPN_eq)
  have off: "VA_page_offset (VirtAddr_from TRAMPOLINE) = 0"
    by (simp add: word_unat_eq_iff unat_VA_page_offset unat_VirtAddr_from TRAMPOLINE_def PAGE_SIZE_def)
  have "new_bare k \<bind> map_trampoline syms = Some (?ms, k')"
    using pt(1) m(1) off al by (simp add: new_bare_def map_trampoline_def VirtPageNum_from_VirtAddr_def
        PhysPageNum_from_PhysAddr_def TRAMPOLINE_VPN_def)
  moreover have "ms_inv l ?ms k'"
    unfolding ms_inv_def
  proof (intro conjI)
    show "\<forall>w. unat w < 2 ^ 27 \<longrightarrow> mapping k' (ms_root ?ms) w \<noteq> None \<longrightarrow> w \<in> set (ms_pages ?ms) \<or> w = TRAMPOLINE_VPN"
      using m(3) new(6) tv by (simp add: map_at_page)
    show "distinct (ms_frames ?ms)" using new(5) by (simp add: ms_frames_def pt_inv_def)
    show "set (ms_frames ?ms) \<subseteq> live_frames l k'" using pt_inv_live [OF new(5)] by (simp add: ms_frames_def)
  qed (use new in \<open>simp_all add: ms_pages_def\<close>)
  moreover have "pages k' p = pages k p" if "p \<in> live_frames l k" for p
    using that pt(5-7,9) new(7) by auto
  moreover have "set (ms_frames ?ms) \<inter> live_frames l k = {}" "live_frames l k' = live_frames l k \<union> set (ms_frames ?ms)"
    using new(1-3) pt(5-7) by (auto simp: ms_frames_def)
  moreover have "mapping k' (ms_root ?ms) TRAMPOLINE_VPN = Some (trampoline_pte syms)"
    using m(3) new(6) by (simp add: map_at_def)
  moreover have "free_frames k \<le> free_frames k' + 3" using m(4) pt(8) by simp
  ultimately show ?thesis by (auto simp: fresh_space_def)
qed

section \<open>Copying an area\<close>

text \<open>The copy of a page in another space has the same flags and contents in a frame of its own.\<close>

definition ms_data :: "MemorySet \<Rightarrow> FrameTracker list" where
  "ms_data ms = concat (map area_frames (ms_areas ms))"

definition page_copied :: "MemorySet \<Rightarrow> kmem \<Rightarrow> MemorySet \<Rightarrow> kmem \<Rightarrow> VirtPageNum \<Rightarrow> bool" where
  "page_copied src k ms k' v \<longleftrightarrow> (\<exists>e e'. mapping k (ms_root src) v = Some e \<and> mapping k' (ms_root ms) v = Some e'
    \<and> PTE_flags e' = PTE_flags e \<and> PTE_ppn e' \<in> set (ms_data ms)
    \<and> pages k' (PTE_ppn e') = pages k (PTE_ppn e))"

text \<open>After the areas \<open>as\<close> have been copied.\<close>

definition areas_copied :: "PhysPageNum \<Rightarrow> linker_symbols \<Rightarrow> MemorySet \<Rightarrow> kmem \<Rightarrow> MapArea list \<Rightarrow> MemorySet \<times> kmem \<Rightarrow> bool" where
  "areas_copied l syms src k as = (\<lambda>(ms, k'). fresh_space l k ms k'
    \<and> mapping k' (ms_root ms) TRAMPOLINE_VPN = Some (trampoline_pte syms)
    \<and> map vpn_range (ms_areas ms) = map vpn_range as \<and> map map_perm (ms_areas ms) = map map_perm as
    \<and> (\<forall>a\<in>set (ms_areas ms). map_type a = Framed)
    \<and> (\<forall>a\<in>set as. \<forall>v\<in>set (area_pages a). page_copied src k ms k' v)
    \<and> free_frames k \<le> free_frames k' + 3 + 3 * length (concat (map area_pages as)))"

lemma copy_page_ok:
  assumes s: "mapping k (ms_root src) v = Some e" and d: "mapping k (ms_root ms) v = Some e'"
  shows "copy_page src ms v k = Some (set_bytes_array (PTE_ppn e') (pages k (PTE_ppn e)) k)"
  using pt_translate_mapped [OF s] pt_translate_mapped [OF d]
  by (simp add: copy_page_def ms_translate_def get_bytes_array_def)

text \<open>
  The loop over the pages of an area: sources \<open>sf\<close> and targets \<open>df\<close> are disjoint sets of frames,
  none of them a table.
\<close>

lemma copy_pages_ok:
  assumes inv: "kmem_inv l k"
    and src: "pt_inv l (ms_page_table src) k" "\<And>v. v \<in> set vs \<Longrightarrow> mapping k (ms_root src) v = Some (s v)"
    and dst: "pt_inv l (ms_page_table ms) k" "\<And>v. v \<in> set vs \<Longrightarrow> mapping k (ms_root ms) v = Some (d v)"
    and inj: "inj_on (\<lambda>v. PTE_ppn (d v)) (set vs)"
    and disj: "\<And>v. v \<in> set vs \<Longrightarrow> PTE_ppn (d v) \<notin> set (pt_frames (ms_page_table src)) \<union> set (pt_frames (ms_page_table ms))"
    and disj2: "\<And>v w. v \<in> set vs \<Longrightarrow> w \<in> set vs \<Longrightarrow> PTE_ppn (d v) \<noteq> PTE_ppn (s w)"
    and dist: "distinct vs"
  shows "\<exists>k'. foldo (copy_page src ms) vs k = Some k' \<and> kmem_inv l k' \<and> live_frames l k' = live_frames l k
    \<and> free_frames k' = free_frames k
    \<and> (\<forall>p. p \<notin> (\<lambda>v. PTE_ppn (d v)) ` set vs \<longrightarrow> pages k' p = pages k p)
    \<and> (\<forall>v\<in>set vs. pages k' (PTE_ppn (d v)) = pages k (PTE_ppn (s v)))"
proof -
  define Q where "Q pre k' \<longleftrightarrow> kmem_inv l k' \<and> live_frames l k' = live_frames l k \<and> free_frames k' = free_frames k
    \<and> (\<forall>p. p \<notin> (\<lambda>v. PTE_ppn (d v)) ` set pre \<longrightarrow> pages k' p = pages k p)
    \<and> (\<forall>v\<in>set pre. pages k' (PTE_ppn (d v)) = pages k (PTE_ppn (s v)))" for pre k'
  have "\<exists>k'. foldo (copy_page src ms) vs k = Some k' \<and> Q vs k'"
  proof (rule foldo_rule)
    show "Q [] k" using inv by (simp add: Q_def)
    fix pre v rest k1 assume vs: "vs = pre @ v # rest" and q: "Q pre k1"
    have sub: "set pre \<subseteq> set vs" "v \<in> set vs" "v \<notin> set pre" using dist by (auto simp: vs)
    have T: "pages k1 p = pages k p" if "p \<in> set (pt_frames (ms_page_table src)) \<union> set (pt_frames (ms_page_table ms))" for p
    proof -
      have "p \<notin> (\<lambda>v. PTE_ppn (d v)) ` set pre" using disj sub(1) that by blast
      then show ?thesis using q by (simp add: Q_def)
    qed
    have lv: "live_frames l k1 = live_frames l k" using q by (simp add: Q_def)
    have "mapping k1 (ms_root src) = mapping k (ms_root src)"
      by (rule pt_inv_pages_cong(2) [OF src(1)]) (use T pt_inv_live [OF src(1)] lv in auto)
    moreover have "mapping k1 (ms_root ms) = mapping k (ms_root ms)"
      by (rule pt_inv_pages_cong(2) [OF dst(1)]) (use T pt_inv_live [OF dst(1)] lv in auto)
    ultimately have st: "copy_page src ms v k1 = Some (set_bytes_array (PTE_ppn (d v)) (pages k1 (PTE_ppn (s v))) k1)"
      using src(2) [OF sub(2)] dst(2) [OF sub(2)] by (intro copy_page_ok) simp_all
    have "PTE_ppn (d w) \<noteq> PTE_ppn (s v)" if "w \<in> set pre" for w
      by (rule disj2) (use that sub in auto)
    then have "PTE_ppn (s v) \<notin> (\<lambda>v. PTE_ppn (d v)) ` set pre" by force
    then have sv: "pages k1 (PTE_ppn (s v)) = pages k (PTE_ppn (s v))" using q by (simp add: Q_def)
    have ne: "PTE_ppn (d w) \<noteq> PTE_ppn (d v)" if "w \<in> set pre" for w
      using inj_onD [OF inj, of w v] that sub by auto
    have "Q (pre @ [v]) (set_bytes_array (PTE_ppn (d v)) (pages k1 (PTE_ppn (s v))) k1)"
      unfolding Q_def
    proof (intro conjI)
      have "length (pages k1 (PTE_ppn (s v))) = 4096" using q by (simp add: Q_def kmem_inv_def)
      then show "kmem_inv l (set_bytes_array (PTE_ppn (d v)) (pages k1 (PTE_ppn (s v))) k1)"
        using q by (intro kmem_inv_pages) (simp_all add: Q_def)
    qed (use q sv ne in \<open>auto simp: Q_def set_bytes_array_def live_frames_def free_frames_def\<close>)
    with st show "\<exists>k'. copy_page src ms v k1 = Some k' \<and> Q (pre @ [v]) k'" by blast
  qed
  then show ?thesis by (simp add: Q_def)
qed

lemma area_ok_entry:
  assumes "area_ok k r a" "map_type a = Framed" "v \<in> set (area_pages a)"
  shows "\<exists>f\<in>set (area_frames a). mapping k r v = Some (area_pte a f)"
proof -
  have keys: "map fst (data_frames a) = area_pages a"
    and ent: "\<forall>(v, f)\<in>set (data_frames a). mapping k r v = Some (area_pte a f)"
    using assms(1,2) by (simp_all add: area_ok_def)
  have "v \<in> fst ` set (data_frames a)" using assms(3) by (simp flip: keys)
  then obtain f where "(v, f) \<in> set (data_frames a)" by auto
  then show ?thesis using ent by (force simp: area_frames_def)
qed

lemma areas_same_ranges:
  "map vpn_range as = map vpn_range bs \<Longrightarrow> map area_pages as = map area_pages bs"
proof -
  assume "map vpn_range as = map vpn_range bs"
  then have "map range_items (map vpn_range as) = map range_items (map vpn_range bs)" by simp
  then show ?thesis by (simp add: area_pages_def [abs_def] comp_def)
qed

lemma copy_area_ok:
  assumes src: "ms_inv l src k" "ms_areas src = as @ a # rest" and framed: "map_type a = Framed"
    and c: "areas_copied l syms src k as (ms, k1)" and free: "3 + 3 * length (ms_pages src) \<le> free_frames k"
  shows "\<exists>st. copy_area src a (ms, k1) = Some st \<and> areas_copied l syms src k (as @ [a]) st"
proof -
  define na where "na = \<lparr>vpn_range = vpn_range a, data_frames = [], map_type = Framed, map_perm = map_perm a\<rparr>"
  let ?vs = "area_pages a"
  have na: "area_pages na = ?vs" "area_pte na = area_pte a"
    by (simp_all add: na_def area_pages_def area_pte_def fun_eq_iff)
  have nf: "map_type na = Framed" "vpn_range na = vpn_range a" "data_frames na = []" "map_perm na = map_perm a"
    by (simp_all add: na_def)
  have aok: "area_ok k (ms_root src) a" using src by (simp add: ms_inv_def)
  then have ra: "range_ok (vpn_range a)" "map_type a = Framed" using framed by (simp_all add: area_ok_def)
  have fa: "from_another a = Some na"
    using ra by (simp add: from_another_def SimpleRange_new_def get_start_def get_end_def range_ok_def na_def)
  have C: "ms_inv l ms k1" "set (ms_frames ms) \<inter> live_frames l k = {}"
    "live_frames l k1 = live_frames l k \<union> set (ms_frames ms)" "\<And>p. p \<in> live_frames l k \<Longrightarrow> pages k1 p = pages k p"
    "mapping k1 (ms_root ms) TRAMPOLINE_VPN = Some (trampoline_pte syms)"
    "map vpn_range (ms_areas ms) = map vpn_range as" "map map_perm (ms_areas ms) = map map_perm as"
    "\<And>b v. b \<in> set as \<Longrightarrow> v \<in> set (area_pages b) \<Longrightarrow> page_copied src k ms k1 v"
    "free_frames k \<le> free_frames k1 + 3 + 3 * length (concat (map area_pages as))"
    using c by (auto simp: areas_copied_def fresh_space_def)
  have mp: "ms_pages ms = concat (map area_pages as)"
    using areas_same_ranges [OF C(6)] by (simp add: ms_pages_def)
  have sp: "ms_pages src = concat (map area_pages as) @ ?vs @ concat (map area_pages rest)"
    by (simp add: ms_pages_def src(2))
  have SI: "distinct (ms_pages src)" "TRAMPOLINE_VPN \<notin> set (ms_pages src)" "pt_inv l (ms_page_table src) k"
    "distinct (ms_frames src)" "set (ms_frames src) \<subseteq> live_frames l k"
    using src(1) unfolding ms_inv_def by blast+
  have "fresh_area ms na" using SI(1,2) ra by (auto simp: fresh_area_def na mp sp nf)
  moreover have "3 * length (area_pages na) \<le> free_frames k1" using free C(9) by (simp add: sp na)
  ultimately obtain a' pt' k2 where p: "ms_push na None (ms, k1) = Some (ms\<lparr>ms_page_table := pt', ms_areas := ms_areas ms @ [a']\<rparr>, k2)"
    "ms_inv l (ms\<lparr>ms_page_table := pt', ms_areas := ms_areas ms @ [a']\<rparr>) k2"
    "mapped_pages l (na, ms_page_table ms, k1) (area_pages na) (a', pt', k2)"
    using ms_push_framed [OF C(1)] by blast
  define ms1 where "ms1 = ms\<lparr>ms_page_table := pt', ms_areas := ms_areas ms @ [a']\<rparr>"
  note p = p [unfolded ms1_def [symmetric] na]
  from p(3) obtain fs where fs: "a' = na\<lparr>data_frames := zip ?vs fs\<rparr>" "length fs = length ?vs" "distinct fs"
    "kmem_inv l k2" "pt_inv l pt' k2" "root_ppn pt' = ms_root ms" "set (pt_frames (ms_page_table ms)) \<subseteq> set (pt_frames pt')"
    "set fs \<inter> (live_frames l k1 \<union> set (pt_frames pt')) = {}"
    "set (pt_frames pt') \<inter> live_frames l k1 \<subseteq> set (pt_frames (ms_page_table ms))"
    "live_frames l k2 = live_frames l k1 \<union> set fs \<union> set (pt_frames pt')"
    "\<And>q. q \<in> live_frames l k1 - set (pt_frames (ms_page_table ms)) \<Longrightarrow> pages k2 q = pages k1 q"
    "\<And>w. unat w < 2 ^ 27 \<Longrightarrow> mapping k2 (ms_root ms) w
        = (case map_of (zip ?vs fs) w of None \<Rightarrow> mapping k1 (ms_root ms) w | Some f \<Rightarrow> Some (area_pte na f))"
    "free_frames k1 \<le> free_frames k2 + 3 * length ?vs"
    unfolding mapped_pages_def by auto
  note fs = fs [unfolded na]
  have root1: "ms_root ms1 = ms_root ms" "ms_page_table ms1 = pt'" using fs(6) by (simp_all add: ms1_def)
  have af: "area_frames a' = fs" using fs(1,2) by (simp add: area_frames_def)
  have fr1: "ms_data ms1 = ms_data ms @ fs" by (simp add: ms_data_def ms1_def af)
  have mf: "ms_frames m = pt_frames (ms_page_table m) @ ms_data m" for m by (simp add: ms_frames_def ms_data_def)
  have k2_k: "pages k2 q = pages k q" if "q \<in> live_frames l k" for q
    using that C(2-4) fs(11) [of q] by (auto simp: mf)
  have fs0: "set fs \<inter> live_frames l k = {}" using fs(8) C(3) by auto
  \<comment> \<open>the pages of the area in both spaces\<close>
  define s where "s v = the (mapping k (ms_root src) v)" for v
  define d where "d v = area_pte a (the (map_of (zip ?vs fs) v))" for v
  have fs44: "unat f < 2 ^ 44" if "f \<in> set fs" for f using live_frame_bounds(2) [OF fs(4)] fs(10) that by auto
  have sv: "mapping k (ms_root src) v = Some (s v) \<and> PTE_ppn (s v) \<in> live_frames l k \<and> PTE_flags (s v) = map_perm a OR PTE_V"
    if v: "v \<in> set ?vs" for v
  proof -
    obtain f where f: "f \<in> set (area_frames a)" "mapping k (ms_root src) v = Some (area_pte a f)"
      using area_ok_entry [OF aok framed v] by blast
    have fl: "f \<in> live_frames l k" using f(1) SI(5) src(2) by (auto simp: ms_frames_def)
    moreover have "unat f < 2 ^ 44"
      using live_frame_bounds(2) [OF _ fl] src(1) unfolding ms_inv_def by blast
    ultimately show ?thesis using f(2) by (simp add: s_def area_pte_def)
  qed
  have dv: "mapping k2 (ms_root ms) v = Some (d v) \<and> PTE_ppn (d v) = the (map_of (zip ?vs fs) v)
      \<and> (v, PTE_ppn (d v)) \<in> set (zip ?vs fs) \<and> PTE_flags (d v) = map_perm a OR PTE_V"
    if v: "v \<in> set ?vs" for v
  proof -
    obtain f where f: "map_of (zip ?vs fs) v = Some f" using v fs(2) by (metis map_of_zip_is_Some)
    then have "(v, f) \<in> set (zip ?vs fs)" by (rule map_of_SomeD)
    moreover from this have "unat f < 2 ^ 44" using fs44 by (blast dest: set_zip_rightD)
    ultimately show ?thesis
      using f fs(12) [OF area_pages_page [OF ra(1) v]] by (simp add: d_def area_pte_def)
  qed
  have inj: "inj_on (\<lambda>v. PTE_ppn (d v)) (set ?vs)"
  proof (rule inj_onI)
    fix v w assume vw: "v \<in> set ?vs" "w \<in> set ?vs" "PTE_ppn (d v) = PTE_ppn (d w)"
    then have "(v, PTE_ppn (d v)) \<in> set (zip ?vs fs)" "(w, PTE_ppn (d v)) \<in> set (zip ?vs fs)" using dv by metis+
    then show "v = w" using fs(2,3) by (fastforce simp: set_zip nth_eq_iff_index_eq)
  qed
  have dfs: "PTE_ppn (d v) \<in> set fs" if "v \<in> set ?vs" for v using dv [OF that] by (blast dest: set_zip_rightD)
  have src2: "pt_inv l (ms_page_table src) k2" "mapping k2 (ms_root src) = mapping k (ms_root src)"
    by (rule pt_inv_pages_cong [OF SI(3)]; use k2_k pt_inv_live [OF SI(3)] fs(10) C(3) in auto)+
  have ex: "\<exists>k3. foldo (copy_page src ms1) ?vs k2 = Some k3 \<and> kmem_inv l k3 \<and> live_frames l k3 = live_frames l k2
    \<and> free_frames k3 = free_frames k2
    \<and> (\<forall>p. p \<notin> (\<lambda>v. PTE_ppn (d v)) ` set ?vs \<longrightarrow> pages k3 p = pages k2 p)
    \<and> (\<forall>v\<in>set ?vs. pages k3 (PTE_ppn (d v)) = pages k2 (PTE_ppn (s v)))"
  proof (rule copy_pages_ok [OF fs(4) src2(1)])
    show "mapping k2 (ms_root src) v = Some (s v)" if "v \<in> set ?vs" for v using sv [OF that] src2(2) by simp
    show "pt_inv l (ms_page_table ms1) k2" using fs(5) by (simp add: root1 fs(6))
    show "mapping k2 (ms_root ms1) v = Some (d v)" if "v \<in> set ?vs" for v using dv [OF that] by (simp add: root1 fs(6))
    show "PTE_ppn (d v) \<notin> set (pt_frames (ms_page_table src)) \<union> set (pt_frames (ms_page_table ms1))" if "v \<in> set ?vs" for v
      using dfs [OF that] fs(8) fs0 pt_inv_live [OF SI(3)] by (auto simp: root1)
    show "PTE_ppn (d v) \<noteq> PTE_ppn (s w)" if "v \<in> set ?vs" "w \<in> set ?vs" for v w
      using dfs [OF that(1)] sv [OF that(2)] fs0 by auto
  qed (rule inj, rule distinct_area_pages [OF ra(1)])
  have img: "(\<lambda>v. PTE_ppn (d v)) ` set ?vs \<subseteq> set fs" using dfs by auto
  from ex obtain k3 where k3: "foldo (copy_page src ms1) ?vs k2 = Some k3" "kmem_inv l k3" "live_frames l k3 = live_frames l k2"
    "free_frames k3 = free_frames k2" "\<And>q. q \<notin> set fs \<Longrightarrow> pages k3 q = pages k2 q"
    "\<And>v. v \<in> set ?vs \<Longrightarrow> pages k3 (PTE_ppn (d v)) = pages k2 (PTE_ppn (s v))"
    using subsetD [OF img] by (elim exE conjE) metis
  show ?thesis
  proof (intro exI [of _ "(ms1, k3)"] conjI)
    show "copy_area src a (ms, k1) = Some (ms1, k3)"
      using fa p(1) k3(1) by (simp add: copy_area_def area_pages_def)
    have sub: "set (ms_frames ms1) \<subseteq> live_frames l k3" using p(2) k3(3) by (simp add: ms_inv_def)
    have tab: "pages k3 q = pages k2 q" if "q \<in> set (pt_frames (ms_page_table ms1))" for q
      using that fs(8) by (intro k3(5)) (auto simp: root1)
    note M = ms_inv_pages_cong [OF p(2) k3(2) sub tab]
    have k3_k: "pages k3 q = pages k q" if "q \<in> live_frames l k" for q
      using k2_k [OF that] k3(5) [of q] fs0 that by auto
    have "fresh_space l k ms1 k3"
      unfolding fresh_space_def
    proof (intro conjI ballI)
      show "set (ms_frames ms1) \<inter> live_frames l k = {}"
        using C(2,3) fs(9) fs0 by (auto simp: mf fr1 root1)
      show "live_frames l k3 = live_frames l k \<union> set (ms_frames ms1)"
        using k3(3) fs(7,10) C(3) by (auto simp: mf fr1 root1)
    qed (use M(1) k3_k in auto)
    moreover have old: "mapping k3 (ms_root ms1) v = mapping k1 (ms_root ms) v" if "unat v < 2 ^ 27" "v \<notin> set ?vs" for v
    proof -
      have "map_of (zip ?vs fs) v = None" using that(2) by (auto simp: map_of_eq_None_iff dest!: set_zip_leftD)
      then show ?thesis using fs(12) [OF that(1)] M(2) by (simp add: root1 fs(6))
    qed
    moreover have "mapping k3 (ms_root ms1) TRAMPOLINE_VPN = Some (trampoline_pte syms)"
      using old [of TRAMPOLINE_VPN] SI(2) C(5) by (simp add: sp TRAMPOLINE_VPN_eq)
    moreover have "page_copied src k ms1 k3 v" if v: "v \<in> set ?vs" for v
      unfolding page_copied_def
    proof (intro exI conjI)
      show "mapping k (ms_root src) v = Some (s v)" using sv [OF v] by blast
      show "mapping k3 (ms_root ms1) v = Some (d v)" using dv [OF v] M(2) by (simp add: root1 fs(6))
      show "PTE_flags (d v) = PTE_flags (s v)" using sv [OF v] dv [OF v] by simp
      show "PTE_ppn (d v) \<in> set (ms_data ms1)" using dfs [OF v] by (simp add: fr1)
      show "pages k3 (PTE_ppn (d v)) = pages k (PTE_ppn (s v))" using k3(6) [OF v] k2_k sv [OF v] by simp
    qed
    moreover have "page_copied src k ms1 k3 v" if b: "b \<in> set as" and v: "v \<in> set (area_pages b)" for b v
    proof -
      obtain e e' where e: "mapping k (ms_root src) v = Some e" "mapping k1 (ms_root ms) v = Some e'"
        "PTE_flags e' = PTE_flags e" "PTE_ppn e' \<in> set (ms_data ms)" "pages k1 (PTE_ppn e') = pages k (PTE_ppn e)"
        using C(8) [OF b v] by (auto simp: page_copied_def)
      have "v \<notin> set ?vs" using SI(1) b v by (auto simp: sp)
      moreover have "unat v < 2 ^ 27"
        using src b v by (intro area_ok_pages [of k "ms_root src" b]) (simp_all add: ms_inv_def)
      moreover have "PTE_ppn e' \<in> live_frames l k1 - set (pt_frames (ms_page_table ms))"
        using e(4) C(1,3) by (auto simp: mf ms_inv_def)
      moreover from this have "PTE_ppn e' \<notin> set fs" using fs(8) by auto
      ultimately show ?thesis
        using e old [of v] fs(11) [of "PTE_ppn e'"] k3(5) [of "PTE_ppn e'"] by (auto simp: page_copied_def fr1)
    qed
    moreover have "map vpn_range (ms_areas ms1) = map vpn_range (as @ [a])" "map map_perm (ms_areas ms1) = map map_perm (as @ [a])"
      using C(6,7) fs(1) nf by (simp_all add: ms1_def)
    moreover have "\<forall>b\<in>set (ms_areas ms). map_type b = Framed" using c by (simp add: areas_copied_def)
    then have "\<forall>b\<in>set (ms_areas ms1). map_type b = Framed" using fs(1) nf by (simp add: ms1_def)
    ultimately show "areas_copied l syms src k (as @ [a]) (ms1, k3)"
      using C(9) fs(13) k3(4) by (auto simp: areas_copied_def)
  qed
qed

lemma from_existed_user_ok:
  assumes inv: "ms_inv l src k" and framed: "\<forall>a\<in>set (ms_areas src). map_type a = Framed" and al: "VA_page_offset (PhysAddr_from (strampoline syms)) = 0"
    and free: "3 + 3 * length (ms_pages src) \<le> free_frames k"
  shows "\<exists>st. from_existed_user syms src k = Some st \<and> areas_copied l syms src k (ms_areas src) st"
proof -
  have "kmem_inv l k" "3 \<le> free_frames k" using inv free by (simp_all add: ms_inv_def)
  then obtain ms k1 where n: "new_bare k \<bind> map_trampoline syms = Some (ms, k1)" "fresh_space l k ms k1"
    "ms_areas ms = []" "mapping k1 (ms_root ms) TRAMPOLINE_VPN = Some (trampoline_pte syms)" "free_frames k \<le> free_frames k1 + 3"
    using new_space_ok [OF _ _ al] by blast
  have "\<exists>st. foldo (copy_area src) (ms_areas src) (ms, k1) = Some st \<and> areas_copied l syms src k (ms_areas src) st"
  proof (rule foldo_rule)
    show "areas_copied l syms src k [] (ms, k1)" using n by (simp add: areas_copied_def)
    fix pre a rest st assume "ms_areas src = pre @ a # rest" "areas_copied l syms src k pre st"
    then show "\<exists>st'. copy_area src a st = Some st' \<and> areas_copied l syms src k (pre @ [a]) st'"
      using copy_area_ok [OF inv _ _ _ free] framed by (cases st) simp
  qed
  moreover have "from_existed_user syms src k = (new_bare k \<bind> map_trampoline syms) \<bind> foldo (copy_area src) (ms_areas src)"
    by (cases "new_bare k") (simp_all add: from_existed_user_def)
  ultimately show ?thesis using n(1) by simp
qed

section \<open>Releasing a space\<close>

lemma drop_areas_eq: "foldo MapArea_drop as k = drop_frames (concat (map area_frames as)) k"
proof (induction as arbitrary: k)
  case (Cons a as)
  then show ?case
    by (cases "drop_frames (area_frames a) k") (simp_all add: MapArea_drop_def area_frames_def drop_frames_def)
qed (simp add: drop_frames_def)

lemma recycle_data_pages_ok:
  assumes "ms_inv l ms k"
  shows "\<exists>k'. recycle_data_pages (ms, k) = Some (ms\<lparr>ms_areas := []\<rparr>, k') \<and> kmem_inv l k'
    \<and> live_frames l k' = live_frames l k - set (ms_data ms) \<and> pages k' = pages k"
proof -
  have "kmem_inv l k" "distinct (ms_data ms)" "set (ms_data ms) \<subseteq> live_frames l k"
    using assms by (simp_all add: ms_inv_def ms_frames_def ms_data_def)
  from drop_frames_ok [OF this] show ?thesis
    by (auto simp: recycle_data_pages_def drop_areas_eq ms_data_def)
qed

lemma MemorySet_drop_ok:
  assumes "kmem_inv l k" "distinct (ms_frames ms)" "set (ms_frames ms) \<subseteq> live_frames l k"
  shows "\<exists>k'. MemorySet_drop ms k = Some k' \<and> kmem_inv l k' \<and> live_frames l k' = live_frames l k - set (ms_frames ms)
    \<and> pages k' = pages k"
proof -
  have "MemorySet_drop ms k = drop_frames (ms_frames ms) k"
    by (simp add: MemorySet_drop_def PageTable_drop_def drop_areas_eq [abs_def] drop_frames_def ms_frames_def)
  with drop_frames_ok [OF assms] show ?thesis by simp
qed

section \<open>Properties\<close>

lemma sample_ms:
  "\<exists>ms k. ms_inv 0x80500 ms k \<and> (\<forall>a\<in>set (ms_areas ms). map_type a = Framed) \<and> ms_pages ms = [1] \<and> 100 \<le> free_frames k"
proof -
  let ?l = "0x80500 :: usize" and ?k = "boot_kmem 0x80500000"
  let ?syms = "\<lparr>stext = 0, etext = 0, srodata = 0, erodata = 0, sdata = 0, edata = 0, sbss_with_stack = 0,
    ebss = 0, ekernel = 0, strampoline = 0\<rparr>"
  have al: "VA_page_offset (PhysAddr_from (strampoline ?syms)) = 0" by (simp add: VA_page_offset_def PhysAddr_from_def)
  have "3 \<le> free_frames ?k" by (simp add: boot_sample)
  from new_space_ok [OF boot_sample(1) this al] obtain ms k1 where
    n: "fresh_space ?l ?k ms k1" "ms_areas ms = []" "free_frames ?k \<le> free_frames k1 + 3" by blast
  define a where "a = \<lparr>vpn_range = \<lparr>range_l = 1, range_r = 2\<rparr>, data_frames = [], map_type = Framed, map_perm = MP_U\<rparr>"
  have vs: "area_pages a = [1]" by (simp add: area_pages_def a_def range_items_eq)
  have "fresh_area ms a"
    by (simp add: fresh_area_def vs) (simp add: a_def range_ok_def ms_pages_def n(2) TRAMPOLINE_VPN_eq)
  moreover have "ms_inv ?l ms k1" using n(1) by (simp add: fresh_space_def)
  moreover have "3 * length (area_pages a) \<le> free_frames k1" using n(3) by (simp add: vs boot_sample)
  ultimately obtain a' pt' k' where p: "ms_inv ?l (ms\<lparr>ms_page_table := pt', ms_areas := ms_areas ms @ [a']\<rparr>) k'"
    "mapped_pages ?l (a, ms_page_table ms, k1) (area_pages a) (a', pt', k')"
    using ms_push_framed by blast
  from p(2) have "vpn_range a' = vpn_range a" "map_type a' = map_type a" "free_frames k1 \<le> free_frames k' + 3"
    by (auto simp: mapped_pages_def vs)
  then have "ms_pages (ms\<lparr>ms_page_table := pt', ms_areas := ms_areas ms @ [a']\<rparr>) = [1]" "100 \<le> free_frames k'"
    "\<forall>a\<in>set (ms_areas (ms\<lparr>ms_page_table := pt', ms_areas := ms_areas ms @ [a']\<rparr>)). map_type a = Framed"
    using n(2,3) vs by (simp_all add: ms_pages_def area_pages_def boot_sample a_def)
  with p(1) show ?thesis by blast
qed

text \<open>
  C1. \<open>from_existed_user\<close>, the copy of an address space for \<open>fork\<close>: for a space of framed
  areas, as user spaces are, and with enough free frames it returns a space with the same areas and permissions in which every page of the original is mapped
  with the same flags and holds the same 4096 bytes, in frames that were all free before, pairwise
  different and owned by the new space. The trampoline is shared; the original space, its mapping
  and every page in use before are unchanged.
\<close>

theorem from_existed_user_spec:
  assumes inv: "ms_inv l src k" and framed: "\<forall>a\<in>set (ms_areas src). map_type a = Framed" and al: "VA_page_offset (PhysAddr_from (strampoline syms)) = 0"
    and free: "3 + 3 * length (ms_pages src) \<le> free_frames k"
  shows "\<exists>ms k'. from_existed_user syms src k = Some (ms, k') \<and> ms_inv l ms k' \<and> ms_inv l src k'
    \<and> set (ms_frames ms) \<inter> live_frames l k = {} \<and> live_frames l k' = live_frames l k \<union> set (ms_frames ms)
    \<and> map vpn_range (ms_areas ms) = map vpn_range (ms_areas src) \<and> map map_perm (ms_areas ms) = map map_perm (ms_areas src)
    \<and> (\<forall>v\<in>set (ms_pages src). page_copied src k ms k' v)
    \<and> mapping k' (ms_root ms) TRAMPOLINE_VPN = Some (trampoline_pte syms)
    \<and> mapping k' (ms_root src) = mapping k (ms_root src) \<and> (\<forall>p\<in>live_frames l k. pages k' p = pages k p)"
proof -
  from from_existed_user_ok [OF assms] obtain ms k' where
    c: "from_existed_user syms src k = Some (ms, k')" "areas_copied l syms src k (ms_areas src) (ms, k')" by auto
  have f: "fresh_space l k ms k'" using c(2) by (simp add: areas_copied_def)
  have fr: "set (ms_frames src) \<subseteq> live_frames l k" using inv unfolding ms_inv_def by blast
  have src: "ms_inv l src k'" "mapping k' (ms_root src) = mapping k (ms_root src)"
    by (rule ms_inv_pages_cong [OF inv]; use f fr in \<open>auto simp: fresh_space_def ms_inv_def ms_frames_def\<close>)+
  have "page_copied src k ms k' v" if "v \<in> set (ms_pages src)" for v
    using c(2) that by (auto simp: areas_copied_def ms_pages_def)
  with c f src show ?thesis by (simp add: areas_copied_def fresh_space_def)
qed

theorem from_existed_user_spec_witness:
  "\<exists>syms src k ms k'. ms_pages src = [1] \<and> from_existed_user syms src k = Some (ms, k') \<and> page_copied src k ms k' 1"
proof -
  obtain src k where s: "ms_inv 0x80500 src k" "ms_pages src = [1]" "100 \<le> free_frames k"
    "\<forall>a\<in>set (ms_areas src). map_type a = Framed" using sample_ms by blast
  let ?syms = "\<lparr>stext = 0, etext = 0, srodata = 0, erodata = 0, sdata = 0, edata = 0, sbss_with_stack = 0,
    ebss = 0, ekernel = 0, strampoline = 0x80201000\<rparr>"
  have al: "VA_page_offset (PhysAddr_from (strampoline ?syms)) = 0"
    by (simp add: word_unat_eq_iff unat_VA_page_offset unat_PhysAddr_from)
  have "3 + 3 * length (ms_pages src) \<le> free_frames k" using s by simp
  from from_existed_user_spec [OF s(1,4) al this] s(2) show ?thesis by (metis list.set_intros(1))
qed

text \<open>
  C24. Releasing an address space: \<open>recycle_data_pages\<close>, which \<open>exit\<close> calls, gives back exactly the
  frames of the areas and no frame twice, and dropping the set afterwards gives back its page tables, so that all
  its frames and no others are free again; no page is written.
\<close>

theorem release_space_spec:
  assumes inv: "ms_inv l ms k"
  shows "\<exists>ms1 k1 k2. recycle_data_pages (ms, k) = Some (ms1, k1) \<and> MemorySet_drop ms1 k1 = Some k2 \<and> kmem_inv l k2
    \<and> live_frames l k1 = live_frames l k - set (ms_data ms) \<and> live_frames l k2 = live_frames l k - set (ms_frames ms)
    \<and> pages k2 = pages k"
proof -
  obtain k1 where r: "recycle_data_pages (ms, k) = Some (ms\<lparr>ms_areas := []\<rparr>, k1)" "kmem_inv l k1"
    "live_frames l k1 = live_frames l k - set (ms_data ms)" "pages k1 = pages k"
    using recycle_data_pages_ok [OF inv] by blast
  let ?ms = "ms\<lparr>ms_areas := []\<rparr>"
  have F: "ms_frames ms = ms_frames ?ms @ ms_data ms" by (simp add: ms_frames_def ms_data_def)
  have "distinct (ms_frames ms)" "set (ms_frames ms) \<subseteq> live_frames l k"
    using inv unfolding ms_inv_def by blast+
  then have "distinct (ms_frames ?ms)" "set (ms_frames ?ms) \<subseteq> live_frames l k1" using r(3) by (auto simp: F)
  from MemorySet_drop_ok [OF r(2) this] r show ?thesis by (auto simp: F)
qed

theorem release_space_spec_witness:
  "\<exists>ms k ms1 k1 k2. ms_pages ms = [1] \<and> recycle_data_pages (ms, k) = Some (ms1, k1) \<and> MemorySet_drop ms1 k1 = Some k2
    \<and> live_frames 0x80500 k2 = live_frames 0x80500 k - set (ms_frames ms)"
proof -
  obtain ms k where s: "ms_inv 0x80500 ms k" "ms_pages ms = [1]" using sample_ms by blast
  from release_space_spec [OF s(1)] s(2) show ?thesis by metis
qed

end
