(* ===== verification/MemoryRemove.thy ===== *)
theory MemoryRemove
  imports MemoryFork
begin

text \<open>
  Removing an area from an address space (\<open>remove_area_with_start_vpn\<close>): the pages of the area are
  unmapped, its frames are returned, and the rest of the space stays as it is.
\<close>

text \<open>After the pages \<open>vs\<close> of an area with bindings \<open>zip vs fs @ m\<close> have been unmapped.\<close>

definition unmapped_pages ::
  "PhysPageNum \<Rightarrow> area_state \<Rightarrow> (VirtPageNum \<times> FrameTracker) list \<Rightarrow> (VirtPageNum \<times> FrameTracker) list \<Rightarrow> area_state \<Rightarrow> bool" where
  "unmapped_pages l = (\<lambda>(a, pt, k) gone m (a', pt', k'). a' = a\<lparr>data_frames := m\<rparr> \<and> pt' = pt
    \<and> kmem_inv l k' \<and> pt_inv l pt k' \<and> live_frames l k' = live_frames l k - snd ` set gone \<and> free_frames k \<le> free_frames k'
    \<and> (\<forall>p. p \<notin> set (pt_frames pt) \<longrightarrow> pages k' p = pages k p)
    \<and> (\<forall>w. unat w < 2 ^ 27 \<longrightarrow> mapping k' (root_ppn pt) w = (if w \<in> fst ` set gone then None else mapping k (root_ppn pt) w)))"

lemma pt_ext_same_frames:
  assumes "pt_ext l pt k pt k'"
  shows "live_frames l k' = live_frames l k" "kmem_inv l k'" "pt_inv l pt k'"
  using assms by (auto simp: pt_ext_def)

lemma pt_unmap_pages:
  "pt_unmap v pt k = Some k' \<Longrightarrow> walk k (root_ppn pt) (butlast (indexes v)) = Some f \<Longrightarrow> p \<noteq> f \<Longrightarrow> pages k' p = pages k p"
  by (auto simp: pt_unmap_def find_pte_eq bind_eq_Some_conv)

lemma pt_unmap_free: "pt_unmap v pt k = Some k' \<Longrightarrow> free_frames k' = free_frames k"
  by (auto simp: pt_unmap_def bind_eq_Some_conv set_pte_def)

lemma unmap_one_framed:
  assumes t: "map_type a = Framed" and u: "unmapped_pages l (a, pt, k) gone ((v, f) # m) (a1, pt1, k1)"
    and v: "unat v < 2 ^ 27" "v \<notin> fst ` set gone" and e: "mapping k (root_ppn pt) v = Some e"
    and f: "f \<in> live_frames l k" "f \<notin> snd ` set gone" "f \<notin> set (pt_frames pt)"
  shows "\<exists>s. unmap_one v (a1, pt1, k1) = Some s \<and> unmapped_pages l (a, pt, k) (gone @ [(v, f)]) m s"
proof -
  let ?r = "root_ppn pt"
  have U: "a1 = a\<lparr>data_frames := (v, f) # m\<rparr>" "pt1 = pt" "kmem_inv l k1" "pt_inv l pt k1"
    "live_frames l k1 = live_frames l k - snd ` set gone" "\<And>p. p \<notin> set (pt_frames pt) \<Longrightarrow> pages k1 p = pages k p"
    "\<And>w. unat w < 2 ^ 27 \<Longrightarrow> mapping k1 ?r w = (if w \<in> fst ` set gone then None else mapping k ?r w)"
    and fk: "free_frames k \<le> free_frames k1"
    using u by (auto simp: unmapped_pages_def)
  have "f \<in> live_frames l k1" using f U(5) by auto
  from km.dealloc_live [OF U(3) this] obtain k2 where
    d: "frame_dealloc f k1 = Some k2" "kmem_inv l k2" "live_frames l k2 = live_frames l k1 - {f}" by blast
  have pg: "pages k2 = pages k1" by (rule frame_dealloc_pages [OF d(1)])
  have "set (pt_frames pt) \<subseteq> live_frames l k2" using pt_inv_live [OF U(4)] d(3) f(3) by auto
  then have p2: "pt_inv l pt k2" "mapping k2 ?r = mapping k1 ?r"
    using pt_inv_pages_cong [OF U(4), of k2] pg by simp_all
  have m2: "mapping k2 ?r v = Some e" using U(7) [OF v(1)] v(2) e p2(2) by simp
  from pt_unmap_ok [OF d(2) p2(1) m2] obtain k3 where
    x: "pt_unmap v pt k2 = Some k3" "pt_ext l pt k2 pt k3" "mapping k3 ?r = map_at (mapping k2 ?r) v None" by blast
  obtain g where g: "walk k2 ?r (butlast (indexes v)) = Some g" using mapping_walk [OF m2] by blast
  have "g \<in> set (pt_frames pt)"
    using p2(1) walk_in_tables [OF indexes_path(1) g] by (simp add: pt_inv_def)
  then have pg3: "pages k3 p = pages k p" if "p \<notin> set (pt_frames pt)" for p
    using pt_unmap_pages [OF x(1) g, of p] that pg U(6) [OF that] by auto
  have "unmap_one v (a1, pt1, k1) = Some (a\<lparr>data_frames := m\<rparr>, pt, k3)"
    using t d(1) x(1) by (simp add: unmap_one_def U(1,2) drop_opt_def)
  moreover have "mapping k3 ?r w = (if w \<in> fst ` set (gone @ [(v, f)]) then None else mapping k ?r w)" if "unat w < 2 ^ 27" for w
    unfolding x(3) p2(2) map_at_page [OF v(1) that] U(7) [OF that] by simp
  ultimately show ?thesis
    using pt_ext_same_frames [OF x(2)] d(3) U(5) pg3 fk frame_dealloc_free [OF d(1)] pt_unmap_free [OF x(1)]
    by (auto simp: unmapped_pages_def)
qed

lemma area_unmap_framed:
  assumes inv: "ms_inv l ms k" and a: "a \<in> set (ms_areas ms)" "map_type a = Framed"
  shows "\<exists>k'. area_unmap (a, ms_page_table ms, k) = Some (a\<lparr>data_frames := []\<rparr>, ms_page_table ms, k')
    \<and> kmem_inv l k' \<and> pt_inv l (ms_page_table ms) k' \<and> live_frames l k' = live_frames l k - set (area_frames a)
    \<and> free_frames k \<le> free_frames k'
    \<and> (\<forall>p. p \<notin> set (pt_frames (ms_page_table ms)) \<longrightarrow> pages k' p = pages k p)
    \<and> (\<forall>w. unat w < 2 ^ 27 \<longrightarrow> mapping k' (ms_root ms) w = (if w \<in> set (area_pages a) then None else mapping k (ms_root ms) w))"
proof -
  let ?pt = "ms_page_table ms" and ?m = "data_frames a"
  have ok: "area_ok k (ms_root ms) a" using inv a(1) unfolding ms_inv_def by blast
  then have A: "range_ok (vpn_range a)" "map fst ?m = area_pages a"
    "\<forall>(v, f)\<in>set ?m. mapping k (ms_root ms) v = Some (area_pte a f)"
    using a(2) by (simp_all add: area_ok_def)
  have D: "distinct (map fst ?m)" using A(2) distinct_area_pages [OF A(1)] by simp
  have fr: "distinct (ms_frames ms)" "set (ms_frames ms) \<subseteq> live_frames l k" "kmem_inv l k" "pt_inv l ?pt k"
    using inv unfolding ms_inv_def by blast+
  obtain as bs where as: "ms_areas ms = as @ a # bs" using a(1) by (meson split_list)
  have af: "distinct (map snd ?m)" "set (map snd ?m) \<subseteq> live_frames l k" "set (map snd ?m) \<inter> set (pt_frames ?pt) = {}"
    using fr(1,2) by (auto simp: ms_frames_def as area_frames_def)
  have gen: "\<exists>s. foldo unmap_one (map fst rest) s0 = Some s \<and> unmapped_pages l (a, ?pt, k) ?m [] s"
    if "?m = gone @ rest" "unmapped_pages l (a, ?pt, k) gone rest s0" for gone rest s0
    using that
  proof (induction rest arbitrary: gone s0)
    case (Cons x rest)
    obtain v f where x: "x = (v, f)" by force
    obtain a1 pt1 k1 where s0: "s0 = (a1, pt1, k1)" by (metis prod_cases3)
    have in_m: "(v, f) \<in> set ?m" by (simp add: Cons.prems(1) x)
    have "v \<in> set (area_pages a)" using in_m A(2) by (metis fst_conv image_eqI list.set_map)
    then have vp: "unat v < 2 ^ 27" by (rule area_pages_page [OF A(1)])
    have "mapping k (ms_root ms) v = Some (area_pte a f)" using A(3) in_m by auto
    moreover have "v \<notin> fst ` set gone" "f \<notin> snd ` set gone" using D af(1) by (auto simp: Cons.prems(1) x image_iff)
    moreover have "f \<in> live_frames l k" "f \<notin> set (pt_frames ?pt)" using af(2,3) in_m by force+
    ultimately obtain s where s: "unmap_one v (a1, pt1, k1) = Some s" "unmapped_pages l (a, ?pt, k) (gone @ [(v, f)]) rest s"
      using unmap_one_framed [OF a(2) Cons.prems(2) [unfolded x s0] vp] by blast
    have "\<exists>s'. foldo unmap_one (map fst rest) s = Some s' \<and> unmapped_pages l (a, ?pt, k) ?m [] s'"
      by (rule Cons.IH [OF _ s(2)]) (simp add: Cons.prems(1) x)
    then show ?case using s(1) by (simp add: x s0)
  qed simp
  have "unmapped_pages l (a, ?pt, k) [] ?m (a, ?pt, k)" using fr by (simp add: unmapped_pages_def)
  from gen [OF _ this] obtain s where "foldo unmap_one (area_pages a) (a, ?pt, k) = Some s" "unmapped_pages l (a, ?pt, k) ?m [] s"
    using A(2) by auto
  moreover have "fst ` set ?m = set (area_pages a)" using A(2) by (metis list.set_map)
  ultimately show ?thesis
    by (cases s) (auto simp: area_unmap_def area_pages_def unmapped_pages_def area_frames_def)
qed

lemma remove_area_ok:
  assumes inv: "ms_inv l ms k" and areas: "ms_areas ms = as @ a # bs" and a: "map_type a = Framed" "get_start (vpn_range a) = v"
    and first: "\<forall>b\<in>set as. get_start (vpn_range b) \<noteq> v"
  shows "\<exists>k'. remove_area_with_start_vpn v (ms, k) = Some (ms\<lparr>ms_areas := as @ bs\<rparr>, k') \<and> ms_inv l (ms\<lparr>ms_areas := as @ bs\<rparr>) k'
    \<and> live_frames l k' = live_frames l k - set (area_frames a) \<and> free_frames k \<le> free_frames k'
    \<and> (\<forall>p. p \<notin> set (pt_frames (ms_page_table ms)) \<longrightarrow> pages k' p = pages k p)
    \<and> (\<forall>w. unat w < 2 ^ 27 \<longrightarrow> mapping k' (ms_root ms) w = (if w \<in> set (area_pages a) then None else mapping k (ms_root ms) w))"
proof -
  let ?pt = "ms_page_table ms" and ?ms = "ms\<lparr>ms_areas := as @ bs\<rparr>"
  have idx: "find_index (\<lambda>a. get_start (vpn_range a) = v) (ms_areas ms) = Some (length as)"
    using areas a(2) first by (intro find_index_eqI) (auto simp: nth_append)
  have "a \<in> set (ms_areas ms)" by (simp add: areas)
  from area_unmap_framed [OF inv this a(1)] obtain k' where
    u: "area_unmap (a, ?pt, k) = Some (a\<lparr>data_frames := []\<rparr>, ?pt, k')" "kmem_inv l k'" "pt_inv l ?pt k'"
    "live_frames l k' = live_frames l k - set (area_frames a)" "free_frames k \<le> free_frames k' \<and> (\<forall>p. p \<notin> set (pt_frames ?pt) \<longrightarrow> pages k' p = pages k p)"
    "\<And>w. unat w < 2 ^ 27 \<Longrightarrow> mapping k' (ms_root ms) w = (if w \<in> set (area_pages a) then None else mapping k (ms_root ms) w)"
    by blast
  have I: "\<And>b. b \<in> set (ms_areas ms) \<Longrightarrow> area_ok k (ms_root ms) b" "distinct (ms_pages ms)" "TRAMPOLINE_VPN \<notin> set (ms_pages ms)"
    "distinct (ms_frames ms)" "set (ms_frames ms) \<subseteq> live_frames l k"
    "\<And>w. unat w < 2 ^ 27 \<Longrightarrow> mapping k (ms_root ms) w \<noteq> None \<Longrightarrow> w \<in> set (ms_pages ms) \<or> w = TRAMPOLINE_VPN"
    using inv unfolding ms_inv_def by blast+
  have rem: "remove_area_with_start_vpn v (ms, k) = Some (?ms, k')"
    using idx u(1) areas by (simp add: remove_area_with_start_vpn_def MapArea_drop_def drop_frames_def)
  have pg: "set (ms_pages ?ms) = set (ms_pages ms) - set (area_pages a)" "distinct (ms_pages ?ms)"
    using I(2) by (auto simp: ms_pages_def areas)
  have fr: "set (ms_frames ?ms) = set (ms_frames ms) - set (area_frames a)" "distinct (ms_frames ?ms)"
    using I(4) by (auto simp: ms_frames_def areas)
  have "area_ok k' (ms_root ms) b" if b: "b \<in> set (as @ bs)" for b
  proof (rule area_ok_mapping_cong)
    show ok: "area_ok k (ms_root ms) b" using I(1) b by (auto simp: areas)
    fix w assume w: "w \<in> set (area_pages b)"
    then have "w \<in> set (ms_pages ?ms)" using b by (auto simp: ms_pages_def)
    then have "w \<notin> set (area_pages a)" using pg(1) by blast
    then show "mapping k' (ms_root ms) w = mapping k (ms_root ms) w" using u(6) [OF area_ok_pages [OF ok w]] by simp
  qed
  moreover have "w \<in> set (ms_pages ?ms) \<or> w = TRAMPOLINE_VPN"
    if "unat w < 2 ^ 27" "mapping k' (ms_root ms) w \<noteq> None" for w
    using u(6) [OF that(1)] I(6) [OF that(1)] that(2) pg(1) by (auto split: if_splits)
  ultimately have "ms_inv l ?ms k'"
    unfolding ms_inv_def using u(2,3,4) pg fr I(3,5) by auto
  with rem u show ?thesis by blast
qed

end
