(* ===== verification/TaskId.thy ===== *)
theory TaskId
  imports MemoryRemove
begin

text \<open>
  Identifiers and per-thread resources (\<open>os/src/task/id.rs\<close>): the recycling allocator of process
  ids, thread ids and kernel stacks, the places of kernel stacks, user stacks and trap contexts, and
  the areas mapped for them. A handle (\<open>PidHandle\<close>, \<open>KernelStack\<close>) is its number, and its \<open>Drop\<close> is
  a function of its own. The global cells of the kernel that this code uses are the record \<open>kstate\<close>.
\<close>

section \<open>The allocator\<close>

record RecycleAllocator =
  ra_current :: usize
  ra_recycled :: "usize list"

definition RecycleAllocator_new :: RecycleAllocator where
  "RecycleAllocator_new = \<lparr>ra_current = 0, ra_recycled = []\<rparr>"

definition ra_alloc :: "RecycleAllocator \<Rightarrow> usize \<times> RecycleAllocator" where
  "ra_alloc a =
    (if ra_recycled a \<noteq> [] then (last (ra_recycled a), a\<lparr>ra_recycled := butlast (ra_recycled a)\<rparr>)
     else let a = a\<lparr>ra_current := ra_current a + 1\<rparr> in (ra_current a - 1, a))"

definition ra_dealloc :: "usize \<Rightarrow> RecycleAllocator \<Rightarrow> RecycleAllocator option" where
  "ra_dealloc i a = do {
    assert_that (i < ra_current a);
    assert_that (\<not> list_ex (\<lambda>j. j = i) (ra_recycled a));
    Some (a\<lparr>ra_recycled := ra_recycled a @ [i]\<rparr>)
  }"

section \<open>Kernel state\<close>

record kstate =
  k_mem :: kmem
  KERNEL_SPACE :: MemorySet
  PID_ALLOCATOR :: RecycleAllocator
  KSTACK_ALLOCATOR :: RecycleAllocator

definition IDLE_PID :: usize where "IDLE_PID = 0"

type_synonym PidHandle = usize
type_synonym KernelStack = usize

definition pid_alloc :: "kstate \<Rightarrow> PidHandle \<times> kstate" where
  "pid_alloc s = (case ra_alloc (PID_ALLOCATOR s) of (pid, a) \<Rightarrow> (pid, s\<lparr>PID_ALLOCATOR := a\<rparr>))"

definition PidHandle_drop :: "PidHandle \<Rightarrow> kstate \<Rightarrow> kstate option" where
  "PidHandle_drop pid s = map_option (\<lambda>a. s\<lparr>PID_ALLOCATOR := a\<rparr>) (ra_dealloc pid (PID_ALLOCATOR s))"

definition kernel_stack_position :: "usize \<Rightarrow> usize \<times> usize" where
  "kernel_stack_position kstack_id =
    (let top = TRAMPOLINE - kstack_id * (KERNEL_STACK_SIZE + PAGE_SIZE);
         bottom = top - KERNEL_STACK_SIZE
     in (bottom, top))"

definition kstack_alloc :: "kstate \<Rightarrow> (KernelStack \<times> kstate) option" where
  "kstack_alloc s = do {
    let (kstack_id, a) = ra_alloc (KSTACK_ALLOCATOR s);
    let s = s\<lparr>KSTACK_ALLOCATOR := a\<rparr>;
    let (kstack_bottom, kstack_top) = kernel_stack_position kstack_id;
    (ms, k) \<leftarrow> insert_framed_area (VirtAddr_from kstack_bottom) (VirtAddr_from kstack_top) (MP_R OR MP_W)
      (KERNEL_SPACE s, k_mem s);
    Some (kstack_id, s\<lparr>KERNEL_SPACE := ms, k_mem := k\<rparr>)
  }"

definition KernelStack_drop :: "KernelStack \<Rightarrow> kstate \<Rightarrow> kstate option" where
  "KernelStack_drop kstack s = do {
    let (kstack_bottom, _) = kernel_stack_position kstack;
    let bottom_va = VirtAddr_from kstack_bottom;
    vpn \<leftarrow> VirtPageNum_from_VirtAddr bottom_va;
    (ms, k) \<leftarrow> remove_area_with_start_vpn vpn (KERNEL_SPACE s, k_mem s);
    a \<leftarrow> ra_dealloc kstack (KSTACK_ALLOCATOR s);
    Some (s\<lparr>KERNEL_SPACE := ms, k_mem := k, KSTACK_ALLOCATOR := a\<rparr>)
  }"

definition KernelStack_get_top :: "KernelStack \<Rightarrow> usize" where
  "KernelStack_get_top kstack = (let (_, kernel_stack_top) = kernel_stack_position kstack in kernel_stack_top)"

section \<open>Resources of a thread\<close>

definition trap_cx_bottom_from_tid :: "usize \<Rightarrow> usize" where
  "trap_cx_bottom_from_tid tid = TRAP_CONTEXT_BASE - tid * PAGE_SIZE"

definition ustack_bottom_from_tid :: "usize \<Rightarrow> usize \<Rightarrow> usize" where
  "ustack_bottom_from_tid ustack_base tid = ustack_base + tid * (PAGE_SIZE + USER_STACK_SIZE)"

text \<open>The link to the process is the memory set and the allocator of the process the operations get.\<close>

record TaskUserRes =
  res_tid :: usize
  res_ustack_base :: usize

type_synonym user_space = "MemorySet \<times> kmem"

definition alloc_user_res :: "TaskUserRes \<Rightarrow> user_space \<Rightarrow> user_space option" where
  "alloc_user_res res s = do {
    let ustack_bottom = ustack_bottom_from_tid (res_ustack_base res) (res_tid res);
    let ustack_top = ustack_bottom + USER_STACK_SIZE;
    s \<leftarrow> insert_framed_area (VirtAddr_from ustack_bottom) (VirtAddr_from ustack_top) ((MP_R OR MP_U) OR MP_W) s;
    let trap_cx_bottom = trap_cx_bottom_from_tid (res_tid res);
    let trap_cx_top = trap_cx_bottom + PAGE_SIZE;
    insert_framed_area (VirtAddr_from trap_cx_bottom) (VirtAddr_from trap_cx_top) (MP_R OR MP_W) s
  }"

definition TaskUserRes_new ::
  "usize \<Rightarrow> bool \<Rightarrow> RecycleAllocator \<times> user_space \<Rightarrow> (TaskUserRes \<times> RecycleAllocator \<times> user_space) option" where
  "TaskUserRes_new ustack_base alloc_res = (\<lambda>(tids, s). do {
    let (tid, tids) = ra_alloc tids;
    let res = \<lparr>res_tid = tid, res_ustack_base = ustack_base\<rparr>;
    s \<leftarrow> (if alloc_res then alloc_user_res res s else Some s);
    Some (res, tids, s)
  })"

definition dealloc_user_res :: "TaskUserRes \<Rightarrow> user_space \<Rightarrow> user_space option" where
  "dealloc_user_res res s = do {
    vpn \<leftarrow> VirtPageNum_from_VirtAddr (VirtAddr_from (ustack_bottom_from_tid (res_ustack_base res) (res_tid res)));
    s \<leftarrow> remove_area_with_start_vpn vpn s;
    vpn \<leftarrow> VirtPageNum_from_VirtAddr (VirtAddr_from (trap_cx_bottom_from_tid (res_tid res)));
    remove_area_with_start_vpn vpn s
  }"

definition trap_cx_user_va :: "TaskUserRes \<Rightarrow> usize" where
  "trap_cx_user_va res = trap_cx_bottom_from_tid (res_tid res)"

definition trap_cx_ppn :: "TaskUserRes \<Rightarrow> user_space \<Rightarrow> PhysPageNum option" where
  "trap_cx_ppn res = (\<lambda>(ms, k). do {
    vpn \<leftarrow> VirtPageNum_from_VirtAddr (VirtAddr_from (trap_cx_bottom_from_tid (res_tid res)));
    pte \<leftarrow> unwrap_translate ms vpn k;
    Some (PTE_ppn pte)
  })"

definition ustack_top :: "TaskUserRes \<Rightarrow> usize" where
  "ustack_top res = ustack_bottom_from_tid (res_ustack_base res) (res_tid res) + USER_STACK_SIZE"

definition TaskUserRes_drop ::
  "TaskUserRes \<Rightarrow> RecycleAllocator \<times> user_space \<Rightarrow> (RecycleAllocator \<times> user_space) option" where
  "TaskUserRes_drop res = (\<lambda>(tids, s). do {
    tids \<leftarrow> ra_dealloc (res_tid res) tids;
    s \<leftarrow> dealloc_user_res res s;
    Some (tids, s)
  })"

section \<open>The allocator as an id allocator\<close>

definition ra_inv :: "RecycleAllocator \<Rightarrow> bool" where
  "ra_inv a \<longleftrightarrow> distinct (ra_recycled a) \<and> set (ra_recycled a) \<subseteq> {..<ra_current a}"

definition ra_live :: "RecycleAllocator \<Rightarrow> usize set" where
  "ra_live a = {..<ra_current a} - set (ra_recycled a)"

definition ra_room :: "RecycleAllocator \<Rightarrow> bool" where
  "ra_room a \<longleftrightarrow> ra_recycled a \<noteq> [] \<or> ra_current a \<noteq> - 1"

lemma lessThan_plus_one: "(c :: usize) \<noteq> - 1 \<Longrightarrow> {..<c + 1} = insert c {..<c}"
proof -
  assume "c \<noteq> - 1"
  then have "c < - 1" by (simp add: order_less_le)
  then have "unat (c + 1) = Suc (unat c)" by (rule unat_Suc_below)
  then show ?thesis by (auto simp: word_less_nat_alt less_Suc_eq word_unat_eq_iff)
qed

interpretation ra: id_allocator "\<lambda>a. Some (ra_alloc a)" ra_dealloc ra_inv ra_live ra_room UNIV
proof unfold_locales
  fix s i s' assume inv: "ra_inv s" and room: "ra_room s" and a: "Some (ra_alloc s) = Some (i, s')"
  show "ra_inv s' \<and> i \<in> UNIV \<and> i \<notin> ra_live s \<and> ra_live s' = insert i (ra_live s)"
  proof (cases "ra_recycled s" rule: rev_cases)
    case Nil
    then have "i = ra_current s" "s' = s\<lparr>ra_current := ra_current s + 1\<rparr>"
      using a by (auto simp: ra_alloc_def Let_def)
    with Nil room show ?thesis by (simp add: ra_inv_def ra_live_def ra_room_def lessThan_plus_one)
  next
    case (snoc xs x)
    then have "i = x" "s' = s\<lparr>ra_recycled := xs\<rparr>" using a by (auto simp: ra_alloc_def)
    with snoc inv show ?thesis by (auto simp: ra_inv_def ra_live_def)
  qed
next
  fix s i assume "ra_inv s" "i \<in> ra_live s"
  then show "\<exists>s'. ra_dealloc i s = Some s' \<and> ra_inv s' \<and> ra_live s' = ra_live s - {i} \<and> ra_room s'"
    by (auto simp: ra_dealloc_def ra_inv_def ra_live_def ra_room_def list_ex_iff)
next
  fix s i assume "ra_inv s" "i \<in> UNIV" "i \<notin> ra_live s"
  then show "ra_dealloc i s = None"
    by (cases "i < ra_current s") (auto simp: ra_dealloc_def ra_inv_def ra_live_def list_ex_iff)
qed auto

section \<open>Places of stacks and trap contexts\<close>

lemmas stack_consts = TRAMPOLINE_def TRAP_CONTEXT_BASE_def KERNEL_STACK_SIZE_def USER_STACK_SIZE_def PAGE_SIZE_def

lemma unat_mult_usize: "unat (a :: usize) * unat b < 2 ^ 64 \<Longrightarrow> unat (a * b) = unat a * unat b"
  by (simp add: unat_word_ariths)

lemma unat_sub_usize: "unat b \<le> unat (a :: usize) \<Longrightarrow> unat (a - b) = unat a - unat b"
  by (simp add: unat_sub word_le_nat_alt)

lemma unat_TRAMPOLINE: "unat TRAMPOLINE = 2 ^ 64 - 4096"
  by (simp add: TRAMPOLINE_def PAGE_SIZE_def)

lemma kernel_stack_position_unat:
  assumes "unat i < 2 ^ 24" "kernel_stack_position i = (b, t)"
  shows "unat t = 2 ^ 64 - 4096 - 12288 * unat i" "unat b = 2 ^ 64 - 12288 - 12288 * unat i"
proof -
  have sz: "unat (KERNEL_STACK_SIZE + PAGE_SIZE) = 12288" "unat KERNEL_STACK_SIZE = 8192" by (simp_all add: stack_consts)
  have m: "unat (i * (KERNEL_STACK_SIZE + PAGE_SIZE)) = 12288 * unat i"
    using assms(1) sz by (subst unat_mult_usize) simp_all
  have t: "t = TRAMPOLINE - i * (KERNEL_STACK_SIZE + PAGE_SIZE)" and b: "b = t - KERNEL_STACK_SIZE"
    using assms(2) by (auto simp: kernel_stack_position_def Let_def)
  show ut: "unat t = 2 ^ 64 - 4096 - 12288 * unat i"
    using assms(1) unfolding t by (subst unat_sub_usize) (simp_all add: m unat_TRAMPOLINE)
  show "unat b = 2 ^ 64 - 12288 - 12288 * unat i"
    using assms(1) unfolding b by (subst unat_sub_usize) (simp_all add: ut sz)
qed

lemma ustack_unat:
  assumes "unat base + 12288 * Suc (unat tid) \<le> 2 ^ 38"
  shows "unat (ustack_bottom_from_tid base tid) = unat base + 12288 * unat tid"
    "unat (ustack_bottom_from_tid base tid + USER_STACK_SIZE) = unat base + 12288 * unat tid + 8192"
proof -
  have sz: "unat (PAGE_SIZE + USER_STACK_SIZE) = 12288" "unat USER_STACK_SIZE = 8192" by (simp_all add: stack_consts)
  have m: "unat (tid * (PAGE_SIZE + USER_STACK_SIZE)) = 12288 * unat tid"
    using assms sz by (subst unat_mult_usize) simp_all
  show b: "unat (ustack_bottom_from_tid base tid) = unat base + 12288 * unat tid"
    unfolding ustack_bottom_from_tid_def using assms by (subst unat_add_usize) (simp_all add: m)
  show "unat (ustack_bottom_from_tid base tid + USER_STACK_SIZE) = unat base + 12288 * unat tid + 8192"
    using assms by (subst unat_add_usize) (simp_all add: b sz)
qed

lemma trap_cx_unat:
  "unat tid < 2 ^ 24 \<Longrightarrow> unat (trap_cx_bottom_from_tid tid) = 2 ^ 64 - 8192 - 4096 * unat tid"
proof -
  assume t: "unat tid < 2 ^ 24"
  have b: "unat TRAP_CONTEXT_BASE = 2 ^ 64 - 8192" by (simp add: stack_consts)
  have "unat (tid * PAGE_SIZE) = 4096 * unat tid" using t by (subst unat_mult_usize) simp_all
  then show ?thesis unfolding trap_cx_bottom_from_tid_def using t b by (subst unat_sub_usize) simp_all
qed

text \<open>
  C33. Kernel stacks, user stacks and trap contexts of different threads never overlap: for stack
  numbers below \<open>2^24\<close> every kernel stack is 8192 bytes and lies below the trampoline, with at least
  one unmapped guard page between any two of them; user stacks are kept apart by a guard page too;
  and the trap-context pages of two threads are different pages directly below the trampoline, above
  every user stack in the lower half of the address space.
\<close>

theorem stacks_disjoint:
  assumes ij: "unat i < unat j" "unat j < 2 ^ 24"
    and ki: "kernel_stack_position i = (bi, ti)" and kj: "kernel_stack_position j = (bj, tj)"
    and base: "unat base + 12288 * Suc (unat j) \<le> 2 ^ 38"
  shows "unat ti = unat bi + 8192 \<and> unat ti \<le> unat TRAMPOLINE \<and> unat tj + 4096 \<le> unat bi
    \<and> unat (ustack_bottom_from_tid base i + USER_STACK_SIZE) + 4096 \<le> unat (ustack_bottom_from_tid base j)
    \<and> unat (trap_cx_bottom_from_tid j) + 4096 \<le> unat (trap_cx_bottom_from_tid i)
    \<and> unat (trap_cx_bottom_from_tid i) + 4096 \<le> unat TRAMPOLINE
    \<and> unat (ustack_bottom_from_tid base j + USER_STACK_SIZE) \<le> unat (trap_cx_bottom_from_tid j)"
proof -
  have i: "unat i < 2 ^ 24" "unat base + 12288 * Suc (unat i) \<le> 2 ^ 38" using ij base by simp_all
  note K = kernel_stack_position_unat [OF i(1) ki] kernel_stack_position_unat [OF ij(2) kj]
    ustack_unat [OF i(2)] ustack_unat [OF base] trap_cx_unat [OF i(1)] trap_cx_unat [OF ij(2)]
  show ?thesis unfolding K unat_TRAMPOLINE using ij base by (simp, intro conjI; linarith)
qed

theorem stacks_disjoint_witness:
  "let (bi, ti) = kernel_stack_position 3; (bj, tj) = kernel_stack_position 7 in
    unat ti = unat bi + 8192 \<and> unat ti \<le> unat TRAMPOLINE \<and> unat tj + 4096 \<le> unat bi
    \<and> unat (ustack_bottom_from_tid 0x12000 3 + USER_STACK_SIZE) + 4096 \<le> unat (ustack_bottom_from_tid 0x12000 7)"
proof -
  obtain bi ti bj tj where k: "kernel_stack_position 3 = (bi, ti)" "kernel_stack_position 7 = (bj, tj)" by fastforce
  from stacks_disjoint [where base = "0x12000", OF _ _ k] show ?thesis by (simp add: k)
qed

text \<open>
  \<open>RecycleAllocator\<close>, which numbers processes, threads and kernel stacks: \<open>alloc\<close> returns a number
  that is not in use and marks only that one as used; \<open>dealloc\<close> of a number in use makes it the next one to be
  handed out; and \<open>dealloc\<close> panics exactly on the numbers that are not in use.
\<close>

theorem recycle_allocator_spec:
  assumes inv: "ra_inv a" and room: "ra_room a" and al: "ra_alloc a = (i, a')"
  shows "i \<notin> ra_live a \<and> ra_live a' = insert i (ra_live a) \<and> ra_inv a'
    \<and> (\<forall>j. ra_dealloc j a' = None \<longleftrightarrow> j \<notin> ra_live a')
    \<and> (\<exists>a''. ra_dealloc i a' = Some a'' \<and> ra_live a'' = ra_live a \<and> fst (ra_alloc a'') = i)"
proof -
  have f: "ra_inv a'" "i \<notin> ra_live a" "ra_live a' = insert i (ra_live a)"
    using ra.alloc_fresh [OF inv room, of i a'] al by simp_all
  have iff: "ra_dealloc j a' = None \<longleftrightarrow> j \<notin> ra_live a'" for j
    using ra.dealloc_live [OF f(1), of j] ra.dealloc_dead [OF f(1), of j] by (cases "j \<in> ra_live a'") auto
  obtain a'' where d: "ra_dealloc i a' = Some a''" "ra_live a'' = ra_live a' - {i}"
    using ra.dealloc_live [OF f(1), of i] f(3) by auto
  moreover have "fst (ra_alloc a'') = i"
    using d(1) by (auto simp: ra_dealloc_def ra_alloc_def assert_that_def split: if_splits)
  ultimately show ?thesis using f iff by auto
qed

theorem recycle_allocator_spec_witness:
  "let a = \<lparr>ra_current = 4, ra_recycled = [2]\<rparr>; (i, a') = ra_alloc a in
    i \<notin> ra_live a \<and> ra_live a' = insert i (ra_live a) \<and> ra_inv a'
    \<and> (\<exists>a''. ra_dealloc i a' = Some a'' \<and> ra_live a'' = ra_live a \<and> fst (ra_alloc a'') = i)"
proof -
  let ?a = "\<lparr>ra_current = 4, ra_recycled = [2]\<rparr>"
  obtain i a' where al: "ra_alloc ?a = (i, a')" by fastforce
  have "ra_inv ?a" "ra_room ?a" by (simp_all add: ra_inv_def ra_room_def)
  from recycle_allocator_spec [OF this al] show ?thesis unfolding Let_def al prod.case by blast
qed

end
