(* ===== verification/KernelStacks.thy ===== *)
theory KernelStacks
  imports TaskId
begin

text \<open>
  Kernel stacks in the kernel's address space: \<open>kstack_alloc\<close> maps two fresh pages between guard
  pages, and dropping the stack unmaps exactly these and recycles its number. The guard pages are never mapped.
\<close>

definition kstack_range :: "usize \<Rightarrow> VPNRange" where
  "kstack_range i = \<lparr>range_l = of_nat (2 ^ 27 - 3 * Suc (unat i)), range_r = of_nat (2 ^ 27 - 1 - 3 * unat i)\<rparr>"

lemma kstack_range_unat:
  shows "unat (range_l (kstack_range i)) = 2 ^ 27 - 3 * Suc (unat i)" "unat (range_r (kstack_range i)) = 2 ^ 27 - 1 - 3 * unat i"
proof -
  have lt: "2 ^ 27 - x < (2 ^ 64 :: nat)" "2 ^ 27 - 1 - x < (2 ^ 64 :: nat)" for x
    by (rule le_less_trans [of _ "2 ^ 27"]; simp)+
  show "unat (range_l (kstack_range i)) = 2 ^ 27 - 3 * Suc (unat i)" "unat (range_r (kstack_range i)) = 2 ^ 27 - 1 - 3 * unat i"
    by (simp_all only: kstack_range_def SimpleRange.simps unat_of_nat_usize lt)
qed

lemma kstack_range_ok: "unat i < 2 ^ 24 \<Longrightarrow> range_ok (kstack_range i)"
  by (simp add: range_ok_def word_le_nat_alt kstack_range_unat) linarith

lemma kstack_pages_iff:
  assumes "unat i < 2 ^ 24"
  shows "v \<in> set (range_items (kstack_range i)) \<longleftrightarrow> unat v = 2 ^ 27 - 3 * Suc (unat i) \<or> unat v = 2 ^ 27 - 2 - 3 * unat i"
proof -
  have "v \<in> set (range_items (kstack_range i)) \<longleftrightarrow> 2 ^ 27 - 3 * Suc (unat i) \<le> unat v \<and> unat v < 2 ^ 27 - 1 - 3 * unat i"
    using kstack_range_ok [OF assms] kstack_range_unat
    by (simp add: range_ok_def set_range_items word_le_nat_alt word_less_nat_alt)
  then show ?thesis using assms by (simp, linarith)
qed

lemma mod_2_39: "x \<le> 2 ^ 39 \<Longrightarrow> 0 < x \<Longrightarrow> (2 ^ 64 - x) mod 2 ^ 39 = (2 ^ 39 - x :: nat)"
proof -
  assume x: "x \<le> 2 ^ 39" "0 < x"
  then have "2 ^ 64 - x = 2 ^ 39 * (2 ^ 25 - 1) + (2 ^ 39 - x)" by simp
  then have "(2 ^ 64 - x) mod 2 ^ 39 = (2 ^ 39 - x) mod 2 ^ 39" by (metis mod_mult_self4)
  then show ?thesis using x by simp
qed

lemma kstack_va:
  assumes i: "unat i < 2 ^ 24" and k: "kernel_stack_position i = (b, t)"
  shows "VA_floor (VirtAddr_from b) = range_l (kstack_range i)" "VA_ceil (VirtAddr_from t) = range_r (kstack_range i)"
    "VA_page_offset (VirtAddr_from b) = 0"
proof -
  define n where "n = unat i"
  note K = kernel_stack_position_unat [OF i k]
  have n: "n < 2 ^ 24" using i by (simp add: n_def)
  have "unat b = 2 ^ 64 - 12288 * Suc n" using K(2) n by (simp add: n_def)
  then have b: "unat (VirtAddr_from b) = 2 ^ 39 - 12288 * Suc n"
    using n mod_2_39 [of "12288 * Suc n"] by (simp add: unat_VirtAddr_from)
  have "unat t = 2 ^ 64 - (4096 + 12288 * n)" using K(1) n by (simp add: n_def)
  then have t: "unat (VirtAddr_from t) = 2 ^ 39 - (4096 + 12288 * n)"
    using n mod_2_39 [of "4096 + 12288 * n"] by (simp add: unat_VirtAddr_from)
  have b4: "2 ^ 39 - 12288 * Suc n = 4096 * (2 ^ 27 - 3 * Suc n)" using n by simp
  have t4: "2 ^ 39 - (4096 + 12288 * n) + 4095 = 4095 + 4096 * (2 ^ 27 - 1 - 3 * n)" using n by simp
  show "VA_floor (VirtAddr_from b) = range_l (kstack_range i)"
    using i by (simp only: word_unat_eq_iff unat_VA_floor b b4 kstack_range_unat) (simp add: n_def)
  show "VA_page_offset (VirtAddr_from b) = 0"
    by (simp only: word_unat_eq_iff unat_VA_page_offset b b4) simp
  have "unat (VA_ceil (VirtAddr_from t)) = (unat (VirtAddr_from t) + 4095) div 4096"
    using t by (intro unat_VA_ceil) simp
  also have "\<dots> = 2 ^ 27 - 1 - 3 * n" unfolding t t4 by simp
  finally show "VA_ceil (VirtAddr_from t) = range_r (kstack_range i)"
    using i by (simp add: word_unat_eq_iff kstack_range_unat n_def)
qed

text \<open>The guard page of a stack: the page below its lowest address.\<close>

definition kstack_guard :: "usize \<Rightarrow> VirtPageNum" where
  "kstack_guard i = VA_floor (VirtAddr_from (fst (kernel_stack_position i) - PAGE_SIZE))"

lemma kstack_guard_unat:
  assumes i: "unat i < 2 ^ 24"
  shows "unat (kstack_guard i) = 2 ^ 27 - 4 - 3 * unat i"
proof -
  obtain b t where k: "kernel_stack_position i = (b, t)" by fastforce
  define n where "n = unat i"
  have n: "n < 2 ^ 24" using i by (simp add: n_def)
  have b: "unat b = 2 ^ 64 - 12288 * Suc n" using kernel_stack_position_unat(2) [OF i k] n by (simp add: n_def)
  then have "unat (b - PAGE_SIZE) = 2 ^ 64 - (4096 + 12288 * Suc n)"
    using n by (subst unat_sub) (simp_all add: word_le_nat_alt PAGE_SIZE_def)
  then have "unat (VirtAddr_from (b - PAGE_SIZE)) = 2 ^ 39 - (4096 + 12288 * Suc n)"
    using n mod_2_39 [of "4096 + 12288 * Suc n"] by (simp add: unat_VirtAddr_from)
  also have "\<dots> = 4096 * (2 ^ 27 - 4 - 3 * n)" using n by simp
  finally show ?thesis by (simp add: kstack_guard_def k unat_VA_floor n_def)
qed

lemma kstack_guard_free:
  assumes "unat i < 2 ^ 24" "unat j < 2 ^ 24"
  shows "kstack_guard i \<notin> set (range_items (kstack_range j))" "kstack_guard i \<noteq> TRAMPOLINE_VPN" "unat (kstack_guard i) < 2 ^ 27"
proof -
  have "2 ^ 27 - 4 - 3 * m \<noteq> 2 ^ 27 - 3 * Suc n \<and> 2 ^ 27 - 4 - 3 * m \<noteq> 2 ^ 27 - 2 - 3 * n" if "m < 2 ^ 24" "n < 2 ^ 24" for m n :: nat
    using that by simp presburger
  then show "kstack_guard i \<notin> set (range_items (kstack_range j))"
    unfolding kstack_pages_iff [OF assms(2)] kstack_guard_unat [OF assms(1)] using assms by blast
  show "kstack_guard i \<noteq> TRAMPOLINE_VPN" "unat (kstack_guard i) < 2 ^ 27"
    using kstack_guard_unat [OF assms(1)] assms(1) by (auto simp: TRAMPOLINE_VPN_eq)
qed

text \<open>
  The invariant of the kernel's space with its stacks: the pages of a stack number not in use and the guard pages are
  not part of any area, and a stack in use has a framed area of its own.
\<close>

definition kspace_inv :: "PhysPageNum \<Rightarrow> kstate \<Rightarrow> bool" where
  "kspace_inv l s \<longleftrightarrow> ms_inv l (KERNEL_SPACE s) (k_mem s) \<and> ra_inv (KSTACK_ALLOCATOR s)
    \<and> (\<forall>i. unat i < 2 ^ 24 \<longrightarrow> i \<notin> ra_live (KSTACK_ALLOCATOR s)
        \<longrightarrow> set (range_items (kstack_range i)) \<inter> set (ms_pages (KERNEL_SPACE s)) = {})
    \<and> (\<forall>i\<in>ra_live (KSTACK_ALLOCATOR s). \<exists>a\<in>set (ms_areas (KERNEL_SPACE s)). vpn_range a = kstack_range i)
    \<and> (\<forall>i. unat i < 2 ^ 24 \<longrightarrow> (\<forall>a\<in>set (ms_areas (KERNEL_SPACE s)).
        range_l (vpn_range a) = range_l (kstack_range i) \<longrightarrow> vpn_range a = kstack_range i \<and> map_type a = Framed))
    \<and> (\<forall>i. unat i < 2 ^ 24 \<longrightarrow> kstack_guard i \<notin> set (ms_pages (KERNEL_SPACE s)))
    \<and> unat (ra_current (KSTACK_ALLOCATOR s)) \<le> 2 ^ 24"

lemma guard_unmapped:
  assumes "kspace_inv l s" "unat i < 2 ^ 24"
  shows "mapping (k_mem s) (ms_root (KERNEL_SPACE s)) (kstack_guard i) = None"
  using assms kstack_guard_free [of i i] unfolding kspace_inv_def ms_inv_def by blast

lemma kstack_ranges_disjoint:
  assumes "unat i < 2 ^ 24" "unat j < 2 ^ 24" "i \<noteq> j"
  shows "set (range_items (kstack_range i)) \<inter> set (range_items (kstack_range j)) = {}"
    "range_l (kstack_range i) \<noteq> range_l (kstack_range j)"
proof -
  have "unat i \<noteq> unat j" using assms(3) by (simp add: word_unat_eq_iff)
  then show "set (range_items (kstack_range i)) \<inter> set (range_items (kstack_range j)) = {}"
    using assms(1,2) by (auto simp: kstack_pages_iff)
  show "range_l (kstack_range i) \<noteq> range_l (kstack_range j)"
    using assms(1,2) \<open>unat i \<noteq> unat j\<close> by (simp add: word_unat_eq_iff kstack_range_unat)
qed

definition kstack_area :: "usize \<Rightarrow> MapArea" where
  "kstack_area i = \<lparr>vpn_range = kstack_range i, data_frames = [], map_type = Framed, map_perm = MP_R OR MP_W\<rparr>"

lemma MapArea_new_kstack:
  assumes i: "unat i < 2 ^ 24" and k: "kernel_stack_position i = (b, t)"
  shows "MapArea_new (VirtAddr_from b) (VirtAddr_from t) Framed (MP_R OR MP_W) = Some (kstack_area i)"
proof -
  have "range_l (kstack_range i) \<le> range_r (kstack_range i)" using kstack_range_ok [OF i] by (simp add: range_ok_def)
  then show ?thesis
    by (simp add: MapArea_new_def kstack_va [OF assms] SimpleRange_new_def kstack_area_def)
qed

lemma length_kstack_pages: "unat i < 2 ^ 24 \<Longrightarrow> length (range_items (kstack_range i)) = 2"
proof -
  assume i: "unat i < 2 ^ 24"
  have "length (range_items (kstack_range i)) = unat (range_r (kstack_range i)) - unat (range_l (kstack_range i))"
    using map_unat_range_items [of "kstack_range i"] kstack_range_ok [OF i]
    by (metis length_map length_upt range_ok_def)
  then show ?thesis using i by (simp add: kstack_range_unat)
qed

lemma ra_live_bound: "i \<in> ra_live a \<Longrightarrow> unat (ra_current a) \<le> n \<Longrightarrow> unat i < n"
  by (simp add: ra_live_def word_less_nat_alt)

lemma kstack_alloc_ok:
  assumes inv: "kspace_inv l s" and free: "6 \<le> free_frames (k_mem s)"
    and room: "ra_recycled (KSTACK_ALLOCATOR s) \<noteq> [] \<or> unat (ra_current (KSTACK_ALLOCATOR s)) < 2 ^ 24"
  shows "\<exists>i s' pt' a'. kstack_alloc s = Some (i, s') \<and> i \<notin> ra_live (KSTACK_ALLOCATOR s)
    \<and> ra_live (KSTACK_ALLOCATOR s') = insert i (ra_live (KSTACK_ALLOCATOR s)) \<and> kspace_inv l s'
    \<and> ms_areas (KERNEL_SPACE s') = ms_areas (KERNEL_SPACE s) @ [a'] \<and> unat i < 2 ^ 24
    \<and> mapped_pages l (kstack_area i, ms_page_table (KERNEL_SPACE s), k_mem s) (range_items (kstack_range i)) (a', pt', k_mem s')
    \<and> ms_page_table (KERNEL_SPACE s') = pt'"
proof -
  let ?ks = "KERNEL_SPACE s" and ?k = "k_mem s" and ?A = "KSTACK_ALLOCATOR s"
  have I: "ms_inv l ?ks ?k" "ra_inv ?A"
    "\<And>i. unat i < 2 ^ 24 \<Longrightarrow> i \<notin> ra_live ?A \<Longrightarrow> set (range_items (kstack_range i)) \<inter> set (ms_pages ?ks) = {}"
    "\<And>i. i \<in> ra_live ?A \<Longrightarrow> \<exists>a\<in>set (ms_areas ?ks). vpn_range a = kstack_range i"
    "\<And>i a. unat i < 2 ^ 24 \<Longrightarrow> a \<in> set (ms_areas ?ks) \<Longrightarrow> range_l (vpn_range a) = range_l (kstack_range i)
        \<Longrightarrow> vpn_range a = kstack_range i \<and> map_type a = Framed"
    "unat (ra_current ?A) \<le> 2 ^ 24" "\<And>i. unat i < 2 ^ 24 \<Longrightarrow> kstack_guard i \<notin> set (ms_pages ?ks)"
    using inv unfolding kspace_inv_def by blast+
  obtain i A' where al: "ra_alloc ?A = (i, A')" by fastforce
  have rr: "ra_room ?A" using room by (auto simp: ra_room_def unsigned_minus_1_eq_mask mask_eq_exp_minus_1)
  have f: "ra_inv A'" "i \<notin> ra_live ?A" "ra_live A' = insert i (ra_live ?A)"
    using ra.alloc_fresh [OF I(2) rr, of i A'] al by simp_all
  have cur: "unat (ra_current A') \<le> 2 ^ 24"
  proof (cases "ra_recycled ?A = []")
    case True
    then have "unat (ra_current ?A) < 2 ^ 24" using room by simp
    then have "unat (ra_current ?A + 1) \<le> 2 ^ 24" by (subst unat_add_usize) simp_all
    moreover have "ra_current A' = ra_current ?A + 1" using al True by (auto simp: ra_alloc_def Let_def)
    ultimately show ?thesis by simp
  qed (use al I(6) in \<open>auto simp: ra_alloc_def\<close>)
  have i: "unat i < 2 ^ 24" by (rule ra_live_bound [OF _ cur]) (simp add: f(3))
  obtain b t where bt: "kernel_stack_position i = (b, t)" by fastforce
  have ap: "area_pages (kstack_area i) = range_items (kstack_range i)" by (simp add: area_pages_def kstack_area_def)
  have "TRAMPOLINE_VPN \<notin> set (range_items (kstack_range i))"
    unfolding kstack_pages_iff [OF i] TRAMPOLINE_VPN_eq using i by (simp, linarith)
  then have "fresh_area ?ks (kstack_area i)"
    using I(3) [OF i f(2)] kstack_range_ok [OF i] by (auto simp: fresh_area_def ap) (auto simp: kstack_area_def)
  moreover have "3 * length (area_pages (kstack_area i)) \<le> free_frames ?k"
    using free by (simp add: ap length_kstack_pages [OF i])
  ultimately obtain a' pt' k' where p: "ms_push (kstack_area i) None (?ks, ?k) = Some (?ks\<lparr>ms_page_table := pt', ms_areas := ms_areas ?ks @ [a']\<rparr>, k')"
    "ms_inv l (?ks\<lparr>ms_page_table := pt', ms_areas := ms_areas ?ks @ [a']\<rparr>) k'"
    "mapped_pages l (kstack_area i, ms_page_table ?ks, ?k) (range_items (kstack_range i)) (a', pt', k')"
    using ms_push_framed [OF I(1)] ap by metis
  define s' where "s' = s\<lparr>KSTACK_ALLOCATOR := A', KERNEL_SPACE := ?ks\<lparr>ms_page_table := pt', ms_areas := ms_areas ?ks @ [a']\<rparr>, k_mem := k'\<rparr>"
  have st: "kstack_alloc s = Some (i, s')"
    using p(1) by (simp add: kstack_alloc_def al bt insert_framed_area_def MapArea_new_kstack [OF i bt] s'_def)
  have a': "vpn_range a' = kstack_range i" "map_type a' = Framed" using p(3) by (auto simp: mapped_pages_def kstack_area_def)
  have pg: "ms_pages (KERNEL_SPACE s') = ms_pages ?ks @ range_items (kstack_range i)"
    by (simp add: s'_def ms_pages_def area_pages_def a')
  have "kspace_inv l s'"
    unfolding kspace_inv_def
  proof (intro conjI allI impI ballI)
    show "ms_inv l (KERNEL_SPACE s') (k_mem s')" using p(2) by (simp add: s'_def)
    show "ra_inv (KSTACK_ALLOCATOR s')" "unat (ra_current (KSTACK_ALLOCATOR s')) \<le> 2 ^ 24"
      using f(1) cur by (simp_all add: s'_def)
    show "set (range_items (kstack_range j)) \<inter> set (ms_pages (KERNEL_SPACE s')) = {}"
      if "unat j < 2 ^ 24" "j \<notin> ra_live (KSTACK_ALLOCATOR s')" for j
    proof -
      have "j \<noteq> i" "j \<notin> ra_live ?A" using that(2) f(3) by (auto simp: s'_def)
      then show ?thesis using I(3) [OF that(1)] kstack_ranges_disjoint(1) [OF that(1) i] by (auto simp: pg)
    qed
    show "kstack_guard j \<notin> set (ms_pages (KERNEL_SPACE s'))" if "unat j < 2 ^ 24" for j
      using I(7) [OF that] kstack_guard_free(1) [OF that i] by (simp add: pg)
    show "\<exists>a\<in>set (ms_areas (KERNEL_SPACE s')). vpn_range a = kstack_range j" if "j \<in> ra_live (KSTACK_ALLOCATOR s')" for j
      using that I(4) [of j] f(3) a'(1) by (auto simp: s'_def)
    fix j a assume j: "unat j < 2 ^ 24" and a: "a \<in> set (ms_areas (KERNEL_SPACE s'))"
      and r: "range_l (vpn_range a) = range_l (kstack_range j)"
    have "a \<in> set (ms_areas ?ks) \<or> a = a'" using a by (auto simp: s'_def)
    then show "vpn_range a = kstack_range j" "map_type a = Framed"
      using I(5) [OF j _ r] r a' kstack_ranges_disjoint(2) [OF i j] by metis+
  qed
  with st f(2,3) p(3) i show ?thesis by (auto simp: s'_def)
qed

lemma KernelStack_drop_ok:
  assumes inv: "kspace_inv l s" and i: "i \<in> ra_live (KSTACK_ALLOCATOR s)"
  shows "\<exists>s' a. KernelStack_drop i s = Some s' \<and> kspace_inv l s' \<and> ra_live (KSTACK_ALLOCATOR s') = ra_live (KSTACK_ALLOCATOR s) - {i}
    \<and> a \<in> set (ms_areas (KERNEL_SPACE s)) \<and> vpn_range a = kstack_range i
    \<and> live_frames l (k_mem s') = live_frames l (k_mem s) - set (area_frames a)
    \<and> ms_page_table (KERNEL_SPACE s') = ms_page_table (KERNEL_SPACE s) \<and> free_frames (k_mem s) \<le> free_frames (k_mem s')
    \<and> (\<forall>p. p \<notin> set (pt_frames (ms_page_table (KERNEL_SPACE s))) \<longrightarrow> pages (k_mem s') p = pages (k_mem s) p)
    \<and> set (ms_frames (KERNEL_SPACE s')) \<subseteq> set (ms_frames (KERNEL_SPACE s))
    \<and> (\<forall>w. unat w < 2 ^ 27 \<longrightarrow> mapping (k_mem s') (ms_root (KERNEL_SPACE s)) w =
        (if w \<in> set (range_items (kstack_range i)) then None else mapping (k_mem s) (ms_root (KERNEL_SPACE s)) w))"
proof -
  let ?ks = "KERNEL_SPACE s" and ?k = "k_mem s" and ?A = "KSTACK_ALLOCATOR s"
  have I: "ms_inv l ?ks ?k" "ra_inv ?A"
    "\<And>i. unat i < 2 ^ 24 \<Longrightarrow> i \<notin> ra_live ?A \<Longrightarrow> set (range_items (kstack_range i)) \<inter> set (ms_pages ?ks) = {}"
    "\<And>i. i \<in> ra_live ?A \<Longrightarrow> \<exists>a\<in>set (ms_areas ?ks). vpn_range a = kstack_range i"
    "\<And>i a. unat i < 2 ^ 24 \<Longrightarrow> a \<in> set (ms_areas ?ks) \<Longrightarrow> range_l (vpn_range a) = range_l (kstack_range i)
        \<Longrightarrow> vpn_range a = kstack_range i \<and> map_type a = Framed"
    "unat (ra_current ?A) \<le> 2 ^ 24" "\<And>i. unat i < 2 ^ 24 \<Longrightarrow> kstack_guard i \<notin> set (ms_pages ?ks)"
    using inv unfolding kspace_inv_def by blast+
  have i24: "unat i < 2 ^ 24" by (rule ra_live_bound [OF i I(6)])
  let ?v = "range_l (kstack_range i)"
  have "\<exists>a\<in>set (ms_areas ?ks). get_start (vpn_range a) = ?v" using I(4) [OF i] by (force simp: get_start_def)
  then obtain as a bs where as: "ms_areas ?ks = as @ a # bs" "get_start (vpn_range a) = ?v" "\<forall>b\<in>set as. get_start (vpn_range b) \<noteq> ?v"
    using split_list_first_prop [of "ms_areas ?ks" "\<lambda>a. get_start (vpn_range a) = ?v"] by blast
  have a: "vpn_range a = kstack_range i" "map_type a = Framed"
    using I(5) [OF i24, of a] as(1,2) by (simp_all add: get_start_def)
  from remove_area_ok [OF I(1) as(1) a(2) as(2,3)] obtain k' where
    r: "remove_area_with_start_vpn ?v (?ks, ?k) = Some (?ks\<lparr>ms_areas := as @ bs\<rparr>, k')" "ms_inv l (?ks\<lparr>ms_areas := as @ bs\<rparr>) k'"
    "live_frames l k' = live_frames l ?k - set (area_frames a)"
    "free_frames ?k \<le> free_frames k'" "\<forall>p. p \<notin> set (pt_frames (ms_page_table ?ks)) \<longrightarrow> pages k' p = pages ?k p"
    "\<forall>w. unat w < 2 ^ 27 \<longrightarrow> mapping k' (ms_root ?ks) w = (if w \<in> set (range_items (kstack_range i)) then None else mapping ?k (ms_root ?ks) w)"
    unfolding area_pages_def a(1) by blast
  from ra.dealloc_live [OF I(2) i] obtain A' where
    d: "ra_dealloc i ?A = Some A'" "ra_inv A'" "ra_live A' = ra_live ?A - {i}" by blast
  have cur: "ra_current A' = ra_current ?A" using d(1) by (auto simp: ra_dealloc_def)
  obtain b t where bt: "kernel_stack_position i = (b, t)" by fastforce
  define s' where "s' = s\<lparr>KERNEL_SPACE := ?ks\<lparr>ms_areas := as @ bs\<rparr>, k_mem := k', KSTACK_ALLOCATOR := A'\<rparr>"
  have st: "KernelStack_drop i s = Some s'"
    using r(1) d(1) kstack_va [OF i24 bt] by (simp add: KernelStack_drop_def bt VirtPageNum_from_VirtAddr_def s'_def)
  have pg: "set (ms_pages (KERNEL_SPACE s')) = set (ms_pages ?ks) - set (range_items (kstack_range i))"
    using I(1) a(1) by (auto simp: s'_def ms_inv_def ms_pages_def as(1) area_pages_def)
  have "kspace_inv l s'"
    unfolding kspace_inv_def
  proof (intro conjI allI impI ballI)
    show "ms_inv l (KERNEL_SPACE s') (k_mem s')" "ra_inv (KSTACK_ALLOCATOR s')" "unat (ra_current (KSTACK_ALLOCATOR s')) \<le> 2 ^ 24"
      using r(2) d(2) cur I(6) by (simp_all add: s'_def)
    show "set (range_items (kstack_range j)) \<inter> set (ms_pages (KERNEL_SPACE s')) = {}"
      if "unat j < 2 ^ 24" "j \<notin> ra_live (KSTACK_ALLOCATOR s')" for j
    proof (cases "j = i")
      case False
      then have "j \<notin> ra_live ?A" using that(2) d(3) by (simp add: s'_def)
      from I(3) [OF that(1) this] show ?thesis unfolding pg by blast
    qed (use pg in blast)
    show "kstack_guard j \<notin> set (ms_pages (KERNEL_SPACE s'))" if "unat j < 2 ^ 24" for j
      using I(7) [OF that] by (simp add: pg)
    show "\<exists>a\<in>set (ms_areas (KERNEL_SPACE s')). vpn_range a = kstack_range j" if j: "j \<in> ra_live (KSTACK_ALLOCATOR s')" for j
    proof -
      have j': "j \<in> ra_live ?A" "j \<noteq> i" using j d(3) by (auto simp: s'_def)
      then obtain c where c: "c \<in> set (ms_areas ?ks)" "vpn_range c = kstack_range j" using I(4) by blast
      have "c \<noteq> a" using c(2) a(1) kstack_ranges_disjoint(2) [OF ra_live_bound [OF j'(1) I(6)] i24 j'(2)] by auto
      with c show ?thesis by (auto simp: s'_def as(1))
    qed
    fix j c assume "unat j < 2 ^ 24" "c \<in> set (ms_areas (KERNEL_SPACE s'))" "range_l (vpn_range c) = range_l (kstack_range j)"
    then show "vpn_range c = kstack_range j" "map_type c = Framed" using I(5) [of j c] by (auto simp: s'_def as(1))
  qed
  with st d(3) r(3-6) a(1) show ?thesis by (auto simp: s'_def as(1) ms_frames_def)
qed

text \<open>What the allocation of a stack does to the mappings and frames of the kernel's space.\<close>

lemma kstack_alloc_mapping:
  assumes inv: "kspace_inv l s" and free: "6 \<le> free_frames (k_mem s)"
    and room: "ra_recycled (KSTACK_ALLOCATOR s) \<noteq> [] \<or> unat (ra_current (KSTACK_ALLOCATOR s)) < 2 ^ 24"
  shows "\<exists>i s1 a'. kstack_alloc s = Some (i, s1) \<and> i \<notin> ra_live (KSTACK_ALLOCATOR s) \<and> unat i < 2 ^ 24
    \<and> ra_live (KSTACK_ALLOCATOR s1) = insert i (ra_live (KSTACK_ALLOCATOR s)) \<and> kspace_inv l s1
    \<and> ms_areas (KERNEL_SPACE s1) = ms_areas (KERNEL_SPACE s) @ [a'] \<and> ms_root (KERNEL_SPACE s1) = ms_root (KERNEL_SPACE s)
    \<and> live_frames l (k_mem s1) - set (area_frames a') = live_frames l (k_mem s) \<union> set (pt_frames (ms_page_table (KERNEL_SPACE s1)))
    \<and> (\<forall>v\<in>set (range_items (kstack_range i)). \<exists>e. ms_translate (KERNEL_SPACE s1) v (k_mem s1) = Some (Some e)
        \<and> PTE_flags e = (MP_R OR MP_W) OR PTE_V \<and> PTE_ppn e \<in> live_frames l (k_mem s1) - live_frames l (k_mem s)
        \<and> pages (k_mem s1) (PTE_ppn e) = replicate 4096 0)
    \<and> (\<forall>w. unat w < 2 ^ 27 \<longrightarrow> w \<notin> set (range_items (kstack_range i)) \<longrightarrow>
        mapping (k_mem s1) (ms_root (KERNEL_SPACE s1)) w = mapping (k_mem s) (ms_root (KERNEL_SPACE s)) w)"
proof -
  obtain i s1 pt' a' where al: "kstack_alloc s = Some (i, s1)" "i \<notin> ra_live (KSTACK_ALLOCATOR s)"
    "ra_live (KSTACK_ALLOCATOR s1) = insert i (ra_live (KSTACK_ALLOCATOR s))" "kspace_inv l s1"
    "ms_areas (KERNEL_SPACE s1) = ms_areas (KERNEL_SPACE s) @ [a']" "unat i < 2 ^ 24"
    "mapped_pages l (kstack_area i, ms_page_table (KERNEL_SPACE s), k_mem s) (range_items (kstack_range i)) (a', pt', k_mem s1)"
    "ms_page_table (KERNEL_SPACE s1) = pt'"
    using kstack_alloc_ok [OF assms] by blast
  let ?vs = "range_items (kstack_range i)"
  from al(7) obtain fs where fs: "a' = (kstack_area i)\<lparr>data_frames := zip ?vs fs\<rparr>" "length fs = length ?vs"
    "kmem_inv l (k_mem s1)" "root_ppn pt' = root_ppn (ms_page_table (KERNEL_SPACE s))"
    "set fs \<inter> (live_frames l (k_mem s) \<union> set (pt_frames pt')) = {}"
    "live_frames l (k_mem s1) = live_frames l (k_mem s) \<union> set fs \<union> set (pt_frames pt')"
    "\<forall>f\<in>set fs. pages (k_mem s1) f = replicate 4096 0"
    "\<And>w. unat w < 2 ^ 27 \<Longrightarrow> mapping (k_mem s1) (ms_root (KERNEL_SPACE s)) w = (case map_of (zip ?vs fs) w of
        None \<Rightarrow> mapping (k_mem s) (ms_root (KERNEL_SPACE s)) w | Some f \<Rightarrow> Some (area_pte (kstack_area i) f))"
    unfolding mapped_pages_def by auto
  have af: "area_frames a' = fs" using fs(1,2) by (simp add: area_frames_def)
  have pages: "\<exists>e. ms_translate (KERNEL_SPACE s1) v (k_mem s1) = Some (Some e)
        \<and> PTE_flags e = (MP_R OR MP_W) OR PTE_V \<and> PTE_ppn e \<in> live_frames l (k_mem s1) - live_frames l (k_mem s)
        \<and> pages (k_mem s1) (PTE_ppn e) = replicate 4096 0" if v: "v \<in> set ?vs" for v
  proof -
    obtain f where f: "map_of (zip ?vs fs) v = Some f" using v fs(2) by (metis map_of_zip_is_Some)
    then have ff: "f \<in> set fs" by (blast dest: map_of_SomeD set_zip_rightD)
    then have fl: "f \<in> live_frames l (k_mem s1)" using fs(6) by blast
    have "mapping (k_mem s1) (root_ppn pt') v = Some (area_pte (kstack_area i) f)"
      using fs(8) [OF range_items_page(1) [OF kstack_range_ok [OF al(6)] v]] f fs(4) by simp
    then have "ms_translate (KERNEL_SPACE s1) v (k_mem s1) = Some (Some (area_pte (kstack_area i) f))"
      using pt_translate_mapped [of "k_mem s1" pt'] by (simp add: ms_translate_def al(8))
    then show ?thesis
      using ff fl fs(5,7) live_frame_bounds(2) [OF fs(3) fl] by (auto simp: area_pte_def kstack_area_def)
  qed
  have root: "ms_root (KERNEL_SPACE s1) = ms_root (KERNEL_SPACE s)" using fs(4) al(8) by simp
  have other: "mapping (k_mem s1) (ms_root (KERNEL_SPACE s1)) w = mapping (k_mem s) (ms_root (KERNEL_SPACE s)) w"
    if "unat w < 2 ^ 27" "w \<notin> set ?vs" for w
  proof -
    have "map_of (zip ?vs fs) w = None" using that(2) by (auto simp: map_of_eq_None_iff dest: set_zip_leftD)
    then show ?thesis using fs(8) [OF that(1)] root by simp
  qed
  have "live_frames l (k_mem s1) - set (area_frames a') = live_frames l (k_mem s) \<union> set (pt_frames (ms_page_table (KERNEL_SPACE s1)))"
    using af al(8) fs(5,6) by auto
  then show ?thesis using al(1-6) root pages other
    by (intro exI [of _ i] exI [of _ s1] exI [of _ a'] conjI) auto
qed

text \<open>A stack that has just been allocated is the only area on its pages; without it the mappings are those from before.\<close>

lemma kstack_drop_mapping:
  assumes inv: "kspace_inv l s" and i: "i \<notin> ra_live (KSTACK_ALLOCATOR s)" "unat i < 2 ^ 24"
    and s1: "kspace_inv l s1" "ra_live (KSTACK_ALLOCATOR s1) = insert i (ra_live (KSTACK_ALLOCATOR s))"
      "ms_areas (KERNEL_SPACE s1) = ms_areas (KERNEL_SPACE s) @ [a']" "ms_root (KERNEL_SPACE s1) = ms_root (KERNEL_SPACE s)"
      "\<forall>w. unat w < 2 ^ 27 \<longrightarrow> w \<notin> set (range_items (kstack_range i)) \<longrightarrow>
        mapping (k_mem s1) (ms_root (KERNEL_SPACE s1)) w = mapping (k_mem s) (ms_root (KERNEL_SPACE s)) w"
  shows "\<exists>s2. KernelStack_drop i s1 = Some s2 \<and> kspace_inv l s2 \<and> ra_live (KSTACK_ALLOCATOR s2) = ra_live (KSTACK_ALLOCATOR s)
    \<and> live_frames l (k_mem s2) = live_frames l (k_mem s1) - set (area_frames a') \<and> ms_page_table (KERNEL_SPACE s2) = ms_page_table (KERNEL_SPACE s1)
    \<and> (\<forall>w. unat w < 2 ^ 27 \<longrightarrow> mapping (k_mem s2) (ms_root (KERNEL_SPACE s2)) w = mapping (k_mem s) (ms_root (KERNEL_SPACE s)) w)"
proof -
  let ?vs = "range_items (kstack_range i)"
  have "i \<in> ra_live (KSTACK_ALLOCATOR s1)" using s1(2) by simp
  from KernelStack_drop_ok [OF s1(1) this] obtain s2 a where
    d: "KernelStack_drop i s1 = Some s2" "kspace_inv l s2" "ra_live (KSTACK_ALLOCATOR s2) = ra_live (KSTACK_ALLOCATOR s1) - {i}"
    "a \<in> set (ms_areas (KERNEL_SPACE s1))" "vpn_range a = kstack_range i"
    "live_frames l (k_mem s2) = live_frames l (k_mem s1) - set (area_frames a)"
    "ms_page_table (KERNEL_SPACE s2) = ms_page_table (KERNEL_SPACE s1)"
    "\<And>w. unat w < 2 ^ 27 \<Longrightarrow> mapping (k_mem s2) (ms_root (KERNEL_SPACE s1)) w =
        (if w \<in> set ?vs then None else mapping (k_mem s1) (ms_root (KERNEL_SPACE s1)) w)"
    by blast
  have unused: "set ?vs \<inter> set (ms_pages (KERNEL_SPACE s)) = {}" using inv i unfolding kspace_inv_def by blast
  have same: "mapping (k_mem s2) (ms_root (KERNEL_SPACE s2)) w = mapping (k_mem s) (ms_root (KERNEL_SPACE s)) w" if w: "unat w < 2 ^ 27" for w
  proof (cases "w \<in> set ?vs")
    case True
    then have "w \<notin> set (ms_pages (KERNEL_SPACE s))" using unused by blast
    moreover have "w \<noteq> TRAMPOLINE_VPN" using True i(2) unfolding kstack_pages_iff [OF i(2)] by (auto simp: TRAMPOLINE_VPN_eq)
    ultimately have "mapping (k_mem s) (ms_root (KERNEL_SPACE s)) w = None" using inv w unfolding kspace_inv_def ms_inv_def by blast
    then show ?thesis using d(7) d(8) [OF w] True s1(4) by simp
  qed (use d(7) d(8) [OF w] s1(4,5) w in simp)
  have "a = a'"
  proof (rule ccontr)
    assume "a \<noteq> a'"
    then have "a \<in> set (ms_areas (KERNEL_SPACE s))" using d(4) s1(3) by auto
    then have "set ?vs \<subseteq> set (ms_pages (KERNEL_SPACE s))" using d(5) by (auto simp: ms_pages_def area_pages_def)
    moreover have "set ?vs \<noteq> {}" using length_kstack_pages [OF i(2)] by (metis list.size(3) set_empty zero_neq_numeral)
    ultimately show False using unused by (metis Int_absorb2)
  qed
  moreover have "ra_live (KSTACK_ALLOCATOR s2) = ra_live (KSTACK_ALLOCATOR s)" using d(3) i(1) s1(2) by auto
  ultimately show ?thesis using d(1,2,6,7) same by blast
qed

text \<open>
  C23. The life of a kernel stack. With six free frames, \<open>kstack_alloc\<close> returns a stack number that was not
  in use and maps its two pages, readable and writable and without user access, to zeroed frames that
  were free before, and no other page of the kernel's space is mapped otherwise than before. Dropping the stack
  recycles the number and returns the two frames, so that of the frames taken only page tables stay in use, and leaves
  every page mapped as before the allocation. All the while the page below each of the \<open>2 ^ 24\<close> possible stacks
  stays unmapped, and the invariant of the kernel's space is kept.
\<close>

theorem kstack_lifecycle:
  assumes inv: "kspace_inv l s" and free: "6 \<le> free_frames (k_mem s)"
    and room: "ra_recycled (KSTACK_ALLOCATOR s) \<noteq> [] \<or> unat (ra_current (KSTACK_ALLOCATOR s)) < 2 ^ 24"
  shows "\<exists>i s1 s2. kstack_alloc s = Some (i, s1) \<and> i \<notin> ra_live (KSTACK_ALLOCATOR s) \<and> kspace_inv l s1
    \<and> (\<forall>v\<in>set (range_items (kstack_range i)). \<exists>e. ms_translate (KERNEL_SPACE s1) v (k_mem s1) = Some (Some e)
        \<and> PTE_flags e = (MP_R OR MP_W) OR PTE_V \<and> PTE_ppn e \<in> live_frames l (k_mem s1) - live_frames l (k_mem s)
        \<and> pages (k_mem s1) (PTE_ppn e) = replicate 4096 0)
    \<and> (\<forall>w. unat w < 2 ^ 27 \<longrightarrow> w \<notin> set (range_items (kstack_range i)) \<longrightarrow>
        mapping (k_mem s1) (ms_root (KERNEL_SPACE s1)) w = mapping (k_mem s) (ms_root (KERNEL_SPACE s)) w)
    \<and> (\<forall>j. unat j < 2 ^ 24 \<longrightarrow> mapping (k_mem s1) (ms_root (KERNEL_SPACE s1)) (kstack_guard j) = None)
    \<and> KernelStack_drop i s1 = Some s2 \<and> kspace_inv l s2 \<and> ra_live (KSTACK_ALLOCATOR s2) = ra_live (KSTACK_ALLOCATOR s)
    \<and> live_frames l (k_mem s2) = live_frames l (k_mem s) \<union> set (pt_frames (ms_page_table (KERNEL_SPACE s2)))
    \<and> (\<forall>w. unat w < 2 ^ 27 \<longrightarrow> mapping (k_mem s2) (ms_root (KERNEL_SPACE s2)) w = mapping (k_mem s) (ms_root (KERNEL_SPACE s)) w)
    \<and> (\<forall>j. unat j < 2 ^ 24 \<longrightarrow> mapping (k_mem s2) (ms_root (KERNEL_SPACE s2)) (kstack_guard j) = None)"
proof -
  obtain i s1 a' where A: "kstack_alloc s = Some (i, s1)" "i \<notin> ra_live (KSTACK_ALLOCATOR s)" "unat i < 2 ^ 24"
    "ra_live (KSTACK_ALLOCATOR s1) = insert i (ra_live (KSTACK_ALLOCATOR s))" "kspace_inv l s1"
    "ms_areas (KERNEL_SPACE s1) = ms_areas (KERNEL_SPACE s) @ [a']" "ms_root (KERNEL_SPACE s1) = ms_root (KERNEL_SPACE s)"
    "live_frames l (k_mem s1) - set (area_frames a') = live_frames l (k_mem s) \<union> set (pt_frames (ms_page_table (KERNEL_SPACE s1)))"
    "\<forall>v\<in>set (range_items (kstack_range i)). \<exists>e. ms_translate (KERNEL_SPACE s1) v (k_mem s1) = Some (Some e)
        \<and> PTE_flags e = (MP_R OR MP_W) OR PTE_V \<and> PTE_ppn e \<in> live_frames l (k_mem s1) - live_frames l (k_mem s)
        \<and> pages (k_mem s1) (PTE_ppn e) = replicate 4096 0"
    "\<forall>w. unat w < 2 ^ 27 \<longrightarrow> w \<notin> set (range_items (kstack_range i)) \<longrightarrow>
        mapping (k_mem s1) (ms_root (KERNEL_SPACE s1)) w = mapping (k_mem s) (ms_root (KERNEL_SPACE s)) w"
    using kstack_alloc_mapping [OF assms] by blast
  from kstack_drop_mapping [OF inv A(2,3,5,4,6,7,10)] obtain s2 where D: "KernelStack_drop i s1 = Some s2" "kspace_inv l s2"
    "ra_live (KSTACK_ALLOCATOR s2) = ra_live (KSTACK_ALLOCATOR s)"
    "live_frames l (k_mem s2) = live_frames l (k_mem s1) - set (area_frames a')" "ms_page_table (KERNEL_SPACE s2) = ms_page_table (KERNEL_SPACE s1)"
    "\<forall>w. unat w < 2 ^ 27 \<longrightarrow> mapping (k_mem s2) (ms_root (KERNEL_SPACE s2)) w = mapping (k_mem s) (ms_root (KERNEL_SPACE s)) w"
    by blast
  show ?thesis using A(1,2,5,9,10) D A(8) guard_unmapped [OF A(5)] guard_unmapped [OF D(2)]
    by (intro exI [of _ i] exI [of _ s1] exI [of _ s2] conjI) auto
qed

theorem kstack_lifecycle_witness:
  "\<exists>s i s1 s2. kspace_inv 0x80500 s \<and> kstack_alloc s = Some (i, s1) \<and> KernelStack_drop i s1 = Some s2
    \<and> live_frames 0x80500 (k_mem s2) = live_frames 0x80500 (k_mem s) \<union> set (pt_frames (ms_page_table (KERNEL_SPACE s2)))
    \<and> mapping (k_mem s1) (ms_root (KERNEL_SPACE s1)) (kstack_guard 0) = None
    \<and> mapping (k_mem s2) (ms_root (KERNEL_SPACE s2)) (kstack_guard 0) = None"
proof -
  let ?l = "0x80500 :: usize" and ?k = "boot_kmem 0x80500000"
  let ?syms = "\<lparr>stext = 0, etext = 0, srodata = 0, erodata = 0, sdata = 0, edata = 0, sbss_with_stack = 0,
    ebss = 0, ekernel = 0, strampoline = 0\<rparr>"
  have al: "VA_page_offset (PhysAddr_from (strampoline ?syms)) = 0" by (simp add: VA_page_offset_def PhysAddr_from_def)
  have "3 \<le> free_frames ?k" by (simp add: boot_sample)
  from new_space_ok [OF boot_sample(1) this al] obtain ms k1 where
    n: "fresh_space ?l ?k ms k1" "ms_areas ms = []" "free_frames ?k \<le> free_frames k1 + 3" by blast
  let ?s = "\<lparr>k_mem = k1, KERNEL_SPACE = ms, PID_ALLOCATOR = RecycleAllocator_new, KSTACK_ALLOCATOR = RecycleAllocator_new\<rparr>"
  have inv: "kspace_inv ?l ?s"
    using n(1,2) by (simp add: kspace_inv_def fresh_space_def ra_inv_def ra_live_def RecycleAllocator_new_def ms_pages_def)
  have "6 \<le> free_frames (k_mem ?s)"
    "ra_recycled (KSTACK_ALLOCATOR ?s) \<noteq> [] \<or> unat (ra_current (KSTACK_ALLOCATOR ?s)) < 2 ^ 24"
    using n(3) by (simp_all add: boot_sample RecycleAllocator_new_def)
  from kstack_lifecycle [OF inv this] obtain i s1 s2 where r: "kstack_alloc ?s = Some (i, s1)" "KernelStack_drop i s1 = Some s2"
    "live_frames ?l (k_mem s2) = live_frames ?l (k_mem ?s) \<union> set (pt_frames (ms_page_table (KERNEL_SPACE s2)))"
    "\<And>j. unat j < 2 ^ 24 \<Longrightarrow> mapping (k_mem s1) (ms_root (KERNEL_SPACE s1)) (kstack_guard j) = None"
    "\<And>j. unat j < 2 ^ 24 \<Longrightarrow> mapping (k_mem s2) (ms_root (KERNEL_SPACE s2)) (kstack_guard j) = None" by blast
  show ?thesis using inv r(1,2,3) r(4,5) [of 0] by (intro exI [of _ ?s] exI [of _ i] exI [of _ s1] exI [of _ s2] conjI) simp_all
qed

end
