(* ===== verification/BlockCache.thy ===== *)
theory BlockCache
  imports Prelude
begin

text \<open>
  \<^verbatim>\<open>easy-fs/src/block_dev.rs\<close> and \<^verbatim>\<open>easy-fs/src/block_cache.rs\<close>: block devices and
  the write-back block cache every other part of the file system reads and writes through.

  A \<open>dyn BlockDevice\<close> is a record of its two methods over a device state; the two laws a
  device promises are the locale \<open>block_dev\<close>, and the host file of
  \<^verbatim>\<open>easy-fs-fuse/src/main.rs\<close> (\<open>BlockFile\<close>) is its instance. The cache manager is the
  queue of at most 16 cached blocks with their reference counts and locks. A handle
  \<open>Arc<Mutex<BlockCache>>\<close> is named by its block id: an entry somebody holds a handle of
  is never evicted. The main result is that the cache is transparent: \<open>view\<close>, the
  contents a block has for a client, changes only where a client modifies a block.
\<close>

section \<open>Block devices\<close>

definition BLOCK_SZ :: nat where "BLOCK_SZ = 512"

record 'd block_device =
  read_block :: "nat \<Rightarrow> 'd \<Rightarrow> bytes option"
  write_block :: "nat \<Rightarrow> bytes \<Rightarrow> 'd \<Rightarrow> 'd option"

text \<open>
  The device of the image builder: a regular file, seeked to \<open>block_id * 512\<close>. Reading
  past the end returns fewer bytes and fails the assertion; writing past the end extends
  the file with zeros first.
\<close>

definition BlockFile_read_block :: "nat \<Rightarrow> bytes \<Rightarrow> bytes option" where
  "BlockFile_read_block block_id file =
     (let buf = take BLOCK_SZ (drop (block_id * BLOCK_SZ) file)
      in do { assert_that (length buf = BLOCK_SZ); Some buf })"

definition BlockFile_write_block :: "nat \<Rightarrow> bytes \<Rightarrow> bytes \<Rightarrow> bytes option" where
  "BlockFile_write_block block_id buf file =
     do { assert_that (length buf = BLOCK_SZ);
          let pos = block_id * BLOCK_SZ;
          Some (splice_at pos buf (file @ replicate (pos - length file) 0)) }"

definition BlockFile :: "bytes block_device" where
  "BlockFile = \<lparr>read_block = BlockFile_read_block, write_block = BlockFile_write_block\<rparr>"

section \<open>One cached block\<close>

definition BLOCK_CACHE_SIZE :: nat where "BLOCK_CACHE_SIZE = 16"

record block_cache =
  cache :: bytes
  block_id :: nat
  modified :: bool
  strong_count :: nat
  locked :: bool

definition BlockCache_new :: "'d block_device \<Rightarrow> nat \<Rightarrow> 'd \<Rightarrow> block_cache option" where
  "BlockCache_new bd bid d =
     do { c \<leftarrow> read_block bd bid d;
          Some \<lparr>cache = c, block_id = bid, modified = False, strong_count = 1, locked = False\<rparr> }"

definition addr_of_offset :: "nat \<Rightarrow> block_cache \<Rightarrow> nat option" where
  "addr_of_offset off c = (if off < length (cache c) then Some off else None)"

definition get_ref :: "'a repr \<Rightarrow> nat \<Rightarrow> block_cache \<Rightarrow> 'a option" where
  "get_ref R off c =
     do { assert_that (off + size_of R \<le> BLOCK_SZ);
          addr \<leftarrow> addr_of_offset off c;
          from_mem R (slice_at addr (size_of R) (cache c)) }"

text \<open>
  \<open>get_mut\<close> hands out a mutable reference into the cached bytes; the value read through
  it and the entry marked dirty are returned, and what the client stores through the
  reference is \<open>put_mut\<close>.
\<close>

definition get_mut :: "'a repr \<Rightarrow> nat \<Rightarrow> block_cache \<Rightarrow> ('a \<times> block_cache) option" where
  "get_mut R off c =
     do { assert_that (off + size_of R \<le> BLOCK_SZ);
          let c = c\<lparr>modified := True\<rparr>;
          addr \<leftarrow> addr_of_offset off c;
          x \<leftarrow> from_mem R (slice_at addr (size_of R) (cache c));
          Some (x, c) }"

definition put_mut :: "'a repr \<Rightarrow> nat \<Rightarrow> 'a \<Rightarrow> block_cache \<Rightarrow> block_cache" where
  "put_mut R off x c = c\<lparr>cache := splice_at off (to_mem R x) (cache c)\<rparr>"

definition sync :: "'d block_device \<Rightarrow> block_cache \<Rightarrow> 'd \<Rightarrow> (block_cache \<times> 'd) option" where
  "sync bd c d =
     (if modified c then
        do { let c = c\<lparr>modified := False\<rparr>;
             d \<leftarrow> write_block bd (block_id c) (cache c) d;
             Some (c, d) }
      else Some (c, d))"

text \<open>Dropping the last handle of a cached block writes it back.\<close>

definition BlockCache_drop :: "'d block_device \<Rightarrow> block_cache \<Rightarrow> 'd \<Rightarrow> 'd option" where
  "BlockCache_drop bd c d = map_option snd (sync bd c d)"

section \<open>The cache manager\<close>

record 'd bcm =
  queue :: "(nat \<times> block_cache) list"
  device :: 'd

primrec upd_first :: "nat \<Rightarrow> (block_cache \<Rightarrow> block_cache) \<Rightarrow> (nat \<times> block_cache) list \<Rightarrow> (nat \<times> block_cache) list" where
  "upd_first k f [] = []"
| "upd_first k f (p # ps) = (if fst p = k then (k, f (snd p)) # ps else p # upd_first k f ps)"

text \<open>
  A full queue gives up its first entry nobody else holds, writing it back; when every
  entry is held the manager panics.
\<close>

definition substitute :: "'d block_device \<Rightarrow> 'd bcm \<Rightarrow> 'd bcm option" where
  "substitute bd s =
     (if length (queue s) = BLOCK_CACHE_SIZE then
        (case find_index (\<lambda>p. strong_count (snd p) = 1) (queue s) of
           Some idx \<Rightarrow>
             do { d \<leftarrow> BlockCache_drop bd (snd (queue s ! idx)) (device s);
                  Some \<lparr>queue = take idx (queue s) @ drop (Suc idx) (queue s), device = d\<rparr> }
         | None \<Rightarrow> None)
      else Some s)"

text \<open>Cloning the \<open>Arc\<close> of a queue entry, or loading the block and pushing it.\<close>

definition get_block_cache :: "'d block_device \<Rightarrow> nat \<Rightarrow> 'd bcm \<Rightarrow> 'd bcm option" where
  "get_block_cache bd bid s =
     (case find_index (\<lambda>p. fst p = bid) (queue s) of
        Some _ \<Rightarrow> Some (s\<lparr>queue := upd_first bid (\<lambda>c. c\<lparr>strong_count := strong_count c + 1\<rparr>) (queue s)\<rparr>)
      | None \<Rightarrow>
          do { s \<leftarrow> substitute bd s;
               c \<leftarrow> BlockCache_new bd bid (device s);
               Some (s\<lparr>queue := queue s @ [(bid, c\<lparr>strong_count := strong_count c + 1\<rparr>)]\<rparr>) })"

definition lock_cache :: "nat \<Rightarrow> 'd bcm \<Rightarrow> 'd bcm option" where
  "lock_cache bid s =
     do { c \<leftarrow> map_of (queue s) bid;
          assert_that (\<not> locked c);
          Some (s\<lparr>queue := upd_first bid (\<lambda>c. c\<lparr>locked := True\<rparr>) (queue s)\<rparr>) }"

text \<open>The end of a statement drops its lock guard and its handle.\<close>

definition release_cache :: "nat \<Rightarrow> 'd bcm \<Rightarrow> 'd bcm" where
  "release_cache bid s =
     s\<lparr>queue := upd_first bid (\<lambda>c. c\<lparr>locked := False, strong_count := strong_count c - 1\<rparr>) (queue s)\<rparr>"

text \<open>
  \<open>get_block_cache(id, dev).lock().read(off, f)\<close> and \<open>.modify(off, f)\<close>. The closure runs
  with the block locked and may use other blocks; its result is returned.
\<close>

definition cache_read :: "'d block_device \<Rightarrow> 'a repr \<Rightarrow> nat \<Rightarrow> nat \<Rightarrow>
    ('a \<Rightarrow> 'd bcm \<Rightarrow> ('v \<times> 'd bcm) option) \<Rightarrow> 'd bcm \<Rightarrow> ('v \<times> 'd bcm) option" where
  "cache_read bd R bid off f s =
     do { s \<leftarrow> get_block_cache bd bid s;
          s \<leftarrow> lock_cache bid s;
          c \<leftarrow> map_of (queue s) bid;
          x \<leftarrow> get_ref R off c;
          (v, s) \<leftarrow> f x s;
          Some (v, release_cache bid s) }"

definition cache_modify :: "'d block_device \<Rightarrow> 'a repr \<Rightarrow> nat \<Rightarrow> nat \<Rightarrow>
    ('a \<Rightarrow> 'd bcm \<Rightarrow> ('a \<times> 'v \<times> 'd bcm) option) \<Rightarrow> 'd bcm \<Rightarrow> ('v \<times> 'd bcm) option" where
  "cache_modify bd R bid off f s =
     do { s \<leftarrow> get_block_cache bd bid s;
          s \<leftarrow> lock_cache bid s;
          c \<leftarrow> map_of (queue s) bid;
          (x, c) \<leftarrow> get_mut R off c;
          (x, v, s) \<leftarrow> f x (s\<lparr>queue := upd_first bid (\<lambda>_. c) (queue s)\<rparr>);
          let s = s\<lparr>queue := upd_first bid (put_mut R off x) (queue s)\<rparr>;
          Some (v, release_cache bid s) }"

text \<open>\<open>block_cache_sync_all\<close>: every entry locked and synced in queue order.\<close>

fun sync_entries :: "'d block_device \<Rightarrow> (nat \<times> block_cache) list \<Rightarrow> 'd \<Rightarrow> ((nat \<times> block_cache) list \<times> 'd) option" where
  "sync_entries bd [] d = Some ([], d)"
| "sync_entries bd ((k, c) # q) d =
     do { assert_that (\<not> locked c);
          (c, d) \<leftarrow> sync bd c d;
          (q, d) \<leftarrow> sync_entries bd q d;
          Some ((k, c) # q, d) }"

definition block_cache_sync_all :: "'d block_device \<Rightarrow> 'd bcm \<Rightarrow> 'd bcm option" where
  "block_cache_sync_all bd s =
     do { (q, d) \<leftarrow> sync_entries bd (queue s) (device s);
          Some \<lparr>queue = q, device = d\<rparr> }"

definition BlockCacheManager_new :: "'d \<Rightarrow> 'd bcm" where
  "BlockCacheManager_new d = \<lparr>queue = [], device = d\<rparr>"

section \<open>Lemmas on the queue\<close>

lemma map_of_upd_first: "map_of (upd_first k f q) = (map_of q)(k := map_option f (map_of q k))"
  by (induction q) (auto simp: fun_eq_iff)

lemma keys_upd_first [simp]: "map fst (upd_first k f q) = map fst q"
  by (induction q) auto

lemma length_upd_first [simp]: "length (upd_first k f q) = length q"
  by (induction q) auto

lemma upd_first_comp: "upd_first k g (upd_first k f q) = upd_first k (g \<circ> f) q"
  by (induction q) auto

lemma find_index_key_None: "find_index (\<lambda>p. fst p = k) q = None \<longleftrightarrow> map_of q k = None"
  by (simp add: find_index_None_iff map_of_eq_None_iff image_iff) metis

lemma upd_first_append: "k \<notin> fst ` set q \<Longrightarrow> upd_first k f (q @ [(k, c)]) = q @ [(k, f c)]"
  by (induction q) auto

lemma upd_first_cong:
  "map_of q k = Some c \<Longrightarrow> f c = g c \<Longrightarrow> upd_first k f q = upd_first k g q"
  by (induction q) (auto split: if_splits)

lemma in_set_upd_first:
  "distinct (map fst q) \<Longrightarrow> (j, c) \<in> set (upd_first k f q) \<longleftrightarrow>
   (if j = k then \<exists>c0. (k, c0) \<in> set q \<and> c = f c0 else (j, c) \<in> set q)"
  by (induction q) (auto simp: image_iff)

lemma map_of_remove_nth:
  "distinct (map fst q) \<Longrightarrow> i < length q \<Longrightarrow>
   map_of (take i q @ drop (Suc i) q) = (map_of q)(fst (q ! i) := None)"
proof (induction q arbitrary: i)
  case (Cons p q)
  show ?case
  proof (cases i)
    case 0
    with Cons.prems show ?thesis by (auto simp: fun_eq_iff map_of_eq_None_iff)
  next
    case (Suc j)
    with Cons.prems have "q ! j \<in> set q" by simp
    with Cons.prems have "fst p \<noteq> fst (q ! j)" by (auto simp: image_iff)
    with Suc Cons.IH [of j] Cons.prems show ?thesis by (auto simp: fun_eq_iff)
  qed
qed simp

lemma set_remove_nth: "set (take i q @ drop (Suc i) q) \<subseteq> set q"
  using set_take_subset [of i q] set_drop_subset [of "Suc i" q] by auto

lemma distinct_remove_nth:
  "distinct (map fst q) \<Longrightarrow> distinct (map fst (take i q @ drop (Suc i) q))"
  by (simp only: map_append take_map [symmetric] drop_map [symmetric] distinct_append)
    (simp add: set_take_disj_set_drop_if_distinct)

section \<open>What a client sees\<close>

text \<open>
  The logical contents of a block, the blocks locked by somebody (each with its dirty
  flag), and the invariant of the cache over a device whose block contents are
  \<open>contents\<close>.
\<close>

definition view :: "('d \<Rightarrow> nat \<Rightarrow> bytes) \<Rightarrow> 'd bcm \<Rightarrow> nat \<Rightarrow> bytes" where
  "view contents s i = (case map_of (queue s) i of Some c \<Rightarrow> cache c | None \<Rightarrow> contents (device s) i)"

definition held :: "'d bcm \<Rightarrow> nat \<rightharpoonup> bool" where
  "held s i = (case map_of (queue s) i of Some c \<Rightarrow> if locked c then Some (modified c) else None | None \<Rightarrow> None)"

definition entry_ok :: "('d \<Rightarrow> nat \<Rightarrow> bytes) \<Rightarrow> nat \<Rightarrow> 'd \<Rightarrow> nat \<Rightarrow> block_cache \<Rightarrow> bool" where
  "entry_ok contents nb d k c \<longleftrightarrow>
     k < nb \<and> block_id c = k \<and> length (cache c) = BLOCK_SZ \<and>
     strong_count c = (if locked c then 2 else 1) \<and>
     (\<not> modified c \<longrightarrow> cache c = contents d k)"

definition cache_inv :: "('d \<Rightarrow> nat \<Rightarrow> bytes) \<Rightarrow> ('d \<Rightarrow> bool) \<Rightarrow> nat \<Rightarrow> 'd bcm \<Rightarrow> bool" where
  "cache_inv contents dinv nb s \<longleftrightarrow>
     dinv (device s) \<and> distinct (map fst (queue s)) \<and> length (queue s) \<le> BLOCK_CACHE_SIZE \<and>
     (\<forall>(k, c) \<in> set (queue s). entry_ok contents nb (device s) k c)"

definition cache_state :: "('d \<Rightarrow> nat \<Rightarrow> bytes) \<Rightarrow> ('d \<Rightarrow> bool) \<Rightarrow> nat \<Rightarrow>
    (nat \<rightharpoonup> bool) \<Rightarrow> (nat \<Rightarrow> bytes) \<Rightarrow> 'd bcm \<Rightarrow> bool" where
  "cache_state contents dinv nb H v s \<longleftrightarrow>
     cache_inv contents dinv nb s \<and> held s = H \<and> view contents s = v"

lemma dom_held_subset: "dom (held s) \<subseteq> fst ` set (queue s)"
  by (force simp: held_def split: option.splits if_splits dest: map_of_SomeD)

lemma held_finite [simp]: "finite (dom (held s))"
  by (rule finite_subset [OF dom_held_subset]) simp

lemma cache_invD:
  assumes "cache_inv contents dinv nb s"
  shows "dinv (device s)" "distinct (map fst (queue s))" "length (queue s) \<le> BLOCK_CACHE_SIZE"
    and "(k, c) \<in> set (queue s) \<Longrightarrow> entry_ok contents nb (device s) k c"
    and "map_of (queue s) k = Some c \<Longrightarrow> entry_ok contents nb (device s) k c"
  using assms by (auto simp: cache_inv_def dest: map_of_SomeD)

section \<open>The contract of a block device\<close>

locale block_dev =
  fixes bd :: "'d block_device" and contents :: "'d \<Rightarrow> nat \<Rightarrow> bytes"
    and dinv :: "'d \<Rightarrow> bool" and nblocks :: nat
  assumes dev_read: "dinv d \<Longrightarrow> i < nblocks \<Longrightarrow> read_block bd i d = Some (contents d i)"
    and dev_length: "dinv d \<Longrightarrow> i < nblocks \<Longrightarrow> length (contents d i) = BLOCK_SZ"
    and dev_write: "dinv d \<Longrightarrow> i < nblocks \<Longrightarrow> length bs = BLOCK_SZ \<Longrightarrow>
      \<exists>d'. write_block bd i bs d = Some d' \<and> dinv d' \<and> contents d' = (contents d)(i := bs)"
begin

abbreviation st :: "(nat \<rightharpoonup> bool) \<Rightarrow> (nat \<Rightarrow> bytes) \<Rightarrow> 'd bcm \<Rightarrow> bool" where
  "st \<equiv> cache_state contents dinv nblocks"

abbreviation inv :: "'d bcm \<Rightarrow> bool" where
  "inv \<equiv> cache_inv contents dinv nblocks"

lemma sync_ok:
  assumes "dinv d" "entry_ok contents nblocks d k c"
  shows "\<exists>d'. sync bd c d = Some (c\<lparr>modified := False\<rparr>, d') \<and> dinv d' \<and>
    contents d' = (contents d)(k := cache c)"
proof (cases "modified c")
  case True
  with assms dev_write [of d k "cache c"] show ?thesis
    by (auto simp: sync_def entry_ok_def)
next
  case False
  with assms have "cache c = contents d k" by (simp add: entry_ok_def)
  with False assms(1) show ?thesis
    by (auto simp: sync_def fun_eq_iff intro!: block_cache.equality)
qed

lemma free_entry_exists:
  assumes "inv s" "length (queue s) = BLOCK_CACHE_SIZE" "card (dom (held s)) < BLOCK_CACHE_SIZE"
  shows "\<exists>i. find_index (\<lambda>p. strong_count (snd p) = 1) (queue s) = Some i"
proof (rule ccontr)
  assume "\<not> ?thesis"
  then have "\<forall>p\<in>set (queue s). strong_count (snd p) \<noteq> 1"
    by (simp flip: find_index_None_iff)
  with assms(1) have "\<forall>p\<in>set (queue s). locked (snd p)"
    by (fastforce simp: cache_inv_def entry_ok_def split: if_splits)
  then have "dom (held s) = fst ` set (queue s)"
    using dom_held_subset [of s] cache_invD(2) [OF assms(1)]
    by (force simp: held_def)
  also have "\<dots> = set (map fst (queue s))" by simp
  also have "card \<dots> = length (queue s)"
    using distinct_card [OF cache_invD(2) [OF assms(1)]] by simp
  finally show False using assms(2,3) by simp
qed

lemma substitute_ok:
  assumes s: "st H v s" and card: "card (dom H) < BLOCK_CACHE_SIZE" and miss: "map_of (queue s) i = None"
  shows "\<exists>s'. substitute bd s = Some s' \<and> st H v s' \<and> length (queue s') < BLOCK_CACHE_SIZE \<and>
    map_of (queue s') i = None"
proof (cases "length (queue s) = BLOCK_CACHE_SIZE")
  case False
  with assms show ?thesis by (auto simp: substitute_def cache_state_def cache_inv_def)
next
  case True
  from s have inv: "inv s" and H: "held s = H" and v: "view contents s = v"
    by (auto simp: cache_state_def)
  from free_entry_exists [OF inv True] card H obtain idx where
    idx: "find_index (\<lambda>p. strong_count (snd p) = 1) (queue s) = Some idx" by auto
  then have lt: "idx < length (queue s)" and one: "strong_count (snd (queue s ! idx)) = 1"
    by (auto dest: find_index_SomeD)
  obtain k c where kc: "queue s ! idx = (k, c)" by fastforce
  with lt have mem: "(k, c) \<in> set (queue s)" by (metis nth_mem)
  from cache_invD(4) [OF inv mem] have ok: "entry_ok contents nblocks (device s) k c" .
  have "strong_count c = 1" using one kc by simp
  then have unl: "\<not> locked c" using ok by (simp add: entry_ok_def split: if_splits)
  from sync_ok [OF cache_invD(1) [OF inv] ok] obtain d' where
    d': "sync bd c (device s) = Some (c\<lparr>modified := False\<rparr>, d')" "dinv d'"
      "contents d' = (contents (device s))(k := cache c)" by blast
  let ?q = "take idx (queue s) @ drop (Suc idx) (queue s)"
  let ?s = "\<lparr>queue = ?q, device = d'\<rparr>"
  have dist: "distinct (map fst (queue s))" by (rule cache_invD(2) [OF inv])
  have mo: "map_of ?q = (map_of (queue s))(k := None)"
    using map_of_remove_nth [OF dist lt] kc by simp
  have mk: "map_of (queue s) k = Some c" using dist mem by simp
  have run: "substitute bd s = Some ?s"
    using True idx kc d'(1) by (simp add: substitute_def BlockCache_drop_def)
  have other: "entry_ok contents nblocks d' j b" if "(j, b) \<in> set ?q" for j b
  proof -
    have jb: "(j, b) \<in> set (queue s)" using that set_remove_nth [of idx "queue s"] by blast
    have "map_of ?q j = Some b"
      by (rule map_of_is_SomeI [OF distinct_remove_nth [OF dist] that])
    with mo have "j \<noteq> k" by auto
    with cache_invD(4) [OF inv jb] d'(3) show ?thesis by (simp add: entry_ok_def)
  qed
  have "inv ?s"
    unfolding cache_inv_def
  proof (intro conjI)
    show "dinv (device ?s)" using d'(2) by simp
    show "distinct (map fst (queue ?s))" using distinct_remove_nth [OF dist] by simp
    show "length (queue ?s) \<le> BLOCK_CACHE_SIZE" using True by simp
    show "\<forall>(j, b)\<in>set (queue ?s). entry_ok contents nblocks (device ?s) j b"
      using other by auto
  qed
  moreover have "held ?s = H"
    using mo mk unl by (auto simp: held_def fun_eq_iff simp flip: H)
  moreover have "view contents ?s = v"
    unfolding v [symmetric] using mo mk d'(3)
    by (auto simp: view_def fun_eq_iff split: option.splits)
  moreover have "length ?q < BLOCK_CACHE_SIZE" using True lt by simp
  ultimately show ?thesis using run mo miss by (auto simp: cache_state_def)
qed

lemma st_upd_entry:
  assumes s: "st H v s" and c: "map_of (queue s) i = Some c"
    and ok: "entry_ok contents nblocks (device s) i (f c)"
  shows "st (H(i := if locked (f c) then Some (modified (f c)) else None)) (v(i := cache (f c)))
    (s\<lparr>queue := upd_first i f (queue s)\<rparr>)"
proof -
  from s have inv: "inv s" and H: "held s = H" and v: "view contents s = v"
    by (auto simp: cache_state_def)
  let ?s = "s\<lparr>queue := upd_first i f (queue s)\<rparr>"
  have dist: "distinct (map fst (queue s))" by (rule cache_invD(2) [OF inv])
  have "entry_ok contents nblocks (device s) j b" if "(j, b) \<in> set (upd_first i f (queue s))" for j b
  proof (cases "j = i")
    case True
    with that dist obtain c0 where "(i, c0) \<in> set (queue s)" "b = f c0"
      by (auto simp: in_set_upd_first)
    with c dist ok True show ?thesis by auto
  next
    case False
    with that dist cache_invD(4) [OF inv] show ?thesis by (auto simp: in_set_upd_first)
  qed
  then have "inv ?s" using inv by (auto simp: cache_inv_def)
  moreover have "held ?s = H(i := if locked (f c) then Some (modified (f c)) else None)"
    using c by (auto simp: held_def map_of_upd_first fun_eq_iff split: option.splits simp flip: H)
  moreover have "view contents ?s = v(i := cache (f c))"
    using c by (auto simp: view_def map_of_upd_first fun_eq_iff split: option.splits simp flip: v)
  ultimately show ?thesis by (simp add: cache_state_def)
qed

lemma load_ok:
  assumes s: "st H v s" and i: "i < nblocks" and card: "card (dom H) < BLOCK_CACHE_SIZE"
    and miss: "map_of (queue s) i = None"
  shows "\<exists>s' c. get_block_cache bd i s = Some (s'\<lparr>queue := upd_first i (\<lambda>c. c\<lparr>strong_count := 2\<rparr>) (queue s')\<rparr>) \<and>
    st H v s' \<and> map_of (queue s') i = Some c \<and> strong_count c = 1 \<and> \<not> locked c"
proof -
  from substitute_ok [OF s card miss] obtain s1 where
    s1: "substitute bd s = Some s1" "st H v s1" "length (queue s1) < BLOCK_CACHE_SIZE"
      "map_of (queue s1) i = None" by blast
  then have inv1: "inv s1" and H: "held s1 = H" and v: "view contents s1 = v"
    by (auto simp: cache_state_def)
  let ?c = "\<lparr>cache = contents (device s1) i, block_id = i, modified = False, strong_count = 1, locked = False\<rparr>"
  let ?s = "s1\<lparr>queue := queue s1 @ [(i, ?c)]\<rparr>"
  note dev = cache_invD(1) [OF inv1]
  have new: "BlockCache_new bd i (device s1) = Some ?c"
    using dev_read [OF dev i] by (simp add: BlockCache_new_def)
  have notin: "i \<notin> fst ` set (queue s1)" using s1(4) by (simp add: map_of_eq_None_iff)
  have "entry_ok contents nblocks (device s1) i ?c"
    using i dev_length [OF dev i] by (simp add: entry_ok_def)
  then have "inv ?s"
    using inv1 notin s1(3) by (auto simp: cache_inv_def)
  moreover have "held ?s = H"
    using s1(4) by (auto simp: held_def map_add_def fun_eq_iff split: option.splits simp flip: H)
  moreover have "view contents ?s = v"
    using s1(4) by (auto simp: view_def map_add_def fun_eq_iff split: option.splits simp flip: v)
  ultimately have "st H v ?s" by (simp add: cache_state_def)
  moreover have "map_of (queue ?s) i = Some ?c" using s1(4) by (simp add: map_add_def)
  moreover have "get_block_cache bd i s = Some (?s\<lparr>queue := upd_first i (\<lambda>c. c\<lparr>strong_count := 2\<rparr>) (queue ?s)\<rparr>)"
    using miss s1(1) new 
    by (simp add: get_block_cache_def upd_first_append [OF notin] find_index_key_None [THEN iffD2])
  ultimately show ?thesis by (intro exI [of _ ?s] exI [of _ ?c]) simp
qed

lemma get_ok:
  assumes s: "st H v s" and i: "i < nblocks" "i \<notin> dom H" and card: "card (dom H) < BLOCK_CACHE_SIZE"
  shows "\<exists>s' c. get_block_cache bd i s = Some (s'\<lparr>queue := upd_first i (\<lambda>c. c\<lparr>strong_count := 2\<rparr>) (queue s')\<rparr>) \<and>
    st H v s' \<and> map_of (queue s') i = Some c \<and> strong_count c = 1 \<and> \<not> locked c"
proof (cases "map_of (queue s) i")
  case None
  then show ?thesis using load_ok [OF s i(1) card] by blast
next
  case (Some c)
  from s have inv: "inv s" and H: "held s = H" by (auto simp: cache_state_def)
  from Some i(2) H have unl: "\<not> locked c" by (auto simp: held_def)
  with cache_invD(5) [OF inv Some] have one: "strong_count c = 1" by (simp add: entry_ok_def)
  have "find_index (\<lambda>p. fst p = i) (queue s) \<noteq> None" using Some by (simp add: find_index_key_None)
  moreover have "upd_first i (\<lambda>c. c\<lparr>strong_count := strong_count c + 1\<rparr>) (queue s)
      = upd_first i (\<lambda>c. c\<lparr>strong_count := 2\<rparr>) (queue s)"
    by (rule upd_first_cong [OF Some]) (simp add: one)
  ultimately have "get_block_cache bd i s =
      Some (s\<lparr>queue := upd_first i (\<lambda>c. c\<lparr>strong_count := 2\<rparr>) (queue s)\<rparr>)"
    by (auto simp: get_block_cache_def)
  then show ?thesis using s Some one unl by blast
qed

text \<open>A client that holds fewer than 16 blocks, and not this one, gets and locks it.\<close>

lemma acquire_ok:
  assumes s: "st H v s" and i: "i < nblocks" "i \<notin> dom H" and card: "card (dom H) < BLOCK_CACHE_SIZE"
  shows "\<exists>s1 s2 c. get_block_cache bd i s = Some s1 \<and> lock_cache i s1 = Some s2 \<and>
    map_of (queue s2) i = Some c \<and> st (H(i \<mapsto> modified c)) v s2 \<and> cache c = v i"
proof -
  from get_ok [OF assms] obtain s0 c where
    g: "get_block_cache bd i s = Some (s0\<lparr>queue := upd_first i (\<lambda>c. c\<lparr>strong_count := 2\<rparr>) (queue s0)\<rparr>)"
    and s0: "st H v s0" and c: "map_of (queue s0) i = Some c" "strong_count c = 1" "\<not> locked c"
    by blast
  let ?c = "c\<lparr>strong_count := 2, locked := True\<rparr>"
  let ?q = "upd_first i (\<lambda>_. ?c) (queue s0)"
  have "upd_first i (\<lambda>c. c\<lparr>locked := True\<rparr>) (upd_first i (\<lambda>c. c\<lparr>strong_count := 2\<rparr>) (queue s0)) = ?q"
    by (simp add: upd_first_comp) (rule upd_first_cong [OF c(1)], simp)
  then have l: "lock_cache i (s0\<lparr>queue := upd_first i (\<lambda>c. c\<lparr>strong_count := 2\<rparr>) (queue s0)\<rparr>)
      = Some (s0\<lparr>queue := ?q\<rparr>)"
    using c by (simp add: lock_cache_def map_of_upd_first)
  have inv0: "inv s0" and v: "view contents s0 = v" using s0 by (auto simp: cache_state_def)
  have cv: "cache c = v i" using c(1) by (simp add: view_def flip: v)
  have "entry_ok contents nblocks (device s0) i ?c"
    using cache_invD(5) [OF inv0 c(1)] by (simp add: entry_ok_def)
  from st_upd_entry [OF s0 c(1), of "\<lambda>_. ?c", OF this]
  have "st (H(i \<mapsto> modified c)) (v(i := cache c)) (s0\<lparr>queue := ?q\<rparr>)"
    by simp
  then have "st (H(i \<mapsto> modified ?c)) v (s0\<lparr>queue := ?q\<rparr>)" by (simp add: cv)
  moreover have "map_of ?q i = Some ?c" using c(1) by (simp add: map_of_upd_first)
  ultimately show ?thesis using g l cv
    by (intro exI [of _ "s0\<lparr>queue := ?q\<rparr>"] exI [of _ ?c] exI) auto
qed

lemma st_heldD:
  assumes "st H v s" "H i = Some m"
  shows "\<exists>c. map_of (queue s) i = Some c \<and> locked c \<and> modified c = m \<and> cache c = v i \<and>
    length (v i) = BLOCK_SZ \<and> entry_ok contents nblocks (device s) i c"
proof -
  from assms have inv: "inv s" and H: "held s i = Some m" and v: "view contents s = v"
    by (auto simp: cache_state_def)
  from H obtain c where c: "map_of (queue s) i = Some c" "locked c" "modified c = m"
    by (auto simp: held_def split: option.splits if_splits)
  with cache_invD(5) [OF inv c(1)] show ?thesis
    by (auto simp: view_def entry_ok_def simp flip: v)
qed

lemma release_ok:
  assumes s: "st (H(i \<mapsto> m)) v s" and i: "i \<notin> dom H"
  shows "st H v (release_cache i s)"
proof -
  from st_heldD [OF s, of i m] obtain c where
    c: "map_of (queue s) i = Some c" "locked c" "cache c = v i"
      "entry_ok contents nblocks (device s) i c" by auto
  let ?c = "c\<lparr>locked := False, strong_count := strong_count c - 1\<rparr>"
  have "entry_ok contents nblocks (device s) i ?c"
    using c(2,4) by (simp add: entry_ok_def)
  from st_upd_entry [OF s c(1), of "\<lambda>c. c\<lparr>locked := False, strong_count := strong_count c - 1\<rparr>", OF this]
  have "st (H(i := None)) (v(i := cache c)) (release_cache i s)"
    by (simp add: release_cache_def)
  moreover have "H(i := None) = H" using i by (auto simp: fun_eq_iff)
  ultimately show ?thesis using c(3) by simp
qed

text \<open>The rules of the two access paths: \<open>read\<close> leaves the block alone, \<open>modify\<close> stores the
  closure's value over the bytes the block has.\<close>

lemma cache_read_ok:
  assumes s: "st H v s" and i: "i < nblocks" "i \<notin> dom H" and card: "card (dom H) < BLOCK_CACHE_SIZE"
    and off: "off + size_of R \<le> BLOCK_SZ" "off < BLOCK_SZ"
    and x: "from_mem R (slice_at off (size_of R) (v i)) = Some x"
    and f: "\<And>s1 m. st (H(i \<mapsto> m)) v s1 \<Longrightarrow> \<exists>s2. f x s1 = Some (r, s2) \<and> st (H(i \<mapsto> m)) v' s2"
  shows "\<exists>s'. cache_read bd R i off f s = Some (r, s') \<and> st H v' s'"
proof -
  from acquire_ok [OF s i card] obtain s1 s2 c where
    a: "get_block_cache bd i s = Some s1" "lock_cache i s1 = Some s2"
      "map_of (queue s2) i = Some c" "st (H(i \<mapsto> modified c)) v s2" "cache c = v i" by blast
  from st_heldD [OF a(4), of i "modified c"] have "length (cache c) = BLOCK_SZ"
    using a(5) by auto
  then have "get_ref R off c = Some x"
    using off x a(5) by (simp add: get_ref_def addr_of_offset_def)
  moreover from f [OF a(4)] obtain s3 where
    "f x s2 = Some (r, s3)" "st (H(i \<mapsto> modified c)) v' s3" by blast
  ultimately show ?thesis
    using a release_ok [OF _ i(2)] by (auto simp: cache_read_def)
qed

lemma cache_modify_exI:
  assumes s: "st H v s" and i: "i < nblocks" "i \<notin> dom H" and card: "card (dom H) < BLOCK_CACHE_SIZE"
    and off: "off + size_of R \<le> BLOCK_SZ" "off < BLOCK_SZ"
    and x: "from_mem R (slice_at off (size_of R) (v i)) = Some x"
    and f: "\<And>s1. st (H(i \<mapsto> True)) v s1 \<Longrightarrow> \<exists>x' r s2 v'. f x s1 = Some (x', r, s2) \<and>
      st (H(i \<mapsto> True)) v' s2 \<and> off + length (to_mem R x') \<le> BLOCK_SZ \<and> P x' r v'"
  shows "\<exists>x' r s' v'. cache_modify bd R i off f s = Some (r, s') \<and>
    st H (v'(i := splice_at off (to_mem R x') (v' i))) s' \<and> P x' r v'"
proof -
  from acquire_ok [OF s i card] obtain s1 s2 c where
    a: "get_block_cache bd i s = Some s1" "lock_cache i s1 = Some s2"
      "map_of (queue s2) i = Some c" "st (H(i \<mapsto> modified c)) v s2" "cache c = v i" by blast
  from st_heldD [OF a(4), of i "modified c"] a(3) have
    c: "locked c" "entry_ok contents nblocks (device s2) i c" by auto
  let ?c = "c\<lparr>modified := True\<rparr>" and ?s = "s2\<lparr>queue := upd_first i (\<lambda>_. c\<lparr>modified := True\<rparr>) (queue s2)\<rparr>"
  have g: "get_mut R off c = Some (x, ?c)"
    using off x a(5) c by (simp add: get_mut_def addr_of_offset_def entry_ok_def)
  have "entry_ok contents nblocks (device s2) i ?c" using c by (simp add: entry_ok_def)
  from st_upd_entry [OF a(4) a(3), of "\<lambda>_. ?c", OF this] have "st (H(i \<mapsto> True)) v ?s"
    using c a(5) by simp
  from f [OF this] obtain x' r s3 v' where s3: "f x ?s = Some (x', r, s3)" "st (H(i \<mapsto> True)) v' s3"
    and fits: "off + length (to_mem R x') \<le> BLOCK_SZ" and P: "P x' r v'" by blast
  from st_heldD [OF s3(2), of i True] obtain c3 where
    c3: "map_of (queue s3) i = Some c3" "locked c3" "modified c3" "cache c3 = v' i"
      "entry_ok contents nblocks (device s3) i c3" by auto
  let ?s4 = "s3\<lparr>queue := upd_first i (put_mut R off x') (queue s3)\<rparr>"
  have "entry_ok contents nblocks (device s3) i (put_mut R off x' c3)"
    using c3 fits by (simp add: entry_ok_def put_mut_def)
  from st_upd_entry [OF s3(2) c3(1), of "put_mut R off x'", OF this]
  have "st (H(i \<mapsto> True)) (v'(i := splice_at off (to_mem R x') (v' i))) ?s4"
    using c3 by (simp add: put_mut_def)
  from release_ok [OF this i(2)]
  have "cache_modify bd R i off f s = Some (r, release_cache i ?s4)"
    "st H (v'(i := splice_at off (to_mem R x') (v' i))) (release_cache i ?s4)"
    using a g s3(1) by (auto simp: cache_modify_def Let_def)
  with P show ?thesis by blast
qed

lemma cache_modify_ok:
  assumes s: "st H v s" and i: "i < nblocks" "i \<notin> dom H" and card: "card (dom H) < BLOCK_CACHE_SIZE"
    and off: "off + size_of R \<le> BLOCK_SZ" "off < BLOCK_SZ"
    and x: "from_mem R (slice_at off (size_of R) (v i)) = Some x"
    and f: "\<And>s1. st (H(i \<mapsto> True)) v s1 \<Longrightarrow> \<exists>s2. f x s1 = Some (x', r, s2) \<and> st (H(i \<mapsto> True)) v' s2"
    and fits: "off + length (to_mem R x') \<le> BLOCK_SZ"
  shows "\<exists>s'. cache_modify bd R i off f s = Some (r, s') \<and>
    st H (v'(i := splice_at off (to_mem R x') (v' i))) s'"
  using cache_modify_exI [OF s i card off x, of f "\<lambda>y q w. y = x' \<and> q = r \<and> w = v'"] f fits by blast

lemma sync_entries_ok:
  assumes "dinv d" "distinct (map fst q)" "\<forall>(k, c) \<in> set q. entry_ok contents nblocks d k c \<and> \<not> locked c"
  shows "\<exists>d'. sync_entries bd q d = Some (map (\<lambda>(k, c). (k, c\<lparr>modified := False\<rparr>)) q, d') \<and> dinv d' \<and>
    contents d' = (\<lambda>i. case map_of q i of Some c \<Rightarrow> cache c | None \<Rightarrow> contents d i)"
  using assms
proof (induction q arbitrary: d)
  case (Cons p q)
  obtain k c where p: "p = (k, c)" by fastforce
  with Cons.prems have ok: "entry_ok contents nblocks d k c" "\<not> locked c" by auto
  from sync_ok [OF Cons.prems(1) ok(1)] obtain d1 where
    d1: "sync bd c d = Some (c\<lparr>modified := False\<rparr>, d1)" "dinv d1"
      "contents d1 = (contents d)(k := cache c)" by blast
  have knot: "k \<notin> fst ` set q" using Cons.prems(2) p by auto
  have "entry_ok contents nblocks d1 j b \<and> \<not> locked b" if "(j, b) \<in> set q" for j b
  proof -
    have "j \<noteq> k" using that knot by (auto simp: image_iff)
    moreover have "entry_ok contents nblocks d j b \<and> \<not> locked b" using that Cons.prems(3) by auto
    ultimately show ?thesis using d1(3) by (simp add: entry_ok_def)
  qed
  with Cons.IH [OF d1(2)] Cons.prems(2) obtain d2 where
    d2: "sync_entries bd q d1 = Some (map (\<lambda>(k, c). (k, c\<lparr>modified := False\<rparr>)) q, d2)" "dinv d2"
      "contents d2 = (\<lambda>i. case map_of q i of Some c \<Rightarrow> cache c | None \<Rightarrow> contents d1 i)" by auto
  have "map_of q k = None" using knot by (simp add: map_of_eq_None_iff)
  then have "contents d2 = (\<lambda>i. case map_of (p # q) i of Some c \<Rightarrow> cache c | None \<Rightarrow> contents d i)"
    using d2(3) d1(3) p by (auto simp: fun_eq_iff split: option.splits)
  with d1 d2 ok p show ?case by auto
qed simp

text \<open>With no block held, syncing all brings every block of the device up to date.\<close>

lemma sync_all_ok:
  assumes s: "st Map.empty v s"
  shows "\<exists>s'. block_cache_sync_all bd s = Some s' \<and> st Map.empty v s' \<and> contents (device s') = v"
proof -
  from s have inv: "inv s" and H: "held s = Map.empty" and v: "view contents s = v"
    by (auto simp: cache_state_def)
  have "entry_ok contents nblocks (device s) k c \<and> \<not> locked c" if "(k, c) \<in> set (queue s)" for k c
  proof -
    have "map_of (queue s) k = Some c" using cache_invD(2) [OF inv] that by simp
    moreover have "held s k = None" using H by simp
    ultimately have "\<not> locked c" by (auto simp: held_def split: if_splits)
    then show ?thesis using cache_invD(4) [OF inv that] by simp
  qed
  with sync_entries_ok [OF cache_invD(1,2) [OF inv]] obtain d' where
    d': "sync_entries bd (queue s) (device s) = Some (map (\<lambda>(k, c). (k, c\<lparr>modified := False\<rparr>)) (queue s), d')"
      "dinv d'" and c: "contents d' = view contents s"
    by (auto simp: view_def fun_eq_iff)
  let ?s = "\<lparr>queue = map (\<lambda>(k, c). (k, c\<lparr>modified := False\<rparr>)) (queue s), device = d'\<rparr>"
  have mo: "map_of (queue ?s) = (\<lambda>i. map_option (\<lambda>c. c\<lparr>modified := False\<rparr>) (map_of (queue s) i))"
    by (simp add: map_of_map comp_def)
  have "entry_ok contents nblocks d' k (b\<lparr>modified := False\<rparr>)" if "(k, b) \<in> set (queue s)" for k b
  proof -
    have "map_of (queue s) k = Some b" using cache_invD(2) [OF inv] that by simp
    then show ?thesis using cache_invD(4) [OF inv that] c by (simp add: entry_ok_def view_def)
  qed
  moreover have "map (fst \<circ> (\<lambda>(k, c). (k, c\<lparr>modified := False\<rparr>))) (queue s) = map fst (queue s)"
    by (simp add: comp_def split_def)
  ultimately have "inv ?s"
    using inv d'(2) by (auto simp: cache_inv_def simp del: map_eq_conv)
  moreover have "held ?s = Map.empty"
  proof
    fix i
    have "held s i = None" using H by simp
    then show "held ?s i = Map.empty i"
      unfolding held_def mo by (auto split: option.splits if_splits)
  qed
  moreover have "view contents ?s = v"
    unfolding view_def mo using c
    by (auto simp: fun_eq_iff view_def split: option.splits simp flip: v)
  ultimately have "st Map.empty v ?s" by (simp add: cache_state_def)
  then show ?thesis using d'(1) c v by (auto simp: block_cache_sync_all_def)
qed

lemma new_ok: "dinv d \<Longrightarrow> st Map.empty (contents d) (BlockCacheManager_new d)"
  by (simp add: cache_state_def cache_inv_def BlockCacheManager_new_def held_def view_def fun_eq_iff)

lemma st_length: "st H v s \<Longrightarrow> i < nblocks \<Longrightarrow> length (v i) = BLOCK_SZ"
  unfolding cache_state_def
  by (cases "map_of (queue s) i")
    (auto simp: view_def dev_length cache_invD(1) entry_ok_def [THEN iffD1, OF cache_invD(5)])

end

section \<open>The host file is a block device\<close>

definition file_block :: "bytes \<Rightarrow> nat \<Rightarrow> bytes" where
  "file_block f i = slice_at (i * BLOCK_SZ) BLOCK_SZ f"

lemma block_in_file: "i < n \<Longrightarrow> i * BLOCK_SZ + BLOCK_SZ \<le> n * BLOCK_SZ"
  by (metis Suc_leI add.commute mult_Suc mult_le_mono1)

interpretation bf: block_dev BlockFile file_block "\<lambda>f. length f = n * BLOCK_SZ" n for n
proof
  fix f :: bytes and i
  assume f: "length f = n * BLOCK_SZ" and i: "i < n"
  note fits = block_in_file [OF i]
  then show len: "length (file_block f i) = BLOCK_SZ" using f by (simp add: file_block_def)
  then show "read_block BlockFile i f = Some (file_block f i)"
    by (simp add: BlockFile_def BlockFile_read_block_def file_block_def slice_at_def Let_def)
  fix bs :: bytes
  assume bs: "length bs = BLOCK_SZ"
  let ?f = "splice_at (i * BLOCK_SZ) bs f"
  have "write_block BlockFile i bs f = Some ?f"
    using bs fits f mult_le_mono1 [OF less_imp_le [OF i], of BLOCK_SZ]
    by (simp add: BlockFile_def BlockFile_write_block_def Let_def)
  moreover have "length ?f = n * BLOCK_SZ" using bs fits f by simp
  moreover have "file_block ?f = (file_block f)(i := bs)"
  proof
    fix j
    show "file_block ?f j = ((file_block f)(i := bs)) j"
    proof (cases "j < n")
      case False
      then have "n * BLOCK_SZ \<le> j * BLOCK_SZ" by simp
      then show ?thesis using False i f fits bs by (simp add: file_block_def slice_at_def)
    next
      case True
      note jfits = block_in_file [OF True]
      show ?thesis
      proof (cases "j = i")
        case True
        then show ?thesis using slice_splice_same [of "i * BLOCK_SZ" bs f] bs fits f
          by (simp add: file_block_def)
      next
        case False
        then have "j * BLOCK_SZ + BLOCK_SZ \<le> i * BLOCK_SZ \<or> i * BLOCK_SZ + BLOCK_SZ \<le> j * BLOCK_SZ"
          using block_in_file [of j i] block_in_file [of i j] by linarith
        then show ?thesis using False f bs fits jfits
          by (simp add: file_block_def slice_splice_disjoint)
      qed
    qed
  qed
  ultimately show "\<exists>d'. write_block BlockFile i bs f = Some d' \<and> length d' = n * BLOCK_SZ \<and>
      file_block d' = (file_block f)(i := bs)" by blast
qed

section \<open>The cache refines a plain block store\<close>

text \<open>\<open>DataBlock = [u8; BLOCK_SZ]\<close>, the whole block as bytes.\<close>

definition DataBlock :: "bytes repr" where
  "DataBlock = \<lparr>size_of = BLOCK_SZ, from_mem = Some, to_mem = (\<lambda>b. b)\<rparr>"

interpretation data_repr: mem_repr DataBlock "\<lambda>b. length b = BLOCK_SZ"
  by unfold_locales (auto simp: DataBlock_def)

lemma DataBlock_simps [simp]:
  "size_of DataBlock = BLOCK_SZ" "from_mem DataBlock b = Some b" "to_mem DataBlock b = b"
  by (simp_all add: DataBlock_def)

lemma BLOCK_SZ_pos [simp]: "0 < BLOCK_SZ" "BLOCK_SZ \<noteq> 0"
  by (simp_all add: BLOCK_SZ_def)

text \<open>
  A client of the cache: a sequence of whole-block reads, whole-block writes and syncs, run
  on the cache over a device and on the specification, a plain map from block numbers to
  contents. Both return the blocks read.
\<close>

datatype blk_op = Rd nat | Wr nat bytes | SyncAll

fun cache_run :: "'d block_device \<Rightarrow> blk_op list \<Rightarrow> 'd bcm \<Rightarrow> (bytes list \<times> 'd bcm) option" where
  "cache_run bd [] s = Some ([], s)"
| "cache_run bd (Rd i # ops) s =
     do { (b, s) \<leftarrow> cache_read bd DataBlock i 0 (\<lambda>b s. Some (b, s)) s;
          (bs, s) \<leftarrow> cache_run bd ops s;
          Some (b # bs, s) }"
| "cache_run bd (Wr i b # ops) s =
     do { (_, s) \<leftarrow> cache_modify bd DataBlock i 0 (\<lambda>_ s. Some (b, (), s)) s;
          cache_run bd ops s }"
| "cache_run bd (SyncAll # ops) s =
     do { s \<leftarrow> block_cache_sync_all bd s; cache_run bd ops s }"

fun store_run :: "blk_op list \<Rightarrow> (nat \<Rightarrow> bytes) \<Rightarrow> bytes list \<times> (nat \<Rightarrow> bytes)" where
  "store_run [] v = ([], v)"
| "store_run (Rd i # ops) v = (let (bs, v') = store_run ops v in (v i # bs, v'))"
| "store_run (Wr i b # ops) v = store_run ops (v(i := b))"
| "store_run (SyncAll # ops) v = store_run ops v"

fun op_in_range :: "nat \<Rightarrow> blk_op \<Rightarrow> bool" where
  "op_in_range n (Rd i) = (i < n)"
| "op_in_range n (Wr i b) = (i < n \<and> length b = BLOCK_SZ)"
| "op_in_range n SyncAll = True"

context block_dev
begin

lemma read_block_ok:
  assumes "st H v s" "i < nblocks" "i \<notin> dom H" "card (dom H) < BLOCK_CACHE_SIZE"
  shows "\<exists>s'. cache_read bd DataBlock i 0 (\<lambda>b s. Some (g b, s)) s = Some (g (v i), s') \<and> st H v s'"
  by (rule cache_read_ok [OF assms]) (use st_length [OF assms(1,2)] in auto)

lemma write_block_ok:
  assumes "st H v s" "i < nblocks" "i \<notin> dom H" "card (dom H) < BLOCK_CACHE_SIZE"
    and "length (g (v i)) = BLOCK_SZ"
  shows "\<exists>s'. cache_modify bd DataBlock i 0 (\<lambda>b s. Some (g b, (), s)) s = Some ((), s') \<and>
    st H (v(i := g (v i))) s'"
proof -
  have len: "length (v i) = BLOCK_SZ" by (rule st_length [OF assms(1,2)])
  have "\<exists>s'. cache_modify bd DataBlock i 0 (\<lambda>b s. Some (g b, (), s)) s = Some ((), s') \<and>
      st H (v(i := splice_at 0 (to_mem DataBlock (g (v i))) (v i))) s'"
    by (rule cache_modify_ok [OF assms(1-4)]) (use assms(5) len in auto)
  then show ?thesis using assms(5) len by simp
qed

lemma cache_run_ok:
  assumes "st Map.empty v s" "\<forall>p \<in> set ops. op_in_range nblocks p"
  shows "\<exists>s'. cache_run bd ops s = Some (fst (store_run ops v), s') \<and> st Map.empty (snd (store_run ops v)) s'"
  using assms
proof (induction ops arbitrary: v s)
  case (Cons p ops)
  have room: "card (dom (Map.empty :: nat \<rightharpoonup> bool)) < BLOCK_CACHE_SIZE"
    by (simp add: BLOCK_CACHE_SIZE_def)
  show ?case
  proof (cases p)
    case (Rd i)
    with Cons.prems have i: "i < nblocks" by simp
    from read_block_ok [OF Cons.prems(1) i _ room, of "\<lambda>b. b"] obtain s1 where
      "cache_read bd DataBlock i 0 (\<lambda>b s. Some (b, s)) s = Some (v i, s1)" "st Map.empty v s1" by auto
    then show ?thesis using Cons.IH [of v s1] Cons.prems(2) Rd by (auto simp: Let_def split_def)
  next
    case (Wr i b)
    with Cons.prems have i: "i < nblocks" "length b = BLOCK_SZ" by auto
    from write_block_ok [OF Cons.prems(1) i(1) _ room, of "\<lambda>_. b"] i(2) obtain s1 where
      run: "cache_modify bd DataBlock i 0 (\<lambda>_ s. Some (b, (), s)) s = Some ((), s1)"
      and s1: "st Map.empty (v(i := b)) s1"
      by auto
    have rest: "\<forall>p\<in>set ops. op_in_range nblocks p" using Cons.prems(2) by simp
    from Cons.IH [OF s1 rest] run show ?thesis using Wr by (simp del: fun_upd_apply)
  next
    case SyncAll
    from sync_all_ok [OF Cons.prems(1)] obtain s1 where
      "block_cache_sync_all bd s = Some s1" "st Map.empty v s1" by blast
    then show ?thesis using Cons.IH [of v s1] Cons.prems(2) SyncAll by auto
  qed
qed simp

end

text \<open>
  C14. The block cache is transparent and durable. On a host file of \<open>n\<close> blocks, any
  sequence of in-range block reads, writes and syncs starting with an empty cache never
  panics, returns exactly the blocks a plain block store would return, and syncing at the
  end succeeds and leaves the file holding, block by block, what the store holds. The 16
  cache slots, the eviction of clean and dirty entries and the deferred write-back are
  invisible.
\<close>

theorem cache_refines_store:
  assumes "length f = n * BLOCK_SZ" "\<forall>p \<in> set ops. op_in_range n p"
  shows "\<exists>s s'. cache_run BlockFile ops (BlockCacheManager_new f) = Some (fst (store_run ops (file_block f)), s) \<and>
    block_cache_sync_all BlockFile s = Some s' \<and>
    file_block (device s') = snd (store_run ops (file_block f))"
proof -
  from bf.new_ok [of f n] assms(1)
  have "cache_state file_block (\<lambda>f. length f = n * BLOCK_SZ) n Map.empty (file_block f) (BlockCacheManager_new f)"
    by simp
  from bf.cache_run_ok [OF this assms(2)] obtain s where
    s: "cache_run BlockFile ops (BlockCacheManager_new f) = Some (fst (store_run ops (file_block f)), s)"
      "cache_state file_block (\<lambda>f. length f = n * BLOCK_SZ) n Map.empty (snd (store_run ops (file_block f))) s"
    by blast
  from bf.sync_all_ok [OF s(2)] s(1) show ?thesis by blast
qed

theorem cache_refines_store_witness:
  "\<exists>s s'. cache_run BlockFile [Wr 1 (replicate BLOCK_SZ 7), Rd 1, Rd 0] (BlockCacheManager_new (replicate (2 * BLOCK_SZ) 0)) =
      Some (fst (store_run [Wr 1 (replicate BLOCK_SZ 7), Rd 1, Rd 0] (file_block (replicate (2 * BLOCK_SZ) 0))), s) \<and>
    block_cache_sync_all BlockFile s = Some s' \<and>
    file_block (device s') =
      snd (store_run [Wr 1 (replicate BLOCK_SZ 7), Rd 1, Rd 0] (file_block (replicate (2 * BLOCK_SZ) 0)))"
  by (rule cache_refines_store [where n = 2]) simp_all

text \<open>
  The cache runs out only when all 16 entries are held: with a full queue in which
  every entry is locked by some client, asking for a block that is not cached panics, and
  with fewer than 16 blocks held, every block of the device that is not itself held can be
  taken and locked.
\<close>

theorem cache_exhaustion:
  assumes "cache_inv file_block (\<lambda>f. length f = n * BLOCK_SZ) n s"
  shows "(map_of (queue s) i = None \<and> card (dom (held s)) = BLOCK_CACHE_SIZE \<longrightarrow> get_block_cache BlockFile i s = None) \<and>
    (i < n \<and> i \<notin> dom (held s) \<and> card (dom (held s)) < BLOCK_CACHE_SIZE \<longrightarrow>
      (\<exists>s1 s2. get_block_cache BlockFile i s = Some s1 \<and> lock_cache i s1 = Some s2))"
proof (intro conjI impI)
  assume h: "map_of (queue s) i = None \<and> card (dom (held s)) = BLOCK_CACHE_SIZE"
  note inv = cache_invD [OF assms]
  have "BLOCK_CACHE_SIZE \<le> card (fst ` set (queue s))"
    using h card_mono [OF _ dom_held_subset [of s]] by simp
  also have "\<dots> = length (queue s)"
    using distinct_card [OF inv(2)] by simp
  finally have full: "length (queue s) = BLOCK_CACHE_SIZE" using inv(3) by simp
  have "card (fst ` set (queue s)) = card (dom (held s))"
    using distinct_card [OF inv(2)] full h by simp
  then have eq: "dom (held s) = fst ` set (queue s)"
    using card_subset_eq [OF _ dom_held_subset [of s]] by simp
  have "strong_count (snd p) \<noteq> 1" if p: "p \<in> set (queue s)" for p
  proof -
    obtain k c where kc: "p = (k, c)" by fastforce
    have "k \<in> dom (held s)" unfolding eq using p kc by force
    then have "locked c"
      using p kc inv(2) by (auto simp: held_def split: if_splits)
    then show ?thesis using inv(4) [of k c] p kc by (simp add: entry_ok_def)
  qed
  then have "find_index (\<lambda>p. strong_count (snd p) = 1) (queue s) = None"
    by (simp add: find_index_None_iff)
  then have "substitute BlockFile s = None" using full by (simp add: substitute_def)
  then show "get_block_cache BlockFile i s = None"
    using h by (simp add: get_block_cache_def find_index_key_None [THEN iffD2])
next
  assume h: "i < n \<and> i \<notin> dom (held s) \<and> card (dom (held s)) < BLOCK_CACHE_SIZE"
  have "cache_state file_block (\<lambda>f. length f = n * BLOCK_SZ) n (held s) (view file_block s) s"
    using assms by (simp add: cache_state_def)
  from bf.acquire_ok [OF this] h show "\<exists>s1 s2. get_block_cache BlockFile i s = Some s1 \<and> lock_cache i s1 = Some s2"
    by blast
qed

theorem cache_exhaustion_witness:
  "let s = BlockCacheManager_new (replicate BLOCK_SZ (0 :: u8)) in
    (map_of (queue s) 0 = None \<and> card (dom (held s)) = BLOCK_CACHE_SIZE \<longrightarrow> get_block_cache BlockFile 0 s = None) \<and>
    (0 < (1 :: nat) \<and> 0 \<notin> dom (held s) \<and> card (dom (held s)) < BLOCK_CACHE_SIZE \<longrightarrow>
      (\<exists>s1 s2. get_block_cache BlockFile 0 s = Some s1 \<and> lock_cache 0 s1 = Some s2))"
  unfolding Let_def
  by (rule cache_exhaustion [where n = 1]) (simp add: cache_inv_def BlockCacheManager_new_def)

end
