(* ===== verification/Bitmap.thy ===== *)
theory Bitmap
  imports BlockCache
begin

text \<open>
  \<^verbatim>\<open>easy-fs/src/bitmap.rs\<close>: allocation bitmaps stored in consecutive blocks of the disk.
  The abstract bitmap is the predicate \<open>bit_set\<close> (which bits are taken); \<open>alloc\<close> takes the
  least free bit or reports that there is none, \<open>dealloc\<close> frees a taken bit and panics on a
  free one, and both leave every other bit and every other block alone.
\<close>

unbundle bit_operations_syntax

section \<open>The model\<close>

definition BLOCK_BITS :: nat where "BLOCK_BITS = BLOCK_SZ * 8"

text \<open>\<open>BitmapBlock = [u64; 64]\<close>.\<close>

definition BitmapBlock :: "u64 list repr" where
  "BitmapBlock = \<lparr>size_of = 512, from_mem = (\<lambda>bs. Some (decode_array 8 64 bs)), to_mem = encode_array 8\<rparr>"

record bitmap =
  start_block_id :: nat
  blocks :: nat

definition Bitmap_new :: "nat \<Rightarrow> nat \<Rightarrow> bitmap" where
  "Bitmap_new start n = \<lparr>start_block_id = start, blocks = n\<rparr>"

text \<open>\<open>u64::trailing_ones\<close>.\<close>

definition trailing_ones :: "u64 \<Rightarrow> nat" where
  "trailing_ones w = length (takeWhile (bit w) [0..<64])"

text \<open>The closure of \<open>alloc\<close> on one bitmap block; \<open>-1\<close> is \<open>u64::MAX\<close>.\<close>

definition alloc_in_block :: "nat \<Rightarrow> u64 list \<Rightarrow> u64 list \<times> nat option" where
  "alloc_in_block bid bitmap_block =
     (case find_index (\<lambda>bits64. bits64 \<noteq> -1) bitmap_block of
        Some bits64_pos \<Rightarrow>
          (let inner_pos = trailing_ones (bitmap_block ! bits64_pos)
           in (bitmap_block[bits64_pos := bitmap_block ! bits64_pos OR push_bit inner_pos 1],
               Some (bid * BLOCK_BITS + bits64_pos * 64 + inner_pos)))
      | None \<Rightarrow> (bitmap_block, None))"

fun alloc_loop :: "'d block_device \<Rightarrow> bitmap \<Rightarrow> nat list \<Rightarrow> 'd bcm \<Rightarrow> (nat option \<times> 'd bcm) option" where
  "alloc_loop bd bm [] s = Some (None, s)"
| "alloc_loop bd bm (bid # bids) s =
     do { (pos, s) \<leftarrow> cache_modify bd BitmapBlock (bid + start_block_id bm) 0
            (\<lambda>bb s. case alloc_in_block bid bb of (bb, r) \<Rightarrow> Some (bb, r, s)) s;
          if pos \<noteq> None then Some (pos, s) else alloc_loop bd bm bids s }"

definition bitmap_alloc :: "'d block_device \<Rightarrow> bitmap \<Rightarrow> 'd bcm \<Rightarrow> (nat option \<times> 'd bcm) option" where
  "bitmap_alloc bd bm s = alloc_loop bd bm [0..<blocks bm] s"

text \<open>\<open>(block_pos, bits64_pos, inner_pos)\<close>\<close>

definition decomposition :: "nat \<Rightarrow> nat \<times> nat \<times> nat" where
  "decomposition b = (let block_pos = b div BLOCK_BITS; b = b mod BLOCK_BITS in (block_pos, b div 64, b mod 64))"

definition bitmap_dealloc :: "'d block_device \<Rightarrow> bitmap \<Rightarrow> nat \<Rightarrow> 'd bcm \<Rightarrow> (unit \<times> 'd bcm) option" where
  "bitmap_dealloc bd bm b s =
     (let (block_pos, bits64_pos, inner_pos) = decomposition b
      in cache_modify bd BitmapBlock (start_block_id bm + block_pos) 0
           (\<lambda>bb s. do { assert_that (0 < (bb ! bits64_pos AND push_bit inner_pos 1));
                        Some (bb[bits64_pos := bb ! bits64_pos - push_bit inner_pos 1], (), s) }) s)"

definition bitmap_maximum :: "bitmap \<Rightarrow> nat" where
  "bitmap_maximum bm = blocks bm * BLOCK_BITS"

section \<open>Words\<close>

lemma not_full_word: "(w :: u64) \<noteq> -1 \<longleftrightarrow> (\<exists>i<64. \<not> bit w i)"
  by (auto simp: bit_eq_iff)

lemma trailing_ones_spec:
  assumes "(w :: u64) \<noteq> -1"
  shows "trailing_ones w < 64" "\<not> bit w (trailing_ones w)" "j < trailing_ones w \<Longrightarrow> bit w j"
proof -
  let ?t = "takeWhile (bit w) [0..<64]"
  have "length ?t \<noteq> 64"
  proof
    assume "length ?t = 64"
    then have "?t = [0..<64]"
      by (metis diff_zero length_upt takeWhile_eq_take take_all order_refl)
    then have "\<forall>i<64. bit w i"
      by (metis atLeastLessThan_iff set_takeWhileD set_upt zero_le)
    with assms show False unfolding not_full_word by blast
  qed
  moreover have "length ?t \<le> 64"
    using length_takeWhile_le [of "bit w" "[0..<64]"] by simp
  ultimately show lt: "trailing_ones w < 64" by (simp add: trailing_ones_def)
  have "\<not> bit w ([0..<64] ! length ?t)"
    using lt by (intro nth_length_takeWhile) (simp add: trailing_ones_def)
  then show "\<not> bit w (trailing_ones w)"
    using lt by (simp add: trailing_ones_def)
  assume j: "j < trailing_ones w"
  then have "?t ! j = j"
    using lt by (simp add: takeWhile_nth trailing_ones_def)
  moreover have "?t ! j \<in> set ?t" using j by (simp add: trailing_ones_def)
  ultimately show "bit w j" by (metis set_takeWhileD)
qed

lemma bit_set_one: "t < 64 \<Longrightarrow> bit ((w :: u64) OR push_bit t 1) j \<longleftrightarrow> bit w j \<or> j = t"
  by (auto simp: bit_simps)

lemma and_one_pos: "t < 64 \<Longrightarrow> 0 < ((w :: u64) AND push_bit t 1) \<longleftrightarrow> bit w t"
proof -
  assume t: "t < 64"
  have "(w AND push_bit t 1 = 0) \<longleftrightarrow> \<not> bit w t"
  proof
    assume "w AND push_bit t 1 = 0"
    then have "\<not> bit (w AND push_bit t 1) t" by simp
    then show "\<not> bit w t" using t by (simp add: bit_simps)
  next
    assume "\<not> bit w t"
    then show "w AND push_bit t 1 = 0" by (intro bit_word_eqI) (auto simp: bit_simps)
  qed
  then show ?thesis by (simp add: word_greater_zero_iff)
qed

lemma bit_minus_one:
  assumes "t < 64" "bit (w :: u64) t"
  shows "bit (w - push_bit t 1) j \<longleftrightarrow> bit w j \<and> j \<noteq> t"
proof -
  let ?u = "unset_bit t w"
  have "?u AND push_bit t 1 = 0" by (rule bit_eqI) (auto simp: bit_simps)
  then have "?u + push_bit t 1 = ?u OR push_bit t 1"
    by (simp add: disjunctive_add_eq_or)
  also have "\<dots> = w" using assms by (intro bit_eqI) (auto simp: bit_simps)
  finally have "w - push_bit t 1 = ?u" by (simp add: algebra_simps)
  then show ?thesis by (auto simp: bit_simps)
qed

section \<open>The abstract bitmap\<close>

definition word_bit :: "u64 list \<Rightarrow> nat \<Rightarrow> bool" where
  "word_bit bb j = bit (bb ! (j div 64)) (j mod 64)"

definition bit_set :: "(nat \<Rightarrow> bytes) \<Rightarrow> bitmap \<Rightarrow> nat \<Rightarrow> bool" where
  "bit_set v bm b = word_bit (decode_array 8 64 (v (start_block_id bm + b div BLOCK_BITS))) (b mod BLOCK_BITS)"

definition first_free :: "(nat \<Rightarrow> bytes) \<Rightarrow> bitmap \<Rightarrow> nat option" where
  "first_free v bm = find (\<lambda>b. \<not> bit_set v bm b) [0..<bitmap_maximum bm]"

text \<open>The disk with one bit of the bitmap set or cleared.\<close>

definition upd_word :: "(u64 \<Rightarrow> u64) \<Rightarrow> (nat \<Rightarrow> bytes) \<Rightarrow> bitmap \<Rightarrow> nat \<Rightarrow> nat \<Rightarrow> bytes" where
  "upd_word g v bm b =
     (let blk = start_block_id bm + b div BLOCK_BITS; bb = decode_array 8 64 (v blk); p = b mod BLOCK_BITS div 64
      in v(blk := encode_array 8 (bb[p := g (bb ! p)])))"

definition mark_bit :: "(nat \<Rightarrow> bytes) \<Rightarrow> bitmap \<Rightarrow> nat \<Rightarrow> nat \<Rightarrow> bytes" where
  "mark_bit v bm b = upd_word (\<lambda>w. w OR push_bit (b mod 64) 1) v bm b"

definition unmark_bit :: "(nat \<Rightarrow> bytes) \<Rightarrow> bitmap \<Rightarrow> nat \<Rightarrow> nat \<Rightarrow> bytes" where
  "unmark_bit v bm b = upd_word (\<lambda>w. w - push_bit (b mod 64) 1) v bm b"

lemma BLOCK_BITS_simps [simp]: "BLOCK_BITS = 4096" "BLOCK_BITS div 64 = 64"
  by (simp_all add: BLOCK_BITS_def BLOCK_SZ_def)

lemma mod_BLOCK_BITS_mod: "b mod 4096 mod 64 = b mod (64 :: nat)"
  by (simp add: mod_mod_cancel)

lemma word_bit_update:
  assumes "length bb = 64" "j < 4096" "i < 4096"
  shows "word_bit (bb[j div 64 := w]) i =
    (if i div 64 = j div 64 then bit w (i mod 64) else word_bit bb i)"
  using assms by (auto simp: word_bit_def nth_list_update)

lemma bit_set_upd_word:
  assumes g: "\<And>i. i < 64 \<Longrightarrow> bit (g (decode_array 8 64 (v (start_block_id bm + b div BLOCK_BITS)) ! (b mod BLOCK_BITS div 64))) i =
      P (bit ((decode_array 8 64 (v (start_block_id bm + b div BLOCK_BITS)) :: u64 list) ! (b mod BLOCK_BITS div 64)) i) (i = b mod 64)"
    and P: "\<And>x. P x False = x"
  shows "bit_set (upd_word g v bm b) bm i = P (bit_set v bm i) (i = b)"
proof (cases "i div 4096 = b div 4096")
  case False
  then have "i \<noteq> b" by auto
  with False P show ?thesis by (simp add: bit_set_def upd_word_def Let_def)
next
  case True
  let ?bb = "decode_array 8 64 (v (start_block_id bm + b div 4096)) :: u64 list"
  let ?p = "b mod 4096 div 64"
  have new: "bit_set (upd_word g v bm b) bm i = word_bit (?bb[?p := g (?bb ! ?p)]) (i mod 4096)"
    using True by (simp add: bit_set_def upd_word_def Let_def)
  have old: "bit_set v bm i = word_bit ?bb (i mod 4096)" using True by (simp add: bit_set_def)
  show ?thesis
  proof (cases "i mod 4096 div 64 = ?p")
    case False
    then have "i \<noteq> b" by auto
    with False P show ?thesis unfolding new old by (simp add: word_bit_update)
  next
    case same: True
    have "i = b \<longleftrightarrow> i mod 64 = b mod 64"
    proof
      assume m: "i mod 64 = b mod 64"
      have "i mod 4096 = b mod 4096"
        using m same by (metis div_mult_mod_eq mod_BLOCK_BITS_mod)
      with True show "i = b" by (metis div_mult_mod_eq)
    qed simp
    moreover have "bit (g (?bb ! ?p)) (i mod 64) = P (bit (?bb ! ?p) (i mod 64)) (i mod 64 = b mod 64)"
      using g [of "i mod 64"] by simp
    ultimately show ?thesis
      unfolding new old by (simp add: word_bit_update same word_bit_def mod_BLOCK_BITS_mod)
  qed
qed

lemma bit_set_mark_bit [simp]: "bit_set (mark_bit v bm b) bm i \<longleftrightarrow> bit_set v bm i \<or> i = b"
  unfolding mark_bit_def
  by (rule bit_set_upd_word [where P = "\<lambda>x y. x \<or> y"]) (auto simp: bit_set_one simp del: push_bit_of_1)

lemma bit_set_unmark_bit:
  assumes "bit_set v bm b"
  shows "bit_set (unmark_bit v bm b) bm i \<longleftrightarrow> bit_set v bm i \<and> i \<noteq> b"
  unfolding unmark_bit_def
  by (rule bit_set_upd_word [where P = "\<lambda>x y. x \<and> \<not> y"])
    (use assms in \<open>auto simp: bit_minus_one bit_set_def word_bit_def mod_BLOCK_BITS_mod simp del: push_bit_of_1\<close>)

lemma length_upd_word:
  "length (v blk) = BLOCK_SZ \<Longrightarrow> length (upd_word g v bm b blk) = BLOCK_SZ"
  by (simp add: upd_word_def Let_def BLOCK_SZ_def)

section \<open>One block\<close>

lemma alloc_in_block_full:
  assumes "length bb = 64" "\<forall>j<4096. word_bit bb j"
  shows "alloc_in_block bid bb = (bb, None)"
proof -
  have "w = -1" if w: "w \<in> set bb" for w
  proof (rule ccontr)
    assume "w \<noteq> -1"
    then obtain i where i: "i < 64" "\<not> bit w i" by (auto simp: not_full_word)
    from w obtain p where p: "p < 64" "w = bb ! p" using assms(1) by (auto simp: in_set_conv_nth)
    have "p * 64 + i < 4096" using p i by simp
    then have "word_bit bb (p * 64 + i)" using assms(2) by blast
    with i p show False by (simp add: word_bit_def)
  qed
  then have "find_index (\<lambda>w. w \<noteq> -1) bb = None" by (auto simp: find_index_None_iff)
  then show ?thesis by (simp add: alloc_in_block_def)
qed

lemma alloc_in_block_free:
  assumes len: "length bb = 64" and j: "j < 4096" "\<not> word_bit bb j" "\<forall>i<j. word_bit bb i"
  shows "alloc_in_block bid bb = (bb[j div 64 := bb ! (j div 64) OR push_bit (j mod 64) 1], Some (bid * 4096 + j))"
proof -
  have full: "bb ! p = -1" if p: "p < j div 64" for p
  proof (rule ccontr)
    assume "bb ! p \<noteq> -1"
    then obtain i where i: "i < 64" "\<not> bit (bb ! p) i" by (auto simp: not_full_word)
    have "p * 64 + i < (j div 64) * 64" using p i
      by (metis Suc_leI add_less_cancel_left mult_Suc order_less_le_trans mult_le_mono1 add.commute)
    then have "p * 64 + i < j" by (metis div_times_less_eq_dividend order_less_le_trans)
    then have "word_bit bb (p * 64 + i)" using j(3) by blast
    with i show False by (simp add: word_bit_def)
  qed
  have nf: "bb ! (j div 64) \<noteq> -1" using j(2) by (auto simp: word_bit_def)
  have fi: "find_index (\<lambda>w. w \<noteq> -1) bb = Some (j div 64)"
    by (rule find_index_eqI) (use len j nf full in auto)
  note t = trailing_ones_spec [OF nf]
  have "trailing_ones (bb ! (j div 64)) = j mod 64"
  proof (rule linorder_cases)
    assume lt: "trailing_ones (bb ! (j div 64)) < j mod 64"
    then have "(j div 64) * 64 + trailing_ones (bb ! (j div 64)) < j"
      by (metis add_less_cancel_left div_mult_mod_eq)
    then have "word_bit bb ((j div 64) * 64 + trailing_ones (bb ! (j div 64)))" using j(3) by blast
    then show ?thesis using t(1,2) by (simp add: word_bit_def)
  next
    assume "j mod 64 < trailing_ones (bb ! (j div 64))"
    then show ?thesis using t(3) j(2) by (simp add: word_bit_def)
  qed
  then show ?thesis using fi by (simp add: alloc_in_block_def Let_def)
qed

section \<open>The operations refine the abstract bitmap\<close>

lemma find_append_eq: "find P (xs @ ys) = (case find P xs of None \<Rightarrow> find P ys | Some x \<Rightarrow> Some x)"
  by (induction xs) auto

lemma find_upt_skip:
  "(\<And>i. a \<le> i \<Longrightarrow> i < m \<Longrightarrow> \<not> P i) \<Longrightarrow> a \<le> m \<Longrightarrow> m \<le> c \<Longrightarrow> find P [a..<c] = find P [m..<c]"
proof -
  assume h: "\<And>i. a \<le> i \<Longrightarrow> i < m \<Longrightarrow> \<not> P i" and le: "a \<le> m" "m \<le> c"
  from le have "[a..<c] = [a..<m] @ [m..<c]" by (metis le_add_diff_inverse upt_add_eq_append)
  moreover have "find P [a..<m] = None" using h by (auto simp: find_None_iff)
  ultimately show ?thesis by (simp add: find_append_eq)
qed

lemma find_upt_eqI:
  "a \<le> b \<Longrightarrow> b < c \<Longrightarrow> P b \<Longrightarrow> (\<And>i. a \<le> i \<Longrightarrow> i < b \<Longrightarrow> \<not> P i) \<Longrightarrow> find P [a..<c] = Some b"
  by (subst find_upt_skip [where m = b]) (auto simp: upt_conv_Cons)

lemma upd_word_eq:
  assumes "j < 4096"
  shows "upd_word g v bm (k * 4096 + j) =
    v(start_block_id bm + k := encode_array 8 ((decode_array 8 64 (v (start_block_id bm + k)))
      [j div 64 := g (decode_array 8 64 (v (start_block_id bm + k)) ! (j div 64))]))"
  using assms by (simp add: upd_word_def Let_def)

context block_dev
begin

lemma bitmap_block_ok:
  assumes s: "st H v s" and i: "i < nblocks" "i \<notin> dom H" and card: "card (dom H) < BLOCK_CACHE_SIZE"
    and f: "\<And>s. f (decode_array 8 64 (v i)) s = Some (bb, r, s)" and len: "length bb = 64"
  shows "\<exists>s'. cache_modify bd BitmapBlock i 0 f s = Some (r, s') \<and> st H (v(i := encode_array 8 bb)) s'"
proof -
  have l: "length (v i) = 512" using st_length [OF s i(1)] by (simp add: BLOCK_SZ_def)
  have "\<exists>s'. cache_modify bd BitmapBlock i 0 f s = Some (r, s') \<and>
      st H (v(i := splice_at 0 (to_mem BitmapBlock bb) (v i))) s'"
    by (rule cache_modify_ok [OF s i card, where x = "decode_array 8 64 (v i)"])
      (use f l len in \<open>auto simp: BitmapBlock_def BLOCK_SZ_def\<close>)
  then show ?thesis using l len by (simp add: BitmapBlock_def)
qed

lemma alloc_loop_ok:
  assumes "st H v s" "card (dom H) < BLOCK_CACHE_SIZE" "k \<le> n"
    and "\<And>i. i < n \<Longrightarrow> start_block_id bm + i < nblocks \<and> start_block_id bm + i \<notin> dom H"
  shows "let r = find (\<lambda>b. \<not> bit_set v bm b) [k * 4096..<n * 4096]
    in \<exists>s'. alloc_loop bd bm [k..<n] s = Some (r, s') \<and>
      st H (case r of None \<Rightarrow> v | Some b \<Rightarrow> mark_bit v bm b) s'"
  using assms
proof (induction "n - k" arbitrary: k s)
  case 0
  then show ?case by (simp add: Let_def)
next
  case (Suc m)
  then have kn: "k < n" by simp
  let ?i = "start_block_id bm + k"
  let ?bb = "decode_array 8 64 (v ?i) :: u64 list"
  let ?f = "\<lambda>bb s. case alloc_in_block k bb of (bb, r) \<Rightarrow> Some (bb, r, s)"
  have i: "?i < nblocks" "?i \<notin> dom H" using Suc.prems(4) [OF kn] by auto
  have unfold: "[k..<n] = k # [Suc k..<n]" using kn by (simp add: upt_conv_Cons)
  have bits: "bit_set v bm (k * 4096 + j) = word_bit ?bb j" if "j < 4096" for j
    using that by (simp add: bit_set_def)
  show ?case
  proof (cases "\<forall>j<4096. word_bit ?bb j")
    case True
    have "alloc_in_block k ?bb = (?bb, None)" by (rule alloc_in_block_full) (use True in auto)
    then have f: "?f ?bb s = Some (?bb, None, s)" for s :: "'d bcm" by simp
    have "\<exists>s'. cache_modify bd BitmapBlock ?i 0 ?f s = Some (None, s') \<and> st H (v(?i := encode_array 8 ?bb)) s'"
      by (rule bitmap_block_ok [OF Suc.prems(1) i Suc.prems(2)]) (use f in simp_all)
    then obtain s1 where
      s1: "cache_modify bd BitmapBlock ?i 0 ?f s = Some (None, s1)" "st H (v(?i := encode_array 8 ?bb)) s1" by blast
    have "encode_array 8 ?bb = v ?i"
      using st_length [OF Suc.prems(1) i(1)] by (simp add: BLOCK_SZ_def)
    with s1(2) have s1': "st H v s1" by simp
    have skip: "find (\<lambda>b. \<not> bit_set v bm b) [k * 4096..<n * 4096] = find (\<lambda>b. \<not> bit_set v bm b) [Suc k * 4096..<n * 4096]"
    proof (rule find_upt_skip)
      fix b assume "k * 4096 \<le> b" "b < Suc k * 4096"
      then obtain j where "b = k * 4096 + j" "j < 4096" by (auto simp: le_iff_add)
      with True bits show "\<not> \<not> bit_set v bm b" by simp
    qed (use kn in auto)
    have "alloc_loop bd bm [k..<n] s = alloc_loop bd bm [Suc k..<n] s1"
      using s1(1) by (simp add: unfold add.commute)
    moreover have "m = n - Suc k" "Suc k \<le> n" using Suc.hyps(2) kn by simp_all
    note Suc.hyps(1) [OF this(1) s1' Suc.prems(2) this(2) Suc.prems(4), simplified Let_def]
    ultimately show ?thesis unfolding skip Let_def by simp
  next
    case False
    then have "\<exists>j. j < 4096 \<and> \<not> word_bit ?bb j" by blast
    then obtain j where "j < 4096 \<and> \<not> word_bit ?bb j" "\<forall>i<j. \<not> (i < 4096 \<and> \<not> word_bit ?bb i)"
      by (subst (asm) exists_least_iff) blast
    then have j: "j < 4096" "\<not> word_bit ?bb j" "\<forall>i<j. word_bit ?bb i" by auto
    let ?bb' = "?bb[j div 64 := ?bb ! (j div 64) OR push_bit (j mod 64) 1]"
    have f: "?f ?bb s = Some (?bb', Some (k * 4096 + j), s)" for s :: "'d bcm"
      using alloc_in_block_free [OF _ j] by simp
    have "\<exists>s'. cache_modify bd BitmapBlock ?i 0 ?f s = Some (Some (k * 4096 + j), s') \<and>
        st H (v(?i := encode_array 8 ?bb')) s'"
      by (rule bitmap_block_ok [OF Suc.prems(1) i Suc.prems(2)]) (use f in \<open>simp_all del: push_bit_of_1\<close>)
    then obtain s1 where
      s1: "cache_modify bd BitmapBlock ?i 0 ?f s = Some (Some (k * 4096 + j), s1)"
        "st H (v(?i := encode_array 8 ?bb')) s1" by blast
    have "find (\<lambda>b. \<not> bit_set v bm b) [k * 4096..<n * 4096] = Some (k * 4096 + j)"
    proof (rule find_upt_eqI)
      have "Suc k * 4096 \<le> n * 4096" using kn by (intro mult_le_mono1) simp
      then show "k * 4096 + j < n * 4096" using j(1) by simp
      show "\<not> bit_set v bm (k * 4096 + j)" using j bits by simp
      fix b assume "k * 4096 \<le> b" "b < k * 4096 + j"
      then obtain i where "b = k * 4096 + i" "i < j" by (auto simp: le_iff_add)
      with j bits show "\<not> \<not> bit_set v bm b" by simp
    qed simp
    moreover have "mark_bit v bm (k * 4096 + j) = v(?i := encode_array 8 ?bb')"
    proof -
      have "(j + (k * 64) * 64) mod 64 = j mod 64" by (rule mod_mult_self1)
      then have "(k * 4096 + j) mod 64 = j mod 64" by (simp add: ac_simps)
      then show ?thesis using upd_word_eq [OF j(1)] by (simp add: mark_bit_def)
    qed
    ultimately show ?thesis using s1 by (simp add: unfold add.commute Let_def)
  qed
qed

lemma bitmap_alloc_ok:
  assumes "st H v s" "card (dom H) < BLOCK_CACHE_SIZE"
    and "\<And>i. i < blocks bm \<Longrightarrow> start_block_id bm + i < nblocks \<and> start_block_id bm + i \<notin> dom H"
  shows "\<exists>s'. bitmap_alloc bd bm s = Some (first_free v bm, s') \<and>
    st H (case first_free v bm of None \<Rightarrow> v | Some b \<Rightarrow> mark_bit v bm b) s'"
  using alloc_loop_ok [OF assms(1,2), of 0 "blocks bm"] assms(3)
  by (simp add: bitmap_alloc_def first_free_def bitmap_maximum_def Let_def)

lemma bitmap_dealloc_ok:
  assumes "st H v s" "card (dom H) < BLOCK_CACHE_SIZE" "b < bitmap_maximum bm" "bit_set v bm b"
    and "\<And>i. i < blocks bm \<Longrightarrow> start_block_id bm + i < nblocks \<and> start_block_id bm + i \<notin> dom H"
  shows "\<exists>s'. bitmap_dealloc bd bm b s = Some ((), s') \<and> st H (unmark_bit v bm b) s'"
proof -
  let ?i = "start_block_id bm + b div 4096" and ?j = "b mod 4096"
  let ?bb = "decode_array 8 64 (v ?i) :: u64 list"
  let ?bb' = "?bb[?j div 64 := ?bb ! (?j div 64) - push_bit (b mod 64) 1]"
  have "b div 4096 < blocks bm" using assms(3) by (simp add: bitmap_maximum_def less_mult_imp_div_less)
  then have i: "?i < nblocks" "?i \<notin> dom H" using assms(5) by auto
  have "bit (?bb ! (?j div 64)) (b mod 64)"
    using assms(4) by (simp add: bit_set_def word_bit_def mod_BLOCK_BITS_mod)
  then have "assert_that (0 < (?bb ! (?j div 64) AND push_bit (b mod 64) 1)) = Some ()"
    by (simp add: and_one_pos del: push_bit_of_1)
  then have "\<exists>s'. cache_modify bd BitmapBlock ?i 0
      (\<lambda>bb s. do { assert_that (0 < (bb ! (?j div 64) AND push_bit (b mod 64) 1));
                   Some (bb[?j div 64 := bb ! (?j div 64) - push_bit (b mod 64) 1], (), s) }) s = Some ((), s') \<and>
      st H (v(?i := encode_array 8 ?bb')) s'"
    by (intro bitmap_block_ok [OF assms(1) i assms(2)]) (simp_all del: push_bit_of_1)
  then show ?thesis
    by (simp add: bitmap_dealloc_def decomposition_def unmark_bit_def upd_word_def mod_BLOCK_BITS_mod Let_def
        del: push_bit_of_1)
qed


text \<open>Deallocating a bit that is free fails the assertion, whatever the cache does first.\<close>

lemma bitmap_dealloc_free:
  assumes "st H v s" "card (dom H) < BLOCK_CACHE_SIZE" "b < bitmap_maximum bm" "\<not> bit_set v bm b"
    and "\<And>i. i < blocks bm \<Longrightarrow> start_block_id bm + i < nblocks \<and> start_block_id bm + i \<notin> dom H"
  shows "bitmap_dealloc bd bm b s = None"
proof -
  let ?i = "start_block_id bm + b div 4096" and ?j = "b mod 4096"
  let ?bb = "decode_array 8 64 (v ?i) :: u64 list"
  have "b div 4096 < blocks bm" using assms(3) by (simp add: bitmap_maximum_def less_mult_imp_div_less)
  then have i: "?i < nblocks" "?i \<notin> dom H" using assms(5) by auto
  have "\<not> bit (?bb ! (?j div 64)) (b mod 64)"
    using assms(4) by (simp add: bit_set_def word_bit_def mod_BLOCK_BITS_mod)
  then have free: "assert_that (0 < (?bb ! (?j div 64) AND push_bit (b mod 64) 1)) = None"
    by (simp add: and_one_pos del: push_bit_of_1)
  from acquire_ok [OF assms(1) i assms(2)] obtain s1 s2 c where
    a: "get_block_cache bd ?i s = Some s1" "lock_cache ?i s1 = Some s2"
      "map_of (queue s2) ?i = Some c" "cache c = v ?i" by blast
  have "length (v ?i) = 512" using st_length [OF assms(1) i(1)] by (simp add: BLOCK_SZ_def)
  then have "v ?i \<noteq> []" "get_mut BitmapBlock 0 c = Some (?bb, c\<lparr>modified := True\<rparr>)"
    using a(4) by (auto simp add: get_mut_def addr_of_offset_def BitmapBlock_def BLOCK_SZ_def)
  then show ?thesis
    using a free by (simp add: bitmap_dealloc_def decomposition_def mod_BLOCK_BITS_mod Let_def cache_modify_def
        del: push_bit_of_1)
qed

end

section \<open>Properties\<close>

lemma first_free_cases:
  "case first_free v bm of
     None \<Rightarrow> \<forall>b<bitmap_maximum bm. bit_set v bm b
   | Some b \<Rightarrow> b < bitmap_maximum bm \<and> \<not> bit_set v bm b \<and> (\<forall>c<b. bit_set v bm c)"
  by (auto simp: first_free_def find_None_iff find_Some_iff split: option.splits)

lemma upd_word_other:
  "b < bitmap_maximum bm \<Longrightarrow> i < start_block_id bm \<or> start_block_id bm + blocks bm \<le> i \<Longrightarrow>
   upd_word g v bm b i = v i"
  using less_mult_imp_div_less [of b "blocks bm" 4096]
  by (auto simp: upd_word_def Let_def bitmap_maximum_def)

text \<open>
  \<open>Bitmap::alloc\<close> on a bitmap whose blocks lie on the device returns (it never panics)
  the least free bit and marks exactly that bit as taken, or returns \<open>None\<close> only if every
  bit is taken and then changes nothing. Blocks outside the bitmap keep their contents.
\<close>

theorem bitmap_alloc_spec:
  assumes "cache_state file_block (\<lambda>f. length f = n * BLOCK_SZ) n Map.empty v s"
    and "start_block_id bm + blocks bm \<le> n"
  shows "\<exists>r s' v'. bitmap_alloc BlockFile bm s = Some (r, s') \<and>
    cache_state file_block (\<lambda>f. length f = n * BLOCK_SZ) n Map.empty v' s' \<and>
    (case r of
       None \<Rightarrow> (\<forall>b<bitmap_maximum bm. bit_set v bm b) \<and> v' = v
     | Some b \<Rightarrow> b < bitmap_maximum bm \<and> \<not> bit_set v bm b \<and> (\<forall>c<b. bit_set v bm c) \<and>
         (\<forall>c. bit_set v' bm c \<longleftrightarrow> bit_set v bm c \<or> c = b)) \<and>
    (\<forall>i. i < start_block_id bm \<or> start_block_id bm + blocks bm \<le> i \<longrightarrow> v' i = v i)"
proof -
  have room: "card (dom (Map.empty :: nat \<rightharpoonup> bool)) < BLOCK_CACHE_SIZE" by (simp add: BLOCK_CACHE_SIZE_def)
  from bf.bitmap_alloc_ok [OF assms(1) room, of bm] assms(2) obtain s' where
    s': "bitmap_alloc BlockFile bm s = Some (first_free v bm, s')"
      "cache_state file_block (\<lambda>f. length f = n * BLOCK_SZ) n Map.empty
         (case first_free v bm of None \<Rightarrow> v | Some b \<Rightarrow> mark_bit v bm b) s'" by auto
  let ?v = "case first_free v bm of None \<Rightarrow> v | Some b \<Rightarrow> mark_bit v bm b"
  note cs = first_free_cases [where v = v and bm = bm]
  have other: "?v i = v i" if "i < start_block_id bm \<or> start_block_id bm + blocks bm \<le> i" for i
    using that cs upd_word_other [OF _ that] by (auto simp: mark_bit_def split: option.splits simp del: push_bit_of_1)
  show ?thesis
    by (rule exI [where x = "first_free v bm"], rule exI [where x = s'], rule exI [where x = ?v])
      (use s' cs other in \<open>auto split: option.splits\<close>)
qed

text \<open>A fresh manager over a device of \<open>n\<close> zero blocks, for concrete instances.\<close>

lemma zero_disk_state:
  "cache_state file_block (\<lambda>f. length f = n * BLOCK_SZ) n Map.empty (file_block (replicate (n * BLOCK_SZ) 0))
     (BlockCacheManager_new (replicate (n * BLOCK_SZ) 0))"
  by (rule bf.new_ok) simp

theorem bitmap_alloc_spec_witness:
  "let v = file_block (replicate (2 * BLOCK_SZ) 0); bm = Bitmap_new 1 1 in
   \<exists>r s' v'. bitmap_alloc BlockFile bm (BlockCacheManager_new (replicate (2 * BLOCK_SZ) 0)) = Some (r, s') \<and>
    cache_state file_block (\<lambda>f. length f = 2 * BLOCK_SZ) 2 Map.empty v' s' \<and>
    (case r of
       None \<Rightarrow> (\<forall>b<bitmap_maximum bm. bit_set v bm b) \<and> v' = v
     | Some b \<Rightarrow> b < bitmap_maximum bm \<and> \<not> bit_set v bm b \<and> (\<forall>c<b. bit_set v bm c) \<and>
         (\<forall>c. bit_set v' bm c \<longleftrightarrow> bit_set v bm c \<or> c = b)) \<and>
    (\<forall>i. i < start_block_id bm \<or> start_block_id bm + blocks bm \<le> i \<longrightarrow> v' i = v i)"
  unfolding Let_def
  by (rule bitmap_alloc_spec [OF zero_disk_state]) (simp add: Bitmap_new_def)

text \<open>
  \<open>Bitmap::dealloc\<close> of a bit in range frees exactly that bit if it is taken, and panics
  if it is free (a double free is caught); blocks outside the bitmap keep their contents.
\<close>

theorem bitmap_dealloc_spec:
  assumes "cache_state file_block (\<lambda>f. length f = n * BLOCK_SZ) n Map.empty v s"
    and "start_block_id bm + blocks bm \<le> n" and "b < bitmap_maximum bm"
  shows "if bit_set v bm b
    then \<exists>s' v'. bitmap_dealloc BlockFile bm b s = Some ((), s') \<and>
      cache_state file_block (\<lambda>f. length f = n * BLOCK_SZ) n Map.empty v' s' \<and>
      (\<forall>c. bit_set v' bm c \<longleftrightarrow> bit_set v bm c \<and> c \<noteq> b) \<and>
      (\<forall>i. i < start_block_id bm \<or> start_block_id bm + blocks bm \<le> i \<longrightarrow> v' i = v i)
    else bitmap_dealloc BlockFile bm b s = None"
proof -
  have room: "card (dom (Map.empty :: nat \<rightharpoonup> bool)) < BLOCK_CACHE_SIZE" by (simp add: BLOCK_CACHE_SIZE_def)
  have in_range: "start_block_id bm + i < n \<and> start_block_id bm + i \<notin> dom Map.empty" if "i < blocks bm" for i
    using that assms(2) by simp
  show ?thesis
  proof (cases "bit_set v bm b")
    case True
    from bf.bitmap_dealloc_ok [OF assms(1) room assms(3) True in_range] obtain s' where
      "bitmap_dealloc BlockFile bm b s = Some ((), s')"
      "cache_state file_block (\<lambda>f. length f = n * BLOCK_SZ) n Map.empty (unmark_bit v bm b) s'" by blast
    moreover have "unmark_bit v bm b i = v i" if "i < start_block_id bm \<or> start_block_id bm + blocks bm \<le> i" for i
      unfolding unmark_bit_def by (rule upd_word_other [OF assms(3) that])
    moreover note bit_set_unmark_bit [OF True]
    ultimately show ?thesis using True by auto
  next
    case False
    from bf.bitmap_dealloc_free [OF assms(1) room assms(3) False in_range] False show ?thesis by simp
  qed
qed

theorem bitmap_dealloc_spec_witness:
  "let v = file_block (replicate (2 * BLOCK_SZ) 0); bm = Bitmap_new 1 1; s = BlockCacheManager_new (replicate (2 * BLOCK_SZ) 0) in
   if bit_set v bm 5
    then \<exists>s' v'. bitmap_dealloc BlockFile bm 5 s = Some ((), s') \<and>
      cache_state file_block (\<lambda>f. length f = 2 * BLOCK_SZ) 2 Map.empty v' s' \<and>
      (\<forall>c. bit_set v' bm c \<longleftrightarrow> bit_set v bm c \<and> c \<noteq> 5) \<and>
      (\<forall>i. i < start_block_id bm \<or> start_block_id bm + blocks bm \<le> i \<longrightarrow> v' i = v i)
    else bitmap_dealloc BlockFile bm 5 s = None"
  unfolding Let_def
  by (rule bitmap_dealloc_spec [OF zero_disk_state]) (simp_all add: Bitmap_new_def bitmap_maximum_def)

end
