(* ===== verification/Layout.thy ===== *)
theory Layout
  imports BlockCache
begin

text \<open>
  \<^verbatim>\<open>easy-fs/src/layout.rs\<close>: the on-disk structures. Their layouts in memory, the block map
  of an inode (28 direct blocks, one singly and one doubly indirect block), the growth and
  the clearing of an inode, byte-wise reads and writes through the block map, and directory
  entries.

  The abstract file of an inode \<open>d\<close> in a disk \<open>v\<close> is its byte string \<open>file_bytes v d\<close>; the
  blocks it occupies are \<open>data_ids\<close> and \<open>meta_ids\<close>. Counters that count blocks are natural
  numbers here: they stay below \<open>2 ^ 23 + 1\<close>, the largest number of blocks of a 32-bit size,
  and every subtraction of the source is guarded. The sizes and block ids themselves are kept
  as 32-bit words, with the wrap-around of \<open>_data_blocks\<close>.
\<close>

section \<open>Structures\<close>

definition EFS_MAGIC :: u32 where "EFS_MAGIC = 0x3b800001"
definition INODE_DIRECT_COUNT :: nat where "INODE_DIRECT_COUNT = 28"
definition NAME_LENGTH_LIMIT :: nat where "NAME_LENGTH_LIMIT = 27"
definition INODE_INDIRECT1_COUNT :: nat where "INODE_INDIRECT1_COUNT = BLOCK_SZ div 4"
definition INODE_INDIRECT2_COUNT :: nat where "INODE_INDIRECT2_COUNT = INODE_INDIRECT1_COUNT * INODE_INDIRECT1_COUNT"
definition DIRECT_BOUND :: nat where "DIRECT_BOUND = INODE_DIRECT_COUNT"
definition INDIRECT1_BOUND :: nat where "INDIRECT1_BOUND = DIRECT_BOUND + INODE_INDIRECT1_COUNT"
definition INDIRECT2_BOUND :: nat where "INDIRECT2_BOUND = INDIRECT1_BOUND + INODE_INDIRECT2_COUNT"
definition DIRENT_SZ :: nat where "DIRENT_SZ = 32"

lemma layout_consts [simp]:
  "INODE_DIRECT_COUNT = 28" "INODE_INDIRECT1_COUNT = 128" "INDIRECT1_BOUND = 156" "INDIRECT2_BOUND = 16540"
  "NAME_LENGTH_LIMIT = 27" "DIRENT_SZ = 32"
  by (simp_all add: INODE_DIRECT_COUNT_def INODE_INDIRECT1_COUNT_def INDIRECT1_BOUND_def DIRECT_BOUND_def
      INDIRECT2_BOUND_def INODE_INDIRECT2_COUNT_def NAME_LENGTH_LIMIT_def DIRENT_SZ_def BLOCK_SZ_def)

text \<open>\<open>IndirectBlock = [u32; BLOCK_SZ / 4]\<close>.\<close>

definition IndirectBlock :: "u32 list repr" where
  "IndirectBlock = \<lparr>size_of = BLOCK_SZ, from_mem = (\<lambda>bs. Some (decode_array 4 (BLOCK_SZ div 4) bs)), to_mem = encode_array 4\<rparr>"

record super_block =
  magic :: u32
  sb_total_blocks :: u32
  inode_bitmap_blocks :: u32
  inode_area_blocks :: u32
  data_bitmap_blocks :: u32
  data_area_blocks :: u32

definition SuperBlock :: "super_block repr" where
  "SuperBlock = \<lparr>size_of = 24,
     from_mem = (\<lambda>bs. case decode_array 4 6 bs of
         [m, t, ib, ia, db, da] \<Rightarrow>
           Some \<lparr>magic = m, sb_total_blocks = t, inode_bitmap_blocks = ib, inode_area_blocks = ia,
                 data_bitmap_blocks = db, data_area_blocks = da\<rparr>
       | _ \<Rightarrow> None),
     to_mem = (\<lambda>sb. encode_array 4 [magic sb, sb_total_blocks sb, inode_bitmap_blocks sb, inode_area_blocks sb,
                                     data_bitmap_blocks sb, data_area_blocks sb])\<rparr>"

definition SuperBlock_initialize :: "u32 \<Rightarrow> u32 \<Rightarrow> u32 \<Rightarrow> u32 \<Rightarrow> u32 \<Rightarrow> super_block \<Rightarrow> super_block" where
  "SuperBlock_initialize tb ib ia db da self =
     \<lparr>magic = EFS_MAGIC, sb_total_blocks = tb, inode_bitmap_blocks = ib, inode_area_blocks = ia,
      data_bitmap_blocks = db, data_area_blocks = da\<rparr>"

definition SuperBlock_is_valid :: "super_block \<Rightarrow> bool" where
  "SuperBlock_is_valid sb \<longleftrightarrow> magic sb = EFS_MAGIC"

datatype DiskInodeType = File | Directory

record disk_inode =
  di_size :: u32
  direct :: "u32 list"
  indirect1 :: u32
  indirect2 :: u32
  di_type :: DiskInodeType

text \<open>
  \<open>#[repr(C)]\<close>: 31 words and the one-byte tag of \<open>di_type\<close>, padded to 128 bytes. A tag
  other than 0 and 1 is no value of the type.
\<close>

definition DiskInode :: "disk_inode repr" where
  "DiskInode = \<lparr>size_of = 128,
     from_mem = (\<lambda>bs.
       let ws = decode_array 4 31 bs; t = bs ! 124
       in if t < 2
          then Some \<lparr>di_size = ws ! 0, direct = take 28 (drop 1 ws), indirect1 = ws ! 29, indirect2 = ws ! 30,
                     di_type = (if t = 0 then File else Directory)\<rparr>
          else None),
     to_mem = (\<lambda>d. encode_array 4 (di_size d # direct d @ [indirect1 d, indirect2 d]) @
                    [if di_type d = File then 0 else 1])\<rparr>"

definition inode_valid :: "disk_inode \<Rightarrow> bool" where
  "inode_valid d \<longleftrightarrow> length (direct d) = 28"

definition DiskInode_initialize :: "DiskInodeType \<Rightarrow> disk_inode \<Rightarrow> disk_inode" where
  "DiskInode_initialize t d =
     d\<lparr>di_size := 0, direct := map (\<lambda>_. 0) (direct d), indirect1 := 0, indirect2 := 0, di_type := t\<rparr>"

definition is_dir :: "disk_inode \<Rightarrow> bool" where "is_dir d \<longleftrightarrow> di_type d = Directory"
definition is_file :: "disk_inode \<Rightarrow> bool" where "is_file d \<longleftrightarrow> di_type d = File"

section \<open>The block map\<close>

definition get_block_id :: "'d block_device \<Rightarrow> disk_inode \<Rightarrow> u32 \<Rightarrow> 'd bcm \<Rightarrow> (u32 \<times> 'd bcm) option" where
  "get_block_id bd d inner s =
     (let inner_id = unat inner in
      if inner_id < INODE_DIRECT_COUNT then
        do { b \<leftarrow> index_at (direct d) inner_id; Some (b, s) }
      else if inner_id < INDIRECT1_BOUND then
        cache_read bd IndirectBlock (unat (indirect1 d)) 0
          (\<lambda>ib s. do { b \<leftarrow> index_at ib (inner_id - INODE_DIRECT_COUNT); Some (b, s) }) s
      else
        (let last = inner_id - INDIRECT1_BOUND in
         do { (ind1, s) \<leftarrow> cache_read bd IndirectBlock (unat (indirect2 d)) 0
                (\<lambda>ib s. do { b \<leftarrow> index_at ib (last div INODE_INDIRECT1_COUNT); Some (b, s) }) s;
              cache_read bd IndirectBlock (unat ind1) 0
                (\<lambda>ib s. do { b \<leftarrow> index_at ib (last mod INODE_INDIRECT1_COUNT); Some (b, s) }) s }))"

text \<open>\<open>(size + BLOCK_SZ as u32 - 1) / BLOCK_SZ as u32\<close>, in wrapping 32-bit arithmetic.\<close>

definition data_blocks_of :: "u32 \<Rightarrow> u32" where
  "data_blocks_of sz = (sz + of_nat BLOCK_SZ - 1) div of_nat BLOCK_SZ"

definition data_blocks :: "disk_inode \<Rightarrow> u32" where
  "data_blocks d = data_blocks_of (di_size d)"

definition total_blocks :: "u32 \<Rightarrow> u32" where
  "total_blocks sz =
     (let db = unat (data_blocks_of sz);
          tb = db;
          tb = (if db > INODE_DIRECT_COUNT then tb + 1 else tb);
          tb = (if db > INDIRECT1_BOUND
                then tb + 1 + (db - INDIRECT1_BOUND + INODE_INDIRECT1_COUNT - 1) div INODE_INDIRECT1_COUNT
                else tb)
      in of_nat tb)"

definition blocks_num_needed :: "disk_inode \<Rightarrow> u32 \<Rightarrow> u32 option" where
  "blocks_num_needed d new_size =
     do { assert_that (new_size \<ge> di_size d);
          Some (total_blocks new_size - total_blocks (di_size d)) }"

section \<open>Growing\<close>

text \<open>\<open>while cur < to { arr[cur] = new_blocks.next().unwrap(); cur += 1; }\<close>\<close>

fun fill_loop :: "nat \<Rightarrow> nat \<Rightarrow> u32 list \<Rightarrow> u32 list \<Rightarrow> (nat \<times> u32 list \<times> u32 list) option" where
  "fill_loop cur to arr nb =
     (if cur < to then
        (case nb of
           [] \<Rightarrow> None
         | b # nb \<Rightarrow> do { assert_that (cur < length arr); fill_loop (Suc cur) to (arr[cur := b]) nb })
      else Some (cur, arr, nb))"

declare fill_loop.simps [simp del]

text \<open>
  The loop from \<open>(a0, b0)\<close> to \<open>(a1, b1)\<close> over the doubly indirect block. The bounds check of
  \<open>indirect1_block[b0]\<close> is hoisted before the lock is taken: it panics either way.
\<close>

function fill2_loop :: "'d block_device \<Rightarrow> nat \<Rightarrow> nat \<Rightarrow> nat \<Rightarrow> nat \<Rightarrow> u32 list \<Rightarrow> u32 list \<Rightarrow> 'd bcm \<Rightarrow>
    (u32 list \<times> u32 list \<times> 'd bcm) option" where
  "fill2_loop bd a0 b0 a1 b1 ib2 nb s =
     (if a0 < a1 \<or> (a0 = a1 \<and> b0 < b1) then
        do { assert_that (b0 < INODE_INDIRECT1_COUNT);
             (ib2, nb) \<leftarrow>
               (if b0 = 0 then
                  (case nb of
                     [] \<Rightarrow> None
                   | b # nb \<Rightarrow> do { assert_that (a0 < length ib2); Some (ib2[a0 := b], nb) })
                else Some (ib2, nb));
             ind1 \<leftarrow> index_at ib2 a0;
             (nb, s) \<leftarrow> cache_modify bd IndirectBlock (unat ind1) 0
               (\<lambda>ib1 s. case nb of [] \<Rightarrow> None | b # nb \<Rightarrow> Some (ib1[b0 := b], nb, s)) s;
             if b0 + 1 = INODE_INDIRECT1_COUNT
             then fill2_loop bd (a0 + 1) 0 a1 b1 ib2 nb s
             else fill2_loop bd a0 (b0 + 1) a1 b1 ib2 nb s }
      else Some (ib2, nb, s))"
  by pat_completeness auto
termination
  by (relation "measure (\<lambda>(bd, a0, b0, a1, b1, _). (a1 * 128 + 128) - (a0 * 128 + b0))")
    (auto simp: assert_that_def split: if_splits)

declare fill2_loop.simps [simp del]

text \<open>The end of \<open>increase_size\<close>, with the counts already relative to the direct blocks.\<close>

definition increase_indirect2 ::
    "'d block_device \<Rightarrow> disk_inode \<Rightarrow> nat \<Rightarrow> nat \<Rightarrow> u32 list \<Rightarrow> 'd bcm \<Rightarrow> (disk_inode \<times> 'd bcm) option" where
  "increase_indirect2 bd self current_blocks tot_blocks new_blocks s =
     do { (self, current_blocks, tot_blocks, new_blocks) \<leftarrow>
            (if tot_blocks > INODE_INDIRECT1_COUNT then
               do { (self, new_blocks) \<leftarrow>
                      (if current_blocks = INODE_INDIRECT1_COUNT then
                         (case new_blocks of [] \<Rightarrow> None | b # nb \<Rightarrow> Some (self\<lparr>indirect2 := b\<rparr>, nb))
                       else Some (self, new_blocks));
                    Some (self, current_blocks - INODE_INDIRECT1_COUNT,
                          tot_blocks - INODE_INDIRECT1_COUNT, new_blocks) }
             else Some (self, current_blocks, tot_blocks, new_blocks));
          let a0 = current_blocks div INODE_INDIRECT1_COUNT;
          let b0 = current_blocks mod INODE_INDIRECT1_COUNT;
          let a1 = tot_blocks div INODE_INDIRECT1_COUNT;
          let b1 = tot_blocks mod INODE_INDIRECT1_COUNT;
          (_, s) \<leftarrow> cache_modify bd IndirectBlock (unat (indirect2 self)) 0
            (\<lambda>ib2 s. do { (ib2, nb, s) \<leftarrow> fill2_loop bd a0 b0 a1 b1 ib2 new_blocks s; Some (ib2, (), s) }) s;
          Some (self, s) }"

definition DiskInode_increase_size ::
    "'d block_device \<Rightarrow> disk_inode \<Rightarrow> u32 \<Rightarrow> u32 list \<Rightarrow> 'd bcm \<Rightarrow> (disk_inode \<times> 'd bcm) option" where
  "DiskInode_increase_size bd self new_size new_blocks s =
     do { let current_blocks = unat (data_blocks self);
          let self = self\<lparr>di_size := new_size\<rparr>;
          let tot_blocks = unat (data_blocks self);
          (current_blocks, dir, new_blocks) \<leftarrow>
            fill_loop current_blocks (min tot_blocks INODE_DIRECT_COUNT) (direct self) new_blocks;
          let self = self\<lparr>direct := dir\<rparr>;
          if tot_blocks > INODE_DIRECT_COUNT then
            do { (self, new_blocks) \<leftarrow>
                   (if current_blocks = INODE_DIRECT_COUNT then
                      (case new_blocks of [] \<Rightarrow> None | b # nb \<Rightarrow> Some (self\<lparr>indirect1 := b\<rparr>, nb))
                    else Some (self, new_blocks));
                 let current_blocks = current_blocks - INODE_DIRECT_COUNT;
                 let tot_blocks = tot_blocks - INODE_DIRECT_COUNT;
                 ((current_blocks, new_blocks), s) \<leftarrow> cache_modify bd IndirectBlock (unat (indirect1 self)) 0
                   (\<lambda>ib s. do { (cur, ib, nb) \<leftarrow>
                                  fill_loop current_blocks (min tot_blocks INODE_INDIRECT1_COUNT) ib new_blocks;
                                Some (ib, (cur, nb), s) }) s;
                 increase_indirect2 bd self current_blocks tot_blocks new_blocks s }
          else Some (self, s) }"

section \<open>Clearing\<close>

function clear2_loop :: "'d block_device \<Rightarrow> u32 list \<Rightarrow> nat \<Rightarrow> nat \<Rightarrow> nat \<Rightarrow> nat \<Rightarrow> u32 list \<Rightarrow> nat \<Rightarrow> 'd bcm \<Rightarrow>
    (u32 list \<times> nat \<times> 'd bcm) option" where
  "clear2_loop bd ib2 a0 b0 a1 b1 v cur s =
     (if a0 < a1 \<or> (a0 = a1 \<and> b0 < b1) then
        do { assert_that (b0 < INODE_INDIRECT1_COUNT);
             ind1 \<leftarrow> index_at ib2 a0;
             let v = (if b0 = 0 then v @ [ind1] else v);
             (v, s) \<leftarrow> cache_read bd IndirectBlock (unat ind1) 0
               (\<lambda>ib1 s. do { b \<leftarrow> index_at ib1 b0; Some (v @ [b], s) }) s;
             if b0 + 1 = INODE_INDIRECT1_COUNT
             then clear2_loop bd ib2 (a0 + 1) 0 a1 b1 v (cur + 1) s
             else clear2_loop bd ib2 a0 (b0 + 1) a1 b1 v (cur + 1) s }
      else Some (v, cur, s))"
  by pat_completeness auto
termination
  by (relation "measure (\<lambda>(bd, ib2, a0, b0, a1, b1, _). (a1 * 128 + 128) - (a0 * 128 + b0))")
    (auto simp: assert_that_def split: if_splits)

declare clear2_loop.simps [simp del]

text \<open>
  The two counting loops push the first \<open>min total n\<close> elements of an array of \<open>n\<close>; the
  array is never shorter, so neither an index nor \<open>next().unwrap()\<close> can panic there.
\<close>

definition clear_size :: "'d block_device \<Rightarrow> disk_inode \<Rightarrow> 'd bcm \<Rightarrow> (u32 list \<times> disk_inode \<times> 'd bcm) option" where
  "clear_size bd self s =
     (let tot_blocks = unat (data_blocks self);
          v = take (min INODE_DIRECT_COUNT tot_blocks) (direct self) in
      if tot_blocks > INODE_DIRECT_COUNT then
        do { let v = v @ [indirect1 self];
             let tot_blocks = tot_blocks - INODE_DIRECT_COUNT;
             (v, s) \<leftarrow> cache_read bd IndirectBlock (unat (indirect1 self)) 0
               (\<lambda>ib s. Some (v @ take (min tot_blocks INODE_INDIRECT1_COUNT) ib, s)) s;
             if tot_blocks > INODE_INDIRECT1_COUNT then
               do { let v = v @ [indirect2 self];
                    let tot_blocks = tot_blocks - INODE_INDIRECT1_COUNT;
                    ((v, cur_blocks), s) \<leftarrow> cache_read bd IndirectBlock (unat (indirect2 self)) 0
                      (\<lambda>ib2 s. do { (v, cur, s) \<leftarrow>
                                      clear2_loop bd ib2 0 0 (tot_blocks div INODE_INDIRECT1_COUNT)
                                        (tot_blocks mod INODE_INDIRECT1_COUNT) v 0 s;
                                    Some ((v, cur), s) }) s;
                    assert_that (cur_blocks = tot_blocks);
                    Some (v, DiskInode_initialize (di_type self) self, s) }
             else Some (v, DiskInode_initialize (di_type self) self, s) }
      else Some (v, DiskInode_initialize (di_type self) self, s))"

section \<open>Reading and writing bytes\<close>

function read_loop :: "'d block_device \<Rightarrow> disk_inode \<Rightarrow> nat \<Rightarrow> nat \<Rightarrow> nat \<Rightarrow> nat \<Rightarrow> bytes \<Rightarrow> 'd bcm \<Rightarrow>
    (nat \<times> bytes \<times> 'd bcm) option" where
  "read_loop bd d start start_block stop read_size buf s =
     do { let end_current_block = min ((start div BLOCK_SZ + 1) * BLOCK_SZ) stop;
          let block_read_size = end_current_block - start;
          assert_that (read_size + block_read_size \<le> length buf);
          (bid, s) \<leftarrow> get_block_id bd d (of_nat start_block) s;
          (buf, s) \<leftarrow> cache_read bd DataBlock (unat bid) 0
            (\<lambda>data_block s.
               do { assert_that (start mod BLOCK_SZ + block_read_size \<le> length data_block);
                    Some (splice_at read_size (slice_at (start mod BLOCK_SZ) block_read_size data_block) buf, s) }) s;
          if end_current_block = stop then Some (read_size + block_read_size, buf, s)
          else read_loop bd d end_current_block (start_block + 1) stop (read_size + block_read_size) buf s }"
  by pat_completeness auto

lemma next_block_gt: "(start :: nat) < (start div BLOCK_SZ + 1) * BLOCK_SZ"
  by (simp add: BLOCK_SZ_def dividend_less_times_div)

lemma block_step_decreases:
  "min ((start div BLOCK_SZ + 1) * BLOCK_SZ) stop \<noteq> stop \<Longrightarrow>
   stop - min ((start div BLOCK_SZ + 1) * BLOCK_SZ) stop < stop - start"
  using next_block_gt [of start] by (auto simp: min_def split: if_splits)

termination read_loop
proof (relation "measure (\<lambda>(bd, d, start, _, stop, _). stop - start)")
qed (simp, simp only: in_measure prod.case, rule block_step_decreases, assumption)

declare read_loop.simps [simp del]

definition DiskInode_read_at :: "'d block_device \<Rightarrow> disk_inode \<Rightarrow> nat \<Rightarrow> bytes \<Rightarrow> 'd bcm \<Rightarrow>
    (nat \<times> bytes \<times> 'd bcm) option" where
  "DiskInode_read_at bd d offset buf s =
     (let start = offset; stop = min (offset + length buf) (unat (di_size d)) in
      if start \<ge> stop then Some (0, buf, s)
      else read_loop bd d start (start div BLOCK_SZ) stop 0 buf s)"

function write_loop :: "'d block_device \<Rightarrow> disk_inode \<Rightarrow> nat \<Rightarrow> nat \<Rightarrow> nat \<Rightarrow> bytes \<Rightarrow> 'd bcm \<Rightarrow>
    (nat \<times> 'd bcm) option" where
  "write_loop bd d start stop write_size buf s =
     do { let start_block = start div BLOCK_SZ;
          let end_current_block = min ((start_block + 1) * BLOCK_SZ) stop;
          (cur_block_id, s) \<leftarrow> get_block_id bd d (of_nat start_block) s;
          let block_write_sz = end_current_block - start;
          (_, s) \<leftarrow> cache_modify bd DataBlock (unat cur_block_id) 0
            (\<lambda>data_block s.
               do { assert_that (write_size + block_write_sz \<le> length buf);
                    assert_that (start mod BLOCK_SZ + block_write_sz \<le> length data_block);
                    Some (splice_at (start mod BLOCK_SZ) (slice_at write_size block_write_sz buf) data_block, (), s) }) s;
          let write_size = write_size + block_write_sz;
          let start = end_current_block;
          if start = stop then Some (write_size, s)
          else write_loop bd d start stop write_size buf s }"
  by pat_completeness auto

termination write_loop
proof (relation "measure (\<lambda>(bd, d, start, stop, _). stop - start)")
qed (simp, simp only: in_measure prod.case, rule block_step_decreases, assumption)

declare write_loop.simps [simp del]

definition DiskInode_write_at :: "'d block_device \<Rightarrow> disk_inode \<Rightarrow> nat \<Rightarrow> bytes \<Rightarrow> 'd bcm \<Rightarrow>
    (nat \<times> 'd bcm) option" where
  "DiskInode_write_at bd d offset buf s =
     (let start = offset; stop = min (start + length buf) (unat (di_size d)) in
      if start \<ge> stop then Some (0, s)
      else write_loop bd d start stop 0 buf s)"

section \<open>Directory entries\<close>

record dir_entry =
  de_name :: bytes
  inode_number :: u32

definition DirEntry_empty :: dir_entry where
  "DirEntry_empty = \<lparr>de_name = replicate (NAME_LENGTH_LIMIT + 1) 0, inode_number = 0\<rparr>"

text \<open>A \<open>&str\<close> is the list of its UTF-8 bytes; slicing beyond the 28 bytes panics.\<close>

definition DirEntry_new :: "bytes \<Rightarrow> u32 \<Rightarrow> dir_entry option" where
  "DirEntry_new name ino =
     do { let bs = replicate (NAME_LENGTH_LIMIT + 1) 0;
          assert_that (length name \<le> length bs);
          Some \<lparr>de_name = splice_at 0 name bs, inode_number = ino\<rparr> }"

definition as_bytes :: "dir_entry \<Rightarrow> bytes" where
  "as_bytes e = de_name e @ le_encode 4 (unat (inode_number e))"

text \<open>The entry read back after its bytes have been overwritten through \<open>as_bytes_mut\<close>.\<close>

definition of_bytes_mut :: "bytes \<Rightarrow> dir_entry" where
  "of_bytes_mut bs = \<lparr>de_name = take 28 bs, inode_number = of_nat (le_decode (slice_at 28 4 bs))\<rparr>"

text \<open>\<open>core::str::from_utf8\<close> accepts the well-formed UTF-8 byte sequences.\<close>

definition cont_byte :: "u8 \<Rightarrow> bool" where
  "cont_byte b \<longleftrightarrow> 0x80 \<le> b \<and> b \<le> 0xBF"

definition utf8_lead2 :: "u8 \<Rightarrow> u8 \<Rightarrow> bool" where
  "utf8_lead2 b c \<longleftrightarrow>
     (if b = 0xE0 then 0xA0 \<le> c \<and> c \<le> 0xBF
      else if b = 0xED then 0x80 \<le> c \<and> c \<le> 0x9F
      else if b = 0xF0 then 0x90 \<le> c \<and> c \<le> 0xBF
      else if b = 0xF4 then 0x80 \<le> c \<and> c \<le> 0x8F
      else cont_byte c)"

fun from_utf8_ok :: "bytes \<Rightarrow> bool" where
  "from_utf8_ok [] = True"
| "from_utf8_ok (b # bs) =
     (if b < 0x80 then from_utf8_ok bs
      else if 0xC2 \<le> b \<and> b \<le> 0xDF then (case bs of c # bs \<Rightarrow> cont_byte c \<and> from_utf8_ok bs | _ \<Rightarrow> False)
      else if 0xE0 \<le> b \<and> b \<le> 0xEF then
        (case bs of c # e # bs \<Rightarrow> utf8_lead2 b c \<and> cont_byte e \<and> from_utf8_ok bs | _ \<Rightarrow> False)
      else if 0xF0 \<le> b \<and> b \<le> 0xF4 then
        (case bs of c # e # g # bs \<Rightarrow> utf8_lead2 b c \<and> cont_byte e \<and> cont_byte g \<and> from_utf8_ok bs | _ \<Rightarrow> False)
      else False)"

text \<open>
  \<open>(0usize..).find(|i| self.name[*i] == 0)\<close> runs off the 28 bytes and panics when none of
  them is 0.
\<close>

definition name :: "dir_entry \<Rightarrow> bytes option" where
  "name e =
     do { len \<leftarrow> find_index (\<lambda>b. b = 0) (de_name e);
          let n = take len (de_name e);
          assert_that (from_utf8_ok n);
          Some n }"

end
