(* ===== verification/LayoutSpec.thy ===== *)
theory LayoutSpec
  imports Layout
begin

text \<open>
  What the structures of \<^verbatim>\<open>easy-fs/src/layout.rs\<close> promise. Loads and stores of the
  structures, the abstract file of an inode (\<open>file_bytes\<close>) and the blocks it occupies
  (\<open>used_ids\<close>), and the refinement of \<open>get_block_id\<close>, \<open>read_at\<close>, \<open>write_at\<close>,
  \<open>increase_size\<close> and \<open>clear_size\<close> to them, for every block device.
\<close>

section \<open>Memory representations\<close>

interpretation indirect_repr: mem_repr IndirectBlock "\<lambda>xs. length xs = 128"
  by unfold_locales (auto simp: IndirectBlock_def BLOCK_SZ_def)

interpretation super_repr: mem_repr SuperBlock "\<lambda>_. True"
proof unfold_locales
  fix x :: super_block and bs :: bytes assume len: "length bs = size_of SuperBlock"
  let ?ws = "[magic x, sb_total_blocks x, inode_bitmap_blocks x, inode_area_blocks x,
    data_bitmap_blocks x, data_area_blocks x]"
  have "decode_array 4 6 (encode_array 4 ?ws) = ?ws" by (rule decode_encode_array) simp_all
  with len show "from_mem SuperBlock (splice_at 0 (to_mem SuperBlock x) bs) = Some x"
    by (simp add: SuperBlock_def)
qed (simp_all add: SuperBlock_def)

lemma from_mem_DiskInode:
  assumes "decode_array 4 31 bs = di_size x # direct x @ [indirect1 x, indirect2 x]"
    and "bs ! 124 = (if di_type x = File then 0 else 1)" and "length (direct x) = 28"
  shows "from_mem DiskInode bs = Some x"
proof -
  have "di_type x = (if di_type x = File then File else Directory)" by (cases "di_type x") simp_all
  with assms show ?thesis by (simp add: DiskInode_def nth_append Let_def split: if_splits)
qed

interpretation inode_repr: mem_repr DiskInode inode_valid
proof unfold_locales
  fix x :: disk_inode and bs :: bytes assume v: "inode_valid x" and len: "length bs = size_of DiskInode"
  let ?ws = "di_size x # direct x @ [indirect1 x, indirect2 x]"
  let ?t = "[if di_type x = File then 0 else 1 :: u8]"
  have l: "length ?ws = 31" using v by (simp add: inode_valid_def)
  have e: "splice_at 0 (to_mem DiskInode x) bs = encode_array 4 ?ws @ ?t @ drop 125 bs"
    using l by (simp add: splice_at_def DiskInode_def)
  have le: "length (encode_array 4 ?ws) = 124" using l by (simp del: list.size)
  have "decode_array 4 31 (encode_array 4 ?ws @ ?t @ drop 125 bs) = decode_array 4 31 (encode_array 4 ?ws)"
    by (rule decode_array_append) (use le in simp)
  also have "\<dots> = ?ws" by (rule decode_encode_array) (use l in simp_all)
  finally have "decode_array 4 31 (encode_array 4 ?ws @ ?t @ drop 125 bs) = ?ws" .
  moreover have "(encode_array 4 ?ws @ ?t @ drop 125 bs) ! 124 = hd ?t"
    using nth_append_length [of "encode_array 4 ?ws" "hd ?t" "drop 125 bs"] le by simp
  ultimately show "from_mem DiskInode (splice_at 0 (to_mem DiskInode x) bs) = Some x"
    unfolding e using v by (intro from_mem_DiskInode) (simp_all add: inode_valid_def)
qed (auto simp: DiskInode_def inode_valid_def Let_def split: if_splits)

section \<open>The blocks of an inode\<close>

text \<open>The ids an indirect block holds, and the id of the \<open>k\<close>-th data block.\<close>

definition ids :: "(nat \<Rightarrow> bytes) \<Rightarrow> u32 \<Rightarrow> u32 list" where
  "ids v b = decode_array 4 128 (v (unat b))"

definition file_block_id :: "(nat \<Rightarrow> bytes) \<Rightarrow> disk_inode \<Rightarrow> nat \<Rightarrow> u32" where
  "file_block_id v d k =
     (if k < 28 then direct d ! k
      else if k < 156 then ids v (indirect1 d) ! (k - 28)
      else ids v (ids v (indirect2 d) ! ((k - 156) div 128)) ! ((k - 156) mod 128))"

text \<open>Indirect blocks needed for \<open>n\<close> data blocks.\<close>

definition cdiv :: "nat \<Rightarrow> nat" where "cdiv n = (n + 127) div 128"

definition meta_ids :: "(nat \<Rightarrow> bytes) \<Rightarrow> disk_inode \<Rightarrow> nat \<Rightarrow> u32 list" where
  "meta_ids v d n =
     (if n > 28 then [indirect1 d] else []) @
     (if n > 156 then indirect2 d # map (\<lambda>j. ids v (indirect2 d) ! j) [0..<cdiv (n - 156)] else [])"

definition data_ids :: "(nat \<Rightarrow> bytes) \<Rightarrow> disk_inode \<Rightarrow> nat \<Rightarrow> u32 list" where
  "data_ids v d n = map (file_block_id v d) [0..<n]"

definition used_ids :: "(nat \<Rightarrow> bytes) \<Rightarrow> disk_inode \<Rightarrow> u32 list" where
  "used_ids v d = data_ids v d (unat (data_blocks d)) @ meta_ids v d (unat (data_blocks d))"

text \<open>
  A well-formed inode: within the size limit, its blocks distinct, on the disk and outside
  the set \<open>X\<close> of blocks that belong to somebody else.
\<close>

definition wf_inode :: "nat \<Rightarrow> nat set \<Rightarrow> (nat \<Rightarrow> bytes) \<Rightarrow> disk_inode \<Rightarrow> bool" where
  "wf_inode nb X v d \<longleftrightarrow>
     inode_valid d \<and> unat (di_size d) \<le> INDIRECT2_BOUND * BLOCK_SZ \<and>
     (unat (data_blocks d) \<le> INDIRECT1_BOUND \<longrightarrow> indirect2 d = 0) \<and>
     distinct (used_ids v d) \<and> (\<forall>b\<in>set (used_ids v d). unat b < nb \<and> unat b \<notin> X)"

definition byte_at :: "(nat \<Rightarrow> bytes) \<Rightarrow> disk_inode \<Rightarrow> nat \<Rightarrow> u8" where
  "byte_at v d i = v (unat (file_block_id v d (i div BLOCK_SZ))) ! (i mod BLOCK_SZ)"

definition file_bytes :: "(nat \<Rightarrow> bytes) \<Rightarrow> disk_inode \<Rightarrow> bytes" where
  "file_bytes v d = map (byte_at v d) [0..<unat (di_size d)]"

lemma length_file_bytes [simp]: "length (file_bytes v d) = unat (di_size d)"
  by (simp add: file_bytes_def)

lemma unat_data_blocks_of:
  assumes "unat sz \<le> 2 ^ 32 - 512"
  shows "unat (data_blocks_of sz) = (unat sz + 511) div 512"
proof -
  have "sz + of_nat BLOCK_SZ - 1 = 511 + sz" by (simp add: BLOCK_SZ_def)
  moreover have "unat (511 + sz) = unat sz + 511"
    using assms by (subst unat_add_lem [THEN iffD1]) simp_all
  ultimately show ?thesis by (simp add: data_blocks_of_def BLOCK_SZ_def unat_div)
qed

lemma wf_nblocks:
  assumes "wf_inode nb X v d"
  shows "unat (data_blocks d) = (unat (di_size d) + 511) div 512" "unat (data_blocks d) \<le> 16540"
proof -
  have sz: "unat (di_size d) \<le> 16540 * 512" using assms by (simp add: wf_inode_def BLOCK_SZ_def)
  then show "unat (data_blocks d) = (unat (di_size d) + 511) div 512"
    unfolding data_blocks_def by (intro unat_data_blocks_of) simp
  then show "unat (data_blocks d) \<le> 16540" using sz by linarith
qed

lemma wf_block_index:
  assumes "wf_inode nb X v d" "i < unat (di_size d)"
  shows "i div 512 < unat (data_blocks d)"
  using wf_nblocks (1) [OF assms(1)] assms(2) by linarith

lemma cdiv_less: "k < m \<Longrightarrow> k div 128 < cdiv m"
  by (simp add: cdiv_def)

text \<open>The blocks on the way to data block \<open>k\<close> are used blocks.\<close>

lemma wf_used:
  assumes "wf_inode nb X v d" "b \<in> set (used_ids v d)"
  shows "unat b < nb" "unat b \<notin> X"
  using assms by (auto simp: wf_inode_def)

lemma used_data: "k < unat (data_blocks d) \<Longrightarrow> file_block_id v d k \<in> set (used_ids v d)"
  by (simp add: used_ids_def data_ids_def)

lemma used_indirect1: "28 < unat (data_blocks d) \<Longrightarrow> indirect1 d \<in> set (used_ids v d)"
  by (simp add: used_ids_def meta_ids_def)

lemma used_indirect2: "156 < unat (data_blocks d) \<Longrightarrow> indirect2 d \<in> set (used_ids v d)"
  by (simp add: used_ids_def meta_ids_def)

lemma used_indirect2_entry:
  "156 + j < unat (data_blocks d) \<Longrightarrow> ids v (indirect2 d) ! (j div 128) \<in> set (used_ids v d)"
  using cdiv_less [of j "unat (data_blocks d) - 156"]
  by (auto simp: used_ids_def meta_ids_def)

lemma IndirectBlock_simps [simp]:
  "size_of IndirectBlock = 512" "from_mem IndirectBlock bs = Some (decode_array 4 128 bs)"
  "to_mem IndirectBlock = encode_array 4"
  by (simp_all add: IndirectBlock_def BLOCK_SZ_def)

context block_dev
begin

lemma indirect_read_ok:
  assumes "st H v s" "unat b < nblocks" "unat b \<notin> dom H" "card (dom H) < BLOCK_CACHE_SIZE"
    and "\<And>s1 m. st (H(unat b \<mapsto> m)) v s1 \<Longrightarrow> \<exists>s2. f (ids v b) s1 = Some (r, s2) \<and> st (H(unat b \<mapsto> m)) v s2"
  shows "\<exists>s'. cache_read bd IndirectBlock (unat b) 0 f s = Some (r, s') \<and> st H v s'"
  by (rule cache_read_ok [OF assms(1-4)])
    (use st_length [OF assms(1,2)] assms(5) in \<open>simp_all add: ids_def BLOCK_SZ_def\<close>)

lemma get_block_id_ok:
  assumes s: "st H v s" and wf: "wf_inode nblocks (dom H) v d" and card: "card (dom H) < BLOCK_CACHE_SIZE"
    and k: "k < unat (data_blocks d)"
  shows "\<exists>s'. get_block_id bd d (of_nat k) s = Some (file_block_id v d k, s') \<and> st H v s'"
proof -
  have "k < 16540" using k wf_nblocks(2) [OF wf] by linarith
  then have u: "unat (of_nat k :: u32) = k" by (simp add: unat_of_nat take_bit_nat_eq_self)
  have len: "length (direct d) = 28" using wf by (simp add: wf_inode_def inode_valid_def)
  note used = wf_used [OF wf]
  consider "k < 28" | "28 \<le> k" "k < 156" | "156 \<le> k" by linarith
  then show ?thesis
  proof cases
    case 1
    with s len show ?thesis by (simp add: get_block_id_def u file_block_id_def)
  next
    case 2
    with k have "indirect1 d \<in> set (used_ids v d)" by (intro used_indirect1) simp
    from indirect_read_ok [OF s used [OF this] card, of "\<lambda>ib s. do { b \<leftarrow> index_at ib (k - 28); Some (b, s) }"]
    show ?thesis using 2 by (simp add: get_block_id_def u file_block_id_def ids_def)
  next
    case 3
    define j where "j = k - 156"
    have "156 + j < unat (data_blocks d)" using 3 k by (simp add: j_def)
    then have i2: "indirect2 d \<in> set (used_ids v d)" and e: "ids v (indirect2 d) ! (j div 128) \<in> set (used_ids v d)"
      by (auto intro: used_indirect2 used_indirect2_entry)
    have j: "j div 128 < 128" using \<open>k < 16540\<close> by (simp add: j_def)
    from indirect_read_ok [OF s used [OF i2] card, of "\<lambda>ib s. do { b \<leftarrow> index_at ib (j div 128); Some (b, s) }"] j
    obtain s1 where s1: "cache_read bd IndirectBlock (unat (indirect2 d)) 0
        (\<lambda>ib s. do { b \<leftarrow> index_at ib (j div 128); Some (b, s) }) s = Some (ids v (indirect2 d) ! (j div 128), s1)"
      "st H v s1" by (auto simp: ids_def)
    from indirect_read_ok [OF s1(2) used [OF e] card, of "\<lambda>ib s. do { b \<leftarrow> index_at ib (j mod 128); Some (b, s) }"]
    show ?thesis
      using 3 s1(1) unfolding get_block_id_def u Let_def by (simp add: file_block_id_def ids_def flip: j_def)
  qed
qed

end

section \<open>Reading\<close>

lemma same_block: "start \<le> i \<Longrightarrow> i < (start div 512 + 1) * 512 \<Longrightarrow> i div 512 = start div (512 :: nat)"
  by (metis Suc_eq_plus1 div_le_mono le_antisym less_Suc_eq_le less_mult_imp_div_less)

lemma block_fit: "start \<le> e \<Longrightarrow> e \<le> (start div 512 + 1) * 512 \<Longrightarrow> start mod 512 + (e - start) \<le> (512 :: nat)"
proof -
  have gen: "start = q * 512 + r \<Longrightarrow> start \<le> e \<Longrightarrow> e \<le> (q + 1) * 512 \<Longrightarrow> r + (e - start) \<le> 512" for q r :: nat
    by simp
  show "start \<le> e \<Longrightarrow> e \<le> (start div 512 + 1) * 512 \<Longrightarrow> start mod 512 + (e - start) \<le> 512"
    by (rule gen) simp_all
qed

text \<open>A run of bytes inside one block is a slice of the file.\<close>

lemma block_slice:
  assumes "start \<le> e" "e \<le> (start div 512 + 1) * 512" "e \<le> unat (di_size d)"
    and "length (v (unat (file_block_id v d (start div 512)))) = 512"
  shows "slice_at (start mod 512) (e - start) (v (unat (file_block_id v d (start div 512)))) =
    slice_at start (e - start) (file_bytes v d)"
proof (rule nth_equalityI)
  have fit: "start mod 512 + (e - start) \<le> 512" by (rule block_fit [OF assms(1,2)])
  show "length (slice_at (start mod 512) (e - start) (v (unat (file_block_id v d (start div 512))))) =
      length (slice_at start (e - start) (file_bytes v d))"
    using fit assms by simp
  fix i assume "i < length (slice_at (start mod 512) (e - start) (v (unat (file_block_id v d (start div 512)))))"
  then have i: "i < e - start" using fit assms(4) by simp
  have "(start + i) div 512 = start div 512" by (rule same_block) (use i assms(1,2) in auto)
  moreover have "(start + i) mod 512 = start mod 512 + i"
  proof -
    have "(start + i) mod 512 = (start mod 512 + i) mod 512" by (simp add: mod_simps)
    then show ?thesis using i fit by simp
  qed
  ultimately show "slice_at (start mod 512) (e - start) (v (unat (file_block_id v d (start div 512)))) ! i =
      slice_at start (e - start) (file_bytes v d) ! i"
    using i fit assms by (simp add: nth_slice file_bytes_def byte_at_def BLOCK_SZ_def)
qed

context block_dev
begin

lemma data_read_ok:
  assumes s: "st H v s" and wf: "wf_inode nblocks (dom H) v d" and card: "card (dom H) < BLOCK_CACHE_SIZE"
    and k: "k < unat (data_blocks d)" and f: "\<And>s. f (v (unat (file_block_id v d k))) s = Some (r, s)"
  shows "\<exists>s'. cache_read bd DataBlock (unat (file_block_id v d k)) 0 f s = Some (r, s') \<and> st H v s'"
proof -
  note used = wf_used [OF wf used_data [OF k]]
  show ?thesis
    by (rule cache_read_ok [OF s used card]) (use st_length [OF s used(1)] f in auto)
qed

lemma read_loop_ok:
  assumes "st H v s" and wf: "wf_inode nblocks (dom H) v d" and card: "card (dom H) < BLOCK_CACHE_SIZE"
    and "start < stop" "stop \<le> unat (di_size d)" "rs + (stop - start) \<le> length buf"
  shows "\<exists>s'. read_loop bd d start (start div BLOCK_SZ) stop rs buf s =
      Some (rs + (stop - start), splice_at rs (slice_at start (stop - start) (file_bytes v d)) buf, s') \<and> st H v s'"
  using assms(1,4-)
proof (induction "stop - start" arbitrary: start rs buf s rule: less_induct)
  case less
  let ?k = "start div 512" and ?e = "min ((start div 512 + 1) * 512) stop"
  let ?b = "unat (file_block_id v d ?k)"
  have e: "start < ?e" "?e \<le> stop" using less.prems(2) by (simp_all add: dividend_less_times_div)
  have k: "?k < unat (data_blocks d)"
    by (rule wf_block_index [OF wf]) (use less.prems in simp)
  have fit: "start mod 512 + (?e - start) \<le> 512" by (rule block_fit) (use e in auto)
  from get_block_id_ok [OF less.prems(1) wf card k] obtain s1 where
    s1: "get_block_id bd d (of_nat ?k) s = Some (file_block_id v d ?k, s1)" "st H v s1" by blast
  have len: "length (v ?b) = 512"
    using st_length [OF s1(2) wf_used(1) [OF wf used_data [OF k]]] by (simp add: BLOCK_SZ_def)
  let ?buf = "splice_at rs (slice_at start (?e - start) (file_bytes v d)) buf"
  have "\<exists>s'. cache_read bd DataBlock ?b 0 (\<lambda>data_block s.
      do { assert_that (start mod 512 + (?e - start) \<le> length data_block);
           Some (splice_at rs (slice_at (start mod 512) (?e - start) data_block) buf, s) }) s1 = Some (?buf, s') \<and> st H v s'"
    by (rule data_read_ok [OF s1(2) wf card k])
      (use fit len e less.prems block_slice [where start = start and e = ?e and v = v and d = d, OF _ _ _ len] in simp)
  then obtain s2 where s2: "cache_read bd DataBlock ?b 0 (\<lambda>data_block s.
      do { assert_that (start mod 512 + (?e - start) \<le> length data_block);
           Some (splice_at rs (slice_at (start mod 512) (?e - start) data_block) buf, s) }) s1 = Some (?buf, s2)"
    "st H v s2" by blast
  have fits: "rs + (?e - start) \<le> length buf" using less.prems(4) e by linarith
  have step: "read_loop bd d start (start div BLOCK_SZ) stop rs buf s =
      (if ?e = stop then Some (rs + (?e - start), ?buf, s2)
       else read_loop bd d ?e (?k + 1) stop (rs + (?e - start)) ?buf s2)"
    using fits s1(1) s2(1) by (subst read_loop.simps) (simp add: BLOCK_SZ_def Let_def)
  show ?case
  proof (cases "?e = stop")
    case True
    then show ?thesis using step s2(2) by simp
  next
    case False
    then have ee: "?e = (?k + 1) * 512" "?e < stop" using e by (auto simp: min_def split: if_splits)
    then have k1: "?e div BLOCK_SZ = ?k + 1" by (simp add: BLOCK_SZ_def)
    have len': "length ?buf = length buf" using less.prems e fits by simp
    have "stop - ?e < stop - start" using e ee by linarith
    moreover have "rs + (?e - start) + (stop - ?e) \<le> length ?buf" using less.prems(4) e len' by linarith
    ultimately obtain s3 where s3: "read_loop bd d ?e (?e div BLOCK_SZ) stop (rs + (?e - start)) ?buf s2 =
        Some (rs + (?e - start) + (stop - ?e), splice_at (rs + (?e - start)) (slice_at ?e (stop - ?e) (file_bytes v d)) ?buf, s3)"
      "st H v s3" using less.hyps [OF _ s2(2) ee(2) less.prems(3)] by blast
    have "splice_at (rs + (?e - start)) (slice_at (start + (?e - start)) (stop - ?e) (file_bytes v d)) ?buf =
        splice_at rs (slice_at start ((?e - start) + (stop - ?e)) (file_bytes v d)) buf"
      by (rule splice_slice_chunks) (use less.prems e in auto)
    moreover have "start + (?e - start) = ?e" "(?e - start) + (stop - ?e) = stop - start" using e by linarith+
    ultimately have fin: "splice_at (rs + (?e - start)) (slice_at ?e (stop - ?e) (file_bytes v d)) ?buf =
        splice_at rs (slice_at start (stop - start) (file_bytes v d)) buf" by metis
    have cnt: "rs + (?e - start) + (stop - ?e) = rs + (stop - start)" using e by linarith
    have "read_loop bd d start (start div BLOCK_SZ) stop rs buf s =
        Some (rs + (stop - start), splice_at rs (slice_at start (stop - start) (file_bytes v d)) buf, s3)"
      using step s3(1) unfolding if_not_P [OF False] k1 cnt fin by (rule trans)
    then show ?thesis using s3(2) by blast
  qed
qed

lemma read_at_ok:
  assumes "st H v s" "wf_inode nblocks (dom H) v d" "card (dom H) < BLOCK_CACHE_SIZE"
  shows "\<exists>s'. DiskInode_read_at bd d off buf s =
      (let n = min (off + length buf) (unat (di_size d)) - off
       in Some (n, splice_at 0 (slice_at off n (file_bytes v d)) buf, s')) \<and> st H v s'"
proof (cases "off < min (off + length buf) (unat (di_size d))")
  case True
  then have "\<not> min (off + length buf) (unat (di_size d)) \<le> off" by linarith
  with read_loop_ok [OF assms True, of 0 buf] show ?thesis
    by (simp del: min_less_iff_conj min_le_iff_disj add: DiskInode_read_at_def Let_def)
next
  case False
  with assms(1) show ?thesis by (auto simp: DiskInode_read_at_def Let_def slice_at_def)
qed

end

section \<open>Writing\<close>

definition same_outside :: "nat set \<Rightarrow> (nat \<Rightarrow> bytes) \<Rightarrow> (nat \<Rightarrow> bytes) \<Rightarrow> bool" where
  "same_outside S v v' \<longleftrightarrow> (\<forall>b. b \<notin> S \<longrightarrow> v' b = v b)"

lemma same_outside_refl [simp]: "same_outside S v v"
  by (simp add: same_outside_def)

lemma same_outside_trans: "same_outside S v v' \<Longrightarrow> same_outside T v' v'' \<Longrightarrow> S \<subseteq> U \<Longrightarrow> T \<subseteq> U \<Longrightarrow> same_outside U v v''"
  by (force simp: same_outside_def)

lemma same_outside_upd: "b \<in> S \<Longrightarrow> same_outside S v (v(b := x))"
  by (auto simp: same_outside_def)

text \<open>The block map depends on the indirect blocks alone.\<close>

lemma block_map_cong:
  assumes "\<And>b. b \<in> set (meta_ids v d n) \<Longrightarrow> v' (unat b) = v (unat b)"
  shows "k < n \<Longrightarrow> file_block_id v' d k = file_block_id v d k" "meta_ids v' d n = meta_ids v d n"
proof -
  have i1: "n > 28 \<Longrightarrow> ids v' (indirect1 d) = ids v (indirect1 d)"
    and i2: "n > 156 \<Longrightarrow> ids v' (indirect2 d) = ids v (indirect2 d)"
    using assms by (simp_all add: meta_ids_def ids_def)
  have e: "ids v' (ids v (indirect2 d) ! (j div 128)) = ids v (ids v (indirect2 d) ! (j div 128))" if "156 + j < n" for j
    using that cdiv_less [of j "n - 156"] assms [of "ids v (indirect2 d) ! (j div 128)"]
    by (auto simp: meta_ids_def ids_def)
  show "meta_ids v' d n = meta_ids v d n" using i2 by (auto simp: meta_ids_def)
  assume "k < n"
  then show "file_block_id v' d k = file_block_id v d k"
    using i1 i2 e [of "k - 156"] by (auto simp: file_block_id_def)
qed

lemma used_ids_cong:
  "(\<And>b. b \<in> set (meta_ids v d (unat (data_blocks d))) \<Longrightarrow> v' (unat b) = v (unat b)) \<Longrightarrow> used_ids v' d = used_ids v d"
  using block_map_cong [of v d "unat (data_blocks d)" v'] by (auto simp: used_ids_def data_ids_def)

text \<open>Storing into a data block keeps the block map.\<close>

lemma wf_distinct:
  assumes "wf_inode nb X v d" "k < unat (data_blocks d)"
  shows "b \<in> set (meta_ids v d (unat (data_blocks d))) \<Longrightarrow> unat b \<noteq> unat (file_block_id v d k)"
    and "j < unat (data_blocks d) \<Longrightarrow> j \<noteq> k \<Longrightarrow> unat (file_block_id v d j) \<noteq> unat (file_block_id v d k)"
proof -
  have d: "distinct (used_ids v d)" using assms(1) by (simp add: wf_inode_def)
  have k: "file_block_id v d k \<in> set (data_ids v d (unat (data_blocks d)))"
    using assms(2) by (simp add: data_ids_def)
  show "b \<in> set (meta_ids v d (unat (data_blocks d))) \<Longrightarrow> unat b \<noteq> unat (file_block_id v d k)"
    using d k by (auto simp: used_ids_def simp flip: word_unat_eq_iff)
  show "j < unat (data_blocks d) \<Longrightarrow> j \<noteq> k \<Longrightarrow> unat (file_block_id v d j) \<noteq> unat (file_block_id v d k)"
    using d assms(2) by (auto simp: used_ids_def data_ids_def distinct_map inj_on_def simp flip: word_unat_eq_iff)
qed

lemma store_data_block:
  fixes bs :: bytes
  assumes wf: "wf_inode nb X v d" and k: "k < unat (data_blocks d)"
  defines "v' \<equiv> v(unat (file_block_id v d k) := bs)"
  shows "used_ids v' d = used_ids v d" "wf_inode nb X v' d"
    and "j < unat (data_blocks d) \<Longrightarrow> file_block_id v' d j = file_block_id v d j"
proof -
  have m: "v' (unat b) = v (unat b)" if "b \<in> set (meta_ids v d (unat (data_blocks d)))" for b
    using wf_distinct(1) [OF wf k that] by (simp add: v'_def)
  then show u: "used_ids v' d = used_ids v d" by (rule used_ids_cong)
  from u wf show "wf_inode nb X v' d" by (simp add: wf_inode_def)
  show "j < unat (data_blocks d) \<Longrightarrow> file_block_id v' d j = file_block_id v d j"
    by (rule block_map_cong(1)) (use m in auto)
qed

lemma file_bytes_store:
  assumes wf: "wf_inode nb X v d" and start: "start < unat (di_size d)"
    and fit: "start mod 512 + length xs \<le> 512" "start + length xs \<le> unat (di_size d)"
    and len: "length (v (unat (file_block_id v d (start div 512)))) = 512"
  defines "v' \<equiv> v(unat (file_block_id v d (start div 512)) :=
    splice_at (start mod 512) xs (v (unat (file_block_id v d (start div 512)))))"
  shows "file_bytes v' d = splice_at start xs (file_bytes v d)"
proof (rule nth_equalityI)
  note k = wf_block_index [OF wf start]
  show "length (file_bytes v' d) = length (splice_at start xs (file_bytes v d))" using fit by simp
  fix i assume "i < length (file_bytes v' d)"
  then have i: "i < unat (di_size d)" by simp
  note ki = wf_block_index [OF wf i]
  have fbi: "file_block_id v' d (i div 512) = file_block_id v d (i div 512)"
    unfolding v'_def by (rule store_data_block(3) [OF wf k ki])
  have "byte_at v' d i = (if start \<le> i \<and> i < start + length xs then xs ! (i - start) else byte_at v d i)"
  proof (cases "i div 512 = start div 512")
    case True
    have "i = (start div 512) * 512 + i mod 512" using True by (metis div_mult_mod_eq)
    moreover have "start = (start div 512) * 512 + start mod 512" by simp
    ultimately have "start \<le> i \<longleftrightarrow> start mod 512 \<le> i mod 512"
      "i < start + length xs \<longleftrightarrow> i mod 512 < start mod 512 + length xs" "i - start = i mod 512 - start mod 512"
      by linarith+
    moreover have "byte_at v' d i =
        splice_at (start mod 512) xs (v (unat (file_block_id v d (start div 512)))) ! (i mod 512)"
      using fbi True by (simp add: byte_at_def BLOCK_SZ_def v'_def)
    ultimately show ?thesis using fit(1) len True by (simp add: nth_splice byte_at_def BLOCK_SZ_def)
  next
    case False
    have "\<not> (start \<le> i \<and> i < start + length xs)"
    proof
      assume a: "start \<le> i \<and> i < start + length xs"
      have gen: "start = q * 512 + r \<Longrightarrow> r + length xs \<le> 512 \<Longrightarrow> i < (q + 1) * 512" for q r :: nat
        using a by simp
      have "i < (start div 512 + 1) * 512" by (rule gen [OF _ fit(1)]) simp
      with a same_block False show False by blast
    qed
    moreover have "byte_at v' d i = byte_at v d i"
      using fbi wf_distinct(2) [OF wf k ki False] by (simp add: byte_at_def BLOCK_SZ_def v'_def)
    ultimately show ?thesis by auto
  qed
  then show "file_bytes v' d ! i = splice_at start xs (file_bytes v d) ! i"
    using i fit by (simp add: file_bytes_def nth_splice)
qed

text \<open>What a write of \<open>xs\<close> at \<open>off\<close> into the file of \<open>d\<close> does to the disk.\<close>

definition file_written :: "nat \<Rightarrow> nat set \<Rightarrow> disk_inode \<Rightarrow> nat \<Rightarrow> bytes \<Rightarrow> (nat \<Rightarrow> bytes) \<Rightarrow> (nat \<Rightarrow> bytes) \<Rightarrow> bool" where
  "file_written nb X d off xs v v' \<longleftrightarrow>
     file_bytes v' d = splice_at off xs (file_bytes v d) \<and> used_ids v' d = used_ids v d \<and> wf_inode nb X v' d \<and>
     data_ids v' d (unat (data_blocks d)) = data_ids v d (unat (data_blocks d)) \<and>
     same_outside (unat ` set (data_ids v d (unat (data_blocks d)))) v v'"

lemma file_written_trans:
  assumes "file_written nb X d off xs v v1" "file_written nb X d (off + length xs) ys v1 v2"
    and "off + length xs + length ys \<le> unat (di_size d)"
  shows "file_written nb X d off (xs @ ys) v v2"
  using assms splice_splice_adjacent [of off xs ys "file_bytes v d"]
  by (auto simp: file_written_def intro: same_outside_trans)

context block_dev
begin

lemma data_write_ok:
  assumes s: "st H v s" and wf: "wf_inode nblocks (dom H) v d" and card: "card (dom H) < BLOCK_CACHE_SIZE"
    and k: "k < unat (data_blocks d)"
    and f: "\<And>s. f (v (unat (file_block_id v d k))) s = Some (bs, (), s)" "length bs = 512"
  shows "\<exists>s'. cache_modify bd DataBlock (unat (file_block_id v d k)) 0 f s = Some ((), s') \<and>
    st H (v(unat (file_block_id v d k) := bs)) s'"
proof -
  note used = wf_used [OF wf used_data [OF k]]
  have l: "length (v (unat (file_block_id v d k))) = BLOCK_SZ" by (rule st_length [OF s used(1)])
  have "\<exists>s'. cache_modify bd DataBlock (unat (file_block_id v d k)) 0 f s = Some ((), s') \<and>
    st H (v(unat (file_block_id v d k) := splice_at 0 (to_mem DataBlock bs) (v (unat (file_block_id v d k))))) s'"
    by (rule cache_modify_ok [OF s used card]) (use l f in \<open>auto simp: BLOCK_SZ_def\<close>)
  then show ?thesis using l f(2) by (simp add: BLOCK_SZ_def)
qed

lemma write_loop_ok:
  assumes "st H v s" "wf_inode nblocks (dom H) v d" and card: "card (dom H) < BLOCK_CACHE_SIZE"
    and "start < stop" "stop \<le> unat (di_size d)" "ws + (stop - start) \<le> length buf"
  shows "\<exists>s' v'. write_loop bd d start stop ws buf s = Some (ws + (stop - start), s') \<and> st H v' s' \<and>
      file_written nblocks (dom H) d start (slice_at ws (stop - start) buf) v v'"
  using assms(1,2,4-)
proof (induction "stop - start" arbitrary: start ws v s rule: less_induct)
  case less
  let ?k = "start div 512" let ?b = "unat (file_block_id v d ?k)"
  define e where "e = min ((start div 512 + 1) * 512) stop"
  have e: "start < e" "e \<le> stop" "e \<le> (start div 512 + 1) * 512"
    using less.prems(3) by (simp_all add: e_def dividend_less_times_div)
  let ?xs = "slice_at ws (e - start) buf"
  note wf = less.prems(2)
  have st_sz: "start < unat (di_size d)" using less.prems by simp
  note k = wf_block_index [OF wf st_sz]
  have fit: "start mod 512 + (e - start) \<le> 512" by (rule block_fit) (use e in auto)
  have fits: "ws + (e - start) \<le> length buf" using less.prems(5) e by linarith
  have lx: "length ?xs = e - start" using fits by simp
  from get_block_id_ok [OF less.prems(1) wf card k] obtain s1 where
    s1: "get_block_id bd d (of_nat ?k) s = Some (file_block_id v d ?k, s1)" "st H v s1" by blast
  have len: "length (v ?b) = 512"
    using st_length [OF s1(2) wf_used(1) [OF wf used_data [OF k]]] by (simp add: BLOCK_SZ_def)
  define v1 where "v1 = v(?b := splice_at (start mod 512) ?xs (v ?b))"
  have "\<exists>s'. cache_modify bd DataBlock ?b 0 (\<lambda>data_block s.
      do { assert_that (ws + (e - start) \<le> length buf);
           assert_that (start mod 512 + (e - start) \<le> length data_block);
           Some (splice_at (start mod 512) ?xs data_block, (), s) }) s1 = Some ((), s') \<and> st H v1 s'"
    unfolding v1_def by (rule data_write_ok [OF s1(2) wf card k]) (use fit fits lx len in simp_all)
  then obtain s2 where s2: "cache_modify bd DataBlock ?b 0 (\<lambda>data_block s.
      do { assert_that (ws + (e - start) \<le> length buf);
           assert_that (start mod 512 + (e - start) \<le> length data_block);
           Some (splice_at (start mod 512) ?xs data_block, (), s) }) s1 = Some ((), s2)" "st H v1 s2" by blast
  note store = store_data_block [OF wf k, where bs = "splice_at (start mod 512) ?xs (v ?b)", folded v1_def]
  have "file_bytes v1 d = splice_at start ?xs (file_bytes v d)"
    unfolding v1_def by (rule file_bytes_store [OF wf st_sz]) (use fit lx e less.prems len in auto)
  then have w1: "file_written nblocks (dom H) d start ?xs v v1"
    using store k by (auto simp: file_written_def data_ids_def v1_def intro: same_outside_upd)
  have step: "write_loop bd d start stop ws buf s =
      (if e = stop then Some (ws + (e - start), s2) else write_loop bd d e stop (ws + (e - start)) buf s2)"
    using s1(1) s2(1) by (subst write_loop.simps) (simp add: BLOCK_SZ_def Let_def flip: e_def [simplified])
  show ?case
  proof (cases "e = stop")
    case True
    then show ?thesis using step s2(2) w1 by auto
  next
    case False
    with e have "e < stop" "stop - e < stop - start" by auto
    then obtain s3 v3 where s3: "write_loop bd d e stop (ws + (e - start)) buf s2 = Some (ws + (e - start) + (stop - e), s3)"
      "st H v3 s3" "file_written nblocks (dom H) d e (slice_at (ws + (e - start)) (stop - e) buf) v1 v3"
      using less.hyps [of e v1 s2 "ws + (e - start)"] s2(2) store(2) less.prems e by auto
    have "file_written nblocks (dom H) d start (?xs @ slice_at (ws + (e - start)) (stop - e) buf) v v3"
      by (rule file_written_trans [OF w1]) (use s3(3) lx e less.prems in auto)
    moreover have "?xs @ slice_at (ws + (e - start)) (stop - e) buf = slice_at ws (stop - start) buf"
      using slice_append_slice [of ws "e - start" buf "stop - e"] e by simp
    ultimately show ?thesis using step False s3 e by auto
  qed
qed

lemma write_at_ok:
  fixes off :: nat and buf :: bytes
  assumes "st H v s" "wf_inode nblocks (dom H) v d" "card (dom H) < BLOCK_CACHE_SIZE"
  defines "n \<equiv> min (off + length buf) (unat (di_size d)) - off"
  shows "\<exists>s' v'. DiskInode_write_at bd d off buf s = Some (n, s') \<and> st H v' s' \<and>
    file_written nblocks (dom H) d off (take n buf) v v'"
proof (cases "off < min (off + length buf) (unat (di_size d))")
  case True
  then have "\<not> min (off + length buf) (unat (di_size d)) \<le> off" by linarith
  with write_loop_ok [OF assms(1-3) True, of 0 buf] show ?thesis
    by (simp del: min_less_iff_conj min_le_iff_disj add: DiskInode_write_at_def Let_def n_def slice_at_def)
next
  case False
  with assms(1,2) show ?thesis by (auto simp: DiskInode_write_at_def Let_def n_def file_written_def)
qed

end

end
