(* ===== verification/LayoutGrow.thy ===== *)
theory LayoutGrow
  imports LayoutSpec "HOL-Library.Multiset"
begin

text \<open>
  Growth and clearing of inodes: \<open>increase_size\<close> extends the block map by exactly the blocks
  it is given, keeping every block the inode had, and \<open>clear_size\<close> returns every block of the
  inode exactly once.
\<close>

section \<open>The loops of \<open>increase_size\<close>\<close>

lemma fill_loop_ok:
  "cur \<le> to' \<Longrightarrow> to' \<le> length arr \<Longrightarrow> to' - cur \<le> length nb \<Longrightarrow>
   fill_loop cur to' arr nb = Some (to', splice_at cur (take (to' - cur) nb) arr, drop (to' - cur) nb)"
proof (induction "to' - cur" arbitrary: cur arr nb)
  case 0
  then show ?case by (simp add: fill_loop.simps)
next
  case (Suc m)
  then obtain b nb' where nb: "nb = b # nb'" by (cases nb) auto
  from Suc have lt: "cur < to'" by simp
  have "fill_loop cur to' arr nb = fill_loop (Suc cur) to' (arr[cur := b]) nb'"
    using lt Suc.prems nb by (subst fill_loop.simps) simp
  also have "\<dots> = Some (to', splice_at (Suc cur) (take (to' - Suc cur) nb') (arr[cur := b]), drop (to' - Suc cur) nb')"
    by (rule Suc.hyps(1)) (use Suc nb in auto)
  also have "splice_at (Suc cur) (take (to' - Suc cur) nb') (arr[cur := b]) = splice_at cur (take (to' - cur) nb) arr"
    using Suc.prems nb lt
    by (intro nth_equalityI) (auto simp: nth_splice take_Cons' nth_Cons' nth_list_update)
  finally show ?case using lt nb by (simp add: drop_Cons')
qed

lemma fill_loop_skip: "to' \<le> cur \<Longrightarrow> fill_loop cur to' arr nb = Some (cur, arr, nb)"
  by (simp add: fill_loop.simps)

text \<open>The data blocks behind the doubly indirect block, given its contents \<open>ib\<close>.\<close>

definition entry :: "(nat \<Rightarrow> bytes) \<Rightarrow> u32 list \<Rightarrow> nat \<Rightarrow> u32" where
  "entry v ib k = ids v (ib ! (k div 128)) ! (k mod 128)"

definition grow2 :: "(nat \<Rightarrow> bytes) \<Rightarrow> u32 list \<Rightarrow> (nat \<Rightarrow> bytes) \<Rightarrow> u32 list \<Rightarrow> nat \<Rightarrow> nat \<Rightarrow> u32 set \<Rightarrow> bool" where
  "grow2 v ib v' ib' c t N \<longleftrightarrow>
     length ib' = 128 \<and> (\<forall>j<cdiv c. ib' ! j = ib ! j) \<and> (\<forall>k<c. entry v' ib' k = entry v ib k) \<and>
     entry v' ib' ` {c..<t} \<union> (!) ib' ` {cdiv c..<cdiv t} = N \<and>
     same_outside (unat ` (!) ib' ` {0..<cdiv t}) v v'"

lemma lex_less_128: "(c div 128 < t div 128 \<or> c div 128 = t div 128 \<and> c mod 128 < t mod 128) \<longleftrightarrow> c < (t :: nat)"
proof -
  have "c = c div 128 * 128 + c mod 128" "t = t div 128 * 128 + t mod 128" by simp_all
  moreover have "c mod 128 < 128" "t mod 128 < 128" by simp_all
  ultimately show ?thesis by linarith
qed

lemma cdiv_Suc: "cdiv (Suc c) = c div 128 + 1"
  by (simp add: cdiv_def)

lemma cdiv_cases: "cdiv c = (if c mod 128 = 0 then c div 128 else c div 128 + 1)"
proof -
  have "c + 127 = (c mod 128 + 127) + c div 128 * 128" by simp
  then have "cdiv c = (c mod 128 + 127) div 128 + c div 128"
    unfolding cdiv_def by (metis div_mult_self1 zero_neq_numeral add.commute)
  moreover have "(c mod 128 + 127) div 128 = (if c mod 128 = 0 then 0 else 1)"
    by (auto intro!: div_nat_eqI simp: Suc_le_eq) 
  ultimately show ?thesis by simp
qed

lemma cdiv_mono: "c \<le> t \<Longrightarrow> cdiv c \<le> cdiv t"
  by (simp add: cdiv_def div_le_mono)

lemma step_128:
  "c mod 128 + 1 = 128 \<Longrightarrow> Suc c div 128 = c div 128 + 1 \<and> Suc c mod 128 = 0"
  "c mod 128 + 1 \<noteq> 128 \<Longrightarrow> Suc c div 128 = c div 128 \<and> Suc c mod 128 = c mod 128 + 1"
  by (auto simp: div_Suc mod_Suc)

lemma ids_upd:
  "length xs = 128 \<Longrightarrow> ids (v(unat b := encode_array 4 xs)) a = (if a = b then xs else ids v a)"
  by (auto simp: ids_def simp flip: word_unat_eq_iff)

lemma entry_step:
  fixes v :: "nat \<Rightarrow> bytes" and y :: u32
  assumes len: "length ib = 128" "length ib1 = 128" and c: "c < 16384"
    and pre: "\<And>j. j < cdiv c \<Longrightarrow> ib1 ! j = ib ! j"
    and dist: "distinct (map ((!) ib1) [0..<cdiv (Suc c)])"
    and x: "ib1 ! (c div 128) = x"
  defines "v1 \<equiv> v(unat x := encode_array 4 ((ids v x)[c mod 128 := y]))"
  shows "entry v1 ib1 c = y" "k < c \<Longrightarrow> entry v1 ib1 k = entry v ib k"
proof -
  have l: "length (ids v b) = 128" for b by (simp add: ids_def)
  show "entry v1 ib1 c = y" by (simp add: entry_def v1_def x ids_upd l)
  assume k: "k < c"
  have kc: "k div 128 < cdiv c" by (rule cdiv_less [OF k])
  show "entry v1 ib1 k = entry v ib k"
  proof (cases "k div 128 = c div 128")
    case True
    with k have "k mod 128 \<noteq> c mod 128" by (metis div_mult_mod_eq less_irrefl)
    then show ?thesis using True pre [OF kc] x by (simp add: entry_def v1_def ids_upd l)
  next
    case False
    have "c div 128 < cdiv (Suc c)" "k div 128 < cdiv (Suc c)"
      using div_le_mono [of k c 128] k by (simp_all add: cdiv_Suc)
    then have "ib1 ! (k div 128) \<noteq> x" using dist False x by (auto simp: distinct_map inj_on_def)
    then show ?thesis using pre [OF kc] by (simp add: entry_def v1_def ids_upd l)
  qed
qed

lemma grow2_step:
  assumes len: "length ib = 128" "length ib1 = 128" and c: "c < t" "t \<le> 16384"
    and pre: "\<And>j. j < cdiv c \<Longrightarrow> ib1 ! j = ib ! j"
    and dist: "distinct (map ((!) ib1) [0..<cdiv (Suc c)])"
    and x: "ib1 ! (c div 128) = x"
    and rest: "grow2 (v(unat x := encode_array 4 ((ids v x)[c mod 128 := y]))) ib1 v' ib' (Suc c) t N"
    and N: "N' = insert y ((!) ib1 ` {cdiv c..<cdiv (Suc c)} \<union> N)"
  shows "grow2 v ib v' ib' c t N'"
proof -
  let ?v1 = "v(unat x := encode_array 4 ((ids v x)[c mod 128 := y]))"
  from rest have r: "length ib' = 128" "\<And>j. j < cdiv (Suc c) \<Longrightarrow> ib' ! j = ib1 ! j"
    "\<And>k. k < Suc c \<Longrightarrow> entry v' ib' k = entry ?v1 ib1 k"
    "entry v' ib' ` {Suc c..<t} \<union> (!) ib' ` {cdiv (Suc c)..<cdiv t} = N"
    "same_outside (unat ` (!) ib' ` {0..<cdiv t}) ?v1 v'"
    by (auto simp: grow2_def)
  have "c < 16384" using c by simp
  note es = entry_step [OF len this pre dist x, where v = v and y = y]
  have cs: "cdiv c \<le> cdiv (Suc c)" "cdiv (Suc c) \<le> cdiv t" "c div 128 < cdiv (Suc c)"
    using c cdiv_mono [of c "Suc c"] cdiv_mono [of "Suc c" t] by (simp_all add: cdiv_Suc)
  have "{c..<t} = insert c {Suc c..<t}" "{cdiv c..<cdiv t} = {cdiv c..<cdiv (Suc c)} \<union> {cdiv (Suc c)..<cdiv t}"
    using c cs by auto
  moreover have "(!) ib' ` {cdiv c..<cdiv (Suc c)} = (!) ib1 ` {cdiv c..<cdiv (Suc c)}"
    using r(2) by (intro image_cong) auto
  ultimately have img: "entry v' ib' ` {c..<t} \<union> (!) ib' ` {cdiv c..<cdiv t} = N'"
    using r(3) [of c] es(1) r(4) N by (auto simp: image_Un)
  have "unat x \<in> unat ` (!) ib' ` {0..<cdiv t}"
  proof (intro imageI image_eqI)
    show "x = ib' ! (c div 128)" using x r(2) [OF cs(3)] by simp
    show "c div 128 \<in> {0..<cdiv t}" using cs by simp
  qed
  then have "same_outside (unat ` (!) ib' ` {0..<cdiv t}) v v'"
    by (rule same_outside_trans [OF same_outside_upd r(5) order_refl order_refl])
  moreover have "ib' ! j = ib ! j" if "j < cdiv c" for j
    using r(2) [of j] pre [OF that] that cs(1) by simp
  moreover have "entry v' ib' k = entry v ib k" if "k < c" for k
    using r(3) [of k] es(2) [of k] pre that by simp
  ultimately show ?thesis using r(1) img by (simp add: grow2_def)
qed

definition ok_id :: "nat \<Rightarrow> (nat \<rightharpoonup> bool) \<Rightarrow> u32 \<Rightarrow> bool" where
  "ok_id nb H b \<longleftrightarrow> unat b < nb \<and> unat b \<notin> dom H"

context block_dev
begin

lemma indirect_modify_ok:
  assumes s: "st H v s" and b: "unat b < nblocks" "unat b \<notin> dom H" and card: "card (dom H) < BLOCK_CACHE_SIZE"
    and f: "\<And>s1. st (H(unat b \<mapsto> True)) v s1 \<Longrightarrow>
      \<exists>s2. f (ids v b) s1 = Some (xs, r, s2) \<and> st (H(unat b \<mapsto> True)) v' s2"
    and xs: "length xs = 128"
  shows "\<exists>s'. cache_modify bd IndirectBlock (unat b) 0 f s = Some (r, s') \<and>
    st H (v'(unat b := encode_array 4 xs)) s'"
proof -
  have l: "length (v (unat b)) = 512" using st_length [OF s b(1)] by (simp add: BLOCK_SZ_def)
  have "\<exists>s'. cache_modify bd IndirectBlock (unat b) 0 f s = Some (r, s') \<and>
    st H (v'(unat b := splice_at 0 (to_mem IndirectBlock xs) (v' (unat b)))) s'"
    by (rule cache_modify_ok [OF s b card]) (use l f xs in \<open>simp_all add: ids_def BLOCK_SZ_def\<close>)
  then obtain s' where s': "cache_modify bd IndirectBlock (unat b) 0 f s = Some (r, s')"
    "st H (v'(unat b := splice_at 0 (encode_array 4 xs) (v' (unat b)))) s'" by auto
  from st_length [OF s'(2) b(1)] have "length (splice_at 0 (encode_array 4 xs) (v' (unat b))) = 512"
    by (simp add: BLOCK_SZ_def)
  then have "length (v' (unat b)) \<le> 512"
    using xs by (auto simp: splice_at_def split: if_splits)
  then have "splice_at 0 (encode_array 4 xs) (v' (unat b)) = encode_array 4 xs"
    using xs by (simp add: splice_at_def)
  with s' show ?thesis by auto
qed

lemma fill2_loop_ok:
  assumes "st H v s" and card: "card (dom H) < BLOCK_CACHE_SIZE" and t: "t \<le> 16384"
    and "c \<le> t" "length ib = 128" "length nb = (t - c) + (cdiv t - cdiv c)"
    and "distinct (map ((!) ib) [0..<cdiv c] @ nb)"
    and "\<And>b. b \<in> set (map ((!) ib) [0..<cdiv c] @ nb) \<Longrightarrow> ok_id nblocks H b"
  shows "\<exists>s' v' ib'. fill2_loop bd (c div 128) (c mod 128) (t div 128) (t mod 128) ib nb s = Some (ib', [], s') \<and>
    st H v' s' \<and> grow2 v ib v' ib' c t (set nb)"
  using assms(1,4-)
proof (induction "t - c" arbitrary: c v s ib nb)
  case 0
  then have "c = t" by simp
  with 0 show ?case by (subst fill2_loop.simps) (auto simp: grow2_def)
next
  case (Suc m)
  let ?a = "c div 128" and ?b = "c mod 128"
  have lt: "c < t" using Suc.hyps(2) by simp
  then have a: "?a < 128" using t by simp
  have cds: "cdiv (Suc c) = ?a + 1" by (rule cdiv_Suc)
  have cmt: "cdiv (Suc c) \<le> cdiv t" by (rule cdiv_mono) (use lt in simp)
  have "\<exists>x y nb' ib1. (if ?b = 0 then
          (case nb of [] \<Rightarrow> None | b # nb \<Rightarrow> do { assert_that (?a < length ib); Some (ib[?a := b], nb) })
        else Some (ib, nb)) = Some (ib1, y # nb') \<and>
      length ib1 = 128 \<and> ib1 ! ?a = x \<and> (\<forall>j<cdiv c. ib1 ! j = ib ! j) \<and>
      distinct (map ((!) ib1) [0..<cdiv (Suc c)] @ y # nb') \<and>
      (\<forall>b\<in>set (map ((!) ib1) [0..<cdiv (Suc c)] @ y # nb'). ok_id nblocks H b) \<and>
      length nb' = (t - Suc c) + (cdiv t - cdiv (Suc c)) \<and>
      set nb = insert y ((!) ib1 ` {cdiv c..<cdiv (Suc c)} \<union> set nb')"
  proof (cases "?b = 0")
    case True
    then have cc: "cdiv c = ?a" by (simp add: cdiv_cases)
    have "length nb = Suc (Suc ((t - Suc c) + (cdiv t - cdiv (Suc c))))"
      using Suc.prems(4) lt cmt unfolding cds cc by linarith
    then obtain x y nb' where nb: "nb = x # y # nb'" "length nb' = (t - Suc c) + (cdiv t - cdiv (Suc c))"
      by (auto simp only: length_Suc_conv)
    have m: "map ((!) (ib[?a := x])) [0..<cdiv (Suc c)] = map ((!) ib) [0..<?a] @ [x]"
      using a Suc.prems(3) by (simp add: cds)
    have e: "map ((!) (ib[?a := x])) [0..<cdiv (Suc c)] @ y # nb' = map ((!) ib) [0..<cdiv c] @ nb"
      unfolding m nb(1) cc by simp
    have img: "(!) (ib[?a := x]) ` {cdiv c..<cdiv (Suc c)} = {x}"
      using a Suc.prems(3) by (simp add: cds cc)
    show ?thesis
    proof (intro exI conjI)
      show "(if ?b = 0 then
          (case nb of [] \<Rightarrow> None | b # nb \<Rightarrow> do { assert_that (?a < length ib); Some (ib[?a := b], nb) })
        else Some (ib, nb)) = Some (ib[?a := x], y # nb')"
        using True nb a Suc.prems(3) by simp
      show "length (ib[?a := x]) = 128" "ib[?a := x] ! ?a = x" using Suc.prems(3) a by simp_all
      show "\<forall>j<cdiv c. ib[?a := x] ! j = ib ! j" by (simp add: cc)
      show "distinct (map ((!) (ib[?a := x])) [0..<cdiv (Suc c)] @ y # nb')" unfolding e by (rule Suc.prems(5))
      show "\<forall>b\<in>set (map ((!) (ib[?a := x])) [0..<cdiv (Suc c)] @ y # nb'). ok_id nblocks H b"
        unfolding e using Suc.prems(6) by blast
      show "length nb' = (t - Suc c) + (cdiv t - cdiv (Suc c))" by (rule nb(2))
      show "set nb = insert y ((!) (ib[?a := x]) ` {cdiv c..<cdiv (Suc c)} \<union> set nb')"
        unfolding img using nb(1) by auto
    qed
  next
    case False
    then have cc: "cdiv c = ?a + 1" by (simp add: cdiv_cases)
    have "length nb = Suc ((t - Suc c) + (cdiv t - cdiv (Suc c)))"
      using Suc.prems(4) lt unfolding cds cc by linarith
    then obtain y nb' where nb: "nb = y # nb'" "length nb' = (t - Suc c) + (cdiv t - cdiv (Suc c))"
      by (metis length_Suc_conv)
    show ?thesis
      by (rule exI [where x = "ib ! ?a"], rule exI [where x = y], rule exI [where x = nb'], rule exI [where x = ib])
        (use False nb Suc.prems(3,5,6) cc cds in auto)
  qed
  then obtain x y nb' ib1 where p: "(if ?b = 0 then
          (case nb of [] \<Rightarrow> None | b # nb \<Rightarrow> do { assert_that (?a < length ib); Some (ib[?a := b], nb) })
        else Some (ib, nb)) = Some (ib1, y # nb')"
      "length ib1 = 128" "ib1 ! ?a = x" "\<And>j. j < cdiv c \<Longrightarrow> ib1 ! j = ib ! j"
      "distinct (map ((!) ib1) [0..<cdiv (Suc c)] @ y # nb')"
      "\<And>b. b \<in> set (map ((!) ib1) [0..<cdiv (Suc c)] @ y # nb') \<Longrightarrow> ok_id nblocks H b"
      "length nb' = (t - Suc c) + (cdiv t - cdiv (Suc c))"
      "set nb = insert y ((!) ib1 ` {cdiv c..<cdiv (Suc c)} \<union> set nb')" by blast
  let ?v1 = "v(unat x := encode_array 4 ((ids v x)[?b := y]))"
  have x: "unat x < nblocks" "unat x \<notin> dom H" using p(6) [of x] p(3) by (auto simp: ok_id_def cds)
  have "\<exists>s'. cache_modify bd IndirectBlock (unat x) 0
      (\<lambda>ib1 s. case y # nb' of [] \<Rightarrow> None | b # nb \<Rightarrow> Some (ib1[?b := b], nb, s)) s = Some (nb', s') \<and> st H ?v1 s'"
    by (rule indirect_modify_ok [OF Suc.prems(1) x card]) (simp_all add: ids_def)
  then obtain s1 where s1: "cache_modify bd IndirectBlock (unat x) 0
      (\<lambda>ib1 s. case y # nb' of [] \<Rightarrow> None | b # nb \<Rightarrow> Some (ib1[?b := b], nb, s)) s = Some (nb', s1)" "st H ?v1 s1"
    by blast
  have "\<exists>s' v' ib'. fill2_loop bd (Suc c div 128) (Suc c mod 128) (t div 128) (t mod 128) ib1 nb' s1 = Some (ib', [], s') \<and>
      st H v' s' \<and> grow2 ?v1 ib1 v' ib' (Suc c) t (set nb')"
    by (rule Suc.hyps(1)) (use Suc.hyps(2) s1(2) lt p in auto)
  then obtain s' v' ib' where r: "fill2_loop bd (Suc c div 128) (Suc c mod 128) (t div 128) (t mod 128) ib1 nb' s1 = Some (ib', [], s')"
      "st H v' s'" "grow2 ?v1 ib1 v' ib' (Suc c) t (set nb')" by blast
  have "fill2_loop bd ?a ?b (t div 128) (t mod 128) ib nb s =
      fill2_loop bd (Suc c div 128) (Suc c mod 128) (t div 128) (t mod 128) ib1 nb' s1"
  proof -
    have cond: "?a < t div 128 \<or> ?a = t div 128 \<and> ?b < t mod 128" using lt lex_less_128 by blast
    note unf = fill2_loop.simps [of bd ?a ?b "t div 128" "t mod 128" ib nb s, unfolded if_P [OF cond] p(1)]
    have ix: "index_at ib1 ?a = Some x" using a p(2,3) by simp
    show ?thesis
      by (cases "?b + 1 = 128"; simp only: unf bind.bind_lunit prod.case ix s1(1) layout_consts)
        (use step_128 [of c] in simp_all)
  qed
  moreover have "grow2 v ib v' ib' c t (set nb)"
    by (rule grow2_step [OF Suc.prems(3) p(2) lt t p(4) _ p(3) r(3) p(8)]) (use p(5) in auto)
  ultimately show ?case using r by auto
qed

end

section \<open>The three stages of \<open>increase_size\<close>\<close>

text \<open>
  The inode \<open>d\<close> with \<open>n\<close> data blocks becomes \<open>d'\<close> with \<open>n'\<close> data blocks, taking the blocks
  \<open>N\<close>: the blocks it had stay where they were in the file.
\<close>

definition extends :: "(nat \<Rightarrow> bytes) \<Rightarrow> disk_inode \<Rightarrow> nat \<Rightarrow> (nat \<Rightarrow> bytes) \<Rightarrow> disk_inode \<Rightarrow> nat \<Rightarrow> u32 set \<Rightarrow> bool" where
  "extends v d n v' d' n' N \<longleftrightarrow>
     (\<forall>k<n. file_block_id v' d' k = file_block_id v d k) \<and>
     file_block_id v' d' ` {n..<n'} \<union> set (meta_ids v' d' n') = set (meta_ids v d n) \<union> N \<and>
     set (meta_ids v d n) \<subseteq> set (meta_ids v' d' n') \<and>
     same_outside (unat ` set (meta_ids v' d' n')) v v'"

lemma extends_refl: "extends v d n v d n {}"
  by (simp add: extends_def)

lemma extends_trans:
  assumes "extends v d n v1 d1 n1 N" "extends v1 d1 n1 v2 d2 n2 M" "n \<le> n1" "n1 \<le> n2"
  shows "extends v d n v2 d2 n2 (N \<union> M)"
proof -
  note e1 = assms(1) [unfolded extends_def] and e2 = assms(2) [unfolded extends_def]
  have s: "{n..<n2} = {n..<n1} \<union> {n1..<n2}" using assms(3,4) by auto
  have A: "file_block_id v2 d2 ` {n..<n1} = file_block_id v1 d1 ` {n..<n1}"
    using e2 by (intro image_cong) auto
  from e1 have E1: "file_block_id v1 d1 ` {n..<n1} \<union> set (meta_ids v1 d1 n1) = set (meta_ids v d n) \<union> N" by blast
  from e2 have E2: "file_block_id v2 d2 ` {n1..<n2} \<union> set (meta_ids v2 d2 n2) = set (meta_ids v1 d1 n1) \<union> M" by blast
  have "file_block_id v2 d2 ` {n..<n2} \<union> set (meta_ids v2 d2 n2) = set (meta_ids v d n) \<union> (N \<union> M)"
    unfolding s image_Un A Un_assoc E2 by (simp only: Un_assoc [symmetric] E1)
  moreover have "same_outside (unat ` set (meta_ids v2 d2 n2)) v v2"
    by (rule same_outside_trans [of "unat ` set (meta_ids v1 d1 n1)" v v1]) (use e1 e2 in \<open>blast+\<close>)
  moreover have "\<forall>k<n. file_block_id v2 d2 k = file_block_id v d k" using e1 e2 assms(3) by simp
  moreover have "set (meta_ids v d n) \<subseteq> set (meta_ids v2 d2 n2)" using e1 e2 by blast
  ultimately show ?thesis unfolding extends_def by blast
qed

lemma image_nth_shift:
  assumes "n \<le> n'" "length xs = n' - n" "\<And>j. j < n' - n \<Longrightarrow> f (n + j) = xs ! j"
  shows "f ` {n..<n'} = set xs"
proof -
  have "f ` {n..<n'} = (\<lambda>j. f (n + j)) ` {0..<n' - n}"
    using assms(1) by (simp add: image_image [symmetric, of _ "(+) n"] image_add_atLeastLessThan)
  also have "\<dots> = (!) xs ` {0..<n' - n}" using assms(3) by (intro image_cong) auto
  also have "\<dots> = set xs" using assms(2) by (metis set_map map_nth set_upt)
  finally show ?thesis .
qed

lemma extends_direct:
  assumes "n \<le> n'" "n' \<le> 28" "length (direct d) = 28" "length xs = n' - n"
  shows "extends v d n v (d\<lparr>direct := splice_at n xs (direct d)\<rparr>) n' (set xs)"
proof -
  let ?d = "d\<lparr>direct := splice_at n xs (direct d)\<rparr>"
  have new: "file_block_id v ?d (n + j) = xs ! j" if "j < n' - n" for j
  proof -
    have "n + j < 28" "n + j < n'" using that assms by linarith+
    then show ?thesis using that assms by (simp add: file_block_id_def nth_splice)
  qed
  have "file_block_id v ?d ` {n..<n'} = set xs" by (rule image_nth_shift) (use assms new in auto)
  then show ?thesis
    using assms by (auto simp: extends_def meta_ids_def file_block_id_def nth_splice)
qed

text \<open>Blocks 28 to 155; \<open>i1\<close> is new exactly if there were only direct blocks.\<close>

lemma extends_indirect1:
  assumes n: "28 \<le> n" "n \<le> n'" "28 < n'" "n' \<le> 156" and len: "length xs = n' - n"
    and i1: "if n = 28 then N = insert i1 (set xs) else i1 = indirect1 d \<and> N = set xs"
  shows "extends v d n (v(unat i1 := encode_array 4 (splice_at (n - 28) xs (ids v i1)))) (d\<lparr>indirect1 := i1\<rparr>) n' N"
proof -
  let ?d = "d\<lparr>indirect1 := i1\<rparr>" and ?v = "v(unat i1 := encode_array 4 (splice_at (n - 28) xs (ids v i1)))"
  have l: "length (ids v i1) = 128" by (simp add: ids_def)
  have lx: "n - 28 + length xs \<le> 128" using n len by simp
  have ids: "ids ?v i1 = splice_at (n - 28) xs (ids v i1)" using l lx by (simp add: ids_upd)
  have fbi: "file_block_id ?v ?d k = splice_at (n - 28) xs (ids v i1) ! (k - 28)" if "28 \<le> k" "k < 156" for k
    using that ids by (simp add: file_block_id_def)
  have new: "file_block_id ?v ?d (n + j) = xs ! j" if "j < n' - n" for j
    using that n len l lx by (subst fbi) (auto simp: nth_splice)
  have img: "file_block_id ?v ?d ` {n..<n'} = set xs" by (rule image_nth_shift) (use n len new in auto)
  have old: "file_block_id ?v ?d k = file_block_id v d k" if k: "k < n" for k
  proof (cases "k < 28")
    case False
    with k have "n \<noteq> 28" "k < 156" using n by auto
    then show ?thesis using False k i1 lx l by (subst fbi) (auto simp: nth_splice file_block_id_def)
  qed (simp add: file_block_id_def)
  show ?thesis
    unfolding extends_def img using old n i1
    by (auto simp: meta_ids_def intro!: same_outside_upd split: if_splits)
qed

text \<open>Blocks from 156 on; \<open>i2\<close> is new exactly if there were none of them.\<close>

lemma extends_indirect2:
  assumes n: "156 \<le> n" "n \<le> n'" "156 < n'"
    and g: "grow2 v (ids v i2) v1 ib' (n - 156) (n' - 156) M"
    and i2: "if n = 156 then N = insert i2 M else i2 = indirect2 d \<and> N = M"
    and fresh: "i2 \<notin> (!) ib' ` {0..<cdiv (n' - 156)}" "indirect1 d \<notin> (!) ib' ` {0..<cdiv (n' - 156)}" "i2 \<noteq> indirect1 d"
  shows "extends v d n (v1(unat i2 := encode_array 4 ib')) (d\<lparr>indirect2 := i2\<rparr>) n' N"
proof -
  let ?v = "v1(unat i2 := encode_array 4 ib')" and ?d = "d\<lparr>indirect2 := i2\<rparr>"
  from g have len: "length ib' = 128" and pre: "\<And>j. j < cdiv (n - 156) \<Longrightarrow> ib' ! j = ids v i2 ! j"
    and old: "\<And>k. k < n - 156 \<Longrightarrow> entry v1 ib' k = entry v (ids v i2) k"
    and new: "entry v1 ib' ` {n - 156..<n' - 156} \<union> (!) ib' ` {cdiv (n - 156)..<cdiv (n' - 156)} = M"
    and out: "same_outside (unat ` (!) ib' ` {0..<cdiv (n' - 156)}) v v1"
    unfolding grow2_def by blast+
  have i2': "ids ?v i2 = ib'" and other: "b \<noteq> i2 \<Longrightarrow> ids ?v b = ids v1 b" for b
    using len by (simp_all add: ids_upd)
  have "unat (indirect1 d) \<notin> unat ` (!) ib' ` {0..<cdiv (n' - 156)}"
    using fresh(2) by (auto simp flip: word_unat_eq_iff)
  then have i1: "ids ?v (indirect1 d) = ids v (indirect1 d)"
    using other [of "indirect1 d"] fresh(3) out by (auto simp: same_outside_def ids_def)
  have hi: "file_block_id ?v ?d (156 + k) = entry v1 ib' k" if "k < n' - 156" for k
  proof -
    have "ib' ! (k div 128) \<noteq> i2" using fresh(1) cdiv_less [OF that] by auto
    then show ?thesis using i2' other by (simp add: file_block_id_def entry_def)
  qed
  have "file_block_id ?v ?d k = file_block_id v d k" if k: "k < n" for k
  proof (cases "k < 156")
    case True
    then show ?thesis using i1 by (simp add: file_block_id_def)
  next
    case False
    then obtain j where j: "k = 156 + j" by (metis le_iff_add linorder_not_less)
    with k have "j < n - 156" "n \<noteq> 156" "j < n' - 156" using n by auto
    then show ?thesis unfolding j using hi [of j] old [of j] i2 by (simp add: file_block_id_def entry_def)
  qed
  moreover have "file_block_id ?v ?d ` {n..<n'} = entry v1 ib' ` {n - 156..<n' - 156}"
  proof -
    have e: "{n..<n'} = (+) 156 ` {n - 156..<n' - 156}" using n by (simp add: image_add_atLeastLessThan)
    show ?thesis unfolding e image_image by (rule image_cong [OF refl]) (use hi in simp)
  qed
  moreover have m': "set (meta_ids ?v ?d n') = {indirect1 d, i2} \<union> (!) ib' ` {0..<cdiv (n' - 156)}"
    using n i2' by (auto simp: meta_ids_def)
  moreover have m: "set (meta_ids v d n) =
      {indirect1 d} \<union> (if n = 156 then {} else {i2} \<union> (!) ib' ` {0..<cdiv (n - 156)})"
    using n i2 pre by (auto simp: meta_ids_def)
  moreover have "entry v1 ib' ` {n - 156..<n' - 156} \<union> ({indirect1 d, i2} \<union> (!) ib' ` {0..<cdiv (n' - 156)}) =
      {indirect1 d} \<union> (if n = 156 then {} else {i2} \<union> (!) ib' ` {0..<cdiv (n - 156)}) \<union> N"
  proof -
    have "cdiv (n - 156) \<le> cdiv (n' - 156)" by (rule cdiv_mono) (use n in simp)
    then have "{0..<cdiv (n' - 156)} = {0..<cdiv (n - 156)} \<union> {cdiv (n - 156)..<cdiv (n' - 156)}" by auto
    then have sp: "(!) ib' ` {0..<cdiv (n' - 156)} =
        (!) ib' ` {0..<cdiv (n - 156)} \<union> (!) ib' ` {cdiv (n - 156)..<cdiv (n' - 156)}" by (simp only: image_Un)
    show ?thesis
    proof (cases "n = 156")
      case True
      have "(!) ib' ` {0..<cdiv (n - 156)} = {}" using True by (simp add: cdiv_def)
      moreover have "N = insert i2 M" using i2 True by simp
      ultimately show ?thesis unfolding sp new [symmetric] if_P [OF True] by blast
    next
      case False
      then have "N = M" using i2 by simp
      then show ?thesis unfolding sp new [symmetric] if_not_P [OF False] by blast
    qed
  qed
  moreover have "same_outside (unat ` set (meta_ids ?v ?d n')) v ?v"
    unfolding m' by (rule same_outside_trans [OF out same_outside_upd [where S = "{unat i2}"]]) auto
  moreover have "set (meta_ids v d n) \<subseteq> set (meta_ids ?v ?d n')"
  proof -
    have "cdiv (n - 156) \<le> cdiv (n' - 156)" by (rule cdiv_mono) (use n in simp)
    then have "(!) ib' ` {0..<cdiv (n - 156)} \<subseteq> (!) ib' ` {0..<cdiv (n' - 156)}" by (intro image_mono) auto
    then show ?thesis unfolding m m' by (cases "n = 156") auto
  qed
  ultimately show ?thesis unfolding extends_def by presburger
qed

section \<open>Block counts\<close>

definition uids :: "(nat \<Rightarrow> bytes) \<Rightarrow> disk_inode \<Rightarrow> nat \<Rightarrow> u32 list" where
  "uids v d n = data_ids v d n @ meta_ids v d n"

definition blocks_for :: "nat \<Rightarrow> nat" where
  "blocks_for n = n + (if n > 28 then 1 else 0) + (if n > 156 then 1 + cdiv (n - 156) else 0)"

lemma length_uids: "length (uids v d n) = blocks_for n"
  by (simp add: uids_def data_ids_def meta_ids_def blocks_for_def)

lemma used_ids_uids: "used_ids v d = uids v d (unat (data_blocks d))"
  by (simp add: used_ids_def uids_def)

lemma extends_uids:
  assumes "extends v d n v' d' n' N" "n \<le> n'"
  shows "set (uids v' d' n') = set (uids v d n) \<union> N"
proof -
  have "file_block_id v' d' ` {0..<n} = file_block_id v d ` {0..<n}"
    using assms(1) by (intro image_cong) (auto simp: extends_def)
  moreover have "{0..<n'} = {0..<n} \<union> {n..<n'}" using assms(2) by auto
  ultimately have "set (uids v' d' n') =
      file_block_id v d ` {0..<n} \<union> (file_block_id v' d' ` {n..<n'} \<union> set (meta_ids v' d' n'))"
    by (simp add: uids_def data_ids_def image_Un Un_assoc)
  also have "\<dots> = file_block_id v d ` {0..<n} \<union> (set (meta_ids v d n) \<union> N)"
    using assms(1) by (simp add: extends_def)
  finally show ?thesis by (simp add: uids_def data_ids_def Un_assoc)
qed

lemma cdiv_le: "n \<le> 16384 \<Longrightarrow> cdiv n \<le> 128"
  using cdiv_mono [of n 16384] by (simp add: cdiv_def)

lemma unat_total_blocks:
  assumes "unat sz \<le> 16540 * 512"
  shows "unat (total_blocks sz) = blocks_for (unat (data_blocks_of sz))"
proof -
  let ?n = "unat (data_blocks_of sz)"
  have n: "?n \<le> 16540" using assms unat_data_blocks_of [of sz] by (simp add: less_eq_div_iff_mult_less_eq div_le_mono)
  have c: "cdiv (?n - 156) \<le> 128" by (rule cdiv_le) (use n in simp)
  have "(?n - 156 + 128 - 1) div 128 = cdiv (?n - 156)" by (simp add: cdiv_def)
  then have "total_blocks sz = of_nat (blocks_for ?n)"
    by (simp only: total_blocks_def blocks_for_def Let_def layout_consts) simp
  moreover have "blocks_for ?n < 2 ^ 32" using n c by (simp add: blocks_for_def)
  ultimately show ?thesis by (simp add: unat_of_nat take_bit_nat_eq_self)
qed

context block_dev
begin

lemma grow_indirect1:
  assumes "st H v s" "ok_id nblocks H i1" "card (dom H) < BLOCK_CACHE_SIZE" "c \<le> t" "min t 128 - c \<le> length nb"
  defines "m \<equiv> max c (min t 128)"
  shows "\<exists>s'. cache_modify bd IndirectBlock (unat i1) 0
      (\<lambda>ib s. do { (cur, ib, nb) \<leftarrow> fill_loop c (min t 128) ib nb; Some (ib, (cur, nb), s) }) s =
      Some ((m, drop (m - c) nb), s') \<and>
    st H (v(unat i1 := encode_array 4 (splice_at c (take (m - c) nb) (ids v i1)))) s'"
proof -
  have i: "unat i1 < nblocks" "unat i1 \<notin> dom H" using assms(2) by (simp_all add: ok_id_def)
  have "fill_loop c (min t 128) (ids v i1) nb = Some (m, splice_at c (take (m - c) nb) (ids v i1), drop (m - c) nb)"
  proof (cases "c \<le> min t 128")
    case True
    then have "m = min t 128" by (simp add: m_def)
    with True assms(5) show ?thesis by (simp add: fill_loop_ok ids_def)
  next
    case False
    then have le: "min t 128 \<le> c" by linarith
    then have "m = c" unfolding m_def by (rule max_absorb1)
    with fill_loop_skip [OF le] show ?thesis by simp
  qed
  moreover have "length (splice_at c (take (m - c) nb) (ids v i1)) = 128"
  proof (cases "c \<le> 128")
    case True
    then have "c + length (take (m - c) nb) \<le> 128" by (simp add: m_def)
    then show ?thesis by (simp add: ids_def)
  qed (simp add: m_def ids_def)
  ultimately show ?thesis by (intro indirect_modify_ok [OF assms(1) i assms(3)]) simp_all
qed

lemma grow_none:
  assumes "st H v s" "ok_id nblocks H i2" "card (dom H) < BLOCK_CACHE_SIZE"
  shows "\<exists>s'. cache_modify bd IndirectBlock (unat i2) 0
      (\<lambda>ib2 s. do { (ib2, nb, s) \<leftarrow> fill2_loop bd a b a b ib2 nb s; Some (ib2, (), s) }) s = Some ((), s') \<and> st H v s'"
proof -
  have i: "unat i2 < nblocks" "unat i2 \<notin> dom H" using assms(2) by (simp_all add: ok_id_def)
  have "encode_array 4 (ids v i2) = v (unat i2)"
    using st_length [OF assms(1) i(1)] by (simp add: ids_def BLOCK_SZ_def)
  then have "v(unat i2 := encode_array 4 (ids v i2)) = v" by simp
  moreover have "\<exists>s'. cache_modify bd IndirectBlock (unat i2) 0
      (\<lambda>ib2 s. do { (ib2, nb, s) \<leftarrow> fill2_loop bd a b a b ib2 nb s; Some (ib2, (), s) }) s = Some ((), s') \<and>
      st H (v(unat i2 := encode_array 4 (ids v i2))) s'"
    by (rule indirect_modify_ok [OF assms(1) i assms(3)]) (simp_all add: fill2_loop.simps ids_def)
  ultimately show ?thesis by simp
qed

lemma grow_indirect2:
  assumes s: "st H v s" and card: "Suc (card (dom H)) < BLOCK_CACHE_SIZE"
    and n: "156 \<le> n" "n \<le> n'" "156 < n'" "n' \<le> 16540"
    and len: "length nb = (n' - n) + (cdiv (n' - 156) - cdiv (n - 156))"
    and i2: "n \<noteq> 156 \<Longrightarrow> i2 = indirect2 d"
    and dist: "distinct (i2 # indirect1 d # map ((!) (ids v i2)) [0..<cdiv (n - 156)] @ nb)"
    and ok: "\<And>b. b \<in> set (i2 # map ((!) (ids v i2)) [0..<cdiv (n - 156)] @ nb) \<Longrightarrow> ok_id nblocks H b"
  shows "\<exists>s' v'. cache_modify bd IndirectBlock (unat i2) 0
      (\<lambda>ib2 s. do { (ib2, nb, s) \<leftarrow> fill2_loop bd ((n - 156) div 128) ((n - 156) mod 128)
          ((n' - 156) div 128) ((n' - 156) mod 128) ib2 nb s; Some (ib2, (), s) }) s = Some ((), s') \<and>
    st H v' s' \<and> extends v d n v' (d\<lparr>indirect2 := i2\<rparr>) n' (if n = 156 then insert i2 (set nb) else set nb)"
proof -
  let ?f = "\<lambda>ib2 s. do { (ib2, nb, s) \<leftarrow> fill2_loop bd ((n - 156) div 128) ((n - 156) mod 128)
          ((n' - 156) div 128) ((n' - 156) mod 128) ib2 nb s; Some (ib2, (), s) }"
  let ?H = "H(unat i2 \<mapsto> True)"
  have i: "unat i2 < nblocks" "unat i2 \<notin> dom H" using ok [of i2] by (simp_all add: ok_id_def)
  have fin: "finite (dom H)" using s by (auto simp: cache_state_def)
  have c1: "card (dom ?H) < BLOCK_CACHE_SIZE" using card i(2) fin by simp
  have l: "length (v (unat i2)) = 512" using st_length [OF s i(1)] by (simp add: BLOCK_SZ_def)
  have ok': "ok_id nblocks ?H b" if b: "b \<in> set (map ((!) (ids v i2)) [0..<cdiv (n - 156)] @ nb)" for b
  proof -
    have "b \<noteq> i2" using dist b by auto
    with ok [of b] b show ?thesis by (auto simp: ok_id_def simp flip: word_unat_eq_iff)
  qed
  have "\<exists>ib' r s' v1. cache_modify bd IndirectBlock (unat i2) 0 ?f s = Some (r, s') \<and>
      st H (v1(unat i2 := splice_at 0 (to_mem IndirectBlock ib') (v1 (unat i2)))) s' \<and>
      (r = () \<and> length (v1 (unat i2)) = 512 \<and> grow2 v (ids v i2) v1 ib' (n - 156) (n' - 156) (set nb))"
  proof (rule cache_modify_exI [OF s i])
    show "card (dom H) < BLOCK_CACHE_SIZE" using card by simp
    show "from_mem IndirectBlock (slice_at 0 (size_of IndirectBlock) (v (unat i2))) = Some (ids v i2)"
      using l by (simp add: ids_def)
    fix s1 assume s1: "st ?H v s1"
    have "\<exists>s' v' ib'. fill2_loop bd ((n - 156) div 128) ((n - 156) mod 128)
          ((n' - 156) div 128) ((n' - 156) mod 128) (ids v i2) nb s1 = Some (ib', [], s') \<and>
        st ?H v' s' \<and> grow2 v (ids v i2) v' ib' (n - 156) (n' - 156) (set nb)"
      by (rule fill2_loop_ok [OF s1 c1 _ _ _ _ _ ok']) (use n len dist in \<open>auto simp: ids_def\<close>)
    then obtain s2 v1 ib' where r: "fill2_loop bd ((n - 156) div 128) ((n - 156) mod 128)
          ((n' - 156) div 128) ((n' - 156) mod 128) (ids v i2) nb s1 = Some (ib', [], s2)"
        "st ?H v1 s2" "grow2 v (ids v i2) v1 ib' (n - 156) (n' - 156) (set nb)"
      by blast
    then show "\<exists>ib' r s2 v1. ?f (ids v i2) s1 = Some (ib', r, s2) \<and> st ?H v1 s2 \<and>
        0 + length (to_mem IndirectBlock ib') \<le> BLOCK_SZ \<and>
        (r = () \<and> length (v1 (unat i2)) = 512 \<and> grow2 v (ids v i2) v1 ib' (n - 156) (n' - 156) (set nb))"
      using st_length [OF r(2) i(1)] by (auto simp: BLOCK_SZ_def grow2_def)
  qed (simp_all add: BLOCK_SZ_def)
  then obtain ib' s' v1 where r: "cache_modify bd IndirectBlock (unat i2) 0 ?f s = Some ((), s')"
      "st H (v1(unat i2 := encode_array 4 ib')) s'" "grow2 v (ids v i2) v1 ib' (n - 156) (n' - 156) (set nb)"
    by (auto simp: grow2_def)
  have "(!) ib' ` {0..<cdiv (n' - 156)} \<subseteq> set (map ((!) (ids v i2)) [0..<cdiv (n - 156)] @ nb)"
  proof
    fix b assume "b \<in> (!) ib' ` {0..<cdiv (n' - 156)}"
    then obtain j where j: "b = ib' ! j" "j < cdiv (n' - 156)" by auto
    show "b \<in> set (map ((!) (ids v i2)) [0..<cdiv (n - 156)] @ nb)"
      using j r(3) by (cases "j < cdiv (n - 156)") (auto simp: grow2_def)
  qed
  then have "extends v d n (v1(unat i2 := encode_array 4 ib')) (d\<lparr>indirect2 := i2\<rparr>) n'
      (if n = 156 then insert i2 (set nb) else set nb)"
    using dist i2 by (intro extends_indirect2 [OF n(1-3) r(3)]) auto
  with r(1,2) show ?thesis by blast
qed

end

section \<open>Growth\<close>

text \<open>What \<open>increase_size\<close> may be called with, and what it achieves.\<close>

definition grow_pre :: "nat \<Rightarrow> (nat \<rightharpoonup> bool) \<Rightarrow> (nat \<Rightarrow> bytes) \<Rightarrow> disk_inode \<Rightarrow> u32 \<Rightarrow> u32 list \<Rightarrow> bool" where
  "grow_pre nb H v d new_size nbs \<longleftrightarrow>
     wf_inode nb (dom H) v d \<and> di_size d \<le> new_size \<and> unat new_size \<le> INDIRECT2_BOUND * BLOCK_SZ \<and>
     length nbs = blocks_for (unat (data_blocks_of new_size)) - blocks_for (unat (data_blocks d)) \<and>
     distinct (used_ids v d @ nbs) \<and> (\<forall>b\<in>set nbs. ok_id nb H b) \<and> ok_id nb H 0"

definition grown :: "nat \<Rightarrow> (nat \<rightharpoonup> bool) \<Rightarrow> (nat \<Rightarrow> bytes) \<Rightarrow> disk_inode \<Rightarrow> u32 \<Rightarrow> u32 list \<Rightarrow>
    (nat \<Rightarrow> bytes) \<Rightarrow> disk_inode \<Rightarrow> bool" where
  "grown nb H v d new_size nbs v' d' \<longleftrightarrow>
     di_size d' = new_size \<and> di_type d' = di_type d \<and> wf_inode nb (dom H) v' d' \<and>
     extends v d (unat (data_blocks d)) v' d' (unat (data_blocks d')) (set nbs)"

lemma grow_pre_ok:
  "grow_pre nb H v d new_size nbs \<Longrightarrow> b \<in> set (used_ids v d) \<union> set nbs \<Longrightarrow> ok_id nb H b"
  unfolding grow_pre_def wf_inode_def ok_id_def by blast

lemma data_blocks_mono:
  assumes "a \<le> b" "unat b \<le> 16540 * 512"
  shows "unat (data_blocks_of a) \<le> unat (data_blocks_of b)" "unat (data_blocks_of b) \<le> 16540"
proof -
  have "unat a \<le> unat b" using assms(1) by (simp add: word_le_nat_alt)
  moreover have "unat (data_blocks_of a) = (unat a + 511) div 512" "unat (data_blocks_of b) = (unat b + 511) div 512"
    using assms calculation by (auto intro!: unat_data_blocks_of)
  ultimately show "unat (data_blocks_of a) \<le> unat (data_blocks_of b)" "unat (data_blocks_of b) \<le> 16540"
    using assms(2) by (auto intro!: div_le_mono)
qed

lemma blocks_for_mono: "a \<le> b \<Longrightarrow> blocks_for a \<le> blocks_for b"
  using cdiv_mono [OF diff_le_mono [of a b 156]] by (auto simp: blocks_for_def)

lemma grownI:
  assumes pre: "grow_pre nb H v d new_size nbs"
    and ext: "extends v d (unat (data_blocks d)) v' d' (unat (data_blocks_of new_size)) (set nbs)"
    and d': "di_size d' = new_size" "di_type d' = di_type d" "length (direct d') = 28"
      "unat (data_blocks_of new_size) \<le> 156 \<Longrightarrow> indirect2 d' = 0"
  shows "grown nb H v d new_size nbs v' d'"
proof -
  let ?n = "unat (data_blocks d)" and ?n' = "unat (data_blocks_of new_size)"
  have n: "?n \<le> ?n'"
    unfolding data_blocks_def by (rule data_blocks_mono(1)) (use pre in \<open>simp_all add: grow_pre_def BLOCK_SZ_def\<close>)
  have db: "data_blocks d' = data_blocks_of new_size" using d'(1) by (simp add: data_blocks_def)
  have S: "set (used_ids v' d') = set (used_ids v d) \<union> set nbs"
    unfolding used_ids_uids db by (rule extends_uids [OF ext n])
  have "card (set (used_ids v' d')) = length (used_ids v d) + length nbs"
    unfolding S set_append [symmetric] using pre distinct_card [of "used_ids v d @ nbs"] by (simp add: grow_pre_def)
  also have "\<dots> = length (used_ids v' d')"
    unfolding used_ids_uids db length_uids using pre blocks_for_mono [OF n] by (simp add: grow_pre_def)
  finally have "distinct (used_ids v' d')" by (rule card_distinct)
  then have "wf_inode nb (dom H) v' d'"
    using S pre d' db by (auto simp: wf_inode_def inode_valid_def grow_pre_def ok_id_def)
  then show ?thesis using ext d' db by (simp add: grown_def)
qed

lemma block_map_size [simp]:
  "file_block_id v (d\<lparr>di_size := x\<rparr>) = file_block_id v d" "meta_ids v (d\<lparr>di_size := x\<rparr>) n = meta_ids v d n"
  by (rule ext) (simp_all add: file_block_id_def meta_ids_def)

lemma extends_size [simp]: "extends v (d\<lparr>di_size := x\<rparr>) n v' d' n' N = extends v d n v' d' n' N"
  by (simp add: extends_def)

lemma blocks_for_simps:
  "n \<le> 28 \<Longrightarrow> blocks_for n = n"
  "28 < n \<Longrightarrow> n \<le> 156 \<Longrightarrow> blocks_for n = n + 1"
  "156 < n \<Longrightarrow> blocks_for n = n + 2 + cdiv (n - 156)"
  by (simp_all add: blocks_for_def)

text \<open>The part of the doubly indirect block that was in use before.\<close>

lemma old_entries:
  assumes "156 < unat (data_blocks d)"
  shows "set (indirect2 d # indirect1 d # map ((!) (ids v (indirect2 d))) [0..<cdiv (unat (data_blocks d) - 156)]) \<subseteq> set (used_ids v d)"
    and "distinct (used_ids v d) \<Longrightarrow>
      distinct (indirect2 d # indirect1 d # map ((!) (ids v (indirect2 d))) [0..<cdiv (unat (data_blocks d) - 156)])"
  using assms by (auto simp: used_ids_def meta_ids_def)

context block_dev
begin

lemma encode_ids: "st H v s \<Longrightarrow> unat b < nblocks \<Longrightarrow> v(unat b := encode_array 4 (ids v b)) = v"
  using st_length [of H v s "unat b"] by (simp add: ids_def BLOCK_SZ_def)

lemma increase_direct:
  assumes "st H v s" "grow_pre nblocks H v d new_size nbs" "unat (data_blocks_of new_size) \<le> 28"
  shows "\<exists>d' s' v'. DiskInode_increase_size bd d new_size nbs s = Some (d', s') \<and> st H v' s' \<and>
    grown nblocks H v d new_size nbs v' d'"
proof -
  let ?n = "unat (data_blocks d)" and ?n' = "unat (data_blocks_of new_size)"
  have n: "?n \<le> ?n'"
    unfolding data_blocks_def by (rule data_blocks_mono(1)) (use assms(2) in \<open>simp_all add: grow_pre_def BLOCK_SZ_def\<close>)
  have len: "length nbs = ?n' - ?n" and dl: "length (direct d) = 28" and "wf_inode nblocks (dom H) v d"
    using assms(2,3) n by (simp_all add: grow_pre_def blocks_for_simps wf_inode_def inode_valid_def)
  let ?d = "d\<lparr>di_size := new_size, direct := splice_at ?n nbs (direct d)\<rparr>"
  have "fill_loop ?n (min ?n' 28) (direct d) nbs = Some (?n', splice_at ?n nbs (direct d), [])"
    using fill_loop_ok [of ?n ?n' "direct d" nbs] n len assms(3) dl by (simp add: min_def)
  then have "DiskInode_increase_size bd d new_size nbs s = Some (?d, s)"
    using assms(3) by (simp add: DiskInode_increase_size_def data_blocks_def Let_def)
  moreover have "extends v d ?n v ?d ?n' (set nbs)"
    using extends_direct [OF n assms(3), of "d\<lparr>di_size := new_size\<rparr>" nbs v] dl len by simp
  then have "grown nblocks H v d new_size nbs v ?d"
    by (rule grownI [OF assms(2)])
      (use assms n dl len \<open>wf_inode nblocks (dom H) v d\<close> in \<open>auto simp: wf_inode_def\<close>)
  ultimately show ?thesis using assms(1) by blast
qed

lemma increase_unfold:
  assumes "28 < unat (data_blocks_of new_size)"
    and "fill_loop (unat (data_blocks d)) 28 (direct d) nbs = Some (n1, dir, nbs1)"
    and "(if n1 = 28 then (case nbs1 of [] \<Rightarrow> None | b # nb \<Rightarrow> Some (d\<lparr>di_size := new_size, direct := dir, indirect1 := b\<rparr>, nb))
          else Some (d\<lparr>di_size := new_size, direct := dir\<rparr>, nbs1)) = Some (d1, nbs1')"
    and "cache_modify bd IndirectBlock (unat (indirect1 d1)) 0
      (\<lambda>ib s. do { (cur, ib, nb) \<leftarrow> fill_loop (n1 - 28) (min (unat (data_blocks_of new_size) - 28) 128) ib nbs1';
                   Some (ib, (cur, nb), s) }) s = Some ((m, ys), s1)"
  shows "DiskInode_increase_size bd d new_size nbs s = increase_indirect2 bd d1 m (unat (data_blocks_of new_size) - 28) ys s1"
proof -
  have m: "min (unat (data_blocks_of new_size)) 28 = 28" using assms(1) by simp
  show ?thesis
    unfolding DiskInode_increase_size_def
    using assms(1) assms(2-4) by (simp add: m data_blocks_def Let_def cong: if_cong)
qed

text \<open>The direct and the singly indirect blocks.\<close>

lemma increase_upto156:
  assumes s: "st H v s" and pre: "grow_pre nblocks H v d new_size nbs" and card: "Suc (card (dom H)) < BLOCK_CACHE_SIZE"
    and n: "unat (data_blocks d) = n" "n \<le> 156" and n': "unat (data_blocks_of new_size) = n'" "28 < n'"
  defines "n2 \<equiv> min n' 156"
  shows "\<exists>d1 xs ys v1 s1. nbs = xs @ ys \<and> length xs = blocks_for n2 - blocks_for n \<and> st H v1 s1 \<and>
    extends v d n v1 d1 n2 (set xs) \<and> di_size d1 = new_size \<and> di_type d1 = di_type d \<and> length (direct d1) = 28 \<and>
    indirect2 d1 = indirect2 d \<and> indirect1 d1 \<in> set (used_ids v d @ xs) \<and>
    DiskInode_increase_size bd d new_size nbs s = increase_indirect2 bd d1 (n2 - 28) (n' - 28) ys s1"
proof -
  have wf: "wf_inode nblocks (dom H) v d" and dl: "length (direct d) = 28"
    using pre by (simp_all add: grow_pre_def wf_inode_def inode_valid_def)
  have nn: "n \<le> n'"
    unfolding n(1) [symmetric] n'(1) [symmetric] data_blocks_def
    by (rule data_blocks_mono(1)) (use pre in \<open>simp_all add: grow_pre_def BLOCK_SZ_def\<close>)
  define n1 where "n1 = max n 28"
  have le: "n \<le> n1" "n1 \<le> n2" "28 \<le> n1" "28 < n2" "n2 \<le> 156" "n2 \<le> n'" using nn n n' by (auto simp: n1_def n2_def)
  have len: "blocks_for n2 - blocks_for n \<le> length nbs"
    using pre blocks_for_mono [OF le(6)] n n' by (simp add: grow_pre_def)
  define a where "a = n1 - n"
  define dir where "dir = splice_at n (take a nbs) (direct d)"
  have ab: "blocks_for n2 - blocks_for n = a + (if n1 = 28 then 1 else 0) + (n2 - n1)"
    using n(2) le by (auto simp: a_def n1_def blocks_for_simps max_def split: if_splits)
  have al: "a \<le> length nbs" using len ab by simp
  have fill: "fill_loop n 28 (direct d) nbs = Some (n1, dir, drop a nbs)"
  proof (cases "n \<le> 28")
    case True
    then have "n1 = 28" by (simp add: n1_def)
    with fill_loop_ok [of n 28 "direct d" nbs] True dl al show ?thesis by (simp add: a_def dir_def)
  next
    case False
    then have "n1 = n" by (simp add: n1_def)
    with False show ?thesis by (simp add: fill_loop_skip a_def dir_def)
  qed
  have e1: "extends v d n v (d\<lparr>di_size := new_size, direct := dir\<rparr>) n1 (set (take a nbs))"
  proof (cases "n \<le> 28")
    case True
    then have "n1 = 28" by (simp add: n1_def)
    with extends_direct [of n 28 "d\<lparr>di_size := new_size\<rparr>" "take a nbs" v] True dl al show ?thesis
      by (simp add: a_def dir_def)
  next
    case False
    then have "n1 = n" "dir = direct d" by (simp_all add: n1_def a_def dir_def)
    then show ?thesis using extends_refl [of v "d\<lparr>di_size := new_size\<rparr>" n] by (simp add: a_def)
  qed
  let ?d1 = "d\<lparr>di_size := new_size, direct := dir\<rparr>"
  have "\<exists>i1 zs. (if n1 = 28 then (case drop a nbs of [] \<Rightarrow> None | b # nb \<Rightarrow> Some (?d1\<lparr>indirect1 := b\<rparr>, nb))
        else Some (?d1, drop a nbs)) = Some (?d1\<lparr>indirect1 := i1\<rparr>, zs) \<and>
      drop a nbs = (if n1 = 28 then i1 # zs else zs) \<and> (n1 \<noteq> 28 \<longrightarrow> i1 = indirect1 d)"
  proof (cases "n1 = 28")
    case True
    then have "a < length nbs" using len ab by simp
    then obtain i1 zs where "drop a nbs = i1 # zs" by (metis Cons_nth_drop_Suc)
    with True show ?thesis by simp
  next
    case False
    then show ?thesis by simp
  qed
  then obtain i1 zs where i1: "(if n1 = 28 then (case drop a nbs of [] \<Rightarrow> None | b # nb \<Rightarrow> Some (?d1\<lparr>indirect1 := b\<rparr>, nb))
        else Some (?d1, drop a nbs)) = Some (?d1\<lparr>indirect1 := i1\<rparr>, zs)"
      "drop a nbs = (if n1 = 28 then i1 # zs else zs)" "n1 \<noteq> 28 \<Longrightarrow> i1 = indirect1 d" by blast
  let ?xs = "take a nbs @ (if n1 = 28 then [i1] else []) @ take (n2 - n1) zs"
  have split: "nbs = ?xs @ drop (n2 - n1) zs"
    using i1(2) append_take_drop_id [of a nbs] by (auto split: if_splits)
  have zl: "n2 - n1 \<le> length zs" using len ab i1(2) al by (auto dest!: arg_cong [where f = length] split: if_splits)
  have mem: "i1 \<in> set (used_ids v d @ ?xs)"
  proof (cases "n1 = 28")
    case False
    then have "28 < unat (data_blocks d)" using n by (auto simp: n1_def)
    then show ?thesis using i1(3) [OF False] used_indirect1 by simp
  qed simp
  have "set ?xs \<subseteq> set nbs" using arg_cong [OF split, of set] unfolding set_append by blast
  then have "i1 \<in> set (used_ids v d) \<union> set nbs" using mem unfolding set_append by blast
  then have ok: "ok_id nblocks H i1" by (rule grow_pre_ok [OF pre])
  have m: "max (n1 - 28) (min (n' - 28) 128) = n2 - 28" using le by (auto simp: n2_def)
  have "\<exists>s'. cache_modify bd IndirectBlock (unat i1) 0
      (\<lambda>ib s. do { (cur, ib, nb) \<leftarrow> fill_loop (n1 - 28) (min (n' - 28) 128) ib zs; Some (ib, (cur, nb), s) }) s =
      Some ((n2 - 28, drop (n2 - n1) zs), s') \<and>
    st H (v(unat i1 := encode_array 4 (splice_at (n1 - 28) (take (n2 - n1) zs) (ids v i1)))) s'"
  proof -
    have c: "card (dom H) < BLOCK_CACHE_SIZE" "n1 - 28 \<le> n' - 28" "min (n' - 28) 128 - (n1 - 28) \<le> length zs"
      "n2 - 28 - (n1 - 28) = n2 - n1"
      using card le zl by (auto simp: n2_def)
    show ?thesis by (rule grow_indirect1 [OF s ok c(1-3), unfolded m c(4)])
  qed
  then obtain s1 where s1: "cache_modify bd IndirectBlock (unat i1) 0
      (\<lambda>ib s. do { (cur, ib, nb) \<leftarrow> fill_loop (n1 - 28) (min (n' - 28) 128) ib zs; Some (ib, (cur, nb), s) }) s =
      Some ((n2 - 28, drop (n2 - n1) zs), s1)"
    "st H (v(unat i1 := encode_array 4 (splice_at (n1 - 28) (take (n2 - n1) zs) (ids v i1)))) s1" by blast
  have "extends v ?d1 n1 (v(unat i1 := encode_array 4 (splice_at (n1 - 28) (take (n2 - n1) zs) (ids v i1))))
      (?d1\<lparr>indirect1 := i1\<rparr>) n2 (set ((if n1 = 28 then [i1] else []) @ take (n2 - n1) zs))"
    by (rule extends_indirect1) (use le zl i1(3) in auto)
  from extends_trans [OF e1 this le(1,2)]
  have "extends v d n (v(unat i1 := encode_array 4 (splice_at (n1 - 28) (take (n2 - n1) zs) (ids v i1))))
      (?d1\<lparr>indirect1 := i1\<rparr>) n2 (set ?xs)" by simp
  then have ext: "extends v d n (v(unat i1 := encode_array 4 (splice_at (n1 - 28) (take (n2 - n1) zs) (ids v i1))))
      (?d1\<lparr>indirect1 := i1\<rparr>) n2 (set ?xs)" .
  have run: "DiskInode_increase_size bd d new_size nbs s =
      increase_indirect2 bd (?d1\<lparr>indirect1 := i1\<rparr>) (n2 - 28) (n' - 28) (drop (n2 - n1) zs) s1"
    using increase_unfold [where d = d and new_size = new_size and nbs = nbs and s = s, unfolded n n'(1), OF n'(2) fill]
      i1(1) s1(1) by simp
  have xl: "length ?xs = blocks_for n2 - blocks_for n" using ab al zl by simp
  have dl': "length dir = 28" using dl al le n(2) by (auto simp: dir_def a_def n1_def max_def)
  show ?thesis
    by (intro exI conjI, rule split, rule xl, rule s1(2), rule ext, simp, simp, simp add: dl', simp)
      (use mem run in simp_all)
qed

lemma increase_indirect2_none:
  assumes "st H v s" "ok_id nblocks H (indirect2 d)" "card (dom H) < BLOCK_CACHE_SIZE" "c \<le> 128"
  shows "\<exists>s'. increase_indirect2 bd d c c nb s = Some (d, s') \<and> st H v s'"
  using grow_none [OF assms(1-3), of "c div 128" "c mod 128" nb] assms(4)
  by (auto simp: increase_indirect2_def Let_def)

lemma increase_indirect2_some:
  assumes s: "st H v s" and card: "Suc (card (dom H)) < BLOCK_CACHE_SIZE"
    and n: "156 \<le> n" "n \<le> n'" "156 < n'" "n' \<le> 16540"
    and nb: "if n = 156 then nbs = i2 # nb else nbs = nb \<and> i2 = indirect2 d"
    and len: "length nb = (n' - n) + (cdiv (n' - 156) - cdiv (n - 156))"
    and dist: "distinct (i2 # indirect1 d # map ((!) (ids v i2)) [0..<cdiv (n - 156)] @ nb)"
    and ok: "\<And>b. b \<in> set (i2 # map ((!) (ids v i2)) [0..<cdiv (n - 156)] @ nb) \<Longrightarrow> ok_id nblocks H b"
  shows "\<exists>s' v'. increase_indirect2 bd d (n - 28) (n' - 28) nbs s = Some (d\<lparr>indirect2 := i2\<rparr>, s') \<and> st H v' s' \<and>
    extends v d n v' (d\<lparr>indirect2 := i2\<rparr>) n' (set nbs)"
proof -
  have i2: "n \<noteq> 156 \<Longrightarrow> i2 = indirect2 d" using nb by simp
  from grow_indirect2 [OF s card n len i2 dist ok] obtain s' v' where
    r: "cache_modify bd IndirectBlock (unat i2) 0
      (\<lambda>ib2 s. do { (ib2, nb, s) \<leftarrow> fill2_loop bd ((n - 156) div 128) ((n - 156) mod 128)
          ((n' - 156) div 128) ((n' - 156) mod 128) ib2 nb s; Some (ib2, (), s) }) s = Some ((), s')"
    "st H v' s'" "extends v d n v' (d\<lparr>indirect2 := i2\<rparr>) n' (if n = 156 then insert i2 (set nb) else set nb)" by blast
  have N: "(if n = 156 then insert i2 (set nb) else set nb) = set nbs" using nb by auto
  have sub: "n - 28 - 128 = n - 156" "n' - 28 - 128 = n' - 156" "n - 28 = 128 \<longleftrightarrow> n = 156" "128 < n' - 28"
    using n by auto
  have "(if n = 156 then (case nbs of [] \<Rightarrow> None | b # nb \<Rightarrow> Some (d\<lparr>indirect2 := b\<rparr>, nb)) else Some (d, nbs)) =
      Some (d\<lparr>indirect2 := i2\<rparr>, nb)" using nb by auto
  then have "increase_indirect2 bd d (n - 28) (n' - 28) nbs s = Some (d\<lparr>indirect2 := i2\<rparr>, s')"
    unfolding increase_indirect2_def layout_consts Let_def using r(1) by (simp only: sub if_True) simp
  then show ?thesis using r(2,3) unfolding N by blast
qed

theorem increase_size_ok:
  assumes s: "st H v s" and pre: "grow_pre nblocks H v d new_size nbs" and card: "Suc (card (dom H)) < BLOCK_CACHE_SIZE"
  shows "\<exists>d' s' v'. DiskInode_increase_size bd d new_size nbs s = Some (d', s') \<and> st H v' s' \<and>
    grown nblocks H v d new_size nbs v' d'"
proof -
  define n n' where "n = unat (data_blocks d)" and "n' = unat (data_blocks_of new_size)"
  have wf: "wf_inode nblocks (dom H) v d" and dl: "length (direct d) = 28"
    and len: "length nbs = blocks_for n' - blocks_for n" and dist: "distinct (used_ids v d @ nbs)"
    using pre by (simp_all add: grow_pre_def wf_inode_def inode_valid_def n_def n'_def)
  have nn: "n \<le> n'" "n' \<le> 16540"
    unfolding n_def n'_def data_blocks_def
    by (rule data_blocks_mono [of "di_size d" new_size]; use pre in \<open>simp add: grow_pre_def BLOCK_SZ_def\<close>)+
  have room: "card (dom H) < BLOCK_CACHE_SIZE" using card by simp
  note ok = grow_pre_ok [OF pre]
  consider "n' \<le> 28" | "28 < n'" "n' \<le> 156" | "156 < n'" "n \<le> 156" | "156 < n'" "156 < n" using nn by linarith
  then show ?thesis
  proof cases
    case 1
    then show ?thesis using increase_direct [OF s pre] by (simp add: n'_def)
  next
    case 2
    then have "n \<le> 156" using nn by simp
    from increase_upto156 [OF s pre card n_def [symmetric] this n'_def [symmetric] 2(1)] 2(2)
    obtain d1 xs ys v1 s1 where r: "nbs = xs @ ys" "length xs = blocks_for n' - blocks_for n" "st H v1 s1"
      "extends v d n v1 d1 n' (set xs)" "di_size d1 = new_size" "di_type d1 = di_type d" "length (direct d1) = 28"
      "indirect2 d1 = indirect2 d"
      "DiskInode_increase_size bd d new_size nbs s = increase_indirect2 bd d1 (n' - 28) (n' - 28) ys s1"
      by (auto simp: min_absorb1)
    have "nbs = xs" using r(1,2) len by simp
    have "indirect2 d = 0" using wf \<open>n \<le> 156\<close> by (simp add: wf_inode_def n_def)
    moreover have "ok_id nblocks H 0" using pre by (simp add: grow_pre_def)
    ultimately have "ok_id nblocks H (indirect2 d1)" using r(8) by simp
    moreover have "n' - 28 \<le> 128" using 2(2) by simp
    ultimately obtain s2 where
      "increase_indirect2 bd d1 (n' - 28) (n' - 28) ys s1 = Some (d1, s2)" "st H v1 s2"
      using increase_indirect2_none [OF r(3) _ room] by blast
    moreover have "grown nblocks H v d new_size nbs v1 d1"
      by (rule grownI [OF pre]) (use r \<open>nbs = xs\<close> \<open>indirect2 d = 0\<close> in \<open>simp_all add: n_def n'_def\<close>)
    ultimately show ?thesis using r(9) by auto
  next
    case 3
    then have n2: "min n' 156 = 156" "28 < n'" by simp_all
    from increase_upto156 [OF s pre card n_def [symmetric] 3(2) n'_def [symmetric] n2(2)]
    obtain d1 xs ys v1 s1 where r: "nbs = xs @ ys" "length xs = blocks_for 156 - blocks_for n" "st H v1 s1"
      "extends v d n v1 d1 156 (set xs)" "di_size d1 = new_size" "di_type d1 = di_type d" "length (direct d1) = 28"
      "indirect1 d1 \<in> set (used_ids v d @ xs)"
      "DiskInode_increase_size bd d new_size nbs s = increase_indirect2 bd d1 (156 - 28) (n' - 28) ys s1"
      unfolding n2(1) by blast
    have "length ys = blocks_for n' - blocks_for 156"
      using r(1,2) len blocks_for_mono [OF 3(2)] by simp
    also have "\<dots> = Suc ((n' - 156) + (cdiv (n' - 156) - cdiv (156 - 156)))"
      using 3 by (simp add: blocks_for_simps cdiv_def)
    finally obtain i2 zs where ys: "ys = i2 # zs" "length zs = (n' - 156) + (cdiv (n' - 156) - cdiv (156 - 156))"
      by (auto simp only: length_Suc_conv)
    have "\<exists>s' v'. increase_indirect2 bd d1 (156 - 28) (n' - 28) ys s1 = Some (d1\<lparr>indirect2 := i2\<rparr>, s') \<and> st H v' s' \<and>
        extends v1 d1 156 v' (d1\<lparr>indirect2 := i2\<rparr>) n' (set ys)"
    proof (rule increase_indirect2_some [OF r(3) card _ _ 3(1) nn(2) _ ys(2)])
      show "distinct (i2 # indirect1 d1 # map ((!) (ids v1 i2)) [0..<cdiv (156 - 156)] @ zs)"
        using dist r(1,8) ys(1) by (auto simp: cdiv_def)
      show "ok_id nblocks H b" if "b \<in> set (i2 # map ((!) (ids v1 i2)) [0..<cdiv (156 - 156)] @ zs)" for b
        by (rule ok) (use that r(1) ys(1) in \<open>auto simp: cdiv_def\<close>)
    qed (use 3 ys(1) in auto)
    then obtain s2 v2 where r2: "increase_indirect2 bd d1 (156 - 28) (n' - 28) ys s1 = Some (d1\<lparr>indirect2 := i2\<rparr>, s2)"
      "st H v2 s2" "extends v1 d1 156 v2 (d1\<lparr>indirect2 := i2\<rparr>) n' (set ys)" by blast
    have "extends v d n v2 (d1\<lparr>indirect2 := i2\<rparr>) n' (set nbs)"
      using extends_trans [OF r(4) r2(3)] 3 r(1) by simp
    then have "grown nblocks H v d new_size nbs v2 (d1\<lparr>indirect2 := i2\<rparr>)"
      by (intro grownI [OF pre]) (use r 3 in \<open>simp_all add: n_def n'_def\<close>)
    then show ?thesis using r(9) r2(1,2) by auto
  next
    case 4
    let ?d = "d\<lparr>di_size := new_size, direct := direct d\<rparr>" and ?i1 = "indirect1 d" and ?i2 = "indirect2 d"
    have i1: "ok_id nblocks H ?i1" using ok used_indirect1 [of d v] 4 by (simp add: n_def)
    have m: "max (n - 28) (min (n' - 28) 128) = n - 28" using 4 by simp
    have c: "n - 28 \<le> n' - 28" "min (n' - 28) 128 - (n - 28) \<le> length nbs" using 4 nn by auto
    have "v(unat ?i1 := encode_array 4 (ids v ?i1)) = v" by (rule encode_ids [OF s]) (use i1 in \<open>simp add: ok_id_def\<close>)
    with grow_indirect1 [OF s i1 room c, unfolded m] obtain s1 where s1: "cache_modify bd IndirectBlock (unat ?i1) 0
      (\<lambda>ib s. do { (cur, ib, nb) \<leftarrow> fill_loop (n - 28) (min (n' - 28) 128) ib nbs; Some (ib, (cur, nb), s) }) s =
      Some ((n - 28, nbs), s1)" "st H v s1" by auto
    have run: "DiskInode_increase_size bd d new_size nbs s = increase_indirect2 bd ?d (n - 28) (n' - 28) nbs s1"
      by (rule increase_unfold [where d = d and new_size = new_size and ?n1.0 = n and dir = "direct d" and ?nbs1.0 = nbs and nbs1' = nbs,
            folded n_def n'_def]) (use 4 s1(1) in \<open>simp_all add: fill_loop_skip flip: n_def n'_def\<close>)
    note old = old_entries [OF 4(2) [unfolded n_def], of v, folded n_def]
    have du: "distinct (used_ids v d)" "set (used_ids v d) \<inter> set nbs = {}" "distinct nbs" using dist by simp_all
    have dd: "distinct ((?i2 # ?i1 # map ((!) (ids v ?i2)) [0..<cdiv (n - 156)]) @ nbs)"
      unfolding distinct_append using old(2) [OF du(1)] old(1) du(2,3) by blast
    have "\<exists>s' v'. increase_indirect2 bd ?d (n - 28) (n' - 28) nbs s1 = Some (?d\<lparr>indirect2 := ?i2\<rparr>, s') \<and> st H v' s' \<and>
        extends v ?d n v' (?d\<lparr>indirect2 := ?i2\<rparr>) n' (set nbs)"
    proof (rule increase_indirect2_some [OF s1(2) card _ nn(1) 4(1) nn(2)])
      show "length nbs = (n' - n) + (cdiv (n' - 156) - cdiv (n - 156))"
        using len 4 nn cdiv_mono [OF diff_le_mono [OF nn(1), of 156]] by (simp add: blocks_for_simps)
      show "distinct (?i2 # indirect1 ?d # map ((!) (ids v ?i2)) [0..<cdiv (n - 156)] @ nbs)" using dd by simp
      show "ok_id nblocks H b" if "b \<in> set (?i2 # map ((!) (ids v ?i2)) [0..<cdiv (n - 156)] @ nbs)" for b
        by (rule ok) (use that old(1) in auto)
    qed (use 4 in auto)
    then obtain s2 v2 where r2: "increase_indirect2 bd ?d (n - 28) (n' - 28) nbs s1 = Some (?d\<lparr>indirect2 := ?i2\<rparr>, s2)"
      "st H v2 s2" "extends v d n v2 (?d\<lparr>indirect2 := ?i2\<rparr>) n' (set nbs)" by (auto simp: extends_size)
    from r2(3) have "grown nblocks H v d new_size nbs v2 (?d\<lparr>indirect2 := ?i2\<rparr>)"
      by (intro grownI [OF pre]) (use 4 dl in \<open>simp_all add: n_def n'_def\<close>)
    then show ?thesis using run r2(1,2) by auto
  qed
qed

end

end
