(* ===== verification/LayoutClear.thy ===== *)
theory LayoutClear
  imports LayoutGrow
begin

text \<open>
  \<open>clear_size\<close> returns every block of the inode exactly once, the content a grown inode keeps,
  and the directory entries.
\<close>

section \<open>Clearing\<close>

definition clear_list :: "(nat \<Rightarrow> bytes) \<Rightarrow> u32 list \<Rightarrow> nat \<Rightarrow> nat \<Rightarrow> u32 list" where
  "clear_list v ib c t =
     concat (map (\<lambda>k. (if k mod 128 = 0 then [ib ! (k div 128)] else []) @ [entry v ib k]) [c..<t])"

lemma clear_list_step:
  "c < t \<Longrightarrow> clear_list v ib c t =
     (if c mod 128 = 0 then [ib ! (c div 128)] else []) @ entry v ib c # clear_list v ib (Suc c) t"
  by (simp add: clear_list_def upt_conv_Cons)

lemma mset_clear_list:
  "mset (clear_list v ib 0 t) = mset (map (entry v ib) [0..<t]) + mset (map ((!) ib) [0..<cdiv t])"
proof (induction t)
  case (Suc t)
  have "clear_list v ib 0 (Suc t) =
      clear_list v ib 0 t @ (if t mod 128 = 0 then [ib ! (t div 128)] else []) @ [entry v ib t]"
    by (simp add: clear_list_def)
  moreover have "[0..<cdiv (Suc t)] = [0..<cdiv t] @ (if t mod 128 = 0 then [t div 128] else [])"
    unfolding cdiv_Suc by (simp add: cdiv_cases [of t])
  ultimately show ?case using Suc by (simp del: upt_Suc add: upt_Suc_append)
qed (simp add: clear_list_def cdiv_def)

context block_dev
begin

lemma clear2_loop_ok:
  assumes "st H v s" and card: "card (dom H) < BLOCK_CACHE_SIZE" and t: "t \<le> 16384" "c \<le> t" and ib: "length ib = 128"
    and ok: "\<And>j. j < cdiv t \<Longrightarrow> ok_id nblocks H (ib ! j)"
  shows "\<exists>s'. clear2_loop bd ib (c div 128) (c mod 128) (t div 128) (t mod 128) acc cur s =
    Some (acc @ clear_list v ib c t, cur + (t - c), s') \<and> st H v s'"
  using assms(1) t(2)
proof (induction "t - c" arbitrary: c acc cur s)
  case 0
  then have "c = t" by simp
  with 0 show ?case by (subst clear2_loop.simps) (auto simp: clear_list_def)
next
  case (Suc m)
  let ?a = "c div 128" and ?b = "c mod 128"
  have lt: "c < t" using Suc.hyps(2) by simp
  have a: "?a < 128" using lt t by simp
  have x: "unat (ib ! ?a) < nblocks" "unat (ib ! ?a) \<notin> dom H"
    using ok [OF cdiv_less [OF lt]] by (simp_all add: ok_id_def)
  let ?acc = "if ?b = 0 then acc @ [ib ! ?a] else acc"
  have "\<exists>s'. cache_read bd IndirectBlock (unat (ib ! ?a)) 0
      (\<lambda>ib1 s. do { b \<leftarrow> index_at ib1 ?b; Some (?acc @ [b], s) }) s = Some (?acc @ [entry v ib c], s') \<and> st H v s'"
    by (rule indirect_read_ok [OF Suc.prems(1) x card]) (simp add: entry_def ids_def)
  then obtain s1 where s1: "cache_read bd IndirectBlock (unat (ib ! ?a)) 0
      (\<lambda>ib1 s. do { b \<leftarrow> index_at ib1 ?b; Some (?acc @ [b], s) }) s = Some (?acc @ [entry v ib c], s1)" "st H v s1"
    by blast
  have "\<exists>s'. clear2_loop bd ib (Suc c div 128) (Suc c mod 128) (t div 128) (t mod 128) (?acc @ [entry v ib c]) (cur + 1) s1 =
      Some ((?acc @ [entry v ib c]) @ clear_list v ib (Suc c) t, cur + 1 + (t - Suc c), s') \<and> st H v s'"
    by (rule Suc.hyps(1)) (use Suc.hyps(2) s1(2) lt in auto)
  moreover have "(?acc @ [entry v ib c]) @ clear_list v ib (Suc c) t = acc @ clear_list v ib c t"
    using clear_list_step [OF lt, of v ib] by simp
  moreover have "cur + 1 + (t - Suc c) = cur + (t - c)" using lt by simp
  moreover have "clear2_loop bd ib ?a ?b (t div 128) (t mod 128) acc cur s =
      clear2_loop bd ib (Suc c div 128) (Suc c mod 128) (t div 128) (t mod 128) (?acc @ [entry v ib c]) (cur + 1) s1"
  proof -
    have cond: "?a < t div 128 \<or> ?a = t div 128 \<and> ?b < t mod 128" using lt lex_less_128 by blast
    have ix: "index_at ib ?a = Some (ib ! ?a)" using a ib by simp
    note unf = clear2_loop.simps [of bd ib ?a ?b "t div 128" "t mod 128" acc cur s, unfolded if_P [OF cond]]
    show ?thesis
      by (cases "?b + 1 = 128"; simp only: unf bind.bind_lunit prod.case ix Let_def s1(1) layout_consts)
        (use step_128 [of c] in simp_all)
  qed
  ultimately show ?case by (simp only:)
qed

end

lemma map_block_ids:
  assumes "length (direct d) = 28"
  shows "data_ids v d n =
    take (min 28 n) (direct d) @ take (min (n - 28) 128) (ids v (indirect1 d)) @
    map (entry v (ids v (indirect2 d))) [0..<n - 156]"
proof (rule nth_equalityI)
  have l: "length (ids v (indirect1 d)) = 128" by (simp add: ids_def)
  show "length (data_ids v d n) = length (take (min 28 n) (direct d) @ take (min (n - 28) 128) (ids v (indirect1 d)) @
      map (entry v (ids v (indirect2 d))) [0..<n - 156])"
    using assms l by (auto simp: data_ids_def)
  fix k assume "k < length (data_ids v d n)"
  then have k: "k < n" by (simp add: data_ids_def)
  consider "k < 28" | "28 \<le> k" "k < 156" | "156 \<le> k" by linarith
  then show "data_ids v d n ! k = (take (min 28 n) (direct d) @ take (min (n - 28) 128) (ids v (indirect1 d)) @
      map (entry v (ids v (indirect2 d))) [0..<n - 156]) ! k"
    using k assms l by cases (auto simp: data_ids_def file_block_id_def entry_def nth_append)
qed

lemma mset_used_ids:
  assumes "length (direct d) = 28"
  defines "n \<equiv> unat (data_blocks d)"
  shows "mset (take (min 28 n) (direct d) @ (if n > 28 then indirect1 d # take (min (n - 28) 128) (ids v (indirect1 d)) @
      (if n > 156 then indirect2 d # clear_list v (ids v (indirect2 d)) 0 (n - 156) else []) else [])) = mset (used_ids v d)"
  unfolding used_ids_def n_def [symmetric] map_block_ids [OF assms(1)] meta_ids_def
  by (auto simp: mset_clear_list)

context block_dev
begin

lemma clear_size_ok:
  assumes s: "st H v s" and wf: "wf_inode nblocks (dom H) v d" and card: "Suc (card (dom H)) < BLOCK_CACHE_SIZE"
  shows "\<exists>s' bs. clear_size bd d s = Some (bs, DiskInode_initialize (di_type d) d, s') \<and> st H v s' \<and>
    mset bs = mset (used_ids v d)"
proof -
  define n where "n = unat (data_blocks d)"
  have n: "n \<le> 16540" using wf_nblocks(2) [OF wf] by (simp add: n_def)
  have dl: "length (direct d) = 28" using wf by (simp add: wf_inode_def inode_valid_def)
  have fin: "finite (dom H)" using s by (auto simp: cache_state_def)
  let ?v0 = "take (min 28 n) (direct d)"
  let ?v1 = "?v0 @ indirect1 d # take (min (n - 28) 128) (ids v (indirect1 d))"
  let ?v2 = "?v1 @ indirect2 d # clear_list v (ids v (indirect2 d)) 0 (n - 156)"
  note used = wf_used [OF wf] and ms = mset_used_ids [OF dl, of v, folded n_def]
  consider "n \<le> 28" | "28 < n" "n \<le> 156" | "156 < n" by linarith
  then show ?thesis
  proof cases
    case 1
    then have "clear_size bd d s = Some (?v0, DiskInode_initialize (di_type d) d, s)"
      by (simp add: clear_size_def n_def [symmetric] Let_def)
    then show ?thesis using ms 1 s by auto
  next
    case 2
    have "indirect1 d \<in> set (used_ids v d)" by (rule used_indirect1) (use 2 in \<open>simp add: n_def\<close>)
    note i1 = used [OF this]
    from indirect_read_ok [OF s i1, of "\<lambda>ib s. Some ((?v0 @ [indirect1 d]) @ take (min (n - 28) 128) ib, s)"] card
    obtain s1 where s1: "cache_read bd IndirectBlock (unat (indirect1 d)) 0
        (\<lambda>ib s. Some ((?v0 @ [indirect1 d]) @ take (min (n - 28) 128) ib, s)) s = Some (?v1, s1)" "st H v s1" by auto
    have "clear_size bd d s = Some (?v1, DiskInode_initialize (di_type d) d, s1)"
    proof -
      have sub: "28 < n" "\<not> 128 < n - 28" using 2 by simp_all
      show ?thesis
        using s1(1) unfolding clear_size_def n_def [symmetric] Let_def layout_consts by (simp only: sub if_True if_False) simp
    qed
    then show ?thesis using ms 2 s1(2) by auto
  next
    case 3
    have "indirect1 d \<in> set (used_ids v d)" "indirect2 d \<in> set (used_ids v d)"
      using 3 used_indirect1 used_indirect2 by (simp_all add: n_def)
    note i1 = used [OF this(1)] and i2 = used [OF this(2)]
    from indirect_read_ok [OF s i1, of "\<lambda>ib s. Some ((?v0 @ [indirect1 d]) @ take (min (n - 28) 128) ib, s)"] card
    obtain s1 where s1: "cache_read bd IndirectBlock (unat (indirect1 d)) 0
        (\<lambda>ib s. Some ((?v0 @ [indirect1 d]) @ take (min (n - 28) 128) ib, s)) s = Some (?v1, s1)" "st H v s1" by auto
    let ?f = "\<lambda>ib2 s. do { (v, cur, s) \<leftarrow> clear2_loop bd ib2 0 0 ((n - 156) div 128) ((n - 156) mod 128) (?v1 @ [indirect2 d]) 0 s;
        Some ((v, cur), s) }"
    have "\<exists>s'. cache_read bd IndirectBlock (unat (indirect2 d)) 0 ?f s1 = Some ((?v2, n - 156), s') \<and> st H v s'"
    proof (rule indirect_read_ok [OF s1(2) i2])
      show "card (dom H) < BLOCK_CACHE_SIZE" using card by simp
      fix s2 m assume s2: "st (H(unat (indirect2 d) \<mapsto> m)) v s2"
      have "\<exists>s'. clear2_loop bd (ids v (indirect2 d)) (0 div 128) (0 mod 128) ((n - 156) div 128) ((n - 156) mod 128)
          (?v1 @ [indirect2 d]) 0 s2 =
          Some ((?v1 @ [indirect2 d]) @ clear_list v (ids v (indirect2 d)) 0 (n - 156), 0 + (n - 156 - 0), s') \<and>
          st (H(unat (indirect2 d) \<mapsto> m)) v s'"
      proof (rule clear2_loop_ok [OF s2])
        show "card (dom (H(unat (indirect2 d) \<mapsto> m))) < BLOCK_CACHE_SIZE" using card i2(2) fin by simp
        fix j assume j: "j < cdiv (n - 156)"
        have e: "set (map ((!) (ids v (indirect2 d))) [0..<cdiv (n - 156)]) \<subseteq> set (used_ids v d)"
          and ne: "indirect2 d \<notin> set (map ((!) (ids v (indirect2 d))) [0..<cdiv (n - 156)])"
        proof -
          have "156 < unat (data_blocks d)" "distinct (used_ids v d)" using 3 wf by (simp_all add: n_def wf_inode_def)
          note oe = old_entries [OF this(1), of v, folded n_def] and this(2)
          from oe(1) show "set (map ((!) (ids v (indirect2 d))) [0..<cdiv (n - 156)]) \<subseteq> set (used_ids v d)"
            unfolding list.set by blast
          from oe(2) [OF \<open>distinct (used_ids v d)\<close>]
          show "indirect2 d \<notin> set (map ((!) (ids v (indirect2 d))) [0..<cdiv (n - 156)])"
            unfolding distinct.simps list.set by blast
        qed
        define L x where "L = map ((!) (ids v (indirect2 d))) [0..<cdiv (n - 156)]" and "x = ids v (indirect2 d) ! j"
        have "x \<in> set L" using j by (simp add: L_def x_def)
        moreover note e [folded L_def] ne [folded L_def]
        ultimately have "x \<in> set (used_ids v d)" "x \<noteq> indirect2 d" by auto
        then show "ok_id nblocks (H(unat (indirect2 d) \<mapsto> m)) (ids v (indirect2 d) ! j)"
          using used [of x] by (simp add: ok_id_def flip: word_unat_eq_iff x_def)
      qed (use n 3 in \<open>simp_all add: ids_def\<close>)
      then show "\<exists>s'. ?f (ids v (indirect2 d)) s2 = Some ((?v2, n - 156), s') \<and> st (H(unat (indirect2 d) \<mapsto> m)) v s'"
        by auto
    qed
    then obtain s2 where s2: "cache_read bd IndirectBlock (unat (indirect2 d)) 0 ?f s1 = Some ((?v2, n - 156), s2)" "st H v s2"
      by blast
    have sub: "n - 28 - 128 = n - 156" "28 < n" "128 < n - 28" using 3 by simp_all
    have "clear_size bd d s = Some (?v2, DiskInode_initialize (di_type d) d, s2)"
      using 3 s1(1) s2(1) unfolding clear_size_def n_def [symmetric] Let_def layout_consts sub(1)
      by (simp add: sub(2,3))
    then show ?thesis using ms 3 s2(2) by auto
  qed
qed

end

section \<open>The content of a grown file\<close>

lemma grown_file_bytes:
  assumes wf: "wf_inode nb (dom H) v d" and g: "grown nb H v d new_size nbs v' d'" and le: "di_size d \<le> new_size"
  shows "take (unat (di_size d)) (file_bytes v' d') = file_bytes v d"
proof (rule nth_equalityI)
  from g have wf': "wf_inode nb (dom H) v' d'" and sz: "di_size d' = new_size"
    and ext: "extends v d (unat (data_blocks d)) v' d' (unat (data_blocks d')) (set nbs)" by (simp_all add: grown_def)
  have le': "unat (di_size d) \<le> unat (di_size d')" using le sz by (simp add: word_le_nat_alt)
  then show "length (take (unat (di_size d)) (file_bytes v' d')) = length (file_bytes v d)" by simp
  fix i assume "i < length (take (unat (di_size d)) (file_bytes v' d'))"
  then have i: "i < unat (di_size d)" "i < unat (di_size d')" using le' by auto
  let ?k = "i div 512"
  have k: "?k < unat (data_blocks d)" "?k < unat (data_blocks d')"
    by (rule wf_block_index [OF wf i(1)], rule wf_block_index [OF wf' i(2)])
  have same: "file_block_id v' d' ?k = file_block_id v d ?k" using ext k(1) by (simp add: extends_def)
  have "unat (file_block_id v d ?k) \<notin> unat ` set (meta_ids v' d' (unat (data_blocks d')))"
    using wf_distinct(1) [OF wf' k(2)] same by (metis imageE)
  then have "v' (unat (file_block_id v d ?k)) = v (unat (file_block_id v d ?k))"
    using ext by (simp add: extends_def same_outside_def)
  then show "take (unat (di_size d)) (file_bytes v' d') ! i = file_bytes v d ! i"
    using i same by (simp add: file_bytes_def byte_at_def BLOCK_SZ_def)
qed

section \<open>Properties\<close>

text \<open>
  \<open>DiskInode::read_at\<close> through the block map and the cache returns the bytes of the abstract
  file: for a well-formed inode whose blocks nobody has locked, any offset and any buffer, it
  returns \<open>n = min(offset + len, size) - offset\<close> (0 past the end) and fills exactly the first
  \<open>n\<close> bytes of the buffer with \<open>file[offset..offset+n]\<close>, changing no block of the disk.
\<close>

theorem inode_read_at_spec:
  assumes "cache_state file_block (\<lambda>f. length f = N * BLOCK_SZ) N H v s"
    and "wf_inode N (dom H) v d" and "card (dom H) < BLOCK_CACHE_SIZE"
  shows "\<exists>s'. DiskInode_read_at BlockFile d off buf s =
      (let n = min (off + length buf) (unat (di_size d)) - off
       in Some (n, splice_at 0 (slice_at off n (file_bytes v d)) buf, s')) \<and>
    cache_state file_block (\<lambda>f. length f = N * BLOCK_SZ) N H v s'"
  by (rule bf.read_at_ok [OF assms])

text \<open>A one-block file on a disk of four zero blocks, for concrete instances.\<close>

definition sample_inode :: disk_inode where
  "sample_inode = \<lparr>di_size = 10, direct = 1 # replicate 27 0, indirect1 = 0, indirect2 = 0, di_type = File\<rparr>"

lemma sample_data_blocks [simp]: "data_blocks sample_inode = 1"
  by (simp add: sample_inode_def data_blocks_def data_blocks_of_def BLOCK_SZ_def)

lemma sample_used [simp]: "used_ids v sample_inode = [1]"
  by (simp add: used_ids_def data_ids_def meta_ids_def file_block_id_def) (simp add: sample_inode_def)

lemma sample_wf: "1 < N \<Longrightarrow> 1 \<notin> X \<Longrightarrow> wf_inode N X v sample_inode"
  by (simp add: wf_inode_def) (simp add: sample_inode_def inode_valid_def BLOCK_SZ_def)

theorem inode_read_at_spec_witness:
  "\<exists>s'. DiskInode_read_at BlockFile sample_inode 4 (replicate 16 9) (BlockCacheManager_new (replicate (4 * BLOCK_SZ) 0)) =
      (let n = min (4 + length (replicate 16 (9 :: u8))) (unat (di_size sample_inode)) - 4
       in Some (n, splice_at 0 (slice_at 4 n (file_bytes (file_block (replicate (4 * BLOCK_SZ) 0)) sample_inode)) (replicate 16 9), s')) \<and>
    cache_state file_block (\<lambda>f. length f = 4 * BLOCK_SZ) 4 Map.empty (file_block (replicate (4 * BLOCK_SZ) 0)) s'"
  by (rule inode_read_at_spec [OF bf.new_ok]) (simp_all add: sample_wf BLOCK_CACHE_SIZE_def)

text \<open>
  \<open>DiskInode::write_at\<close> overwrites the abstract file from \<open>offset\<close> on with as much of the
  buffer as fits below the size, and nothing else: the block map is unchanged, the other bytes
  of the file are unchanged, and every block of the disk that is not a data block of the file
  is unchanged. It returns the number of bytes written.
\<close>

theorem inode_write_at_spec:
  assumes "cache_state file_block (\<lambda>f. length f = N * BLOCK_SZ) N H v s"
    and "wf_inode N (dom H) v d" and "card (dom H) < BLOCK_CACHE_SIZE"
  shows "\<exists>s' v'. DiskInode_write_at BlockFile d off buf s =
        Some (min (off + length buf) (unat (di_size d)) - off, s') \<and>
      cache_state file_block (\<lambda>f. length f = N * BLOCK_SZ) N H v' s' \<and>
      file_bytes v' d = splice_at off (take (min (off + length buf) (unat (di_size d)) - off) buf) (file_bytes v d) \<and>
      used_ids v' d = used_ids v d \<and>
      (\<forall>b. b \<notin> unat ` set (data_ids v d (unat (data_blocks d))) \<longrightarrow> v' b = v b)"
  using bf.write_at_ok [OF assms, of off buf] unfolding file_written_def same_outside_def by blast

theorem inode_write_at_spec_witness:
  "let v = file_block (replicate (4 * BLOCK_SZ) 0); d = sample_inode; buf = replicate 3 (7 :: u8) in
   \<exists>s' v'. DiskInode_write_at BlockFile d 4 buf (BlockCacheManager_new (replicate (4 * BLOCK_SZ) 0)) =
        Some (min (4 + length buf) (unat (di_size d)) - 4, s') \<and>
      cache_state file_block (\<lambda>f. length f = 4 * BLOCK_SZ) 4 Map.empty v' s' \<and>
      file_bytes v' d = splice_at 4 (take (min (4 + length buf) (unat (di_size d)) - 4) buf) (file_bytes v d) \<and>
      used_ids v' d = used_ids v d \<and>
      (\<forall>b. b \<notin> unat ` set (data_ids v d (unat (data_blocks d))) \<longrightarrow> v' b = v b)"
  unfolding Let_def
  by (rule inode_write_at_spec [OF bf.new_ok]) (simp_all add: sample_wf BLOCK_CACHE_SIZE_def)

text \<open>
  \<open>DiskInode::increase_size\<close>, over all three levels of the block map. Given exactly as many
  fresh blocks as \<open>blocks_num_needed\<close> asks for, it never panics; afterwards the inode has the new
  size, its blocks are the old ones plus the given ones, all distinct, and the bytes the file had
  are still there. Only indirect blocks of the inode are written.
\<close>

theorem inode_increase_size_spec:
  assumes "cache_state file_block (\<lambda>f. length f = N * BLOCK_SZ) N H v s"
    and "wf_inode N (dom H) v d" and "Suc (card (dom H)) < BLOCK_CACHE_SIZE"
    and "di_size d \<le> new_size" and "unat new_size \<le> INDIRECT2_BOUND * BLOCK_SZ"
    and "blocks_num_needed d new_size = Some k" and "length nbs = unat k"
    and "distinct (used_ids v d @ nbs)" and "\<forall>b\<in>set (0 # nbs). unat b < N \<and> unat b \<notin> dom H"
  shows "\<exists>d' s' v'. DiskInode_increase_size BlockFile d new_size nbs s = Some (d', s') \<and>
    cache_state file_block (\<lambda>f. length f = N * BLOCK_SZ) N H v' s' \<and>
    di_size d' = new_size \<and> di_type d' = di_type d \<and> wf_inode N (dom H) v' d' \<and>
    set (used_ids v' d') = set (used_ids v d) \<union> set nbs \<and>
    take (unat (di_size d)) (file_bytes v' d') = file_bytes v d \<and>
    (\<forall>b. b \<notin> unat ` set (meta_ids v' d' (unat (data_blocks d'))) \<longrightarrow> v' b = v b)"
proof -
  have "unat (di_size d) \<le> 16540 * 512" using assms(2) by (simp add: wf_inode_def BLOCK_SZ_def)
  note t = unat_total_blocks [OF this] unat_total_blocks [of new_size]
  have n: "unat (data_blocks d) \<le> unat (data_blocks_of new_size)"
    unfolding data_blocks_def by (rule data_blocks_mono(1)) (use assms in \<open>simp_all add: BLOCK_SZ_def\<close>)
  have "unat (total_blocks (di_size d)) \<le> unat (total_blocks new_size)"
    using t assms(5) blocks_for_mono [OF n] by (simp add: BLOCK_SZ_def data_blocks_def)
  then have "unat k = blocks_for (unat (data_blocks_of new_size)) - blocks_for (unat (data_blocks d))"
    using t assms(4-6) by (auto simp: blocks_num_needed_def BLOCK_SZ_def data_blocks_def unat_sub word_le_nat_alt)
  then have pre: "grow_pre N H v d new_size nbs"
    using assms by (simp add: grow_pre_def ok_id_def)
  from bf.increase_size_ok [OF assms(1) pre assms(3)] obtain d' s' v' where
    r: "DiskInode_increase_size BlockFile d new_size nbs s = Some (d', s')"
      "cache_state file_block (\<lambda>f. length f = N * BLOCK_SZ) N H v' s'" "grown N H v d new_size nbs v' d'" by blast
  have ext: "extends v d (unat (data_blocks d)) v' d' (unat (data_blocks d')) (set nbs)" and sz: "di_size d' = new_size"
    using r(3) by (simp_all add: grown_def)
  have "set (used_ids v' d') = set (used_ids v d) \<union> set nbs"
    unfolding used_ids_uids by (rule extends_uids [OF ext]) (use n sz in \<open>simp add: data_blocks_def\<close>)
  moreover have "\<forall>b. b \<notin> unat ` set (meta_ids v' d' (unat (data_blocks d'))) \<longrightarrow> v' b = v b"
    using ext by (simp add: extends_def same_outside_def)
  ultimately show ?thesis
    using r grown_file_bytes [OF assms(2) r(3) assms(4)] unfolding grown_def by blast
qed

theorem inode_increase_size_spec_witness:
  "let v = file_block (replicate (4 * BLOCK_SZ) 0); d = sample_inode; nbs = [2, 3] in
   \<exists>d' s' v'. DiskInode_increase_size BlockFile d 1500 nbs (BlockCacheManager_new (replicate (4 * BLOCK_SZ) 0)) = Some (d', s') \<and>
    cache_state file_block (\<lambda>f. length f = 4 * BLOCK_SZ) 4 Map.empty v' s' \<and>
    di_size d' = 1500 \<and> di_type d' = di_type d \<and> wf_inode 4 (dom (Map.empty :: nat \<rightharpoonup> bool)) v' d' \<and>
    set (used_ids v' d') = set (used_ids v d) \<union> set nbs \<and>
    take (unat (di_size d)) (file_bytes v' d') = file_bytes v d \<and>
    (\<forall>b. b \<notin> unat ` set (meta_ids v' d' (unat (data_blocks d'))) \<longrightarrow> v' b = v b)"
  unfolding Let_def
proof (rule inode_increase_size_spec [OF bf.new_ok, where k = 2])
  show "blocks_num_needed sample_inode 1500 = Some 2"
    by (simp add: blocks_num_needed_def sample_inode_def total_blocks_def data_blocks_of_def BLOCK_SZ_def Let_def)
qed (simp_all add: sample_wf BLOCK_CACHE_SIZE_def, simp_all add: sample_inode_def BLOCK_SZ_def)

text \<open>
  \<open>DiskInode::clear_size\<close> returns every block of the inode, data and indirect, exactly once,
  as many as \<open>total_blocks(size)\<close> says, leaves the inode empty and writes no block.
\<close>

theorem inode_clear_size_spec:
  assumes "cache_state file_block (\<lambda>f. length f = N * BLOCK_SZ) N H v s"
    and "wf_inode N (dom H) v d" and "Suc (card (dom H)) < BLOCK_CACHE_SIZE"
  shows "\<exists>s' bs d'. clear_size BlockFile d s = Some (bs, d', s') \<and>
    cache_state file_block (\<lambda>f. length f = N * BLOCK_SZ) N H v s' \<and>
    mset bs = mset (used_ids v d) \<and> distinct bs \<and> length bs = unat (total_blocks (di_size d)) \<and>
    wf_inode N (dom H) v d' \<and> file_bytes v d' = [] \<and> used_ids v d' = [] \<and> di_type d' = di_type d"
proof -
  let ?d = "DiskInode_initialize (di_type d) d"
  from bf.clear_size_ok [OF assms] obtain s' bs where
    r: "clear_size BlockFile d s = Some (bs, ?d, s')"
      "cache_state file_block (\<lambda>f. length f = N * BLOCK_SZ) N H v s'" "mset bs = mset (used_ids v d)" by blast
  have "unat (di_size d) \<le> 16540 * 512" using assms(2) by (simp add: wf_inode_def BLOCK_SZ_def)
  then have len: "length bs = unat (total_blocks (di_size d))"
    using mset_eq_length [OF r(3)] by (simp add: unat_total_blocks used_ids_uids length_uids data_blocks_def)
  have dist: "distinct bs" using assms(2) mset_eq_imp_distinct_iff [OF r(3)] by (simp add: wf_inode_def)
  have z: "data_blocks ?d = 0" by (simp add: data_blocks_def data_blocks_of_def DiskInode_initialize_def BLOCK_SZ_def)
  then have u: "used_ids v ?d = []" by (simp add: used_ids_def data_ids_def meta_ids_def)
  then have "wf_inode N (dom H) v ?d"
    using assms(2) by (simp add: wf_inode_def inode_valid_def DiskInode_initialize_def)
  moreover have "file_bytes v ?d = []" "di_type ?d = di_type d"
    by (simp_all add: file_bytes_def DiskInode_initialize_def)
  ultimately show ?thesis using r u len dist by blast
qed

theorem inode_clear_size_spec_witness:
  "let v = file_block (replicate (4 * BLOCK_SZ) 0); d = sample_inode in
   \<exists>s' bs d'. clear_size BlockFile d (BlockCacheManager_new (replicate (4 * BLOCK_SZ) 0)) = Some (bs, d', s') \<and>
    cache_state file_block (\<lambda>f. length f = 4 * BLOCK_SZ) 4 Map.empty v s' \<and>
    mset bs = mset (used_ids v d) \<and> distinct bs \<and> length bs = unat (total_blocks (di_size d)) \<and>
    wf_inode 4 (dom (Map.empty :: nat \<rightharpoonup> bool)) v d' \<and> file_bytes v d' = [] \<and> used_ids v d' = [] \<and> di_type d' = di_type d"
  unfolding Let_def
  by (rule inode_clear_size_spec [OF bf.new_ok]) (simp_all add: sample_wf BLOCK_CACHE_SIZE_def)

section \<open>Directory entries\<close>

lemma of_bytes_as_bytes: "length (de_name e) = 28 \<Longrightarrow> of_bytes_mut (as_bytes e) = e"
proof -
  assume l: "length (de_name e) = 28"
  have u: "unat (inode_number e) < 2 ^ LENGTH(32)" by (rule unsigned_less)
  have "le_decode (le_encode 4 (unat (inode_number e))) = unat (inode_number e)"
    using u by (simp add: le_decode_encode)
  then show ?thesis using l by (simp add: of_bytes_mut_def as_bytes_def slice_at_def)
qed

lemma find_zero_name: "0 \<notin> set nm \<Longrightarrow> find_index (\<lambda>b. b = 0) (nm @ replicate (Suc k) 0) = Some (length nm)"
  by (induction nm) auto

lemma dir_entry_new_ok:
  assumes "0 \<notin> set nm" "from_utf8_ok nm" "length nm \<le> NAME_LENGTH_LIMIT"
  shows "\<exists>e. DirEntry_new nm ino = Some e \<and> length (as_bytes e) = DIRENT_SZ \<and> of_bytes_mut (as_bytes e) = e \<and>
      name e = Some nm \<and> inode_number e = ino"
proof -
  note l = assms(3)
  let ?e = "\<lparr>de_name = nm @ replicate (Suc (27 - length nm)) 0, inode_number = ino\<rparr>"
  have "splice_at 0 nm (replicate 28 0) = nm @ replicate (Suc (27 - length nm)) 0"
    using l by (simp add: splice_at_def flip: replicate_Suc)
  then have "DirEntry_new nm ino = Some ?e" using l by (simp add: DirEntry_new_def)
  moreover have "length (de_name ?e) = 28" using l by simp
  moreover have "name ?e = Some nm"
    using assms find_zero_name [OF assms(1), of "27 - length nm"] by (simp add: name_def)
  ultimately show ?thesis
    using of_bytes_as_bytes [of ?e] by (intro exI [where x = ?e]) (simp add: as_bytes_def)
qed

text \<open>
  C27. A directory entry round-trips: for every valid name of at most 27 bytes without a zero
  byte, \<open>DirEntry::new\<close> succeeds, its 32 bytes read back give the same entry, and \<open>name()\<close> and
  \<open>inode_number()\<close> return what was stored. A name of exactly 28 bytes is accepted by \<open>new\<close> but
  \<open>name()\<close> panics on it, and a longer one panics already in \<open>new\<close>.
\<close>

theorem dir_entry_roundtrip:
  assumes "0 \<notin> set nm" "from_utf8_ok nm"
  shows "(length nm \<le> NAME_LENGTH_LIMIT \<longrightarrow>
      (\<exists>e. DirEntry_new nm ino = Some e \<and> length (as_bytes e) = DIRENT_SZ \<and> of_bytes_mut (as_bytes e) = e \<and>
           name e = Some nm \<and> inode_number e = ino)) \<and>
    (length nm = NAME_LENGTH_LIMIT + 1 \<longrightarrow> (\<exists>e. DirEntry_new nm ino = Some e \<and> name e = None)) \<and>
    (length nm > NAME_LENGTH_LIMIT + 1 \<longrightarrow> DirEntry_new nm ino = None)"
proof (intro conjI impI)
  assume l: "length nm \<le> NAME_LENGTH_LIMIT"
  then show "\<exists>e. DirEntry_new nm ino = Some e \<and> length (as_bytes e) = DIRENT_SZ \<and> of_bytes_mut (as_bytes e) = e \<and>
      name e = Some nm \<and> inode_number e = ino"
    by (rule dir_entry_new_ok [OF assms])
next
  assume l: "length nm = NAME_LENGTH_LIMIT + 1"
  then have "DirEntry_new nm ino = Some \<lparr>de_name = nm, inode_number = ino\<rparr>" by (simp add: DirEntry_new_def)
  moreover have "find_index (\<lambda>b. b = 0) nm = None" using assms(1) by (auto simp: find_index_None_iff)
  ultimately show "\<exists>e. DirEntry_new nm ino = Some e \<and> name e = None" by (simp add: name_def)
qed (simp add: DirEntry_new_def)

theorem dir_entry_roundtrip_witness:
  "let nm = [104, 105] :: bytes; ino = 3 in (length nm \<le> NAME_LENGTH_LIMIT \<longrightarrow>
      (\<exists>e. DirEntry_new nm ino = Some e \<and> length (as_bytes e) = DIRENT_SZ \<and> of_bytes_mut (as_bytes e) = e \<and>
           name e = Some nm \<and> inode_number e = ino)) \<and>
    (length nm = NAME_LENGTH_LIMIT + 1 \<longrightarrow> (\<exists>e. DirEntry_new nm ino = Some e \<and> name e = None)) \<and>
    (length nm > NAME_LENGTH_LIMIT + 1 \<longrightarrow> DirEntry_new nm ino = None)"
  unfolding Let_def by (rule dir_entry_roundtrip) simp_all

text \<open>
  The block count of a size: \<open>total_blocks\<close> is the number of data blocks plus exactly the
  indirect blocks they need for every size a block map can address, while for sizes within 511
  bytes of \<open>2 ^ 32\<close> the rounding in \<open>_data_blocks\<close> wraps around and the count is 0.
\<close>

theorem total_blocks_count:
  "(unat sz \<le> INDIRECT2_BOUND * BLOCK_SZ \<longrightarrow>
      (let n = (unat sz + 511) div 512 in
       unat (total_blocks sz) =
         n + (if n > 28 then 1 else 0) + (if n > 156 then 1 + (n - 156 + 127) div 128 else 0))) \<and>
   (unat sz > 2 ^ 32 - 512 \<longrightarrow> total_blocks sz = 0)"
proof (intro conjI impI)
  assume "unat sz \<le> INDIRECT2_BOUND * BLOCK_SZ"
  then have sz: "unat sz \<le> 16540 * 512" by (simp add: BLOCK_SZ_def)
  then show "let n = (unat sz + 511) div 512 in unat (total_blocks sz) =
      n + (if n > 28 then 1 else 0) + (if n > 156 then 1 + (n - 156 + 127) div 128 else 0)"
    unfolding Let_def unat_total_blocks [OF sz] by (simp add: unat_data_blocks_of blocks_for_def cdiv_def)
next
  assume big: "unat sz > 2 ^ 32 - 512"
  have "unat (sz + 511) = (unat sz + 511) mod 2 ^ 32" by (simp add: unat_word_ariths)
  moreover have "unat sz < 2 ^ LENGTH(32)" by (rule unsigned_less)
  moreover have "(a + 511) mod 2 ^ 32 < 512" if "2 ^ 32 - 512 < a" "a < 2 ^ 32" for a :: nat
  proof -
    have "(a + 511) mod 2 ^ 32 = a + 511 - 2 ^ 32" using that by (simp add: mod_if)
    also have "\<dots> < 512" using that by simp
    finally show ?thesis .
  qed
  ultimately have "unat (sz + 511) < 512" using big by simp
  then have "unat ((sz + 511) div 512) = 0" by (simp add: unat_div)
  then have "data_blocks_of sz = 0" by (simp add: data_blocks_of_def BLOCK_SZ_def add.commute unat_eq_zero)
  then show "total_blocks sz = 0" by (simp add: total_blocks_def)
qed

theorem total_blocks_count_witness:
  "let sz = 100000 :: u32 in (unat sz \<le> INDIRECT2_BOUND * BLOCK_SZ \<longrightarrow>
      (let n = (unat sz + 511) div 512 in
       unat (total_blocks sz) =
         n + (if n > 28 then 1 else 0) + (if n > 156 then 1 + (n - 156 + 127) div 128 else 0))) \<and>
   (unat sz > 2 ^ 32 - 512 \<longrightarrow> total_blocks sz = 0)"
  unfolding Let_def [of "100000 :: u32"] by (rule total_blocks_count)

end
