(* ===== verification/Efs.thy ===== *)
theory Efs
  imports Bitmap LayoutClear
begin

text \<open>
  \<^verbatim>\<open>easy-fs/src/efs.rs\<close>: the file system on a disk. The disk is laid out as super block,
  inode bitmap, inode area, data bitmap, data area; \<open>create\<close> formats it, \<open>open\<close> reads the
  layout back, and inodes and data blocks are allocated through the two bitmaps.
\<close>

section \<open>The model\<close>

record efs =
  inode_bitmap :: bitmap
  data_bitmap :: bitmap
  inode_area_start_block :: u32
  data_area_start_block :: u32

definition alloc_inode :: "'d block_device \<Rightarrow> efs \<Rightarrow> 'd bcm \<Rightarrow> (u32 \<times> 'd bcm) option" where
  "alloc_inode bd fs s =
     do { (r, s) \<leftarrow> bitmap_alloc bd (inode_bitmap fs) s;
          i \<leftarrow> r;
          Some (of_nat i, s) }"

definition alloc_data :: "'d block_device \<Rightarrow> efs \<Rightarrow> 'd bcm \<Rightarrow> (u32 \<times> 'd bcm) option" where
  "alloc_data bd fs s =
     do { (r, s) \<leftarrow> bitmap_alloc bd (data_bitmap fs) s;
          i \<leftarrow> r;
          Some (of_nat i + data_area_start_block fs, s) }"

definition zero_block :: bytes where "zero_block = replicate BLOCK_SZ 0"

text \<open>\<open>iter_mut().for_each(|p| *p = 0)\<close> on a data block.\<close>

definition clear_block :: "'d block_device \<Rightarrow> nat \<Rightarrow> 'd bcm \<Rightarrow> (unit \<times> 'd bcm) option" where
  "clear_block bd b s = cache_modify bd DataBlock b 0 (\<lambda>db s. Some (map (\<lambda>_. 0) db, (), s)) s"

definition dealloc_data :: "'d block_device \<Rightarrow> efs \<Rightarrow> u32 \<Rightarrow> 'd bcm \<Rightarrow> (unit \<times> 'd bcm) option" where
  "dealloc_data bd fs bid s =
     do { (_, s) \<leftarrow> clear_block bd (unat bid) s;
          bitmap_dealloc bd (data_bitmap fs) (unat (bid - data_area_start_block fs)) s }"

definition get_disk_inode_pos :: "efs \<Rightarrow> u32 \<Rightarrow> u32 \<times> nat" where
  "get_disk_inode_pos fs inode_id =
     (let inode_size = size_of DiskInode;
          inodes_per_block = (of_nat (BLOCK_SZ div inode_size) :: u32);
          bid = inode_area_start_block fs + inode_id div inodes_per_block
      in (bid, unat (inode_id mod inodes_per_block) * inode_size))"

definition get_data_block_id :: "efs \<Rightarrow> u32 \<Rightarrow> u32" where
  "get_data_block_id fs data_block_id = data_area_start_block fs + data_block_id"

text \<open>The sizes of the areas, in the wrapping 32-bit arithmetic of the source.\<close>

definition area_sizes :: "u32 \<Rightarrow> u32 \<Rightarrow> u32 \<times> u32 \<times> u32 \<times> u32" where
  "area_sizes tb ib =
     (let inode_num = bitmap_maximum (Bitmap_new 1 (unat ib));
          ia = of_nat ((inode_num * size_of DiskInode + BLOCK_SZ - 1) div BLOCK_SZ);
          inode_total = ib + ia;
          data_total = tb - 1 - inode_total;
          db = (data_total + 4096) div 4097;
          da = data_total - db
      in (ia, inode_total, db, da))"

fun clear_blocks :: "'d block_device \<Rightarrow> nat list \<Rightarrow> 'd bcm \<Rightarrow> (unit \<times> 'd bcm) option" where
  "clear_blocks bd [] s = Some ((), s)"
| "clear_blocks bd (b # bs) s = do { (_, s) \<leftarrow> clear_block bd b s; clear_blocks bd bs s }"

definition efs_create :: "'d block_device \<Rightarrow> u32 \<Rightarrow> u32 \<Rightarrow> 'd bcm \<Rightarrow> (efs \<times> 'd bcm) option" where
  "efs_create bd tb ib s =
     (let (ia, inode_total, db, da) = area_sizes tb ib;
          fs = \<lparr>inode_bitmap = Bitmap_new 1 (unat ib),
                data_bitmap = Bitmap_new (unat (1 + inode_total)) (unat db),
                inode_area_start_block = 1 + ib,
                data_area_start_block = 1 + inode_total + db\<rparr>
      in do { (_, s) \<leftarrow> clear_blocks bd [0..<unat tb] s;
              (_, s) \<leftarrow> cache_modify bd SuperBlock 0 0
                (\<lambda>sb s. Some (SuperBlock_initialize tb ib ia db da sb, (), s)) s;
              (i, s) \<leftarrow> alloc_inode bd fs s;
              assert_that (i = 0);
              let (root_bid, root_off) = get_disk_inode_pos fs 0;
              (_, s) \<leftarrow> cache_modify bd DiskInode (unat root_bid) root_off
                (\<lambda>d s. Some (DiskInode_initialize Directory d, (), s)) s;
              s \<leftarrow> block_cache_sync_all bd s;
              Some (fs, s) })"

definition efs_open :: "'d block_device \<Rightarrow> 'd bcm \<Rightarrow> (efs \<times> 'd bcm) option" where
  "efs_open bd s =
     cache_read bd SuperBlock 0 0
       (\<lambda>sb s. do { assert_that (SuperBlock_is_valid sb);
                    let inode_total = inode_bitmap_blocks sb + inode_area_blocks sb;
                    Some (\<lparr>inode_bitmap = Bitmap_new 1 (unat (inode_bitmap_blocks sb)),
                           data_bitmap = Bitmap_new (unat (1 + inode_total)) (unat (data_bitmap_blocks sb)),
                           inode_area_start_block = 1 + inode_bitmap_blocks sb,
                           data_area_start_block = 1 + inode_total + data_bitmap_blocks sb\<rparr>, s) }) s"

text \<open>A handle on an inode; the file system and the device it names are passed along.\<close>

record inode =
  ino_block_id :: nat
  ino_block_offset :: nat

definition Inode_new :: "u32 \<Rightarrow> nat \<Rightarrow> inode" where
  "Inode_new bid off = \<lparr>ino_block_id = unat bid, ino_block_offset = off\<rparr>"

definition root_inode :: "efs \<Rightarrow> inode" where
  "root_inode fs = (let (bid, off) = get_disk_inode_pos fs 0 in Inode_new bid off)"

section \<open>Blocks of zeros\<close>

lemma length_zero_block [simp]: "length zero_block = BLOCK_SZ"
  by (simp add: zero_block_def)

lemma le_decode_zeros [simp]: "le_decode (replicate n 0) = 0"
  by (induction n) simp_all

lemma decode_zero_block: "w * n \<le> BLOCK_SZ \<Longrightarrow> decode_array w n zero_block = replicate n 0"
proof (rule nth_equalityI)
  assume w: "w * n \<le> BLOCK_SZ"
  fix i assume i: "i < length (decode_array w n zero_block :: 'a word list)"
  then have "w * i + w \<le> BLOCK_SZ" using w
    by (metis Suc_leI add.commute le_trans length_decode_array mult_Suc_right mult_le_mono2)
  then have "slice_at (w * i) w zero_block = replicate w 0" by (simp add: slice_at_def zero_block_def)
  then show "decode_array w n zero_block ! i = (replicate n 0 :: 'a word list) ! i"
    using i by (simp add: nth_decode_array)
qed simp

lemma zero_block_free: "v (start_block_id bm + b div 4096) = zero_block \<Longrightarrow> \<not> bit_set v bm b"
  by (simp add: bit_set_def word_bit_def decode_zero_block BLOCK_SZ_def less_mult_imp_div_less)

lemma map_zero: "length xs = BLOCK_SZ \<Longrightarrow> map (\<lambda>_. 0) xs = zero_block"
  by (simp add: zero_block_def map_replicate_const)

section \<open>The layout\<close>

text \<open>
  A disk the layout fits on: room for the super block, \<open>ib\<close> bitmap blocks and the \<open>1024 ib\<close>
  blocks of the inodes they count, and no wrap-around of the size.
\<close>

definition layout_fits :: "u32 \<Rightarrow> u32 \<Rightarrow> bool" where
  "layout_fits tb ib \<longleftrightarrow> 0 < unat ib \<and> 1 + unat ib * 1025 \<le> unat tb \<and> unat tb \<le> 2 ^ 32 - 4096"

lemma unat_of_nat_u32: "n < 2 ^ 32 \<Longrightarrow> unat (of_nat n :: u32) = n"
  by (simp add: unat_of_nat take_bit_nat_eq_self)

lemma unat_plus_u32: "unat a + unat b < 2 ^ 32 \<Longrightarrow> unat (a + b :: u32) = unat a + unat b"
  using unat_add_lem [of a b] by simp

lemma size_of_DiskInode [simp]: "size_of DiskInode = 128"
  by (simp add: DiskInode_def)

lemma area_sizes_unat:
  assumes fit: "layout_fits tb ib" and eq: "area_sizes tb ib = (ia, it, db, da)"
  shows "unat ia = unat ib * 1024" "unat it = unat ib * 1025"
    "unat db = (unat tb - 1 - unat ib * 1025 + 4096) div 4097"
    "unat da = unat tb - 1 - unat ib * 1025 - unat db" "unat db \<le> unat tb - 1 - unat ib * 1025"
proof -
  from fit have f: "1 + unat ib * 1025 \<le> unat tb" "unat tb \<le> 2 ^ 32 - 4096" by (simp_all add: layout_fits_def)
  have ia_def: "ia = of_nat (unat ib * 1024)"
    and it_def: "it = ib + ia" and db_def: "db = (tb - 1 - it + 4096) div 4097" and da_def: "da = tb - 1 - it - db"
  proof -
    have "(unat ib * 4096 * 128 + 512 - 1) div 512 = unat ib * 1024"
      by (rule div_nat_eqI) simp_all
    with eq show "ia = of_nat (unat ib * 1024)" "it = ib + ia" "db = (tb - 1 - it + 4096) div 4097" "da = tb - 1 - it - db"
      by (auto simp: area_sizes_def Let_def bitmap_maximum_def Bitmap_new_def BLOCK_SZ_def simp del: of_nat_mult)
  qed
  have small: "unat ib * 1025 < 2 ^ 32" using f by simp
  show ia: "unat ia = unat ib * 1024"
    unfolding ia_def by (rule unat_of_nat_u32) (use small in simp)
  have "unat it = unat ib + unat ia" unfolding it_def by (rule unat_plus_u32) (use small ia in simp)
  then show it: "unat it = unat ib * 1025" using ia by simp
  have one: "unat (tb - 1) = unat tb - 1" using f(1) by (subst unat_sub) (simp_all add: word_le_nat_alt)
  have D: "unat (tb - 1 - it) = unat tb - 1 - unat ib * 1025"
    using f(1) it one by (subst unat_sub) (simp_all add: word_le_nat_alt)
  have "unat (tb - 1 - it + 4096) = unat (tb - 1 - it) + unat (4096 :: u32)"
    by (rule unat_plus_u32) (use D f in simp)
  then show db: "unat db = (unat tb - 1 - unat ib * 1025 + 4096) div 4097"
    unfolding db_def unat_div D by simp
  have "(n + 4096) div 4097 \<le> n" for n :: nat
    by (cases "n = 0") (simp_all add: div_le_mono less_eq_div_iff_mult_less_eq div_less_iff_less_mult flip: less_Suc_eq_le)
  then show le: "unat db \<le> unat tb - 1 - unat ib * 1025" unfolding db .
  show "unat da = unat tb - 1 - unat ib * 1025 - unat db"
    unfolding da_def using D le by (subst unat_sub) (simp_all add: word_le_nat_alt)
qed

text \<open>The record \<open>create\<close> builds.\<close>

definition fresh_fs :: "u32 \<Rightarrow> u32 \<Rightarrow> efs" where
  "fresh_fs tb ib =
     (let (ia, it, db, da) = area_sizes tb ib
      in \<lparr>inode_bitmap = Bitmap_new 1 (unat ib), data_bitmap = Bitmap_new (unat (1 + it)) (unat db),
          inode_area_start_block = 1 + ib, data_area_start_block = 1 + it + db\<rparr>)"

lemma fresh_fs_layout:
  assumes fit: "layout_fits tb ib"
  shows "start_block_id (inode_bitmap (fresh_fs tb ib)) = 1" "blocks (inode_bitmap (fresh_fs tb ib)) = unat ib"
    "unat (inode_area_start_block (fresh_fs tb ib)) = 1 + unat ib"
    "start_block_id (data_bitmap (fresh_fs tb ib)) = 1 + unat ib * 1025"
    "unat (data_area_start_block (fresh_fs tb ib)) = 1 + unat ib * 1025 + blocks (data_bitmap (fresh_fs tb ib))"
    "blocks (data_bitmap (fresh_fs tb ib)) = (unat tb - 1 - unat ib * 1025 + 4096) div 4097"
    "unat (data_area_start_block (fresh_fs tb ib)) \<le> unat tb"
proof -
  obtain ia it db da where eq: "area_sizes tb ib = (ia, it, db, da)" by (metis prod_cases4)
  note u = area_sizes_unat [OF fit eq]
  from fit have f: "1 + unat ib * 1025 \<le> unat tb" "unat tb \<le> 2 ^ 32 - 4096" by (simp_all add: layout_fits_def)
  have it: "unat (1 + it) = 1 + unat it" by (subst unat_plus_u32) (use u f in simp_all)
  have ds: "unat (1 + it + db) = 1 + unat it + unat db"
  proof -
    have "unat (1 + it) + unat db < 2 ^ 32" using u(2,5) f it by linarith
    then show ?thesis using unat_plus_u32 [of "1 + it" db] it by simp
  qed
  have ib: "unat (1 + ib) = 1 + unat ib" by (subst unat_plus_u32) (use f in simp_all)
  show "start_block_id (inode_bitmap (fresh_fs tb ib)) = 1" "blocks (inode_bitmap (fresh_fs tb ib)) = unat ib"
    "unat (inode_area_start_block (fresh_fs tb ib)) = 1 + unat ib"
    "start_block_id (data_bitmap (fresh_fs tb ib)) = 1 + unat ib * 1025"
    "unat (data_area_start_block (fresh_fs tb ib)) = 1 + unat ib * 1025 + blocks (data_bitmap (fresh_fs tb ib))"
    "blocks (data_bitmap (fresh_fs tb ib)) = (unat tb - 1 - unat ib * 1025 + 4096) div 4097"
    using it ds ib u f by (simp_all add: fresh_fs_def eq Bitmap_new_def)
  have "unat (1 + it + db) \<le> unat tb" using ds u(2,5) f by linarith
  then show "unat (data_area_start_block (fresh_fs tb ib)) \<le> unat tb" by (simp add: fresh_fs_def eq)
qed

section \<open>Allocation and release\<close>

text \<open>The bitmap of \<open>fs\<close> lies on the device and none of its blocks is locked.\<close>

definition bm_ok :: "nat \<Rightarrow> (nat \<rightharpoonup> bool) \<Rightarrow> bitmap \<Rightarrow> bool" where
  "bm_ok nb H bm \<longleftrightarrow> (\<forall>i<blocks bm. start_block_id bm + i < nb \<and> start_block_id bm + i \<notin> dom H)"

context block_dev
begin

lemma clear_block_ok:
  assumes "st H v s" "b < nblocks" "b \<notin> dom H" "card (dom H) < BLOCK_CACHE_SIZE"
  shows "\<exists>s'. clear_block bd b s = Some ((), s') \<and> st H (v(b := zero_block)) s'"
proof -
  have l: "length (v b) = BLOCK_SZ" by (rule st_length [OF assms(1,2)])
  have "\<exists>s'. clear_block bd b s = Some ((), s') \<and> st H (v(b := splice_at 0 (to_mem DataBlock zero_block) (v b))) s'"
    unfolding clear_block_def by (rule cache_modify_ok [OF assms]) (use l in \<open>auto simp: map_zero\<close>)
  then show ?thesis using l by simp
qed

lemma clear_blocks_ok:
  assumes "st H v s" "card (dom H) < BLOCK_CACHE_SIZE" "\<forall>b\<in>set bs. b < nblocks \<and> b \<notin> dom H"
  shows "\<exists>s'. clear_blocks bd bs s = Some ((), s') \<and> st H (\<lambda>b. if b \<in> set bs then zero_block else v b) s'"
  using assms
proof (induction bs arbitrary: v s)
  case (Cons b bs)
  then obtain s1 where s1: "clear_block bd b s = Some ((), s1)" "st H (v(b := zero_block)) s1"
    using clear_block_ok [of H v s b] by auto
  from Cons.IH [OF s1(2) Cons.prems(2)] Cons.prems(3) obtain s2 where
    s2: "clear_blocks bd bs s1 = Some ((), s2)" "st H (\<lambda>i. if i \<in> set bs then zero_block else (v(b := zero_block)) i) s2"
    by auto
  moreover have "(\<lambda>i. if i \<in> set bs then zero_block else (v(b := zero_block)) i) =
      (\<lambda>i. if i \<in> set (b # bs) then zero_block else v i)" by auto
  ultimately show ?case using s1(1) by simp
qed simp

lemma alloc_data_ok:
  assumes "st H v s" "card (dom H) < BLOCK_CACHE_SIZE" "bm_ok nblocks H (data_bitmap fs)"
    and "first_free v (data_bitmap fs) = Some b"
  shows "\<exists>s'. alloc_data bd fs s = Some (of_nat b + data_area_start_block fs, s') \<and>
    st H (mark_bit v (data_bitmap fs) b) s'"
proof -
  have "\<exists>s'. bitmap_alloc bd (data_bitmap fs) s = Some (first_free v (data_bitmap fs), s') \<and>
    st H (case first_free v (data_bitmap fs) of None \<Rightarrow> v | Some b \<Rightarrow> mark_bit v (data_bitmap fs) b) s'"
    by (rule bitmap_alloc_ok [OF assms(1,2)]) (use assms(3) in \<open>simp add: bm_ok_def\<close>)
  with assms(4) show ?thesis by (auto simp: alloc_data_def)
qed

lemma alloc_inode_ok:
  assumes "st H v s" "card (dom H) < BLOCK_CACHE_SIZE" "bm_ok nblocks H (inode_bitmap fs)"
    and "first_free v (inode_bitmap fs) = Some b"
  shows "\<exists>s'. alloc_inode bd fs s = Some (of_nat b, s') \<and> st H (mark_bit v (inode_bitmap fs) b) s'"
proof -
  have "\<exists>s'. bitmap_alloc bd (inode_bitmap fs) s = Some (first_free v (inode_bitmap fs), s') \<and>
    st H (case first_free v (inode_bitmap fs) of None \<Rightarrow> v | Some b \<Rightarrow> mark_bit v (inode_bitmap fs) b) s'"
    by (rule bitmap_alloc_ok [OF assms(1,2)]) (use assms(3) in \<open>simp add: bm_ok_def\<close>)
  with assms(4) show ?thesis by (auto simp: alloc_inode_def)
qed

lemma super_modify_ok:
  assumes "st H v s" "0 < nblocks" "0 \<notin> dom H" "card (dom H) < BLOCK_CACHE_SIZE"
  shows "\<exists>s'. cache_modify bd SuperBlock 0 0 (\<lambda>sb s. Some (SuperBlock_initialize tb ib ia db da sb, (), s)) s = Some ((), s') \<and>
    st H (v(0 := splice_at 0 (to_mem SuperBlock (SuperBlock_initialize tb ib ia db da undefined)) (v 0))) s'"
proof -
  have "\<exists>x. from_mem SuperBlock (slice_at 0 24 (v 0)) = Some x"
    by (simp add: SuperBlock_def decode_array_def numeral_eq_Suc)
  then obtain x where x: "from_mem SuperBlock (slice_at 0 24 (v 0)) = Some x" by blast
  show ?thesis
    by (rule cache_modify_ok [OF assms, where x = x])
      (use x in \<open>auto simp: SuperBlock_def BLOCK_SZ_def SuperBlock_initialize_def\<close>)
qed

end

section \<open>Formatting\<close>

text \<open>The state of a freshly formatted disk.\<close>

definition formatted :: "u32 \<Rightarrow> u32 \<Rightarrow> (nat \<Rightarrow> bytes) \<Rightarrow> bool" where
  "formatted tb ib v \<longleftrightarrow>
     (let fs = fresh_fs tb ib; (ia, it, db, da) = area_sizes tb ib in
      from_mem SuperBlock (slice_at 0 24 (v 0)) =
        Some \<lparr>magic = EFS_MAGIC, sb_total_blocks = tb, inode_bitmap_blocks = ib, inode_area_blocks = ia,
              data_bitmap_blocks = db, data_area_blocks = da\<rparr> \<and>
      (\<forall>b<bitmap_maximum (inode_bitmap fs). bit_set v (inode_bitmap fs) b \<longleftrightarrow> b = 0) \<and>
      (\<forall>b<bitmap_maximum (data_bitmap fs). \<not> bit_set v (data_bitmap fs) b) \<and>
      (\<exists>d. from_mem DiskInode (slice_at 0 128 (v (1 + unat ib))) = Some d \<and> is_dir d \<and> di_size d = 0 \<and>
        indirect2 d = 0) \<and>
      slice_at 128 384 (v (1 + unat ib)) = replicate 384 0 \<and>
      (\<forall>b. unat (data_area_start_block fs) \<le> b \<and> b < unat tb \<longrightarrow> v b = zero_block) \<and>
      (\<forall>b. 1 + unat ib < b \<and> b < unat tb \<longrightarrow> v b = zero_block))"

text \<open>The super block alone, which is what \<open>open\<close> reads.\<close>

definition super_at :: "u32 \<Rightarrow> u32 \<Rightarrow> (nat \<Rightarrow> bytes) \<Rightarrow> bool" where
  "super_at tb ib v \<longleftrightarrow>
     (let (ia, it, db, da) = area_sizes tb ib in
      from_mem SuperBlock (slice_at 0 24 (v 0)) =
        Some \<lparr>magic = EFS_MAGIC, sb_total_blocks = tb, inode_bitmap_blocks = ib, inode_area_blocks = ia,
              data_bitmap_blocks = db, data_area_blocks = da\<rparr>)"

lemma formatted_super: "formatted tb ib v \<Longrightarrow> super_at tb ib v"
  by (auto simp: formatted_def super_at_def Let_def)

lemma zero_inode:
  "from_mem DiskInode (slice_at 0 128 zero_block) =
     Some \<lparr>di_size = 0, direct = replicate 28 0, indirect1 = 0, indirect2 = 0, di_type = File\<rparr>"
proof -
  have z: "slice_at 0 128 zero_block = replicate 128 0" by (simp add: slice_at_def zero_block_def BLOCK_SZ_def)
  have "decode_array 4 31 (replicate 128 0) = (replicate 31 0 :: u32 list)"
    by (rule nth_equalityI) (auto simp: nth_decode_array slice_at_def min_def)
  then show ?thesis unfolding z
    by (intro from_mem_DiskInode) (simp_all add: numeral_eq_Suc)
qed

lemma mark_bit_other: "i \<noteq> start_block_id bm + b div 4096 \<Longrightarrow> mark_bit v bm b i = v i"
  by (simp add: mark_bit_def upd_word_def Let_def)

lemma bit_set_cong: "v' (start_block_id bm + b div 4096) = v (start_block_id bm + b div 4096) \<Longrightarrow> bit_set v' bm b = bit_set v bm b"
  by (simp add: bit_set_def)

context block_dev
begin

lemma create_ok:
  assumes s: "st Map.empty v s" and fit: "layout_fits tb ib" and tb: "unat tb \<le> nblocks"
  shows "\<exists>s' v'. efs_create bd tb ib s = Some (fresh_fs tb ib, s') \<and> st Map.empty v' s' \<and>
    contents (device s') = v' \<and> formatted tb ib v' \<and> (\<forall>b\<ge>unat tb. v' b = v b)"
proof -
  let ?fs = "fresh_fs tb ib" let ?bm = "inode_bitmap ?fs"
  obtain ia it db da where eq: "area_sizes tb ib = (ia, it, db, da)" by (metis prod_cases4)
  note lay = fresh_fs_layout [OF fit]
  from fit have f: "0 < unat ib" "1 + unat ib * 1025 \<le> unat tb" by (simp_all add: layout_fits_def)
  have room: "card (dom (Map.empty :: nat \<rightharpoonup> bool)) < BLOCK_CACHE_SIZE" by (simp add: BLOCK_CACHE_SIZE_def)
  define v1 where "v1 = (\<lambda>b. if b < unat tb then zero_block else v b)"
  have "\<exists>s1. clear_blocks bd [0..<unat tb] s = Some ((), s1) \<and>
      st Map.empty (\<lambda>b. if b \<in> set [0..<unat tb] then zero_block else v b) s1"
    by (rule clear_blocks_ok [OF s room]) (use tb in auto)
  then obtain s1 where s1: "clear_blocks bd [0..<unat tb] s = Some ((), s1)" "st Map.empty v1 s1"
    by (auto simp: v1_def atLeast0LessThan)
  define sb where "sb = SuperBlock_initialize tb ib ia db da undefined"
  define v2 where "v2 = v1(0 := splice_at 0 (to_mem SuperBlock sb) (v1 0))"
  have nz: "0 < nblocks" using f tb by linarith
  from super_modify_ok [OF s1(2) nz _ room, of tb ib ia db da] obtain s2 where
    s2: "cache_modify bd SuperBlock 0 0 (\<lambda>sb s. Some (SuperBlock_initialize tb ib ia db da sb, (), s)) s1 = Some ((), s2)"
      "st Map.empty v2 s2" by (auto simp: v2_def sb_def)
  have free: "\<not> bit_set v2 ?bm b" if "b < bitmap_maximum ?bm" for b
  proof -
    have "b div 4096 < unat ib" using that lay(2) by (simp add: bitmap_maximum_def less_mult_imp_div_less)
    then have "v2 (start_block_id ?bm + b div 4096) = zero_block" using lay(1) f by (simp add: v2_def v1_def)
    then show ?thesis by (rule zero_block_free)
  qed
  have ff: "first_free v2 ?bm = Some 0"
  proof -
    have "0 < bitmap_maximum ?bm" using f lay(2) by (simp add: bitmap_maximum_def)
    with free [OF this] show ?thesis by (simp add: first_free_def upt_conv_Cons)
  qed
  have bmo: "bm_ok nblocks Map.empty ?bm" using lay f tb by (auto simp: bm_ok_def)
  define v3 where "v3 = mark_bit v2 ?bm 0"
  from alloc_inode_ok [OF s2(2) room bmo ff] obtain s3 where
    s3: "alloc_inode bd ?fs s2 = Some (0, s3)" "st Map.empty v3 s3" by (auto simp: v3_def)
  let ?r = "1 + unat ib"
  have pos: "get_disk_inode_pos ?fs 0 = (inode_area_start_block ?fs, 0)" by (simp add: get_disk_inode_pos_def)
  have r: "?r < nblocks" "?r < unat tb" using f tb by linarith+
  have v3r: "v3 ?r = zero_block" using f lay(1) r by (simp add: v3_def mark_bit_other v2_def v1_def)
  define d0 where "d0 = \<lparr>di_size = 0, direct = replicate 28 0, indirect1 = 0, indirect2 = 0, di_type = File\<rparr>"
  define d1 where "d1 = DiskInode_initialize Directory d0"
  have dv: "inode_valid d1" by (simp add: d1_def d0_def DiskInode_initialize_def inode_valid_def)
  define v4 where "v4 = v3(?r := splice_at 0 (to_mem DiskInode d1) (v3 ?r))"
  have "\<exists>s4. cache_modify bd DiskInode ?r 0 (\<lambda>d s. Some (DiskInode_initialize Directory d, (), s)) s3 = Some ((), s4) \<and>
      st Map.empty v4 s4"
    unfolding v4_def
    by (rule cache_modify_ok [OF s3(2) r(1) _ room, where x = d0])
      (use inode_repr.to_mem_fits [OF dv] zero_inode v3r in \<open>auto simp: d0_def d1_def BLOCK_SZ_def\<close>)
  then obtain s4 where s4: "cache_modify bd DiskInode ?r 0 (\<lambda>d s. Some (DiskInode_initialize Directory d, (), s)) s3 = Some ((), s4)"
    "st Map.empty v4 s4" by blast
  from sync_all_ok [OF s4(2)] obtain s5 where
    s5: "block_cache_sync_all bd s4 = Some s5" "st Map.empty v4 s5" "contents (device s5) = v4" by blast
  have run: "efs_create bd tb ib s = Some (?fs, s5)"
    using s1(1) s2(1) s3(1) s4(1) s5(1) pos lay(3)
    by (simp add: efs_create_def eq fresh_fs_def Let_def)
  have d0z: "start_block_id (data_bitmap ?fs) > ?r" using lay f by simp
  have zero: "v4 b = zero_block" if "?r < b" "b < unat tb" for b
    using that f lay(1) by (simp add: v4_def v3_def mark_bit_other v2_def v1_def)
  have "from_mem SuperBlock (slice_at 0 24 (v4 0)) = Some sb"
  proof -
    have "v4 0 = splice_at 0 (to_mem SuperBlock sb) zero_block"
      using f lay(1) by (simp add: v4_def v3_def mark_bit_other v2_def v1_def)
    with super_repr.load_stored_at [of 0 zero_block sb] show ?thesis by (simp add: SuperBlock_def BLOCK_SZ_def)
  qed
  moreover have "bit_set v4 ?bm b \<longleftrightarrow> b = 0" if b: "b < bitmap_maximum ?bm" for b
  proof -
    have "b div 4096 < unat ib" using b lay(2) by (simp add: bitmap_maximum_def less_mult_imp_div_less)
    then have "bit_set v4 ?bm b = bit_set v3 ?bm b" using lay(1) by (intro bit_set_cong) (simp add: v4_def)
    then show ?thesis using free [OF b] by (auto simp: v3_def)
  qed
  moreover have "\<not> bit_set v4 (data_bitmap ?fs) b" if b: "b < bitmap_maximum (data_bitmap ?fs)" for b
  proof (rule zero_block_free, rule zero)
    have "b div 4096 < blocks (data_bitmap ?fs)" using b by (simp add: bitmap_maximum_def less_mult_imp_div_less)
    then show "start_block_id (data_bitmap ?fs) + b div 4096 < unat tb" using lay(4,5,7) by linarith
    show "?r < start_block_id (data_bitmap ?fs) + b div 4096" using d0z by linarith
  qed
  moreover have "from_mem DiskInode (slice_at 0 128 (v4 ?r)) = Some d1"
    using inode_repr.load_stored_at [OF dv, of 0 zero_block] v3r by (simp add: v4_def BLOCK_SZ_def)
  moreover have "slice_at 128 384 (v4 ?r) = replicate 384 0"
  proof -
    have "slice_at 128 384 (v4 ?r) = slice_at 128 384 zero_block"
      using v3r inode_repr.to_mem_fits [OF dv]
      by (simp add: v4_def BLOCK_SZ_def slice_outside_store [where m = 128])
    then show ?thesis by (simp add: slice_at_def zero_block_def BLOCK_SZ_def)
  qed
  moreover have "is_dir d1" "di_size d1 = 0" "indirect2 d1 = 0" by (simp_all add: d1_def d0_def DiskInode_initialize_def is_dir_def)
  moreover have "v4 b = zero_block" if "unat (data_area_start_block ?fs) \<le> b" "b < unat tb" for b
    by (rule zero) (use that lay d0z in linarith)+
  moreover have "\<forall>b. ?r < b \<and> b < unat tb \<longrightarrow> v4 b = zero_block" using zero by blast
  ultimately have "formatted tb ib v4"
    unfolding formatted_def eq Let_def prod.case by (auto simp: sb_def SuperBlock_initialize_def)
  moreover have "\<forall>b\<ge>unat tb. v4 b = v b"
    using f lay(1) r by (auto simp: v4_def v3_def mark_bit_other v2_def v1_def)
  ultimately show ?thesis using run s5 by blast
qed

lemma open_super_ok:
  assumes s: "st H v s" "0 < nblocks" "0 \<notin> dom H" "card (dom H) < BLOCK_CACHE_SIZE" and super: "super_at tb ib v"
  shows "\<exists>s'. efs_open bd s = Some (fresh_fs tb ib, s') \<and> st H v s'"
proof -
  obtain ia it db da where eq: "area_sizes tb ib = (ia, it, db, da)" by (metis prod_cases4)
  have it: "it = ib + ia" using eq by (auto simp: area_sizes_def Let_def)
  have sb: "from_mem SuperBlock (slice_at 0 24 (v 0)) =
        Some \<lparr>magic = EFS_MAGIC, sb_total_blocks = tb, inode_bitmap_blocks = ib, inode_area_blocks = ia,
              data_bitmap_blocks = db, data_area_blocks = da\<rparr>"
    using super by (simp add: super_at_def eq)
  have "size_of SuperBlock = 24" by (simp add: SuperBlock_def)
  then show ?thesis unfolding efs_open_def
    by (intro cache_read_ok [OF s]) (use sb in \<open>auto simp: BLOCK_SZ_def SuperBlock_is_valid_def fresh_fs_def eq it Let_def\<close>)
qed

lemma open_ok:
  assumes "st H v s" "0 < nblocks" "0 \<notin> dom H" "card (dom H) < BLOCK_CACHE_SIZE" and "formatted tb ib v"
  shows "\<exists>s'. efs_open bd s = Some (fresh_fs tb ib, s') \<and> st H v s'"
  by (rule open_super_ok [OF assms(1-4) formatted_super [OF assms(5)]])

end

section \<open>Properties\<close>

text \<open>
  C29. \<open>EasyFileSystem::create\<close> formats a disk that \<open>EasyFileSystem::open\<close> reads back as the same
  file system. On any disk image of at least \<open>total_blocks\<close> blocks, \<open>create\<close> returns, everything
  it wrote is on the device (the super block, the bitmaps with only the root inode taken, an empty
  root directory, a zeroed data area), it touches no block beyond \<open>total_blocks\<close>, and opening the
  device afterwards through an empty cache returns the bitmaps and areas \<open>create\<close> returned.
\<close>

theorem create_open_roundtrip:
  assumes "layout_fits tb ib" "unat tb \<le> n" "length f = n * BLOCK_SZ"
  shows "\<exists>fs s s'. efs_create BlockFile tb ib (BlockCacheManager_new f) = Some (fs, s) \<and>
    formatted tb ib (file_block (device s)) \<and> (\<forall>b\<ge>unat tb. file_block (device s) b = file_block f b) \<and>
    efs_open BlockFile (BlockCacheManager_new (device s)) = Some (fs, s')"
proof -
  have s: "cache_state file_block (\<lambda>f. length f = n * BLOCK_SZ) n Map.empty (file_block f) (BlockCacheManager_new f)"
    by (rule bf.new_ok) (rule assms(3))
  from bf.create_ok [OF s assms(1,2)] obtain s1 v where
    c: "efs_create BlockFile tb ib (BlockCacheManager_new f) = Some (fresh_fs tb ib, s1)"
      "cache_state file_block (\<lambda>f. length f = n * BLOCK_SZ) n Map.empty v s1"
      "file_block (device s1) = v" "formatted tb ib v" "\<forall>b\<ge>unat tb. v b = file_block f b" by blast
  from c(2) have "length (device s1) = n * BLOCK_SZ" by (simp add: cache_state_def cache_inv_def)
  then have "cache_state file_block (\<lambda>f. length f = n * BLOCK_SZ) n Map.empty v (BlockCacheManager_new (device s1))"
    using bf.new_ok [of "device s1" n] c(3) by simp
  moreover have "0 < n" using assms(1,2) by (simp add: layout_fits_def)
  moreover have "card (dom (Map.empty :: nat \<rightharpoonup> bool)) < BLOCK_CACHE_SIZE" by (simp add: BLOCK_CACHE_SIZE_def)
  ultimately obtain s2 where "efs_open BlockFile (BlockCacheManager_new (device s1)) = Some (fresh_fs tb ib, s2)"
    using bf.open_ok [OF _ _ _ _ c(4)] by blast
  with c show ?thesis by blast
qed

theorem create_open_roundtrip_witness:
  "let tb = 1100; ib = 1; f = replicate (1100 * BLOCK_SZ) 5 in
   \<exists>fs s s'. efs_create BlockFile tb ib (BlockCacheManager_new f) = Some (fs, s) \<and>
    formatted tb ib (file_block (device s)) \<and> (\<forall>b\<ge>unat tb. file_block (device s) b = file_block f b) \<and>
    efs_open BlockFile (BlockCacheManager_new (device s)) = Some (fs, s')"
  unfolding Let_def by (rule create_open_roundtrip [where n = 1100]) (simp_all add: layout_fits_def)

text \<open>
  The areas \<open>create\<close> lays out partition the disk: super block, inode bitmap, inode area, data
  bitmap and data area follow one another without gap or overlap and end exactly at
  \<open>total_blocks\<close>; the inode area holds one 128-byte slot for each bit of the inode bitmap and the
  data bitmap has at least one bit for each block of the data area.
\<close>

theorem layout_partition:
  assumes "layout_fits tb ib"
  shows "let fs = fresh_fs tb ib; (ia, it, db, da) = area_sizes tb ib in
    start_block_id (inode_bitmap fs) = 1 \<and>
    unat (inode_area_start_block fs) = start_block_id (inode_bitmap fs) + blocks (inode_bitmap fs) \<and>
    start_block_id (data_bitmap fs) = unat (inode_area_start_block fs) + unat ia \<and>
    unat (data_area_start_block fs) = start_block_id (data_bitmap fs) + blocks (data_bitmap fs) \<and>
    unat (data_area_start_block fs) + unat da = unat tb \<and>
    unat ia * BLOCK_SZ = bitmap_maximum (inode_bitmap fs) * size_of DiskInode \<and>
    unat da \<le> bitmap_maximum (data_bitmap fs)"
proof -
  obtain ia it db da where eq: "area_sizes tb ib = (ia, it, db, da)" by (metis prod_cases4)
  note u = area_sizes_unat [OF assms eq] and lay = fresh_fs_layout [OF assms]
  from assms have f: "1 + unat ib * 1025 \<le> unat tb" by (simp add: layout_fits_def)
  have db: "unat db = blocks (data_bitmap (fresh_fs tb ib))" using u(3) lay(6) by simp
  have "D - (D + 4096) div 4097 \<le> (D + 4096) div 4097 * 4096" for D :: nat
    using div_mult_mod_eq [of "D + 4096" 4097] mod_less_divisor [of 4097 "D + 4096"] by linarith
  then have "unat da \<le> unat db * 4096" using u(3,4) by metis
  then show ?thesis
    unfolding Let_def eq prod.case using u lay f db by (simp add: bitmap_maximum_def BLOCK_SZ_def)
qed

theorem layout_partition_witness:
  "let tb = 32768; ib = 1 in let fs = fresh_fs tb ib; (ia, it, db, da) = area_sizes tb ib in
    start_block_id (inode_bitmap fs) = 1 \<and>
    unat (inode_area_start_block fs) = start_block_id (inode_bitmap fs) + blocks (inode_bitmap fs) \<and>
    start_block_id (data_bitmap fs) = unat (inode_area_start_block fs) + unat ia \<and>
    unat (data_area_start_block fs) = start_block_id (data_bitmap fs) + blocks (data_bitmap fs) \<and>
    unat (data_area_start_block fs) + unat da = unat tb \<and>
    unat ia * BLOCK_SZ = bitmap_maximum (inode_bitmap fs) * size_of DiskInode \<and>
    unat da \<le> bitmap_maximum (data_bitmap fs)"
  using layout_partition [of 32768 1] by (simp add: layout_fits_def)

text \<open>
  C30. The data bitmap has more bits than the data area has blocks, and \<open>alloc_data\<close> does not stop
  at the end of the area: when every block of the data area is taken and the bitmap has a spare
  bit, \<open>alloc_data\<close> reports success and returns \<open>total_blocks\<close>, a block beyond the disk.
\<close>

theorem alloc_data_overshoot:
  assumes "layout_fits tb ib" "unat tb \<le> n" "area_sizes tb ib = (ia, it, db, da)"
    and "cache_state file_block (\<lambda>f. length f = n * BLOCK_SZ) n Map.empty v s"
    and "first_free v (data_bitmap (fresh_fs tb ib)) = Some (unat da)"
  shows "\<exists>s'. alloc_data BlockFile (fresh_fs tb ib) s = Some (tb, s')"
proof -
  let ?fs = "fresh_fs tb ib"
  note u = area_sizes_unat [OF assms(1,3)] and lay = fresh_fs_layout [OF assms(1)]
  have room: "card (dom (Map.empty :: nat \<rightharpoonup> bool)) < BLOCK_CACHE_SIZE" by (simp add: BLOCK_CACHE_SIZE_def)
  have "bm_ok n Map.empty (data_bitmap ?fs)" using lay(4,5,7) assms(2) by (simp add: bm_ok_def)
  from bf.alloc_data_ok [OF assms(4) room this assms(5)] obtain s' where
    "alloc_data BlockFile ?fs s = Some (of_nat (unat da) + data_area_start_block ?fs, s')" by blast
  moreover have "of_nat (unat da) + data_area_start_block ?fs = tb"
  proof -
    have "da + data_area_start_block ?fs = tb"
      using assms(3) by (auto simp: fresh_fs_def area_sizes_def Let_def)
    then show ?thesis by simp
  qed
  ultimately show ?thesis by simp
qed

lemma zero_disk_block: "i < n \<Longrightarrow> file_block (replicate (n * BLOCK_SZ) 0) i = zero_block"
  using block_in_file [of i n] by (simp add: file_block_def zero_block_def slice_at_def)

theorem alloc_data_overshoot_witness:
  "\<exists>s'. alloc_data BlockFile (fresh_fs 1027 1) (BlockCacheManager_new (replicate (1027 * BLOCK_SZ) 0)) = Some (1027, s')"
proof (rule alloc_data_overshoot [where n = 1027 and ia = 1024 and it = 1025 and db = 1 and da = 0, OF _ _ _ zero_disk_state])
  show fit: "layout_fits 1027 1" by (simp add: layout_fits_def)
  define v where "v = file_block (replicate (1027 * BLOCK_SZ) 0)"
  define bm where "bm = data_bitmap (fresh_fs 1027 1)"
  have bm: "start_block_id bm = 1026" "bitmap_maximum bm = 4096"
    unfolding bm_def bitmap_maximum_def using fresh_fs_layout(4,6) [OF fit] by simp_all
  have "v 1026 = zero_block" unfolding v_def by (rule zero_disk_block) simp
  then have "\<not> bit_set v bm 0" by (intro zero_block_free) (simp add: bm)
  then have "first_free v bm = Some 0" unfolding first_free_def by (intro find_upt_eqI) (simp_all add: bm)
  then show "first_free (file_block (replicate (1027 * BLOCK_SZ) 0)) (data_bitmap (fresh_fs 1027 1)) = Some (unat (0 :: u32))"
    by (simp only: v_def bm_def unat_0)
qed (simp_all add: area_sizes_def Let_def Bitmap_new_def bitmap_maximum_def BLOCK_SZ_def)

text \<open>
  \<open>get_disk_inode_pos\<close> gives every inode of the file system a slot of its own: the slot lies
  inside one block of the inode area, and two different inodes never share a byte.
\<close>

theorem inode_pos_disjoint:
  assumes "layout_fits tb ib" "unat i < bitmap_maximum (inode_bitmap (fresh_fs tb ib))"
    and "unat j < bitmap_maximum (inode_bitmap (fresh_fs tb ib))" "i \<noteq> j"
    and "get_disk_inode_pos (fresh_fs tb ib) i = (b, off)" "get_disk_inode_pos (fresh_fs tb ib) j = (c, off')"
  shows "unat (inode_area_start_block (fresh_fs tb ib)) \<le> unat b \<and>
    unat b < start_block_id (data_bitmap (fresh_fs tb ib)) \<and> off + size_of DiskInode \<le> BLOCK_SZ \<and>
    (b \<noteq> c \<or> off + size_of DiskInode \<le> off' \<or> off' + size_of DiskInode \<le> off)"
proof -
  note lay = fresh_fs_layout [OF assms(1)]
  from assms(1) have f: "1 + unat ib * 1025 \<le> unat tb" "unat tb \<le> 2 ^ 32 - 4096" by (simp_all add: layout_fits_def)
  have key: "unat c = 1 + unat ib + unat k div 4 \<and> off = unat k mod 4 * 128"
    if "get_disk_inode_pos (fresh_fs tb ib) k = (c, off)" "unat k < unat ib * 4096" for k c off
  proof -
    have "c = inode_area_start_block (fresh_fs tb ib) + k div 4" "off = unat (k mod 4) * 128"
      using that(1) by (simp_all add: get_disk_inode_pos_def Let_def BLOCK_SZ_def)
    moreover have "unat k div 4 < unat ib * 1024" using that(2) by (simp add: less_mult_imp_div_less)
    ultimately show ?thesis using lay(3) f by (simp add: unat_plus_u32 unat_div unat_mod)
  qed
  have i: "unat i < unat ib * 4096" and j: "unat j < unat ib * 4096" using assms(2,3) lay(2) by (simp_all add: bitmap_maximum_def)
  note bi = key [OF assms(5) i] and cj = key [OF assms(6) j]
  have "unat i \<noteq> unat j" using assms(4) by (simp add: word_unat_eq_iff)
  then have "unat i div 4 \<noteq> unat j div 4 \<or> unat i mod 4 \<noteq> unat j mod 4" by (metis div_mult_mod_eq)
  then have "b \<noteq> c \<or> off + 128 \<le> off' \<or> off' + 128 \<le> off"
  proof
    assume "unat i mod 4 \<noteq> unat j mod 4"
    then have "unat i mod 4 < unat j mod 4 \<or> unat j mod 4 < unat i mod 4" by linarith
    then show ?thesis using bi cj by auto
  qed (use bi cj in auto)
  moreover have "unat i div 4 < unat ib * 1024" using i by (simp add: less_mult_imp_div_less)
  moreover have "unat i mod 4 < 4" by simp
  ultimately show ?thesis using bi lay(3,4) by (simp add: BLOCK_SZ_def)
qed

theorem inode_pos_disjoint_witness:
  "let fs = fresh_fs 32768 1 in
   unat (inode_area_start_block fs) \<le> unat (3 :: u32) \<and>
    unat (3 :: u32) < start_block_id (data_bitmap fs) \<and> 128 + size_of DiskInode \<le> BLOCK_SZ \<and>
    ((3 :: u32) \<noteq> 3 \<or> 128 + size_of DiskInode \<le> 256 \<or> 256 + size_of DiskInode \<le> 128)"
  unfolding Let_def
  by (rule inode_pos_disjoint [where i = 5 and j = 6])
    (simp_all add: layout_fits_def get_disk_inode_pos_def fresh_fs_def area_sizes_def Bitmap_new_def bitmap_maximum_def
      Let_def BLOCK_SZ_def)

end
