(* ===== verification/Vfs.thy ===== *)
theory Vfs
  imports Efs
begin

text \<open>
  \<^verbatim>\<open>easy-fs/src/vfs.rs\<close>: inodes as the kernel uses them. Every method takes the lock of the
  file system for its whole body, so methods run one after the other and the lock itself is not
  part of the state; the file system record is never changed (its state is on the disk), so it is
  passed as an argument. The directory of an inode is the list \<open>dir_entries\<close> of its entries.
\<close>

section \<open>The model\<close>

definition read_disk_inode :: "'d block_device \<Rightarrow> inode \<Rightarrow> (disk_inode \<Rightarrow> 'd bcm \<Rightarrow> ('v \<times> 'd bcm) option) \<Rightarrow>
    'd bcm \<Rightarrow> ('v \<times> 'd bcm) option" where
  "read_disk_inode bd ino f s = cache_read bd DiskInode (ino_block_id ino) (ino_block_offset ino) f s"

definition modify_disk_inode :: "'d block_device \<Rightarrow> inode \<Rightarrow> (disk_inode \<Rightarrow> 'd bcm \<Rightarrow> (disk_inode \<times> 'v \<times> 'd bcm) option) \<Rightarrow>
    'd bcm \<Rightarrow> ('v \<times> 'd bcm) option" where
  "modify_disk_inode bd ino f s = cache_modify bd DiskInode (ino_block_id ino) (ino_block_offset ino) f s"

text \<open>Entry \<open>i\<close> of a directory, read over the bytes of the entry read before.\<close>

definition read_dirent :: "'d block_device \<Rightarrow> disk_inode \<Rightarrow> nat \<Rightarrow> dir_entry \<Rightarrow> 'd bcm \<Rightarrow> (dir_entry \<times> 'd bcm) option" where
  "read_dirent bd d i dirent s =
     do { (n, bs, s) \<leftarrow> DiskInode_read_at bd d (DIRENT_SZ * i) (as_bytes dirent) s;
          assert_that (n = DIRENT_SZ);
          Some (of_bytes_mut bs, s) }"

fun find_loop :: "'d block_device \<Rightarrow> disk_inode \<Rightarrow> bytes \<Rightarrow> nat list \<Rightarrow> dir_entry \<Rightarrow> 'd bcm \<Rightarrow> (u32 option \<times> 'd bcm) option" where
  "find_loop bd d nm [] dirent s = Some (None, s)"
| "find_loop bd d nm (i # is) dirent s =
     do { (dirent, s) \<leftarrow> read_dirent bd d i dirent s;
          n \<leftarrow> name dirent;
          if n = nm then Some (Some (inode_number dirent), s) else find_loop bd d nm is dirent s }"

definition find_inode_id :: "'d block_device \<Rightarrow> bytes \<Rightarrow> disk_inode \<Rightarrow> 'd bcm \<Rightarrow> (u32 option \<times> 'd bcm) option" where
  "find_inode_id bd nm d s =
     do { assert_that (is_dir d);
          let file_count = unat (di_size d) div DIRENT_SZ;
          find_loop bd d nm [0..<file_count] DirEntry_empty s }"

definition vfs_find :: "'d block_device \<Rightarrow> efs \<Rightarrow> inode \<Rightarrow> bytes \<Rightarrow> 'd bcm \<Rightarrow> (inode option \<times> 'd bcm) option" where
  "vfs_find bd fs self nm s =
     read_disk_inode bd self
       (\<lambda>d s. do { (r, s) \<leftarrow> find_inode_id bd nm d s;
                   Some (map_option (\<lambda>i. case get_disk_inode_pos fs i of (bid, off) \<Rightarrow> Inode_new bid off) r, s) }) s"

fun ls_loop :: "'d block_device \<Rightarrow> disk_inode \<Rightarrow> nat list \<Rightarrow> dir_entry \<Rightarrow> bytes list \<Rightarrow> 'd bcm \<Rightarrow> (bytes list \<times> 'd bcm) option" where
  "ls_loop bd d [] dirent v s = Some (v, s)"
| "ls_loop bd d (i # is) dirent v s =
     do { (dirent, s) \<leftarrow> read_dirent bd d i dirent s;
          n \<leftarrow> name dirent;
          ls_loop bd d is dirent (v @ [n]) s }"

definition vfs_ls :: "'d block_device \<Rightarrow> inode \<Rightarrow> 'd bcm \<Rightarrow> (bytes list \<times> 'd bcm) option" where
  "vfs_ls bd self s =
     read_disk_inode bd self
       (\<lambda>d s. ls_loop bd d [0..<unat (di_size d) div DIRENT_SZ] DirEntry_empty [] s) s"

text \<open>\<open>for _ in 0..blocks_needed { v.push(fs.alloc_data()) }\<close>\<close>

fun alloc_many :: "'d block_device \<Rightarrow> efs \<Rightarrow> nat \<Rightarrow> u32 list \<Rightarrow> 'd bcm \<Rightarrow> (u32 list \<times> 'd bcm) option" where
  "alloc_many bd fs 0 v s = Some (v, s)"
| "alloc_many bd fs (Suc k) v s = do { (b, s) \<leftarrow> alloc_data bd fs s; alloc_many bd fs k (v @ [b]) s }"

definition vfs_increase_size :: "'d block_device \<Rightarrow> efs \<Rightarrow> u32 \<Rightarrow> disk_inode \<Rightarrow> 'd bcm \<Rightarrow> (disk_inode \<times> 'd bcm) option" where
  "vfs_increase_size bd fs new_size d s =
     (if new_size < di_size d then Some (d, s)
      else do { blocks_needed \<leftarrow> blocks_num_needed d new_size;
                (v, s) \<leftarrow> alloc_many bd fs (unat blocks_needed) [] s;
                DiskInode_increase_size bd d new_size v s })"

definition vfs_create :: "'d block_device \<Rightarrow> efs \<Rightarrow> inode \<Rightarrow> bytes \<Rightarrow> 'd bcm \<Rightarrow> (inode option \<times> 'd bcm) option" where
  "vfs_create bd fs self nm s =
     do { (r, s) \<leftarrow> read_disk_inode bd self
            (\<lambda>root s. do { assert_that (is_dir root); find_inode_id bd nm root s }) s;
          if r \<noteq> None then Some (None, s)
          else
            do { (new_inode_id, s) \<leftarrow> alloc_inode bd fs s;
                 let (new_bid, new_off) = get_disk_inode_pos fs new_inode_id;
                 (_, s) \<leftarrow> cache_modify bd DiskInode (unat new_bid) new_off
                   (\<lambda>d s. Some (DiskInode_initialize File d, (), s)) s;
                 (_, s) \<leftarrow> modify_disk_inode bd self
                   (\<lambda>root s.
                      do { let file_count = unat (di_size root) div DIRENT_SZ;
                           let new_size = (file_count + 1) * DIRENT_SZ;
                           (root, s) \<leftarrow> vfs_increase_size bd fs (of_nat new_size) root s;
                           dirent \<leftarrow> DirEntry_new nm new_inode_id;
                           (_, s) \<leftarrow> DiskInode_write_at bd root (file_count * DIRENT_SZ) (as_bytes dirent) s;
                           Some (root, (), s) }) s;
                 let (bid, off) = get_disk_inode_pos fs new_inode_id;
                 s \<leftarrow> block_cache_sync_all bd s;
                 Some (Some (Inode_new bid off), s) } }"

fun dealloc_many :: "'d block_device \<Rightarrow> efs \<Rightarrow> u32 list \<Rightarrow> 'd bcm \<Rightarrow> (unit \<times> 'd bcm) option" where
  "dealloc_many bd fs [] s = Some ((), s)"
| "dealloc_many bd fs (b # bs) s = do { (_, s) \<leftarrow> dealloc_data bd fs b s; dealloc_many bd fs bs s }"

definition vfs_clear :: "'d block_device \<Rightarrow> efs \<Rightarrow> inode \<Rightarrow> 'd bcm \<Rightarrow> (unit \<times> 'd bcm) option" where
  "vfs_clear bd fs self s =
     do { (_, s) \<leftarrow> modify_disk_inode bd self
            (\<lambda>d s. do { let sz = di_size d;
                        (bs, d, s) \<leftarrow> clear_size bd d s;
                        assert_that (length bs = unat (total_blocks sz));
                        (_, s) \<leftarrow> dealloc_many bd fs bs s;
                        Some (d, (), s) }) s;
          s \<leftarrow> block_cache_sync_all bd s;
          Some ((), s) }"

definition vfs_read_at :: "'d block_device \<Rightarrow> inode \<Rightarrow> nat \<Rightarrow> bytes \<Rightarrow> 'd bcm \<Rightarrow> ((nat \<times> bytes) \<times> 'd bcm) option" where
  "vfs_read_at bd self offset buf s =
     read_disk_inode bd self
       (\<lambda>d s. do { (n, buf, s) \<leftarrow> DiskInode_read_at bd d offset buf s; Some ((n, buf), s) }) s"

definition vfs_write_at :: "'d block_device \<Rightarrow> efs \<Rightarrow> inode \<Rightarrow> nat \<Rightarrow> bytes \<Rightarrow> 'd bcm \<Rightarrow> (nat \<times> 'd bcm) option" where
  "vfs_write_at bd fs self offset buf s =
     do { (n, s) \<leftarrow> modify_disk_inode bd self
            (\<lambda>d s. do { (d, s) \<leftarrow> vfs_increase_size bd fs (of_nat (offset + length buf)) d s;
                        (n, s) \<leftarrow> DiskInode_write_at bd d offset buf s;
                        Some (d, n, s) }) s;
          s \<leftarrow> block_cache_sync_all bd s;
          Some (n, s) }"

section \<open>Allocating several blocks\<close>

definition free_bits :: "(nat \<Rightarrow> bytes) \<Rightarrow> bitmap \<Rightarrow> nat list" where
  "free_bits v bm = filter (\<lambda>b. \<not> bit_set v bm b) [0..<bitmap_maximum bm]"

lemma find_filter: "filter P xs = b # bs \<Longrightarrow> find P xs = Some b"
  by (induction xs) (auto split: if_splits)

lemma first_free_hd: "free_bits v bm = b # bs \<Longrightarrow> first_free v bm = Some b"
  unfolding free_bits_def first_free_def by (rule find_filter)

lemma free_bits_mark: "free_bits v bm = b # bs \<Longrightarrow> free_bits (mark_bit v bm b) bm = bs"
proof -
  assume fb: "free_bits v bm = b # bs"
  have "distinct (free_bits v bm)" by (simp add: free_bits_def)
  then have nb: "b \<notin> set bs" using fb by simp
  have "free_bits (mark_bit v bm b) bm = filter (\<lambda>c. c \<noteq> b) (free_bits v bm)"
    unfolding free_bits_def filter_filter by (rule filter_cong) auto
  also have "\<dots> = bs" using nb by (auto simp: fb intro!: filter_True)
  finally show ?thesis .
qed

text \<open>The disk after the first \<open>k\<close> free bits have been taken.\<close>

fun mark_many :: "(nat \<Rightarrow> bytes) \<Rightarrow> bitmap \<Rightarrow> nat list \<Rightarrow> nat \<Rightarrow> bytes" where
  "mark_many v bm [] = v"
| "mark_many v bm (b # bs) = mark_many (mark_bit v bm b) bm bs"

lemma bit_set_mark_many: "bit_set (mark_many v bm bs) bm c \<longleftrightarrow> bit_set v bm c \<or> c \<in> set bs"
  by (induction bs arbitrary: v) auto

lemma mark_many_other:
  "\<forall>b\<in>set bs. b < bitmap_maximum bm \<Longrightarrow> i < start_block_id bm \<or> start_block_id bm + blocks bm \<le> i \<Longrightarrow> mark_many v bm bs i = v i"
  by (induction bs arbitrary: v) (auto simp: mark_bit_def upd_word_other simp del: push_bit_of_1)

context block_dev
begin

lemma alloc_many_ok:
  assumes "st H v s" "card (dom H) < BLOCK_CACHE_SIZE" "bm_ok nblocks H (data_bitmap fs)"
    and "k \<le> length (free_bits v (data_bitmap fs))"
  shows "\<exists>s'. alloc_many bd fs k acc s =
      Some (acc @ map (\<lambda>b. of_nat b + data_area_start_block fs) (take k (free_bits v (data_bitmap fs))), s') \<and>
    st H (mark_many v (data_bitmap fs) (take k (free_bits v (data_bitmap fs)))) s'"
  using assms(1,4)
proof (induction k arbitrary: v acc s)
  case (Suc k)
  then obtain b bs where fb: "free_bits v (data_bitmap fs) = b # bs" by (cases "free_bits v (data_bitmap fs)") auto
  from alloc_data_ok [OF Suc.prems(1) assms(2,3) first_free_hd [OF fb]] obtain s1 where
    s1: "alloc_data bd fs s = Some (of_nat b + data_area_start_block fs, s1)"
      "st H (mark_bit v (data_bitmap fs) b) s1" by blast
  from Suc.IH [OF s1(2), of "acc @ [of_nat b + data_area_start_block fs]"] Suc.prems(2) s1(1)
  show ?case by (auto simp: free_bits_mark [OF fb] fb)
qed simp

end

section \<open>The state of a file on the disk\<close>

text \<open>The geometry every inode of a file system shares, and what makes one inode well-formed.\<close>

definition geometry_ok :: "nat \<Rightarrow> efs \<Rightarrow> inode \<Rightarrow> bool" where
  "geometry_ok N fs ino \<longleftrightarrow>
     ino_block_offset ino + 128 \<le> BLOCK_SZ \<and> 0 < ino_block_id ino \<and>
     ino_block_id ino < start_block_id (data_bitmap fs) \<and>
     start_block_id (data_bitmap fs) + blocks (data_bitmap fs) = unat (data_area_start_block fs) \<and>
     unat (data_area_start_block fs) \<le> N \<and> N \<le> 2 ^ 32"

text \<open>Every block of the inode is a taken block of the data area.\<close>

definition marked :: "efs \<Rightarrow> (nat \<Rightarrow> bytes) \<Rightarrow> disk_inode \<Rightarrow> bool" where
  "marked fs v d \<longleftrightarrow>
     (\<forall>b\<in>set (used_ids v d). unat (data_area_start_block fs) \<le> unat b \<and>
        unat b - unat (data_area_start_block fs) < bitmap_maximum (data_bitmap fs) \<and>
        bit_set v (data_bitmap fs) (unat b - unat (data_area_start_block fs)))"

definition inode_in :: "nat \<Rightarrow> efs \<Rightarrow> inode \<Rightarrow> (nat \<Rightarrow> bytes) \<Rightarrow> disk_inode \<Rightarrow> bool" where
  "inode_in N fs ino v d \<longleftrightarrow>
     geometry_ok N fs ino \<and> wf_inode N {ino_block_id ino} v d \<and> marked fs v d \<and>
     from_mem DiskInode (slice_at (ino_block_offset ino) 128 (v (ino_block_id ino))) = Some d"

text \<open>\<open>k\<close> more blocks can be allocated without running past the end of the disk.\<close>

definition has_room :: "nat \<Rightarrow> efs \<Rightarrow> (nat \<Rightarrow> bytes) \<Rightarrow> nat \<Rightarrow> bool" where
  "has_room N fs v k \<longleftrightarrow>
     k \<le> length (free_bits v (data_bitmap fs)) \<and>
     (\<forall>b\<in>set (take k (free_bits v (data_bitmap fs))). unat (data_area_start_block fs) + b < N)"

text \<open>Blocks an operation on the file may change: those of the file and of the data bitmap.\<close>

definition touched :: "efs \<Rightarrow> (nat \<Rightarrow> bytes) \<Rightarrow> disk_inode \<Rightarrow> nat set" where
  "touched fs v d = unat ` set (used_ids v d) \<union>
     {start_block_id (data_bitmap fs)..<unat (data_area_start_block fs)}"

lemma file_cong:
  assumes wf: "wf_inode N X v d" and same: "\<And>b. b \<in> set (used_ids v d) \<Longrightarrow> v' (unat b) = v (unat b)"
  shows "used_ids v' d = used_ids v d" "file_bytes v' d = file_bytes v d" "wf_inode N X v' d"
proof -
  have m: "v' (unat b) = v (unat b)" if "b \<in> set (meta_ids v d (unat (data_blocks d)))" for b
    by (rule same) (use that in \<open>simp add: used_ids_def\<close>)
  show u: "used_ids v' d = used_ids v d" by (rule used_ids_cong) (rule m)
  with wf show "wf_inode N X v' d" by (simp add: wf_inode_def)
  have "byte_at v' d i = byte_at v d i" if "i < unat (di_size d)" for i
  proof -
    have k: "i div 512 < unat (data_blocks d)" by (rule wf_block_index [OF wf that])
    have "file_block_id v' d (i div 512) = file_block_id v d (i div 512)"
      by (rule block_map_cong(1)) (use m k in auto)
    then show ?thesis using same [OF used_data [OF k]] by (simp add: byte_at_def BLOCK_SZ_def)
  qed
  then show "file_bytes v' d = file_bytes v d" by (simp add: file_bytes_def)
qed

lemma unat_data_id:
  assumes "geometry_ok N fs ino" "unat (data_area_start_block fs) + b < N"
  shows "unat (of_nat b + data_area_start_block fs :: u32) = b + unat (data_area_start_block fs)"
proof -
  have lt: "b + unat (data_area_start_block fs) < 2 ^ 32" using assms by (simp add: geometry_ok_def)
  have "unat (of_nat b :: u32) = b" by (rule unat_of_nat_u32) (use lt in simp)
  then show ?thesis using lt by (subst unat_plus_u32) simp_all
qed

lemma geometry_bm_ok: "geometry_ok N fs ino \<Longrightarrow> bm_ok N [ino_block_id ino \<mapsto> m] (data_bitmap fs)"
  by (auto simp: geometry_ok_def bm_ok_def)

text \<open>The blocks handed out are fresh, distinct and on the disk.\<close>

lemma fresh_blocks:
  assumes geo: "geometry_ok N fs ino" and room: "has_room N fs v k" and mk: "marked fs v d"
    and wf: "wf_inode N {ino_block_id ino} v d"
  defines "bits \<equiv> take k (free_bits v (data_bitmap fs))"
  defines "nbs \<equiv> map (\<lambda>b. of_nat b + data_area_start_block fs) bits"
  shows "length nbs = k" "distinct (used_ids v d @ nbs)" "\<forall>b\<in>set nbs. ok_id N [ino_block_id ino \<mapsto> m] b"
    and "\<forall>b\<in>set nbs. unat (data_area_start_block fs) \<le> unat b \<and> unat b - unat (data_area_start_block fs) \<in> set bits"
    and "\<forall>b\<in>set bits. b < bitmap_maximum (data_bitmap fs) \<and> \<not> bit_set v (data_bitmap fs) b"
proof -
  let ?ds = "data_area_start_block fs"
  have u: "unat (of_nat b + ?ds) = b + unat ?ds" "b + unat ?ds < N" if "b \<in> set bits" for b
    using room that unat_data_id [OF geo, of b] by (auto simp: has_room_def bits_def add.commute)
  show bits: "\<forall>b\<in>set bits. b < bitmap_maximum (data_bitmap fs) \<and> \<not> bit_set v (data_bitmap fs) b"
    by (auto simp: bits_def free_bits_def dest!: in_set_takeD)
  show "length nbs = k" using room by (simp add: nbs_def bits_def has_room_def)
  show u4: "\<forall>b\<in>set nbs. unat ?ds \<le> unat b \<and> unat b - unat ?ds \<in> set bits"
    using u by (auto simp: nbs_def)
  have "distinct bits" by (simp add: bits_def free_bits_def)
  moreover have "inj_on (\<lambda>b. of_nat b + ?ds) (set bits)"
    by (rule inj_onI) (metis u(1) add_right_cancel)
  ultimately have "distinct nbs" by (simp add: nbs_def distinct_map)
  moreover have "set (used_ids v d) \<inter> set nbs = {}"
    using u4 bits mk by (fastforce simp: marked_def)
  ultimately show "distinct (used_ids v d @ nbs)" using wf by (simp add: wf_inode_def)
  show "\<forall>b\<in>set nbs. ok_id N [ino_block_id ino \<mapsto> m] b"
    using u geo by (auto simp: nbs_def ok_id_def geometry_ok_def)
qed

text \<open>
  \<open>k\<close> blocks have been taken from the data area, the first free ones, and the file has got no block that was in use.
\<close>

definition gains :: "efs \<Rightarrow> nat \<Rightarrow> (nat \<Rightarrow> bytes) \<Rightarrow> disk_inode \<Rightarrow> (nat \<Rightarrow> bytes) \<Rightarrow> disk_inode \<Rightarrow> bool" where
  "gains fs k v d v' d' \<longleftrightarrow>
     free_bits v' (data_bitmap fs) = drop k (free_bits v (data_bitmap fs)) \<and>
     (\<forall>b\<in>set (used_ids v' d'). b \<in> set (used_ids v d) \<or> \<not> bit_set v (data_bitmap fs) (unat b - unat (data_area_start_block fs)))"

lemma free_bits_cong:
  "(\<And>c. c < bitmap_maximum bm \<Longrightarrow> bit_set v' bm c = bit_set v bm c) \<Longrightarrow> free_bits v' bm = free_bits v bm"
  by (auto simp: free_bits_def intro!: filter_cong)

lemma free_bits_mark_many: "k \<le> length (free_bits v bm) \<Longrightarrow> free_bits (mark_many v bm (take k (free_bits v bm))) bm = drop k (free_bits v bm)"
proof (induction k arbitrary: v)
  case (Suc k)
  then obtain b bs where fb: "free_bits v bm = b # bs" by (cases "free_bits v bm") auto
  then show ?case using Suc.IH [of "mark_bit v bm b"] Suc.prems by (simp add: free_bits_mark [OF fb])
qed simp

lemma gains_bits:
  assumes "gains fs k v d v' d'" "c < bitmap_maximum (data_bitmap fs)" "bit_set v (data_bitmap fs) c"
  shows "bit_set v' (data_bitmap fs) c"
proof (rule ccontr)
  assume "\<not> bit_set v' (data_bitmap fs) c"
  then have "c \<in> set (free_bits v' (data_bitmap fs))" using assms(2) by (simp add: free_bits_def)
  then have "c \<in> set (free_bits v (data_bitmap fs))" using assms(1) by (auto simp: gains_def dest: in_set_dropD)
  then show False using assms(3) by (simp add: free_bits_def)
qed

lemma gains_cong:
  assumes "gains fs k v d v' d'" "\<And>c. c < bitmap_maximum (data_bitmap fs) \<Longrightarrow> bit_set v'' (data_bitmap fs) c = bit_set v' (data_bitmap fs) c"
    "used_ids v'' d' = used_ids v' d'"
  shows "gains fs k v d v'' d'"
  using assms free_bits_cong [of "data_bitmap fs" v'' v'] by (simp add: gains_def)

lemma gains_room:
  assumes "gains fs k v d v' d'" "has_room N fs v (k + m)"
  shows "has_room N fs v' m"
  using assms by (auto simp: gains_def has_room_def take_drop add.commute dest: in_set_dropD)

text \<open>What growing a file does.\<close>

definition file_grown :: "nat \<Rightarrow> efs \<Rightarrow> inode \<Rightarrow> (nat \<Rightarrow> bytes) \<Rightarrow> disk_inode \<Rightarrow> (nat \<Rightarrow> bytes) \<Rightarrow> disk_inode \<Rightarrow> u32 \<Rightarrow> bool" where
  "file_grown N fs ino v d v' d' sz \<longleftrightarrow>
     wf_inode N {ino_block_id ino} v' d' \<and> marked fs v' d' \<and> di_size d' = sz \<and> di_type d' = di_type d \<and>
     set (used_ids v d) \<subseteq> set (used_ids v' d') \<and>
     take (unat (di_size d)) (file_bytes v' d') = file_bytes v d \<and> same_outside (touched fs v' d') v v' \<and>
     gains fs (blocks_for (unat (data_blocks_of sz)) - blocks_for (unat (data_blocks d))) v d v' d'"

lemma file_grown_refl:
  "wf_inode N {ino_block_id ino} v d \<Longrightarrow> marked fs v d \<Longrightarrow> file_grown N fs ino v d v d (di_size d)"
  by (simp add: file_grown_def gains_def data_blocks_def)

context block_dev
begin

lemma vfs_increase_ok:
  assumes s: "st [ino_block_id ino \<mapsto> m] v s" and geo: "geometry_ok nblocks fs ino"
    and wf: "wf_inode nblocks {ino_block_id ino} v d" and mk: "marked fs v d"
    and sz: "unat new_size \<le> INDIRECT2_BOUND * BLOCK_SZ"
    and room: "has_room nblocks fs v (blocks_for (unat (data_blocks_of new_size)) - blocks_for (unat (data_blocks d)))"
  shows "\<exists>d' s' v'. vfs_increase_size bd fs new_size d s = Some (d', s') \<and> st [ino_block_id ino \<mapsto> m] v' s' \<and>
    file_grown nblocks fs ino v d v' d' (max (di_size d) new_size)"
proof (cases "new_size < di_size d")
  case True
  then have "vfs_increase_size bd fs new_size d s = Some (d, s)" "max (di_size d) new_size = di_size d"
    by (auto simp: vfs_increase_size_def max_def)
  then show ?thesis using s file_grown_refl [OF wf mk] by auto
next
  case False
  then have le: "di_size d \<le> new_size" by simp
  let ?H = "[ino_block_id ino \<mapsto> m]" and ?dbm = "data_bitmap fs" and ?ds = "unat (data_area_start_block fs)"
  define k where "k = blocks_for (unat (data_blocks_of new_size)) - blocks_for (unat (data_blocks d))"
  define bits where "bits = take k (free_bits v ?dbm)"
  define nbs where "nbs = map (\<lambda>b. of_nat b + data_area_start_block fs) bits"
  note fresh = fresh_blocks [OF geo room [folded k_def] mk wf, folded bits_def, folded nbs_def]
  have cards: "card (dom ?H) < BLOCK_CACHE_SIZE" "Suc (card (dom ?H)) < BLOCK_CACHE_SIZE" by (simp_all add: BLOCK_CACHE_SIZE_def)
  have need: "\<exists>w. blocks_num_needed d new_size = Some w \<and> unat w = k"
  proof -
    have d: "unat (di_size d) \<le> 16540 * 512" using wf by (simp add: wf_inode_def BLOCK_SZ_def)
    have n: "unat new_size \<le> 16540 * 512" using sz by (simp add: BLOCK_SZ_def)
    note t = unat_total_blocks [OF d] unat_total_blocks [OF n]
    have "blocks_for (unat (data_blocks_of (di_size d))) \<le> blocks_for (unat (data_blocks_of new_size))"
      by (intro blocks_for_mono data_blocks_mono(1) le n)
    then show ?thesis
      using t le by (simp add: blocks_num_needed_def k_def unat_sub word_le_nat_alt data_blocks_def)
  qed
  have "k \<le> length (free_bits v ?dbm)" using room by (simp add: has_room_def k_def)
  from alloc_many_ok [OF s cards(1) geometry_bm_ok [OF geo] this, of "[]"]
  obtain s1 where s1: "alloc_many bd fs k [] s = Some (nbs, s1)" "st ?H (mark_many v ?dbm bits) s1"
    by (auto simp: nbs_def bits_def)
  define v1 where "v1 = mark_many v ?dbm bits"
  have v1o: "v1 b = v b" if "b < start_block_id ?dbm \<or> ?ds \<le> b" for b
    unfolding v1_def by (rule mark_many_other) (use that fresh(5) geo in \<open>auto simp: geometry_ok_def\<close>)
  have same: "v1 (unat b) = v (unat b)" if "b \<in> set (used_ids v d)" for b
    by (rule v1o) (use mk that in \<open>simp add: marked_def\<close>)
  note cg = file_cong [where v' = v1, OF wf same]
  have pre: "grow_pre nblocks ?H v1 d new_size nbs"
    unfolding grow_pre_def using cg(1,3) le sz fresh geo
    by (auto simp: k_def ok_id_def geometry_ok_def data_blocks_def)
  from increase_size_ok [OF s1(2) [folded v1_def] pre cards(2)] obtain d' s2 v2 where
    r: "DiskInode_increase_size bd d new_size nbs s1 = Some (d', s2)" "st ?H v2 s2" "grown nblocks ?H v1 d new_size nbs v2 d'" by blast
  have g: "di_size d' = new_size" "di_type d' = di_type d" "wf_inode nblocks {ino_block_id ino} v2 d'"
    and ext: "extends v1 d (unat (data_blocks d)) v2 d' (unat (data_blocks d')) (set nbs)"
    using r(3) by (simp_all add: grown_def)
  have n: "unat (data_blocks d) \<le> unat (data_blocks d')"
    unfolding data_blocks_def g(1) by (intro data_blocks_mono(1) le) (use sz in \<open>simp add: BLOCK_SZ_def\<close>)
  have U: "set (used_ids v2 d') = set (used_ids v d) \<union> set nbs"
    using extends_uids [OF ext n] cg(1) by (simp add: used_ids_uids)
  have out: "same_outside (unat ` set (used_ids v2 d')) v1 v2"
    using ext by (auto simp: extends_def used_ids_def same_outside_def)
  have "v2 b = v1 b" if "b < ?ds" for b
  proof -
    have "b \<notin> unat ` set (used_ids v2 d')" using U mk fresh(4) that by (auto simp: marked_def)
    then show ?thesis using out by (simp add: same_outside_def)
  qed
  then have bits2: "bit_set v2 ?dbm c = bit_set v1 ?dbm c" if "c < bitmap_maximum ?dbm" for c
    using that less_mult_imp_div_less [of c "blocks ?dbm" 4096] geo
    by (intro bit_set_cong) (simp add: bitmap_maximum_def geometry_ok_def)
  have mk2: "marked fs v2 d'"
    unfolding marked_def
  proof
    fix b assume "b \<in> set (used_ids v2 d')"
    then consider "b \<in> set (used_ids v d)" | "b \<in> set nbs" using U by blast
    then have "?ds \<le> unat b \<and> unat b - ?ds < bitmap_maximum ?dbm \<and> bit_set v1 ?dbm (unat b - ?ds)"
      using mk fresh(4,5) by cases (auto simp: marked_def v1_def bit_set_mark_many)
    then show "?ds \<le> unat b \<and> unat b - ?ds < bitmap_maximum ?dbm \<and> bit_set v2 ?dbm (unat b - ?ds)"
      using bits2 by auto
  qed
  have pre2: "take (unat (di_size d)) (file_bytes v2 d') = file_bytes v d"
    using grown_file_bytes [of nblocks ?H v1 d new_size nbs v2 d'] cg(2,3) r(3) le by simp
  have "same_outside (touched fs v2 d') v v2"
    using out v1o by (fastforce simp: same_outside_def touched_def)
  moreover have "vfs_increase_size bd fs new_size d s = Some (d', s2)"
    using False need s1(1) r(1) by (auto simp: vfs_increase_size_def)
  moreover have "max (di_size d) new_size = new_size" using le by (simp add: max_def)
  moreover have "gains fs k v d v2 d'"
  proof -
    have "free_bits v2 ?dbm = free_bits v1 ?dbm" by (rule free_bits_cong) (rule bits2)
    also have "\<dots> = drop k (free_bits v ?dbm)" using room by (simp add: v1_def bits_def free_bits_mark_many has_room_def k_def)
    finally show ?thesis using U fresh(4,5) by (auto simp: gains_def)
  qed
  ultimately show ?thesis using r(2) g mk2 pre2 U by (auto simp: file_grown_def k_def)
qed

end

section \<open>Writing and reading a file\<close>

text \<open>The file \<open>new\<close> is \<open>old\<close> with \<open>buf\<close> written at \<open>off\<close>, extended if need be.\<close>

definition overwritten :: "bytes \<Rightarrow> nat \<Rightarrow> bytes \<Rightarrow> bytes \<Rightarrow> bool" where
  "overwritten old off buf new \<longleftrightarrow>
     length new = max (length old) (off + length buf) \<and> slice_at off (length buf) new = buf \<and>
     (\<forall>i<length old. i < off \<or> off + length buf \<le> i \<longrightarrow> new ! i = old ! i)"

text \<open>Growing, then writing: the content, and the inode stored back in its slot.\<close>

lemma overwritten_grown:
  assumes g: "file_grown N fs ino v d v1 d' sz" and w: "file_written N X d' off buf v1 v2"
    and sz: "unat sz = max (unat (di_size d)) (off + length buf)"
  shows "overwritten (file_bytes v d) off buf (file_bytes v2 d')"
proof -
  have fb: "file_bytes v2 d' = splice_at off buf (file_bytes v1 d')" using w by (simp add: file_written_def)
  have l: "length (file_bytes v1 d') = max (unat (di_size d)) (off + length buf)"
    using g sz by (simp add: file_grown_def)
  have pre: "file_bytes v1 d' ! i = file_bytes v d ! i" if "i < unat (di_size d)" for i
    using g that nth_take [of i "unat (di_size d)" "file_bytes v1 d'"] by (simp add: file_grown_def)
  show ?thesis
    unfolding overwritten_def fb using l pre by (auto simp: slice_splice_same nth_splice max_def)
qed

text \<open>The other slots of the block of an inode.\<close>

definition same_slots :: "inode \<Rightarrow> (nat \<Rightarrow> bytes) \<Rightarrow> (nat \<Rightarrow> bytes) \<Rightarrow> bool" where
  "same_slots ino v v' \<longleftrightarrow> (\<forall>off. off + 128 \<le> BLOCK_SZ \<longrightarrow> off + 128 \<le> ino_block_offset ino \<or> ino_block_offset ino + 128 \<le> off \<longrightarrow>
     slice_at off 128 (v' (ino_block_id ino)) = slice_at off 128 (v (ino_block_id ino)))"

lemma stored_same_slots:
  assumes "inode_valid d" "ino_block_offset ino + 128 \<le> BLOCK_SZ" "length (v (ino_block_id ino)) = BLOCK_SZ"
    "v' (ino_block_id ino) = splice_at (ino_block_offset ino) (to_mem DiskInode d) (v (ino_block_id ino))"
  shows "same_slots ino v v'"
proof -
  have "length (to_mem DiskInode d) \<le> 128" using inode_repr.to_mem_fits [OF assms(1)] by simp
  then show ?thesis using assms(2-4) by (auto simp: same_slots_def intro!: slice_outside_store [where m = 128])
qed

lemma stored_inode:
  assumes geo: "geometry_ok N fs ino" and wf: "wf_inode N {ino_block_id ino} v d" and mk: "marked fs v d"
    and len: "length (v (ino_block_id ino)) = BLOCK_SZ"
  defines "v' \<equiv> v(ino_block_id ino := splice_at (ino_block_offset ino) (to_mem DiskInode d) (v (ino_block_id ino)))"
  shows "inode_in N fs ino v' d" "file_bytes v' d = file_bytes v d" "used_ids v' d = used_ids v d"
proof -
  have "v' (unat b) = v (unat b)" if "b \<in> set (used_ids v d)" for b
    using wf that by (auto simp: wf_inode_def v'_def)
  note cg = file_cong [where v' = v', OF wf this]
  have iv: "inode_valid d" using wf by (simp add: wf_inode_def)
  have "from_mem DiskInode (slice_at (ino_block_offset ino) 128 (v' (ino_block_id ino))) = Some d"
    using inode_repr.load_stored_at [OF iv, of "ino_block_offset ino" "v (ino_block_id ino)"] geo len
    by (simp add: v'_def geometry_ok_def)
  moreover have "bit_set v' (data_bitmap fs) c = bit_set v (data_bitmap fs) c" for c
    using geo by (intro bit_set_cong) (simp add: v'_def geometry_ok_def)
  ultimately show "inode_in N fs ino v' d" "file_bytes v' d = file_bytes v d" "used_ids v' d = used_ids v d"
    using cg geo mk by (simp_all add: inode_in_def marked_def)
qed

context block_dev
begin

lemma inode_modify_ok:
  assumes s: "st Map.empty v s" and ino: "inode_in nblocks fs ino v d"
    and f: "\<And>s1. st [ino_block_id ino \<mapsto> True] v s1 \<Longrightarrow> \<exists>d' r s2 v'. f d s1 = Some (d', r, s2) \<and>
      st [ino_block_id ino \<mapsto> True] v' s2 \<and> wf_inode nblocks {ino_block_id ino} v' d' \<and> marked fs v' d' \<and>
      v' (ino_block_id ino) = v (ino_block_id ino) \<and> P d' r v'"
  shows "\<exists>d' r s' v' v''. modify_disk_inode bd ino f s = Some (r, s') \<and> st Map.empty v'' s' \<and>
      inode_in nblocks fs ino v'' d' \<and> file_bytes v'' d' = file_bytes v' d' \<and> used_ids v'' d' = used_ids v' d' \<and>
      v'' = v'(ino_block_id ino := splice_at (ino_block_offset ino) (to_mem DiskInode d') (v' (ino_block_id ino))) \<and> P d' r v'"
proof -
  let ?b = "ino_block_id ino" and ?o = "ino_block_offset ino"
  from ino have geo: "geometry_ok nblocks fs ino"
    and d: "from_mem DiskInode (slice_at ?o (size_of DiskInode) (v ?b)) = Some d"
    by (simp_all add: inode_in_def)
  from geo have b: "?b < nblocks" "?o + size_of DiskInode \<le> BLOCK_SZ" "?o < BLOCK_SZ"
    by (auto simp: geometry_ok_def BLOCK_SZ_def)
  have room: "card (dom (Map.empty :: nat \<rightharpoonup> bool)) < BLOCK_CACHE_SIZE" by (simp add: BLOCK_CACHE_SIZE_def)
  have "\<exists>d' r s' v'. cache_modify bd DiskInode ?b ?o f s = Some (r, s') \<and>
    st Map.empty (v'(?b := splice_at ?o (to_mem DiskInode d') (v' ?b))) s' \<and>
    (wf_inode nblocks {?b} v' d' \<and> marked fs v' d' \<and> v' ?b = v ?b \<and> P d' r v')"
  proof (rule cache_modify_exI [OF s b(1) _ room b(2,3) d])
    fix s1 assume "st [?b \<mapsto> True] v s1"
    from f [OF this] obtain d' r s2 v' where r: "f d s1 = Some (d', r, s2)" "st [?b \<mapsto> True] v' s2"
      "wf_inode nblocks {?b} v' d'" "marked fs v' d'" "v' ?b = v ?b" "P d' r v'" by blast
    have "length (to_mem DiskInode d') \<le> 128"
      using inode_repr.to_mem_fits [of d'] r(3) by (simp add: wf_inode_def)
    with r b(2) show "\<exists>x' r s2 v'. f d s1 = Some (x', r, s2) \<and> st [?b \<mapsto> True] v' s2 \<and>
        ?o + length (to_mem DiskInode x') \<le> BLOCK_SZ \<and>
        (wf_inode nblocks {?b} v' x' \<and> marked fs v' x' \<and> v' ?b = v ?b \<and> P x' r v')"
      by (intro exI [where x = d'] exI [where x = r] exI [where x = s2] exI [where x = v']) simp
  qed simp
  then obtain d' r s' v' where r: "cache_modify bd DiskInode ?b ?o f s = Some (r, s')"
    "st Map.empty (v'(?b := splice_at ?o (to_mem DiskInode d') (v' ?b))) s'"
    "wf_inode nblocks {?b} v' d'" "marked fs v' d'" "v' ?b = v ?b" "P d' r v'" by blast
  have len: "length (v' ?b) = BLOCK_SZ" using st_length [OF s b(1)] r(5) by simp
  note si = stored_inode [OF geo r(3,4) len]
  show ?thesis
    using r(1,2,6) si unfolding modify_disk_inode_def by blast
qed

lemma inode_read_ok:
  assumes s: "st Map.empty v s" and ino: "inode_in nblocks fs ino v d"
    and f: "\<And>s1 m. st [ino_block_id ino \<mapsto> m] v s1 \<Longrightarrow> \<exists>s2. f d s1 = Some (r, s2) \<and> st [ino_block_id ino \<mapsto> m] v s2"
  shows "\<exists>s'. read_disk_inode bd ino f s = Some (r, s') \<and> st Map.empty v s'"
proof -
  from ino have "geometry_ok nblocks fs ino" and d: "from_mem DiskInode (slice_at (ino_block_offset ino) (size_of DiskInode) (v (ino_block_id ino))) = Some d"
    by (simp_all add: inode_in_def)
  then have b: "ino_block_id ino < nblocks" "ino_block_offset ino + size_of DiskInode \<le> BLOCK_SZ" "ino_block_offset ino < BLOCK_SZ"
    by (auto simp: geometry_ok_def BLOCK_SZ_def)
  show ?thesis
    unfolding read_disk_inode_def
    by (rule cache_read_ok [OF s b(1) _ _ b(2,3) d]) (use f in \<open>simp_all add: BLOCK_CACHE_SIZE_def\<close>)
qed

lemma vfs_read_ok:
  assumes s: "st Map.empty v s" and ino: "inode_in nblocks fs ino v d"
  shows "\<exists>s'. vfs_read_at bd ino off buf s =
      (let n = min (off + length buf) (unat (di_size d)) - off
       in Some ((n, splice_at 0 (slice_at off n (file_bytes v d)) buf), s')) \<and> st Map.empty v s'"
proof -
  let ?n = "min (off + length buf) (unat (di_size d)) - off"
  have "\<exists>s'. vfs_read_at bd ino off buf s = Some ((?n, splice_at 0 (slice_at off ?n (file_bytes v d)) buf), s') \<and> st Map.empty v s'"
    unfolding vfs_read_at_def
  proof (rule inode_read_ok [OF s ino])
    fix s1 m assume s1: "st [ino_block_id ino \<mapsto> m] v s1"
    have "wf_inode nblocks (dom [ino_block_id ino \<mapsto> m]) v d" using ino by (simp add: inode_in_def)
    from read_at_ok [OF s1 this, of off buf]
    show "\<exists>s2. do { (n, buf, s) \<leftarrow> DiskInode_read_at bd d off buf s1; Some ((n, buf), s) } =
        Some ((?n, splice_at 0 (slice_at off ?n (file_bytes v d)) buf), s2) \<and> st [ino_block_id ino \<mapsto> m] v s2"
      by (auto simp: BLOCK_CACHE_SIZE_def Let_def)
  qed
  then show ?thesis by (simp add: Let_def)
qed

lemma grow_write_ok:
  assumes s1: "st [ino_block_id ino \<mapsto> True] v s1" and geo: "geometry_ok nblocks fs ino"
    and wf: "wf_inode nblocks {ino_block_id ino} v d" and mk: "marked fs v d"
    and sz: "off + length buf \<le> INDIRECT2_BOUND * BLOCK_SZ"
    and room: "has_room nblocks fs v
      (blocks_for (unat (data_blocks_of (of_nat (off + length buf)))) - blocks_for (unat (data_blocks d)))"
  shows "\<exists>d' s2 s3 v3. vfs_increase_size bd fs (of_nat (off + length buf)) d s1 = Some (d', s2) \<and>
    DiskInode_write_at bd d' off buf s2 = Some (length buf, s3) \<and> st [ino_block_id ino \<mapsto> True] v3 s3 \<and>
    wf_inode nblocks {ino_block_id ino} v3 d' \<and> marked fs v3 d' \<and> v3 (ino_block_id ino) = v (ino_block_id ino) \<and>
    di_type d' = di_type d \<and> overwritten (file_bytes v d) off buf (file_bytes v3 d') \<and> same_outside (touched fs v3 d') v v3 \<and>
    gains fs (blocks_for (unat (data_blocks_of (max (di_size d) (of_nat (off + length buf))))) - blocks_for (unat (data_blocks d))) v d v3 d'"
proof -
  let ?b = "ino_block_id ino" and ?new = "of_nat (off + length buf) :: u32"
  have u: "unat ?new = off + length buf" by (rule unat_of_nat_u32) (use sz in \<open>simp add: BLOCK_SZ_def\<close>)
  from vfs_increase_ok [OF s1 geo wf mk _ room] u sz obtain d' s2 v2 where
    g: "vfs_increase_size bd fs ?new d s1 = Some (d', s2)" "st [?b \<mapsto> True] v2 s2"
      "file_grown nblocks fs ino v d v2 d' (max (di_size d) ?new)" by auto
  then have gs: "di_size d' = max (di_size d) ?new" "wf_inode nblocks {?b} v2 d'" "marked fs v2 d'"
      "di_type d' = di_type d" "same_outside (touched fs v2 d') v v2"
      "gains fs (blocks_for (unat (data_blocks_of (max (di_size d) ?new))) - blocks_for (unat (data_blocks d))) v d v2 d'"
    by (simp_all add: file_grown_def)
  have umax: "unat (max (di_size d) ?new) = max (unat (di_size d)) (off + length buf)"
    using u by (simp add: max_def word_le_nat_alt)
  have c1: "card (dom [?b \<mapsto> True]) < BLOCK_CACHE_SIZE" by (simp add: BLOCK_CACHE_SIZE_def)
  have wfH: "wf_inode nblocks (dom [?b \<mapsto> True]) v2 d'" using gs(2) by simp
  have "min (off + length buf) (unat (di_size d')) - off = length buf" using gs(1) umax by simp
  with write_at_ok [OF g(2) wfH c1, of off buf] obtain s3 v3 where
    w: "DiskInode_write_at bd d' off buf s2 = Some (length buf, s3)" "st [?b \<mapsto> True] v3 s3"
      "file_written nblocks {?b} d' off buf v2 v3" by auto
  have used: "used_ids v3 d' = used_ids v2 d'" and wf3: "wf_inode nblocks {?b} v3 d'"
    and out3: "same_outside (unat ` set (used_ids v2 d')) v2 v3"
    using w(3) by (auto simp: file_written_def same_outside_def used_ids_def)
  have tch: "touched fs v3 d' = touched fs v2 d'" using used by (simp add: touched_def)
  have lowb: "v3 b = v2 b" if "b < unat (data_area_start_block fs)" for b
  proof -
    have "b \<notin> unat ` set (used_ids v2 d')" using gs(3) that by (auto simp: marked_def)
    then show ?thesis using out3 by (simp add: same_outside_def)
  qed
  have bits3: "bit_set v3 (data_bitmap fs) c = bit_set v2 (data_bitmap fs) c" if "c < bitmap_maximum (data_bitmap fs)" for c
    using that less_mult_imp_div_less [of c "blocks (data_bitmap fs)" 4096] geo
    by (intro bit_set_cong lowb) (simp add: bitmap_maximum_def geometry_ok_def)
  then have mk3: "marked fs v3 d'" using gs(3) used by (auto simp: marked_def)
  have "?b \<notin> touched fs v2 d'" using gs(2) geo by (auto simp: touched_def wf_inode_def geometry_ok_def)
  moreover have out: "same_outside (touched fs v3 d') v v3"
    unfolding tch by (rule same_outside_trans [OF gs(5) out3]) (auto simp: touched_def)
  ultimately have "v3 ?b = v ?b" unfolding tch by (simp add: same_outside_def)
  moreover have "overwritten (file_bytes v d) off buf (file_bytes v3 d')"
    by (rule overwritten_grown [OF g(3) w(3) umax])
  ultimately show ?thesis using g(1) w(1,2) wf3 mk3 out gs(4) gains_cong [OF gs(6) bits3 used] by blast
qed

lemma vfs_write_ok:
  fixes off :: nat and buf :: bytes
  assumes s: "st Map.empty v s" and ino: "inode_in nblocks fs ino v d"
    and sz: "off + length buf \<le> INDIRECT2_BOUND * BLOCK_SZ"
    and room: "has_room nblocks fs v
      (blocks_for (unat (data_blocks_of (of_nat (off + length buf)))) - blocks_for (unat (data_blocks d)))"
  shows "\<exists>s' v' d'. vfs_write_at bd fs ino off buf s = Some (length buf, s') \<and> st Map.empty v' s' \<and>
    contents (device s') = v' \<and> inode_in nblocks fs ino v' d' \<and> di_type d' = di_type d \<and>
    overwritten (file_bytes v d) off buf (file_bytes v' d') \<and>
    same_outside (insert (ino_block_id ino) (touched fs v' d')) v v' \<and>
    gains fs (blocks_for (unat (data_blocks_of (max (di_size d) (of_nat (off + length buf))))) - blocks_for (unat (data_blocks d))) v d v' d' \<and>
    same_slots ino v v'"
proof -
  let ?b = "ino_block_id ino" and ?new = "of_nat (off + length buf) :: u32"
  from ino have geo: "geometry_ok nblocks fs ino" and wf: "wf_inode nblocks {?b} v d" and mk: "marked fs v d"
    by (simp_all add: inode_in_def)
  let ?g = "gains fs (blocks_for (unat (data_blocks_of (max (di_size d) ?new))) - blocks_for (unat (data_blocks d))) v d"
  let ?f = "\<lambda>d s. do { (d, s) \<leftarrow> vfs_increase_size bd fs ?new d s;
                        (n, s) \<leftarrow> DiskInode_write_at bd d off buf s;
                        Some (d, n, s) }"
  have "\<exists>d' r s' v' v''. modify_disk_inode bd ino ?f s = Some (r, s') \<and> st Map.empty v'' s' \<and>
      inode_in nblocks fs ino v'' d' \<and> file_bytes v'' d' = file_bytes v' d' \<and> used_ids v'' d' = used_ids v' d' \<and>
      v'' = v'(?b := splice_at (ino_block_offset ino) (to_mem DiskInode d') (v' ?b)) \<and> (r = length buf \<and> di_type d' = di_type d \<and>
        overwritten (file_bytes v d) off buf (file_bytes v' d') \<and> same_outside (touched fs v' d') v v' \<and> ?g v' d' \<and> v' ?b = v ?b)"
  proof (rule inode_modify_ok [OF s ino])
    fix s1 assume s1: "st [?b \<mapsto> True] v s1"
    from grow_write_ok [OF s1 geo wf mk sz room] obtain d' s2 s3 v3 where
      "vfs_increase_size bd fs ?new d s1 = Some (d', s2)" "DiskInode_write_at bd d' off buf s2 = Some (length buf, s3)"
      "st [?b \<mapsto> True] v3 s3" "wf_inode nblocks {?b} v3 d'" "marked fs v3 d'" "v3 ?b = v ?b" "di_type d' = di_type d"
      "overwritten (file_bytes v d) off buf (file_bytes v3 d')" "same_outside (touched fs v3 d') v v3" "?g v3 d'" by blast
    then show "\<exists>d' r s2 v'. ?f d s1 = Some (d', r, s2) \<and> st [?b \<mapsto> True] v' s2 \<and>
        wf_inode nblocks {?b} v' d' \<and> marked fs v' d' \<and> v' ?b = v ?b \<and>
        (r = length buf \<and> di_type d' = di_type d \<and> overwritten (file_bytes v d) off buf (file_bytes v' d') \<and>
         same_outside (touched fs v' d') v v' \<and> ?g v' d' \<and> v' ?b = v ?b)"
      by (intro exI [where x = d'] exI [where x = "length buf"] exI [where x = s3] exI [where x = v3]) simp
  qed
  then obtain d' s1 v' v'' where r: "modify_disk_inode bd ino ?f s = Some (length buf, s1)" "st Map.empty v'' s1"
      "inode_in nblocks fs ino v'' d'" "file_bytes v'' d' = file_bytes v' d'" "used_ids v'' d' = used_ids v' d'"
      "v'' = v'(?b := splice_at (ino_block_offset ino) (to_mem DiskInode d') (v' ?b))" "di_type d' = di_type d"
      "overwritten (file_bytes v d) off buf (file_bytes v' d')" "same_outside (touched fs v' d') v v'" "?g v' d'" "v' ?b = v ?b" by blast
  have st1: "same_outside {?b} v' v''" unfolding r(6) by (rule same_outside_upd) simp
  from sync_all_ok [OF r(2)] obtain s2 where
    s2: "block_cache_sync_all bd s1 = Some s2" "st Map.empty v'' s2" "contents (device s2) = v''" by blast
  have "touched fs v'' d' = touched fs v' d'" using r(5) by (simp add: touched_def)
  then have "same_outside (insert ?b (touched fs v'' d')) v v''"
    using same_outside_trans [OF r(9) st1, of "insert ?b (touched fs v'' d')"] by auto
  moreover have "vfs_write_at bd fs ino off buf s = Some (length buf, s2)"
    using r(1) s2(1) by (simp add: vfs_write_at_def)
  moreover have "bit_set v'' (data_bitmap fs) c = bit_set v' (data_bitmap fs) c" for c
    using geo by (intro bit_set_cong) (simp add: r(6) geometry_ok_def)
  then have "?g v'' d'" by (intro gains_cong [OF r(10) _ r(5)])
  moreover have "same_slots ino v v''"
    by (rule stored_same_slots [of d']) (use r(3,6,11) geo st_length [OF s, of ?b] in \<open>simp_all add: geometry_ok_def inode_in_def wf_inode_def\<close>)
  ultimately show ?thesis using s2 r by auto
qed

end

section \<open>Directories\<close>

definition dir_entry_at :: "(nat \<Rightarrow> bytes) \<Rightarrow> disk_inode \<Rightarrow> nat \<Rightarrow> dir_entry" where
  "dir_entry_at v d i = of_bytes_mut (slice_at (32 * i) 32 (file_bytes v d))"

definition dir_entries :: "(nat \<Rightarrow> bytes) \<Rightarrow> disk_inode \<Rightarrow> dir_entry list" where
  "dir_entries v d = map (dir_entry_at v d) [0..<unat (di_size d) div 32]"

text \<open>A directory all of whose names can be read, and the lookup of a name in it.\<close>

definition names_ok :: "dir_entry list \<Rightarrow> bool" where
  "names_ok es \<longleftrightarrow> (\<forall>e\<in>set es. name e \<noteq> None)"

fun lookup_name :: "bytes \<Rightarrow> dir_entry list \<Rightarrow> u32 option" where
  "lookup_name nm [] = None"
| "lookup_name nm (e # es) = (if name e = Some nm then Some (inode_number e) else lookup_name nm es)"

lemma length_as_bytes: "length (de_name e) = 28 \<Longrightarrow> length (as_bytes e) = 32"
  by (simp add: as_bytes_def)

lemma length_of_bytes: "length bs = 32 \<Longrightarrow> length (de_name (of_bytes_mut bs)) = 28"
  by (simp add: of_bytes_mut_def)

context block_dev
begin

lemma read_dirent_ok:
  assumes s: "st H v s" and wf: "wf_inode nblocks (dom H) v d" and card: "card (dom H) < BLOCK_CACHE_SIZE"
    and i: "i < unat (di_size d) div 32" and e: "length (de_name e) = 28"
  shows "\<exists>s'. read_dirent bd d i e s = Some (dir_entry_at v d i, s') \<and> st H v s' \<and>
    length (de_name (dir_entry_at v d i)) = 28"
proof -
  have le: "32 * i + 32 \<le> unat (di_size d)"
    using i by (metis Suc_leI add.commute less_eq_div_iff_mult_less_eq mult.commute mult_Suc_right zero_less_numeral)
  then have n: "min (32 * i + length (as_bytes e)) (unat (di_size d)) - 32 * i = 32"
    using length_as_bytes [OF e] by simp
  from read_at_ok [OF s wf card, of "32 * i" "as_bytes e"] obtain s' where
    "DiskInode_read_at bd d (32 * i) (as_bytes e) s = Some (32, slice_at (32 * i) 32 (file_bytes v d), s')" "st H v s'"
    unfolding n Let_def using le length_as_bytes [OF e] by auto
  then show ?thesis
    using le by (auto simp: read_dirent_def dir_entry_at_def intro!: length_of_bytes)
qed

lemma find_loop_ok:
  assumes "st H v s" and wf: "wf_inode nblocks (dom H) v d" and card: "card (dom H) < BLOCK_CACHE_SIZE"
    and "\<forall>i\<in>set is. i < unat (di_size d) div 32" "names_ok (map (dir_entry_at v d) is)" "length (de_name e) = 28"
  shows "\<exists>s'. find_loop bd d nm is e s = Some (lookup_name nm (map (dir_entry_at v d) is), s') \<and> st H v s'"
  using assms(1,4-)
proof (induction "is" arbitrary: s e)
  case (Cons i "is")
  from read_dirent_ok [OF Cons.prems(1) wf card _ Cons.prems(4), of i] Cons.prems(2) obtain s1 where
    s1: "read_dirent bd d i e s = Some (dir_entry_at v d i, s1)" "st H v s1" "length (de_name (dir_entry_at v d i)) = 28" by auto
  from Cons.prems(3) obtain n where n: "name (dir_entry_at v d i) = Some n" by (auto simp: names_ok_def)
  show ?case
    using Cons.IH [OF s1(2) _ _ s1(3)] Cons.prems(2,3) s1 n by (auto simp: names_ok_def)
qed simp

lemma ls_loop_ok:
  assumes "st H v s" and wf: "wf_inode nblocks (dom H) v d" and card: "card (dom H) < BLOCK_CACHE_SIZE"
    and "\<forall>i\<in>set is. i < unat (di_size d) div 32" "names_ok (map (dir_entry_at v d) is)" "length (de_name e) = 28"
  shows "\<exists>s'. ls_loop bd d is e acc s = Some (acc @ map (\<lambda>i. the (name (dir_entry_at v d i))) is, s') \<and> st H v s'"
  using assms(1,4-)
proof (induction "is" arbitrary: s e acc)
  case (Cons i "is")
  from read_dirent_ok [OF Cons.prems(1) wf card _ Cons.prems(4), of i] Cons.prems(2) obtain s1 where
    s1: "read_dirent bd d i e s = Some (dir_entry_at v d i, s1)" "st H v s1" "length (de_name (dir_entry_at v d i)) = 28" by auto
  from Cons.prems(3) obtain n where n: "name (dir_entry_at v d i) = Some n" by (auto simp: names_ok_def)
  show ?case
    using Cons.IH [OF s1(2) _ _ s1(3), of "acc @ [n]"] Cons.prems(2,3) s1 n by (auto simp: names_ok_def)
qed simp

lemma find_inode_id_ok:
  assumes "st H v s" "wf_inode nblocks (dom H) v d" "card (dom H) < BLOCK_CACHE_SIZE" "is_dir d" "names_ok (dir_entries v d)"
  shows "\<exists>s'. find_inode_id bd nm d s = Some (lookup_name nm (dir_entries v d), s') \<and> st H v s'"
  using find_loop_ok [OF assms(1-3), of "[0..<unat (di_size d) div 32]" DirEntry_empty nm] assms(4,5)
  by (simp add: find_inode_id_def dir_entries_def DirEntry_empty_def)

lemma vfs_find_ok:
  assumes s: "st Map.empty v s" and ino: "inode_in nblocks fs ino v d" and d: "is_dir d" "names_ok (dir_entries v d)"
  shows "\<exists>s'. vfs_find bd fs ino nm s =
      Some (map_option (\<lambda>i. case get_disk_inode_pos fs i of (bid, off) \<Rightarrow> Inode_new bid off) (lookup_name nm (dir_entries v d)), s') \<and>
    st Map.empty v s'"
  unfolding vfs_find_def
proof (rule inode_read_ok [OF s ino])
  fix s1 m assume s1: "st [ino_block_id ino \<mapsto> m] v s1"
  have "wf_inode nblocks (dom [ino_block_id ino \<mapsto> m]) v d" using ino by (simp add: inode_in_def)
  from find_inode_id_ok [OF s1 this _ d, of nm]
  show "\<exists>s2. do { (r, s) \<leftarrow> find_inode_id bd nm d s1;
      Some (map_option (\<lambda>i. case get_disk_inode_pos fs i of (bid, off) \<Rightarrow> Inode_new bid off) r, s) } =
      Some (map_option (\<lambda>i. case get_disk_inode_pos fs i of (bid, off) \<Rightarrow> Inode_new bid off) (lookup_name nm (dir_entries v d)), s2) \<and>
      st [ino_block_id ino \<mapsto> m] v s2"
    by (auto simp: BLOCK_CACHE_SIZE_def)
qed

lemma vfs_ls_ok:
  assumes s: "st Map.empty v s" and ino: "inode_in nblocks fs ino v d" and d: "names_ok (dir_entries v d)"
  shows "\<exists>s'. vfs_ls bd ino s = Some (map (\<lambda>e. the (name e)) (dir_entries v d), s') \<and> st Map.empty v s'"
  unfolding vfs_ls_def
proof (rule inode_read_ok [OF s ino])
  fix s1 m assume s1: "st [ino_block_id ino \<mapsto> m] v s1"
  have "wf_inode nblocks (dom [ino_block_id ino \<mapsto> m]) v d" using ino by (simp add: inode_in_def)
  from ls_loop_ok [OF s1 this, of "[0..<unat (di_size d) div 32]" DirEntry_empty "[]"] d
  show "\<exists>s2. ls_loop bd d [0..<unat (di_size d) div DIRENT_SZ] DirEntry_empty [] s1 =
      Some (map (\<lambda>e. the (name e)) (dir_entries v d), s2) \<and> st [ino_block_id ino \<mapsto> m] v s2"
    by (simp add: BLOCK_CACHE_SIZE_def dir_entries_def DirEntry_empty_def comp_def)
qed

end

end
