(* ===== verification/VfsDir.thy ===== *)
theory VfsDir
  imports Vfs
begin

text \<open>
  Creating a file in a directory and clearing a file, and the properties of
  \<^verbatim>\<open>easy-fs/src/vfs.rs\<close> as a whole.
\<close>

section \<open>Creating a file\<close>

text \<open>The slot of the new inode, and what makes a directory ready for one more entry.\<close>

definition new_slot :: "efs \<Rightarrow> (nat \<Rightarrow> bytes) \<Rightarrow> nat \<Rightarrow> inode \<Rightarrow> bool" where
  "new_slot fs v i slot \<longleftrightarrow>
     first_free v (inode_bitmap fs) = Some i \<and>
     (case get_disk_inode_pos fs (of_nat i) of (bid, off) \<Rightarrow> Inode_new bid off) = slot"

text \<open>An inode has been taken and its slot initialised, and nothing else has changed outside the inode bitmap.\<close>

definition slot_made :: "efs \<Rightarrow> (nat \<Rightarrow> bytes) \<Rightarrow> nat \<Rightarrow> inode \<Rightarrow> (nat \<Rightarrow> bytes) \<Rightarrow> bool" where
  "slot_made fs v i slot v' \<longleftrightarrow>
     (\<forall>b. b < start_block_id (inode_bitmap fs) \<or> start_block_id (inode_bitmap fs) + blocks (inode_bitmap fs) \<le> b \<longrightarrow>
        b \<noteq> ino_block_id slot \<longrightarrow> v' b = v b) \<and>
     same_slots slot v v' \<and>
     (\<forall>c<bitmap_maximum (inode_bitmap fs). bit_set v' (inode_bitmap fs) c \<longleftrightarrow> bit_set v (inode_bitmap fs) c \<or> c = i)"

definition create_pre :: "nat \<Rightarrow> efs \<Rightarrow> inode \<Rightarrow> (nat \<Rightarrow> bytes) \<Rightarrow> disk_inode \<Rightarrow> nat \<Rightarrow> inode \<Rightarrow> bool" where
  "create_pre N fs ino v d i slot \<longleftrightarrow>
     inode_in N fs ino v d \<and> is_dir d \<and> names_ok (dir_entries v d) \<and>
     unat (di_size d) mod 32 = 0 \<and> unat (di_size d) + 32 \<le> INDIRECT2_BOUND * BLOCK_SZ \<and>
     bm_ok N Map.empty (inode_bitmap fs) \<and> new_slot fs v i slot \<and> geometry_ok N fs slot \<and>
     start_block_id (inode_bitmap fs) + blocks (inode_bitmap fs) \<le> ino_block_id ino \<and>
     start_block_id (inode_bitmap fs) + blocks (inode_bitmap fs) \<le> ino_block_id slot \<and>
     (ino_block_id slot \<noteq> ino_block_id ino \<or> ino_block_offset slot + 128 \<le> ino_block_offset ino \<or>
        ino_block_offset ino + 128 \<le> ino_block_offset slot) \<and>
     from_mem DiskInode (slice_at (ino_block_offset slot) 128 (v (ino_block_id slot))) \<noteq> None \<and>
     has_room N fs v (blocks_for (unat (data_blocks_of (of_nat (unat (di_size d) + 32)))) - blocks_for (unat (data_blocks d)))"

lemma dir_entries_append:
  assumes ow: "overwritten (file_bytes v d) (unat (di_size d)) (as_bytes e) (file_bytes v' d')"
    and sz: "unat (di_size d) mod 32 = 0" and e: "length (de_name e) = 28"
  shows "dir_entries v' d' = dir_entries v d @ [e]" "unat (di_size d') = unat (di_size d) + 32"
proof -
  obtain k where k: "unat (di_size d) = 32 * k" using sz by (metis mult_div_mod_eq add.right_neutral)
  have l: "length (as_bytes e) = 32" by (rule length_as_bytes [OF e])
  have len: "length (file_bytes v' d') = 32 * k + 32" using ow k l by (simp add: overwritten_def)
  then show "unat (di_size d') = unat (di_size d) + 32" using k by simp
  have old: "slice_at (32 * i) 32 (file_bytes v' d') = slice_at (32 * i) 32 (file_bytes v d)" if "i < k" for i
  proof (rule nth_equalityI)
    have le: "32 * i + 32 \<le> 32 * k" using that by simp
    show "length (slice_at (32 * i) 32 (file_bytes v' d')) = length (slice_at (32 * i) 32 (file_bytes v d))"
      using le len k by simp
    fix j assume "j < length (slice_at (32 * i) 32 (file_bytes v' d'))"
    then have j: "j < 32" using le len by simp
    then have "file_bytes v' d' ! (32 * i + j) = file_bytes v d ! (32 * i + j)"
      using ow le k by (simp add: overwritten_def)
    then show "slice_at (32 * i) 32 (file_bytes v' d') ! j = slice_at (32 * i) 32 (file_bytes v d) ! j"
      using j le len k by (simp add: nth_slice)
  qed
  have new: "slice_at (32 * k) 32 (file_bytes v' d') = as_bytes e" using ow k l by (simp add: overwritten_def)
  have "dir_entry_at v' d' k = e" using new of_bytes_as_bytes [OF e] by (simp add: dir_entry_at_def)
  moreover have "dir_entry_at v' d' i = dir_entry_at v d i" if "i < k" for i
    using old [OF that] by (simp add: dir_entry_at_def)
  moreover have "unat (di_size d') div 32 = Suc k" using len by simp
  ultimately show "dir_entries v' d' = dir_entries v d @ [e]" using k by (simp add: dir_entries_def)
qed

lemma inode_in_cong:
  assumes ino: "inode_in N fs ino v d"
    and same: "\<And>b. start_block_id (data_bitmap fs) \<le> b \<Longrightarrow> v' b = v b"
    and slot: "slice_at (ino_block_offset ino) 128 (v' (ino_block_id ino)) =
      slice_at (ino_block_offset ino) 128 (v (ino_block_id ino))"
  shows "inode_in N fs ino v' d" "file_bytes v' d = file_bytes v d" "used_ids v' d = used_ids v d"
proof -
  from ino have geo: "geometry_ok N fs ino" and wf: "wf_inode N {ino_block_id ino} v d" and mk: "marked fs v d"
    by (simp_all add: inode_in_def)
  have "v' (unat b) = v (unat b)" if "b \<in> set (used_ids v d)" for b
    by (rule same) (use mk geo that in \<open>auto simp: marked_def geometry_ok_def\<close>)
  note cg = file_cong [where v' = v', OF wf this]
  have "bit_set v' (data_bitmap fs) c = bit_set v (data_bitmap fs) c" for c
    by (intro bit_set_cong same) simp
  then show "inode_in N fs ino v' d" "file_bytes v' d = file_bytes v d" "used_ids v' d = used_ids v d"
    using cg ino slot by (simp_all add: inode_in_def marked_def)
qed

lemma has_room_cong:
  assumes "\<And>b. start_block_id (data_bitmap fs) \<le> b \<Longrightarrow> v' b = v b"
  shows "has_room N fs v' k = has_room N fs v k"
proof -
  have "bit_set v' (data_bitmap fs) c = bit_set v (data_bitmap fs) c" for c
    by (intro bit_set_cong assms) simp
  then show ?thesis by (simp add: has_room_def free_bits_def)
qed

lemma lookup_append:
  "lookup_name nm (es @ [e]) = (case lookup_name nm es of Some i \<Rightarrow> Some i
     | None \<Rightarrow> if name e = Some nm then Some (inode_number e) else None)"
  by (induction es) auto

context block_dev
begin

lemma create_lookup_ok:
  assumes s: "st Map.empty v s" and ino: "inode_in nblocks fs ino v d" "is_dir d" "names_ok (dir_entries v d)"
  shows "\<exists>s'. read_disk_inode bd ino (\<lambda>root s. do { assert_that (is_dir root); find_inode_id bd nm root s }) s =
      Some (lookup_name nm (dir_entries v d), s') \<and> st Map.empty v s'"
proof (rule inode_read_ok [OF s ino(1)])
  fix s1 m assume s1: "st [ino_block_id ino \<mapsto> m] v s1"
  have "wf_inode nblocks (dom [ino_block_id ino \<mapsto> m]) v d" using ino by (simp add: inode_in_def)
  from find_inode_id_ok [OF s1 this _ ino(2,3), of nm]
  show "\<exists>s2. do { assert_that (is_dir d); find_inode_id bd nm d s1 } =
      Some (lookup_name nm (dir_entries v d), s2) \<and> st [ino_block_id ino \<mapsto> m] v s2"
    using ino(2) by (simp add: BLOCK_CACHE_SIZE_def)
qed

lemma vfs_create_exists:
  assumes "st Map.empty v s" "inode_in nblocks fs ino v d" "is_dir d" "names_ok (dir_entries v d)"
    and "lookup_name nm (dir_entries v d) \<noteq> None"
  shows "\<exists>s'. vfs_create bd fs ino nm s = Some (None, s') \<and> st Map.empty v s'"
  using create_lookup_ok [OF assms(1-4), of nm] assms(5) by (auto simp: vfs_create_def)

text \<open>Taking the inode and initialising its slot.\<close>

lemma create_slot_ok:
  assumes s: "st Map.empty v s" and pre: "create_pre nblocks fs ino v d i slot"
  shows "\<exists>s1 s2 v2. alloc_inode bd fs s = Some (of_nat i, s1) \<and>
    cache_modify bd DiskInode (ino_block_id slot) (ino_block_offset slot)
      (\<lambda>d s. Some (DiskInode_initialize File d, (), s)) s1 = Some ((), s2) \<and> st Map.empty v2 s2 \<and>
    inode_in nblocks fs ino v2 d \<and> file_bytes v2 d = file_bytes v d \<and> used_ids v2 d = used_ids v d \<and>
    (\<forall>b\<ge>start_block_id (data_bitmap fs). v2 b = v b) \<and> bit_set v2 (inode_bitmap fs) i \<and> slot_made fs v i slot v2 \<and>
    (\<exists>f. from_mem DiskInode (slice_at (ino_block_offset slot) 128 (v2 (ino_block_id slot))) = Some f \<and>
      is_file f \<and> di_size f = 0 \<and> indirect2 f = 0)"
proof -
  let ?ibm = "inode_bitmap fs" and ?n = "ino_block_id slot" and ?o = "ino_block_offset slot"
  have room: "card (dom (Map.empty :: nat \<rightharpoonup> bool)) < BLOCK_CACHE_SIZE" by (simp add: BLOCK_CACHE_SIZE_def)
  from pre have bm: "bm_ok nblocks Map.empty ?ibm" and ff: "first_free v ?ibm = Some i" and geo: "geometry_ok nblocks fs slot"
    and ino: "inode_in nblocks fs ino v d" and lim: "start_block_id ?ibm + blocks ?ibm \<le> ino_block_id ino"
      "start_block_id ?ibm + blocks ?ibm \<le> ?n"
    and dis: "?n \<noteq> ino_block_id ino \<or> ?o + 128 \<le> ino_block_offset ino \<or> ino_block_offset ino + 128 \<le> ?o"
    by (simp_all add: create_pre_def new_slot_def)
  from pre obtain d0 where d0: "from_mem DiskInode (slice_at ?o 128 (v ?n)) = Some d0" by (auto simp: create_pre_def)
  from alloc_inode_ok [OF s room bm ff] obtain s1 where
    s1: "alloc_inode bd fs s = Some (of_nat i, s1)" "st Map.empty (mark_bit v ?ibm i) s1" by blast
  have im: "i < bitmap_maximum ?ibm" using first_free_cases [where v = v and bm = ?ibm] ff by simp
  define v1 where "v1 = mark_bit v ?ibm i"
  have v1s: "v1 b = v b" if "b < start_block_id ?ibm \<or> start_block_id ?ibm + blocks ?ibm \<le> b" for b
    unfolding v1_def mark_bit_def by (rule upd_word_other [OF im that])
  then have v1o: "v1 b = v b" if "start_block_id ?ibm + blocks ?ibm \<le> b" for b using that by blast
  have n: "?n < nblocks" "?n \<notin> dom Map.empty" "?o + 128 \<le> BLOCK_SZ" "?n < start_block_id (data_bitmap fs)"
    using geo by (auto simp: geometry_ok_def)
  have len: "length (v ?n) = BLOCK_SZ" "length (v (ino_block_id ino)) = BLOCK_SZ"
    using st_length [OF s n(1)] st_length [OF s, of "ino_block_id ino"] ino by (auto simp: inode_in_def geometry_ok_def)
  define f where "f = DiskInode_initialize File d0"
  have "length (slice_at ?o 128 (v ?n)) = size_of DiskInode" using n(3) len by simp
  from inode_repr.from_mem_valid [OF d0 this] have fv: "inode_valid f"
    by (simp add: f_def inode_valid_def DiskInode_initialize_def)
  have fl: "length (to_mem DiskInode f) \<le> 128" using inode_repr.to_mem_fits [OF fv] by simp
  define v2 where "v2 = v1(?n := splice_at ?o (to_mem DiskInode f) (v1 ?n))"
  have "\<exists>s2. cache_modify bd DiskInode ?n ?o (\<lambda>d s. Some (DiskInode_initialize File d, (), s)) s1 = Some ((), s2) \<and> st Map.empty v2 s2"
    unfolding v2_def
    by (rule cache_modify_ok [OF s1(2) [folded v1_def] n(1,2) room, where x = d0])
      (use n(3) d0 fl v1o [OF lim(2)] in \<open>auto simp: f_def BLOCK_SZ_def\<close>)
  then obtain s2 where s2: "cache_modify bd DiskInode ?n ?o (\<lambda>d s. Some (DiskInode_initialize File d, (), s)) s1 = Some ((), s2)"
    "st Map.empty v2 s2" by blast
  have high: "v2 b = v b" if "start_block_id (data_bitmap fs) \<le> b" for b
    using that n(4) lim(2) v1o [of b] by (simp add: v2_def)
  have slot: "slice_at (ino_block_offset ino) 128 (v2 (ino_block_id ino)) = slice_at (ino_block_offset ino) 128 (v (ino_block_id ino))"
  proof (cases "?n = ino_block_id ino")
    case True
    have "ino_block_offset ino + 128 \<le> BLOCK_SZ" using ino by (simp add: inode_in_def geometry_ok_def)
    then show ?thesis
      using True dis fl len v1o [OF lim(1)] n(3)
      by (auto simp: v2_def intro!: slice_outside_store [where m = 128])
  next
    case False
    then show ?thesis using v1o [OF lim(1)] by (simp add: v2_def)
  qed
  note cg = inode_in_cong [OF ino high slot]
  have "from_mem DiskInode (slice_at ?o 128 (v2 ?n)) = Some f"
    using inode_repr.load_stored_at [OF fv, of ?o "v ?n"] n(3) len v1o [OF lim(2)] by (simp add: v2_def)
  moreover have "is_file f" "di_size f = 0" "indirect2 f = 0" by (simp_all add: f_def DiskInode_initialize_def is_file_def)
  moreover have bits: "bit_set v2 ?ibm c \<longleftrightarrow> bit_set v ?ibm c \<or> c = i" if "c < bitmap_maximum ?ibm" for c
  proof -
    have "c div 4096 < blocks ?ibm" using that by (simp add: bitmap_maximum_def less_mult_imp_div_less)
    then have "bit_set v2 ?ibm c = bit_set v1 ?ibm c" using lim(2) by (intro bit_set_cong) (simp add: v2_def)
    then show ?thesis by (simp add: v1_def)
  qed
  moreover have "same_slots slot v v2"
    by (rule stored_same_slots [OF fv n(3)]) (simp_all add: v2_def v1o [OF lim(2)] len(1))
  ultimately have "slot_made fs v i slot v2" using v1s by (simp add: slot_made_def v2_def)
  with s1(1) s2 cg high bits [OF im] show ?thesis
    using \<open>from_mem DiskInode (slice_at ?o 128 (v2 ?n)) = Some f\<close> \<open>is_file f\<close> \<open>di_size f = 0\<close> \<open>indirect2 f = 0\<close> by blast
qed

lemma vfs_create_ok:
  assumes s: "st Map.empty v s" and pre: "create_pre nblocks fs ino v d i slot"
    and none: "lookup_name nm (dir_entries v d) = None"
    and nm: "0 \<notin> set nm" "from_utf8_ok nm" "length nm \<le> NAME_LENGTH_LIMIT"
  shows "\<exists>s' v' d' e. vfs_create bd fs ino nm s = Some (Some slot, s') \<and> st Map.empty v' s' \<and>
    contents (device s') = v' \<and> inode_in nblocks fs ino v' d' \<and> is_dir d' \<and> unat (di_size d') = unat (di_size d) + 32 \<and>
    dir_entries v' d' = dir_entries v d @ [e] \<and> name e = Some nm \<and> inode_number e = of_nat i \<and>
    bit_set v' (inode_bitmap fs) i \<and>
    (\<exists>f. from_mem DiskInode (slice_at (ino_block_offset slot) 128 (v' (ino_block_id slot))) = Some f \<and>
      is_file f \<and> di_size f = 0 \<and> indirect2 f = 0) \<and>
    (\<exists>v2. slot_made fs v i slot v2 \<and> used_ids v2 d = used_ids v d \<and> same_outside (insert (ino_block_id ino) (touched fs v' d')) v2 v' \<and>
      gains fs (blocks_for (unat (data_blocks_of (of_nat (unat (di_size d) + 32)))) - blocks_for (unat (data_blocks d))) v2 d v' d' \<and>
      same_slots ino v2 v')"
proof -
  let ?b = "ino_block_id ino" and ?k = "unat (di_size d) div 32"
  from pre have ino: "inode_in nblocks fs ino v d" and dir: "is_dir d" "names_ok (dir_entries v d)"
    and sz: "unat (di_size d) mod 32 = 0" "unat (di_size d) + 32 \<le> INDIRECT2_BOUND * BLOCK_SZ"
    and room: "has_room nblocks fs v (blocks_for (unat (data_blocks_of (of_nat (unat (di_size d) + 32)))) - blocks_for (unat (data_blocks d)))"
    and sl: "get_disk_inode_pos fs (of_nat i) = (bid, off) \<Longrightarrow> Inode_new bid off = slot" for bid off
    by (simp_all add: create_pre_def new_slot_def)
  obtain bid off where pos: "get_disk_inode_pos fs (of_nat i) = (bid, off)" by fastforce
  have slot: "unat bid = ino_block_id slot" "off = ino_block_offset slot" "Inode_new bid off = slot"
    using sl [OF pos] by (auto simp: Inode_new_def)
  have k: "?k * 32 = unat (di_size d)" "(?k + 1) * 32 = unat (di_size d) + 32" using sz(1) by auto
  from create_lookup_ok [OF s ino dir, of nm] none obtain s0 where
    s0: "read_disk_inode bd ino (\<lambda>root s. do { assert_that (is_dir root); find_inode_id bd nm root s }) s = Some (None, s0)"
      "st Map.empty v s0" by auto
  from create_slot_ok [OF s0(2) pre] obtain s1 s2 v2 f where
    a: "alloc_inode bd fs s0 = Some (of_nat i, s1)"
      "cache_modify bd DiskInode (ino_block_id slot) (ino_block_offset slot)
        (\<lambda>d s. Some (DiskInode_initialize File d, (), s)) s1 = Some ((), s2)" "st Map.empty v2 s2"
      "inode_in nblocks fs ino v2 d" "file_bytes v2 d = file_bytes v d" "\<And>b. start_block_id (data_bitmap fs) \<le> b \<Longrightarrow> v2 b = v b"
      "bit_set v2 (inode_bitmap fs) i"
      "from_mem DiskInode (slice_at (ino_block_offset slot) 128 (v2 (ino_block_id slot))) = Some f" "is_file f" "di_size f = 0" "indirect2 f = 0"
      "slot_made fs v i slot v2" "used_ids v2 d = used_ids v d"
    by blast
  obtain e where e: "DirEntry_new nm (of_nat i) = Some e" "length (as_bytes e) = 32" "name e = Some nm" "inode_number e = of_nat i"
    using dir_entry_new_ok [OF nm] by auto
  then have el: "length (de_name e) = 28" by (simp add: as_bytes_def)
  have room2: "has_room nblocks fs v2 (blocks_for (unat (data_blocks_of (of_nat (unat (di_size d) + length (as_bytes e))))) - blocks_for (unat (data_blocks d)))"
    using room a(6) by (simp add: has_room_cong [of fs v2 v] e(2))
  from a(4) have geo: "geometry_ok nblocks fs ino" and wf: "wf_inode nblocks {?b} v2 d" and mk: "marked fs v2 d"
    by (simp_all add: inode_in_def)
  let ?g = "gains fs (blocks_for (unat (data_blocks_of (of_nat (unat (di_size d) + 32)))) - blocks_for (unat (data_blocks d))) v2 d"
  have "unat (of_nat (unat (di_size d) + 32) :: u32) = unat (di_size d) + 32" by (rule unat_of_nat_u32) (use sz(2) in \<open>simp add: BLOCK_SZ_def\<close>)
  then have mx: "max (di_size d) (of_nat (unat (di_size d) + 32)) = of_nat (unat (di_size d) + 32)" by (simp add: max_def word_le_nat_alt)
  let ?f = "\<lambda>root s. do { let file_count = unat (di_size root) div DIRENT_SZ;
                           let new_size = (file_count + 1) * DIRENT_SZ;
                           (root, s) \<leftarrow> vfs_increase_size bd fs (of_nat new_size) root s;
                           dirent \<leftarrow> DirEntry_new nm (of_nat i);
                           (_, s) \<leftarrow> DiskInode_write_at bd root (file_count * DIRENT_SZ) (as_bytes dirent) s;
                           Some (root, (), s) }"
  have "\<exists>d' r s' v' v''. modify_disk_inode bd ino ?f s2 = Some (r, s') \<and> st Map.empty v'' s' \<and>
      inode_in nblocks fs ino v'' d' \<and> file_bytes v'' d' = file_bytes v' d' \<and> used_ids v'' d' = used_ids v' d' \<and>
      v'' = v'(?b := splice_at (ino_block_offset ino) (to_mem DiskInode d') (v' ?b)) \<and> (r = () \<and> di_type d' = di_type d \<and>
        overwritten (file_bytes v2 d) (unat (di_size d)) (as_bytes e) (file_bytes v' d') \<and> same_outside (touched fs v' d') v2 v' \<and> marked fs v' d' \<and> ?g v' d' \<and> v' ?b = v2 ?b)"
  proof (rule inode_modify_ok [OF a(3,4)])
    fix s3 assume s3: "st [?b \<mapsto> True] v2 s3"
    from grow_write_ok [OF s3 geo wf mk _ room2] sz(2) e(2) obtain d' s4 s5 v3 where
      "vfs_increase_size bd fs (of_nat (unat (di_size d) + 32)) d s3 = Some (d', s4)"
      "DiskInode_write_at bd d' (unat (di_size d)) (as_bytes e) s4 = Some (32, s5)"
      "st [?b \<mapsto> True] v3 s5" "wf_inode nblocks {?b} v3 d'" "marked fs v3 d'" "v3 ?b = v2 ?b" "di_type d' = di_type d"
      "overwritten (file_bytes v2 d) (unat (di_size d)) (as_bytes e) (file_bytes v3 d')" "same_outside (touched fs v3 d') v2 v3" "?g v3 d'"
      by (auto simp: mx simp del: of_nat_add)
    then show "\<exists>d' r s4 v'. ?f d s3 = Some (d', r, s4) \<and> st [?b \<mapsto> True] v' s4 \<and>
        wf_inode nblocks {?b} v' d' \<and> marked fs v' d' \<and> v' ?b = v2 ?b \<and>
        (r = () \<and> di_type d' = di_type d \<and> overwritten (file_bytes v2 d) (unat (di_size d)) (as_bytes e) (file_bytes v' d') \<and>
         same_outside (touched fs v' d') v2 v' \<and> marked fs v' d' \<and> ?g v' d' \<and> v' ?b = v2 ?b)"
      by (intro exI [where x = d'] exI [where x = "()"] exI [where x = s5] exI [where x = v3])
        (simp add: Let_def k e(1) del: of_nat_add of_nat_mult add_mult_distrib mult_Suc One_nat_def)
  qed
  then obtain d' s3 v' v'' where r: "modify_disk_inode bd ino ?f s2 = Some ((), s3)" "st Map.empty v'' s3"
      "inode_in nblocks fs ino v'' d'" "file_bytes v'' d' = file_bytes v' d'" "used_ids v'' d' = used_ids v' d'"
      "v'' = v'(?b := splice_at (ino_block_offset ino) (to_mem DiskInode d') (v' ?b))" "di_type d' = di_type d"
      "overwritten (file_bytes v2 d) (unat (di_size d)) (as_bytes e) (file_bytes v' d')" "same_outside (touched fs v' d') v2 v'"
      "marked fs v' d'" "?g v' d'" "v' ?b = v2 ?b" by blast
  from sync_all_ok [OF r(2)] obtain s4 where
    s4: "block_cache_sync_all bd s3 = Some s4" "st Map.empty v'' s4" "contents (device s4) = v''" by blast
  have run: "vfs_create bd fs ino nm s = Some (Some slot, s4)"
    using s0(1) a(1,2) r(1) s4(1) slot(3) by (simp add: vfs_create_def pos slot(1) slot(2) [symmetric] Let_def)
  have "overwritten (file_bytes v d) (unat (di_size d)) (as_bytes e) (file_bytes v'' d')" using r(4,8) a(5) by simp
  note ent = dir_entries_append [OF this sz(1) el]
  have low: "v' b = v2 b" if "b < start_block_id (data_bitmap fs)" for b
  proof -
    have "b \<notin> touched fs v' d'" using that r(10) geo by (auto simp: touched_def marked_def geometry_ok_def)
    then show ?thesis using r(9) by (simp add: same_outside_def)
  qed
  from pre have geo2: "geometry_ok nblocks fs slot" and lim: "start_block_id (inode_bitmap fs) + blocks (inode_bitmap fs) \<le> ?b"
    and dis: "ino_block_id slot \<noteq> ?b \<or> ino_block_offset slot + 128 \<le> ino_block_offset ino \<or>
        ino_block_offset ino + 128 \<le> ino_block_offset slot"
    and im: "i < bitmap_maximum (inode_bitmap fs)"
    using first_free_cases [where v = v and bm = "inode_bitmap fs"] by (auto simp: create_pre_def new_slot_def)
  have b: "?b < start_block_id (data_bitmap fs)" "ino_block_offset ino + 128 \<le> BLOCK_SZ"
    "ino_block_id slot < start_block_id (data_bitmap fs)" "ino_block_offset slot + 128 \<le> BLOCK_SZ" "?b < nblocks"
    using geo geo2 by (auto simp: geometry_ok_def)
  have len: "length (v2 ?b) = BLOCK_SZ" by (rule st_length [OF a(3) b(5)])
  have fl: "length (to_mem DiskInode d') \<le> 128"
    using inode_repr.to_mem_fits [of d'] r(3) by (simp add: inode_in_def wf_inode_def)
  have "slice_at (ino_block_offset slot) 128 (v'' (ino_block_id slot)) = slice_at (ino_block_offset slot) 128 (v2 (ino_block_id slot))"
    using dis fl len b low [OF b(1)] low [OF b(3)]
    by (auto simp: r(6) intro!: slice_outside_store [where m = 128])
  moreover have "bit_set v'' (inode_bitmap fs) i"
  proof -
    have "i div 4096 < blocks (inode_bitmap fs)" using im by (simp add: bitmap_maximum_def less_mult_imp_div_less)
    then have "bit_set v'' (inode_bitmap fs) i = bit_set v2 (inode_bitmap fs) i"
      using lim b(1) low by (intro bit_set_cong) (simp add: r(6))
    then show ?thesis using a(7) by simp
  qed
  moreover have "is_dir d'" using dir(1) r(7) by (simp add: is_dir_def)
  moreover have "same_outside (insert ?b (touched fs v'' d')) v2 v''"
    using r(5,9) by (auto simp: r(6) same_outside_def touched_def)
  moreover have "bit_set v'' (data_bitmap fs) c = bit_set v' (data_bitmap fs) c" for c
    using b(1) by (intro bit_set_cong) (simp add: r(6))
  then have "?g v'' d'" by (intro gains_cong [OF r(11) _ r(5)])
  moreover have "same_slots ino v2 v''"
    by (rule stored_same_slots [of d']) (use r(3,6,12) b(2) len in \<open>simp_all add: inode_in_def wf_inode_def\<close>)
  ultimately show ?thesis using run s4(2,3) r(3) ent e(3,4) a(8-13) by auto
qed

end

section \<open>Clearing a file\<close>

text \<open>The blocks \<open>bs\<close> have been given back: zeroed, their bits cleared, nothing else changed.\<close>

definition released :: "efs \<Rightarrow> u32 list \<Rightarrow> (nat \<Rightarrow> bytes) \<Rightarrow> (nat \<Rightarrow> bytes) \<Rightarrow> bool" where
  "released fs bs v v' \<longleftrightarrow>
     (\<forall>b\<in>set bs. v' (unat b) = zero_block) \<and>
     (\<forall>c<bitmap_maximum (data_bitmap fs). bit_set v' (data_bitmap fs) c \<longleftrightarrow>
        bit_set v (data_bitmap fs) c \<and> (\<forall>b\<in>set bs. c \<noteq> unat b - unat (data_area_start_block fs))) \<and>
     same_outside (unat ` set bs \<union> {start_block_id (data_bitmap fs)..<unat (data_area_start_block fs)}) v v'"

lemma released_Cons:
  assumes geo: "geometry_ok N fs ino"
    and b: "unat (data_area_start_block fs) \<le> unat b" "unat b - unat (data_area_start_block fs) < bitmap_maximum (data_bitmap fs)"
      "bit_set v (data_bitmap fs) (unat b - unat (data_area_start_block fs))"
    and bs: "\<forall>c\<in>set bs. unat (data_area_start_block fs) \<le> unat c" "b \<notin> set bs"
    and rest: "released fs bs (unmark_bit (v(unat b := zero_block)) (data_bitmap fs) (unat b - unat (data_area_start_block fs))) v'"
  shows "released fs (b # bs) v v'"
proof -
  let ?ds = "unat (data_area_start_block fs)" and ?bm = "data_bitmap fs"
  let ?v0 = "v(unat b := zero_block)" let ?v1 = "unmark_bit ?v0 ?bm (unat b - ?ds)"
  have ds: "?ds = start_block_id ?bm + blocks ?bm" using geo by (simp add: geometry_ok_def)
  have low: "bit_set ?v0 ?bm c = bit_set v ?bm c" if "c < bitmap_maximum ?bm" for c
    using that less_mult_imp_div_less [of c "blocks ?bm" 4096] b(1) ds
    by (intro bit_set_cong) (auto simp: bitmap_maximum_def)
  have bits: "bit_set ?v1 ?bm c \<longleftrightarrow> bit_set v ?bm c \<and> c \<noteq> unat b - ?ds" if "c < bitmap_maximum ?bm" for c
    using bit_set_unmark_bit [of ?v0 ?bm "unat b - ?ds" c] low [OF b(2)] low [OF that] b(3) by simp
  have out1: "?v1 i = ?v0 i" if "i < start_block_id ?bm \<or> ?ds \<le> i" for i
    unfolding unmark_bit_def by (rule upd_word_other [OF b(2)]) (use that ds in auto)
  have "unat b \<notin> unat ` set bs" using bs(2) by (auto simp flip: word_unat_eq_iff)
  moreover have "unat b \<notin> {start_block_id ?bm..<?ds}" using b(1) by simp
  ultimately have "v' (unat b) = ?v1 (unat b)" using rest by (simp add: released_def same_outside_def)
  then have zb: "v' (unat b) = zero_block" using out1 [of "unat b"] b(1) by simp
  have o1: "same_outside (insert (unat b) {start_block_id ?bm..<?ds}) v ?v1"
    using out1 by (auto simp: same_outside_def)
  have o2: "same_outside (unat ` set bs \<union> {start_block_id ?bm..<?ds}) ?v1 v'"
    using rest unfolding released_def by blast
  have "same_outside (unat ` set (b # bs) \<union> {start_block_id ?bm..<?ds}) v v'"
    by (rule same_outside_trans [OF o1 o2]) auto
  moreover have "bit_set v' ?bm c \<longleftrightarrow> bit_set v ?bm c \<and> (\<forall>a\<in>set (b # bs). c \<noteq> unat a - ?ds)" if "c < bitmap_maximum ?bm" for c
  proof -
    from rest that have "bit_set v' ?bm c \<longleftrightarrow> bit_set ?v1 ?bm c \<and> (\<forall>a\<in>set bs. c \<noteq> unat a - ?ds)"
      unfolding released_def by blast
    then show ?thesis unfolding bits [OF that] by auto
  qed
  moreover have "\<forall>b\<in>set bs. v' (unat b) = zero_block" using rest unfolding released_def by blast
  ultimately show ?thesis unfolding released_def using zb by simp
qed

context block_dev
begin

lemma dealloc_data_ok:
  assumes s: "st H v s" and card: "card (dom H) < BLOCK_CACHE_SIZE" and bm: "bm_ok nblocks H (data_bitmap fs)"
    and geo: "start_block_id (data_bitmap fs) + blocks (data_bitmap fs) = unat (data_area_start_block fs)"
    and ok: "ok_id nblocks H b"
    and b: "unat (data_area_start_block fs) \<le> unat b" "unat b - unat (data_area_start_block fs) < bitmap_maximum (data_bitmap fs)"
      "bit_set v (data_bitmap fs) (unat b - unat (data_area_start_block fs))"
  shows "\<exists>s'. dealloc_data bd fs b s = Some ((), s') \<and>
    st H (unmark_bit (v(unat b := zero_block)) (data_bitmap fs) (unat b - unat (data_area_start_block fs))) s'"
proof -
  from clear_block_ok [OF s, of "unat b"] ok card obtain s1 where
    s1: "clear_block bd (unat b) s = Some ((), s1)" "st H (v(unat b := zero_block)) s1" by (auto simp: ok_id_def)
  have u: "unat (b - data_area_start_block fs) = unat b - unat (data_area_start_block fs)"
    using b(1) by (simp add: unat_sub word_le_nat_alt)
  have "bit_set (v(unat b := zero_block)) (data_bitmap fs) (unat b - unat (data_area_start_block fs))"
    using b less_mult_imp_div_less [of "unat b - unat (data_area_start_block fs)" "blocks (data_bitmap fs)" 4096] geo
    by (subst bit_set_cong [of _ _ _ v]) (auto simp: bitmap_maximum_def)
  from bitmap_dealloc_ok [OF s1(2) card b(2) this] bm s1(1) show ?thesis
    by (simp add: dealloc_data_def u bm_ok_def)
qed

lemma dealloc_many_ok:
  assumes "st [ino_block_id ino \<mapsto> m] v s" and geo: "geometry_ok nblocks fs ino" and "distinct bs"
    and "\<forall>b\<in>set bs. ok_id nblocks [ino_block_id ino \<mapsto> m] b \<and> unat (data_area_start_block fs) \<le> unat b \<and>
      unat b - unat (data_area_start_block fs) < bitmap_maximum (data_bitmap fs) \<and>
      bit_set v (data_bitmap fs) (unat b - unat (data_area_start_block fs))"
  shows "\<exists>s' v'. dealloc_many bd fs bs s = Some ((), s') \<and> st [ino_block_id ino \<mapsto> m] v' s' \<and> released fs bs v v'"
  using assms(1,3,4)
proof (induction bs arbitrary: v s)
  case Nil
  then show ?case by (auto simp: released_def)
next
  case (Cons b bs)
  let ?ds = "unat (data_area_start_block fs)" and ?bm = "data_bitmap fs"
  let ?v1 = "unmark_bit (v(unat b := zero_block)) ?bm (unat b - ?ds)"
  have geo': "start_block_id ?bm + blocks ?bm = ?ds" using geo by (simp add: geometry_ok_def)
  have "\<exists>s1. dealloc_data bd fs b s = Some ((), s1) \<and> st [ino_block_id ino \<mapsto> m] ?v1 s1"
    by (rule dealloc_data_ok [OF Cons.prems(1) _ geometry_bm_ok [OF geo] geo'])
      (use Cons.prems(3) in \<open>simp_all add: BLOCK_CACHE_SIZE_def del: fun_upd_apply\<close>)
  then obtain s1 where s1: "dealloc_data bd fs b s = Some ((), s1)" "st [ino_block_id ino \<mapsto> m] ?v1 s1" by blast
  have bits: "bit_set ?v1 ?bm (unat c - ?ds)" if c: "c \<in> set bs" for c
  proof -
    have cb: "unat c - ?ds \<noteq> unat b - ?ds" 
    proof
      assume "unat c - ?ds = unat b - ?ds"
      moreover have "?ds \<le> unat c" "?ds \<le> unat b" using Cons.prems(3) c by auto
      ultimately have "unat c = unat b" by linarith
      then have "c = b" by (simp add: word_unat_eq_iff)
      then show False using Cons.prems(2) c by simp
    qed
    have low: "bit_set (v(unat b := zero_block)) ?bm k = bit_set v ?bm k" if "k < bitmap_maximum ?bm" for k
      using that less_mult_imp_div_less [of k "blocks ?bm" 4096] Cons.prems(3) geo'
      by (intro bit_set_cong) (auto simp: bitmap_maximum_def)
    have "bit_set (v(unat b := zero_block)) ?bm (unat b - ?ds)" "bit_set (v(unat b := zero_block)) ?bm (unat c - ?ds)"
      using Cons.prems(3) c low by auto
    with cb show ?thesis by (simp add: bit_set_unmark_bit)
  qed
  have "\<exists>s2 v'. dealloc_many bd fs bs s1 = Some ((), s2) \<and> st [ino_block_id ino \<mapsto> m] v' s2 \<and> released fs bs ?v1 v'"
    by (rule Cons.IH [OF s1(2)]) (use Cons.prems(2,3) bits in \<open>simp_all del: fun_upd_apply\<close>)
  then obtain s2 v' where
    s2: "dealloc_many bd fs bs s1 = Some ((), s2)" "st [ino_block_id ino \<mapsto> m] v' s2" "released fs bs ?v1 v'" by blast
  have "released fs (b # bs) v v'"
    by (rule released_Cons [OF geo _ _ _ _ _ s2(3)]) (use Cons.prems(2,3) in auto)
  moreover have "dealloc_many bd fs (b # bs) s = Some ((), s2)" using s1(1) s2(1) by simp
  ultimately show ?case using s2(2) by blast
qed

lemma vfs_clear_ok:
  assumes s: "st Map.empty v s" and ino: "inode_in nblocks fs ino v d"
  shows "\<exists>s' v' d'. vfs_clear bd fs ino s = Some ((), s') \<and> st Map.empty v' s' \<and> contents (device s') = v' \<and>
    inode_in nblocks fs ino v' d' \<and> di_type d' = di_type d \<and> file_bytes v' d' = [] \<and> used_ids v' d' = [] \<and>
    (\<exists>w. released fs (used_ids v d) v w \<and> same_outside {ino_block_id ino} w v')"
proof -
  let ?b = "ino_block_id ino"
  from ino have geo: "geometry_ok nblocks fs ino" and wf: "wf_inode nblocks {?b} v d" and mk: "marked fs v d"
    by (simp_all add: inode_in_def)
  let ?d = "DiskInode_initialize (di_type d) d"
  let ?f = "\<lambda>d s. do { let sz = di_size d;
                        (bs, d, s) \<leftarrow> clear_size bd d s;
                        assert_that (length bs = unat (total_blocks sz));
                        (_, s) \<leftarrow> dealloc_many bd fs bs s;
                        Some (d, (), s) }"
  have e: "used_ids w ?d = []" "file_bytes w ?d = []" "di_type ?d = di_type d" for w
    by (simp_all add: used_ids_def data_ids_def meta_ids_def data_blocks_def data_blocks_of_def file_bytes_def
        DiskInode_initialize_def BLOCK_SZ_def)
  have "\<exists>d' r s' v' v''. modify_disk_inode bd ino ?f s = Some (r, s') \<and> st Map.empty v'' s' \<and>
      inode_in nblocks fs ino v'' d' \<and> file_bytes v'' d' = file_bytes v' d' \<and> used_ids v'' d' = used_ids v' d' \<and>
      v'' = v'(?b := splice_at (ino_block_offset ino) (to_mem DiskInode d') (v' ?b)) \<and>
      (r = () \<and> d' = ?d \<and> released fs (used_ids v d) v v')"
  proof (rule inode_modify_ok [OF s ino])
    fix s1 assume s1: "st [?b \<mapsto> True] v s1"
    have wfH: "wf_inode nblocks (dom [?b \<mapsto> True]) v d" using wf by simp
    from clear_size_ok [OF s1 wfH] obtain s2 bs where
      c: "clear_size bd d s1 = Some (bs, ?d, s2)" "st [?b \<mapsto> True] v s2" "mset bs = mset (used_ids v d)"
      by (auto simp: BLOCK_CACHE_SIZE_def)
    have set: "set bs = set (used_ids v d)" by (rule mset_eq_setD [OF c(3)])
    have dist: "distinct bs" using wf mset_eq_imp_distinct_iff [OF c(3)] by (simp add: wf_inode_def)
    have "unat (di_size d) \<le> 16540 * 512" using wf by (simp add: wf_inode_def BLOCK_SZ_def)
    then have len: "length bs = unat (total_blocks (di_size d))"
      using mset_eq_length [OF c(3)] by (simp add: unat_total_blocks used_ids_uids length_uids data_blocks_def)
    have "\<exists>s' v'. dealloc_many bd fs bs s2 = Some ((), s') \<and> st [?b \<mapsto> True] v' s' \<and> released fs bs v v'"
      by (rule dealloc_many_ok [OF c(2) geo dist])
        (use mk wf in \<open>auto simp: set marked_def ok_id_def wf_inode_def\<close>)
    then obtain s3 v3 where d3: "dealloc_many bd fs bs s2 = Some ((), s3)" "st [?b \<mapsto> True] v3 s3" "released fs bs v v3" by blast
    then have rel: "released fs (used_ids v d) v v3" by (simp add: released_def set)
    have "?b \<notin> unat ` set (used_ids v d) \<union> {start_block_id (data_bitmap fs)..<unat (data_area_start_block fs)}"
      using wf geo by (auto simp: wf_inode_def geometry_ok_def)
    then have "v3 ?b = v ?b" using rel by (simp add: released_def same_outside_def)
    moreover have "wf_inode nblocks {?b} v3 ?d"
      using wf e by (simp add: wf_inode_def inode_valid_def DiskInode_initialize_def)
    moreover have "marked fs v3 ?d" using e by (simp add: marked_def)
    ultimately show "\<exists>d' r s2 v'. ?f d s1 = Some (d', r, s2) \<and> st [?b \<mapsto> True] v' s2 \<and>
        wf_inode nblocks {?b} v' d' \<and> marked fs v' d' \<and> v' ?b = v ?b \<and> (r = () \<and> d' = ?d \<and> released fs (used_ids v d) v v')"
      using c(1) d3(1,2) len rel
      by (intro exI [where x = ?d] exI [where x = "()"] exI [where x = s3] exI [where x = v3]) simp
  qed
  then obtain s1 v' v'' where r: "modify_disk_inode bd ino ?f s = Some ((), s1)" "st Map.empty v'' s1"
      "inode_in nblocks fs ino v'' ?d" "v'' = v'(?b := splice_at (ino_block_offset ino) (to_mem DiskInode ?d) (v' ?b))"
      "released fs (used_ids v d) v v'" by blast
  from sync_all_ok [OF r(2)] obtain s2 where
    s2: "block_cache_sync_all bd s1 = Some s2" "st Map.empty v'' s2" "contents (device s2) = v''" by blast
  have "same_outside {?b} v' v''" unfolding r(4) by (rule same_outside_upd) simp
  moreover have "vfs_clear bd fs ino s = Some ((), s2)" using r(1) s2(1) by (simp add: vfs_clear_def)
  ultimately show ?thesis using s2(2,3) r(3,5) e by blast
qed

end

end
