(* ===== verification/VfsProps.thy ===== *)
theory VfsProps
  imports VfsDir
begin

text \<open>
  The properties of inodes on a disk image: a write can be read back after a restart, a created
  file is found and listed, a cleared file gives its blocks back. The concrete instances run the
  operations on a disk that \<open>EasyFileSystem::create\<close> has just formatted.
\<close>

section \<open>A freshly formatted disk\<close>

lemma formatted_root:
  assumes fit: "layout_fits tb ib" and fmt: "formatted tb ib v" and n: "unat tb \<le> n" "n \<le> 2 ^ 32"
    and len: "length (v (1 + unat ib)) = BLOCK_SZ"
  shows "\<exists>d. inode_in n (fresh_fs tb ib) (root_inode (fresh_fs tb ib)) v d \<and> is_dir d \<and> di_size d = 0 \<and>
    dir_entries v d = [] \<and> file_bytes v d = [] \<and> data_blocks d = 0"
proof -
  let ?fs = "fresh_fs tb ib" let ?r = "root_inode ?fs"
  note lay = fresh_fs_layout [OF fit]
  from fit have f: "0 < unat ib" by (simp add: layout_fits_def)
  obtain ia it db da where eq: "area_sizes tb ib = (ia, it, db, da)" by (metis prod_cases4)
  from fmt obtain d where d: "from_mem DiskInode (slice_at 0 128 (v (1 + unat ib))) = Some d" "is_dir d" "di_size d = 0" "indirect2 d = 0"
    unfolding formatted_def eq Let_def prod.case by blast
  have r: "ino_block_id ?r = 1 + unat ib" "ino_block_offset ?r = 0"
    using lay(3) by (simp_all add: root_inode_def get_disk_inode_pos_def Inode_new_def Let_def)
  have "length (slice_at 0 128 (v (1 + unat ib))) = size_of DiskInode" using len by (simp add: BLOCK_SZ_def)
  note iv = inode_repr.from_mem_valid [OF d(1) this]
  have z: "data_blocks d = 0" using d(3) by (simp add: data_blocks_def data_blocks_of_def BLOCK_SZ_def)
  have u: "used_ids v d = []" using z by (simp add: used_ids_def data_ids_def meta_ids_def)
  have "geometry_ok n ?fs ?r" using r lay f n by (simp add: geometry_ok_def BLOCK_SZ_def)
  then have "inode_in n ?fs ?r v d" using d iv u r by (simp add: inode_in_def wf_inode_def marked_def)
  then show ?thesis using d z by (intro exI [where x = d]) (simp add: dir_entries_def file_bytes_def)
qed

lemma formatted_free_bits:
  assumes "formatted tb ib v"
  shows "free_bits v (data_bitmap (fresh_fs tb ib)) = [0..<bitmap_maximum (data_bitmap (fresh_fs tb ib))]"
proof -
  obtain ia it db da where eq: "area_sizes tb ib = (ia, it, db, da)" by (metis prod_cases4)
  from assms have "\<forall>b<bitmap_maximum (data_bitmap (fresh_fs tb ib)). \<not> bit_set v (data_bitmap (fresh_fs tb ib)) b"
    unfolding formatted_def eq Let_def prod.case by blast
  then show ?thesis by (simp add: free_bits_def)
qed

lemma formatted_room:
  assumes fit: "layout_fits tb ib" and fmt: "formatted tb ib v" and k: "unat (data_area_start_block (fresh_fs tb ib)) + k \<le> unat tb"
    and n: "unat tb \<le> n" "k \<le> bitmap_maximum (data_bitmap (fresh_fs tb ib))"
  shows "has_room n (fresh_fs tb ib) v k"
  unfolding has_room_def formatted_free_bits [OF fmt] using k n by (auto simp: take_upt)

text \<open>Formatting an image of 1100 blocks leaves a state the operations below start from.\<close>

lemma sample_disk:
  "\<exists>s v d. efs_create BlockFile 1100 1 (BlockCacheManager_new (replicate (1100 * BLOCK_SZ) 5)) = Some (fresh_fs 1100 1, s) \<and>
    cache_state file_block (\<lambda>f. length f = 1100 * BLOCK_SZ) 1100 Map.empty v s \<and> formatted 1100 1 v \<and>
    inode_in 1100 (fresh_fs 1100 1) (root_inode (fresh_fs 1100 1)) v d \<and> is_dir d \<and> di_size d = 0 \<and>
    dir_entries v d = [] \<and> file_bytes v d = [] \<and> data_blocks d = 0 \<and> has_room 1100 (fresh_fs 1100 1) v 1"
proof -
  have fit: "layout_fits 1100 1" by (simp add: layout_fits_def)
  have "cache_state file_block (\<lambda>f. length f = 1100 * BLOCK_SZ) 1100 Map.empty (file_block (replicate (1100 * BLOCK_SZ) 5))
      (BlockCacheManager_new (replicate (1100 * BLOCK_SZ) 5))" by (rule bf.new_ok) simp
  from bf.create_ok [OF this fit] obtain s v where
    c: "efs_create BlockFile 1100 1 (BlockCacheManager_new (replicate (1100 * BLOCK_SZ) 5)) = Some (fresh_fs 1100 1, s)"
      "cache_state file_block (\<lambda>f. length f = 1100 * BLOCK_SZ) 1100 Map.empty v s" "formatted 1100 1 v" by auto
  have "length (v (1 + unat (1 :: u32))) = BLOCK_SZ" by (rule bf.st_length [OF c(2)]) simp
  from formatted_root [OF fit c(3) _ _ this, of 1100] obtain d where
    d: "inode_in 1100 (fresh_fs 1100 1) (root_inode (fresh_fs 1100 1)) v d" "is_dir d" "di_size d = 0"
      "dir_entries v d = []" "file_bytes v d = []" "data_blocks d = 0" by auto
  have "has_room 1100 (fresh_fs 1100 1) v 1"
    by (rule formatted_room [OF fit c(3)]) (use fresh_fs_layout(5,6) [OF fit] in \<open>simp_all add: bitmap_maximum_def\<close>)
  with c d show ?thesis by blast
qed

section \<open>Properties\<close>

text \<open>
  C15. A write through \<open>Inode::write_at\<close> is durable and can be read back. For an inode of the file
  system, any offset and any buffer within the size limit, as long as the data area has room for
  the blocks needed: \<open>write_at\<close> returns the length of the buffer; the device then holds the file
  with the buffer written at the offset, every other byte it had before, and no block outside the
  file, the data bitmap and the inode's own block has changed; and \<open>read_at\<close> of the same range,
  through a cache that starts empty on the device, returns exactly the buffer.
\<close>

theorem vfs_write_read_roundtrip:
  assumes "cache_state file_block (\<lambda>f. length f = N * BLOCK_SZ) N Map.empty v s"
    and "inode_in N fs ino v d" and "off + length buf \<le> INDIRECT2_BOUND * BLOCK_SZ"
    and "has_room N fs v (blocks_for (unat (data_blocks_of (of_nat (off + length buf)))) - blocks_for (unat (data_blocks d)))"
    and "length out = length buf"
  shows "\<exists>s1 s2 d'. vfs_write_at BlockFile fs ino off buf s = Some (length buf, s1) \<and>
    inode_in N fs ino (file_block (device s1)) d' \<and>
    overwritten (file_bytes v d) off buf (file_bytes (file_block (device s1)) d') \<and>
    same_outside (insert (ino_block_id ino) (touched fs (file_block (device s1)) d')) v (file_block (device s1)) \<and>
    vfs_read_at BlockFile ino off out (BlockCacheManager_new (device s1)) = Some ((length buf, buf), s2)"
proof -
  from bf.vfs_write_ok [OF assms(1-4)] obtain s1 v' d' where
    w: "vfs_write_at BlockFile fs ino off buf s = Some (length buf, s1)"
      "cache_state file_block (\<lambda>f. length f = N * BLOCK_SZ) N Map.empty v' s1" "file_block (device s1) = v'"
      "inode_in N fs ino v' d'" "overwritten (file_bytes v d) off buf (file_bytes v' d')"
      "same_outside (insert (ino_block_id ino) (touched fs v' d')) v v'" by blast
  from w(2) have "length (device s1) = N * BLOCK_SZ" by (simp add: cache_state_def cache_inv_def)
  then have "cache_state file_block (\<lambda>f. length f = N * BLOCK_SZ) N Map.empty v' (BlockCacheManager_new (device s1))"
    using bf.new_ok [of "device s1" N] w(3) by simp
  from bf.vfs_read_ok [OF this w(4), of off out] obtain s2 where
    r: "vfs_read_at BlockFile ino off out (BlockCacheManager_new (device s1)) =
      (let n = min (off + length out) (unat (di_size d')) - off
       in Some ((n, splice_at 0 (slice_at off n (file_bytes v' d')) out), s2))" by blast
  have "off + length buf \<le> unat (di_size d')" using w(5) by (auto simp: overwritten_def)
  moreover have "slice_at off (length buf) (file_bytes v' d') = buf" using w(5) by (simp add: overwritten_def)
  ultimately have "vfs_read_at BlockFile ino off out (BlockCacheManager_new (device s1)) = Some ((length buf, buf), s2)"
    using r assms(5) by (simp add: Let_def)
  with w show ?thesis by blast
qed

theorem vfs_write_read_roundtrip_witness:
  "\<exists>v d s s1 s2 d'. vfs_write_at BlockFile (fresh_fs 1100 1) (root_inode (fresh_fs 1100 1)) 0 [1, 2, 3] s = Some (length [1 :: u8, 2, 3], s1) \<and>
    inode_in 1100 (fresh_fs 1100 1) (root_inode (fresh_fs 1100 1)) (file_block (device s1)) d' \<and>
    overwritten (file_bytes v d) 0 [1, 2, 3] (file_bytes (file_block (device s1)) d') \<and>
    same_outside (insert (ino_block_id (root_inode (fresh_fs 1100 1))) (touched (fresh_fs 1100 1) (file_block (device s1)) d')) v (file_block (device s1)) \<and>
    vfs_read_at BlockFile (root_inode (fresh_fs 1100 1)) 0 [0, 0, 0] (BlockCacheManager_new (device s1)) = Some ((length [1 :: u8, 2, 3], [1, 2, 3]), s2)"
proof -
  from sample_disk obtain s v d where
    c: "cache_state file_block (\<lambda>f. length f = 1100 * BLOCK_SZ) 1100 Map.empty v s"
      "inode_in 1100 (fresh_fs 1100 1) (root_inode (fresh_fs 1100 1)) v d" "data_blocks d = 0" "has_room 1100 (fresh_fs 1100 1) v 1" by blast
  have "has_room 1100 (fresh_fs 1100 1) v
      (blocks_for (unat (data_blocks_of (of_nat (0 + length [1 :: u8, 2, 3])))) - blocks_for (unat (data_blocks d)))"
    using c(3,4) by (simp add: data_blocks_of_def BLOCK_SZ_def blocks_for_def)
  moreover have "0 + length [1 :: u8, 2, 3] \<le> INDIRECT2_BOUND * BLOCK_SZ" "length [0 :: u8, 0, 0] = length [1 :: u8, 2, 3]"
    by (simp_all add: BLOCK_SZ_def)
  ultimately show ?thesis using vfs_write_read_roundtrip [OF c(1,2)] by blast
qed

text \<open>
  C28. \<open>Inode::clear\<close> empties a file and gives every block it had back: afterwards the inode is
  empty, each of its former blocks is zeroed and free in the data bitmap, all other bits of the
  bitmap are as before, and no other block but the inode's own has changed. In particular the
  assertion that \<open>clear_size\<close> returned \<open>total_blocks(size)\<close> blocks holds and no bit is freed twice.
\<close>

theorem vfs_clear_spec:
  assumes "cache_state file_block (\<lambda>f. length f = N * BLOCK_SZ) N Map.empty v s" and "inode_in N fs ino v d"
  shows "\<exists>s' v' d' w. vfs_clear BlockFile fs ino s = Some ((), s') \<and> file_block (device s') = v' \<and>
    inode_in N fs ino v' d' \<and> di_type d' = di_type d \<and> file_bytes v' d' = [] \<and> used_ids v' d' = [] \<and>
    released fs (used_ids v d) v w \<and> same_outside {ino_block_id ino} w v'"
  using bf.vfs_clear_ok [OF assms] by blast

theorem vfs_clear_spec_witness:
  "\<exists>v d s s' v' d' w. vfs_clear BlockFile (fresh_fs 1100 1) (root_inode (fresh_fs 1100 1)) s = Some ((), s') \<and>
    file_block (device s') = v' \<and>
    inode_in 1100 (fresh_fs 1100 1) (root_inode (fresh_fs 1100 1)) v' d' \<and> di_type d' = di_type d \<and>
    file_bytes v' d' = [] \<and> used_ids v' d' = [] \<and>
    released (fresh_fs 1100 1) (used_ids v d) v w \<and> same_outside {ino_block_id (root_inode (fresh_fs 1100 1))} w v'"
proof -
  from sample_disk obtain s v d where
    c: "cache_state file_block (\<lambda>f. length f = 1100 * BLOCK_SZ) 1100 Map.empty v s"
      "inode_in 1100 (fresh_fs 1100 1) (root_inode (fresh_fs 1100 1)) v d" by blast
  from vfs_clear_spec [OF c] show ?thesis by blast
qed

text \<open>
  C21. \<open>Inode::create\<close> and \<open>Inode::find\<close>. In a directory whose names can all be read, \<open>create\<close> of a
  name that is there returns \<open>None\<close> and changes nothing. For a new valid name of at most 27 bytes,
  with a free inode and room in the data area, it returns the inode in the least free slot; on the
  device the directory then lists its old entries followed by the new name, the slot holds an
  empty file and is taken in the inode bitmap; and \<open>find\<close> of the name, through an empty cache on
  the device, returns the inode \<open>create\<close> returned.
\<close>

theorem vfs_create_find:
  assumes "cache_state file_block (\<lambda>f. length f = N * BLOCK_SZ) N Map.empty v s"
    and "create_pre N fs ino v d i slot"
    and "0 \<notin> set nm" "from_utf8_ok nm" "length nm \<le> NAME_LENGTH_LIMIT"
  shows "if lookup_name nm (dir_entries v d) \<noteq> None
    then \<exists>s'. vfs_create BlockFile fs ino nm s = Some (None, s') \<and> view file_block s' = v
    else \<exists>s1 s2 s3 d' f. vfs_create BlockFile fs ino nm s = Some (Some slot, s1) \<and>
      inode_in N fs ino (file_block (device s1)) d' \<and>
      from_mem DiskInode (slice_at (ino_block_offset slot) 128 (file_block (device s1) (ino_block_id slot))) = Some f \<and>
      is_file f \<and> di_size f = 0 \<and> bit_set (file_block (device s1)) (inode_bitmap fs) i \<and>
      vfs_find BlockFile fs ino nm (BlockCacheManager_new (device s1)) = Some (Some slot, s2) \<and>
      vfs_ls BlockFile ino (BlockCacheManager_new (device s1)) =
        Some (map (\<lambda>e. the (name e)) (dir_entries v d) @ [nm], s3)"
proof (cases "lookup_name nm (dir_entries v d) = None")
  case False
  have "inode_in N fs ino v d" "is_dir d" "names_ok (dir_entries v d)" using assms(2) by (simp_all add: create_pre_def)
  from bf.vfs_create_exists [OF assms(1) this False] False show ?thesis by (auto simp: cache_state_def)
next
  case True
  from bf.vfs_create_ok [OF assms(1,2) True assms(3-5)] obtain s1 v' d' e where
    c: "vfs_create BlockFile fs ino nm s = Some (Some slot, s1)"
      "cache_state file_block (\<lambda>f. length f = N * BLOCK_SZ) N Map.empty v' s1" "file_block (device s1) = v'"
      "inode_in N fs ino v' d'" "is_dir d'" "dir_entries v' d' = dir_entries v d @ [e]" "name e = Some nm"
      "inode_number e = of_nat i" "bit_set v' (inode_bitmap fs) i"
      "\<exists>f. from_mem DiskInode (slice_at (ino_block_offset slot) 128 (v' (ino_block_id slot))) = Some f \<and> is_file f \<and> di_size f = 0"
    by blast
  from c(2) have "length (device s1) = N * BLOCK_SZ" by (simp add: cache_state_def cache_inv_def)
  then have s: "cache_state file_block (\<lambda>f. length f = N * BLOCK_SZ) N Map.empty v' (BlockCacheManager_new (device s1))"
    using bf.new_ok [of "device s1" N] c(3) by simp
  have no: "names_ok (dir_entries v' d')" using assms(2) c(6,7) by (simp add: create_pre_def names_ok_def)
  have "lookup_name nm (dir_entries v' d') = Some (of_nat i)" using c(6-8) True by (simp add: lookup_append)
  moreover have "(case get_disk_inode_pos fs (of_nat i) of (bid, off) \<Rightarrow> Inode_new bid off) = slot"
    using assms(2) by (simp add: create_pre_def new_slot_def)
  ultimately obtain s2 where "vfs_find BlockFile fs ino nm (BlockCacheManager_new (device s1)) = Some (Some slot, s2)"
    using bf.vfs_find_ok [OF s c(4,5) no, of nm] by auto
  moreover obtain s3 where "vfs_ls BlockFile ino (BlockCacheManager_new (device s1)) =
      Some (map (\<lambda>e. the (name e)) (dir_entries v d) @ [nm], s3)"
    using bf.vfs_ls_ok [OF s c(4) no] c(6,7) by auto
  ultimately show ?thesis using c True by auto
qed

lemma sample_create_pre:
  assumes "cache_state file_block (\<lambda>f. length f = 1100 * BLOCK_SZ) 1100 Map.empty v s" and fmt: "formatted 1100 1 v"
    and "inode_in 1100 (fresh_fs 1100 1) (root_inode (fresh_fs 1100 1)) v d" "is_dir d" "di_size d = 0"
    and "dir_entries v d = []" "data_blocks d = 0" "has_room 1100 (fresh_fs 1100 1) v 1"
  shows "create_pre 1100 (fresh_fs 1100 1) (root_inode (fresh_fs 1100 1)) v d 1 (Inode_new 2 128)"
proof -
  let ?fs = "fresh_fs 1100 1"
  have fit: "layout_fits 1100 1" by (simp add: layout_fits_def)
  note lay = fresh_fs_layout [OF fit]
  have start: "inode_area_start_block ?fs = 2" by (simp add: fresh_fs_def split: prod.splits)
  obtain ia it db da where eq: "area_sizes 1100 1 = (ia, it, db, da)" by (metis prod_cases4)
  have bits: "\<forall>b<bitmap_maximum (inode_bitmap ?fs). bit_set v (inode_bitmap ?fs) b \<longleftrightarrow> b = 0"
    and z: "slice_at 128 384 (v 2) = replicate 384 0"
    using fmt unfolding formatted_def eq Let_def prod.case by (simp_all add: numeral_2_eq_2)
  have mx: "bitmap_maximum (inode_bitmap ?fs) = 4096" using lay(2) by (simp add: bitmap_maximum_def)
  have ff: "first_free v (inode_bitmap ?fs) = Some 1"
    unfolding first_free_def by (rule find_upt_eqI) (use bits mx in auto)
  have r: "ino_block_id (root_inode ?fs) = 2" "ino_block_offset (root_inode ?fs) = 0"
    by (simp_all add: root_inode_def get_disk_inode_pos_def Inode_new_def Let_def start)
  have pos: "get_disk_inode_pos ?fs (of_nat 1) = (2, 128)"
    by (simp add: get_disk_inode_pos_def Let_def start BLOCK_SZ_def)
  have "slice_at 128 128 (v 2) = slice_at 0 128 zero_block"
  proof -
    have "slice_at 128 128 (v 2) = slice_at 0 128 (slice_at 128 384 (v 2))" by (simp add: slice_slice)
    also have "\<dots> = slice_at 0 128 zero_block" unfolding z by (simp add: slice_at_def zero_block_def BLOCK_SZ_def)
    finally show ?thesis .
  qed
  then have "from_mem DiskInode (slice_at 128 128 (v 2)) \<noteq> None" using zero_inode by simp
  moreover have "blocks_for (unat (data_blocks_of 32)) - blocks_for (unat (data_blocks d)) = 1"
    using assms(7) by (simp add: data_blocks_of_def BLOCK_SZ_def blocks_for_def)
  moreover have "bm_ok 1100 Map.empty (inode_bitmap ?fs)" using lay by (simp add: bm_ok_def)
  moreover have "geometry_ok 1100 ?fs (Inode_new 2 128)" using lay by (simp add: geometry_ok_def Inode_new_def BLOCK_SZ_def)
  ultimately show ?thesis
    using assms(3-6,8) ff pos lay r
    by (simp add: create_pre_def new_slot_def names_ok_def Inode_new_def BLOCK_SZ_def)
qed

theorem vfs_create_find_witness:
  "\<exists>v d s. let fs = fresh_fs 1100 1; ino = root_inode fs; nm = [97, 98] :: bytes; slot = Inode_new 2 128 in
    if lookup_name nm (dir_entries v d) \<noteq> None
    then \<exists>s'. vfs_create BlockFile fs ino nm s = Some (None, s') \<and> view file_block s' = v
    else \<exists>s1 s2 s3 d' f. vfs_create BlockFile fs ino nm s = Some (Some slot, s1) \<and>
      inode_in 1100 fs ino (file_block (device s1)) d' \<and>
      from_mem DiskInode (slice_at (ino_block_offset slot) 128 (file_block (device s1) (ino_block_id slot))) = Some f \<and>
      is_file f \<and> di_size f = 0 \<and> bit_set (file_block (device s1)) (inode_bitmap fs) 1 \<and>
      vfs_find BlockFile fs ino nm (BlockCacheManager_new (device s1)) = Some (Some slot, s2) \<and>
      vfs_ls BlockFile ino (BlockCacheManager_new (device s1)) =
        Some (map (\<lambda>e. the (name e)) (dir_entries v d) @ [nm], s3)"
proof -
  from sample_disk obtain s v d where
    c: "cache_state file_block (\<lambda>f. length f = 1100 * BLOCK_SZ) 1100 Map.empty v s" "formatted 1100 1 v"
      "inode_in 1100 (fresh_fs 1100 1) (root_inode (fresh_fs 1100 1)) v d" "is_dir d" "di_size d = 0"
      "dir_entries v d = []" "data_blocks d = 0" "has_room 1100 (fresh_fs 1100 1) v 1" by blast
  show ?thesis unfolding Let_def
    by (rule exI [where x = v], rule exI [where x = d], rule exI [where x = s],
        rule vfs_create_find [OF c(1) sample_create_pre [OF c]]) simp_all
qed

end
