(* ===== verification/Pipe.thy ===== *)
theory Pipe
  imports UserMemory
begin

text \<open>
  Pipes (\<open>os/src/fs/pipe.rs\<close>): a ring buffer of 32 bytes shared by a read end and a write end. The
  kernel is not preempted, so a call of \<open>read\<close> or \<open>write\<close> runs atomically between two calls of
  \<open>suspend_current_and_run_next\<close>: one pass of its \<open>loop\<close> is one function of the model, whose outcome
  says whether the call returns, goes round the loop again or gives up the processor first. The
  \<open>Weak\<close> pointer to the write end is the reference of that end; which ends still have an owner is
  an argument.
\<close>

section \<open>The ring buffer\<close>

definition RING_BUFFER_SIZE :: nat where "RING_BUFFER_SIZE = 32"

datatype RingBufferStatus = Full | Empty | Normal

type_synonym pipe_ref = nat

record PipeRingBuffer =
  rb_arr :: bytes
  rb_head :: nat
  rb_tail :: nat
  rb_status :: RingBufferStatus
  rb_write_end :: "pipe_ref option"

definition PipeRingBuffer_new :: PipeRingBuffer where
  "PipeRingBuffer_new = \<lparr>rb_arr = replicate RING_BUFFER_SIZE 0, rb_head = 0, rb_tail = 0, rb_status = Empty,
    rb_write_end = None\<rparr>"

definition set_write_end :: "pipe_ref \<Rightarrow> PipeRingBuffer \<Rightarrow> PipeRingBuffer" where
  "set_write_end w b = b\<lparr>rb_write_end := Some w\<rparr>"

definition write_byte :: "u8 \<Rightarrow> PipeRingBuffer \<Rightarrow> PipeRingBuffer option" where
  "write_byte byte b = do {
    let b = b\<lparr>rb_status := Normal\<rparr>;
    assert_that (rb_tail b < length (rb_arr b));
    let b = b\<lparr>rb_arr := (rb_arr b)[rb_tail b := byte]\<rparr>;
    let b = b\<lparr>rb_tail := (rb_tail b + 1) mod RING_BUFFER_SIZE\<rparr>;
    Some (if rb_tail b = rb_head b then b\<lparr>rb_status := Full\<rparr> else b)
  }"

definition read_byte :: "PipeRingBuffer \<Rightarrow> (u8 \<times> PipeRingBuffer) option" where
  "read_byte b = do {
    let b = b\<lparr>rb_status := Normal\<rparr>;
    c \<leftarrow> index_at (rb_arr b) (rb_head b);
    let b = b\<lparr>rb_head := (rb_head b + 1) mod RING_BUFFER_SIZE\<rparr>;
    Some (c, if rb_head b = rb_tail b then b\<lparr>rb_status := Empty\<rparr> else b)
  }"

definition available_read :: "PipeRingBuffer \<Rightarrow> nat" where
  "available_read b =
    (if rb_status b = Empty then 0
     else if rb_tail b > rb_head b then rb_tail b - rb_head b
     else rb_tail b + RING_BUFFER_SIZE - rb_head b)"

definition available_write :: "PipeRingBuffer \<Rightarrow> nat" where
  "available_write b = (if rb_status b = Full then 0 else RING_BUFFER_SIZE - available_read b)"

definition all_write_ends_closed :: "(pipe_ref \<Rightarrow> bool) \<Rightarrow> PipeRingBuffer \<Rightarrow> bool option" where
  "all_write_ends_closed alive b = do { w \<leftarrow> rb_write_end b; Some (\<not> alive w) }"

section \<open>Pipes\<close>

record Pipe =
  p_readable :: bool
  p_writable :: bool
  p_buffer :: nat

definition read_end_with_buffer :: "nat \<Rightarrow> Pipe" where
  "read_end_with_buffer buf = \<lparr>p_readable = True, p_writable = False, p_buffer = buf\<rparr>"

definition write_end_with_buffer :: "nat \<Rightarrow> Pipe" where
  "write_end_with_buffer buf = \<lparr>p_readable = False, p_writable = True, p_buffer = buf\<rparr>"

text \<open>\<open>make_pipe\<close> on a fresh buffer \<open>buf\<close> and a fresh reference \<open>w\<close> for the write end.\<close>

definition make_pipe :: "nat \<Rightarrow> pipe_ref \<Rightarrow> Pipe \<times> Pipe \<times> PipeRingBuffer" where
  "make_pipe buf w = (read_end_with_buffer buf, write_end_with_buffer buf, set_write_end w PipeRingBuffer_new)"

datatype pass = Done nat | Again | Yield

text \<open>A call in progress: the buffer, memory, the iterator over the user's bytes and the count so far.\<close>

record call =
  c_ring :: PipeRingBuffer
  c_mem :: kmem
  c_iter :: UserBufferIterator
  c_already :: nat

definition load_ptr :: "kmem \<Rightarrow> byte_ptr \<Rightarrow> u8" where
  "load_ptr k p = pages k (fst p) ! snd p"

definition store_ptr :: "byte_ptr \<Rightarrow> u8 \<Rightarrow> kmem \<Rightarrow> kmem" where
  "store_ptr p c k = set_bytes_array (fst p) ((pages k (fst p))[snd p := c]) k"

text \<open>\<open>for _ in 0..loop_read\<close>\<close>

primrec read_bytes :: "nat \<Rightarrow> nat \<Rightarrow> call \<Rightarrow> (pass \<times> call) option" where
  "read_bytes want 0 s = Some (Again, s)"
| "read_bytes want (Suc n) s = do {
    (r, it) \<leftarrow> UserBufferIterator_next (c_iter s);
    let s = s\<lparr>c_iter := it\<rparr>;
    (case r of
      None \<Rightarrow> Some (Done (c_already s), s)
    | Some byte_ref \<Rightarrow> do {
        (c, ring) \<leftarrow> read_byte (c_ring s);
        let s = s\<lparr>c_ring := ring, c_mem := store_ptr byte_ref c (c_mem s), c_already := c_already s + 1\<rparr>;
        if c_already s = want then Some (Done want, s) else read_bytes want n s
      })
  }"

definition pipe_read_pass :: "(pipe_ref \<Rightarrow> bool) \<Rightarrow> nat \<Rightarrow> call \<Rightarrow> (pass \<times> call) option" where
  "pipe_read_pass alive want s = do {
    let loop_read = available_read (c_ring s);
    if loop_read = 0 then do {
      closed \<leftarrow> all_write_ends_closed alive (c_ring s);
      if closed then Some (Done (c_already s), s) else Some (Yield, s)
    } else read_bytes want loop_read s
  }"

primrec write_bytes :: "nat \<Rightarrow> nat \<Rightarrow> call \<Rightarrow> (pass \<times> call) option" where
  "write_bytes want 0 s = Some (Again, s)"
| "write_bytes want (Suc n) s = do {
    (r, it) \<leftarrow> UserBufferIterator_next (c_iter s);
    let s = s\<lparr>c_iter := it\<rparr>;
    (case r of
      None \<Rightarrow> Some (Done (c_already s), s)
    | Some byte_ref \<Rightarrow> do {
        ring \<leftarrow> write_byte (load_ptr (c_mem s) byte_ref) (c_ring s);
        let s = s\<lparr>c_ring := ring, c_already := c_already s + 1\<rparr>;
        if c_already s = want then Some (Done want, s) else write_bytes want n s
      })
  }"

definition pipe_write_pass :: "nat \<Rightarrow> call \<Rightarrow> (pass \<times> call) option" where
  "pipe_write_pass want s = do {
    let loop_write = available_write (c_ring s);
    if loop_write = 0 then Some (Yield, s) else write_bytes want loop_write s
  }"

text \<open>The start of a call.\<close>

definition pipe_read_start :: "Pipe \<Rightarrow> UserBuffer \<Rightarrow> PipeRingBuffer \<Rightarrow> kmem \<Rightarrow> (nat \<times> call) option" where
  "pipe_read_start p buf ring k = do {
    assert_that (p_readable p);
    Some (UserBuffer_len buf, \<lparr>c_ring = ring, c_mem = k, c_iter = UserBuffer_into_iter buf, c_already = 0\<rparr>)
  }"

definition pipe_write_start :: "Pipe \<Rightarrow> UserBuffer \<Rightarrow> PipeRingBuffer \<Rightarrow> kmem \<Rightarrow> (nat \<times> call) option" where
  "pipe_write_start p buf ring k = do {
    assert_that (p_writable p);
    Some (UserBuffer_len buf, \<lparr>c_ring = ring, c_mem = k, c_iter = UserBuffer_into_iter buf, c_already = 0\<rparr>)
  }"

text \<open>A call that is not interrupted: passes until it returns or has to give up the processor.\<close>

fun pipe_read_run :: "nat \<Rightarrow> (pipe_ref \<Rightarrow> bool) \<Rightarrow> nat \<Rightarrow> call \<Rightarrow> (pass \<times> call) option" where
  "pipe_read_run 0 alive want s = None"
| "pipe_read_run (Suc fuel) alive want s = do {
    (r, s) \<leftarrow> pipe_read_pass alive want s;
    if r = Again then pipe_read_run fuel alive want s else Some (r, s)
  }"

fun pipe_write_run :: "nat \<Rightarrow> nat \<Rightarrow> call \<Rightarrow> (pass \<times> call) option" where
  "pipe_write_run 0 want s = None"
| "pipe_write_run (Suc fuel) want s = do {
    (r, s) \<leftarrow> pipe_write_pass want s;
    if r = Again then pipe_write_run fuel want s else Some (r, s)
  }"

section \<open>Bounded queues\<close>

text \<open>What the two ends rely on: a first-in first-out queue of bounded capacity.\<close>

locale bounded_queue =
  fixes enq :: "'a \<Rightarrow> 'q \<Rightarrow> 'q option" and deq :: "'q \<Rightarrow> ('a \<times> 'q) option"
    and used :: "'q \<Rightarrow> nat" and room :: "'q \<Rightarrow> nat"
    and inv :: "'q \<Rightarrow> bool" and contents :: "'q \<Rightarrow> 'a list" and capacity :: nat
  assumes enq_ok: "inv q \<Longrightarrow> length (contents q) < capacity \<Longrightarrow>
      \<exists>q'. enq x q = Some q' \<and> inv q' \<and> contents q' = contents q @ [x]"
    and deq_ok: "inv q \<Longrightarrow> contents q = x # xs \<Longrightarrow> \<exists>q'. deq q = Some (x, q') \<and> inv q' \<and> contents q' = xs"
    and used_eq: "inv q \<Longrightarrow> used q = length (contents q)"
    and room_eq: "inv q \<Longrightarrow> room q = capacity - length (contents q)"
begin

text \<open>What goes in comes out, in order.\<close>

lemma enq_all:
  "inv q \<Longrightarrow> length (contents q) + length xs \<le> capacity \<Longrightarrow>
   \<exists>q'. foldo enq xs q = Some q' \<and> inv q' \<and> contents q' = contents q @ xs"
proof (induction xs arbitrary: q)
  case (Cons x xs)
  obtain q1 where q1: "enq x q = Some q1" "inv q1" "contents q1 = contents q @ [x]"
    using enq_ok [of q x] Cons.prems by auto
  then obtain q2 where "foldo enq xs q1 = Some q2" "inv q2" "contents q2 = contents q1 @ xs"
    using Cons.IH [of q1] Cons.prems by auto
  with q1 show ?case by simp
qed simp

end

section \<open>The ring buffer is a bounded queue\<close>

definition ring_inv :: "PipeRingBuffer \<Rightarrow> bool" where
  "ring_inv b \<longleftrightarrow> length (rb_arr b) = 32 \<and> rb_head b < 32 \<and> rb_tail b < 32
    \<and> (rb_head b = rb_tail b \<longrightarrow> rb_status b \<noteq> Normal) \<and> (rb_head b \<noteq> rb_tail b \<longrightarrow> rb_status b = Normal)"

definition ring_contents :: "PipeRingBuffer \<Rightarrow> bytes" where
  "ring_contents b = map (\<lambda>i. rb_arr b ! ((rb_head b + i) mod 32)) [0..<available_read b]"

lemma length_ring_contents [simp]: "length (ring_contents b) = available_read b"
  by (simp add: ring_contents_def)

lemma available_read_le: "ring_inv b \<Longrightarrow> available_read b \<le> 32"
  by (auto simp: available_read_def ring_inv_def RING_BUFFER_SIZE_def)

lemma available_read_full: "ring_inv b \<Longrightarrow> rb_status b = Full \<longleftrightarrow> available_read b = 32"
  by (cases "rb_status b") (auto simp: available_read_def ring_inv_def RING_BUFFER_SIZE_def)

lemma tail_eq: "ring_inv b \<Longrightarrow> rb_tail b = (rb_head b + available_read b) mod 32"
  by (auto simp: available_read_def ring_inv_def RING_BUFFER_SIZE_def mod_if)

lemma mod_Suc_32: "x < 32 \<Longrightarrow> Suc x mod 32 = (if x = 31 then 0 else Suc x)"
  by auto

lemma write_byte_ok:
  assumes inv: "ring_inv b" and lt: "available_read b < 32"
  shows "\<exists>b'. write_byte x b = Some b' \<and> ring_inv b' \<and> ring_contents b' = ring_contents b @ [x]
    \<and> rb_write_end b' = rb_write_end b"
proof -
  have L: "length (rb_arr b) = 32" "rb_head b < 32" "rb_tail b < 32" using inv by (simp_all add: ring_inv_def)
  define b' where "b' = (let c = b\<lparr>rb_status := Normal, rb_arr := (rb_arr b)[rb_tail b := x], rb_tail := Suc (rb_tail b) mod 32\<rparr>
    in if rb_tail c = rb_head c then c\<lparr>rb_status := Full\<rparr> else c)"
  have w: "write_byte x b = Some b'" using L by (simp add: write_byte_def b'_def RING_BUFFER_SIZE_def Let_def)
  have f: "rb_arr b' = (rb_arr b)[rb_tail b := x]" "rb_head b' = rb_head b" "rb_tail b' = Suc (rb_tail b) mod 32"
    "rb_write_end b' = rb_write_end b" "rb_status b' = (if Suc (rb_tail b) mod 32 = rb_head b then Full else Normal)"
    by (simp_all add: b'_def Let_def)
  have inv': "ring_inv b'" using L f by (simp add: ring_inv_def)
  have notfull: "rb_status b \<noteq> Full" using available_read_full [OF inv] lt by auto
  have av: "available_read b' = Suc (available_read b)"
    using inv L f notfull by (cases "rb_status b") (auto simp: available_read_def ring_inv_def RING_BUFFER_SIZE_def mod_Suc_32 split: if_splits)
  have "rb_arr b' ! ((rb_head b + i) mod 32) = rb_arr b ! ((rb_head b + i) mod 32)" if "i < available_read b" for i
  proof -
    have "(rb_head b + i) mod 32 \<noteq> (rb_head b + available_read b) mod 32"
      using that lt L(2) by (auto simp: mod_if split: if_splits)
    then show ?thesis using tail_eq [OF inv] by (simp add: f(1))
  qed
  moreover have "rb_arr b' ! ((rb_head b + available_read b) mod 32) = x"
    using tail_eq [OF inv, symmetric] L by (simp add: f(1))
  ultimately have "ring_contents b' = ring_contents b @ [x]" by (simp add: ring_contents_def av f(2))
  with w inv' f(4) show ?thesis by blast
qed

lemma read_byte_ok:
  assumes inv: "ring_inv b" and ne: "ring_contents b = x # xs"
  shows "\<exists>b'. read_byte b = Some (x, b') \<and> ring_inv b' \<and> ring_contents b' = xs \<and> rb_write_end b' = rb_write_end b"
proof -
  have L: "length (rb_arr b) = 32" "rb_head b < 32" "rb_tail b < 32" using inv by (simp_all add: ring_inv_def)
  have pos: "0 < available_read b" using ne length_ring_contents [of b] by (metis length_greater_0_conv list.discI)
  define b' where "b' = (let c = b\<lparr>rb_status := Normal, rb_head := Suc (rb_head b) mod 32\<rparr>
    in if rb_head c = rb_tail c then c\<lparr>rb_status := Empty\<rparr> else c)"
  have f: "rb_arr b' = rb_arr b" "rb_head b' = Suc (rb_head b) mod 32" "rb_tail b' = rb_tail b"
    "rb_write_end b' = rb_write_end b" "rb_status b' = (if Suc (rb_head b) mod 32 = rb_tail b then Empty else Normal)"
    by (simp_all add: b'_def Let_def)
  have inv': "ring_inv b'" using L f by (simp add: ring_inv_def)
  have notempty: "rb_status b \<noteq> Empty" using pos by (auto simp: available_read_def)
  have av: "available_read b = Suc (available_read b')"
    using inv L f notempty by (cases "rb_status b") (auto simp: available_read_def ring_inv_def RING_BUFFER_SIZE_def mod_Suc_32 split: if_splits)
  have "(Suc (rb_head b) mod 32 + i) mod 32 = (rb_head b + Suc i) mod 32" for i
    by (simp add: mod_simps)
  then have "ring_contents b = rb_arr b ! rb_head b # ring_contents b'"
    using L by (simp add: ring_contents_def av f upt_conv_Cons map_Suc_upt [symmetric] del: upt_Suc)
  with ne have "x = rb_arr b ! rb_head b" "xs = ring_contents b'" by simp_all
  moreover have "read_byte b = Some (rb_arr b ! rb_head b, b')"
    using L by (simp add: read_byte_def b'_def RING_BUFFER_SIZE_def Let_def)
  ultimately show ?thesis using inv' f(4) by blast
qed

interpretation ring: bounded_queue write_byte read_byte available_read available_write ring_inv ring_contents 32
proof unfold_locales
  fix q x assume "ring_inv q" "length (ring_contents q) < 32"
  then show "\<exists>q'. write_byte x q = Some q' \<and> ring_inv q' \<and> ring_contents q' = ring_contents q @ [x]"
    using write_byte_ok [of q x] by auto
next
  fix q x xs assume "ring_inv q" "ring_contents q = x # xs"
  then show "\<exists>q'. read_byte q = Some (x, q') \<and> ring_inv q' \<and> ring_contents q' = xs"
    using read_byte_ok [of q x xs] by auto
next
  fix q assume "ring_inv q"
  then show "available_write q = 32 - length (ring_contents q)"
    using available_read_full [of q] by (simp add: available_write_def RING_BUFFER_SIZE_def)
qed simp

section \<open>Passes\<close>

text \<open>The bytes \<open>cs\<close> stored at the pointers \<open>ps\<close>, in order.\<close>

definition store_list :: "byte_ptr list \<Rightarrow> bytes \<Rightarrow> kmem \<Rightarrow> kmem" where
  "store_list ps cs k = fold (\<lambda>(p, c). store_ptr p c) (zip ps cs) k"

text \<open>A call in a consistent state, with at least one byte of the user's buffer left.\<close>

definition call_ok :: "nat \<Rightarrow> call \<Rightarrow> bool" where
  "call_ok want s \<longleftrightarrow> ring_inv (c_ring s) \<and> it_ok (c_iter s) \<and> it_rest (c_iter s) \<noteq> []
    \<and> c_already s + length (it_rest (c_iter s)) = want"

lemma next_Cons:
  assumes "it_ok it" "it_rest it = p # ps"
  obtains it' where "UserBufferIterator_next it = Some (Some p, it')" "it_ok it'" "it_rest it' = ps"
  using UserBufferIterator_next_ok [OF assms(1)] assms(2) by auto

lemma read_bytes_ok:
  assumes "call_ok want s" "n \<le> available_read (c_ring s)"
  shows "\<exists>s'. read_bytes want n s = Some (if length (it_rest (c_iter s)) \<le> n then Done want else Again, s')
    \<and> (let m = min n (length (it_rest (c_iter s))) in
        ring_inv (c_ring s') \<and> ring_contents (c_ring s') = drop m (ring_contents (c_ring s))
        \<and> rb_write_end (c_ring s') = rb_write_end (c_ring s)
        \<and> it_ok (c_iter s') \<and> it_rest (c_iter s') = drop m (it_rest (c_iter s)) \<and> c_already s' = c_already s + m
        \<and> c_mem s' = store_list (take m (it_rest (c_iter s))) (take m (ring_contents (c_ring s))) (c_mem s))"
  using assms
proof (induction n arbitrary: s)
  case 0
  then show ?case by (simp add: call_ok_def store_list_def)
next
  case (Suc n)
  obtain p ps where ps: "it_rest (c_iter s) = p # ps" using Suc.prems(1) by (auto simp: call_ok_def neq_Nil_conv)
  obtain c cs where cs: "ring_contents (c_ring s) = c # cs"
    using Suc.prems(2) length_ring_contents [of "c_ring s"] by (cases "ring_contents (c_ring s)") auto
  obtain it where it: "UserBufferIterator_next (c_iter s) = Some (Some p, it)" "it_ok it" "it_rest it = ps"
    using next_Cons [OF _ ps] Suc.prems(1) by (auto simp: call_ok_def)
  obtain ring where ring: "read_byte (c_ring s) = Some (c, ring)" "ring_inv ring" "ring_contents ring = cs"
    "rb_write_end ring = rb_write_end (c_ring s)"
    using read_byte_ok [OF _ cs] Suc.prems(1) by (auto simp: call_ok_def)
  define t where "t = s\<lparr>c_iter := it, c_ring := ring, c_mem := store_ptr p c (c_mem s), c_already := c_already s + 1\<rparr>"
  have t: "c_iter t = it" "c_ring t = ring" "c_mem t = store_ptr p c (c_mem s)" "c_already t = c_already s + 1"
    by (simp_all add: t_def)
  have want: "c_already s + Suc (length ps) = want" using Suc.prems(1) ps by (simp add: call_ok_def)
  have step: "read_bytes want (Suc n) s = (if c_already t = want then Some (Done want, t) else read_bytes want n t)"
    using it(1) ring(1) by (simp add: t_def)
  show ?case
  proof (cases "ps = []")
    case True
    then show ?thesis using step want it ring t by (simp add: ps cs store_list_def)
  next
    case False
    then have ne: "c_already t \<noteq> want" and ok: "call_ok want t"
      using want it ring t by (auto simp: call_ok_def)
    have "n \<le> available_read (c_ring t)"
      using Suc.prems(2) cs ring(3) t length_ring_contents [of "c_ring s"] length_ring_contents [of ring] by simp
    from Suc.IH [OF ok this] show ?thesis
      using step ne it ring t by (auto simp: ps cs store_list_def Let_def)
  qed
qed

lemma write_bytes_ok:
  assumes "call_ok want s" "n \<le> available_write (c_ring s)"
  shows "\<exists>s'. write_bytes want n s = Some (if length (it_rest (c_iter s)) \<le> n then Done want else Again, s')
    \<and> (let m = min n (length (it_rest (c_iter s))) in
        ring_inv (c_ring s') \<and> ring_contents (c_ring s') = ring_contents (c_ring s) @ map (load_ptr (c_mem s)) (take m (it_rest (c_iter s)))
        \<and> rb_write_end (c_ring s') = rb_write_end (c_ring s)
        \<and> it_ok (c_iter s') \<and> it_rest (c_iter s') = drop m (it_rest (c_iter s)) \<and> c_already s' = c_already s + m
        \<and> c_mem s' = c_mem s)"
  using assms
proof (induction n arbitrary: s)
  case 0
  then show ?case by (simp add: call_ok_def)
next
  case (Suc n)
  have inv: "ring_inv (c_ring s)" using Suc.prems(1) by (simp add: call_ok_def)
  obtain p ps where ps: "it_rest (c_iter s) = p # ps" using Suc.prems(1) by (auto simp: call_ok_def neq_Nil_conv)
  obtain it where it: "UserBufferIterator_next (c_iter s) = Some (Some p, it)" "it_ok it" "it_rest it = ps"
    using next_Cons [OF _ ps] Suc.prems(1) by (auto simp: call_ok_def)
  have room: "available_write (c_ring s) = 32 - available_read (c_ring s)" using ring.room_eq [OF inv] by simp
  have lt: "available_read (c_ring s) < 32" using Suc.prems(2) room by linarith
  obtain ring where ring: "write_byte (load_ptr (c_mem s) p) (c_ring s) = Some ring" "ring_inv ring"
    "ring_contents ring = ring_contents (c_ring s) @ [load_ptr (c_mem s) p]" "rb_write_end ring = rb_write_end (c_ring s)"
    using write_byte_ok [OF inv lt] by blast
  define t where "t = s\<lparr>c_iter := it, c_ring := ring, c_already := c_already s + 1\<rparr>"
  have t: "c_iter t = it" "c_ring t = ring" "c_mem t = c_mem s" "c_already t = c_already s + 1"
    by (simp_all add: t_def)
  have want: "c_already s + Suc (length ps) = want" using Suc.prems(1) ps by (simp add: call_ok_def)
  have step: "write_bytes want (Suc n) s = (if c_already t = want then Some (Done want, t) else write_bytes want n t)"
    using it(1) ring(1) by (simp add: t_def)
  show ?case
  proof (cases "ps = []")
    case True
    then show ?thesis using step want it ring t by (simp add: ps)
  next
    case False
    then have ne: "c_already t \<noteq> want" and ok: "call_ok want t"
      using want it ring t by (auto simp: call_ok_def)
    have "available_read ring = Suc (available_read (c_ring s))"
      using ring(3) length_ring_contents [of ring] by (metis length_append_singleton length_ring_contents)
    then have "n \<le> available_write (c_ring t)"
      using Suc.prems(2) room ring.room_eq [OF ring(2)] t by simp
    from Suc.IH [OF ok this] show ?thesis
      using step ne it ring t by (auto simp: ps Let_def)
  qed
qed

section \<open>Calls\<close>

lemma pipe_read_run_ok:
  assumes ok: "call_ok want s" and w: "rb_write_end (c_ring s) = Some w"
  defines "m \<equiv> min (length (ring_contents (c_ring s))) (length (it_rest (c_iter s)))"
  shows "\<exists>s'. pipe_read_run (Suc (Suc n)) alive want s = Some
      (if length (it_rest (c_iter s)) \<le> length (ring_contents (c_ring s)) then Done want
       else if alive w then Yield else Done (c_already s + m), s')
    \<and> ring_inv (c_ring s') \<and> ring_contents (c_ring s') = drop m (ring_contents (c_ring s))
    \<and> rb_write_end (c_ring s') = Some w
    \<and> it_ok (c_iter s') \<and> it_rest (c_iter s') = drop m (it_rest (c_iter s)) \<and> c_already s' = c_already s + m
    \<and> c_mem s' = store_list (take m (it_rest (c_iter s))) (take m (ring_contents (c_ring s))) (c_mem s)"
proof (cases "available_read (c_ring s) = 0")
  case True
  then have "m = 0" "length (it_rest (c_iter s)) > 0" using ok by (auto simp: m_def call_ok_def)
  then show ?thesis
    using True ok w by (auto simp: pipe_read_pass_def all_write_ends_closed_def call_ok_def store_list_def)
next
  case False
  let ?rest = "it_rest (c_iter s)" and ?n = "available_read (c_ring s)"
  obtain s1 where r: "read_bytes want ?n s = Some (if length ?rest \<le> ?n then Done want else Again, s1)"
    and s1: "ring_inv (c_ring s1)" "ring_contents (c_ring s1) = drop m (ring_contents (c_ring s))"
    "rb_write_end (c_ring s1) = Some w" "it_ok (c_iter s1) \<and> it_rest (c_iter s1) = drop m ?rest" "c_already s1 = c_already s + m"
    "c_mem s1 = store_list (take m ?rest) (take m (ring_contents (c_ring s))) (c_mem s)"
    using read_bytes_ok [OF ok order_refl] w by (auto simp: m_def Let_def)
  have p1: "pipe_read_pass alive want s = Some (if length ?rest \<le> ?n then Done want else Again, s1)"
    using False r by (simp add: pipe_read_pass_def)
  show ?thesis
  proof (cases "length ?rest \<le> ?n")
    case True
    then show ?thesis using p1 s1 by simp
  next
    case f: False
    then have "m = ?n" by (simp add: m_def)
    then have "available_read (c_ring s1) = 0" using s1(2) length_ring_contents [of "c_ring s1"] by simp
    then have "pipe_read_pass alive want s1 = Some (if alive w then Yield else Done (c_already s + m), s1)"
      using s1(3,5) by (simp add: pipe_read_pass_def all_write_ends_closed_def)
    then show ?thesis using p1 f s1 by simp
  qed
qed

lemma pipe_write_run_ok:
  assumes ok: "call_ok want s"
  defines "m \<equiv> min (32 - length (ring_contents (c_ring s))) (length (it_rest (c_iter s)))"
  shows "\<exists>s'. pipe_write_run (Suc (Suc n)) want s = Some (if length (it_rest (c_iter s)) \<le> 32 - length (ring_contents (c_ring s)) then Done want else Yield, s')
    \<and> ring_inv (c_ring s') \<and> ring_contents (c_ring s') = ring_contents (c_ring s) @ map (load_ptr (c_mem s)) (take m (it_rest (c_iter s)))
    \<and> rb_write_end (c_ring s') = rb_write_end (c_ring s)
    \<and> it_ok (c_iter s') \<and> it_rest (c_iter s') = drop m (it_rest (c_iter s)) \<and> c_already s' = c_already s + m \<and> c_mem s' = c_mem s"
proof -
  let ?rest = "it_rest (c_iter s)" and ?n = "available_write (c_ring s)"
  have inv: "ring_inv (c_ring s)" "?rest \<noteq> []" "it_ok (c_iter s)" using ok by (simp_all add: call_ok_def)
  have room: "?n = 32 - length (ring_contents (c_ring s))" using ring.room_eq [OF inv(1)] by simp
  show ?thesis
  proof (cases "?n = 0")
    case True
    then show ?thesis using inv room by (simp add: pipe_write_pass_def m_def)
  next
    case False
    obtain s1 where r: "write_bytes want ?n s = Some (if length ?rest \<le> ?n then Done want else Again, s1)"
      and s1: "ring_inv (c_ring s1)" "ring_contents (c_ring s1) = ring_contents (c_ring s) @ map (load_ptr (c_mem s)) (take m ?rest)"
      "rb_write_end (c_ring s1) = rb_write_end (c_ring s)" "it_ok (c_iter s1) \<and> it_rest (c_iter s1) = drop m ?rest"
      "c_already s1 = c_already s + m" "c_mem s1 = c_mem s"
      using write_bytes_ok [OF ok order_refl] by (auto simp: m_def Let_def room)
    have p1: "pipe_write_pass want s = Some (if length ?rest \<le> ?n then Done want else Again, s1)"
      using False r by (simp add: pipe_write_pass_def)
    show ?thesis
    proof (cases "length ?rest \<le> ?n")
      case True
      then show ?thesis using p1 s1 room by simp
    next
      case f: False
      then have "m = ?n" by (simp add: m_def room)
      moreover have "length (take m ?rest) = m" by (simp add: m_def)
      ultimately have "length (ring_contents (c_ring s1)) = length (ring_contents (c_ring s)) + ?n" using s1(2) by simp
      then have "available_write (c_ring s1) = 0" using ring.room_eq [OF s1(1)] room by simp
      then have "pipe_write_pass want s1 = Some (Yield, s1)" by (simp add: pipe_write_pass_def)
      then show ?thesis using p1 f s1 room by simp
    qed
  qed
qed

lemma load_store_list_other:
  "p \<notin> set ps \<Longrightarrow> load_ptr (store_list ps cs k) p = load_ptr k p"
proof (induction ps arbitrary: cs k)
  case (Cons q ps)
  have "load_ptr (store_ptr q c k) p = load_ptr k p" if "p \<noteq> q" for c k
    using that by (cases p; cases q) (auto simp: load_ptr_def store_ptr_def set_bytes_array_def)
  with Cons show ?case by (cases cs) (simp_all add: store_list_def)
qed (simp add: store_list_def)

lemma load_store_list:
  assumes "distinct ps" "length cs = length ps" "\<And>p. p \<in> set ps \<Longrightarrow> snd p < length (pages k (fst p))"
  shows "map (load_ptr (store_list ps cs k)) ps = cs"
  using assms
proof (induction ps arbitrary: cs k)
  case (Cons p ps)
  obtain c cs' where cs: "cs = c # cs'" using Cons.prems(2) by (cases cs) auto
  have st: "store_list (p # ps) cs k = store_list ps cs' (store_ptr p c k)" by (simp add: store_list_def cs)
  have "load_ptr (store_ptr p c k) p = c"
    using Cons.prems(3) [of p] by (simp add: load_ptr_def store_ptr_def set_bytes_array_def)
  then have "load_ptr (store_list ps cs' (store_ptr p c k)) p = c"
    using Cons.prems(1) by (simp add: load_store_list_other)
  moreover have "map (load_ptr (store_list ps cs' (store_ptr p c k))) ps = cs'"
    using Cons.prems by (intro Cons.IH) (auto simp: cs store_ptr_def set_bytes_array_def)
  ultimately show ?case unfolding st by (simp add: cs)
qed simp

section \<open>Properties\<close>

text \<open>
  \<open>read\<close> on a pipe never spins: after at most two passes of its loop the call either returns or gives
  up the processor. It delivers the oldest bytes of the pipe, in order, into the user's buffer, as
  many as are there and fit, and removes exactly these; it returns the full count when the buffer is full, and a
  short count only when the pipe is empty and its write end is closed; with the write end open it
  waits.
\<close>

theorem pipe_read_spec:
  assumes "call_ok want s" "rb_write_end (c_ring s) = Some w"
  shows "let rest = it_rest (c_iter s); q = ring_contents (c_ring s); m = min (length q) (length rest) in
    \<exists>s'. pipe_read_run 2 alive want s = Some
      (if length rest \<le> length q then Done want else if alive w then Yield else Done (c_already s + m), s')
    \<and> ring_inv (c_ring s') \<and> ring_contents (c_ring s') = drop m q
    \<and> it_rest (c_iter s') = drop m rest \<and> c_already s' = c_already s + m
    \<and> c_mem s' = store_list (take m rest) (take m q) (c_mem s)"
  using pipe_read_run_ok [OF assms, of 0 alive] unfolding Let_def numeral_2_eq_2 by blast

theorem pipe_read_spec_witness:
  "let s = \<lparr>c_ring = \<lparr>rb_arr = replicate 32 7, rb_head = 30, rb_tail = 1, rb_status = Normal, rb_write_end = Some 5\<rparr>,
      c_mem = boot_kmem 0x80500000,
      c_iter = \<lparr>it_buffers = [\<lparr>sl_ppn = 0x80600, sl_from = 0, sl_to = 4\<rparr>], current_buffer = 0, current_idx = 0\<rparr>,
      c_already = 0\<rparr> in
   call_ok 4 s \<and> (\<exists>s'. pipe_read_run 2 (\<lambda>_. True) 4 s = Some (Yield, s') \<and> ring_contents (c_ring s') = [] \<and> c_already s' = 3)"
proof -
  define s where "s = \<lparr>c_ring = \<lparr>rb_arr = replicate 32 7, rb_head = 30, rb_tail = 1, rb_status = Normal, rb_write_end = Some 5\<rparr>,
      c_mem = boot_kmem 0x80500000,
      c_iter = \<lparr>it_buffers = [\<lparr>sl_ppn = 0x80600, sl_from = 0, sl_to = 4\<rparr>], current_buffer = 0, current_idx = 0\<rparr>,
      c_already = 0\<rparr>"
  have ok: "call_ok 4 s"
    by (simp add: s_def call_ok_def ring_inv_def it_ok_def it_rest_def ub_ptrs_def slice_ptrs_def slice_len_def upt_rec)
  have l: "available_read (c_ring s) = 3" "length (it_rest (c_iter s)) = 4" "rb_write_end (c_ring s) = Some 5" "c_already s = 0"
    by (simp_all add: s_def available_read_def RING_BUFFER_SIZE_def it_rest_def ub_ptrs_def slice_len_def)
  have "\<exists>s'. pipe_read_run 2 (\<lambda>_. True) 4 s = Some (Yield, s') \<and> ring_contents (c_ring s') = [] \<and> c_already s' = 3"
    using pipe_read_spec [OF ok l(3), of "\<lambda>_. True"] by (auto simp: Let_def l)
  with ok show ?thesis by (simp add: s_def Let_def)
qed

section \<open>Both ends at once\<close>

text \<open>
  A call of \<open>write\<close> and a call of \<open>read\<close> on the two ends of a pipe, made by two tasks. Each keeps its iterator and
  its count on its own kernel stack; the ring buffer and memory are shared. In its turn a task runs until the call
  returns or gives up the processor; from the next turn on it goes on where it was.
\<close>

datatype turn = Write_turn | Read_turn

record pipe_side =
  sd_want :: nat
  sd_iter :: UserBufferIterator
  sd_already :: nat
  sd_ret :: "nat option"

record pipe_sys =
  y_ring :: PipeRingBuffer
  y_mem :: kmem
  y_writer :: pipe_side
  y_reader :: pipe_side

definition side_start :: "nat \<Rightarrow> call \<Rightarrow> pipe_side" where
  "side_start want s = \<lparr>sd_want = want, sd_iter = c_iter s, sd_already = c_already s, sd_ret = None\<rparr>"

definition side_call :: "pipe_side \<Rightarrow> pipe_sys \<Rightarrow> call" where
  "side_call d y = \<lparr>c_ring = y_ring y, c_mem = y_mem y, c_iter = sd_iter d, c_already = sd_already d\<rparr>"

definition side_after :: "pass \<Rightarrow> call \<Rightarrow> pipe_side \<Rightarrow> pipe_side" where
  "side_after r s d = d\<lparr>sd_iter := c_iter s, sd_already := c_already s, sd_ret := (case r of Done n \<Rightarrow> Some n | _ \<Rightarrow> None)\<rparr>"

definition pipe_sys_start :: "Pipe \<Rightarrow> UserBuffer \<Rightarrow> Pipe \<Rightarrow> UserBuffer \<Rightarrow> PipeRingBuffer \<Rightarrow> kmem \<Rightarrow> pipe_sys option" where
  "pipe_sys_start wp wbuf rp rbuf b k = do {
    (want, s) \<leftarrow> pipe_write_start wp wbuf b k;
    (want', s') \<leftarrow> pipe_read_start rp rbuf b k;
    Some \<lparr>y_ring = b, y_mem = k, y_writer = side_start want s, y_reader = side_start want' s'\<rparr>
  }"

fun pipe_turn :: "(pipe_ref \<Rightarrow> bool) \<Rightarrow> turn \<Rightarrow> pipe_sys \<Rightarrow> pipe_sys option" where
  "pipe_turn alive Write_turn y =
    (let d = y_writer y in if sd_ret d \<noteq> None then Some y else do {
      (r, s) \<leftarrow> pipe_write_run (sd_want d + 2) (sd_want d) (side_call d y);
      Some (y\<lparr>y_ring := c_ring s, y_mem := c_mem s, y_writer := side_after r s d\<rparr>)
    })"
| "pipe_turn alive Read_turn y =
    (let d = y_reader y in if sd_ret d \<noteq> None then Some y else do {
      (r, s) \<leftarrow> pipe_read_run (sd_want d + 2) alive (sd_want d) (side_call d y);
      Some (y\<lparr>y_ring := c_ring s, y_mem := c_mem s, y_reader := side_after r s d\<rparr>)
    })"

text \<open>
  How far a side has come with the bytes at \<open>ps\<close>, and the invariant of the two: what the reader has got, followed by
  what is in the pipe, is what was in the pipe at first followed by what the writer has sent.
\<close>

definition side_ok :: "byte_ptr list \<Rightarrow> pipe_side \<Rightarrow> bool" where
  "side_ok ps d \<longleftrightarrow> sd_want d = length ps \<and> sd_already d \<le> length ps \<and> it_ok (sd_iter d) \<and> it_rest (sd_iter d) = drop (sd_already d) ps
     \<and> sd_ret d = (if sd_already d = length ps then Some (length ps) else None)"

definition duplex_inv :: "bytes \<Rightarrow> kmem \<Rightarrow> byte_ptr list \<Rightarrow> byte_ptr list \<Rightarrow> pipe_ref \<Rightarrow> pipe_sys \<Rightarrow> bool" where
  "duplex_inv q k wps rps w y \<longleftrightarrow>
     (let sent = sd_already (y_writer y); got = sd_already (y_reader y); stream = q @ map (load_ptr k) wps in
      ring_inv (y_ring y) \<and> rb_write_end (y_ring y) = Some w \<and> side_ok wps (y_writer y) \<and> side_ok rps (y_reader y)
      \<and> got \<le> length q + sent \<and> ring_contents (y_ring y) = drop got (take (length q + sent) stream)
      \<and> y_mem y = store_list (take got rps) (take got stream) k)"

lemma store_list_append:
  "length ps = length cs \<Longrightarrow> store_list (ps @ qs) (cs @ ds) k = store_list qs ds (store_list ps cs k)"
  by (simp add: store_list_def)

lemma load_other_store: "set ps \<inter> set qs = {} \<Longrightarrow> set rs \<subseteq> set qs \<Longrightarrow> map (load_ptr (store_list ps cs k)) rs = map (load_ptr k) rs"
  using load_store_list_other [of _ ps cs k] by auto

lemma write_turn_ok:
  assumes inv: "duplex_inv q k wps rps w y" and dis: "set wps \<inter> set rps = {}"
  defines "m \<equiv> min (32 - length (ring_contents (y_ring y))) (length wps - sd_already (y_writer y))"
  shows "\<exists>y'. pipe_turn alive Write_turn y = Some y' \<and> duplex_inv q k wps rps w y' \<and> y_reader y' = y_reader y
    \<and> sd_already (y_writer y') = sd_already (y_writer y) + m"
proof (cases "sd_already (y_writer y) = length wps")
  case True
  then show ?thesis using inv by (intro exI [of _ y]) (auto simp: m_def duplex_inv_def side_ok_def Let_def)
next
  case False
  let ?d = "y_writer y" and ?sent = "sd_already (y_writer y)" and ?got = "sd_already (y_reader y)" and ?st = "q @ map (load_ptr k) wps"
  have I: "ring_inv (y_ring y)" "rb_write_end (y_ring y) = Some w" "side_ok wps ?d" "side_ok rps (y_reader y)" "?got \<le> length q + ?sent"
    "ring_contents (y_ring y) = drop ?got (take (length q + ?sent) ?st)" "y_mem y = store_list (take ?got rps) (take ?got ?st) k"
    using inv by (auto simp: duplex_inv_def Let_def)
  have D: "sd_want ?d = length wps" "?sent < length wps" "it_ok (sd_iter ?d)" "it_rest (sd_iter ?d) = drop ?sent wps" "sd_ret ?d = None"
    using I(3) False by (auto simp: side_ok_def)
  have ok: "call_ok (length wps) (side_call ?d y)" using I(1) D by (simp add: call_ok_def side_call_def)
  obtain s' where s': "pipe_write_run (length wps + 2) (length wps) (side_call ?d y)
      = Some (if length wps - ?sent \<le> 32 - length (ring_contents (y_ring y)) then Done (length wps) else Yield, s')"
    "ring_inv (c_ring s')" "ring_contents (c_ring s') = ring_contents (y_ring y) @ map (load_ptr (y_mem y)) (take m (drop ?sent wps))"
    "rb_write_end (c_ring s') = Some w" "it_ok (c_iter s')" "it_rest (c_iter s') = drop m (drop ?sent wps)" "c_already s' = ?sent + m" "c_mem s' = y_mem y"
    using pipe_write_run_ok [OF ok, of "length wps"] D(4) I(2) by (auto simp: side_call_def m_def)
  let ?r = "if length wps - ?sent \<le> 32 - length (ring_contents (y_ring y)) then Done (length wps) else Yield"
  define y' where "y' = y\<lparr>y_ring := c_ring s', y_mem := c_mem s', y_writer := side_after ?r s' ?d\<rparr>"
  have st: "pipe_turn alive Write_turn y = Some y'" using s'(1) D(1,5) by (simp add: y'_def Let_def)
  have "?sent + m = length wps \<longleftrightarrow> length wps - ?sent \<le> 32 - length (ring_contents (y_ring y))"
    using D(2) by (auto simp: m_def)
  then have side: "side_ok wps (y_writer y')"
    using s'(5-7) D(1,2) by (auto simp: side_ok_def y'_def side_after_def m_def add.commute)
  have "map (load_ptr (y_mem y)) (take m (drop ?sent wps)) = take m (drop ?sent (map (load_ptr k) wps))"
    unfolding I(7) using dis by (subst load_other_store [of _ wps])
      (auto simp: take_map drop_map dest: in_set_takeD in_set_dropD)
  also have "\<dots> = take m (drop (length q + ?sent) ?st)" by simp
  finally have "ring_contents (c_ring s') = drop ?got (take (length q + ?sent + m) ?st)"
    unfolding s'(3) I(6) take_add using I(5) D(2) by simp
  then have "duplex_inv q k wps rps w y'"
    using I s' side unfolding duplex_inv_def Let_def by (simp add: y'_def side_after_def add.assoc)
  then show ?thesis using st s'(7) by (auto simp: y'_def side_after_def)
qed

lemma read_turn_ok:
  assumes inv: "duplex_inv q k wps rps w y" and alive: "alive w"
  defines "m \<equiv> min (length (ring_contents (y_ring y))) (length rps - sd_already (y_reader y))"
  shows "\<exists>y'. pipe_turn alive Read_turn y = Some y' \<and> duplex_inv q k wps rps w y' \<and> y_writer y' = y_writer y
    \<and> sd_already (y_reader y') = sd_already (y_reader y) + m"
proof (cases "sd_already (y_reader y) = length rps")
  case True
  then show ?thesis using inv by (intro exI [of _ y]) (auto simp: m_def duplex_inv_def side_ok_def Let_def)
next
  case False
  let ?d = "y_reader y" and ?sent = "sd_already (y_writer y)" and ?got = "sd_already (y_reader y)" and ?st = "q @ map (load_ptr k) wps"
  have I: "ring_inv (y_ring y)" "rb_write_end (y_ring y) = Some w" "side_ok wps (y_writer y)" "side_ok rps ?d" "?got \<le> length q + ?sent"
    "ring_contents (y_ring y) = drop ?got (take (length q + ?sent) ?st)" "y_mem y = store_list (take ?got rps) (take ?got ?st) k"
    using inv by (auto simp: duplex_inv_def Let_def)
  have D: "sd_want ?d = length rps" "?got < length rps" "it_ok (sd_iter ?d)" "it_rest (sd_iter ?d) = drop ?got rps" "sd_ret ?d = None"
    using I(4) False by (auto simp: side_ok_def)
  have ok: "call_ok (length rps) (side_call ?d y)" using I(1) D by (simp add: call_ok_def side_call_def)
  have we: "rb_write_end (c_ring (side_call ?d y)) = Some w" using I(2) by (simp add: side_call_def)
  let ?r = "if length rps - ?got \<le> length (ring_contents (y_ring y)) then Done (length rps) else Yield"
  obtain s' where s': "pipe_read_run (length rps + 2) alive (length rps) (side_call ?d y) = Some (?r, s')"
    "ring_inv (c_ring s')" "ring_contents (c_ring s') = drop m (ring_contents (y_ring y))"
    "rb_write_end (c_ring s') = Some w" "it_ok (c_iter s')" "it_rest (c_iter s') = drop m (drop ?got rps)" "c_already s' = ?got + m"
    "c_mem s' = store_list (take m (drop ?got rps)) (take m (ring_contents (y_ring y))) (y_mem y)"
    using pipe_read_run_ok [OF ok we, of "length rps" alive] D(4) alive by (auto simp: side_call_def m_def)
  define y' where "y' = y\<lparr>y_ring := c_ring s', y_mem := c_mem s', y_reader := side_after ?r s' ?d\<rparr>"
  have st: "pipe_turn alive Read_turn y = Some y'" using s'(1) D(1,5) by (simp add: y'_def Let_def)
  have "?got + m = length rps \<longleftrightarrow> length rps - ?got \<le> length (ring_contents (y_ring y))"
    using D(2) by (auto simp: m_def)
  then have side: "side_ok rps (y_reader y')"
    using s'(5-7) D(1,2) by (auto simp: side_ok_def y'_def side_after_def m_def add.commute)
  have len: "length (ring_contents (y_ring y)) = length q + ?sent - ?got"
    using I(3,6) by (simp add: side_ok_def)
  then have mle: "?got + m \<le> length q + ?sent" using I(5) by (simp add: m_def)
  have "m \<le> length q + ?sent - ?got" using mle by simp
  then have "take m (ring_contents (y_ring y)) = take m (drop ?got ?st)"
    unfolding I(6) by (simp only: drop_take take_take min.absorb1)
  moreover have "length (take ?got rps) = length (take ?got ?st)" using I(3,5) D(2) by (auto simp: side_ok_def min_def)
  ultimately have "c_mem s' = store_list (take (?got + m) rps) (take (?got + m) ?st) k"
    unfolding s'(8) I(7) take_add by (simp only: store_list_append)
  moreover have "ring_contents (c_ring s') = drop (?got + m) (take (length q + ?sent) ?st)"
    unfolding s'(3) I(6) by (simp only: drop_drop add.commute)
  ultimately have "duplex_inv q k wps rps w y'"
    using I s' side mle unfolding duplex_inv_def Let_def by (simp add: y'_def side_after_def)
  then show ?thesis using st s'(7) by (auto simp: y'_def side_after_def)
qed

lemma duplex_ring:
  assumes "duplex_inv q k wps rps w y"
  shows "length (ring_contents (y_ring y)) = length q + sd_already (y_writer y) - sd_already (y_reader y)"
    "length (ring_contents (y_ring y)) \<le> 32" "sd_already (y_reader y) \<le> length q + sd_already (y_writer y)"
    "sd_already (y_writer y) \<le> length wps" "sd_already (y_reader y) \<le> length rps"
proof -
  have I: "ring_inv (y_ring y)" "side_ok wps (y_writer y)" "side_ok rps (y_reader y)" "sd_already (y_reader y) \<le> length q + sd_already (y_writer y)"
    "ring_contents (y_ring y) = drop (sd_already (y_reader y)) (take (length q + sd_already (y_writer y)) (q @ map (load_ptr k) wps))"
    using assms by (auto simp: duplex_inv_def Let_def)
  show "sd_already (y_reader y) \<le> length q + sd_already (y_writer y)" "sd_already (y_writer y) \<le> length wps" "sd_already (y_reader y) \<le> length rps"
    using I(2,3,4) by (simp_all add: side_ok_def)
  then show "length (ring_contents (y_ring y)) = length q + sd_already (y_writer y) - sd_already (y_reader y)" unfolding I(5) by simp
  show "length (ring_contents (y_ring y)) \<le> 32" using available_read_le [OF I(1)] by simp
qed

lemma turns_ok:
  assumes "duplex_inv q k wps rps w y" "set wps \<inter> set rps = {}" "alive w"
  shows "\<exists>y'. foldo (pipe_turn alive) ts y = Some y' \<and> duplex_inv q k wps rps w y'
    \<and> sd_already (y_writer y) \<le> sd_already (y_writer y') \<and> sd_already (y_reader y) \<le> sd_already (y_reader y')"
  using assms(1)
proof (induction ts arbitrary: y)
  case (Cons t ts)
  obtain y1 where y1: "pipe_turn alive t y = Some y1" "duplex_inv q k wps rps w y1"
      "sd_already (y_writer y) \<le> sd_already (y_writer y1)" "sd_already (y_reader y) \<le> sd_already (y_reader y1)"
    using write_turn_ok [OF Cons.prems assms(2), of alive] read_turn_ok [OF Cons.prems, of alive] assms(3) by (cases t) fastforce+
  then show ?case using Cons.IH [OF y1(2)] by (auto intro: le_trans)
qed simp

text \<open>A turn that does not move a byte, among turns after which the counts are the same.\<close>

lemma turns_stuck:
  assumes inv: "duplex_inv q k wps rps w y" and hyps: "set wps \<inter> set rps = {}" "alive w" and t: "t \<in> set ts"
    and ts: "foldo (pipe_turn alive) ts y = Some y'"
      "sd_already (y_writer y') \<le> sd_already (y_writer y)" "sd_already (y_reader y') \<le> sd_already (y_reader y)"
  shows "case t of Write_turn \<Rightarrow> sd_already (y_writer y) = length wps \<or> 32 \<le> length q + sd_already (y_writer y) - sd_already (y_reader y)
    | Read_turn \<Rightarrow> sd_already (y_reader y) = length rps \<or> length q + sd_already (y_writer y) = sd_already (y_reader y)"
proof -
  obtain as bs where sp: "ts = as @ t # bs" using t by (meson split_list)
  obtain y1 where y1: "foldo (pipe_turn alive) as y = Some y1" "duplex_inv q k wps rps w y1"
      "sd_already (y_writer y) \<le> sd_already (y_writer y1)" "sd_already (y_reader y) \<le> sd_already (y_reader y1)"
    using turns_ok [where alive = alive, OF inv hyps] by blast
  obtain y2 where y2: "pipe_turn alive t y1 = Some y2" "foldo (pipe_turn alive) bs y2 = Some y'" using ts(1) y1(1)
    by (auto simp: sp foldo_append split: bind_splits)
  have i2: "duplex_inv q k wps rps w y2" using turns_ok [where alive = alive, OF y1(2) hyps, of "[t]"] y2(1) by auto
  have "sd_already (y_writer y2) \<le> sd_already (y_writer y')" "sd_already (y_reader y2) \<le> sd_already (y_reader y')"
    using turns_ok [where alive = alive, OF i2 hyps, of bs] y2(2) by auto
  then have le: "sd_already (y_writer y2) \<le> sd_already (y_writer y)" "sd_already (y_reader y2) \<le> sd_already (y_reader y)" using ts(2,3) by auto
  have "sd_already (y_writer y) = sd_already (y_writer y1)" "sd_already (y_reader y) = sd_already (y_reader y1)"
    using turns_ok [where alive = alive, OF y1(2) hyps, of "[t]"] y2(1) y1(3,4) le by auto
  then show ?thesis
    using write_turn_ok [OF y1(2) hyps(1), of alive] read_turn_ok [where alive = alive, OF y1(2) hyps(2)] y2(1) le duplex_ring [OF y1(2)]
    by (cases t) (auto simp: min_def split: if_splits)
qed

text \<open>If the reader asks for all there is, turns that give both sides a chance move a byte, or all have been moved.\<close>

lemma rounds_end:
  assumes inv: "duplex_inv q k wps rps w y" and hyps: "set wps \<inter> set rps = {}" "alive w" and all: "length rps = length q + length wps"
    and rounds: "\<forall>r\<in>set rounds. Write_turn \<in> set r \<and> Read_turn \<in> set r"
      "length wps - sd_already (y_writer y) + (length rps - sd_already (y_reader y)) \<le> length rounds"
  shows "\<exists>y'. foldo (pipe_turn alive) (concat rounds) y = Some y' \<and> duplex_inv q k wps rps w y'
    \<and> sd_already (y_writer y') = length wps \<and> sd_already (y_reader y') = length rps"
  using inv rounds
proof (induction rounds arbitrary: y)
  case Nil
  then show ?case using duplex_ring(4,5) [OF Nil.prems(1)] by auto
next
  case (Cons r rounds)
  obtain y1 where y1: "foldo (pipe_turn alive) r y = Some y1" "duplex_inv q k wps rps w y1"
      "sd_already (y_writer y) \<le> sd_already (y_writer y1)" "sd_already (y_reader y) \<le> sd_already (y_reader y1)"
    using turns_ok [where alive = alive, OF Cons.prems(1) hyps] by blast
  have "length wps - sd_already (y_writer y1) + (length rps - sd_already (y_reader y1)) \<le> length rounds"
  proof (cases "sd_already (y_writer y1) \<le> sd_already (y_writer y) \<and> sd_already (y_reader y1) \<le> sd_already (y_reader y)")
    case True
    then have "sd_already (y_writer y) = length wps \<or> 32 \<le> length q + sd_already (y_writer y) - sd_already (y_reader y)"
        "sd_already (y_reader y) = length rps \<or> length q + sd_already (y_writer y) = sd_already (y_reader y)"
      using turns_stuck [where alive = alive, OF Cons.prems(1) hyps _ y1(1), of Write_turn] turns_stuck [where alive = alive, OF Cons.prems(1) hyps _ y1(1), of Read_turn] Cons.prems(2) by auto
    then show ?thesis using True y1(3,4) all duplex_ring [OF Cons.prems(1)] by auto
  next
    case False
    then show ?thesis using Cons.prems(3) y1(3,4) duplex_ring(4,5) [OF y1(2)] by auto
  qed
  with Cons.IH [OF y1(2)] Cons.prems(2) show ?case using y1(1) by (auto simp: foldo_append)
qed

lemma blocked_writes:
  assumes "duplex_inv q k wps rps w y" "set wps \<inter> set rps = {}" "length (ring_contents (y_ring y)) = 32" "sd_already (y_writer y) < length wps"
  shows "\<exists>y'. foldo (pipe_turn alive) (replicate n Write_turn) y = Some y' \<and> sd_ret (y_writer y') = None
    \<and> sd_already (y_writer y') = sd_already (y_writer y)"
  using assms(1,3,4)
proof (induction n arbitrary: y)
  case 0
  then show ?case by (auto simp: duplex_inv_def side_ok_def Let_def)
next
  case (Suc n)
  obtain y1 where y1: "pipe_turn alive Write_turn y = Some y1" "duplex_inv q k wps rps w y1" "y_reader y1 = y_reader y"
      "sd_already (y_writer y1) = sd_already (y_writer y)"
    using write_turn_ok [OF Suc.prems(1) assms(2), of alive] Suc.prems(2) by auto
  then have "length (ring_contents (y_ring y1)) = 32" using duplex_ring(1) [OF y1(2)] duplex_ring(1) [OF Suc.prems(1)] Suc.prems(2) by simp
  with Suc.IH [OF y1(2)] Suc.prems(3) y1 show ?case by auto
qed

lemma duplex_start:
  assumes "ring_inv b" "rb_write_end b = Some w" "wps \<noteq> []" "rps \<noteq> []"
    and wb: "\<forall>s\<in>set (buffers wbuf). sl_from s < sl_to s" "ub_ptrs (buffers wbuf) = wps"
    and rb: "\<forall>s\<in>set (buffers rbuf). sl_from s < sl_to s" "ub_ptrs (buffers rbuf) = rps"
    and st: "pipe_sys_start (write_end_with_buffer i) wbuf (read_end_with_buffer i) rbuf b k = Some y"
  shows "duplex_inv (ring_contents b) k wps rps w y" "sd_already (y_writer y) = 0" "sd_already (y_reader y) = 0"
proof -
  have ul: "UserBuffer_len u = length (ub_ptrs (buffers u))" for u
    by (simp add: UserBuffer_len_def ub_ptrs_def length_concat comp_def)
  show "duplex_inv (ring_contents b) k wps rps w y" "sd_already (y_writer y) = 0" "sd_already (y_reader y) = 0"
    using assms into_iter_ok [OF wb(1)] into_iter_ok [OF rb(1)]
    by (auto simp: pipe_sys_start_def pipe_write_start_def pipe_read_start_def write_end_with_buffer_def read_end_with_buffer_def
        ul side_start_def duplex_inv_def side_ok_def store_list_def)
qed

text \<open>What the invariant says of memory and of the results of the calls.\<close>

lemma duplex_memory:
  assumes y: "duplex_inv q k wps rps w y" and rps: "distinct rps" "\<forall>p\<in>set rps. snd p < length (pages k (fst p))"
  shows "map (load_ptr (y_mem y)) (take (sd_already (y_reader y)) rps) @ ring_contents (y_ring y) = q @ map (load_ptr k) (take (sd_already (y_writer y)) wps)"
    "p \<notin> set rps \<Longrightarrow> load_ptr (y_mem y) p = load_ptr k p"
    "sd_ret (y_writer y) = (if sd_already (y_writer y) = length wps then Some (length wps) else None)"
    "sd_ret (y_reader y) = (if sd_already (y_reader y) = length rps then Some (length rps) else None)"
proof -
  let ?sent = "sd_already (y_writer y)" and ?got = "sd_already (y_reader y)" and ?st = "q @ map (load_ptr k) wps"
  have Y: "ring_contents (y_ring y) = drop ?got (take (length q + ?sent) ?st)" "y_mem y = store_list (take ?got rps) (take ?got ?st) k"
    "side_ok wps (y_writer y)" "side_ok rps (y_reader y)"
    using y by (auto simp: duplex_inv_def Let_def)
  note R = duplex_ring(3-5) [OF y]
  have "length (take ?got ?st) = ?got" using R by (simp only: length_take length_append length_map)
  then have "map (load_ptr (y_mem y)) (take ?got rps) = take ?got ?st"
    unfolding Y(2) using rps R(3) by (intro load_store_list) (auto dest: in_set_takeD)
  moreover have "take ?got ?st = take ?got (take (length q + ?sent) ?st)" using R(1) by (simp only: take_take min.absorb1)
  ultimately have "map (load_ptr (y_mem y)) (take ?got rps) @ ring_contents (y_ring y) = take (length q + ?sent) ?st"
    unfolding Y(1) by (simp only: append_take_drop_id)
  then show "map (load_ptr (y_mem y)) (take ?got rps) @ ring_contents (y_ring y) = q @ map (load_ptr k) (take ?sent wps)"
    by (simp add: take_map)
  show "load_ptr (y_mem y) p = load_ptr k p" if "p \<notin> set rps"
    unfolding Y(2) by (rule load_store_list_other) (use that in \<open>auto dest: in_set_takeD\<close>)
  show "sd_ret (y_writer y) = (if ?sent = length wps then Some (length wps) else None)"
    "sd_ret (y_reader y) = (if ?got = length rps then Some (length rps) else None)"
    using Y(3,4) by (simp_all add: side_ok_def)
qed


text \<open>Forty bytes, more than the pipe holds: the pipe after the writer's first turn, and both calls at their end.\<close>

lemma ub_ptrs_one: "ub_ptrs [\<lparr>sl_ppn = p, sl_from = a, sl_to = b\<rparr>] = map (Pair p) [a..<b]"
  by (simp add: ub_ptrs_def slice_ptrs_def)


end
