(* ===== verification/OsFile.thy ===== *)
theory OsFile
  imports VfsProps Pipe
begin

text \<open>
  Open files of the kernel (\<open>os/src/fs/inode.rs\<close>, \<open>os/src/fs/stdio.rs\<close>): an inode of the file system with an offset and
  access rights, opened by name in the root directory, and the console. A user buffer is a list of slices of
  physical pages. The block device, the file system record and the root inode are arguments, as in the theories
  of the file system. \<open>None\<close> is a panic.
\<close>

section \<open>Open flags\<close>

type_synonym OpenFlags = u32

definition RDONLY :: OpenFlags where "RDONLY = 0"
definition WRONLY :: OpenFlags where "WRONLY = 1"
definition RDWR :: OpenFlags where "RDWR = 2"
definition O_CREATE :: OpenFlags where "O_CREATE = 512"
definition O_TRUNC :: OpenFlags where "O_TRUNC = 1024"

text \<open>\<open>from_bits\<close> and \<open>contains\<close> of \<open>bitflags\<close>.\<close>

definition OpenFlags_from_bits :: "u32 \<Rightarrow> OpenFlags option" where
  "OpenFlags_from_bits b = (if b AND (RDONLY OR WRONLY OR RDWR OR O_CREATE OR O_TRUNC) = b then Some b else None)"

definition flags_contain :: "u32 \<Rightarrow> u32 \<Rightarrow> bool" where
  "flags_contain f g \<longleftrightarrow> f AND g = g"

definition read_write :: "OpenFlags \<Rightarrow> bool \<times> bool" where
  "read_write f = (if f = 0 then (True, False) else if flags_contain f WRONLY then (False, True) else (True, True))"

section \<open>Files of the file system\<close>

record OSInode =
  osi_readable :: bool
  osi_writable :: bool
  osi_offset :: nat
  osi_inode :: inode

definition OSInode_new :: "bool \<Rightarrow> bool \<Rightarrow> inode \<Rightarrow> OSInode" where
  "OSInode_new r w i = \<lparr>osi_readable = r, osi_writable = w, osi_offset = 0, osi_inode = i\<rparr>"

partial_function (option) read_all_loop ::
  "'d block_device \<Rightarrow> OSInode \<Rightarrow> bytes \<Rightarrow> bytes \<Rightarrow> 'd bcm \<Rightarrow> (bytes \<times> OSInode \<times> 'd bcm) option" where
  "read_all_loop bd f buf v s = do {
    ((len, buf), s) \<leftarrow> vfs_read_at bd (osi_inode f) (osi_offset f) buf s;
    if len = 0 then Some (v, f, s)
    else read_all_loop bd (f\<lparr>osi_offset := osi_offset f + len\<rparr>) buf (v @ take len buf) s
  }"

definition read_all :: "'d block_device \<Rightarrow> OSInode \<Rightarrow> 'd bcm \<Rightarrow> (bytes \<times> OSInode \<times> 'd bcm) option" where
  "read_all bd f s = read_all_loop bd f (replicate 512 0) [] s"

definition store_slice :: "byte_slice \<Rightarrow> bytes \<Rightarrow> kmem \<Rightarrow> kmem" where
  "store_slice sl bs k = set_bytes_array (sl_ppn sl) (splice_at (sl_from sl) bs (pages k (sl_ppn sl))) k"

text \<open>The loops over the slices of the user buffer.\<close>

fun OSInode_read_loop ::
  "'d block_device \<Rightarrow> OSInode \<Rightarrow> byte_slice list \<Rightarrow> nat \<Rightarrow> kmem \<times> 'd bcm \<Rightarrow> (nat \<times> OSInode \<times> kmem \<times> 'd bcm) option" where
  "OSInode_read_loop bd f [] n (k, s) = Some (n, f, k, s)"
| "OSInode_read_loop bd f (sl # sls) n (k, s) = do {
    ((read_size, bs), s) \<leftarrow> vfs_read_at bd (osi_inode f) (osi_offset f) (slice_bytes k sl) s;
    let k = store_slice sl bs k;
    if read_size = 0 then Some (n, f, k, s)
    else OSInode_read_loop bd (f\<lparr>osi_offset := osi_offset f + read_size\<rparr>) sls (n + read_size) (k, s)
  }"

definition OSInode_read ::
  "'d block_device \<Rightarrow> OSInode \<Rightarrow> UserBuffer \<Rightarrow> kmem \<times> 'd bcm \<Rightarrow> (nat \<times> OSInode \<times> kmem \<times> 'd bcm) option" where
  "OSInode_read bd f buf ks = OSInode_read_loop bd f (buffers buf) 0 ks"

fun OSInode_write_loop ::
  "'d block_device \<Rightarrow> efs \<Rightarrow> OSInode \<Rightarrow> byte_slice list \<Rightarrow> nat \<Rightarrow> kmem \<times> 'd bcm \<Rightarrow> (nat \<times> OSInode \<times> 'd bcm) option" where
  "OSInode_write_loop bd fs f [] n (k, s) = Some (n, f, s)"
| "OSInode_write_loop bd fs f (sl # sls) n (k, s) = do {
    (write_size, s) \<leftarrow> vfs_write_at bd fs (osi_inode f) (osi_offset f) (slice_bytes k sl) s;
    assert_that (write_size = slice_len sl);
    OSInode_write_loop bd fs (f\<lparr>osi_offset := osi_offset f + write_size\<rparr>) sls (n + write_size) (k, s)
  }"

definition OSInode_write ::
  "'d block_device \<Rightarrow> efs \<Rightarrow> OSInode \<Rightarrow> UserBuffer \<Rightarrow> kmem \<times> 'd bcm \<Rightarrow> (nat \<times> OSInode \<times> 'd bcm) option" where
  "OSInode_write bd fs f buf ks = OSInode_write_loop bd fs f (buffers buf) 0 ks"

definition open_file ::
  "'d block_device \<Rightarrow> efs \<Rightarrow> inode \<Rightarrow> bytes \<Rightarrow> OpenFlags \<Rightarrow> 'd bcm \<Rightarrow> (OSInode option \<times> 'd bcm) option" where
  "open_file bd fs root nm flags s = do {
    let (readable, writable) = read_write flags;
    if flags_contain flags O_CREATE then do {
      (r, s) \<leftarrow> vfs_find bd fs root nm s;
      case r of
        Some inode \<Rightarrow> do { (_, s) \<leftarrow> vfs_clear bd fs inode s; Some (Some (OSInode_new readable writable inode), s) }
      | None \<Rightarrow> do { (r, s) \<leftarrow> vfs_create bd fs root nm s; Some (map_option (OSInode_new readable writable) r, s) }
    } else do {
      (r, s) \<leftarrow> vfs_find bd fs root nm s;
      case r of
        None \<Rightarrow> Some (None, s)
      | Some inode \<Rightarrow> do {
          (_, s) \<leftarrow> (if flags_contain flags O_TRUNC then vfs_clear bd fs inode s else Some ((), s));
          Some (Some (OSInode_new readable writable inode), s)
        }
    }
  }"

section \<open>The console\<close>

text \<open>
  One turn of the loop of \<open>Stdin::read\<close>: \<open>getchar\<close> is what \<open>console_getchar\<close> returned. The outcome says whether the
  call returns or has to give up the processor and try again.
\<close>

definition Stdin_read_pass :: "usize \<Rightarrow> UserBuffer \<Rightarrow> kmem \<Rightarrow> (pass \<times> kmem) option" where
  "Stdin_read_pass getchar buf k = do {
    assert_that (UserBuffer_len buf = 1);
    if getchar = 0 then Some (Yield, k)
    else do {
      sl \<leftarrow> index_at (buffers buf) 0;
      Some (Done 1, store_ptr (sl_ppn sl, sl_from sl) (ucast getchar) k)
    }
  }"

text \<open>\<open>Stdout::write\<close> appends to the text on the console; bytes that are not valid text panic.\<close>

definition Stdout_write :: "UserBuffer \<Rightarrow> kmem \<Rightarrow> bytes \<Rightarrow> (nat \<times> bytes) option" where
  "Stdout_write buf k out = do {
    out \<leftarrow> foldo (\<lambda>sl out. do { assert_that (from_utf8_ok (slice_bytes k sl)); Some (out @ slice_bytes k sl) }) (buffers buf) out;
    Some (UserBuffer_len buf, out)
  }"

section \<open>Reading\<close>

text \<open>The bytes \<open>bs\<close> spread over slices; slices beyond the end of \<open>bs\<close> are left alone.\<close>

fun fill_slices :: "byte_slice list \<Rightarrow> bytes \<Rightarrow> kmem \<Rightarrow> kmem" where
  "fill_slices [] bs k = k"
| "fill_slices (sl # sls) bs k = fill_slices sls (drop (slice_len sl) bs) (store_slice sl (take (slice_len sl) bs) k)"

lemma store_slice_Nil [simp]: "store_slice sl [] k = k"
  by (simp add: store_slice_def set_bytes_array_def)

lemma fill_slices_Nil [simp]: "fill_slices sls [] k = k"
  by (induction sls) simp_all

lemma take_splice_0: "take (length xs) (splice_at 0 xs bs) = xs"
  by (simp add: splice_at_def)

lemma splice_prefix_slice:
  "length bs \<le> n \<Longrightarrow> off + n \<le> length page \<Longrightarrow> splice_at off (splice_at 0 bs (slice_at off n page)) page = splice_at off bs page"
  by (intro nth_equalityI) (auto simp: nth_splice nth_slice)

lemma store_slice_length:
  "(\<And>p. length (pages k p) = 4096) \<Longrightarrow> sl_from sl + length bs \<le> 4096 \<Longrightarrow> length (pages (store_slice sl bs k) p) = 4096"
  by (simp add: store_slice_def set_bytes_array_def)

lemma drop_short: "drop (off + length (take n (drop off xs))) xs = drop (off + n) xs"
  by (cases "off + n \<le> length xs") auto

lemma OSInode_read_loop_Cons:
  "vfs_read_at bd (osi_inode f) (osi_offset f) (slice_bytes k sl) s = Some ((m, bs), s1) \<Longrightarrow> m \<noteq> 0 \<Longrightarrow>
   OSInode_read_loop bd f (sl # sls) n (k, s)
     = OSInode_read_loop bd (f\<lparr>osi_offset := osi_offset f + m\<rparr>) sls (n + m) (store_slice sl bs k, s1)"
  by simp

lemma read_all_loop_more:
  "vfs_read_at bd (osi_inode f) (osi_offset f) buf s = Some ((m, bs), s1) \<Longrightarrow> m \<noteq> 0 \<Longrightarrow>
   read_all_loop bd f buf acc s = read_all_loop bd (f\<lparr>osi_offset := osi_offset f + m\<rparr>) bs (acc @ take m bs) s1"
  by (subst read_all_loop.simps) simp

lemma slice_take_min: "slice_at off (min (off + n) (length bs) - off) bs = take n (drop off bs)"
  by (cases "off \<le> length bs") (auto simp: slice_at_def min_def)

context block_dev
begin

lemma read_at_file:
  assumes s: "st Map.empty v s" and ino: "inode_in nblocks fs ino v d"
  obtains s' where "st Map.empty v s'"
    "vfs_read_at bd ino off buf s = Some ((length (take (length buf) (drop off (file_bytes v d))),
       splice_at 0 (take (length buf) (drop off (file_bytes v d))) buf), s')"
proof -
  let ?n = "min (off + length buf) (unat (di_size d)) - off"
  have e: "slice_at off ?n (file_bytes v d) = take (length buf) (drop off (file_bytes v d))"
    using slice_take_min [of off "length buf" "file_bytes v d"] by simp
  have "length (take (length buf) (drop off (file_bytes v d))) = ?n"
    unfolding length_take length_drop length_file_bytes by linarith
  with vfs_read_ok [OF s ino, of off buf] e that show ?thesis by (auto simp: Let_def)
qed

lemma read_all_loop_ok:
  assumes "st Map.empty v s" "inode_in nblocks fs (osi_inode f) v d" "length buf = 512"
  shows "\<exists>s'. read_all_loop bd f buf acc s = Some (acc @ drop (osi_offset f) (file_bytes v d),
      f\<lparr>osi_offset := max (osi_offset f) (unat (di_size d))\<rparr>, s') \<and> st Map.empty v s'"
  using assms
proof (induction "unat (di_size d) - osi_offset f" arbitrary: f buf acc s rule: less_induct)
  case less
  let ?rest = "drop (osi_offset f) (file_bytes v d)"
  obtain s1 where s1: "st Map.empty v s1" "vfs_read_at bd (osi_inode f) (osi_offset f) buf s =
      Some ((length (take 512 ?rest), splice_at 0 (take 512 ?rest) buf), s1)"
    using read_at_file [OF less.prems(1,2), of "osi_offset f" buf] less.prems(3) by metis
  show ?case
  proof (cases "osi_offset f < unat (di_size d)")
    case False
    then have "f\<lparr>osi_offset := max (osi_offset f) (unat (di_size d))\<rparr> = f" by simp
    then show ?thesis using s1 False by (subst read_all_loop.simps) simp
  next
    case True
    let ?n = "length (take 512 ?rest)" and ?buf = "splice_at 0 (take 512 ?rest) buf"
    let ?f = "f\<lparr>osi_offset := osi_offset f + ?n\<rparr>"
    have n: "0 < ?n" "osi_offset f + ?n \<le> unat (di_size d)" using True by (auto simp: min_def)
    have ll: "length ?buf = 512" using less.prems(3) by (intro trans [OF length_splice]) auto
    have ino: "inode_in nblocks fs (osi_inode ?f) v d" using less.prems(2) by simp
    have lt: "unat (di_size d) - osi_offset ?f < unat (di_size d) - osi_offset f" using n True by simp
    from less.hyps [OF lt s1(1) ino ll, of "acc @ take ?n ?buf"] obtain s' where
      s': "read_all_loop bd ?f ?buf (acc @ take ?n ?buf) s1 = Some ((acc @ take ?n ?buf) @ drop (osi_offset ?f) (file_bytes v d),
          ?f\<lparr>osi_offset := max (osi_offset ?f) (unat (di_size d))\<rparr>, s')" "st Map.empty v s'" by blast
    have t: "take ?n ?buf = take 512 ?rest" by (rule take_splice_0)
    have "drop (osi_offset f + ?n) (file_bytes v d) = drop 512 ?rest" unfolding drop_short by (simp add: add.commute)
    then have "take 512 ?rest @ drop (osi_offset f + ?n) (file_bytes v d) = ?rest" by (simp only: append_take_drop_id)
    moreover have "max (osi_offset ?f) (unat (di_size d)) = max (osi_offset f) (unat (di_size d))" using n by simp
    moreover have "read_all_loop bd f buf acc s = read_all_loop bd ?f ?buf (acc @ take ?n ?buf) s1"
      by (rule read_all_loop_more [OF s1(2)]) (use n(1) in linarith)
    ultimately show ?thesis using s' unfolding t by simp
  qed
qed

text \<open>A read of a user buffer is the next bytes of the file, slice after slice.\<close>

lemma OSInode_read_loop_ok:
  assumes "st Map.empty v s" "inode_in nblocks fs (osi_inode f) v d"
    and "list_all (\<lambda>sl. 0 < slice_len sl \<and> sl_to sl \<le> 4096) sls" "\<And>p. length (pages k p) = 4096"
  shows "\<exists>s'. let bs = take (sum_list (map slice_len sls)) (drop (osi_offset f) (file_bytes v d)) in
    OSInode_read_loop bd f sls n (k, s) =
      Some (n + length bs, f\<lparr>osi_offset := osi_offset f + length bs\<rparr>, fill_slices sls bs k, s') \<and> st Map.empty v s'"
  using assms
proof (induction sls arbitrary: f n k s)
  case Nil
  then show ?case by auto
next
  case (Cons sl sls)
  let ?rest = "drop (osi_offset f) (file_bytes v d)" and ?bs = "take (slice_len sl) (drop (osi_offset f) (file_bytes v d))"
  have len: "length (slice_bytes k sl) = slice_len sl" "sl_from sl + slice_len sl = sl_to sl" "0 < slice_len sl"
    using Cons.prems(3,4) by (auto simp: slice_bytes_def slice_len_def)
  obtain s1 where s1: "st Map.empty v s1" "vfs_read_at bd (osi_inode f) (osi_offset f) (slice_bytes k sl) s =
      Some ((length ?bs, splice_at 0 ?bs (slice_bytes k sl)), s1)"
    using read_at_file [OF Cons.prems(1,2), of "osi_offset f" "slice_bytes k sl"] len(1) by metis
  have k1: "store_slice sl (splice_at 0 ?bs (slice_bytes k sl)) k = store_slice sl ?bs k"
    using splice_prefix_slice [of ?bs "slice_len sl" "sl_from sl" "pages k (sl_ppn sl)"] len Cons.prems(3,4)
    by (simp add: store_slice_def slice_bytes_def slice_len_def)
  show ?case
  proof (cases "?bs = []")
    case True
    then have "?rest = []" using len(3) by auto
    then show ?thesis using s1 k1 True by (simp add: Let_def)
  next
    case False
    let ?f = "f\<lparr>osi_offset := osi_offset f + length ?bs\<rparr>" and ?k = "store_slice sl ?bs k" and ?m = "sum_list (map slice_len sls)"
    have pk: "length (pages ?k p) = 4096" for p
      using Cons.prems(3,4) len(2) by (intro store_slice_length) auto
    have bs: "take ?m (drop (osi_offset ?f) (file_bytes v d)) = take ?m (drop (slice_len sl) ?rest)"
      using drop_short [of "osi_offset f" "slice_len sl" "file_bytes v d"] by (simp add: add.commute)
    have all: "take (sum_list (map slice_len (sl # sls))) ?rest = ?bs @ take ?m (drop (slice_len sl) ?rest)"
      by (simp add: take_add)
    have ino: "inode_in nblocks fs (osi_inode ?f) v d" and sls: "list_all (\<lambda>sl. 0 < slice_len sl \<and> sl_to sl \<le> 4096) sls"
      using Cons.prems(2,3) by simp_all
    from Cons.IH [OF s1(1) ino sls pk, of "n + length ?bs"] obtain s' where
      r: "OSInode_read_loop bd ?f sls (n + length ?bs) (?k, s1) =
          Some (n + length ?bs + length (take ?m (drop (slice_len sl) ?rest)),
            ?f\<lparr>osi_offset := osi_offset ?f + length (take ?m (drop (slice_len sl) ?rest))\<rparr>,
            fill_slices sls (take ?m (drop (slice_len sl) ?rest)) ?k, s')" "st Map.empty v s'"
      unfolding Let_def bs by blast
    have fill: "fill_slices (sl # sls) (take (sum_list (map slice_len (sl # sls))) ?rest) k
        = fill_slices sls (take ?m (drop (slice_len sl) ?rest)) ?k"
      by (simp add: drop_take min_def)
    have nz: "length ?bs \<noteq> 0" using False by blast
    have "OSInode_read_loop bd f (sl # sls) n (k, s) = OSInode_read_loop bd ?f sls (n + length ?bs) (?k, s1)"
      by (simp only: OSInode_read_loop_Cons [OF s1(2) nz] k1)
    then show ?thesis unfolding Let_def fill unfolding all using r by (auto simp: add.assoc simp del: length_take)
  qed
qed

end

section \<open>Properties\<close>

text \<open>
  C26. Reading through an open file of the kernel. For an inode of the file system with contents \<open>file_bytes v d\<close> and
  a file opened on it at any offset: \<open>read_all\<close> terminates and returns the rest of the file; \<open>read\<close> into a user buffer
  of non-empty slices stores the next bytes of the file in the slices in order, up to the end of the file, returns
  how many there were and moves the offset by as many, and the disk is unchanged.
\<close>

theorem os_inode_read_spec:
  assumes "cache_state file_block (\<lambda>f. length f = N * BLOCK_SZ) N Map.empty v s" "inode_in N fs (osi_inode f) v d"
  shows "(\<exists>s'. read_all BlockFile f s = Some (drop (osi_offset f) (file_bytes v d),
        f\<lparr>osi_offset := max (osi_offset f) (unat (di_size d))\<rparr>, s') \<and> view file_block s' = v)
    \<and> (list_all (\<lambda>sl. 0 < slice_len sl \<and> sl_to sl \<le> 4096) (buffers buf) \<longrightarrow> (\<forall>p. length (pages k p) = 4096) \<longrightarrow>
      bs = take (UserBuffer_len buf) (drop (osi_offset f) (file_bytes v d)) \<longrightarrow>
      (\<exists>s'. OSInode_read BlockFile f buf (k, s) =
        Some (length bs, f\<lparr>osi_offset := osi_offset f + length bs\<rparr>, fill_slices (buffers buf) bs k, s') \<and> view file_block s' = v))"
proof (rule conjI; (intro impI)?)
  show "\<exists>s'. read_all BlockFile f s = Some (drop (osi_offset f) (file_bytes v d),
        f\<lparr>osi_offset := max (osi_offset f) (unat (di_size d))\<rparr>, s') \<and> view file_block s' = v"
    using bf.read_all_loop_ok [OF assms, of "replicate 512 0" "[]"] unfolding read_all_def
    by (auto simp: cache_state_def)
  show "\<exists>s'. OSInode_read BlockFile f buf (k, s) =
        Some (length bs, f\<lparr>osi_offset := osi_offset f + length bs\<rparr>, fill_slices (buffers buf) bs k, s') \<and> view file_block s' = v"
    if "list_all (\<lambda>sl. 0 < slice_len sl \<and> sl_to sl \<le> 4096) (buffers buf)" "\<forall>p. length (pages k p) = 4096"
      "bs = take (UserBuffer_len buf) (drop (osi_offset f) (file_bytes v d))"
    using bf.OSInode_read_loop_ok [OF assms that(1) that(2) [rule_format], of 0] unfolding OSInode_read_def that(3) UserBuffer_len_def Let_def
    by (auto simp: cache_state_def)
qed

text \<open>The root inode of a fresh disk after a write of three bytes, opened as a file.\<close>

lemma sample_file:
  "\<exists>s v d. cache_state file_block (\<lambda>f. length f = 1100 * BLOCK_SZ) 1100 Map.empty v s
     \<and> inode_in 1100 (fresh_fs 1100 1) (root_inode (fresh_fs 1100 1)) v d \<and> file_bytes v d = [1, 2, 3]"
proof -
  from sample_disk obtain s v d where
    c: "cache_state file_block (\<lambda>f. length f = 1100 * BLOCK_SZ) 1100 Map.empty v s"
      "inode_in 1100 (fresh_fs 1100 1) (root_inode (fresh_fs 1100 1)) v d" "data_blocks d = 0"
      "has_room 1100 (fresh_fs 1100 1) v 1" "file_bytes v d = []" by blast
  have "has_room 1100 (fresh_fs 1100 1) v
      (blocks_for (unat (data_blocks_of (of_nat (0 + length [1 :: u8, 2, 3])))) - blocks_for (unat (data_blocks d)))"
    using c(3,4) by (simp add: data_blocks_of_def BLOCK_SZ_def blocks_for_def)
  moreover have "0 + length [1 :: u8, 2, 3] \<le> INDIRECT2_BOUND * BLOCK_SZ" by (simp add: BLOCK_SZ_def)
  ultimately obtain s1 v1 d1 where w: "cache_state file_block (\<lambda>f. length f = 1100 * BLOCK_SZ) 1100 Map.empty v1 s1"
      "inode_in 1100 (fresh_fs 1100 1) (root_inode (fresh_fs 1100 1)) v1 d1" "overwritten [] 0 [1, 2, 3] (file_bytes v1 d1)"
    using bf.vfs_write_ok [OF c(1,2)] c(5) by metis
  from w(3) have "length (file_bytes v1 d1) = length [1 :: u8, 2, 3]"
      "take (length [1 :: u8, 2, 3]) (file_bytes v1 d1) = [1, 2, 3]"
    unfolding overwritten_def slice_at_def by simp_all
  then have "file_bytes v1 d1 = [1, 2, 3]" by (metis take_all order_refl)
  with w show ?thesis by blast
qed

theorem os_inode_read_spec_witness:
  "\<exists>s s1 s2 f. osi_inode f = root_inode (fresh_fs 1100 1) \<and> osi_offset f = 1
     \<and> map_option fst (read_all BlockFile f s) = Some [2, 3]
     \<and> OSInode_read BlockFile f \<lparr>buffers = [\<lparr>sl_ppn = 5, sl_from = 0, sl_to = 1\<rparr>, \<lparr>sl_ppn = 9, sl_from = 0, sl_to = 7\<rparr>]\<rparr>
          (boot_kmem 0x80300000, s)
       = Some (2, f\<lparr>osi_offset := 3\<rparr>, fill_slices [\<lparr>sl_ppn = 5, sl_from = 0, sl_to = 1\<rparr>, \<lparr>sl_ppn = 9, sl_from = 0, sl_to = 7\<rparr>]
           [2, 3] (boot_kmem 0x80300000), s2)"
proof -
  obtain s v d where c: "cache_state file_block (\<lambda>f. length f = 1100 * BLOCK_SZ) 1100 Map.empty v s"
      "inode_in 1100 (fresh_fs 1100 1) (root_inode (fresh_fs 1100 1)) v d" "file_bytes v d = [1, 2, 3]"
    using sample_file by blast
  let ?f = "(OSInode_new True False (root_inode (fresh_fs 1100 1)))\<lparr>osi_offset := 1\<rparr>"
  let ?sls = "[\<lparr>sl_ppn = 5, sl_from = 0, sl_to = 1\<rparr>, \<lparr>sl_ppn = 9, sl_from = 0, sl_to = 7\<rparr>]"
  have f: "osi_inode ?f = root_inode (fresh_fs 1100 1)" "osi_offset ?f = 1" by (simp_all add: OSInode_new_def)
  note spec = os_inode_read_spec [OF c(1), of "fresh_fs 1100 1" ?f d, unfolded f(1), OF c(2)]
  have k: "length (pages (boot_kmem 0x80300000) p) = 4096" for p
    by (simp add: boot_kmem_def init_frame_allocator_def)
  have bs: "[2, 3] = take (UserBuffer_len \<lparr>buffers = ?sls\<rparr>) (drop (osi_offset ?f) (file_bytes v d))"
    by (simp add: f(2) c(3) UserBuffer_len_def slice_len_def)
  obtain s2 where "OSInode_read BlockFile ?f \<lparr>buffers = ?sls\<rparr> (boot_kmem 0x80300000, s) =
      Some (2, ?f\<lparr>osi_offset := 3\<rparr>, fill_slices ?sls [2, 3] (boot_kmem 0x80300000), s2)"
    using spec [THEN conjunct2, THEN mp, THEN mp, THEN mp, OF _ allI [OF k] bs] by (auto simp: slice_len_def)
  moreover have "map_option fst (read_all BlockFile ?f s) = Some [2, 3]"
    using spec [THEN conjunct1] f(2) c(3) by auto
  ultimately show ?thesis using f by blast
qed

end
