(* ===== verification/Sched.thy ===== *)
theory Sched
  imports Address
begin

text \<open>
  Scheduling (\<open>os/src/task/manager.rs\<close>, \<open>processor.rs\<close>, the scheduling functions of \<open>task/mod.rs\<close>,
  \<open>context.rs\<close> and the status of \<open>task.rs\<close>). A task is the identity of its control block: the source compares
  tasks by the address of their \<open>Arc\<close>. The kernel runs on one processor and is not preempted: between two
  calls of \<open>schedule\<close> a task's kernel code is one step. A function that ends in \<open>schedule\<close> is modelled up to
  the switch to the idle loop, which then runs \<open>run_tasks_step\<close>; the register switch \<open>__switch\<close> is assembly.
\<close>

section \<open>Contexts\<close>

record TaskContext =
  cx_ra :: usize
  cx_sp :: usize
  cx_s :: "usize list"

definition TaskContext_zero_init :: TaskContext where
  "TaskContext_zero_init = \<lparr>cx_ra = 0, cx_sp = 0, cx_s = replicate 12 0\<rparr>"

text \<open>The address of \<open>trap_return\<close> is an argument.\<close>

definition goto_trap_return :: "usize \<Rightarrow> usize \<Rightarrow> TaskContext" where
  "goto_trap_return trap_return kstack_ptr = \<lparr>cx_ra = trap_return, cx_sp = kstack_ptr, cx_s = replicate 12 0\<rparr>"

section \<open>The ready queue\<close>

datatype TaskStatus = Ready | Running | Blocked

type_synonym task = nat

record TaskManager =
  ready_queue :: "task list"

definition TaskManager_new :: TaskManager where
  "TaskManager_new = \<lparr>ready_queue = []\<rparr>"

definition tm_add :: "task \<Rightarrow> TaskManager \<Rightarrow> TaskManager" where
  "tm_add t m = m\<lparr>ready_queue := ready_queue m @ [t]\<rparr>"

definition tm_fetch :: "TaskManager \<Rightarrow> task option \<times> TaskManager" where
  "tm_fetch m = (case ready_queue m of [] \<Rightarrow> (None, m) | t # ts \<Rightarrow> (Some t, m\<lparr>ready_queue := ts\<rparr>))"

definition tm_remove :: "task \<Rightarrow> TaskManager \<Rightarrow> TaskManager" where
  "tm_remove t m = (case find_index (\<lambda>u. u = t) (ready_queue m) of None \<Rightarrow> m
    | Some i \<Rightarrow> m\<lparr>ready_queue := take i (ready_queue m) @ drop (Suc i) (ready_queue m)\<rparr>)"

section \<open>The processor\<close>

record Processor =
  proc_current :: "task option"
  idle_task_cx :: TaskContext

definition Processor_new :: Processor where
  "Processor_new = \<lparr>proc_current = None, idle_task_cx = TaskContext_zero_init\<rparr>"

definition take_current :: "Processor \<Rightarrow> task option \<times> Processor" where
  "take_current p = (proc_current p, p\<lparr>proc_current := None\<rparr>)"

text \<open>The global cells and the status field of every task.\<close>

record sched =
  TASK_MANAGER :: TaskManager
  PROCESSOR :: Processor
  task_status :: "task \<Rightarrow> TaskStatus"

definition sched_new :: "(task \<Rightarrow> TaskStatus) \<Rightarrow> sched" where
  "sched_new st = \<lparr>TASK_MANAGER = TaskManager_new, PROCESSOR = Processor_new, task_status = st\<rparr>"

definition add_task :: "task \<Rightarrow> sched \<Rightarrow> sched" where
  "add_task t s = s\<lparr>TASK_MANAGER := tm_add t (TASK_MANAGER s)\<rparr>"

definition wakeup_task :: "task \<Rightarrow> sched \<Rightarrow> sched" where
  "wakeup_task t s = add_task t (s\<lparr>task_status := (task_status s)(t := Ready)\<rparr>)"

definition remove_task :: "task \<Rightarrow> sched \<Rightarrow> sched" where
  "remove_task t s = s\<lparr>TASK_MANAGER := tm_remove t (TASK_MANAGER s)\<rparr>"

definition fetch_task :: "sched \<Rightarrow> task option \<times> sched" where
  "fetch_task s = (case tm_fetch (TASK_MANAGER s) of (r, m) \<Rightarrow> (r, s\<lparr>TASK_MANAGER := m\<rparr>))"

definition take_current_task :: "sched \<Rightarrow> task option \<times> sched" where
  "take_current_task s = (case take_current (PROCESSOR s) of (r, p) \<Rightarrow> (r, s\<lparr>PROCESSOR := p\<rparr>))"

definition current_task :: "sched \<Rightarrow> task option" where
  "current_task s = proc_current (PROCESSOR s)"

text \<open>One turn of the idle loop.\<close>

definition run_tasks_step :: "sched \<Rightarrow> sched" where
  "run_tasks_step s = (case fetch_task s of
      (Some t, s) \<Rightarrow> s\<lparr>task_status := (task_status s)(t := Running), PROCESSOR := (PROCESSOR s)\<lparr>proc_current := Some t\<rparr>\<rparr>
    | (None, s) \<Rightarrow> s)"

definition suspend_current_and_run_next :: "sched \<Rightarrow> sched option" where
  "suspend_current_and_run_next s = (case take_current_task s of
      (None, _) \<Rightarrow> None
    | (Some t, s) \<Rightarrow> Some (add_task t (s\<lparr>task_status := (task_status s)(t := Ready)\<rparr>)))"

definition block_current_and_run_next :: "sched \<Rightarrow> sched option" where
  "block_current_and_run_next s = (case take_current_task s of
      (None, _) \<Rightarrow> None
    | (Some t, s) \<Rightarrow> Some (s\<lparr>task_status := (task_status s)(t := Blocked)\<rparr>))"

section \<open>Invariant\<close>

abbreviation ready :: "sched \<Rightarrow> task list" where
  "ready s \<equiv> ready_queue (TASK_MANAGER s)"

text \<open>
  A task is in the ready queue at most once, a queued task is \<open>Ready\<close> and the current task is \<open>Running\<close>. The
  converses do not hold: a new task is \<open>Ready\<close> before it is added, and a task that exits keeps \<open>Running\<close>.
\<close>

definition sched_inv :: "sched \<Rightarrow> bool" where
  "sched_inv s \<longleftrightarrow> distinct (ready s) \<and> list_all (\<lambda>t. task_status s t = Ready) (ready s)
    \<and> (case current_task s of None \<Rightarrow> True | Some t \<Rightarrow> task_status s t = Running)"

named_theorems sched_simps \<open>the scheduling functions on their fields\<close>

lemma sched_fields [sched_simps]:
  "ready (add_task t s) = ready s @ [t]" "task_status (add_task t s) = task_status s" "current_task (add_task t s) = current_task s"
  "ready (wakeup_task t s) = ready s @ [t]" "task_status (wakeup_task t s) = (task_status s)(t := Ready)"
  "current_task (wakeup_task t s) = current_task s"
  by (simp_all add: add_task_def wakeup_task_def tm_add_def current_task_def)

lemma block_fields:
  assumes "current_task s = Some t"
  obtains s' where "block_current_and_run_next s = Some s'" "ready s' = ready s" "current_task s' = None"
    "task_status s' = (task_status s)(t := Blocked)"
  using assms by (simp add: block_current_and_run_next_def take_current_task_def take_current_def current_task_def)

lemma suspend_fields:
  assumes "current_task s = Some t"
  obtains s' where "suspend_current_and_run_next s = Some s'" "ready s' = ready s @ [t]" "current_task s' = None"
    "task_status s' = (task_status s)(t := Ready)"
  using assms
  by (simp add: suspend_current_and_run_next_def take_current_task_def take_current_def current_task_def add_task_def tm_add_def)

lemma run_step_fields:
  "ready (run_tasks_step s) = tl (ready s)"
  "ready s = t # ts \<Longrightarrow> current_task (run_tasks_step s) = Some t"
  "ready s = t # ts \<Longrightarrow> task_status (run_tasks_step s) = (task_status s)(t := Running)"
  "ready s = [] \<Longrightarrow> run_tasks_step s = s"
  by (auto simp: run_tasks_step_def fetch_task_def tm_fetch_def current_task_def split: list.splits)

lemma remove_first: "(case find_index (\<lambda>u. u = t) xs of None \<Rightarrow> xs | Some i \<Rightarrow> take i xs @ drop (Suc i) xs) = remove1 t xs"
  by (induction xs) (auto split: option.splits)

lemma remove_fields [sched_simps]:
  "ready (remove_task t s) = remove1 t (ready s)" "task_status (remove_task t s) = task_status s"
  "current_task (remove_task t s) = current_task s"
  using remove_first [where t = t and xs = "ready s"]
  by (auto simp: remove_task_def tm_remove_def current_task_def split: option.splits)

lemma take_current_fields [sched_simps]:
  "fst (take_current_task s) = current_task s" "ready (snd (take_current_task s)) = ready s"
  "task_status (snd (take_current_task s)) = task_status s" "current_task (snd (take_current_task s)) = None"
  by (simp_all add: take_current_task_def take_current_def current_task_def)

section \<open>Runs of the scheduler\<close>

text \<open>
  What the kernel does to the scheduler, one call at a time: the current task gives up the processor (to run
  again, to wait, or because it exits), a task is woken, a new task is queued, a task of an exiting process is
  taken out, and the idle loop dispatches. A woken task was blocked and a new task is not in the queue: this is
  what the callers guarantee.
\<close>

datatype sched_event = Suspend | Block | Exit | Wakeup task | Add task | Remove task | Dispatch

inductive sched_step :: "sched \<Rightarrow> sched_event \<Rightarrow> sched \<Rightarrow> bool" where
  suspend: "suspend_current_and_run_next s = Some s' \<Longrightarrow> sched_step s Suspend s'"
| block: "block_current_and_run_next s = Some s' \<Longrightarrow> sched_step s Block s'"
| exit: "take_current_task s = (Some t, s') \<Longrightarrow> sched_step s Exit s'"
| wakeup: "task_status s t = Blocked \<Longrightarrow> sched_step s (Wakeup t) (wakeup_task t s)"
| add: "task_status s t = Ready \<Longrightarrow> t \<notin> set (ready s) \<Longrightarrow> sched_step s (Add t) (add_task t s)"
| remove: "sched_step s (Remove t) (remove_task t s)"
| dispatch: "current_task s = None \<Longrightarrow> sched_step s Dispatch (run_tasks_step s)"

inductive_cases sched_stepE: "sched_step s e s'"

inductive sched_trace :: "sched \<Rightarrow> sched_event list \<Rightarrow> sched \<Rightarrow> bool" where
  stop: "sched_trace s [] s"
| more: "sched_step s e r \<Longrightarrow> sched_trace r es s' \<Longrightarrow> sched_trace s (e # es) s'"

inductive_simps sched_trace_Nil [simp]: "sched_trace s [] s'"
inductive_simps sched_trace_Cons: "sched_trace s (e # es) s'"

lemma suspend_Some:
  assumes "suspend_current_and_run_next s = Some s'"
  obtains t where "current_task s = Some t" "ready s' = ready s @ [t]" "current_task s' = None"
    "task_status s' = (task_status s)(t := Ready)"
  using assms
  by (auto simp: suspend_current_and_run_next_def take_current_task_def take_current_def current_task_def
      add_task_def tm_add_def split: option.splits)

lemma block_Some:
  assumes "block_current_and_run_next s = Some s'"
  obtains t where "current_task s = Some t" "ready s' = ready s" "current_task s' = None"
    "task_status s' = (task_status s)(t := Blocked)"
  using assms
  by (auto simp: block_current_and_run_next_def take_current_task_def take_current_def current_task_def split: option.splits)

lemma sched_inv_new: "sched_inv (sched_new st)"
  by (simp add: sched_inv_def sched_new_def TaskManager_new_def Processor_new_def current_task_def)

lemma current_not_ready: "sched_inv s \<Longrightarrow> current_task s = Some t \<Longrightarrow> t \<notin> set (ready s)"
  by (auto simp: sched_inv_def list_all_iff)

lemma sched_inv_wakeup:
  "sched_inv s \<Longrightarrow> task_status s t = Blocked \<Longrightarrow> sched_inv (wakeup_task t s)"
  unfolding sched_inv_def sched_simps by (auto simp: list_all_iff split: option.splits)

lemma sched_inv_suspend: "sched_inv s \<Longrightarrow> suspend_current_and_run_next s = Some s' \<Longrightarrow> sched_inv s'"
  by (elim suspend_Some) (auto simp: sched_inv_def list_all_iff)

lemma sched_inv_block: "sched_inv s \<Longrightarrow> block_current_and_run_next s = Some s' \<Longrightarrow> sched_inv s'"
  by (elim block_Some) (auto simp: sched_inv_def list_all_iff)

lemma sched_inv_run: "sched_inv s \<Longrightarrow> current_task s = None \<Longrightarrow> sched_inv (run_tasks_step s)"
  by (cases "ready s") (auto simp: sched_inv_def run_step_fields list_all_iff)

lemma sched_inv_remove: "sched_inv s \<Longrightarrow> sched_inv (remove_task t s)"
  by (auto simp: sched_inv_def sched_simps list_all_iff notin_set_remove1 split: option.splits)

lemma sched_inv_take: "sched_inv s \<Longrightarrow> sched_inv (snd (take_current_task s))"
  by (simp add: sched_inv_def sched_simps)

lemma sched_inv_add: "sched_inv s \<Longrightarrow> task_status s t = Ready \<Longrightarrow> t \<notin> set (ready s) \<Longrightarrow> sched_inv (add_task t s)"
  by (auto simp: sched_inv_def sched_simps split: option.splits)

lemma sched_inv_step: "sched_step s e s' \<Longrightarrow> sched_inv s \<Longrightarrow> sched_inv s'"
proof (induction rule: sched_step.induct)
  case (exit s t s')
  then show ?case using sched_inv_take [of s] by simp
qed (blast intro: sched_inv_wakeup sched_inv_suspend sched_inv_block sched_inv_run sched_inv_remove sched_inv_add)+

lemma sched_inv_trace: "sched_trace s es s' \<Longrightarrow> sched_inv s \<Longrightarrow> sched_inv s'"
  by (induction rule: sched_trace.induct) (blast intro: sched_inv_step)+

text \<open>The place of a waiting task: no step moves it back, and a dispatch moves it forward or runs it.\<close>

lemma place_step:
  assumes step: "sched_step s e s'" and place: "ready s = pre @ t # post" "t \<notin> set pre" and keep: "e \<noteq> Remove t"
  shows "(e = Dispatch \<and> current_task s' = Some t)
    \<or> (\<exists>pre' post'. ready s' = pre' @ t # post' \<and> t \<notin> set pre' \<and> length pre' + (if e = Dispatch then 1 else 0) \<le> length pre)"
proof -
  have kept: ?thesis if "e \<noteq> Dispatch" "ready s' = pre @ t # post'" for post'
    using that place(2) by auto
  from step show ?thesis
  proof cases
    case (remove u)
    with keep have "u \<noteq> t" by auto
    show ?thesis
    proof (cases "u \<in> set pre")
      case True
      then have "ready s' = remove1 u pre @ t # post" using place remove by (simp add: sched_simps remove1_append)
      moreover have "t \<notin> set (remove1 u pre)" using place(2) by (simp add: notin_set_remove1)
      moreover have "length (remove1 u pre) \<le> length pre" by (simp add: length_remove1)
      ultimately show ?thesis using remove(1) by (metis add.right_neutral sched_event.distinct(41))
    next
      case False
      then show ?thesis using place remove \<open>u \<noteq> t\<close> by (intro kept) (auto simp: sched_simps remove1_append)
    qed
  next
    case dispatch
    then show ?thesis using place run_step_fields(1) [of s] by (cases pre) (auto simp: run_step_fields)
  next
    case (exit u)
    then show ?thesis using place take_current_fields(2) [of s] by (intro kept) auto
  next
    case suspend
    then show ?thesis using place by (elim suspend_Some) (intro kept, auto)
  next
    case block
    then show ?thesis using place by (elim block_Some) (intro kept, auto)
  qed (use place kept in \<open>auto simp: sched_simps\<close>)
qed

lemma scheduled_within:
  assumes "sched_trace s es s'" "ready s = pre @ t # post" "t \<notin> set pre" "Remove t \<notin> set es"
    and "length pre < count_list es Dispatch"
  shows "\<exists>es1 es2 s1. es = es1 @ Dispatch # es2 \<and> sched_trace s (es1 @ [Dispatch]) s1 \<and> sched_trace s1 es2 s'
    \<and> current_task s1 = Some t \<and> count_list es1 Dispatch \<le> length pre"
  using assms
proof (induction arbitrary: pre post rule: sched_trace.induct)
  case (more s e r es s')
  from place_step [OF more.hyps(1) more.prems(1,2)] more.prems(3)
  consider (now) "e = Dispatch" "current_task r = Some t"
    | (later) pre' post' where "ready r = pre' @ t # post'" "t \<notin> set pre'"
        "length pre' + (if e = Dispatch then 1 else 0) \<le> length pre"
    by auto
  then show ?case
  proof cases
    case now
    then show ?thesis using more.hyps
      by (intro exI [of _ "[]"] exI [of _ es] exI [of _ r]) (auto simp: sched_trace_Cons)
  next
    case later
    then have "length pre' < count_list es Dispatch" using more.prems(4) by (auto split: if_splits)
    with more.IH [OF later(1,2)] more.prems(3) obtain es1 es2 s1 where
      "es = es1 @ Dispatch # es2" "sched_trace r (es1 @ [Dispatch]) s1" "sched_trace s1 es2 s'"
      "current_task s1 = Some t" "count_list es1 Dispatch \<le> length pre'" by auto
    then show ?thesis using more.hyps(1) later(3)
      by (intro exI [of _ "e # es1"] exI [of _ es2] exI [of _ s1]) (auto simp: sched_trace_Cons)
  qed
qed simp

section \<open>Fairness\<close>

text \<open>
  C4. The scheduler is first-in first-out and starves nobody: in any run of the kernel from its start, a task
  that stands in the ready queue behind \<open>length pre\<close> other tasks, and that is not taken out because its process
  exits, becomes the current task at the latest at the dispatch after \<open>length pre\<close> others, whatever tasks are
  queued, woken or suspended in between. Throughout, no task is queued twice, queued tasks are \<open>Ready\<close> and the
  current task is \<open>Running\<close>.
\<close>

theorem round_robin_fair:
  assumes "sched_trace (sched_new st) es0 s" "ready s = pre @ t # post" "sched_trace s es s'"
    and "Remove t \<notin> set es" "length pre < count_list es Dispatch"
  shows "sched_inv s \<and> sched_inv s'
    \<and> (\<exists>es1 es2 s1. es = es1 @ Dispatch # es2 \<and> sched_trace s (es1 @ [Dispatch]) s1 \<and> sched_trace s1 es2 s'
      \<and> current_task s1 = Some t \<and> task_status s1 t = Running \<and> count_list es1 Dispatch \<le> length pre)"
proof -
  have inv: "sched_inv s" by (rule sched_inv_trace [OF assms(1) sched_inv_new])
  then have "sched_inv s'" by (rule sched_inv_trace [OF assms(3)])
  moreover have "t \<notin> set pre" using inv assms(2) by (auto simp: sched_inv_def)
  then obtain es1 es2 s1 where r: "es = es1 @ Dispatch # es2" "sched_trace s (es1 @ [Dispatch]) s1"
    "sched_trace s1 es2 s'" "current_task s1 = Some t" "count_list es1 Dispatch \<le> length pre"
    using scheduled_within [OF assms(3,2) _ assms(4,5)] by blast
  moreover have "task_status s1 t = Running" using sched_inv_trace [OF r(2) inv] r(4) by (simp add: sched_inv_def)
  ultimately show ?thesis using inv by blast
qed

text \<open>Two tasks: the first is dispatched and yields, then the second runs.\<close>

definition two_tasks :: sched where
  "two_tasks = add_task 2 (add_task 1 (sched_new (\<lambda>_. Ready)))"

definition two_tasks_end :: sched where
  "two_tasks_end = run_tasks_step (the (suspend_current_and_run_next (run_tasks_step two_tasks)))"

lemmas two_tasks_eval = two_tasks_end_def two_tasks_def add_task_def tm_add_def sched_new_def TaskManager_new_def
  Processor_new_def run_tasks_step_def fetch_task_def tm_fetch_def current_task_def suspend_current_and_run_next_def
  take_current_task_def take_current_def

lemma two_tasks_start: "sched_trace (sched_new (\<lambda>_. Ready)) [Add 1, Add 2] two_tasks"
  unfolding two_tasks_def
  by (rule sched_trace.more [OF sched_step.add sched_trace.more [OF sched_step.add sched_trace.stop]])
    (simp_all add: sched_simps sched_new_def TaskManager_new_def)

lemma two_tasks_run: "sched_trace two_tasks [Dispatch, Suspend, Dispatch] two_tasks_end"
  unfolding two_tasks_end_def
  by (rule sched_trace.more [OF sched_step.dispatch sched_trace.more [OF sched_step.suspend
        sched_trace.more [OF sched_step.dispatch sched_trace.stop]]]) (simp_all add: two_tasks_eval)

theorem round_robin_fair_witness:
  "\<exists>es1 es2 s1. [Dispatch, Suspend, Dispatch] = es1 @ Dispatch # es2 \<and> sched_trace two_tasks (es1 @ [Dispatch]) s1
    \<and> current_task s1 = Some 2 \<and> sched_inv two_tasks_end"
proof -
  have r: "ready two_tasks = [1] @ 2 # []" by (simp add: two_tasks_eval)
  show ?thesis using round_robin_fair [OF two_tasks_start r two_tasks_run] by (simp, blast)
qed

end
