(* ===== verification/Sync.thy ===== *)
theory Sync
  imports Sched
begin

text \<open>
  Mutexes, semaphores and condition variables (\<open>os/src/sync/mutex.rs\<close>, \<open>semaphore.rs\<close>, \<open>condvar.rs\<close>). Every
  object is a value in a \<open>UPSafeCell\<close>, which an operation borrows for a part of its body and releases before it
  gives up the processor, so an operation is one step up to that point. \<open>None\<close> is a panic.

  A call of \<open>lock\<close> ends in one of three ways: the lock is taken and the call returns; the task is parked in the
  queue of the mutex, and when it is scheduled again the call returns with the lock; or (spinning) the task has
  yielded, and when it is scheduled again it runs the loop body once more.
\<close>

section \<open>Mutexes\<close>

datatype lock_outcome = Acquired | Parked | Retry

record MutexBlocking =
  mb_locked :: bool
  mb_wait_queue :: "task list"

definition MutexBlocking_new :: MutexBlocking where
  "MutexBlocking_new = \<lparr>mb_locked = False, mb_wait_queue = []\<rparr>"

definition MutexBlocking_lock :: "MutexBlocking \<Rightarrow> sched \<Rightarrow> (lock_outcome \<times> MutexBlocking \<times> sched) option" where
  "MutexBlocking_lock m s =
     (if mb_locked m then
        do { t \<leftarrow> current_task s;
             let m = m\<lparr>mb_wait_queue := mb_wait_queue m @ [t]\<rparr>;
             s \<leftarrow> block_current_and_run_next s;
             Some (Parked, m, s) }
      else Some (Acquired, m\<lparr>mb_locked := True\<rparr>, s))"

definition MutexBlocking_unlock :: "MutexBlocking \<Rightarrow> sched \<Rightarrow> (MutexBlocking \<times> sched) option" where
  "MutexBlocking_unlock m s =
     do { assert_that (mb_locked m);
          case mb_wait_queue m of
            waking_task # q \<Rightarrow> Some (m\<lparr>mb_wait_queue := q\<rparr>, wakeup_task waking_task s)
          | [] \<Rightarrow> Some (m\<lparr>mb_locked := False\<rparr>, s) }"

record MutexSpin =
  spin_locked :: bool

definition MutexSpin_new :: MutexSpin where
  "MutexSpin_new = \<lparr>spin_locked = False\<rparr>"

text \<open>One turn of the loop of \<open>lock\<close>.\<close>

definition MutexSpin_lock :: "MutexSpin \<Rightarrow> sched \<Rightarrow> (lock_outcome \<times> MutexSpin \<times> sched) option" where
  "MutexSpin_lock m s =
     (if spin_locked m then do { s \<leftarrow> suspend_current_and_run_next s; Some (Retry, m, s) }
      else Some (Acquired, m\<lparr>spin_locked := True\<rparr>, s))"

definition MutexSpin_unlock :: "MutexSpin \<Rightarrow> sched \<Rightarrow> (MutexSpin \<times> sched) option" where
  "MutexSpin_unlock m s = do { assert_that (spin_locked m); Some (m\<lparr>spin_locked := False\<rparr>, s) }"

text \<open>\<open>dyn Mutex\<close>.\<close>

datatype Mutex = Blocking MutexBlocking | Spin MutexSpin

fun Mutex_lock :: "Mutex \<Rightarrow> sched \<Rightarrow> (lock_outcome \<times> Mutex \<times> sched) option" where
  "Mutex_lock (Blocking m) s = do { (r, m, s) \<leftarrow> MutexBlocking_lock m s; Some (r, Blocking m, s) }"
| "Mutex_lock (Spin m) s = do { (r, m, s) \<leftarrow> MutexSpin_lock m s; Some (r, Spin m, s) }"

fun Mutex_unlock :: "Mutex \<Rightarrow> sched \<Rightarrow> (Mutex \<times> sched) option" where
  "Mutex_unlock (Blocking m) s = do { (m, s) \<leftarrow> MutexBlocking_unlock m s; Some (Blocking m, s) }"
| "Mutex_unlock (Spin m) s = do { (m, s) \<leftarrow> MutexSpin_unlock m s; Some (Spin m, s) }"

section \<open>Semaphores\<close>

record Semaphore =
  sem_count :: "64 word"
  sem_wait_queue :: "task list"

definition Semaphore_new :: "64 word \<Rightarrow> Semaphore" where
  "Semaphore_new res_count = \<lparr>sem_count = res_count, sem_wait_queue = []\<rparr>"

text \<open>The count is an \<open>isize\<close>: comparisons are signed.\<close>

definition Semaphore_up :: "Semaphore \<Rightarrow> sched \<Rightarrow> Semaphore \<times> sched" where
  "Semaphore_up m s =
     (let m = m\<lparr>sem_count := sem_count m + 1\<rparr> in
      if sint (sem_count m) \<le> 0 then
        (case sem_wait_queue m of t # q \<Rightarrow> (m\<lparr>sem_wait_queue := q\<rparr>, wakeup_task t s) | [] \<Rightarrow> (m, s))
      else (m, s))"

definition Semaphore_down :: "Semaphore \<Rightarrow> sched \<Rightarrow> (Semaphore \<times> sched) option" where
  "Semaphore_down m s =
     (let m = m\<lparr>sem_count := sem_count m - 1\<rparr> in
      if sint (sem_count m) < 0 then
        do { t \<leftarrow> current_task s;
             let m = m\<lparr>sem_wait_queue := sem_wait_queue m @ [t]\<rparr>;
             s \<leftarrow> block_current_and_run_next s;
             Some (m, s) }
      else Some (m, s))"

section \<open>Condition variables\<close>

record Condvar =
  cv_wait_queue :: "task list"

definition Condvar_new :: Condvar where
  "Condvar_new = \<lparr>cv_wait_queue = []\<rparr>"

definition Condvar_signal :: "Condvar \<Rightarrow> sched \<Rightarrow> Condvar \<times> sched" where
  "Condvar_signal c s =
     (case cv_wait_queue c of t # q \<Rightarrow> (c\<lparr>cv_wait_queue := q\<rparr>, wakeup_task t s) | [] \<Rightarrow> (c, s))"

text \<open>
  \<open>wait\<close> for a mutex with the given \<open>lock\<close> and \<open>unlock\<close>: up to the point where the task is blocked, and from there on,
  when the task is scheduled again: it calls \<open>lock\<close> and returns when that does.
\<close>

definition Condvar_wait :: "('m \<Rightarrow> sched \<Rightarrow> ('m \<times> sched) option) \<Rightarrow> Condvar \<Rightarrow> 'm \<Rightarrow> sched \<Rightarrow> (Condvar \<times> 'm \<times> sched) option" where
  "Condvar_wait unlock c m s =
     do { (m, s) \<leftarrow> unlock m s;
          t \<leftarrow> current_task s;
          let c = c\<lparr>cv_wait_queue := cv_wait_queue c @ [t]\<rparr>;
          s \<leftarrow> block_current_and_run_next s;
          Some (c, m, s) }"

definition Condvar_wait_woken :: "('m \<Rightarrow> sched \<Rightarrow> (lock_outcome \<times> 'm \<times> sched) option) \<Rightarrow> 'm \<Rightarrow> sched \<Rightarrow> (lock_outcome \<times> 'm \<times> sched) option" where
  "Condvar_wait_woken lock m s = lock m s"

section \<open>Parked tasks\<close>

text \<open>The tasks in a wait queue are blocked and wait once each.\<close>

definition parked :: "task list \<Rightarrow> sched \<Rightarrow> bool" where
  "parked q s \<longleftrightarrow> sched_inv s \<and> distinct q \<and> list_all (\<lambda>t. task_status s t = Blocked) q"

lemma parked_Nil [simp]: "parked [] s \<longleftrightarrow> sched_inv s"
  by (simp add: parked_def)

lemma parkedD:
  assumes "parked q s" "t \<in> set q"
  shows "task_status s t = Blocked" "t \<notin> set (ready s)" "current_task s \<noteq> Some t"
  using assms by (auto simp: parked_def sched_inv_def list_all_iff)

lemma parked_push:
  assumes "parked q s" "current_task s = Some t" "block_current_and_run_next s = Some s'"
  shows "parked (q @ [t]) s'"
proof -
  have "sched_inv s'" using assms by (auto simp: parked_def intro: sched_inv_block)
  then show ?thesis using assms parkedD(3) [OF assms(1)]
    by (auto elim!: block_Some simp: parked_def list_all_iff)
qed

lemma parked_pop: "parked (t # q) s \<Longrightarrow> parked q (wakeup_task t s)"
  by (auto simp: parked_def sched_inv_wakeup sched_simps list_all_iff)

lemma parked_step:
  assumes "parked q s" "sched_step s e s'" "\<And>t. t \<in> set q \<Longrightarrow> e \<noteq> Wakeup t"
  shows "parked q s'"
proof -
  have "task_status s' t = Blocked" if t: "t \<in> set q" for t
    using assms(2) parkedD [OF assms(1) t] assms(3) [OF t]
  proof cases
    case dispatch
    then show ?thesis using parkedD [OF assms(1) t] by (cases "ready s") (auto simp: run_step_fields)
  next
    case exit
    then show ?thesis using parkedD(1) [OF assms(1) t] take_current_fields(3) [of s] by simp
  qed (auto simp: sched_simps elim!: suspend_Some block_Some)
  then show ?thesis using assms(1) sched_inv_step [OF assms(2)] by (simp add: parked_def list_all_iff)
qed

section \<open>Tasks using a mutex\<close>

text \<open>
  Where a task is with respect to one mutex: outside, in the loop of a spinning \<open>lock\<close>, parked by \<open>lock\<close>, or
  between the return of \<open>lock\<close> and the call of \<open>unlock\<close>. The current task locks, goes on inside \<open>lock\<close> when it is
  scheduled again, and unlocks when it holds the lock. In between, the rest of the kernel acts on the scheduler:
  it does not wake the tasks parked here, the current task leaves the processor otherwise only when it is not
  inside \<open>lock\<close>, and only tasks outside are taken out of the ready queue.
\<close>

datatype mutex_pc = Out | Trying | Waiting | In

record 'm mutex_sys =
  sys_mutex :: 'm
  sys_sched :: sched
  sys_pc :: "task \<Rightarrow> mutex_pc"

fun pc_of_outcome :: "lock_outcome \<Rightarrow> mutex_pc" where
  "pc_of_outcome Acquired = In"
| "pc_of_outcome Parked = Waiting"
| "pc_of_outcome Retry = Trying"

fun env_ok :: "(task \<Rightarrow> mutex_pc) \<Rightarrow> task list \<Rightarrow> task option \<Rightarrow> sched_event \<Rightarrow> bool" where
  "env_ok pc q cur (Wakeup t) = (t \<notin> set q)"
| "env_ok pc q cur (Remove t) = (pc t = Out)"
| "env_ok pc q cur (Add t) = True"
| "env_ok pc q cur Dispatch = True"
| "env_ok pc q cur e = (case cur of None \<Rightarrow> True | Some t \<Rightarrow> pc t = Out \<or> pc t = In)"

inductive mutex_step :: "('m \<Rightarrow> sched \<Rightarrow> (lock_outcome \<times> 'm \<times> sched) option) \<Rightarrow> ('m \<Rightarrow> sched \<Rightarrow> ('m \<times> sched) option)
    \<Rightarrow> ('m \<Rightarrow> task list) \<Rightarrow> 'm mutex_sys \<Rightarrow> 'm mutex_sys \<Rightarrow> bool" for lock unlock queue where
  lock: "current_task s = Some t \<Longrightarrow> pc t = Out \<or> pc t = Trying \<Longrightarrow> lock m s = Some (r, m', s') \<Longrightarrow>
    mutex_step lock unlock queue \<lparr>sys_mutex = m, sys_sched = s, sys_pc = pc\<rparr>
      \<lparr>sys_mutex = m', sys_sched = s', sys_pc = pc(t := pc_of_outcome r)\<rparr>"
| resume: "current_task s = Some t \<Longrightarrow> pc t = Waiting \<Longrightarrow>
    mutex_step lock unlock queue \<lparr>sys_mutex = m, sys_sched = s, sys_pc = pc\<rparr> \<lparr>sys_mutex = m, sys_sched = s, sys_pc = pc(t := In)\<rparr>"
| unlock: "current_task s = Some t \<Longrightarrow> pc t = In \<Longrightarrow> unlock m s = Some (m', s') \<Longrightarrow>
    mutex_step lock unlock queue \<lparr>sys_mutex = m, sys_sched = s, sys_pc = pc\<rparr> \<lparr>sys_mutex = m', sys_sched = s', sys_pc = pc(t := Out)\<rparr>"
| env: "sched_step s e s' \<Longrightarrow> env_ok pc (queue m) (current_task s) e \<Longrightarrow>
    mutex_step lock unlock queue \<lparr>sys_mutex = m, sys_sched = s, sys_pc = pc\<rparr> \<lparr>sys_mutex = m, sys_sched = s', sys_pc = pc\<rparr>"

text \<open>The tasks that have the lock: they are past \<open>lock\<close>, or were handed the lock while parked.\<close>

definition owners :: "(task \<Rightarrow> mutex_pc) \<Rightarrow> task list \<Rightarrow> task set" where
  "owners pc q = {t. pc t = In \<or> (pc t = Waiting \<and> t \<notin> set q)}"

definition mutex_inv :: "('m \<Rightarrow> bool) \<Rightarrow> ('m \<Rightarrow> task list) \<Rightarrow> 'm mutex_sys \<Rightarrow> bool" where
  "mutex_inv locked queue y \<longleftrightarrow>
     (let m = sys_mutex y; s = sys_sched y; pc = sys_pc y in
      parked (queue m) s \<and> (\<forall>t \<in> set (queue m). pc t = Waiting) \<and> (queue m \<noteq> [] \<longrightarrow> locked m)
      \<and> (if locked m then \<exists>t. owners pc (queue m) = {t} else owners pc (queue m) = {})
      \<and> (\<forall>t. pc t = Waiting \<longrightarrow> t \<in> set (queue m) \<or> t \<in> set (ready s) \<or> current_task s = Some t))"

lemma on_cpu_step:
  assumes "sched_step s e s'" "t \<in> set (ready s) \<or> current_task s = Some t" "env_ok pc q (current_task s) e" "pc t = Waiting \<or> pc t = Trying"
  shows "t \<in> set (ready s') \<or> current_task s' = Some t"
  using assms
proof cases
  case dispatch
  then show ?thesis using assms(2) run_step_fields(1) [of s] by (cases "ready s") (auto simp: run_step_fields)
next
  case (exit u)
  then show ?thesis using assms take_current_fields [of s] by auto
next
  case (remove u)
  then have "t \<noteq> u" using assms(3,4) by auto
  then show ?thesis using assms(2) remove by (simp add: sched_simps in_set_remove1)
qed (use assms in \<open>auto simp: sched_simps elim!: suspend_Some block_Some\<close>)

locale mutex_trait =
  fixes lock :: "'m \<Rightarrow> sched \<Rightarrow> (lock_outcome \<times> 'm \<times> sched) option"
    and unlock :: "'m \<Rightarrow> sched \<Rightarrow> ('m \<times> sched) option"
    and locked :: "'m \<Rightarrow> bool"
    and queue :: "'m \<Rightarrow> task list"
  assumes lock_free: "\<not> locked m \<Longrightarrow> \<exists>m'. lock m s = Some (Acquired, m', s) \<and> locked m' \<and> queue m' = queue m"
    and lock_busy: "locked m \<Longrightarrow> current_task s = Some t \<Longrightarrow>
        (\<exists>m' s'. lock m s = Some (Parked, m', s') \<and> block_current_and_run_next s = Some s' \<and> locked m' \<and> queue m' = queue m @ [t])
      \<or> (\<exists>s'. lock m s = Some (Retry, m, s') \<and> suspend_current_and_run_next s = Some s')"
    and unlock_free: "\<not> locked m \<Longrightarrow> unlock m s = None"
    and unlock_idle: "locked m \<Longrightarrow> queue m = [] \<Longrightarrow> \<exists>m'. unlock m s = Some (m', s) \<and> \<not> locked m' \<and> queue m' = []"
    and unlock_handoff: "locked m \<Longrightarrow> queue m = w # ws \<Longrightarrow> \<exists>m'. unlock m s = Some (m', wakeup_task w s) \<and> locked m' \<and> queue m' = ws"
begin

lemma inv_lock:
  assumes inv: "mutex_inv locked queue \<lparr>sys_mutex = m, sys_sched = s, sys_pc = pc\<rparr>"
    and t: "current_task s = Some t" "pc t = Out \<or> pc t = Trying" and l: "lock m s = Some (r, m', s')"
  shows "mutex_inv locked queue \<lparr>sys_mutex = m', sys_sched = s', sys_pc = pc(t := pc_of_outcome r)\<rparr>"
proof (cases "locked m")
  case False
  with lock_free [of m s] l have r: "r = Acquired" "s' = s" "locked m'" "queue m' = queue m" by auto
  have "owners pc (queue m) = {}" "queue m = []" using inv False by (auto simp: mutex_inv_def Let_def)
  then have "owners (pc(t := In)) [] = {t}" by (auto simp: owners_def)
  then show ?thesis using inv r \<open>queue m = []\<close> by (auto simp: mutex_inv_def Let_def)
next
  case True
  have nt: "t \<notin> set (queue m)" using inv t by (auto simp: mutex_inv_def Let_def)
  have nw: "t \<notin> owners pc (queue m)" using t by (auto simp: owners_def)
  from lock_busy [OF True t(1)] l consider
      (park) "r = Parked" "block_current_and_run_next s = Some s'" "locked m'" "queue m' = queue m @ [t]"
    | (retry) "r = Retry" "m' = m" "suspend_current_and_run_next s = Some s'"
    by auto
  then show ?thesis
  proof cases
    case park
    have "owners (pc(t := Waiting)) (queue m @ [t]) = owners pc (queue m)" using nw by (auto simp: owners_def)
    moreover have "parked (queue m @ [t]) s'" using inv t(1) park(2) by (auto simp: mutex_inv_def Let_def intro: parked_push)
    moreover have "ready s' = ready s" using block_Some [OF park(2)] by auto
    ultimately show ?thesis using inv park True t(1) by (auto simp: mutex_inv_def Let_def)
  next
    case retry
    have "owners (pc(t := Trying)) (queue m) = owners pc (queue m)" using nw by (auto simp: owners_def)
    moreover have "parked (queue m) s'"
      using inv parked_step [OF _ sched_step.suspend [OF retry(3)]] by (auto simp: mutex_inv_def Let_def)
    moreover have "ready s' = ready s @ [t]" using suspend_Some [OF retry(3)] t(1) by auto
    ultimately show ?thesis using inv retry True t by (auto simp: mutex_inv_def Let_def)
  qed
qed

lemma inv_resume:
  assumes inv: "mutex_inv locked queue \<lparr>sys_mutex = m, sys_sched = s, sys_pc = pc\<rparr>" and t: "current_task s = Some t" "pc t = Waiting"
  shows "mutex_inv locked queue \<lparr>sys_mutex = m, sys_sched = s, sys_pc = pc(t := In)\<rparr>"
proof -
  have "t \<notin> set (queue m)" using inv t parkedD(3) by (auto simp: mutex_inv_def Let_def)
  moreover from this have "owners (pc(t := In)) (queue m) = owners pc (queue m)" using t by (auto simp: owners_def)
  ultimately show ?thesis using inv by (auto simp: mutex_inv_def Let_def)
qed

lemma holder_locked:
  assumes "mutex_inv locked queue y" "t \<in> owners (sys_pc y) (queue (sys_mutex y))"
  shows "locked (sys_mutex y)" "owners (sys_pc y) (queue (sys_mutex y)) = {t}"
  using assms by (auto simp: mutex_inv_def Let_def split: if_splits)

lemma inv_unlock:
  assumes inv: "mutex_inv locked queue \<lparr>sys_mutex = m, sys_sched = s, sys_pc = pc\<rparr>"
    and t: "current_task s = Some t" "pc t = In" and u: "unlock m s = Some (m', s')"
  shows "mutex_inv locked queue \<lparr>sys_mutex = m', sys_sched = s', sys_pc = pc(t := Out)\<rparr>"
proof -
  have "t \<in> owners pc (queue m)" using t by (simp add: owners_def)
  with holder_locked [OF inv, of t] have l: "locked m" and o: "owners pc (queue m) = {t}" by simp_all
  show ?thesis
  proof (cases "queue m")
    case Nil
    with unlock_idle [OF l Nil, of s] u have r: "s' = s" "\<not> locked m'" "queue m' = []" by auto
    have "owners (pc(t := Out)) [] = {}" using o Nil by (auto simp: owners_def)
    then show ?thesis using inv r Nil by (auto simp: mutex_inv_def Let_def)
  next
    case (Cons w ws)
    with unlock_handoff [OF l Cons, of s] u have r: "s' = wakeup_task w s" "locked m'" "queue m' = ws" by auto
    have w: "pc w = Waiting" "w \<notin> set ws" "w \<noteq> t" using inv Cons t by (auto simp: mutex_inv_def Let_def parked_def)
    have "owners (pc(t := Out)) ws = {w}" using o Cons w by (auto simp: owners_def)
    moreover have "parked ws s'" using inv Cons r(1) by (auto simp: mutex_inv_def Let_def intro: parked_pop)
    ultimately show ?thesis using inv r Cons t w by (auto simp: mutex_inv_def Let_def sched_simps)
  qed
qed

lemma inv_env:
  assumes inv: "mutex_inv locked queue \<lparr>sys_mutex = m, sys_sched = s, sys_pc = pc\<rparr>"
    and e: "sched_step s e s'" "env_ok pc (queue m) (current_task s) e"
  shows "mutex_inv locked queue \<lparr>sys_mutex = m, sys_sched = s', sys_pc = pc\<rparr>"
proof -
  have "parked (queue m) s'" using inv e by (auto simp: mutex_inv_def Let_def intro!: parked_step [OF _ e(1)])
  with inv on_cpu_step [OF e(1) _ e(2)] show ?thesis by (auto simp: mutex_inv_def Let_def)
qed

lemma inv_step: "mutex_step lock unlock queue y y' \<Longrightarrow> mutex_inv locked queue y \<Longrightarrow> mutex_inv locked queue y'"
  by (induction rule: mutex_step.induct) (auto intro: inv_lock inv_resume inv_unlock inv_env)

lemma inv_steps: "(mutex_step lock unlock queue)\<^sup>*\<^sup>* y y' \<Longrightarrow> mutex_inv locked queue y \<Longrightarrow> mutex_inv locked queue y'"
  by (induction rule: rtranclp_induct) (auto intro: inv_step)

text \<open>A task in the loop of a spinning \<open>lock\<close> is never blocked.\<close>

lemma trying_step:
  assumes "mutex_step lock unlock queue y y'" "mutex_inv locked queue y"
    and "\<forall>t. sys_pc y t = Trying \<longrightarrow> t \<in> set (ready (sys_sched y)) \<or> current_task (sys_sched y) = Some t"
  shows "sys_pc y' t = Trying \<longrightarrow> t \<in> set (ready (sys_sched y')) \<or> current_task (sys_sched y') = Some t"
  using assms
proof cases
  case (lock s u pc m r m' s')
  show ?thesis
  proof (cases "locked m")
    case False
    then show ?thesis using lock_free [OF False, of s] lock assms(3) by auto
  next
    case True
    then show ?thesis using lock_busy [OF True lock(3)] lock assms(3) by (auto elim!: block_Some suspend_Some)
  qed
next
  case (unlock s u pc m m' s')
  have "locked m" using assms(2) unlock holder_locked(1) [of y u] by (simp add: owners_def)
  then show ?thesis using unlock_idle [of m s] unlock_handoff [of m _ _ s] unlock assms(3)
    by (cases "queue m") (auto simp: sched_simps)
next
  case (env s e s' pc m)
  then show ?thesis using on_cpu_step [OF env(3) _ env(4)] assms(3) by auto
qed (use assms(3) in auto)

lemma trying_steps:
  assumes "(mutex_step lock unlock queue)\<^sup>*\<^sup>* y y'" "mutex_inv locked queue y"
    and "\<forall>t. sys_pc y t = Trying \<longrightarrow> t \<in> set (ready (sys_sched y)) \<or> current_task (sys_sched y) = Some t"
  shows "\<forall>t. sys_pc y' t = Trying \<longrightarrow> t \<in> set (ready (sys_sched y')) \<or> current_task (sys_sched y') = Some t"
  using assms
proof (induction rule: rtranclp_induct)
  case (step y' y'')
  then show ?case using trying_step [OF step.hyps(2) inv_steps [OF step.hyps(1)]] by blast
qed

lemma inv_start:
  "sched_inv s \<Longrightarrow> \<not> locked m \<Longrightarrow> queue m = [] \<Longrightarrow> mutex_inv locked queue \<lparr>sys_mutex = m, sys_sched = s, sys_pc = \<lambda>_. Out\<rparr>"
  by (simp add: mutex_inv_def owners_def)

text \<open>Waiting on a condition variable with a mutex that keeps the contract.\<close>

lemma wait_unlocked: "\<not> locked m \<Longrightarrow> Condvar_wait unlock c m s = None"
  by (simp add: Condvar_wait_def unlock_free)

lemma wait_locked:
  assumes "locked m" "current_task s = Some t" "parked (queue m @ cv_wait_queue c) s"
  shows "\<exists>m' s'. Condvar_wait unlock c m s = Some (\<lparr>cv_wait_queue = cv_wait_queue c @ [t]\<rparr>, m', s')
    \<and> queue m' = tl (queue m) \<and> (locked m' \<longleftrightarrow> queue m \<noteq> []) \<and> ready s' = ready s @ take 1 (queue m)
    \<and> current_task s' = None \<and> parked (queue m' @ cv_wait_queue c @ [t]) s'"
proof -
  obtain m' s1 where u: "unlock m s = Some (m', s1)" "queue m' = tl (queue m)" "locked m' \<longleftrightarrow> queue m \<noteq> []"
      "ready s1 = ready s @ take 1 (queue m)" "current_task s1 = Some t" "parked (queue m' @ cv_wait_queue c) s1"
  proof (cases "queue m")
    case Nil
    then show ?thesis using that unlock_idle [OF assms(1) Nil, of s] assms by auto
  next
    case (Cons w ws)
    then show ?thesis using that unlock_handoff [OF assms(1) Cons, of s] assms
      parked_pop [of w "ws @ cv_wait_queue c" s] by (auto simp: sched_simps)
  qed
  obtain s' where b: "block_current_and_run_next s1 = Some s'" using u(5) by (rule block_fields)
  moreover have "parked ((queue m' @ cv_wait_queue c) @ [t]) s'" by (rule parked_push [OF u(6,5) b])
  ultimately show ?thesis using u block_Some [OF b] by (auto simp: Condvar_wait_def Let_def)
qed

end

section \<open>Both mutexes keep the contract\<close>

interpretation mb: mutex_trait MutexBlocking_lock MutexBlocking_unlock mb_locked mb_wait_queue
proof unfold_locales
  fix m :: MutexBlocking and s t
  assume "mb_locked m" "current_task s = Some t"
  moreover obtain s' where "block_current_and_run_next s = Some s'" using calculation(2) by (rule block_fields)
  ultimately show "(\<exists>m' s'. MutexBlocking_lock m s = Some (Parked, m', s') \<and> block_current_and_run_next s = Some s'
        \<and> mb_locked m' \<and> mb_wait_queue m' = mb_wait_queue m @ [t])
      \<or> (\<exists>s'. MutexBlocking_lock m s = Some (Retry, m, s') \<and> suspend_current_and_run_next s = Some s')"
    by (simp add: MutexBlocking_lock_def Let_def)
qed (simp_all add: MutexBlocking_lock_def MutexBlocking_unlock_def)

interpretation spin: mutex_trait MutexSpin_lock MutexSpin_unlock spin_locked "\<lambda>_. []"
proof unfold_locales
  fix m :: MutexSpin and s t
  assume "spin_locked m" "current_task s = Some t"
  moreover obtain s' where "suspend_current_and_run_next s = Some s'" using calculation(2) by (rule suspend_fields)
  ultimately show "(\<exists>m' s'. MutexSpin_lock m s = Some (Parked, m', s') \<and> block_current_and_run_next s = Some s'
        \<and> spin_locked m' \<and> [] = [] @ [t])
      \<or> (\<exists>s'. MutexSpin_lock m s = Some (Retry, m, s') \<and> suspend_current_and_run_next s = Some s')"
    by (simp add: MutexSpin_lock_def)
qed (simp_all add: MutexSpin_lock_def MutexSpin_unlock_def)

fun Mutex_locked :: "Mutex \<Rightarrow> bool" where
  "Mutex_locked (Blocking m) = mb_locked m"
| "Mutex_locked (Spin m) = spin_locked m"

fun Mutex_queue :: "Mutex \<Rightarrow> task list" where
  "Mutex_queue (Blocking m) = mb_wait_queue m"
| "Mutex_queue (Spin m) = []"

interpretation dynm: mutex_trait Mutex_lock Mutex_unlock Mutex_locked Mutex_queue
proof unfold_locales
  fix m s
  show "\<not> Mutex_locked m \<Longrightarrow> \<exists>m'. Mutex_lock m s = Some (Acquired, m', s) \<and> Mutex_locked m' \<and> Mutex_queue m' = Mutex_queue m"
    by (cases m) (simp_all add: MutexBlocking_lock_def MutexSpin_lock_def)
  show "\<not> Mutex_locked m \<Longrightarrow> Mutex_unlock m s = None" by (cases m) (simp_all add: mb.unlock_free spin.unlock_free)
  show "\<exists>m'. Mutex_unlock m s = Some (m', s) \<and> \<not> Mutex_locked m' \<and> Mutex_queue m' = []"
    if "Mutex_locked m" "Mutex_queue m = []"
    using that by (cases m) (simp_all add: MutexBlocking_unlock_def MutexSpin_unlock_def)
  show "\<exists>m'. Mutex_unlock m s = Some (m', wakeup_task w s) \<and> Mutex_locked m' \<and> Mutex_queue m' = ws"
    if "Mutex_locked m" "Mutex_queue m = w # ws" for w ws
    using that by (cases m) (simp_all add: MutexBlocking_unlock_def)
  show "(\<exists>m' s'. Mutex_lock m s = Some (Parked, m', s') \<and> block_current_and_run_next s = Some s'
        \<and> Mutex_locked m' \<and> Mutex_queue m' = Mutex_queue m @ [t])
      \<or> (\<exists>s'. Mutex_lock m s = Some (Retry, m, s') \<and> suspend_current_and_run_next s = Some s')"
    if "Mutex_locked m" "current_task s = Some t" for t
  proof (cases m)
    case (Blocking b)
    then show ?thesis using that mb.lock_busy [of b s t] by auto
  next
    case (Spin b)
    then show ?thesis using that spin.lock_busy [of b s t] by auto
  qed
qed

section \<open>Mutual exclusion\<close>

text \<open>
  C3. A mutex, blocking or spinning, under any interleaving of its users with the rest of the kernel: at most
  one task is between \<open>lock\<close> and \<open>unlock\<close>, and then the mutex is locked; its \<open>unlock\<close> does not panic. A task inside
  a blocking \<open>lock\<close> is parked in the queue of the mutex, blocked and waiting for an owner that exists, or it has
  been woken and is in the ready queue or running: no wake-up is lost. A task inside a spinning \<open>lock\<close> is never blocked:
  it is in the ready queue or running. When tasks are parked, which happens only for a blocking mutex, \<open>unlock\<close> hands the
  lock to the one that has waited longest, and no other task takes it in between. When nobody is parked, and so always
  for a spinning mutex, \<open>unlock\<close> frees the mutex: nobody has it, and whichever task calls \<open>lock\<close> next gets it, in no
  particular order.
\<close>

theorem mutex_exclusion:
  assumes start: "sched_inv s0" "m0 = Blocking MutexBlocking_new \<or> m0 = Spin MutexSpin_new"
    and steps: "(mutex_step Mutex_lock Mutex_unlock Mutex_queue)\<^sup>*\<^sup>*
      \<lparr>sys_mutex = m0, sys_sched = s0, sys_pc = \<lambda>_. Out\<rparr> \<lparr>sys_mutex = m, sys_sched = s, sys_pc = pc\<rparr>"
  shows "(pc t = In \<longrightarrow> pc u = In \<longrightarrow> t = u)
    \<and> (pc t = In \<longrightarrow> (\<exists>m' s'. Mutex_unlock m s = Some (m', s')))
    \<and> (pc t = Waiting \<longrightarrow> (t \<in> set (Mutex_queue m) \<and> task_status s t = Blocked \<and> (\<exists>u. owners pc (Mutex_queue m) = {u}))
      \<or> t \<in> set (ready s) \<or> current_task s = Some t)
    \<and> (pc t = Trying \<longrightarrow> t \<in> set (ready s) \<or> current_task s = Some t)
    \<and> (pc t = In \<longrightarrow> m = Blocking b \<longrightarrow> mb_wait_queue b = w # ws \<longrightarrow> Mutex_unlock m s = Some (m', s')
      \<longrightarrow> owners (pc(t := Out)) (Mutex_queue m') = {w} \<and> Mutex_locked m' \<and> Mutex_queue m' = ws \<and> ready s' = ready s @ [w])
    \<and> (pc t = In \<longrightarrow> (\<forall>b. m = Blocking b \<longrightarrow> mb_wait_queue b = []) \<longrightarrow> Mutex_unlock m s = Some (m', s')
      \<longrightarrow> owners (pc(t := Out)) (Mutex_queue m') = {} \<and> s' = s \<and> (\<forall>d. \<exists>m''. Mutex_lock m' d = Some (Acquired, m'', d)))"
proof (rule conjI, rule_tac [2] conjI, rule_tac [3] conjI, rule_tac [4] conjI, rule_tac [5] conjI; (intro impI)?)
  let ?y = "\<lparr>sys_mutex = m, sys_sched = s, sys_pc = pc\<rparr>"
  have inv0: "mutex_inv Mutex_locked Mutex_queue \<lparr>sys_mutex = m0, sys_sched = s0, sys_pc = \<lambda>_. Out\<rparr>"
    by (rule dynm.inv_start) (use start in \<open>auto simp: MutexBlocking_new_def MutexSpin_new_def\<close>)
  have inv: "mutex_inv Mutex_locked Mutex_queue ?y" by (rule dynm.inv_steps [OF steps inv0])
  have o: "Mutex_locked m" "owners pc (Mutex_queue m) = {x}" if "pc x = In" for x
    using dynm.holder_locked [OF inv, of x] that by (simp_all add: owners_def)
  show "t = u" if "pc t = In" "pc u = In" using o(2) [OF that(1)] o(2) [OF that(2)] by simp
  show "\<exists>m' s'. Mutex_unlock m s = Some (m', s')" if "pc t = In"
    using dynm.unlock_idle [OF o(1) [OF that]] dynm.unlock_handoff [OF o(1) [OF that]] by (cases "Mutex_queue m") blast+
  show "(t \<in> set (Mutex_queue m) \<and> task_status s t = Blocked \<and> (\<exists>u. owners pc (Mutex_queue m) = {u}))
      \<or> t \<in> set (ready s) \<or> current_task s = Some t" if "pc t = Waiting"
    using inv that parkedD(1) [of "Mutex_queue m" s t] by (auto simp: mutex_inv_def Let_def split: if_splits)
  show "t \<in> set (ready s) \<or> current_task s = Some t" if "pc t = Trying"
    using dynm.trying_steps [OF steps inv0] that by simp
  show "owners (pc(t := Out)) (Mutex_queue m') = {w} \<and> Mutex_locked m' \<and> Mutex_queue m' = ws \<and> ready s' = ready s @ [w]"
    if t: "pc t = In" and b: "m = Blocking b" "mb_wait_queue b = w # ws" and u: "Mutex_unlock m s = Some (m', s')"
  proof -
    have q: "Mutex_queue m = w # ws" using b by simp
    have r: "s' = wakeup_task w s" "Mutex_locked m'" "Mutex_queue m' = ws"
      using dynm.unlock_handoff [OF o(1) [OF t] q, of s] u by auto
    have "pc w = Waiting" "w \<notin> set ws" using inv q by (auto simp: mutex_inv_def Let_def parked_def)
    with o(2) [OF t] q have "owners (pc(t := Out)) ws = {w}" using t by (auto simp: owners_def)
    with r show ?thesis by (simp add: sched_simps)
  qed
  assume t: "pc t = In" and "\<forall>b. m = Blocking b \<longrightarrow> mb_wait_queue b = []" and u: "Mutex_unlock m s = Some (m', s')"
  then have q: "Mutex_queue m = []" by (cases m) simp_all
  have r: "s' = s" "\<not> Mutex_locked m'" "Mutex_queue m' = []" using dynm.unlock_idle [OF o(1) [OF t] q, of s] u by auto
  have "owners (pc(t := Out)) [] = {}" using o(2) [OF t] q by (auto simp: owners_def)
  then show "owners (pc(t := Out)) (Mutex_queue m') = {} \<and> s' = s \<and> (\<forall>d. \<exists>m''. Mutex_lock m' d = Some (Acquired, m'', d))"
    using r dynm.lock_free [OF r(2)] by auto
qed

text \<open>
  Task 1 takes the lock and yields, task 2 is parked by \<open>lock\<close>, and task 1 runs again.
\<close>

definition contended_start :: sched where
  "contended_start = run_tasks_step two_tasks"

definition contended :: sched where
  "contended = run_tasks_step (the (block_current_and_run_next two_tasks_end))"

lemmas contended_eval = contended_def contended_start_def block_current_and_run_next_def two_tasks_eval

lemma contended_run:
  "(mutex_step Mutex_lock Mutex_unlock Mutex_queue)\<^sup>*\<^sup>*
     \<lparr>sys_mutex = Blocking MutexBlocking_new, sys_sched = contended_start, sys_pc = \<lambda>_. Out\<rparr>
     \<lparr>sys_mutex = Blocking \<lparr>mb_locked = True, mb_wait_queue = [2]\<rparr>, sys_sched = contended, sys_pc = (\<lambda>_. Out)(1 := In, 2 := Waiting)\<rparr>"
  (is "?R\<^sup>*\<^sup>* ?y0 ?y5")
proof -
  let ?m = "Blocking \<lparr>mb_locked = True, mb_wait_queue = []\<rparr>" and ?m2 = "Blocking \<lparr>mb_locked = True, mb_wait_queue = [2]\<rparr>"
  let ?pc = "(\<lambda>_. Out)(1 := In)" and ?s2 = "the (suspend_current_and_run_next contended_start)"
  let ?s4 = "the (block_current_and_run_next two_tasks_end)"
  have "?R ?y0 \<lparr>sys_mutex = ?m, sys_sched = contended_start, sys_pc = (\<lambda>_. Out)(1 := pc_of_outcome Acquired)\<rparr>"
    by (rule mutex_step.lock) (simp_all add: contended_eval MutexBlocking_lock_def MutexBlocking_new_def)
  moreover have "?R \<lparr>sys_mutex = ?m, sys_sched = contended_start, sys_pc = ?pc\<rparr> \<lparr>sys_mutex = ?m, sys_sched = ?s2, sys_pc = ?pc\<rparr>"
    by (rule mutex_step.env [OF sched_step.suspend]) (simp_all add: contended_eval)
  moreover have "?R \<lparr>sys_mutex = ?m, sys_sched = ?s2, sys_pc = ?pc\<rparr> \<lparr>sys_mutex = ?m, sys_sched = two_tasks_end, sys_pc = ?pc\<rparr>"
    unfolding two_tasks_end_def contended_start_def
    by (rule mutex_step.env [OF sched_step.dispatch]) (simp_all add: contended_eval)
  moreover have "?R \<lparr>sys_mutex = ?m, sys_sched = two_tasks_end, sys_pc = ?pc\<rparr>
      \<lparr>sys_mutex = ?m2, sys_sched = ?s4, sys_pc = ?pc(2 := pc_of_outcome Parked)\<rparr>"
    by (rule mutex_step.lock) (simp_all add: contended_eval MutexBlocking_lock_def)
  moreover have "?R \<lparr>sys_mutex = ?m2, sys_sched = ?s4, sys_pc = ?pc(2 := Waiting)\<rparr> ?y5"
    unfolding contended_def by (rule mutex_step.env [OF sched_step.dispatch]) (simp_all add: contended_eval)
  ultimately show ?thesis by (simp only: pc_of_outcome.simps)
qed

text \<open>
  With the blocking mutex the parked task gets the lock. With the spinning mutex, taken by task 1 and not by task 2, the
  lock is free after \<open>unlock\<close>, and task 1 itself could take it again.
\<close>

lemma spin_run:
  "(mutex_step Mutex_lock Mutex_unlock Mutex_queue)\<^sup>*\<^sup>*
     \<lparr>sys_mutex = Spin MutexSpin_new, sys_sched = contended_start, sys_pc = \<lambda>_. Out\<rparr>
     \<lparr>sys_mutex = Spin \<lparr>spin_locked = True\<rparr>, sys_sched = contended_start, sys_pc = (\<lambda>_. Out)(1 := In)\<rparr>"
proof (rule r_into_rtranclp)
  have "mutex_step Mutex_lock Mutex_unlock Mutex_queue
     \<lparr>sys_mutex = Spin MutexSpin_new, sys_sched = contended_start, sys_pc = \<lambda>_. Out\<rparr>
     \<lparr>sys_mutex = Spin \<lparr>spin_locked = True\<rparr>, sys_sched = contended_start, sys_pc = (\<lambda>_. Out)(1 := pc_of_outcome Acquired)\<rparr>"
    by (rule mutex_step.lock) (simp_all add: contended_eval MutexSpin_lock_def MutexSpin_new_def)
  then show "mutex_step Mutex_lock Mutex_unlock Mutex_queue
     \<lparr>sys_mutex = Spin MutexSpin_new, sys_sched = contended_start, sys_pc = \<lambda>_. Out\<rparr>
     \<lparr>sys_mutex = Spin \<lparr>spin_locked = True\<rparr>, sys_sched = contended_start, sys_pc = (\<lambda>_. Out)(1 := In)\<rparr>" by (simp only: pc_of_outcome.simps)
qed

theorem mutex_exclusion_witness:
  "task_status contended 2 = Blocked
   \<and> owners ((\<lambda>_. Out)(2 := Waiting)) [] = {2}
   \<and> (\<exists>m' s'. Mutex_unlock (Blocking \<lparr>mb_locked = True, mb_wait_queue = [2]\<rparr>) contended = Some (m', s') \<and> ready s' = [2])
   \<and> (\<exists>m' m''. Mutex_unlock (Spin \<lparr>spin_locked = True\<rparr>) contended_start = Some (m', contended_start)
      \<and> Mutex_lock m' contended_start = Some (Acquired, m'', contended_start) \<and> current_task contended_start = Some 1)"
proof -
  have s0: "sched_inv contended_start" by (simp add: sched_inv_def contended_eval)
  note ex = mutex_exclusion [OF s0 disjI1 [OF refl] contended_run]
  obtain m' s' where u: "Mutex_unlock (Blocking \<lparr>mb_locked = True, mb_wait_queue = [2]\<rparr>) contended = Some (m', s')"
    using ex [THEN conjunct2, THEN conjunct1, THEN mp, of 1] by auto
  have pc: "((\<lambda>_. Out)(1 := In, 2 := Waiting)) (1::nat) = In" by simp
  have e: "((\<lambda>_. Out)(1 := In, 2 := Waiting, 1 := Out)) = (\<lambda>_::nat. Out)(2 := Waiting)" by auto
  have q: "mb_wait_queue \<lparr>mb_locked = True, mb_wait_queue = [2]\<rparr> = 2 # []" by simp
  have "owners ((\<lambda>_. Out)(2 := Waiting)) [] = {2}" "ready s' = ready contended @ [2]"
    using ex [THEN conjunct2, THEN conjunct2, THEN conjunct2, THEN conjunct2, THEN conjunct1, THEN mp, THEN mp, THEN mp, THEN mp, OF pc refl q u, unfolded e] by metis+
  moreover have "ready contended = []" "task_status contended 2 = Blocked" by (simp_all add: contended_eval)
  moreover have "\<exists>m' m''. Mutex_unlock (Spin \<lparr>spin_locked = True\<rparr>) contended_start = Some (m', contended_start)
      \<and> Mutex_lock m' contended_start = Some (Acquired, m'', contended_start)"
  proof -
    note sp = mutex_exclusion [OF s0 disjI2 [OF refl] spin_run]
    obtain m1 s1 where u1: "Mutex_unlock (Spin \<lparr>spin_locked = True\<rparr>) contended_start = Some (m1, s1)"
      using sp [THEN conjunct2, THEN conjunct1, THEN mp, of 1] by auto
    have "s1 = contended_start \<and> (\<forall>d. \<exists>m''. Mutex_lock m1 d = Some (Acquired, m'', d))"
      using sp [of 1, THEN conjunct2, THEN conjunct2, THEN conjunct2, THEN conjunct2, THEN conjunct2, THEN mp, THEN mp, THEN mp, OF _ _ u1] by simp
    then show ?thesis using u1 by blast
  qed
  moreover have "current_task contended_start = Some 1" by (simp add: contended_eval)
  ultimately show ?thesis using u by simp
qed

end
