(* ===== verification/SyncProps.thy ===== *)
theory SyncProps
  imports Sync
begin

text \<open>
  Semaphores and condition variables under interleaving: how many tasks pass a semaphore, which tasks wait, and
  what a task that waits on a condition variable gives up and gets back.
\<close>

lemma parked_remove: "parked (p @ t # q) s \<Longrightarrow> parked (p @ q) (wakeup_task t s)"
  by (auto simp: parked_def sched_inv_wakeup sched_simps list_all_iff)

section \<open>Tasks using a semaphore\<close>

text \<open>
  The current task calls \<open>up\<close> or \<open>down\<close>; in between the rest of the kernel acts on the scheduler, without
  waking the tasks parked here.
\<close>

datatype sem_event = Up | Down | Other sched_event

inductive sem_trace :: "Semaphore \<Rightarrow> sched \<Rightarrow> sem_event list \<Rightarrow> Semaphore \<Rightarrow> sched \<Rightarrow> bool" where
  start: "sem_trace m s [] m s"
| up: "sem_trace m s es m1 s1 \<Longrightarrow> Semaphore_up m1 s1 = (m2, s2) \<Longrightarrow> sem_trace m s (es @ [Up]) m2 s2"
| down: "sem_trace m s es m1 s1 \<Longrightarrow> Semaphore_down m1 s1 = Some (m2, s2) \<Longrightarrow> sem_trace m s (es @ [Down]) m2 s2"
| other: "sem_trace m s es m1 s1 \<Longrightarrow> sched_step s1 e s2 \<Longrightarrow> (\<And>t. t \<in> set (sem_wait_queue m1) \<Longrightarrow> e \<noteq> Wakeup t) \<Longrightarrow>
    sem_trace m s (es @ [Other e]) m1 s2"

text \<open>The count is \<open>k\<close>, in range, and when it is negative as many tasks wait.\<close>

definition sem_inv :: "int \<Rightarrow> Semaphore \<Rightarrow> sched \<Rightarrow> bool" where
  "sem_inv k m s \<longleftrightarrow> sem_count m = word_of_int k \<and> - (2 ^ 63) \<le> k \<and> k < 2 ^ 63
     \<and> length (sem_wait_queue m) = nat (- k) \<and> parked (sem_wait_queue m) s"

lemma sint_word_of_int_64: "- (2 ^ 63) \<le> k \<Longrightarrow> k < 2 ^ 63 \<Longrightarrow> sint (word_of_int k :: 64 word) = k"
  by (simp add: signed_of_int signed_take_bit_int_eq_self)

lemma int_add_less: "m + n < (2 ^ 63 :: nat) \<Longrightarrow> int m + int n < 2 ^ 63"
  by simp

lemma sem_inv_up:
  assumes inv: "sem_inv k m s" and k: "k + 1 < 2 ^ 63" and u: "Semaphore_up m s = (m', s')"
  shows "sem_inv (k + 1) m' s'"
proof -
  have c: "sem_count m + 1 = word_of_int (k + 1)" using inv by (simp add: sem_inv_def)
  have s: "sint (word_of_int (k + 1) :: 64 word) = k + 1"
    using inv k by (intro sint_word_of_int_64) (auto simp: sem_inv_def)
  show ?thesis
  proof (cases "k + 1 \<le> 0")
    case True
    then obtain t q where q: "sem_wait_queue m = t # q" using inv by (cases "sem_wait_queue m") (auto simp: sem_inv_def)
    then have "m' = m\<lparr>sem_count := word_of_int (k + 1), sem_wait_queue := q\<rparr>" "s' = wakeup_task t s"
      using u True s unfolding Semaphore_up_def Let_def by (auto simp: c simp del: of_int_add)
    with inv q k show ?thesis by (auto simp: sem_inv_def parked_pop)
  next
    case False
    then have "m' = m\<lparr>sem_count := word_of_int (k + 1)\<rparr>" "s' = s"
      using u s unfolding Semaphore_up_def Let_def by (auto simp: c simp del: of_int_add)
    with inv k False show ?thesis by (auto simp: sem_inv_def)
  qed
qed

lemma sem_inv_down:
  assumes inv: "sem_inv k m s" and k: "- (2 ^ 63) \<le> k - 1" and d: "Semaphore_down m s = Some (m', s')"
  shows "sem_inv (k - 1) m' s'"
proof -
  have c: "sem_count m - 1 = word_of_int (k - 1)" using inv by (simp add: sem_inv_def)
  have s: "sint (word_of_int (k - 1) :: 64 word) = k - 1"
    using inv k by (intro sint_word_of_int_64) (auto simp: sem_inv_def)
  show ?thesis
  proof (cases "k - 1 < 0")
    case True
    then obtain t s1 where t: "current_task s = Some t" "block_current_and_run_next s = Some s1"
        "m' = m\<lparr>sem_count := word_of_int (k - 1), sem_wait_queue := sem_wait_queue m @ [t]\<rparr>" "s' = s1"
      using d s unfolding Semaphore_down_def Let_def
      by (auto simp: c bind_eq_Some_conv simp del: of_int_diff)
    with inv k True show ?thesis using parked_push [of "sem_wait_queue m" s t s1] by (auto simp: sem_inv_def)
  next
    case False
    then have "m' = m\<lparr>sem_count := word_of_int (k - 1)\<rparr>" "s' = s"
      using d s unfolding Semaphore_down_def Let_def by (auto simp: c simp del: of_int_diff)
    with inv k False show ?thesis by (auto simp: sem_inv_def)
  qed
qed

lemma sem_inv_trace:
  assumes "sem_trace m s es m' s'" "sem_inv k m s" "0 \<le> k"
    and "k + int (count_list es Up) < 2 ^ 63" "count_list es Down \<le> 2 ^ 63"
  shows "sem_inv (k + int (count_list es Up) - int (count_list es Down)) m' s'"
  using assms
proof (induction rule: sem_trace.induct)
  case (up m s es m1 s1 m2 s2)
  have "sem_inv (k + int (count_list es Up) - int (count_list es Down) + 1) m2 s2"
    by (rule sem_inv_up [OF up.IH _ up.hyps(2)]) (use up.prems in auto)
  then show ?case by (simp add: algebra_simps)
next
  case (down m s es m1 s1 m2 s2)
  have "sem_inv (k + int (count_list es Up) - int (count_list es Down) - 1) m2 s2"
    by (rule sem_inv_down [OF down.IH _ down.hyps(2)]) (use down.prems in auto)
  then show ?case by (simp add: algebra_simps)
next
  case (other m s es m1 s1 e s2)
  then have "sem_inv (k + int (count_list es Up) - int (count_list es Down)) m1 s1" by simp
  then show ?case using parked_step [OF _ other.hyps(2,3)] by (auto simp: sem_inv_def)
qed simp

text \<open>
  C17. A semaphore created with \<open>res_count\<close> resources (below \<open>2 ^ 63\<close>, where the cast to \<open>isize\<close> is exact), under any
  interleaving of \<open>up\<close>, \<open>down\<close> and the rest of the kernel in which the count does not overflow: the calls of \<open>down\<close>
  that have got past the semaphore are at most the resources plus the calls of \<open>up\<close>; as long as a task waits they
  are exactly as many, so that no task waits for a resource that is there; every waiting task is blocked, waits
  once, and the next \<open>up\<close> moves the one that has waited longest to the ready queue.
\<close>

theorem semaphore_counts:
  assumes "sched_inv s0" "unat res_count < 2 ^ 63" "sem_trace (Semaphore_new res_count) s0 es m s"
    and "unat res_count + count_list es Up < 2 ^ 63" "count_list es Down \<le> 2 ^ 63"
  shows "(count_list es Down - length (sem_wait_queue m) \<le> unat res_count + count_list es Up)
    \<and> (sem_wait_queue m \<noteq> [] \<longrightarrow> count_list es Down - length (sem_wait_queue m) = unat res_count + count_list es Up)
    \<and> (distinct (sem_wait_queue m) \<and> list_all (\<lambda>t. task_status s t = Blocked) (sem_wait_queue m))
    \<and> (sem_wait_queue m = t # q \<longrightarrow> unat res_count + count_list es Up + 1 < 2 ^ 63 \<longrightarrow>
      (\<exists>m'. Semaphore_up m s = (m', wakeup_task t s) \<and> sem_wait_queue m' = q \<and> ready (wakeup_task t s) = ready s @ [t]))"
proof (rule conjI, rule_tac [2] conjI, rule_tac [3] conjI; (intro impI)?)
  define k where "k = int (unat res_count) + int (count_list es Up) - int (count_list es Down)"
  have w: "word_of_int (int (unat res_count)) = res_count" by simp
  have "sem_inv (int (unat res_count)) (Semaphore_new res_count) s0"
  proof -
    have "int (unat res_count) < int (2 ^ 63)" using assms(2) unfolding of_nat_less_iff .
    then have "uint res_count < 2 ^ 63" by simp
    moreover have "- (2 ^ 63) \<le> uint res_count" by (rule order_trans [of _ 0]) simp_all
    ultimately show ?thesis using assms(1) by (simp add: sem_inv_def Semaphore_new_def)
  qed
  then have inv: "sem_inv k m s" unfolding k_def
    by (rule sem_inv_trace [OF assms(3) _ _ int_add_less [OF assms(4)] assms(5)]) simp
  then have len: "length (sem_wait_queue m) = nat (- k)" by (simp add: sem_inv_def)
  obtain n where n: "n = unat res_count" by blast
  show "count_list es Down - length (sem_wait_queue m) \<le> unat res_count + count_list es Up"
    unfolding len k_def n [symmetric] by linarith
  show "count_list es Down - length (sem_wait_queue m) = unat res_count + count_list es Up" if "sem_wait_queue m \<noteq> []"
  proof -
    have "0 < nat (- k)" using that len by (metis length_greater_0_conv)
    then show ?thesis unfolding len k_def n [symmetric] by linarith
  qed
  show "distinct (sem_wait_queue m) \<and> list_all (\<lambda>t. task_status s t = Blocked) (sem_wait_queue m)"
    using inv by (simp add: sem_inv_def parked_def)
  assume q: "sem_wait_queue m = t # q" and "unat res_count + count_list es Up + 1 < 2 ^ 63"
  then have "k + 1 \<le> 0" using len by simp
  moreover have "sint (sem_count m + 1) = k + 1"
    using inv sint_word_of_int_64 [of "k + 1"] \<open>k + 1 \<le> 0\<close> by (simp add: sem_inv_def)
  ultimately show "\<exists>m'. Semaphore_up m s = (m', wakeup_task t s) \<and> sem_wait_queue m' = q
      \<and> ready (wakeup_task t s) = ready s @ [t]"
    using q by (simp add: Semaphore_up_def sched_simps)
qed

text \<open>One resource, two tasks: the first passes, yields, and the second waits.\<close>

lemma contended_sem:
  "sem_trace (Semaphore_new 1) contended_start [Down, Other Suspend, Other Dispatch, Down]
     \<lparr>sem_count = -1, sem_wait_queue = [2]\<rparr> (the (block_current_and_run_next two_tasks_end))"
proof -
  let ?m = "\<lparr>sem_count = 0, sem_wait_queue = []\<rparr>" and ?s2 = "the (suspend_current_and_run_next contended_start)"
  have "sem_trace (Semaphore_new 1) contended_start ([] @ [Down]) ?m contended_start"
    by (rule sem_trace.down [OF sem_trace.start]) (simp add: Semaphore_new_def Semaphore_down_def)
  then have "sem_trace (Semaphore_new 1) contended_start (([] @ [Down]) @ [Other Suspend]) ?m ?s2"
    by (rule sem_trace.other [OF _ sched_step.suspend]) (simp_all add: contended_eval)
  then have "sem_trace (Semaphore_new 1) contended_start ((([] @ [Down]) @ [Other Suspend]) @ [Other Dispatch]) ?m two_tasks_end"
    unfolding two_tasks_end_def contended_start_def
    by (rule sem_trace.other [OF _ sched_step.dispatch]) (simp_all add: contended_eval)
  then have "sem_trace (Semaphore_new 1) contended_start (((([] @ [Down]) @ [Other Suspend]) @ [Other Dispatch]) @ [Down])
      \<lparr>sem_count = -1, sem_wait_queue = [2]\<rparr> (the (block_current_and_run_next two_tasks_end))"
    by (rule sem_trace.down) (simp add: contended_eval Semaphore_down_def)
  then show ?thesis by simp
qed

theorem semaphore_counts_witness:
  "let es = [Down, Other Suspend, Other Dispatch, Down]; m = \<lparr>sem_count = -1, sem_wait_queue = [2]\<rparr>;
       s = the (block_current_and_run_next two_tasks_end) in
   sem_trace (Semaphore_new 1) contended_start es m s
   \<and> count_list es Down - length (sem_wait_queue m) = unat (1 :: 64 word) + count_list es Up
   \<and> list_all (\<lambda>t. task_status s t = Blocked) (sem_wait_queue m)
   \<and> (\<exists>m'. Semaphore_up m s = (m', wakeup_task 2 s) \<and> sem_wait_queue m' = [] \<and> ready (wakeup_task 2 s) = ready s @ [2])"
proof -
  let ?m = "\<lparr>sem_count = -1, sem_wait_queue = [2]\<rparr>"
  have s0: "sched_inv contended_start" by (simp add: sched_inv_def contended_eval)
  have q: "sem_wait_queue ?m = 2 # []" by simp
  note sc = semaphore_counts [OF s0 _ contended_sem]
  show ?thesis
    unfolding Let_def
    using contended_sem sc [THEN conjunct2, THEN conjunct1, THEN mp] sc [THEN conjunct2, THEN conjunct2, THEN conjunct1]
      sc [THEN conjunct2, THEN conjunct2, THEN conjunct2, THEN mp, THEN mp, OF _ _ _ q] by simp
qed

section \<open>Tasks using a condition variable\<close>

text \<open>
  Where a task is with respect to a mutex and a condition variable: at one of the places it can be with respect to the
  mutex, or inside \<open>wait\<close>, blocked or woken and before the call of \<open>lock\<close> at its end. The current task locks and unlocks
  the mutex, calls \<open>wait\<close> with the mutex, signals, and goes on inside \<open>wait\<close> when it is scheduled again. The rest of the
  kernel acts as for a mutex alone, and does not wake the tasks parked at the condition variable either.
\<close>

datatype cv_pc = At mutex_pc | Asleep

record cv_sys =
  cs_cv :: Condvar
  cs_mutex :: Mutex
  cs_sched :: sched
  cs_pc :: "task \<Rightarrow> cv_pc"

fun busy_view :: "cv_pc \<Rightarrow> mutex_pc" where
  "busy_view (At p) = p"
| "busy_view Asleep = Trying"

inductive cv_step :: "cv_sys \<Rightarrow> cv_sys \<Rightarrow> bool" where
  lock: "current_task s = Some t \<Longrightarrow> pc t = At Out \<or> pc t = At Trying \<Longrightarrow> Mutex_lock m s = Some (r, m', s') \<Longrightarrow>
    cv_step \<lparr>cs_cv = c, cs_mutex = m, cs_sched = s, cs_pc = pc\<rparr>
      \<lparr>cs_cv = c, cs_mutex = m', cs_sched = s', cs_pc = pc(t := At (pc_of_outcome r))\<rparr>"
| resume: "current_task s = Some t \<Longrightarrow> pc t = At Waiting \<Longrightarrow>
    cv_step \<lparr>cs_cv = c, cs_mutex = m, cs_sched = s, cs_pc = pc\<rparr> \<lparr>cs_cv = c, cs_mutex = m, cs_sched = s, cs_pc = pc(t := At In)\<rparr>"
| unlock: "current_task s = Some t \<Longrightarrow> pc t = At In \<Longrightarrow> Mutex_unlock m s = Some (m', s') \<Longrightarrow>
    cv_step \<lparr>cs_cv = c, cs_mutex = m, cs_sched = s, cs_pc = pc\<rparr> \<lparr>cs_cv = c, cs_mutex = m', cs_sched = s', cs_pc = pc(t := At Out)\<rparr>"
| wait: "current_task s = Some t \<Longrightarrow> pc t = At In \<Longrightarrow> Condvar_wait Mutex_unlock c m s = Some (c', m', s') \<Longrightarrow>
    cv_step \<lparr>cs_cv = c, cs_mutex = m, cs_sched = s, cs_pc = pc\<rparr> \<lparr>cs_cv = c', cs_mutex = m', cs_sched = s', cs_pc = pc(t := Asleep)\<rparr>"
| woken: "current_task s = Some t \<Longrightarrow> pc t = Asleep \<Longrightarrow> Condvar_wait_woken Mutex_lock m s = Some (r, m', s') \<Longrightarrow>
    cv_step \<lparr>cs_cv = c, cs_mutex = m, cs_sched = s, cs_pc = pc\<rparr>
      \<lparr>cs_cv = c, cs_mutex = m', cs_sched = s', cs_pc = pc(t := At (pc_of_outcome r))\<rparr>"
| signal: "current_task s = Some t \<Longrightarrow> pc t = At Out \<or> pc t = At In \<Longrightarrow> Condvar_signal c s = (c', s') \<Longrightarrow>
    cv_step \<lparr>cs_cv = c, cs_mutex = m, cs_sched = s, cs_pc = pc\<rparr> \<lparr>cs_cv = c', cs_mutex = m, cs_sched = s', cs_pc = pc\<rparr>"
| env: "sched_step s e s' \<Longrightarrow> env_ok (busy_view \<circ> pc) (Mutex_queue m @ cv_wait_queue c) (current_task s) e \<Longrightarrow>
    cv_step \<lparr>cs_cv = c, cs_mutex = m, cs_sched = s, cs_pc = pc\<rparr> \<lparr>cs_cv = c, cs_mutex = m, cs_sched = s', cs_pc = pc\<rparr>"

text \<open>
  With respect to the mutex alone, a task inside \<open>wait\<close> is outside: every step is one of a few steps of tasks that use
  the mutex, so that its invariant holds.
\<close>

fun cv_view :: "cv_pc \<Rightarrow> mutex_pc" where
  "cv_view (At p) = p"
| "cv_view Asleep = Out"

definition mutex_of :: "cv_sys \<Rightarrow> Mutex mutex_sys" where
  "mutex_of y = \<lparr>sys_mutex = cs_mutex y, sys_sched = cs_sched y, sys_pc = cv_view \<circ> cs_pc y\<rparr>"

definition cv_inv :: "cv_sys \<Rightarrow> bool" where
  "cv_inv y \<longleftrightarrow> mutex_inv Mutex_locked Mutex_queue (mutex_of y) \<and> parked (Mutex_queue (cs_mutex y) @ cv_wait_queue (cs_cv y)) (cs_sched y)
     \<and> (\<forall>t\<in>set (cv_wait_queue (cs_cv y)). cs_pc y t = Asleep)
     \<and> (\<forall>t. cs_pc y t = Asleep \<longrightarrow> t \<in> set (cv_wait_queue (cs_cv y)) \<or> t \<in> set (ready (cs_sched y)) \<or> current_task (cs_sched y) = Some t)"

lemma view_upd: "f \<circ> (pc(t := x)) = (f \<circ> pc)(t := f x)"
  by auto

lemma env_ok_weaken:
  assumes "env_ok (busy_view \<circ> pc) (p @ q) cur e"
  shows "env_ok (cv_view \<circ> pc) p cur e"
proof -
  have v: "cv_view x = Out \<or> cv_view x = In" if "busy_view x = Out \<or> busy_view x = In" for x
    using that by (cases x) simp_all
  have "cv_view x = Out" if "busy_view x = Out" for x using that by (cases x) simp_all
  then show ?thesis using assms v by (cases e) (auto split: option.splits)
qed

lemma cv_simulates:
  assumes "cv_step y y'" "cv_inv y"
  shows "(mutex_step Mutex_lock Mutex_unlock Mutex_queue)\<^sup>*\<^sup>* (mutex_of y) (mutex_of y')" (is "?R\<^sup>*\<^sup>* _ _")
  using assms
proof (induction rule: cv_step.induct)
  case (lock s t pc m r m' s' c)
  have "?R \<lparr>sys_mutex = m, sys_sched = s, sys_pc = cv_view \<circ> pc\<rparr>
      \<lparr>sys_mutex = m', sys_sched = s', sys_pc = (cv_view \<circ> pc)(t := pc_of_outcome r)\<rparr>"
    by (rule mutex_step.lock) (use lock in auto)
  then show ?case by (simp add: mutex_of_def view_upd)
next
  case (resume s t pc c m)
  have "?R \<lparr>sys_mutex = m, sys_sched = s, sys_pc = cv_view \<circ> pc\<rparr> \<lparr>sys_mutex = m, sys_sched = s, sys_pc = (cv_view \<circ> pc)(t := In)\<rparr>"
    by (rule mutex_step.resume) (use resume in auto)
  then show ?case by (simp add: mutex_of_def view_upd)
next
  case (unlock s t pc m m' s' c)
  have "?R \<lparr>sys_mutex = m, sys_sched = s, sys_pc = cv_view \<circ> pc\<rparr> \<lparr>sys_mutex = m', sys_sched = s', sys_pc = (cv_view \<circ> pc)(t := Out)\<rparr>"
    by (rule mutex_step.unlock) (use unlock in auto)
  then show ?case by (simp add: mutex_of_def view_upd)
next
  case (wait s t pc c m c' m' s')
  then obtain s1 where u: "Mutex_unlock m s = Some (m', s1)" and b: "block_current_and_run_next s1 = Some s'"
    by (auto simp: Condvar_wait_def Let_def split: bind_splits)
  have "?R \<lparr>sys_mutex = m, sys_sched = s, sys_pc = cv_view \<circ> pc\<rparr> \<lparr>sys_mutex = m', sys_sched = s1, sys_pc = (cv_view \<circ> pc)(t := Out)\<rparr>"
    by (rule mutex_step.unlock) (use wait u in auto)
  moreover have "current_task s1 = Some t"
    using u wait(1) dynm.unlock_idle [of m s] dynm.unlock_handoff [of m _ _ s] dynm.unlock_free [of m s]
    by (cases "Mutex_locked m"; cases "Mutex_queue m") (auto simp: sched_simps)
  then have "?R \<lparr>sys_mutex = m', sys_sched = s1, sys_pc = (cv_view \<circ> pc)(t := Out)\<rparr>
      \<lparr>sys_mutex = m', sys_sched = s', sys_pc = (cv_view \<circ> pc)(t := Out)\<rparr>"
    by (intro mutex_step.env [OF sched_step.block [OF b]]) simp
  ultimately show ?case by (simp add: mutex_of_def view_upd)
next
  case (woken s t pc m r m' s' c)
  have "?R \<lparr>sys_mutex = m, sys_sched = s, sys_pc = cv_view \<circ> pc\<rparr>
      \<lparr>sys_mutex = m', sys_sched = s', sys_pc = (cv_view \<circ> pc)(t := pc_of_outcome r)\<rparr>"
    by (rule mutex_step.lock) (use woken in \<open>auto simp: Condvar_wait_woken_def\<close>)
  then show ?case by (simp add: mutex_of_def view_upd)
next
  case (signal s t pc c c' s' m)
  show ?case
  proof (cases "cv_wait_queue c")
    case Nil
    then show ?thesis using signal(3) by (simp add: Condvar_signal_def mutex_of_def)
  next
    case (Cons w ws)
    then have w: "s' = wakeup_task w s" "task_status s w = Blocked" "w \<notin> set (Mutex_queue m)"
      using signal(3,4) by (auto simp: Condvar_signal_def cv_inv_def parked_def)
    have "?R \<lparr>sys_mutex = m, sys_sched = s, sys_pc = cv_view \<circ> pc\<rparr> \<lparr>sys_mutex = m, sys_sched = s', sys_pc = cv_view \<circ> pc\<rparr>"
      unfolding w(1) by (rule mutex_step.env [OF sched_step.wakeup [OF w(2)]]) (use w in simp)
    then show ?thesis by (simp add: mutex_of_def)
  qed
next
  case (env s e s' pc m c)
  have "?R \<lparr>sys_mutex = m, sys_sched = s, sys_pc = cv_view \<circ> pc\<rparr> \<lparr>sys_mutex = m, sys_sched = s', sys_pc = cv_view \<circ> pc\<rparr>"
    by (rule mutex_step.env [where e = e]) (use env env_ok_weaken [OF env(2)] in auto)
  then show ?case by (simp add: mutex_of_def)
qed

text \<open>The part of the invariant about the tasks at the condition variable.\<close>

definition sleepers :: "task list \<Rightarrow> task list \<Rightarrow> sched \<Rightarrow> (task \<Rightarrow> cv_pc) \<Rightarrow> bool" where
  "sleepers p q s pc \<longleftrightarrow> parked (p @ q) s \<and> (\<forall>t\<in>set q. pc t = Asleep)
     \<and> (\<forall>t. pc t = Asleep \<longrightarrow> t \<in> set q \<or> t \<in> set (ready s) \<or> current_task s = Some t)"

lemma cv_inv_sleepers:
  "cv_inv y \<longleftrightarrow> mutex_inv Mutex_locked Mutex_queue (mutex_of y) \<and> sleepers (Mutex_queue (cs_mutex y)) (cv_wait_queue (cs_cv y)) (cs_sched y) (cs_pc y)"
  by (simp add: cv_inv_def sleepers_def)

lemma parked_perm: "parked (p @ q @ [t]) s \<longleftrightarrow> parked (p @ [t] @ q) s"
  by (auto simp: parked_def)

lemma sleepers_current: "sleepers p q s pc \<Longrightarrow> current_task s = Some t \<Longrightarrow> t \<notin> set p \<and> t \<notin> set q"
  by (auto simp: sleepers_def dest: parkedD(3))

lemma sleepers_lock:
  assumes sl: "sleepers (Mutex_queue m) q s pc" and t: "current_task s = Some t" and l: "Mutex_lock m s = Some (r, m', s')"
  shows "sleepers (Mutex_queue m') q s' (pc(t := At p))"
proof (cases "Mutex_locked m")
  case False
  then show ?thesis using dynm.lock_free [OF False, of s] l sl sleepers_current [OF sl t] t by (auto simp: sleepers_def)
next
  case True
  from dynm.lock_busy [OF True t] l consider
      (park) "block_current_and_run_next s = Some s'" "Mutex_queue m' = Mutex_queue m @ [t]"
    | (retry) "m' = m" "suspend_current_and_run_next s = Some s'"
    by auto
  then show ?thesis
  proof cases
    case park
    have "parked ((Mutex_queue m @ q) @ [t]) s'" by (rule parked_push [OF _ t park(1)]) (use sl in \<open>simp add: sleepers_def\<close>)
    moreover have "ready s' = ready s" using block_Some [OF park(1)] by auto
    ultimately show ?thesis using park(2) sl sleepers_current [OF sl t] t parked_perm [of "Mutex_queue m" q t s']
      by (auto simp: sleepers_def)
  next
    case retry
    have "parked (Mutex_queue m @ q) s'"
      using sl parked_step [OF _ sched_step.suspend [OF retry(2)]] by (auto simp: sleepers_def)
    moreover have "ready s' = ready s @ [t]" using suspend_Some [OF retry(2)] t by auto
    ultimately show ?thesis using retry(1) sl sleepers_current [OF sl t] t by (auto simp: sleepers_def)
  qed
qed

lemma sleepers_unlock:
  assumes sl: "sleepers (Mutex_queue m) q s pc" and t: "current_task s = Some t" "pc t \<noteq> Asleep"
    and u: "Mutex_unlock m s = Some (m', s')"
  shows "sleepers (Mutex_queue m') q s' (pc(t := At p)) \<and> current_task s' = Some t"
proof -
  have l: "Mutex_locked m" using u dynm.unlock_free [of m s] by (cases "Mutex_locked m") auto
  show ?thesis
  proof (cases "Mutex_queue m")
    case Nil
    then show ?thesis using dynm.unlock_idle [OF l Nil, of s] u sl t sleepers_current [OF sl t(1)] by (auto simp: sleepers_def)
  next
    case (Cons w ws)
    then show ?thesis using dynm.unlock_handoff [OF l Cons, of s] u sl t sleepers_current [OF sl t(1)] parked_pop [of w "ws @ q" s]
      by (auto simp: sleepers_def sched_simps)
  qed
qed

lemma sleepers_block:
  assumes sl: "sleepers p q s pc" and t: "current_task s = Some t" and b: "block_current_and_run_next s = Some s'"
  shows "sleepers p (q @ [t]) s' (pc(t := Asleep))"
proof -
  have "parked ((p @ q) @ [t]) s'" by (rule parked_push [OF _ t b]) (use sl in \<open>simp add: sleepers_def\<close>)
  moreover have "ready s' = ready s" using block_Some [OF b] by auto
  ultimately show ?thesis using sl t by (auto simp: sleepers_def)
qed

lemma sleepers_signal:
  assumes "sleepers p (cv_wait_queue c) s pc" "Condvar_signal c s = (c', s')"
  shows "sleepers p (cv_wait_queue c') s' pc"
  using assms parked_remove [of p _ _ s]
  by (cases "cv_wait_queue c") (auto simp: sleepers_def Condvar_signal_def sched_simps)

lemma sleepers_env:
  assumes sl: "sleepers p q s pc" and e: "sched_step s e s'" "env_ok (busy_view \<circ> pc) (p @ q) (current_task s) e"
  shows "sleepers p q s' pc"
proof -
  have "parked (p @ q) s'" using sl e by (auto simp: sleepers_def intro!: parked_step [OF _ e(1)])
  moreover have "t \<in> set (ready s') \<or> current_task s' = Some t"
    if "pc t = Asleep" "t \<in> set (ready s) \<or> current_task s = Some t" for t
    by (rule on_cpu_step [OF e(1) that(2) e(2)]) (simp add: that)
  ultimately show ?thesis using sl by (auto simp: sleepers_def)
qed

lemma cv_inv_step:
  assumes "cv_step y y'" "cv_inv y"
  shows "cv_inv y'"
proof -
  have "mutex_inv Mutex_locked Mutex_queue (mutex_of y')"
    using cv_simulates [OF assms] assms(2) by (auto simp: cv_inv_def intro: dynm.inv_steps)
  moreover have "sleepers (Mutex_queue (cs_mutex y')) (cv_wait_queue (cs_cv y')) (cs_sched y') (cs_pc y')"
    using assms
  proof (induction rule: cv_step.induct)
    case (wait s t pc c m c' m' s')
    then obtain s1 where u: "Mutex_unlock m s = Some (m', s1)" and b: "block_current_and_run_next s1 = Some s'"
        and c: "current_task s1 = Some t \<Longrightarrow> c' = c\<lparr>cv_wait_queue := cv_wait_queue c @ [t]\<rparr>"
      by (auto simp: Condvar_wait_def Let_def split: bind_splits)
    have "sleepers (Mutex_queue m') (cv_wait_queue c) s1 (pc(t := At Out)) \<and> current_task s1 = Some t"
      by (rule sleepers_unlock [OF _ wait(1) _ u]) (use wait in \<open>simp_all add: cv_inv_sleepers\<close>)
    then have "sleepers (Mutex_queue m') (cv_wait_queue c @ [t]) s' (pc(t := At Out, t := Asleep))" "c' = c\<lparr>cv_wait_queue := cv_wait_queue c @ [t]\<rparr>"
      using sleepers_block [OF _ _ b] c by blast+
    then show ?case unfolding fun_upd_upd by (simp add: fun_upd_def)
  next
    case (resume s t pc c m)
    then have "t \<notin> set (cv_wait_queue c)" using sleepers_current [of _ _ s pc t] by (auto simp: cv_inv_sleepers)
    then show ?case using resume by (auto simp: cv_inv_sleepers sleepers_def)
  qed (auto simp: cv_inv_sleepers Condvar_wait_woken_def
        intro: sleepers_lock sleepers_unlock [THEN conjunct1] sleepers_signal sleepers_env)
  ultimately show ?thesis by (simp add: cv_inv_sleepers)
qed

lemma cv_inv_steps: "cv_step\<^sup>*\<^sup>* y y' \<Longrightarrow> cv_inv y \<Longrightarrow> cv_inv y'"
  by (induction rule: rtranclp_induct) (auto intro: cv_inv_step)

text \<open>
  C22. A condition variable and a mutex, blocking or spinning, under any interleaving of tasks that lock, unlock, wait and
  signal with the rest of the kernel: at most one task has the mutex, the tasks back from \<open>wait\<close> among them. The
  task that has the mutex can wait: the mutex goes to the task that has waited longest for it, or is free, and the
  caller is blocked as the last in the queue of the condition variable, in one step, so that no signal falls in between. A task inside
  \<open>wait\<close> is blocked in that queue, or has been woken and is in the ready queue or running: no wake-up is lost. A signal
  wakes the task that has waited longest, and does nothing when none waits. A woken task, when it is scheduled again,
  calls \<open>lock\<close> before \<open>wait\<close> returns: it gets past only if the mutex is free, and then no other task has the mutex;
  otherwise it is parked at the mutex, or retries. Waiting with a mutex nobody has locked panics.
\<close>

theorem condvar_wait_signal:
  assumes start: "sched_inv s0" "m0 = Blocking MutexBlocking_new \<or> m0 = Spin MutexSpin_new"
    and steps: "cv_step\<^sup>*\<^sup>* \<lparr>cs_cv = Condvar_new, cs_mutex = m0, cs_sched = s0, cs_pc = \<lambda>_. At Out\<rparr>
      \<lparr>cs_cv = c, cs_mutex = m, cs_sched = s, cs_pc = pc\<rparr>"
  shows "(pc t = At In \<longrightarrow> pc u = At In \<longrightarrow> t = u)
    \<and> (pc t = At In \<longrightarrow> current_task s = Some t \<longrightarrow>
      (\<exists>m' s'. Condvar_wait Mutex_unlock c m s = Some (\<lparr>cv_wait_queue = cv_wait_queue c @ [t]\<rparr>, m', s')
        \<and> Mutex_queue m' = tl (Mutex_queue m) \<and> (Mutex_locked m' \<longleftrightarrow> Mutex_queue m \<noteq> [])
        \<and> ready s' = ready s @ take 1 (Mutex_queue m) \<and> current_task s' = None \<and> task_status s' t = Blocked))
    \<and> (pc t = Asleep \<longrightarrow> t \<in> set (cv_wait_queue c) \<and> task_status s t = Blocked \<or> t \<in> set (ready s) \<or> current_task s = Some t)
    \<and> (Condvar_signal c s = (\<lparr>cv_wait_queue = tl (cv_wait_queue c)\<rparr>, snd (Condvar_signal c s))
      \<and> ready (snd (Condvar_signal c s)) = ready s @ take 1 (cv_wait_queue c) \<and> (cv_wait_queue c = [] \<longrightarrow> snd (Condvar_signal c s) = s))
    \<and> (pc t = Asleep \<longrightarrow> current_task s = Some t \<longrightarrow>
      (\<exists>r m' s'. Condvar_wait_woken Mutex_lock m s = Some (r, m', s') \<and> Mutex_locked m'
        \<and> (r = Acquired \<longleftrightarrow> \<not> Mutex_locked m) \<and> (r = Acquired \<longrightarrow> current_task s' = Some t \<and> (\<forall>u. pc u \<noteq> At In))
        \<and> (r = Parked \<longrightarrow> Mutex_queue m' = Mutex_queue m @ [t] \<and> task_status s' t = Blocked)
        \<and> (r = Retry \<longrightarrow> m' = m \<and> ready s' = ready s @ [t])))
    \<and> (\<not> Mutex_locked m \<longrightarrow> Condvar_wait Mutex_unlock c m s = None)"
proof (rule conjI, rule_tac [2] conjI, rule_tac [3] conjI, rule_tac [4] conjI, rule_tac [5] conjI; (intro impI)?)
  let ?y = "\<lparr>cs_cv = c, cs_mutex = m, cs_sched = s, cs_pc = pc\<rparr>"
  have v: "cv_view \<circ> (\<lambda>_. At Out) = (\<lambda>_. Out)" by auto
  have "mutex_inv Mutex_locked Mutex_queue \<lparr>sys_mutex = m0, sys_sched = s0, sys_pc = \<lambda>_. Out\<rparr>"
    by (rule dynm.inv_start) (use start in \<open>auto simp: MutexBlocking_new_def MutexSpin_new_def\<close>)
  then have "cv_inv \<lparr>cs_cv = Condvar_new, cs_mutex = m0, cs_sched = s0, cs_pc = \<lambda>_. At Out\<rparr>"
    using start by (auto simp: cv_inv_def mutex_of_def v Condvar_new_def MutexBlocking_new_def MutexSpin_new_def)
  then have inv: "cv_inv ?y" by (rule cv_inv_steps [OF steps])
  then have mi: "mutex_inv Mutex_locked Mutex_queue (mutex_of ?y)" and sl: "sleepers (Mutex_queue m) (cv_wait_queue c) s pc"
    by (simp_all add: cv_inv_sleepers)
  then have p: "parked (Mutex_queue m @ cv_wait_queue c) s" by (simp add: sleepers_def)
  have o: "Mutex_locked m" "owners (cv_view \<circ> pc) (Mutex_queue m) = {x}" if "pc x = At In" for x
    using dynm.holder_locked [OF mi, of x] that by (simp_all add: owners_def mutex_of_def)
  show "t = u" if "pc t = At In" "pc u = At In" using o(2) [OF that(1)] o(2) [OF that(2)] by simp
  show "\<exists>m' s'. Condvar_wait Mutex_unlock c m s = Some (\<lparr>cv_wait_queue = cv_wait_queue c @ [t]\<rparr>, m', s')
      \<and> Mutex_queue m' = tl (Mutex_queue m) \<and> (Mutex_locked m' \<longleftrightarrow> Mutex_queue m \<noteq> [])
      \<and> ready s' = ready s @ take 1 (Mutex_queue m) \<and> current_task s' = None \<and> task_status s' t = Blocked"
    if "pc t = At In" "current_task s = Some t"
    using dynm.wait_locked [OF o(1) [OF that(1)] that(2) p] by (fastforce simp: parked_def)
  show "t \<in> set (cv_wait_queue c) \<and> task_status s t = Blocked \<or> t \<in> set (ready s) \<or> current_task s = Some t" if "pc t = Asleep"
    using sl that parkedD(1) [OF p, of t] by (auto simp: sleepers_def)
  show "Condvar_signal c s = (\<lparr>cv_wait_queue = tl (cv_wait_queue c)\<rparr>, snd (Condvar_signal c s))
      \<and> ready (snd (Condvar_signal c s)) = ready s @ take 1 (cv_wait_queue c) \<and> (cv_wait_queue c = [] \<longrightarrow> snd (Condvar_signal c s) = s)"
    by (cases "cv_wait_queue c") (auto simp: Condvar_signal_def sched_simps)
  show "Condvar_wait Mutex_unlock c m s = None" if "\<not> Mutex_locked m" using that by (rule dynm.wait_unlocked)
  show "\<exists>r m' s'. Condvar_wait_woken Mutex_lock m s = Some (r, m', s') \<and> Mutex_locked m'
        \<and> (r = Acquired \<longleftrightarrow> \<not> Mutex_locked m) \<and> (r = Acquired \<longrightarrow> current_task s' = Some t \<and> (\<forall>u. pc u \<noteq> At In))
        \<and> (r = Parked \<longrightarrow> Mutex_queue m' = Mutex_queue m @ [t] \<and> task_status s' t = Blocked)
        \<and> (r = Retry \<longrightarrow> m' = m \<and> ready s' = ready s @ [t])" if "pc t = Asleep" and cur: "current_task s = Some t"
  proof (cases "Mutex_locked m")
    case True
    from dynm.lock_busy [OF True cur] show ?thesis using True cur
      by (auto simp: Condvar_wait_woken_def elim!: block_Some suspend_Some)
  next
    case False
    then show ?thesis using dynm.lock_free [OF False, of s] cur o(1) by (auto simp: Condvar_wait_woken_def)
  qed
qed

text \<open>
  Task 1 takes the mutex and waits; task 2 takes the mutex, signals and yields; task 1 runs again inside \<open>wait\<close>, where it is
  parked at the mutex.
\<close>

definition cv_asleep :: sched where
  "cv_asleep = the (block_current_and_run_next contended_start)"

definition cv_second :: sched where
  "cv_second = run_tasks_step cv_asleep"

definition cv_woken :: sched where
  "cv_woken = run_tasks_step (the (suspend_current_and_run_next (wakeup_task 1 cv_second)))"

lemmas cv_eval = cv_asleep_def cv_second_def cv_woken_def wakeup_task_def contended_eval

lemma cv_run:
  "cv_step\<^sup>*\<^sup>* \<lparr>cs_cv = Condvar_new, cs_mutex = Blocking MutexBlocking_new, cs_sched = contended_start, cs_pc = \<lambda>_. At Out\<rparr>
     \<lparr>cs_cv = \<lparr>cv_wait_queue = [1]\<rparr>, cs_mutex = Blocking \<lparr>mb_locked = True, mb_wait_queue = []\<rparr>, cs_sched = cv_second,
      cs_pc = (\<lambda>_. At Out)(1 := Asleep, 2 := At In)\<rparr>"
  "cv_step\<^sup>*\<^sup>* \<lparr>cs_cv = Condvar_new, cs_mutex = Blocking MutexBlocking_new, cs_sched = contended_start, cs_pc = \<lambda>_. At Out\<rparr>
     \<lparr>cs_cv = Condvar_new, cs_mutex = Blocking \<lparr>mb_locked = True, mb_wait_queue = []\<rparr>, cs_sched = cv_woken,
      cs_pc = (\<lambda>_. At Out)(1 := Asleep, 2 := At In)\<rparr>"
proof -
  let ?free = "Blocking \<lparr>mb_locked = False, mb_wait_queue = []\<rparr>" and ?held = "Blocking \<lparr>mb_locked = True, mb_wait_queue = []\<rparr>"
  let ?c = "\<lparr>cv_wait_queue = [1]\<rparr>" and ?pc = "(\<lambda>_. At Out)(1 := Asleep)" and ?pcs = "(\<lambda>_. At Out)(1 := Asleep, 2 := At In)"
  let ?y = "\<lambda>c m s pc. \<lparr>cs_cv = c, cs_mutex = m, cs_sched = s, cs_pc = pc\<rparr>"
  let ?w = "wakeup_task 1 cv_second" and ?start = "\<lparr>cs_cv = Condvar_new, cs_mutex = Blocking MutexBlocking_new, cs_sched = contended_start, cs_pc = \<lambda>_. At Out\<rparr>"
  have "cv_step ?start (?y Condvar_new ?held contended_start ((\<lambda>_. At Out)(1 := At (pc_of_outcome Acquired))))"
    by (rule cv_step.lock) (simp_all add: cv_eval MutexBlocking_lock_def MutexBlocking_new_def)
  moreover have "cv_step (?y Condvar_new ?held contended_start ((\<lambda>_. At Out)(1 := At In))) (?y ?c ?free cv_asleep ((\<lambda>_. At Out)(1 := At In, 1 := Asleep)))"
    by (rule cv_step.wait) (simp_all add: cv_eval Condvar_wait_def Condvar_new_def MutexBlocking_unlock_def)
  moreover have "cv_step (?y ?c ?free cv_asleep ?pc) (?y ?c ?free cv_second ?pc)"
    unfolding cv_second_def by (rule cv_step.env [OF sched_step.dispatch]) (simp_all add: cv_eval)
  moreover have "cv_step (?y ?c ?free cv_second ?pc) (?y ?c ?held cv_second (?pc(2 := At (pc_of_outcome Acquired))))"
    by (rule cv_step.lock) (simp_all add: cv_eval MutexBlocking_lock_def)
  ultimately show run: "cv_step\<^sup>*\<^sup>* ?start (?y ?c ?held cv_second ?pcs)"
    by (simp only: pc_of_outcome.simps fun_upd_upd)
  have "cv_step (?y ?c ?held cv_second ?pcs) (?y Condvar_new ?held ?w ?pcs)"
    by (rule cv_step.signal [where t = 2]) (simp_all add: cv_eval Condvar_signal_def Condvar_new_def)
  moreover have "cv_step (?y Condvar_new ?held ?w ?pcs) (?y Condvar_new ?held (the (suspend_current_and_run_next ?w)) ?pcs)"
    by (rule cv_step.env [OF sched_step.suspend]) (simp_all add: cv_eval)
  moreover have "cv_step (?y Condvar_new ?held (the (suspend_current_and_run_next ?w)) ?pcs) (?y Condvar_new ?held cv_woken ?pcs)"
    unfolding cv_woken_def by (rule cv_step.env [OF sched_step.dispatch]) (simp_all add: cv_eval)
  ultimately show "cv_step\<^sup>*\<^sup>* ?start (?y Condvar_new ?held cv_woken ?pcs)"
    using run by (metis (no_types, lifting) rtranclp.simps)
qed

theorem condvar_wait_signal_witness:
  "(\<exists>m' s'. Condvar_wait Mutex_unlock \<lparr>cv_wait_queue = [1]\<rparr> (Blocking \<lparr>mb_locked = True, mb_wait_queue = []\<rparr>) cv_second
      = Some (\<lparr>cv_wait_queue = [1, 2]\<rparr>, m', s') \<and> \<not> Mutex_locked m' \<and> task_status s' 2 = Blocked)
   \<and> task_status cv_second 1 = Blocked
   \<and> ready (snd (Condvar_signal \<lparr>cv_wait_queue = [1]\<rparr> cv_second)) = ready cv_second @ [1]
   \<and> (\<exists>r m' s'. Condvar_wait_woken Mutex_lock (Blocking \<lparr>mb_locked = True, mb_wait_queue = []\<rparr>) cv_woken = Some (r, m', s')
      \<and> r \<noteq> Acquired \<and> Mutex_locked m' \<and> current_task cv_woken = Some 1)"
proof -
  have s0: "sched_inv contended_start" by (simp add: sched_inv_def contended_eval)
  note cw = condvar_wait_signal [OF s0 disjI1 [OF refl] cv_run(1)] and cw2 = condvar_wait_signal [OF s0 disjI1 [OF refl] cv_run(2)]
  have e: "current_task cv_second = Some 2" "current_task cv_woken = Some 1" "1 \<notin> set (ready cv_second)" by (simp_all add: cv_eval)
  show ?thesis
    using cw [THEN conjunct2, THEN conjunct1, of 2] cw [THEN conjunct2, THEN conjunct2, THEN conjunct1, of 1]
      cw [THEN conjunct2, THEN conjunct2, THEN conjunct2, THEN conjunct1]
      cw2 [THEN conjunct2, THEN conjunct2, THEN conjunct2, THEN conjunct2, THEN conjunct1, of 1] e
    by (intro conjI) auto
qed

end
