(* ===== verification/Timer.thy ===== *)
theory Timer
  imports SyncProps "HOL-Library.Multiset"
begin

text \<open>
  Timers (\<open>os/src/timer.rs\<close>, \<open>sys_sleep\<close> of \<open>os/src/syscall/sync.rs\<close>). The \<open>time\<close> register is an argument. The
  \<open>BinaryHeap\<close> is the list of its items; which of several greatest items is on top is not specified, so the index of
  the top item is an argument, and the locale \<open>heap_top\<close> states what \<open>peek\<close> and \<open>pop\<close> promise of it. The order of the
  items is the one the source defines: by \<open>-(expire_ms as isize)\<close>, in wrapping 64-bit arithmetic.
\<close>

definition CLOCK_FREQ :: usize where "CLOCK_FREQ = 12500000"
definition MICRO_PER_SEC :: usize where "MICRO_PER_SEC = 1000000"
definition MSEC_PER_SEC :: usize where "MSEC_PER_SEC = 1000"
definition TICKS_PER_SEC :: usize where "TICKS_PER_SEC = 100"

text \<open>The argument of \<open>set_timer\<close>.\<close>

definition set_next_trigger :: "usize \<Rightarrow> usize" where
  "set_next_trigger time = time + CLOCK_FREQ div TICKS_PER_SEC"

definition get_time_us :: "usize \<Rightarrow> usize" where
  "get_time_us time = time div (CLOCK_FREQ div MICRO_PER_SEC)"

definition get_time_ms :: "usize \<Rightarrow> usize" where
  "get_time_ms time = time div (CLOCK_FREQ div MSEC_PER_SEC)"

record TimerCondVar =
  expire_ms :: usize
  timer_task :: task

definition timer_key :: "TimerCondVar \<Rightarrow> int" where
  "timer_key x = sint (- expire_ms x)"

definition timer_eq :: "TimerCondVar \<Rightarrow> TimerCondVar \<Rightarrow> bool" where
  "timer_eq x y = (expire_ms x = expire_ms y)"

definition timer_le :: "TimerCondVar \<Rightarrow> TimerCondVar \<Rightarrow> bool" where
  "timer_le x y = (timer_key x \<le> timer_key y)"

definition add_timer :: "usize \<Rightarrow> task \<Rightarrow> TimerCondVar list \<Rightarrow> TimerCondVar list" where
  "add_timer ms t timers = timers @ [\<lparr>expire_ms = ms, timer_task = t\<rparr>]"

definition remove_timer :: "task \<Rightarrow> TimerCondVar list \<Rightarrow> TimerCondVar list" where
  "remove_timer t timers = foldl (\<lambda>temp condvar. if t \<noteq> timer_task condvar then temp @ [condvar] else temp) [] timers"

text \<open>\<open>pk\<close> gives the index of the item on top of the heap.\<close>

function check_timer_loop :: "(TimerCondVar list \<Rightarrow> nat option) \<Rightarrow> usize \<Rightarrow> TimerCondVar list \<Rightarrow> sched \<Rightarrow> TimerCondVar list \<times> sched" where
  "check_timer_loop pk current_ms timers s =
     (case pk timers of
        None \<Rightarrow> (timers, s)
      | Some i \<Rightarrow>
          if i < length timers \<and> expire_ms (timers ! i) \<le> current_ms
          then check_timer_loop pk current_ms (take i timers @ drop (Suc i) timers) (wakeup_task (timer_task (timers ! i)) s)
          else (timers, s))"
  by auto
termination by (relation "measure (\<lambda>(pk, ms, timers, s). length timers)") auto

declare check_timer_loop.simps [simp del]

definition check_timer :: "(TimerCondVar list \<Rightarrow> nat option) \<Rightarrow> usize \<Rightarrow> TimerCondVar list \<Rightarrow> sched \<Rightarrow> TimerCondVar list \<times> sched" where
  "check_timer pk time timers s = check_timer_loop pk (get_time_ms time) timers s"

text \<open>\<open>sys_sleep\<close> up to the switch; it returns 0 when the task runs again.\<close>

definition sys_sleep :: "usize \<Rightarrow> usize \<Rightarrow> TimerCondVar list \<Rightarrow> sched \<Rightarrow> (TimerCondVar list \<times> sched) option" where
  "sys_sleep time ms timers s =
     do { let expire_ms = get_time_ms time + ms;
          t \<leftarrow> current_task s;
          let timers = add_timer expire_ms t timers;
          s \<leftarrow> block_current_and_run_next s;
          Some (timers, s) }"

section \<open>The heap\<close>

locale heap_top =
  fixes pk :: "TimerCondVar list \<Rightarrow> nat option"
  assumes empty: "pk [] = None"
    and top: "xs \<noteq> [] \<Longrightarrow> \<exists>i<length xs. pk xs = Some i \<and> (\<forall>x \<in> set xs. timer_le x (xs ! i))"

definition tasks_of :: "TimerCondVar list \<Rightarrow> task list" where
  "tasks_of xs = map timer_task xs"

lemma mset_drop_nth: "i < length xs \<Longrightarrow> mset xs = add_mset (xs ! i) (mset (take i xs @ drop (Suc i) xs))"
  by (metis id_take_nth_drop mset.simps(2) mset_append union_mset_add_mset_right)

lemma set_drop_nth: "set (take i xs @ drop (Suc i) xs) \<subseteq> set xs"
  using set_take_subset [of i xs] set_drop_subset [of "Suc i" xs] by auto

lemma key_small: "unat (expire_ms x) < 2 ^ 63 \<Longrightarrow> timer_key x = - int (unat (expire_ms x))"
proof -
  assume a: "unat (expire_ms x) < 2 ^ 63"
  have "- expire_ms x = word_of_int (- int (unat (expire_ms x)))" by simp
  moreover have "- int (unat (expire_ms x)) \<ge> - (2 ^ 63)" "- int (unat (expire_ms x)) < 2 ^ 63"
    using int_add_less [of "unat (expire_ms x)" 0] a by linarith+
  ultimately show ?thesis unfolding timer_key_def by (metis sint_word_of_int_64)
qed

lemma key_big: "2 ^ 63 < unat (expire_ms x) \<Longrightarrow> timer_key x > 0"
proof -
  let ?n = "int (unat (expire_ms x))"
  assume "2 ^ 63 < unat (expire_ms x)"
  then have lo: "2 ^ 63 < ?n" by (metis of_nat_less_iff of_nat_numeral of_nat_power)
  have "unat (expire_ms x) < 2 ^ 64" using unsigned_less [of "expire_ms x", where 'a = nat] by simp
  then have hi: "?n < 2 ^ 64" by (metis of_nat_less_iff of_nat_numeral of_nat_power)
  have p: "(2 :: int) ^ 64 = 2 * 2 ^ 63" "(0 :: int) < 2 ^ 63" by simp_all
  have e: "- expire_ms x = word_of_int (2 ^ 64 - ?n)" by simp
  have "sint (word_of_int (2 ^ 64 - ?n) :: 64 word) = 2 ^ 64 - ?n"
    by (rule sint_word_of_int_64) (use lo hi p in linarith)+
  then show ?thesis using hi unfolding timer_key_def e by linarith
qed

lemma le_small:
  assumes "unat (expire_ms x) < 2 ^ 63" "unat (expire_ms y) < 2 ^ 63"
  shows "timer_le x y \<longleftrightarrow> unat (expire_ms y) \<le> unat (expire_ms x)"
  unfolding timer_le_def key_small [OF assms(1)] key_small [OF assms(2)] neg_le_iff_le of_nat_le_iff ..

lemma fold_wakeup:
  "ready (fold wakeup_task ts s) = ready s @ ts" "current_task (fold wakeup_task ts s) = current_task s"
  "t \<in> set ts \<Longrightarrow> task_status (fold wakeup_task ts s) t = Ready"
  "t \<notin> set ts \<Longrightarrow> task_status (fold wakeup_task ts s) t = task_status s t"
proof -
  show "ready (fold wakeup_task ts s) = ready s @ ts" "current_task (fold wakeup_task ts s) = current_task s"
    by (induction ts arbitrary: s) (simp_all add: sched_simps)
  show out: "task_status (fold wakeup_task ts s) t = task_status s t" if "t \<notin> set ts"
    using that by (induction ts arbitrary: s) (simp_all add: sched_simps)
  show "task_status (fold wakeup_task ts s) t = Ready" if "t \<in> set ts"
    using that
  proof (induction ts arbitrary: s)
    case (Cons u ts)
    show ?case
    proof (cases "t \<in> set ts")
      case False
      have "task_status (fold wakeup_task ts r) t = task_status r t" for r
        using False by (induction ts arbitrary: r) (simp_all add: sched_simps)
      with Cons False show ?thesis by (simp add: sched_simps)
    qed (use Cons in simp)
  qed simp
qed

abbreviation expired :: "usize \<Rightarrow> TimerCondVar \<Rightarrow> bool" where
  "expired now x \<equiv> expire_ms x \<le> now"

context heap_top
begin

lemma loop_wakes_expired:
  assumes "list_all (\<lambda>x. unat (expire_ms x) < 2 ^ 63) xs"
  shows "\<exists>woken xs'. check_timer_loop pk now xs s = (xs', fold wakeup_task (tasks_of woken) s)
    \<and> mset woken = filter_mset (expired now) (mset xs) \<and> mset xs' = filter_mset (\<lambda>x. \<not> expired now x) (mset xs)
    \<and> sorted (map (\<lambda>x. unat (expire_ms x)) woken)"
  using assms
proof (induction "length xs" arbitrary: xs s)
  case 0
  then show ?case using empty by (simp add: check_timer_loop.simps [of pk] tasks_of_def)
next
  case (Suc n)
  then have "xs \<noteq> []" by auto
  then obtain i where i: "i < length xs" "pk xs = Some i" "\<forall>x \<in> set xs. timer_le x (xs ! i)" using top by blast
  let ?x = "xs ! i" and ?rest = "take i xs @ drop (Suc i) xs"
  have small: "unat (expire_ms x) < 2 ^ 63" if "x \<in> set xs" for x using Suc.prems that by (simp add: list_all_iff)
  have least: "unat (expire_ms ?x) \<le> unat (expire_ms x)" if "x \<in> set xs" for x
    using i(1,3) le_small [OF small small, of x ?x] that by simp
  note m = mset_drop_nth [OF i(1)]
  show ?case
  proof (cases "expired now ?x")
    case True
    have "n = length ?rest" using Suc.hyps(2) i(1) by simp
    moreover have "list_all (\<lambda>x. unat (expire_ms x) < 2 ^ 63) ?rest"
      using small set_drop_nth [of i xs] unfolding list_all_iff by blast
    ultimately obtain woken xs' where ih: "check_timer_loop pk now ?rest (wakeup_task (timer_task ?x) s)
          = (xs', fold wakeup_task (tasks_of woken) (wakeup_task (timer_task ?x) s))"
        "mset woken = filter_mset (expired now) (mset ?rest)" "mset xs' = filter_mset (\<lambda>x. \<not> expired now x) (mset ?rest)"
        "sorted (map (\<lambda>x. unat (expire_ms x)) woken)"
      using Suc.hyps(1) [of ?rest "wakeup_task (timer_task ?x) s"] by blast
    have "set woken \<subseteq> set ?rest" using arg_cong [OF ih(2), of set_mset] by auto
    then have "\<forall>y \<in> set woken. unat (expire_ms ?x) \<le> unat (expire_ms y)" using least set_drop_nth [of i xs] by blast
    then have "sorted (map (\<lambda>x. unat (expire_ms x)) (?x # woken))" using ih(4) by simp
    moreover have "check_timer_loop pk now xs s = (xs', fold wakeup_task (tasks_of (?x # woken)) s)"
      using ih(1) i(1,2) True by (simp add: check_timer_loop.simps [of pk now xs] tasks_of_def)
    ultimately show ?thesis using ih(2,3) True unfolding m
      by (intro exI [of _ "?x # woken"] exI [of _ xs']) simp
  next
    case False
    then have "\<not> expired now x" if "x \<in> set xs" for x
      using least [OF that] by (simp add: word_le_nat_alt)
    then have "filter_mset (expired now) (mset xs) = {#}" "filter_mset (\<lambda>x. \<not> expired now x) (mset xs) = mset xs"
      by (simp_all add: filter_empty_conv flip: mset_filter)
    moreover have "check_timer_loop pk now xs s = (xs, s)"
      using i(1,2) False by (simp add: check_timer_loop.simps [of pk now xs])
    ultimately show ?thesis by (intro exI [of _ "[]"] exI [of _ xs]) (simp add: tasks_of_def)
  qed
qed

lemma loop_stuck:
  assumes x: "x \<in> set xs" "2 ^ 63 < unat (expire_ms x)" and now: "unat now < 2 ^ 63"
  shows "check_timer_loop pk now xs s = (xs, s)"
proof -
  obtain i where i: "i < length xs" "pk xs = Some i" "timer_le x (xs ! i)" using top [of xs] x(1) by force
  have "\<not> unat (expire_ms (xs ! i)) < 2 ^ 63"
    using key_small [of "xs ! i"] key_big [OF x(2)] i(3) unfolding timer_le_def by linarith
  then have "\<not> expired now (xs ! i)" using now by (simp add: word_le_nat_alt)
  with i(2) show ?thesis by (simp add: check_timer_loop.simps [of pk now xs])
qed

end

text \<open>The first greatest item, as an instance of \<open>peek\<close>.\<close>

definition first_top :: "TimerCondVar list \<Rightarrow> nat option" where
  "first_top xs = find_index (\<lambda>x. list_all (\<lambda>y. timer_le y x) xs) xs"

lemma greatest_exists: "xs \<noteq> [] \<Longrightarrow> \<exists>x \<in> set xs. list_all (\<lambda>y. timer_le y x) xs"
proof (induction xs)
  case (Cons x xs)
  show ?case
  proof (cases "xs = []")
    case False
    then obtain g where "g \<in> set xs" "list_all (\<lambda>y. timer_le y g) xs" using Cons.IH by blast
    then show ?thesis by (cases "timer_le x g") (force simp: timer_le_def list_all_iff)+
  qed (simp add: timer_le_def)
qed simp

interpretation ft: heap_top first_top
proof unfold_locales
  fix xs :: "TimerCondVar list"
  assume "xs \<noteq> []"
  then obtain i where i: "first_top xs = Some i"
    using greatest_exists [of xs] find_index_ex [where P = "\<lambda>x. list_all (\<lambda>y. timer_le y x) xs"] unfolding first_top_def by blast
  then show "\<exists>i<length xs. first_top xs = Some i \<and> (\<forall>x \<in> set xs. timer_le x (xs ! i))"
    using find_index_SomeD [OF i [unfolded first_top_def]] by (auto simp: list_all_iff)
qed (simp add: first_top_def)

lemma remove_timer_filter: "remove_timer t xs = filter (\<lambda>x. timer_task x \<noteq> t) xs"
proof -
  have "foldl (\<lambda>temp x. if t \<noteq> timer_task x then temp @ [x] else temp) acc xs = acc @ filter (\<lambda>x. timer_task x \<noteq> t) xs" for acc
    by (induction xs arbitrary: acc) auto
  then show ?thesis by (simp add: remove_timer_def)
qed

lemma parked_mset: "mset p = mset q \<Longrightarrow> parked p s \<longleftrightarrow> parked q s"
  using mset_eq_imp_distinct_iff [of p q] mset_eq_setD [of p q] by (simp add: parked_def list_all_iff)

lemma parked_fold: "parked (ts @ q) s \<Longrightarrow> parked q (fold wakeup_task ts s)"
  by (induction ts arbitrary: s) (auto dest: parked_pop)

lemma get_time_ms_less: "unat (get_time_ms time) < 2 ^ 63"
proof -
  have "unat (get_time_ms time) = unat time div 12500"
    by (simp add: get_time_ms_def CLOCK_FREQ_def MSEC_PER_SEC_def unat_div)
  moreover have "unat time < 2 ^ 64" using unsigned_less [of time, where 'a = nat] by simp
  ultimately show ?thesis by simp
qed

section \<open>Timers and sleeping tasks\<close>

text \<open>
  C20. \<open>check_timer\<close>, with any heap that keeps a greatest item on top, wakes exactly the tasks whose timers have
  expired, the earliest first, and keeps exactly the other timers, as long as every expiry time is below \<open>2 ^ 63\<close>
  milliseconds. Waking preserves the scheduler's invariant when the sleeping tasks are blocked and sleep once. One
  timer beyond \<open>2 ^ 63\<close> (a sleep longer than that) stops all: the cast to \<open>isize\<close> makes it the top of the heap, where
  it never expires, and no sleeping task is woken.
\<close>

theorem check_timer_spec:
  assumes "heap_top pk"
  shows "(list_all (\<lambda>x. unat (expire_ms x) < 2 ^ 63) timers \<longrightarrow>
      (\<exists>woken. snd (check_timer pk time timers s) = fold wakeup_task (tasks_of woken) s
        \<and> mset woken = filter_mset (\<lambda>x. expire_ms x \<le> get_time_ms time) (mset timers)
        \<and> mset (fst (check_timer pk time timers s)) = filter_mset (\<lambda>x. \<not> expire_ms x \<le> get_time_ms time) (mset timers)
        \<and> sorted (map (\<lambda>x. unat (expire_ms x)) woken)
        \<and> ready (snd (check_timer pk time timers s)) = ready s @ tasks_of woken
        \<and> (parked (tasks_of timers) s \<longrightarrow> parked (tasks_of (fst (check_timer pk time timers s))) (snd (check_timer pk time timers s)))))
    \<and> (x \<in> set timers \<longrightarrow> 2 ^ 63 < unat (expire_ms x) \<longrightarrow> check_timer pk time timers s = (timers, s))"
proof (rule conjI; (intro impI)?)
  assume "list_all (\<lambda>x. unat (expire_ms x) < 2 ^ 63) timers"
  from heap_top.loop_wakes_expired [OF assms this, of "get_time_ms time" s]
  obtain woken rest where r: "check_timer pk time timers s = (rest, fold wakeup_task (tasks_of woken) s)"
      "mset woken = filter_mset (expired (get_time_ms time)) (mset timers)"
      "mset rest = filter_mset (\<lambda>x. \<not> expired (get_time_ms time) x) (mset timers)"
      "sorted (map (\<lambda>x. unat (expire_ms x)) woken)"
    unfolding check_timer_def by blast
  have "mset woken + mset rest = mset timers" unfolding r(2,3) by (rule multiset_partition [symmetric])
  then have "mset (tasks_of woken @ tasks_of rest) = mset (tasks_of timers)"
    by (simp add: tasks_of_def flip: image_mset_union)
  then have "parked (tasks_of timers) s \<Longrightarrow> parked (tasks_of rest) (fold wakeup_task (tasks_of woken) s)"
    using parked_mset parked_fold by blast
  with r show "\<exists>woken. snd (check_timer pk time timers s) = fold wakeup_task (tasks_of woken) s
      \<and> mset woken = filter_mset (\<lambda>x. expire_ms x \<le> get_time_ms time) (mset timers)
      \<and> mset (fst (check_timer pk time timers s)) = filter_mset (\<lambda>x. \<not> expire_ms x \<le> get_time_ms time) (mset timers)
      \<and> sorted (map (\<lambda>x. unat (expire_ms x)) woken)
      \<and> ready (snd (check_timer pk time timers s)) = ready s @ tasks_of woken
      \<and> (parked (tasks_of timers) s \<longrightarrow> parked (tasks_of (fst (check_timer pk time timers s))) (snd (check_timer pk time timers s)))"
    by (intro exI [of _ woken]) (simp add: fold_wakeup(1))
next
  assume "x \<in> set timers" "2 ^ 63 < unat (expire_ms x)"
  then show "check_timer pk time timers s = (timers, s)"
    unfolding check_timer_def by (rule heap_top.loop_stuck [OF assms _ _ get_time_ms_less])
qed

text \<open>Task 2 sleeps for 5 ms and is woken; a second, absurdly long sleep of another task prevents it.\<close>

theorem check_timer_spec_witness:
  "(\<exists>woken. snd (check_timer first_top 125000 [\<lparr>expire_ms = 5, timer_task = 2\<rparr>] contended) = fold wakeup_task (tasks_of woken) contended
      \<and> mset woken = {#\<lparr>expire_ms = 5, timer_task = 2\<rparr>#})
   \<and> check_timer first_top 125000 [\<lparr>expire_ms = 5, timer_task = 2\<rparr>, \<lparr>expire_ms = 2 ^ 63 + 1, timer_task = 3\<rparr>] contended
      = ([\<lparr>expire_ms = 5, timer_task = 2\<rparr>, \<lparr>expire_ms = 2 ^ 63 + 1, timer_task = 3\<rparr>], contended)"
proof
  have "get_time_ms 125000 = 10" by (simp add: get_time_ms_def CLOCK_FREQ_def MSEC_PER_SEC_def)
  then show "\<exists>woken. snd (check_timer first_top 125000 [\<lparr>expire_ms = 5, timer_task = 2\<rparr>] contended) = fold wakeup_task (tasks_of woken) contended
      \<and> mset woken = {#\<lparr>expire_ms = 5, timer_task = 2\<rparr>#}"
    using check_timer_spec [OF ft.heap_top_axioms, THEN conjunct1, THEN mp, of "[\<lparr>expire_ms = 5, timer_task = 2\<rparr>]" 125000 contended] by auto
  show "check_timer first_top 125000 [\<lparr>expire_ms = 5, timer_task = 2\<rparr>, \<lparr>expire_ms = 2 ^ 63 + 1, timer_task = 3\<rparr>] contended
      = ([\<lparr>expire_ms = 5, timer_task = 2\<rparr>, \<lparr>expire_ms = 2 ^ 63 + 1, timer_task = 3\<rparr>], contended)"
    by (rule check_timer_spec [OF ft.heap_top_axioms, THEN conjunct2, THEN mp, THEN mp, of "\<lparr>expire_ms = 2 ^ 63 + 1, timer_task = 3\<rparr>"]) simp_all
qed

end
