(* ===== verification/Signals.thy ===== *)
theory Signals
  imports Address
begin

text \<open>
  Signals (\<open>os/src/task/signals.rs\<close>, \<open>os/src/task/action.rs\<close>): a set of signals is a 32-bit word with one bit for each of
  the 32 signals; an exit code is a 32-bit word, read as signed.
\<close>

type_synonym SignalFlags = u32
type_synonym i32 = "32 word"

definition MAX_SIG :: nat where "MAX_SIG = 31"

text \<open>The names of the flags; the flag of the signal at position \<open>i\<close> is bit \<open>i\<close>.\<close>

definition signal_names :: "string list" where
  "signal_names =
    [''SIGDEF'', ''SIGHUP'', ''SIGINT'', ''SIGQUIT'', ''SIGILL'', ''SIGTRAP'', ''SIGABRT'', ''SIGBUS'',
     ''SIGFPE'', ''SIGKILL'', ''SIGUSR1'', ''SIGSEGV'', ''SIGUSR2'', ''SIGPIPE'', ''SIGALRM'', ''SIGTERM'',
     ''SIGSTKFLT'', ''SIGCHLD'', ''SIGCONT'', ''SIGSTOP'', ''SIGTSTP'', ''SIGTTIN'', ''SIGTTOU'', ''SIGURG'',
     ''SIGXCPU'', ''SIGXFSZ'', ''SIGVTALRM'', ''SIGPROF'', ''SIGWINCH'', ''SIGIO'', ''SIGPWR'', ''SIGSYS'']"

definition signal_flag :: "nat \<Rightarrow> SignalFlags" where
  "signal_flag i = push_bit i 1"

definition SIGINT :: SignalFlags where "SIGINT = signal_flag 2"
definition SIGILL :: SignalFlags where "SIGILL = signal_flag 4"
definition SIGABRT :: SignalFlags where "SIGABRT = signal_flag 6"
definition SIGFPE :: SignalFlags where "SIGFPE = signal_flag 8"
definition SIGKILL :: SignalFlags where "SIGKILL = signal_flag 9"
definition SIGSEGV :: SignalFlags where "SIGSEGV = signal_flag 11"

text \<open>\<open>from_bits\<close> and \<open>contains\<close> of \<open>bitflags\<close>.\<close>

definition SignalFlags_all :: SignalFlags where
  "SignalFlags_all = fold (\<lambda>i a. a OR signal_flag i) [0..<length signal_names] 0"

definition SignalFlags_from_bits :: "u32 \<Rightarrow> SignalFlags option" where
  "SignalFlags_from_bits b = (if b AND SignalFlags_all = b then Some b else None)"

definition sig_contains :: "SignalFlags \<Rightarrow> SignalFlags \<Rightarrow> bool" where
  "sig_contains s f \<longleftrightarrow> s AND f = f"

definition check_error :: "SignalFlags \<Rightarrow> (i32 \<times> string) option" where
  "check_error s =
    (if sig_contains s SIGINT then Some (-2, ''Killed, SIGINT=2'')
     else if sig_contains s SIGILL then Some (-4, ''Illegal Instruction, SIGILL=4'')
     else if sig_contains s SIGABRT then Some (-6, ''Aborted, SIGABRT=6'')
     else if sig_contains s SIGFPE then Some (-8, ''Erroneous Arithmetic Operation, SIGFPE=8'')
     else if sig_contains s SIGKILL then Some (-9, ''Killed, SIGKILL=9'')
     else if sig_contains s SIGSEGV then Some (-11, ''Segmentation Fault, SIGSEGV=11'')
     else None)"

record SignalAction =
  sa_handler :: usize
  sa_mask :: SignalFlags

definition SignalAction_default :: "SignalAction option" where
  "SignalAction_default = map_option (\<lambda>m. \<lparr>sa_handler = 0, sa_mask = m\<rparr>) (SignalFlags_from_bits 40)"

definition SignalActions_default :: "SignalAction list option" where
  "SignalActions_default = map_option (replicate (MAX_SIG + 1)) SignalAction_default"

section \<open>Facts\<close>

lemma SignalFlags_all_eq: "SignalFlags_all = - 1"
  by (simp add: SignalFlags_all_def signal_names_def signal_flag_def upt_rec)

lemma SignalFlags_from_bits_eq [simp]: "SignalFlags_from_bits b = Some b"
  by (simp add: SignalFlags_from_bits_def SignalFlags_all_eq)

lemma sig_contains_flag: "i < 32 \<Longrightarrow> sig_contains s (signal_flag i) \<longleftrightarrow> bit s i"
proof -
  assume i: "i < 32"
  have "s AND push_bit i 1 = (if bit s i then push_bit i 1 else 0)"
    by (rule bit_word_eqI) (auto simp: bit_simps)
  moreover have "push_bit i 1 \<noteq> (0 :: u32)" using i by simp
  ultimately show ?thesis by (simp add: sig_contains_def signal_flag_def)
qed

text \<open>An error is reported exactly when one of the six fatal signals is pending, with the least such number.\<close>

definition fatal_signals :: "nat list" where
  "fatal_signals = [2, 4, 6, 8, 9, 11]"

lemma check_error_eq:
  "map_option fst (check_error s) = map_option (\<lambda>i. - of_nat i) (find (bit s) fatal_signals)"
  unfolding check_error_def fatal_signals_def SIGINT_def SIGILL_def SIGABRT_def SIGFPE_def SIGKILL_def SIGSEGV_def
  by (simp add: sig_contains_flag)

end
