(* ===== verification/Process.thy ===== *)
theory Process
  imports KernelStacks OsFile Timer Signals
begin

text \<open>
  Processes and threads (\<open>os/src/task/process.rs\<close>, \<open>task.rs\<close>, \<open>manager.rs\<close>, the exit path of \<open>task/mod.rs\<close>,
  \<open>os/src/trap/context.rs\<close>). Control blocks are objects shared by reference: the kernel state has a table of process
  control blocks and one of task control blocks, an \<open>Arc\<close> or \<open>Weak\<close> is an index into it, and an entry is \<open>None\<close> once
  the last \<open>Arc\<close> is gone, which is when the code of \<open>Drop\<close> runs. The status of a task is kept by the scheduler
  state of theory \<open>Sched\<close>. Open files are shared by \<open>dup\<close> and \<open>fork\<close> and live in a table of their own.
\<close>

section \<open>Trap contexts\<close>

record TrapContext =
  tx_x :: "usize list"
  tx_sstatus :: usize
  tx_sepc :: usize
  tx_kernel_satp :: usize
  tx_kernel_sp :: usize
  tx_trap_handler :: usize

definition set_sp :: "usize \<Rightarrow> TrapContext \<Rightarrow> TrapContext" where
  "set_sp sp cx = cx\<lparr>tx_x := (tx_x cx)[2 := sp]\<rparr>"

text \<open>\<open>sstatus\<close> is the value of the register with the previous privilege set to user mode.\<close>

definition app_init_context :: "usize \<Rightarrow> usize \<Rightarrow> usize \<Rightarrow> usize \<Rightarrow> usize \<Rightarrow> usize \<Rightarrow> TrapContext" where
  "app_init_context sstatus ent sp kernel_satp kernel_sp trap_handler =
    set_sp sp \<lparr>tx_x = replicate 32 0, tx_sstatus = sstatus, tx_sepc = ent, tx_kernel_satp = kernel_satp,
      tx_kernel_sp = kernel_sp, tx_trap_handler = trap_handler\<rparr>"

text \<open>A trap context at the start of a page: 37 words in memory.\<close>

definition TrapContext_words :: "TrapContext \<Rightarrow> usize list" where
  "TrapContext_words cx = tx_x cx @ [tx_sstatus cx, tx_sepc cx, tx_kernel_satp cx, tx_kernel_sp cx, tx_trap_handler cx]"

definition get_trap_cx :: "PhysPageNum \<Rightarrow> kmem \<Rightarrow> TrapContext" where
  "get_trap_cx ppn k =
    (let w = decode_array 8 37 (get_bytes_array k ppn) in
     \<lparr>tx_x = take 32 w, tx_sstatus = w ! 32, tx_sepc = w ! 33, tx_kernel_satp = w ! 34, tx_kernel_sp = w ! 35, tx_trap_handler = w ! 36\<rparr>)"

definition put_trap_cx :: "PhysPageNum \<Rightarrow> TrapContext \<Rightarrow> kmem \<Rightarrow> kmem" where
  "put_trap_cx ppn cx k = set_bytes_array ppn (splice_at 0 (encode_array 8 (TrapContext_words cx)) (get_bytes_array k ppn)) k"

section \<open>Control blocks\<close>

record TaskControlBlock =
  tcb_process :: nat
  tcb_kstack :: KernelStack
  tcb_res :: "TaskUserRes option"
  tcb_trap_cx_ppn :: PhysPageNum
  tcb_task_cx :: TaskContext
  tcb_exit_code :: "i32 option"

datatype os_file = F_Stdin | F_Stdout | F_Inode OSInode | F_Pipe Pipe

record ProcessControlBlock =
  pid :: PidHandle
  is_zombie :: bool
  memory_set :: MemorySet
  parent :: "nat option"
  children :: "nat list"
  exit_code :: i32
  fd_table :: "nat option list"
  mutex_list :: "Mutex option list"
  semaphore_list :: "Semaphore option list"
  condvar_list :: "Condvar option list"
  signals :: SignalFlags
  tasks :: "task option list"
  task_res_allocator :: RecycleAllocator

text \<open>The global state of the kernel.\<close>

record 'd kernel =
  kst :: kstate
  kd :: sched
  TIMERS :: "TimerCondVar list"
  procs :: "ProcessControlBlock option list"
  tcbs :: "TaskControlBlock option list"
  PID2PCB :: "(usize \<times> nat) list"
  INITPROC :: nat
  files :: "os_file list"
  rings :: "PipeRingBuffer list"
  disk :: "'d bcm"
  console :: bytes

text \<open>What the kernel gets from outside: the disk with its file system, the linker, the ELF parser and the machine.\<close>

record 'd machine =
  m_bdev :: "'d block_device"
  m_efs :: efs
  m_root :: inode
  m_syms :: linker_symbols
  m_elf :: "bytes \<Rightarrow> elf_file option"
  m_trap_return :: usize
  m_trap_handler :: usize
  m_sstatus :: usize

definition get_proc :: "nat \<Rightarrow> 'd kernel \<Rightarrow> ProcessControlBlock option" where
  "get_proc p k = do { r \<leftarrow> index_at (procs k) p; r }"

definition set_proc :: "nat \<Rightarrow> ProcessControlBlock \<Rightarrow> 'd kernel \<Rightarrow> 'd kernel" where
  "set_proc p P k = k\<lparr>procs := (procs k)[p := Some P]\<rparr>"

definition get_tcb :: "task \<Rightarrow> 'd kernel \<Rightarrow> TaskControlBlock option" where
  "get_tcb t k = do { r \<leftarrow> index_at (tcbs k) t; r }"

definition set_tcb :: "task \<Rightarrow> TaskControlBlock \<Rightarrow> 'd kernel \<Rightarrow> 'd kernel" where
  "set_tcb t T k = k\<lparr>tcbs := (tcbs k)[t := Some T]\<rparr>"

definition set_kmem :: "kmem \<Rightarrow> 'd kernel \<Rightarrow> 'd kernel" where
  "set_kmem m k = k\<lparr>kst := (kst k)\<lparr>k_mem := m\<rparr>\<rparr>"

abbreviation kmem_of :: "'d kernel \<Rightarrow> kmem" where
  "kmem_of k \<equiv> k_mem (kst k)"

abbreviation kernel_token :: "'d kernel \<Rightarrow> usize" where
  "kernel_token k \<equiv> ms_token (KERNEL_SPACE (kst k))"

section \<open>Methods of a process\<close>

definition thread_count :: "ProcessControlBlock \<Rightarrow> nat" where
  "thread_count P = length (tasks P)"

definition pcb_get_task :: "ProcessControlBlock \<Rightarrow> nat \<Rightarrow> task option" where
  "pcb_get_task P tid = do { r \<leftarrow> index_at (tasks P) tid; r }"

definition alloc_fd :: "ProcessControlBlock \<Rightarrow> nat \<times> ProcessControlBlock" where
  "alloc_fd P =
    (case find (\<lambda>fd. fd_table P ! fd = None) [0..<length (fd_table P)] of
       Some fd \<Rightarrow> (fd, P)
     | None \<Rightarrow> let P = P\<lparr>fd_table := fd_table P @ [None]\<rparr> in (length (fd_table P) - 1, P))"

definition pid2process :: "usize \<Rightarrow> 'd kernel \<Rightarrow> nat option" where
  "pid2process p k = map_of (PID2PCB k) p"

definition insert_into_pid2process :: "usize \<Rightarrow> nat \<Rightarrow> 'd kernel \<Rightarrow> 'd kernel" where
  "insert_into_pid2process i p k = k\<lparr>PID2PCB := snd (bt_insert i p (PID2PCB k))\<rparr>"

definition remove_from_pid2process :: "usize \<Rightarrow> 'd kernel \<Rightarrow> 'd kernel option" where
  "remove_from_pid2process i k =
    (case bt_remove i (PID2PCB k) of (None, _) \<Rightarrow> None | (Some _, m) \<Rightarrow> Some (k\<lparr>PID2PCB := m\<rparr>))"

definition current_process :: "'d kernel \<Rightarrow> nat option" where
  "current_process k = do {
    t \<leftarrow> current_task (kd k);
    T \<leftarrow> get_tcb t k;
    _ \<leftarrow> get_proc (tcb_process T) k;
    Some (tcb_process T)
  }"

definition current_user_token :: "'d kernel \<Rightarrow> usize option" where
  "current_user_token k = do {
    p \<leftarrow> current_process k;
    P \<leftarrow> get_proc p k;
    Some (ms_token (memory_set P))
  }"

definition current_trap_cx_ppn :: "'d kernel \<Rightarrow> PhysPageNum option" where
  "current_trap_cx_ppn k = do {
    t \<leftarrow> current_task (kd k);
    T \<leftarrow> get_tcb t k;
    Some (tcb_trap_cx_ppn T)
  }"

section \<open>Creating tasks and processes\<close>

definition TaskControlBlock_new :: "'d machine \<Rightarrow> nat \<Rightarrow> usize \<Rightarrow> bool \<Rightarrow> 'd kernel \<Rightarrow> (task \<times> 'd kernel) option" where
  "TaskControlBlock_new M p ustack_base alloc k = do {
    P \<leftarrow> get_proc p k;
    (res, tids, ms, m) \<leftarrow> TaskUserRes_new ustack_base alloc (task_res_allocator P, memory_set P, kmem_of k);
    let k = set_kmem m (set_proc p (P\<lparr>task_res_allocator := tids, memory_set := ms\<rparr>) k);
    ppn \<leftarrow> trap_cx_ppn res (ms, kmem_of k);
    (kstack, ks) \<leftarrow> kstack_alloc (kst k);
    let k = k\<lparr>kst := ks\<rparr>;
    let kstack_top = KernelStack_get_top kstack;
    let t = length (tcbs k);
    let T = \<lparr>tcb_process = p, tcb_kstack = kstack, tcb_res = Some res, tcb_trap_cx_ppn = ppn,
      tcb_task_cx = goto_trap_return (m_trap_return M) kstack_top, tcb_exit_code = None\<rparr>;
    Some (t, k\<lparr>tcbs := tcbs k @ [Some T], kd := (kd k)\<lparr>task_status := (task_status (kd k))(t := Ready)\<rparr>\<rparr>)
  }"

definition Process_new :: "'d machine \<Rightarrow> bytes \<Rightarrow> 'd kernel \<Rightarrow> (nat \<times> 'd kernel) option" where
  "Process_new M elf_data k = do {
    (ms, ustack_base, entry_point, m) \<leftarrow> from_elf (m_elf M) (m_syms M) elf_data (kmem_of k);
    let k = set_kmem m k;
    let (pid_handle, ks) = pid_alloc (kst k);
    let k = k\<lparr>kst := ks\<rparr>;
    let f = length (files k);
    let p = length (procs k);
    let P = \<lparr>pid = pid_handle, is_zombie = False, memory_set = ms, parent = None, children = [], exit_code = 0,
      fd_table = [Some f, Some (f + 1), Some (f + 2)], mutex_list = [], semaphore_list = [], condvar_list = [],
      signals = 0, tasks = [], task_res_allocator = RecycleAllocator_new\<rparr>;
    let k = k\<lparr>files := files k @ [F_Stdin, F_Stdout, F_Stdout], procs := procs k @ [Some P]\<rparr>;
    (t, k) \<leftarrow> TaskControlBlock_new M p ustack_base True k;
    T \<leftarrow> get_tcb t k;
    res \<leftarrow> tcb_res T;
    let cx = app_init_context (m_sstatus M) entry_point (ustack_top res) (kernel_token k) (KernelStack_get_top (tcb_kstack T))
      (m_trap_handler M);
    let k = set_kmem (put_trap_cx (tcb_trap_cx_ppn T) cx (kmem_of k)) k;
    P \<leftarrow> get_proc p k;
    let k = set_proc p (P\<lparr>tasks := tasks P @ [Some t]\<rparr>) k;
    let k = insert_into_pid2process (pid P) p k;
    Some (p, k\<lparr>kd := add_task t (kd k)\<rparr>)
  }"

text \<open>A word stored through a pointer.\<close>

definition store_word :: "PhysAddr \<Rightarrow> usize \<Rightarrow> kmem \<Rightarrow> kmem" where
  "store_word pa w m = fold (\<lambda>i. store_byte (pa + of_nat i) (le_encode 8 (unat w) ! i)) [0..<8] m"

text \<open>The arguments on the user stack: the bytes of one string with its terminator, and all strings.\<close>

fun push_bytes :: "usize \<Rightarrow> bytes \<Rightarrow> usize \<Rightarrow> kmem \<Rightarrow> kmem option" where
  "push_bytes token [] p m = do { pa \<leftarrow> translated_refmut m token p; Some (store_byte pa 0 m) }"
| "push_bytes token (c # cs) p m = do { pa \<leftarrow> translated_refmut m token p; push_bytes token cs (p + 1) (store_byte pa c m) }"

fun push_args :: "usize \<Rightarrow> bytes list \<Rightarrow> PhysAddr list \<Rightarrow> usize \<Rightarrow> kmem \<Rightarrow> (usize \<times> kmem) option" where
  "push_args token (arg # args) (a # argv) user_sp m = do {
    let user_sp = user_sp - of_nat (length arg + 1);
    m \<leftarrow> push_bytes token arg user_sp (store_word a user_sp m);
    push_args token args argv user_sp m
  }"
| "push_args token _ _ user_sp m = Some (user_sp, m)"

text \<open>\<open>(0..=args.len()).map(..).collect()\<close>\<close>

fun argv_refs :: "kmem \<Rightarrow> usize \<Rightarrow> usize \<Rightarrow> nat list \<Rightarrow> PhysAddr list option" where
  "argv_refs m token base [] = Some []"
| "argv_refs m token base (i # is) = do {
    pa \<leftarrow> translated_refmut m token (base + of_nat (8 * i));
    pas \<leftarrow> argv_refs m token base is;
    Some (pa # pas)
  }"

text \<open>The argument vector below the top of the stack, the strings below it, and the aligned stack pointer.\<close>

definition push_argv :: "usize \<Rightarrow> bytes list \<Rightarrow> usize \<Rightarrow> kmem \<Rightarrow> (usize \<times> usize \<times> kmem) option" where
  "push_argv new_token args stack_top m = do {
    let user_sp = stack_top - of_nat ((length args + 1) * 8);
    let argv_base = user_sp;
    argv \<leftarrow> argv_refs m new_token argv_base [0..<Suc (length args)];
    let m = store_word (argv ! length args) 0 m;
    (user_sp, m) \<leftarrow> push_args new_token args argv user_sp m;
    let user_sp = user_sp - user_sp mod 8;
    Some (user_sp, argv_base, m)
  }"

definition Process_exec :: "'d machine \<Rightarrow> nat \<Rightarrow> bytes \<Rightarrow> bytes list \<Rightarrow> 'd kernel \<Rightarrow> 'd kernel option" where
  "Process_exec M p elf_data args k = do {
    P \<leftarrow> get_proc p k;
    assert_that (thread_count P = 1);
    (ms, ustack_base, entry_point, m) \<leftarrow> from_elf (m_elf M) (m_syms M) elf_data (kmem_of k);
    let new_token = ms_token ms;
    m \<leftarrow> MemorySet_drop (memory_set P) m;
    t \<leftarrow> pcb_get_task P 0;
    T \<leftarrow> get_tcb t k;
    res \<leftarrow> tcb_res T;
    let res = res\<lparr>res_ustack_base := ustack_base\<rparr>;
    (ms, m) \<leftarrow> alloc_user_res res (ms, m);
    ppn \<leftarrow> trap_cx_ppn res (ms, m);
    (user_sp, argv_base, m) \<leftarrow> push_argv new_token args (ustack_top res) m;
    let cx = app_init_context (m_sstatus M) entry_point user_sp (kernel_token k) (KernelStack_get_top (tcb_kstack T)) (m_trap_handler M);
    let cx = cx\<lparr>tx_x := (tx_x cx)[10 := of_nat (length args), 11 := argv_base]\<rparr>;
    let m = put_trap_cx ppn cx m;
    let k = set_proc p (P\<lparr>memory_set := ms\<rparr>) (set_kmem m k);
    Some (set_tcb t (T\<lparr>tcb_res := Some res, tcb_trap_cx_ppn := ppn\<rparr>) k)
  }"

definition Process_fork :: "'d machine \<Rightarrow> nat \<Rightarrow> 'd kernel \<Rightarrow> (nat \<times> 'd kernel) option" where
  "Process_fork M self k = do {
    par \<leftarrow> get_proc self k;
    assert_that (thread_count par = 1);
    (ms, m) \<leftarrow> from_existed_user (m_syms M) (memory_set par) (kmem_of k);
    let k = set_kmem m k;
    let (pid_handle, ks) = pid_alloc (kst k);
    let k = k\<lparr>kst := ks\<rparr>;
    let new_fd_table = map (\<lambda>fd. case fd of Some f \<Rightarrow> Some f | None \<Rightarrow> None) (fd_table par);
    let c = length (procs k);
    let C = \<lparr>pid = pid_handle, is_zombie = False, memory_set = ms, parent = Some self, children = [], exit_code = 0,
      fd_table = new_fd_table, mutex_list = [], semaphore_list = [], condvar_list = [], signals = signals par, tasks = [],
      task_res_allocator = RecycleAllocator_new\<rparr>;
    let k = k\<lparr>procs := procs k @ [Some C]\<rparr>;
    let par = par\<lparr>children := children par @ [c]\<rparr>;
    let k = set_proc self par k;
    pt \<leftarrow> pcb_get_task par 0;
    PT \<leftarrow> get_tcb pt k;
    pres \<leftarrow> tcb_res PT;
    (t, k) \<leftarrow> TaskControlBlock_new M c (res_ustack_base pres) False k;
    C \<leftarrow> get_proc c k;
    let k = set_proc c (C\<lparr>tasks := tasks C @ [Some t]\<rparr>) k;
    T \<leftarrow> get_tcb t k;
    let cx = get_trap_cx (tcb_trap_cx_ppn T) (kmem_of k);
    let cx = cx\<lparr>tx_kernel_sp := KernelStack_get_top (tcb_kstack T)\<rparr>;
    let k = set_kmem (put_trap_cx (tcb_trap_cx_ppn T) cx (kmem_of k)) k;
    let k = insert_into_pid2process (pid C) c k;
    Some (c, k\<lparr>kd := add_task t (kd k)\<rparr>)
  }"

section \<open>Exit\<close>

text \<open>The places that own a task, and the \<open>Drop\<close> of a task that nobody owns any more.\<close>

definition some_tasks :: "task option list \<Rightarrow> task list" where
  "some_tasks ts = concat (map (\<lambda>t. case t of Some t \<Rightarrow> [t] | None \<Rightarrow> []) ts)"

definition mutex_waiters :: "Mutex option \<Rightarrow> task list" where
  "mutex_waiters m = (case m of Some (Blocking b) \<Rightarrow> mb_wait_queue b | _ \<Rightarrow> [])"

definition owned_by :: "ProcessControlBlock \<Rightarrow> task list" where
  "owned_by P = concat (map mutex_waiters (mutex_list P))
    @ concat (map (\<lambda>s. case s of Some s \<Rightarrow> sem_wait_queue s | None \<Rightarrow> []) (semaphore_list P))
    @ concat (map (\<lambda>c. case c of Some c \<Rightarrow> cv_wait_queue c | None \<Rightarrow> []) (condvar_list P))
    @ some_tasks (tasks P)"

definition task_owned :: "task \<Rightarrow> 'd kernel \<Rightarrow> bool" where
  "task_owned t k \<longleftrightarrow> list_ex (\<lambda>u. u = t) (ready (kd k)) \<or> current_task (kd k) = Some t
    \<or> list_ex (\<lambda>x. timer_task x = t) (TIMERS k)
    \<or> list_ex (\<lambda>P. case P of Some P \<Rightarrow> list_ex (\<lambda>u. u = t) (owned_by P) | None \<Rightarrow> False) (procs k)"

definition release_task :: "task \<Rightarrow> 'd kernel \<Rightarrow> 'd kernel option" where
  "release_task t k = (if task_owned t k then Some k else do {
    T \<leftarrow> get_tcb t k;
    ks \<leftarrow> KernelStack_drop (tcb_kstack T) (kst k);
    let k = k\<lparr>kst := ks, tcbs := (tcbs k)[t := None]\<rparr>;
    case tcb_res T of
      None \<Rightarrow> Some k
    | Some res \<Rightarrow> do {
        P \<leftarrow> get_proc (tcb_process T) k;
        (tids, ms, m) \<leftarrow> TaskUserRes_drop res (task_res_allocator P, memory_set P, kmem_of k);
        Some (set_kmem m (set_proc (tcb_process T) (P\<lparr>task_res_allocator := tids, memory_set := ms\<rparr>) k))
      }
  })"

definition drop_res :: "nat \<Rightarrow> TaskUserRes \<Rightarrow> 'd kernel \<Rightarrow> 'd kernel option" where
  "drop_res p res k = do {
    P \<leftarrow> get_proc p k;
    (tids, ms, m) \<leftarrow> TaskUserRes_drop res (task_res_allocator P, memory_set P, kmem_of k);
    Some (set_kmem m (set_proc p (P\<lparr>task_res_allocator := tids, memory_set := ms\<rparr>) k))
  }"

definition remove_inactive_task :: "task \<Rightarrow> 'd kernel \<Rightarrow> 'd kernel" where
  "remove_inactive_task t k = k\<lparr>kd := remove_task t (kd k), TIMERS := remove_timer t (TIMERS k)\<rparr>"

text \<open>The children move to the init process.\<close>

definition adopt :: "nat \<Rightarrow> 'd kernel \<Rightarrow> 'd kernel option" where
  "adopt c k = do {
    C \<leftarrow> get_proc c k;
    let k = set_proc c (C\<lparr>parent := Some (INITPROC k)\<rparr>) k;
    I \<leftarrow> get_proc (INITPROC k) k;
    Some (set_proc (INITPROC k) (I\<lparr>children := children I @ [c]\<rparr>) k)
  }"

text \<open>The loop over the threads collects their resources.\<close>

definition collect_res :: "task \<Rightarrow> TaskUserRes list \<times> 'd kernel \<Rightarrow> (TaskUserRes list \<times> 'd kernel) option" where
  "collect_res t = (\<lambda>(rs, k). do {
    let k = remove_inactive_task t k;
    T \<leftarrow> get_tcb t k;
    case tcb_res T of
      None \<Rightarrow> Some (rs, k)
    | Some res \<Rightarrow> Some (rs @ [res], set_tcb t (T\<lparr>tcb_res := None\<rparr>) k)
  })"

text \<open>\<open>while tasks.len() > 1 { tasks.pop(); }\<close>, from the last thread to the second.\<close>

definition pop_thread :: "nat \<Rightarrow> task option \<Rightarrow> 'd kernel \<Rightarrow> 'd kernel option" where
  "pop_thread p r k = do {
    P \<leftarrow> get_proc p k;
    let k = set_proc p (P\<lparr>tasks := butlast (tasks P)\<rparr>) k;
    case r of None \<Rightarrow> Some k | Some t \<Rightarrow> release_task t k
  }"

definition exit_process :: "nat \<Rightarrow> i32 \<Rightarrow> 'd kernel \<Rightarrow> 'd kernel option" where
  "exit_process p code k = do {
    P \<leftarrow> get_proc p k;
    k \<leftarrow> remove_from_pid2process (pid P) k;
    let k = set_proc p (P\<lparr>is_zombie := True, exit_code := code\<rparr>) k;
    assert_that (p \<noteq> INITPROC k);
    k \<leftarrow> foldo adopt (children P) k;
    (rs, k) \<leftarrow> foldo collect_res (some_tasks (tasks P)) ([], k);
    k \<leftarrow> foldo (drop_res p) rs k;
    P \<leftarrow> get_proc p k;
    (ms, m) \<leftarrow> recycle_data_pages (memory_set P, kmem_of k);
    let k = set_kmem m (set_proc p (P\<lparr>children := [], memory_set := ms, fd_table := []\<rparr>) k);
    foldo (pop_thread p) (rev (drop 1 (tasks P))) k
  }"

text \<open>The machine is shut down, or the task is gone and the idle loop goes on.\<close>

datatype 'd exit_result = Shutdown bool | Gone "'d kernel"

definition exit_current_and_run_next :: "i32 \<Rightarrow> 'd kernel \<Rightarrow> 'd exit_result option" where
  "exit_current_and_run_next code k = (case take_current_task (kd k) of
      (None, _) \<Rightarrow> None
    | (Some t, d) \<Rightarrow> do {
        let k = k\<lparr>kd := d\<rparr>;
        T \<leftarrow> get_tcb t k;
        P \<leftarrow> get_proc (tcb_process T) k;
        res \<leftarrow> tcb_res T;
        let k = set_tcb t (T\<lparr>tcb_exit_code := Some code, tcb_res := None\<rparr>) k;
        k \<leftarrow> drop_res (tcb_process T) res k;
        if res_tid res = 0 then
          if pid P = IDLE_PID then Some (Shutdown (code \<noteq> 0))
          else do { k \<leftarrow> exit_process (tcb_process T) code k; Some (Gone k) }
        else Some (Gone k)
      })"

section \<open>Signals of the current process\<close>

definition check_signals_of_current :: "'d kernel \<Rightarrow> (i32 \<times> string) option option" where
  "check_signals_of_current k = do {
    p \<leftarrow> current_process k;
    P \<leftarrow> get_proc p k;
    Some (check_error (signals P))
  }"

definition current_add_signal :: "SignalFlags \<Rightarrow> 'd kernel \<Rightarrow> 'd kernel option" where
  "current_add_signal s k = do {
    p \<leftarrow> current_process k;
    P \<leftarrow> get_proc p k;
    Some (set_proc p (P\<lparr>signals := signals P OR s\<rparr>) k)
  }"

end
