(* ===== verification/Syscalls.thy ===== *)
theory Syscalls
  imports Process
begin

text \<open>
  System calls and traps (\<open>os/src/syscall/\<close>, \<open>os/src/trap/mod.rs\<close>). A call returns a value to the user, gives up the
  processor (the rest of it runs when the task is scheduled again), or shuts the machine down; \<open>None\<close> is a panic of
  the kernel. Results are 64-bit words, read as signed. The time register and the character the console has for
  \<open>console_getchar\<close> are inputs.
\<close>

datatype 'd outcome = Ret usize "'d kernel" | Switch "'d kernel" | Halt bool

record inputs =
  in_time :: usize
  in_char :: usize

definition ret_opt :: "usize \<Rightarrow> 'd kernel option \<Rightarrow> 'd outcome option" where
  "ret_opt r k = map_option (Ret r) k"

section \<open>Files\<close>

text \<open>The write end of a pipe is alive while some file descriptor refers to it.\<close>

definition file_open :: "'d kernel \<Rightarrow> nat \<Rightarrow> bool" where
  "file_open k f \<longleftrightarrow> list_ex (\<lambda>P. case P of Some P \<Rightarrow> list_ex (\<lambda>fd. fd = Some f) (fd_table P) | None \<Rightarrow> False) (procs k)"

fun file_readable :: "os_file \<Rightarrow> bool" where
  "file_readable F_Stdin = True"
| "file_readable F_Stdout = False"
| "file_readable (F_Inode f) = osi_readable f"
| "file_readable (F_Pipe p) = p_readable p"

fun file_writable :: "os_file \<Rightarrow> bool" where
  "file_writable F_Stdin = False"
| "file_writable F_Stdout = True"
| "file_writable (F_Inode f) = osi_writable f"
| "file_writable (F_Pipe p) = p_writable p"

definition switch_suspend :: "'d kernel \<Rightarrow> 'd outcome option" where
  "switch_suspend k = map_option (\<lambda>d. Switch (k\<lparr>kd := d\<rparr>)) (suspend_current_and_run_next (kd k))"

text \<open>A pass that goes round the loop has moved a byte, so the fuel for the passes of a pipe is enough.\<close>

definition pipe_outcome :: "nat \<Rightarrow> pass \<times> call \<Rightarrow> 'd kernel \<Rightarrow> 'd outcome option" where
  "pipe_outcome b r k = (case r of (p, c) \<Rightarrow>
    (let k = set_kmem (c_mem c) (k\<lparr>rings := (rings k)[b := c_ring c]\<rparr>) in
     case p of Done n \<Rightarrow> Some (Ret (of_nat n) k) | Yield \<Rightarrow> switch_suspend k | Again \<Rightarrow> None))"

fun file_write :: "'d machine \<Rightarrow> nat \<Rightarrow> os_file \<Rightarrow> UserBuffer \<Rightarrow> 'd kernel \<Rightarrow> 'd outcome option" where
  "file_write M f F_Stdin buf k = None"
| "file_write M f F_Stdout buf k = do {
    (n, out) \<leftarrow> Stdout_write buf (kmem_of k) (console k);
    Some (Ret (of_nat n) (k\<lparr>console := out\<rparr>))
  }"
| "file_write M f (F_Inode i) buf k = do {
    (n, i, s) \<leftarrow> OSInode_write (m_bdev M) (m_efs M) i buf (kmem_of k, disk k);
    Some (Ret (of_nat n) (k\<lparr>files := (files k)[f := F_Inode i], disk := s\<rparr>))
  }"
| "file_write M f (F_Pipe p) buf k = do {
    ring \<leftarrow> index_at (rings k) (p_buffer p);
    (want, c) \<leftarrow> pipe_write_start p buf ring (kmem_of k);
    r \<leftarrow> pipe_write_run (want + 2) want c;
    pipe_outcome (p_buffer p) r k
  }"

fun file_read :: "'d machine \<Rightarrow> usize \<Rightarrow> nat \<Rightarrow> os_file \<Rightarrow> UserBuffer \<Rightarrow> 'd kernel \<Rightarrow> 'd outcome option" where
  "file_read M ch f F_Stdin buf k = do {
    (p, m) \<leftarrow> Stdin_read_pass ch buf (kmem_of k);
    case p of Done n \<Rightarrow> Some (Ret (of_nat n) (set_kmem m k)) | _ \<Rightarrow> switch_suspend k
  }"
| "file_read M ch f F_Stdout buf k = None"
| "file_read M ch f (F_Inode i) buf k = do {
    (n, i, m, s) \<leftarrow> OSInode_read (m_bdev M) i buf (kmem_of k, disk k);
    Some (Ret (of_nat n) (set_kmem m (k\<lparr>files := (files k)[f := F_Inode i], disk := s\<rparr>)))
  }"
| "file_read M ch f (F_Pipe p) buf k = do {
    ring \<leftarrow> index_at (rings k) (p_buffer p);
    (want, c) \<leftarrow> pipe_read_start p buf ring (kmem_of k);
    r \<leftarrow> pipe_read_run (want + 2) (file_open k) want c;
    pipe_outcome (p_buffer p) r k
  }"

definition sys_write :: "'d machine \<Rightarrow> usize \<Rightarrow> usize \<Rightarrow> usize \<Rightarrow> 'd kernel \<Rightarrow> 'd outcome option" where
  "sys_write M fd buf len k = do {
    token \<leftarrow> current_user_token k;
    p \<leftarrow> current_process k;
    P \<leftarrow> get_proc p k;
    if unat fd \<ge> length (fd_table P) then Some (Ret (-1) k)
    else case fd_table P ! unat fd of
      None \<Rightarrow> Some (Ret (-1) k)
    | Some f \<Rightarrow> do {
        fl \<leftarrow> index_at (files k) f;
        if \<not> file_writable fl then Some (Ret (-1) k)
        else do {
          b \<leftarrow> translated_byte_buffer (kmem_of k) token buf len;
          file_write M f fl (UserBuffer_new b) k
        }
      }
  }"

definition sys_read :: "'d machine \<Rightarrow> inputs \<Rightarrow> usize \<Rightarrow> usize \<Rightarrow> usize \<Rightarrow> 'd kernel \<Rightarrow> 'd outcome option" where
  "sys_read M inp fd buf len k = do {
    token \<leftarrow> current_user_token k;
    p \<leftarrow> current_process k;
    P \<leftarrow> get_proc p k;
    if unat fd \<ge> length (fd_table P) then Some (Ret (-1) k)
    else case fd_table P ! unat fd of
      None \<Rightarrow> Some (Ret (-1) k)
    | Some f \<Rightarrow> do {
        fl \<leftarrow> index_at (files k) f;
        if \<not> file_readable fl then Some (Ret (-1) k)
        else do {
          b \<leftarrow> translated_byte_buffer (kmem_of k) token buf len;
          file_read M (in_char inp) f fl (UserBuffer_new b) k
        }
      }
  }"

text \<open>\<open>alloc_fd\<close> and the store into the new slot.\<close>

definition install_fd :: "nat \<Rightarrow> ProcessControlBlock \<Rightarrow> nat \<times> ProcessControlBlock" where
  "install_fd f P = (case alloc_fd P of (fd, P) \<Rightarrow> (fd, P\<lparr>fd_table := (fd_table P)[fd := Some f]\<rparr>))"

definition sys_open :: "'d machine \<Rightarrow> usize \<Rightarrow> u32 \<Rightarrow> 'd kernel \<Rightarrow> 'd outcome option" where
  "sys_open M path flags k = do {
    p \<leftarrow> current_process k;
    token \<leftarrow> current_user_token k;
    path \<leftarrow> translated_str (kmem_of k) token path;
    flags \<leftarrow> OpenFlags_from_bits flags;
    (r, s) \<leftarrow> open_file (m_bdev M) (m_efs M) (m_root M) path flags (disk k);
    let k = k\<lparr>disk := s\<rparr>;
    case r of
      None \<Rightarrow> Some (Ret (-1) k)
    | Some i \<Rightarrow> do {
        P \<leftarrow> get_proc p k;
        let (fd, P) = install_fd (length (files k)) P;
        Some (Ret (of_nat fd) (set_proc p P (k\<lparr>files := files k @ [F_Inode i]\<rparr>)))
      }
  }"

definition sys_close :: "usize \<Rightarrow> 'd kernel \<Rightarrow> 'd outcome option" where
  "sys_close fd k = do {
    p \<leftarrow> current_process k;
    P \<leftarrow> get_proc p k;
    if unat fd \<ge> length (fd_table P) then Some (Ret (-1) k)
    else if fd_table P ! unat fd = None then Some (Ret (-1) k)
    else Some (Ret 0 (set_proc p (P\<lparr>fd_table := (fd_table P)[unat fd := None]\<rparr>) k))
  }"

definition sys_pipe :: "usize \<Rightarrow> 'd kernel \<Rightarrow> 'd outcome option" where
  "sys_pipe pipe k = do {
    p \<leftarrow> current_process k;
    token \<leftarrow> current_user_token k;
    P \<leftarrow> get_proc p k;
    let f = length (files k);
    let (pipe_read, pipe_write, ring) = make_pipe (length (rings k)) (f + 1);
    let k = k\<lparr>files := files k @ [F_Pipe pipe_read, F_Pipe pipe_write], rings := rings k @ [ring]\<rparr>;
    let (read_fd, P) = install_fd f P;
    let (write_fd, P) = install_fd (f + 1) P;
    let k = set_proc p P k;
    pa \<leftarrow> translated_refmut (kmem_of k) token pipe;
    let k = set_kmem (store_word pa (of_nat read_fd) (kmem_of k)) k;
    pa \<leftarrow> translated_refmut (kmem_of k) token (pipe + 8);
    let k = set_kmem (store_word pa (of_nat write_fd) (kmem_of k)) k;
    Some (Ret 0 k)
  }"

definition sys_dup :: "usize \<Rightarrow> 'd kernel \<Rightarrow> 'd outcome option" where
  "sys_dup fd k = do {
    p \<leftarrow> current_process k;
    P \<leftarrow> get_proc p k;
    if unat fd \<ge> length (fd_table P) then Some (Ret (-1) k)
    else case fd_table P ! unat fd of
      None \<Rightarrow> Some (Ret (-1) k)
    | Some f \<Rightarrow> (let (new_fd, P) = install_fd f P in Some (Ret (of_nat new_fd) (set_proc p P k)))
  }"

section \<open>Processes\<close>

definition of_exit :: "'d exit_result \<Rightarrow> 'd outcome" where
  "of_exit r = (case r of Shutdown b \<Rightarrow> Halt b | Gone k \<Rightarrow> Switch k)"

definition sys_exit :: "i32 \<Rightarrow> 'd kernel \<Rightarrow> 'd outcome option" where
  "sys_exit code k = map_option of_exit (exit_current_and_run_next code k)"

definition sys_yield :: "'d kernel \<Rightarrow> 'd outcome option" where
  "sys_yield k = switch_suspend k"

definition sys_get_time :: "inputs \<Rightarrow> 'd kernel \<Rightarrow> 'd outcome option" where
  "sys_get_time inp k = Some (Ret (get_time_ms (in_time inp)) k)"

definition sys_getpid :: "'d kernel \<Rightarrow> 'd outcome option" where
  "sys_getpid k = do { p \<leftarrow> current_process k; P \<leftarrow> get_proc p k; Some (Ret (pid P) k) }"

definition sys_fork :: "'d machine \<Rightarrow> 'd kernel \<Rightarrow> 'd outcome option" where
  "sys_fork M k = do {
    p \<leftarrow> current_process k;
    (c, k) \<leftarrow> Process_fork M p k;
    C \<leftarrow> get_proc c k;
    t \<leftarrow> pcb_get_task C 0;
    T \<leftarrow> get_tcb t k;
    let cx = get_trap_cx (tcb_trap_cx_ppn T) (kmem_of k);
    let k = set_kmem (put_trap_cx (tcb_trap_cx_ppn T) (cx\<lparr>tx_x := (tx_x cx)[10 := 0]\<rparr>) (kmem_of k)) k;
    Some (Ret (pid C) k)
  }"

definition load_word :: "kmem \<Rightarrow> PhysAddr \<Rightarrow> usize" where
  "load_word m pa = of_nat (le_decode (map (\<lambda>i. load_byte m (pa + of_nat i)) [0..<8]))"

partial_function (option) exec_args :: "kmem \<Rightarrow> usize \<Rightarrow> usize \<Rightarrow> bytes list \<Rightarrow> bytes list option" where
  "exec_args m token args v = do {
    pa \<leftarrow> translated_ref m token args;
    let arg_str_ptr = load_word m pa;
    if arg_str_ptr = 0 then Some v
    else do {
      s \<leftarrow> translated_str m token arg_str_ptr;
      exec_args m token (args + 8) (v @ [s])
    }
  }"

definition sys_exec :: "'d machine \<Rightarrow> usize \<Rightarrow> usize \<Rightarrow> 'd kernel \<Rightarrow> 'd outcome option" where
  "sys_exec M path args k = do {
    token \<leftarrow> current_user_token k;
    path \<leftarrow> translated_str (kmem_of k) token path;
    args_vec \<leftarrow> exec_args (kmem_of k) token args [];
    (r, s) \<leftarrow> open_file (m_bdev M) (m_efs M) (m_root M) path RDONLY (disk k);
    let k = k\<lparr>disk := s\<rparr>;
    case r of
      None \<Rightarrow> Some (Ret (-1) k)
    | Some app_inode \<Rightarrow> do {
        (all_data, _, s) \<leftarrow> read_all (m_bdev M) app_inode (disk k);
        let k = k\<lparr>disk := s\<rparr>;
        p \<leftarrow> current_process k;
        let argc = length args_vec;
        k \<leftarrow> Process_exec M p all_data args_vec k;
        Some (Ret (of_nat argc) k)
      }
  }"

text \<open>
  The other owners of a process, and the \<open>Drop\<close> of one that has exited: its id, its page table, the tasks it
  still owns (its children, areas and file descriptors are gone already).
\<close>

definition proc_shared :: "nat \<Rightarrow> 'd kernel \<Rightarrow> bool" where
  "proc_shared c k \<longleftrightarrow> c = INITPROC k \<or> list_ex (\<lambda>e. snd e = c) (PID2PCB k)
    \<or> list_ex (\<lambda>P. case P of Some P \<Rightarrow> list_ex (\<lambda>d. d = c) (children P) | None \<Rightarrow> False) (procs k)"

definition release_process :: "nat \<Rightarrow> 'd kernel \<Rightarrow> 'd kernel option" where
  "release_process c k = do {
    C \<leftarrow> get_proc c k;
    ks \<leftarrow> PidHandle_drop (pid C) (kst k);
    m \<leftarrow> MemorySet_drop (memory_set C) (k_mem ks);
    let k = k\<lparr>kst := ks\<lparr>k_mem := m\<rparr>, procs := (procs k)[c := None]\<rparr>;
    foldo release_task (remdups (owned_by C)) k
  }"

definition store_i32 :: "PhysAddr \<Rightarrow> i32 \<Rightarrow> kmem \<Rightarrow> kmem" where
  "store_i32 pa w m = fold (\<lambda>i. store_byte (pa + of_nat i) (le_encode 4 (unat w) ! i)) [0..<4] m"

definition pid_matches :: "usize \<Rightarrow> ProcessControlBlock \<Rightarrow> bool" where
  "pid_matches i C \<longleftrightarrow> i = -1 \<or> i = pid C"

definition sys_waitpid :: "usize \<Rightarrow> usize \<Rightarrow> 'd kernel \<Rightarrow> 'd outcome option" where
  "sys_waitpid i exit_code_ptr k = do {
    p \<leftarrow> current_process k;
    P \<leftarrow> get_proc p k;
    if \<not> list_ex (\<lambda>c. case get_proc c k of Some C \<Rightarrow> pid_matches i C | None \<Rightarrow> False) (children P) then Some (Ret (-1) k)
    else case find_index (\<lambda>c. case get_proc c k of Some C \<Rightarrow> is_zombie C \<and> pid_matches i C | None \<Rightarrow> False) (children P) of
      None \<Rightarrow> Some (Ret (-2) k)
    | Some idx \<Rightarrow> do {
        let c = children P ! idx;
        let k = set_proc p (P\<lparr>children := take idx (children P) @ drop (Suc idx) (children P)\<rparr>) k;
        assert_that (\<not> proc_shared c k);
        C \<leftarrow> get_proc c k;
        pa \<leftarrow> translated_refmut (kmem_of k) (ms_token (memory_set P)) exit_code_ptr;
        let k = set_kmem (store_i32 pa (exit_code C) (kmem_of k)) k;
        k \<leftarrow> release_process c k;
        Some (Ret (pid C) k)
      }
  }"

definition sys_kill :: "usize \<Rightarrow> u32 \<Rightarrow> 'd kernel \<Rightarrow> 'd outcome option" where
  "sys_kill i sig k = (case pid2process i k of
      None \<Rightarrow> Some (Ret (-1) k)
    | Some p \<Rightarrow> (case SignalFlags_from_bits sig of
        None \<Rightarrow> Some (Ret (-1) k)
      | Some flag \<Rightarrow> do { P \<leftarrow> get_proc p k; Some (Ret 0 (set_proc p (P\<lparr>signals := signals P OR flag\<rparr>) k)) }))"

section \<open>Threads\<close>

text \<open>\<open>while tasks.len() < tid + 1 { push(None) }; tasks[tid] = Some(t)\<close>\<close>

definition put_thread :: "nat \<Rightarrow> task \<Rightarrow> task option list \<Rightarrow> task option list" where
  "put_thread tid t ts = (ts @ replicate (tid + 1 - length ts) None)[tid := Some t]"

definition sys_thread_create :: "'d machine \<Rightarrow> usize \<Rightarrow> usize \<Rightarrow> 'd kernel \<Rightarrow> 'd outcome option" where
  "sys_thread_create M ent arg k = do {
    cur \<leftarrow> current_task (kd k);
    p \<leftarrow> current_process k;
    T \<leftarrow> get_tcb cur k;
    res \<leftarrow> tcb_res T;
    (t, k) \<leftarrow> TaskControlBlock_new M p (res_ustack_base res) True k;
    let k = k\<lparr>kd := add_task t (kd k)\<rparr>;
    N \<leftarrow> get_tcb t k;
    new_res \<leftarrow> tcb_res N;
    let tid = res_tid new_res;
    P \<leftarrow> get_proc p k;
    let old = (if unat tid < length (tasks P) then tasks P ! unat tid else None);
    let k = set_proc p (P\<lparr>tasks := put_thread (unat tid) t (tasks P)\<rparr>) k;
    k \<leftarrow> (case old of None \<Rightarrow> Some k | Some u \<Rightarrow> release_task u k);
    let cx = app_init_context (m_sstatus M) ent (ustack_top new_res) (kernel_token k) (KernelStack_get_top (tcb_kstack N)) (m_trap_handler M);
    let k = set_kmem (put_trap_cx (tcb_trap_cx_ppn N) (cx\<lparr>tx_x := (tx_x cx)[10 := arg]\<rparr>) (kmem_of k)) k;
    Some (Ret tid k)
  }"

definition sys_waittid :: "usize \<Rightarrow> 'd kernel \<Rightarrow> 'd outcome option" where
  "sys_waittid tid k = do {
    cur \<leftarrow> current_task (kd k);
    T \<leftarrow> get_tcb cur k;
    let p = tcb_process T;
    P \<leftarrow> get_proc p k;
    res \<leftarrow> tcb_res T;
    if res_tid res = tid then Some (Ret (-1) k)
    else do {
      waited \<leftarrow> index_at (tasks P) (unat tid);
      case waited of
        None \<Rightarrow> Some (Ret (-1) k)
      | Some w \<Rightarrow> do {
          W \<leftarrow> get_tcb w k;
          case tcb_exit_code W of
            None \<Rightarrow> Some (Ret (-2) k)
          | Some code \<Rightarrow> do {
              k \<leftarrow> release_task w (set_proc p (P\<lparr>tasks := (tasks P)[unat tid := None]\<rparr>) k);
              Some (Ret (scast code) k)
            }
        }
    }
  }"

definition sys_gettid :: "'d kernel \<Rightarrow> 'd outcome option" where
  "sys_gettid k = do {
    cur \<leftarrow> current_task (kd k);
    T \<leftarrow> get_tcb cur k;
    res \<leftarrow> tcb_res T;
    Some (Ret (res_tid res) k)
  }"

section \<open>Synchronization\<close>

text \<open>The first free slot of a list of objects, or a new one.\<close>

definition install_obj :: "'a \<Rightarrow> 'a option list \<Rightarrow> nat \<times> 'a option list" where
  "install_obj x xs = (case find_index (\<lambda>i. i = None) xs of
      Some i \<Rightarrow> (i, xs[i := Some x])
    | None \<Rightarrow> (length (xs @ [Some x]) - 1, xs @ [Some x]))"

text \<open>The object with a given id; an id out of range and an empty slot panic.\<close>

definition get_obj :: "'a option list \<Rightarrow> usize \<Rightarrow> 'a option" where
  "get_obj xs i = do { r \<leftarrow> index_at xs (unat i); r }"

definition sys_sleep_call :: "inputs \<Rightarrow> usize \<Rightarrow> 'd kernel \<Rightarrow> 'd outcome option" where
  "sys_sleep_call inp ms k = do {
    (timers, d) \<leftarrow> sys_sleep (in_time inp) ms (TIMERS k) (kd k);
    Some (Switch (k\<lparr>TIMERS := timers, kd := d\<rparr>))
  }"

definition sys_mutex_create :: "bool \<Rightarrow> 'd kernel \<Rightarrow> 'd outcome option" where
  "sys_mutex_create blocking k = do {
    p \<leftarrow> current_process k;
    let m = (if \<not> blocking then Spin MutexSpin_new else Blocking MutexBlocking_new);
    P \<leftarrow> get_proc p k;
    let (i, ms) = install_obj m (mutex_list P);
    Some (Ret (of_nat i) (set_proc p (P\<lparr>mutex_list := ms\<rparr>) k))
  }"

text \<open>The call returns at once, or the task has been blocked or has yielded.\<close>

definition switched :: "sched \<Rightarrow> 'd kernel \<Rightarrow> 'd outcome" where
  "switched d k = (if current_task d = None then Switch (k\<lparr>kd := d\<rparr>) else Ret 0 (k\<lparr>kd := d\<rparr>))"

definition sys_mutex_lock :: "usize \<Rightarrow> 'd kernel \<Rightarrow> 'd outcome option" where
  "sys_mutex_lock mutex_id k = do {
    p \<leftarrow> current_process k;
    P \<leftarrow> get_proc p k;
    m \<leftarrow> get_obj (mutex_list P) mutex_id;
    (_, m, d) \<leftarrow> Mutex_lock m (kd k);
    Some (switched d (set_proc p (P\<lparr>mutex_list := (mutex_list P)[unat mutex_id := Some m]\<rparr>) k))
  }"

definition sys_mutex_unlock :: "usize \<Rightarrow> 'd kernel \<Rightarrow> 'd outcome option" where
  "sys_mutex_unlock mutex_id k = do {
    p \<leftarrow> current_process k;
    P \<leftarrow> get_proc p k;
    m \<leftarrow> get_obj (mutex_list P) mutex_id;
    (m, d) \<leftarrow> Mutex_unlock m (kd k);
    Some (Ret 0 ((set_proc p (P\<lparr>mutex_list := (mutex_list P)[unat mutex_id := Some m]\<rparr>) k)\<lparr>kd := d\<rparr>))
  }"

definition sys_semaphore_create :: "usize \<Rightarrow> 'd kernel \<Rightarrow> 'd outcome option" where
  "sys_semaphore_create res_count k = do {
    p \<leftarrow> current_process k;
    P \<leftarrow> get_proc p k;
    let (i, ss) = install_obj (Semaphore_new res_count) (semaphore_list P);
    Some (Ret (of_nat i) (set_proc p (P\<lparr>semaphore_list := ss\<rparr>) k))
  }"

definition sys_semaphore_up :: "usize \<Rightarrow> 'd kernel \<Rightarrow> 'd outcome option" where
  "sys_semaphore_up sem_id k = do {
    p \<leftarrow> current_process k;
    P \<leftarrow> get_proc p k;
    s \<leftarrow> get_obj (semaphore_list P) sem_id;
    let (s, d) = Semaphore_up s (kd k);
    Some (Ret 0 ((set_proc p (P\<lparr>semaphore_list := (semaphore_list P)[unat sem_id := Some s]\<rparr>) k)\<lparr>kd := d\<rparr>))
  }"

definition sys_semaphore_down :: "usize \<Rightarrow> 'd kernel \<Rightarrow> 'd outcome option" where
  "sys_semaphore_down sem_id k = do {
    p \<leftarrow> current_process k;
    P \<leftarrow> get_proc p k;
    s \<leftarrow> get_obj (semaphore_list P) sem_id;
    (s, d) \<leftarrow> Semaphore_down s (kd k);
    Some (switched d (set_proc p (P\<lparr>semaphore_list := (semaphore_list P)[unat sem_id := Some s]\<rparr>) k))
  }"

definition sys_condvar_create :: "'d kernel \<Rightarrow> 'd outcome option" where
  "sys_condvar_create k = do {
    p \<leftarrow> current_process k;
    P \<leftarrow> get_proc p k;
    let (i, cs) = install_obj Condvar_new (condvar_list P);
    Some (Ret (of_nat i) (set_proc p (P\<lparr>condvar_list := cs\<rparr>) k))
  }"

definition sys_condvar_signal :: "usize \<Rightarrow> 'd kernel \<Rightarrow> 'd outcome option" where
  "sys_condvar_signal condvar_id k = do {
    p \<leftarrow> current_process k;
    P \<leftarrow> get_proc p k;
    c \<leftarrow> get_obj (condvar_list P) condvar_id;
    let (c, d) = Condvar_signal c (kd k);
    Some (Ret 0 ((set_proc p (P\<lparr>condvar_list := (condvar_list P)[unat condvar_id := Some c]\<rparr>) k)\<lparr>kd := d\<rparr>))
  }"

definition sys_condvar_wait :: "usize \<Rightarrow> usize \<Rightarrow> 'd kernel \<Rightarrow> 'd outcome option" where
  "sys_condvar_wait condvar_id mutex_id k = do {
    p \<leftarrow> current_process k;
    P \<leftarrow> get_proc p k;
    c \<leftarrow> get_obj (condvar_list P) condvar_id;
    m \<leftarrow> get_obj (mutex_list P) mutex_id;
    (c, m, d) \<leftarrow> Condvar_wait Mutex_unlock c m (kd k);
    Some (Switch ((set_proc p (P\<lparr>condvar_list := (condvar_list P)[unat condvar_id := Some c],
      mutex_list := (mutex_list P)[unat mutex_id := Some m]\<rparr>) k)\<lparr>kd := d\<rparr>))
  }"

section \<open>Dispatch\<close>

definition SYSCALL_WRITE :: usize where "SYSCALL_WRITE = 64"
definition SYSCALL_EXIT :: usize where "SYSCALL_EXIT = 93"
definition SYSCALL_YIELD :: usize where "SYSCALL_YIELD = 124"
definition SYSCALL_GET_TIME :: usize where "SYSCALL_GET_TIME = 169"
definition SYSCALL_READ :: usize where "SYSCALL_READ = 63"
definition SYSCALL_GETPID :: usize where "SYSCALL_GETPID = 172"
definition SYSCALL_FORK :: usize where "SYSCALL_FORK = 220"
definition SYSCALL_EXEC :: usize where "SYSCALL_EXEC = 221"
definition SYSCALL_WAITPID :: usize where "SYSCALL_WAITPID = 260"
definition SYSCALL_OPEN :: usize where "SYSCALL_OPEN = 56"
definition SYSCALL_CLOSE :: usize where "SYSCALL_CLOSE = 57"
definition SYSCALL_PIPE :: usize where "SYSCALL_PIPE = 59"
definition SYSCALL_DUP :: usize where "SYSCALL_DUP = 24"
definition SYSCALL_KILL :: usize where "SYSCALL_KILL = 129"
definition SYSCALL_GETTID :: usize where "SYSCALL_GETTID = 1001"
definition SYSCALL_THREAD_CREATE :: usize where "SYSCALL_THREAD_CREATE = 1000"
definition SYSCALL_WAITTID :: usize where "SYSCALL_WAITTID = 1002"
definition SYSCALL_SLEEP :: usize where "SYSCALL_SLEEP = 101"
definition SYSCALL_MUTEX_CREATE :: usize where "SYSCALL_MUTEX_CREATE = 1010"
definition SYSCALL_MUTEX_LOCK :: usize where "SYSCALL_MUTEX_LOCK = 1011"
definition SYSCALL_MUTEX_UNLOCK :: usize where "SYSCALL_MUTEX_UNLOCK = 1012"
definition SYSCALL_SEMAPHORE_CREATE :: usize where "SYSCALL_SEMAPHORE_CREATE = 1020"
definition SYSCALL_SEMAPHORE_UP :: usize where "SYSCALL_SEMAPHORE_UP = 1021"
definition SYSCALL_SEMAPHORE_DOWN :: usize where "SYSCALL_SEMAPHORE_DOWN = 1022"
definition SYSCALL_CONDVAR_CREATE :: usize where "SYSCALL_CONDVAR_CREATE = 1030"
definition SYSCALL_CONDVAR_SIGNAL :: usize where "SYSCALL_CONDVAR_SIGNAL = 1031"
definition SYSCALL_CONDVAR_WAIT :: usize where "SYSCALL_CONDVAR_WAIT = 1032"

definition syscall :: "'d machine \<Rightarrow> inputs \<Rightarrow> usize \<Rightarrow> usize \<Rightarrow> usize \<Rightarrow> usize \<Rightarrow> 'd kernel \<Rightarrow> 'd outcome option" where
  "syscall M inp syscall_id a0 a1 a2 k =
    (if syscall_id = SYSCALL_DUP then sys_dup a0 k
     else if syscall_id = SYSCALL_OPEN then sys_open M a0 (ucast a1) k
     else if syscall_id = SYSCALL_CLOSE then sys_close a0 k
     else if syscall_id = SYSCALL_PIPE then sys_pipe a0 k
     else if syscall_id = SYSCALL_READ then sys_read M inp a0 a1 a2 k
     else if syscall_id = SYSCALL_WRITE then sys_write M a0 a1 a2 k
     else if syscall_id = SYSCALL_EXIT then sys_exit (ucast a0) k
     else if syscall_id = SYSCALL_YIELD then sys_yield k
     else if syscall_id = SYSCALL_KILL then sys_kill a0 (ucast a1) k
     else if syscall_id = SYSCALL_GET_TIME then sys_get_time inp k
     else if syscall_id = SYSCALL_GETPID then sys_getpid k
     else if syscall_id = SYSCALL_FORK then sys_fork M k
     else if syscall_id = SYSCALL_EXEC then sys_exec M a0 a1 k
     else if syscall_id = SYSCALL_WAITPID then sys_waitpid a0 a1 k
     else if syscall_id = SYSCALL_THREAD_CREATE then sys_thread_create M a0 a1 k
     else if syscall_id = SYSCALL_SLEEP then sys_sleep_call inp a0 k
     else if syscall_id = SYSCALL_GETTID then sys_gettid k
     else if syscall_id = SYSCALL_WAITTID then sys_waittid a0 k
     else if syscall_id = SYSCALL_MUTEX_CREATE then sys_mutex_create (a0 = 1) k
     else if syscall_id = SYSCALL_MUTEX_LOCK then sys_mutex_lock a0 k
     else if syscall_id = SYSCALL_MUTEX_UNLOCK then sys_mutex_unlock a0 k
     else if syscall_id = SYSCALL_SEMAPHORE_CREATE then sys_semaphore_create a0 k
     else if syscall_id = SYSCALL_SEMAPHORE_UP then sys_semaphore_up a0 k
     else if syscall_id = SYSCALL_SEMAPHORE_DOWN then sys_semaphore_down a0 k
     else if syscall_id = SYSCALL_CONDVAR_CREATE then sys_condvar_create k
     else if syscall_id = SYSCALL_CONDVAR_SIGNAL then sys_condvar_signal a0 k
     else if syscall_id = SYSCALL_CONDVAR_WAIT then sys_condvar_wait a0 a1 k
     else None)"

section \<open>Traps\<close>

text \<open>The causes the handler distinguishes; a fault is any of the six access faults and page faults.\<close>

datatype trap_cause = UserEnvCall | SupervisorTimer | AccessFault | IllegalInstruction | OtherTrap

text \<open>The end of the handler: a pending fatal signal ends the task, otherwise it returns to user mode.\<close>

definition trap_end :: "'d kernel \<Rightarrow> 'd outcome option" where
  "trap_end k = do {
    r \<leftarrow> check_signals_of_current k;
    case r of
      None \<Rightarrow> Some (Ret 0 k)
    | Some (errno, _) \<Rightarrow> map_option of_exit (exit_current_and_run_next errno k)
  }"

text \<open>
  \<open>trap_handler\<close> up to the return to user mode (\<open>Ret\<close>) or to the point where the task gives up the processor. A
  system call that gives it up writes its result and runs \<open>trap_end\<close> when the task is scheduled again.
\<close>

definition trap_handler :: "'d machine \<Rightarrow> inputs \<Rightarrow> (TimerCondVar list \<Rightarrow> nat option) \<Rightarrow> trap_cause \<Rightarrow> 'd kernel \<Rightarrow> 'd outcome option" where
  "trap_handler M inp pk cause k = (case cause of
      UserEnvCall \<Rightarrow> do {
        ppn \<leftarrow> current_trap_cx_ppn k;
        let cx = get_trap_cx ppn (kmem_of k);
        let k = set_kmem (put_trap_cx ppn (cx\<lparr>tx_sepc := tx_sepc cx + 4\<rparr>) (kmem_of k)) k;
        r \<leftarrow> syscall M inp (tx_x cx ! 17) (tx_x cx ! 10) (tx_x cx ! 11) (tx_x cx ! 12) k;
        case r of
          Ret res k \<Rightarrow> do {
            ppn \<leftarrow> current_trap_cx_ppn k;
            let cx = get_trap_cx ppn (kmem_of k);
            trap_end (set_kmem (put_trap_cx ppn (cx\<lparr>tx_x := (tx_x cx)[10 := res]\<rparr>) (kmem_of k)) k)
          }
        | Switch k \<Rightarrow> Some (Switch k)
        | Halt b \<Rightarrow> Some (Halt b)
      }
    | SupervisorTimer \<Rightarrow>
        (let (timers, d) = check_timer pk (in_time inp) (TIMERS k) (kd k) in switch_suspend (k\<lparr>TIMERS := timers, kd := d\<rparr>))
    | AccessFault \<Rightarrow> do { k \<leftarrow> current_add_signal SIGSEGV k; trap_end k }
    | IllegalInstruction \<Rightarrow> do { k \<leftarrow> current_add_signal SIGILL k; trap_end k }
    | OtherTrap \<Rightarrow> None)"

end
