(* ===== verification/SyscallProps.thy ===== *)
theory SyscallProps
  imports Syscalls
begin

text \<open>
  What the system calls do for the process that makes them: file descriptors and signals.
\<close>

section \<open>File descriptors\<close>

text \<open>The lowest descriptor that is not in use.\<close>

definition least_free :: "nat option list \<Rightarrow> nat \<Rightarrow> bool" where
  "least_free ts n \<longleftrightarrow> n \<le> length ts \<and> list_all (\<lambda>i. ts ! i \<noteq> None) [0..<n] \<and> (n < length ts \<longrightarrow> ts ! n = None)"

text \<open>The file a descriptor stands for.\<close>

definition fd_file :: "nat option list \<Rightarrow> nat \<Rightarrow> nat option" where
  "fd_file ts i = (if i < length ts then ts ! i else None)"

lemma fd_file_update: "n < length xs \<Longrightarrow> fd_file (xs[n := v]) = (fd_file xs)(n := v)"
  by (auto simp: fd_file_def fun_eq_iff)

lemma find_upt_Some: "find Q [0..<n] = Some i \<Longrightarrow> i < n \<and> Q i \<and> (\<forall>j<i. \<not> Q j)"
  by (auto simp: find_Some_iff)

lemma alloc_fd_spec:
  assumes "alloc_fd P = (n, P')"
  shows "least_free (fd_table P) n" "n < length (fd_table P')" "fd_file (fd_table P') i = fd_file (fd_table P) i"
    "P' = P\<lparr>fd_table := fd_table P'\<rparr>"
proof -
  let ?r = "find (\<lambda>fd. fd_table P ! fd = None) [0..<length (fd_table P)]"
  have "least_free (fd_table P) n \<and> n < length (fd_table P') \<and> fd_file (fd_table P') i = fd_file (fd_table P) i
      \<and> P' = P\<lparr>fd_table := fd_table P'\<rparr>"
  proof (cases ?r)
    case None
    then have "n = length (fd_table P)" "P' = P\<lparr>fd_table := fd_table P @ [None]\<rparr>"
      using assms by (auto simp: alloc_fd_def Let_def)
    moreover have "list_all (\<lambda>i. fd_table P ! i \<noteq> None) [0..<length (fd_table P)]"
      using None by (auto simp: find_None_iff list_all_iff)
    ultimately show ?thesis by (auto simp: least_free_def fd_file_def nth_append less_Suc_eq)
  next
    case (Some fd)
    then have "n = fd" "P' = P" using assms by (auto simp: alloc_fd_def)
    with find_upt_Some [OF Some] show ?thesis by (auto simp: least_free_def list_all_iff)
  qed
  then show "least_free (fd_table P) n" "n < length (fd_table P')" "fd_file (fd_table P') i = fd_file (fd_table P) i"
    "P' = P\<lparr>fd_table := fd_table P'\<rparr>" by blast+
qed

lemma install_fd_spec:
  assumes "install_fd f P = (n, P')"
  shows "least_free (fd_table P) n" "fd_file (fd_table P') = (fd_file (fd_table P))(n := Some f)" "P' = P\<lparr>fd_table := fd_table P'\<rparr>"
proof -
  obtain Q where a: "alloc_fd P = (n, Q)" and P': "P' = Q\<lparr>fd_table := (fd_table Q)[n := Some f]\<rparr>"
    using assms by (auto simp: install_fd_def split: prod.splits)
  note s = alloc_fd_spec [OF a]
  show "least_free (fd_table P) n" by (rule s(1))
  have "fd_file (fd_table Q) = fd_file (fd_table P)" using s(3) by (rule ext)
  then show "fd_file (fd_table P') = (fd_file (fd_table P))(n := Some f)" using s(2) by (simp add: P' fd_file_update)
  have "Q\<lparr>fd_table := X\<rparr> = P\<lparr>fd_table := X\<rparr>" for X by (subst s(4)) simp
  then show "P' = P\<lparr>fd_table := fd_table P'\<rparr>" by (simp add: P')
qed

lemma get_set_proc: "get_proc q k = Some P \<Longrightarrow> get_proc r (set_proc q Q k) = (if r = q then Some Q else get_proc r k)"
  by (auto simp: get_proc_def set_proc_def index_at_def split: if_splits)

lemma set_proc_fields [simp]:
  "kd (set_proc q Q k) = kd k" "get_tcb t (set_proc q Q k) = get_tcb t k" "kst (set_proc q Q k) = kst k"
  "files (set_proc q Q k) = files k" "set_proc q R (set_proc q Q k) = set_proc q R k"
  by (simp_all add: set_proc_def get_tcb_def)

lemma current_process_set_proc:
  assumes "get_proc q k = Some P"
  shows "current_process (set_proc q Q k) = current_process k"
proof -
  have "do { _ \<leftarrow> get_proc r (set_proc q Q k); Some r } = do { _ \<leftarrow> get_proc r k; Some r }" for r
    using assms by (simp add: get_set_proc [OF assms])
  then show ?thesis by (simp add: current_process_def)
qed

text \<open>
  File descriptors of the current process. \<open>dup\<close> of an open descriptor returns the lowest descriptor that was not
  in use, which then stands for the same open file, and no other descriptor changes; \<open>close\<close> of an open descriptor
  makes it unused, and only it; both return -1 and change nothing for a descriptor that is not open or out of range;
  closing what \<open>dup\<close> returned restores what every descriptor stands for.
\<close>

theorem fd_syscalls_spec:
  assumes cur: "current_process k = Some p" "get_proc p k = Some P" and small: "length (fd_table P) < 2 ^ 64 - 1"
  shows "(fd_file (fd_table P) (unat fd) = Some f \<longrightarrow> (\<exists>n Q. sys_dup fd k = Some (Ret (of_nat n) (set_proc p Q k))
      \<and> least_free (fd_table P) n \<and> fd_file (fd_table Q) = (fd_file (fd_table P))(n := Some f) \<and> Q = P\<lparr>fd_table := fd_table Q\<rparr>
      \<and> (\<exists>R. sys_close (of_nat n) (set_proc p Q k) = Some (Ret 0 (set_proc p R k)) \<and> fd_file (fd_table R) = fd_file (fd_table P))))
    \<and> (fd_file (fd_table P) (unat fd) = Some f \<longrightarrow> sys_close fd k = Some (Ret 0 (set_proc p (P\<lparr>fd_table := (fd_table P)[unat fd := None]\<rparr>) k)))
    \<and> (fd_file (fd_table P) (unat fd) = None \<longrightarrow> sys_dup fd k = Some (Ret (-1) k) \<and> sys_close fd k = Some (Ret (-1) k))"
proof (rule conjI, rule_tac [2] conjI; (intro impI)?)
  show close: "sys_close fd k = Some (Ret 0 (set_proc p (P\<lparr>fd_table := (fd_table P)[unat fd := None]\<rparr>) k))"
    if "fd_file (fd_table P) (unat fd) = Some f" for fd f
    using that cur by (auto simp: sys_close_def fd_file_def split: if_splits)
  show "sys_dup fd k = Some (Ret (-1) k) \<and> sys_close fd k = Some (Ret (-1) k)" if "fd_file (fd_table P) (unat fd) = None"
    using that cur by (auto simp: sys_dup_def sys_close_def fd_file_def split: if_splits)
  assume f: "fd_file (fd_table P) (unat fd) = Some f"
  obtain n Q where i: "install_fd f P = (n, Q)" by (cases "install_fd f P")
  note s = install_fd_spec [OF i]
  have d: "sys_dup fd k = Some (Ret (of_nat n) (set_proc p Q k))"
    using f cur i by (auto simp: sys_dup_def fd_file_def Let_def split: if_splits)
  have "n < 2 ^ 64" using s(1) small by (auto simp: least_free_def)
  then have n: "unat (of_nat n :: usize) = n" by (rule unat_of_nat_usize)
  have free: "fd_file (fd_table P) n = None" using s(1) by (auto simp: least_free_def fd_file_def)
  have fn: "fd_file (fd_table Q) n = Some f" using s(2) by simp
  then have ln: "n < length (fd_table Q)" by (auto simp: fd_file_def split: if_splits)
  let ?R = "Q\<lparr>fd_table := (fd_table Q)[n := None]\<rparr>"
  have "sys_close (of_nat n) (set_proc p Q k) = Some (Ret 0 (set_proc p ?R k))"
    using fn cur by (auto simp: sys_close_def n fd_file_def current_process_set_proc [OF cur(2)] get_set_proc [OF cur(2)] split: if_splits)
  moreover have "fd_file (fd_table ?R) = fd_file (fd_table P)"
    using ln free by (simp add: fd_file_update s(2) fun_upd_idem)
  ultimately have "\<exists>R. sys_close (of_nat n) (set_proc p Q k) = Some (Ret 0 (set_proc p R k)) \<and> fd_file (fd_table R) = fd_file (fd_table P)"
    by blast
  with d s show "\<exists>n Q. sys_dup fd k = Some (Ret (of_nat n) (set_proc p Q k))
      \<and> least_free (fd_table P) n \<and> fd_file (fd_table Q) = (fd_file (fd_table P))(n := Some f) \<and> Q = P\<lparr>fd_table := fd_table Q\<rparr>
      \<and> (\<exists>R. sys_close (of_nat n) (set_proc p Q k) = Some (Ret 0 (set_proc p R k)) \<and> fd_file (fd_table R) = fd_file (fd_table P))"
    by blast
qed

text \<open>A process with two threads (the second has exited) and three open descriptors, the second one closed.\<close>

definition sample_pcb :: ProcessControlBlock where
  "sample_pcb = \<lparr>pid = 7, is_zombie = False, memory_set = \<lparr>ms_page_table = from_token 0, ms_areas = []\<rparr>, parent = None,
    children = [], exit_code = 0, fd_table = [Some 0, None, Some 1], mutex_list = [], semaphore_list = [], condvar_list = [],
    signals = 0, tasks = [Some 0, Some 1], task_res_allocator = RecycleAllocator_new\<rparr>"

definition sample_tcb :: "KernelStack \<Rightarrow> TaskUserRes option \<Rightarrow> i32 option \<Rightarrow> TaskControlBlock" where
  "sample_tcb ks r c = \<lparr>tcb_process = 0, tcb_kstack = ks, tcb_res = r, tcb_trap_cx_ppn = 0,
    tcb_task_cx = TaskContext_zero_init, tcb_exit_code = c\<rparr>"

definition sample_kernel :: "bytes kernel" where
  "sample_kernel = \<lparr>kst = \<lparr>k_mem = boot_kmem 0x80300000, KERNEL_SPACE = \<lparr>ms_page_table = from_token 0, ms_areas = []\<rparr>,
      PID_ALLOCATOR = RecycleAllocator_new, KSTACK_ALLOCATOR = RecycleAllocator_new\<rparr>,
    kd = \<lparr>TASK_MANAGER = TaskManager_new, PROCESSOR = \<lparr>proc_current = Some 0, idle_task_cx = TaskContext_zero_init\<rparr>,
      task_status = (\<lambda>_. Running)\<rparr>,
    TIMERS = [], procs = [Some sample_pcb],
    tcbs = [Some (sample_tcb 0 (Some \<lparr>res_tid = 0, res_ustack_base = 0\<rparr>) None), Some (sample_tcb 1 None (Some 5))],
    PID2PCB = [(7, 0)], INITPROC = 9, files = [F_Stdin, F_Stdout], rings = [], disk = BlockCacheManager_new [], console = []\<rparr>"

lemma sample_current: "current_process sample_kernel = Some 0" "get_proc 0 sample_kernel = Some sample_pcb"
  by (simp_all add: sample_kernel_def current_process_def current_task_def get_tcb_def get_proc_def index_at_def sample_tcb_def)

theorem fd_syscalls_spec_witness:
  "(\<exists>n Q. sys_dup 2 sample_kernel = Some (Ret (of_nat n) (set_proc 0 Q sample_kernel)) \<and> n = 1
      \<and> fd_file (fd_table Q) = (fd_file [Some 0, None, Some 1])(1 := Some 1))
   \<and> sys_close 1 sample_kernel = Some (Ret (-1) sample_kernel)"
proof -
  have t: "fd_table sample_pcb = [Some 0, None, Some 1]" by (simp add: sample_pcb_def)
  note spec = fd_syscalls_spec [OF sample_current, unfolded t]
  obtain n Q where "sys_dup 2 sample_kernel = Some (Ret (of_nat n) (set_proc 0 Q sample_kernel))" and lf: "least_free [Some 0, None, Some 1] n"
      and "fd_file (fd_table Q) = (fd_file [Some 0, None, Some 1])(n := Some 1)"
    using spec [THEN conjunct1, THEN mp, of 2 1] by (auto simp: fd_file_def)
  moreover have "n = 1"
  proof -
    have "\<not> 1 < n" using lf by (auto simp: least_free_def list_all_iff dest!: bspec [where x = 1])
    moreover have "n \<noteq> 0" using lf by (cases n) (auto simp: least_free_def)
    ultimately show ?thesis by simp
  qed
  ultimately have "\<exists>n Q. sys_dup 2 sample_kernel = Some (Ret (of_nat n) (set_proc 0 Q sample_kernel)) \<and> n = 1
      \<and> fd_file (fd_table Q) = (fd_file [Some 0, None, Some 1])(1 := Some 1)" by blast
  moreover have "sys_close 1 sample_kernel = Some (Ret (-1) sample_kernel)" using spec [THEN conjunct2, THEN conjunct2, THEN mp, of 1] by (simp add: fd_file_def)
  ultimately show ?thesis by blast
qed

lemma set_kmem_proc [simp]: "get_proc p (set_kmem m k) = get_proc p k"
  by (simp add: set_kmem_def get_proc_def)

section \<open>Signals\<close>

text \<open>
  C25. Signals end a process at its next return to user mode. \<open>kill\<close> of a process in the table adds the given signals to
  its pending ones (any set of signals is accepted) and returns 0, and of another id returns -1. An access fault and an
  illegal instruction add their signal to the current process; the end of the trap handler then exits the current task
  with minus the number of the lowest pending fatal signal, and returns to user mode exactly when none is pending.
\<close>

theorem signals_end_process:
  assumes cur: "current_process k = Some p" "get_proc p k = Some P"
  shows "(pid2process i k = Some q \<longrightarrow> get_proc q k = Some Q \<longrightarrow>
      sys_kill i sig k = Some (Ret 0 (set_proc q (Q\<lparr>signals := signals Q OR sig\<rparr>) k)))
    \<and> (pid2process i k = None \<longrightarrow> sys_kill i sig k = Some (Ret (-1) k))
    \<and> (find (bit (signals P)) fatal_signals = None \<longrightarrow> trap_end k = Some (Ret 0 k))
    \<and> (find (bit (signals P)) fatal_signals = Some n \<longrightarrow>
      trap_end k = map_option of_exit (exit_current_and_run_next (- of_nat n) k))
    \<and> (find (bit (signals P OR SIGSEGV)) fatal_signals = Some n \<longrightarrow> trap_handler M inp pk AccessFault k =
      map_option of_exit (exit_current_and_run_next (- of_nat n) (set_proc p (P\<lparr>signals := signals P OR SIGSEGV\<rparr>) k)))
    \<and> (find (bit (signals P OR SIGSEGV)) fatal_signals \<noteq> None \<and> find (bit (signals P OR SIGILL)) fatal_signals \<noteq> None)
    \<and> (find (bit (signals P OR SIGILL)) fatal_signals = Some n \<longrightarrow> trap_handler M inp pk IllegalInstruction k =
      map_option of_exit (exit_current_and_run_next (- of_nat n) (set_proc p (P\<lparr>signals := signals P OR SIGILL\<rparr>) k)))"
proof (rule conjI, rule_tac [2] conjI, rule_tac [3] conjI, rule_tac [4] conjI, rule_tac [5] conjI, rule_tac [6] conjI; (intro impI)?)
  have te: "trap_end k' = (case find (bit (signals P')) fatal_signals of None \<Rightarrow> Some (Ret 0 k')
      | Some n \<Rightarrow> map_option of_exit (exit_current_and_run_next (- of_nat n) k'))"
    if "current_process k' = Some p" "get_proc p k' = Some P'" for P' and k' :: "'a kernel"
    using that check_error_eq [of "signals P'"]
    by (auto simp: trap_end_def check_signals_of_current_def split: option.splits)
  show "trap_end k = Some (Ret 0 k)" if "find (bit (signals P)) fatal_signals = None"
    using te [OF cur] that by simp
  show "trap_end k = map_option of_exit (exit_current_and_run_next (- of_nat n) k)" if "find (bit (signals P)) fatal_signals = Some n"
    using te [OF cur] that by simp
  have add: "trap_end (set_proc p (P\<lparr>signals := g\<rparr>) k) = map_option of_exit (exit_current_and_run_next (- of_nat n) (set_proc p (P\<lparr>signals := g\<rparr>) k))"
    if "find (bit g) fatal_signals = Some n" for g n
    using te [of "set_proc p (P\<lparr>signals := g\<rparr>) k" "P\<lparr>signals := g\<rparr>"] that cur current_process_set_proc [OF cur(2)] get_set_proc [OF cur(2)]
    by simp
  show "trap_handler M inp pk AccessFault k =
      map_option of_exit (exit_current_and_run_next (- of_nat n) (set_proc p (P\<lparr>signals := signals P OR SIGSEGV\<rparr>) k))"
    if "find (bit (signals P OR SIGSEGV)) fatal_signals = Some n"
    using add [OF that] cur by (simp add: trap_handler_def current_add_signal_def)
  show "trap_handler M inp pk IllegalInstruction k =
      map_option of_exit (exit_current_and_run_next (- of_nat n) (set_proc p (P\<lparr>signals := signals P OR SIGILL\<rparr>) k))"
    if "find (bit (signals P OR SIGILL)) fatal_signals = Some n"
    using add [OF that] cur by (simp add: trap_handler_def current_add_signal_def)
  show "find (bit (signals P OR SIGSEGV)) fatal_signals \<noteq> None \<and> find (bit (signals P OR SIGILL)) fatal_signals \<noteq> None"
    by (auto simp: fatal_signals_def SIGSEGV_def SIGILL_def signal_flag_def bit_simps)
qed (auto simp: sys_kill_def)

theorem signals_end_process_witness:
  "sys_kill 7 512 sample_kernel = Some (Ret 0 (set_proc 0 (sample_pcb\<lparr>signals := signals sample_pcb OR 512\<rparr>) sample_kernel))
   \<and> sys_kill 8 512 sample_kernel = Some (Ret (-1) sample_kernel)
   \<and> trap_end sample_kernel = Some (Ret 0 sample_kernel)"
proof -
  note s = signals_end_process [OF sample_current]
  have "pid2process 7 sample_kernel = Some 0" "pid2process 8 sample_kernel = None"
    by (simp_all add: pid2process_def sample_kernel_def)
  moreover have "find (bit (signals sample_pcb)) fatal_signals = None" by (simp add: sample_pcb_def fatal_signals_def)
  ultimately show ?thesis using s [THEN conjunct1, THEN mp, THEN mp, of 7 0 sample_pcb 512] s [THEN conjunct2, THEN conjunct1, THEN mp, of 8 512] s [THEN conjunct2, THEN conjunct2, THEN conjunct1, THEN mp] sample_current(2) by simp
qed

end
