(* ===== verification/Fork.thy ===== *)
theory Fork
  imports SyscallProps
begin

text \<open>
  \<open>ProcessControlBlock::fork\<close> (\<open>os/src/task/process.rs\<close>): the child process, its address space and its main thread, on
  top of the copy of an address space and the allocation of a kernel stack.
\<close>

section \<open>Trap contexts in memory\<close>

lemma length_TrapContext_words: "length (tx_x cx) = 32 \<Longrightarrow> length (TrapContext_words cx) = 37"
  by (simp add: TrapContext_words_def)

lemma length_get_trap_cx [simp]: "length (tx_x (get_trap_cx ppn m)) = 32"
  by (simp add: get_trap_cx_def Let_def)

lemma pages_put_trap_cx: "p \<noteq> ppn \<Longrightarrow> pages (put_trap_cx ppn cx m) p = pages m p"
  by (simp add: put_trap_cx_def set_bytes_array_def)

lemma put_trap_cx_inv:
  assumes "length (tx_x cx) = 32" "kmem_inv l m"
  shows "kmem_inv l (put_trap_cx ppn cx m)" "live_frames l (put_trap_cx ppn cx m) = live_frames l m"
  using assms by (auto simp: put_trap_cx_def kmem_inv_def live_frames_def set_bytes_array_def get_bytes_array_def length_TrapContext_words)

lemma get_put_trap_cx:
  assumes x: "length (tx_x cx) = 32" and m: "kmem_inv l m"
  shows "get_trap_cx ppn (put_trap_cx ppn cx m) = cx"
proof -
  let ?w = "TrapContext_words cx"
  have l: "length ?w = 37" by (rule length_TrapContext_words [OF x])
  have "get_bytes_array (put_trap_cx ppn cx m) ppn = encode_array 8 ?w @ drop 296 (pages m ppn)"
    using l by (simp add: put_trap_cx_def get_bytes_array_def set_bytes_array_def splice_at_def)
  then have "decode_array 8 37 (get_bytes_array (put_trap_cx ppn cx m) ppn) = ?w"
    using l by (simp add: decode_array_append)
  then show ?thesis using x by (simp add: get_trap_cx_def TrapContext_words_def nth_append)
qed

lemma get_trap_cx_cong: "pages m p = pages m' p' \<Longrightarrow> get_trap_cx p m = get_trap_cx p' m'"
  by (simp add: get_trap_cx_def get_bytes_array_def)

section \<open>The trap context of the main thread\<close>

definition TRAP_VPN :: VirtPageNum where "TRAP_VPN = 0x7FFFFFE"

lemma trap_vpn: "VirtPageNum_from_VirtAddr (VirtAddr_from (trap_cx_bottom_from_tid 0)) = Some TRAP_VPN"
proof -
  have u: "unat (VirtAddr_from (trap_cx_bottom_from_tid 0)) = 2 ^ 39 - 8192"
    using trap_cx_unat [of 0] by (simp add: unat_VirtAddr_from)
  have "VA_page_offset (VirtAddr_from (trap_cx_bottom_from_tid 0)) = 0"
    using u by (simp add: word_unat_eq_iff unat_VA_page_offset)
  moreover have "VA_floor (VirtAddr_from (trap_cx_bottom_from_tid 0)) = TRAP_VPN"
    using u by (simp add: word_unat_eq_iff unat_VA_floor TRAP_VPN_def)
  ultimately show ?thesis by (simp add: VirtPageNum_from_VirtAddr_def)
qed

lemma trap_cx_ppn_mapped:
  "mapping m (ms_root ms) TRAP_VPN = Some e \<Longrightarrow> res_tid res = 0 \<Longrightarrow> trap_cx_ppn res (ms, m) = Some (PTE_ppn e)"
  by (simp add: trap_cx_ppn_def trap_vpn unwrap_translate_def ms_translate_def pt_translate_mapped)

section \<open>Spaces next to each other\<close>

lemma kspace_grow:
  assumes inv: "kspace_inv l s" and f: "fresh_space l (k_mem s) ms m"
  shows "kspace_inv l (s\<lparr>k_mem := m\<rparr>)"
proof -
  have ks: "ms_inv l (KERNEL_SPACE s) (k_mem s)" using inv by (simp add: kspace_inv_def)
  have "set (ms_frames (KERNEL_SPACE s)) \<subseteq> live_frames l (k_mem s)" using ks unfolding ms_inv_def by blast
  then have "ms_inv l (KERNEL_SPACE s) m"
    using f by (intro ms_inv_pages_cong(1) [OF ks]) (auto simp: fresh_space_def ms_inv_def ms_frames_def)
  then show ?thesis using inv by (simp add: kspace_inv_def)
qed

text \<open>A space that shares no frame with the page table of another is not touched when areas are mapped there.\<close>

lemma space_kept:
  assumes ms: "ms_inv l ms m" and sep: "set (ms_frames ms) \<inter> set (pt_frames pt) = {}"
    and mp: "mapped_pages l (a, pt, m) vs (a', pt', m')"
  shows "ms_inv l ms m'" "mapping m' (ms_root ms) = mapping m (ms_root ms)"
    "\<And>p. p \<in> set (ms_frames ms) \<Longrightarrow> pages m' p = pages m p"
proof -
  have fr: "set (ms_frames ms) \<subseteq> live_frames l m" using ms unfolding ms_inv_def by blast
  show pg: "pages m' p = pages m p" if "p \<in> set (ms_frames ms)" for p
    using mp that fr sep by (auto simp: mapped_pages_def)
  have m': "kmem_inv l m'" "set (ms_frames ms) \<subseteq> live_frames l m'" using mp fr by (auto simp: mapped_pages_def)
  note C = ms_inv_pages_cong [OF ms m']
  show "ms_inv l ms m'" by (rule C(1)) (auto intro: pg simp: ms_frames_def)
  show "mapping m' (ms_root ms) = mapping m (ms_root ms)" by (rule C(2)) (auto intro: pg simp: ms_frames_def)
qed

text \<open>Writing to a page that is not a page table.\<close>

lemma space_put:
  assumes ms: "ms_inv l ms m" and p: "p \<notin> set (pt_frames (ms_page_table ms))" and x: "length (tx_x cx) = 32"
  shows "ms_inv l ms (put_trap_cx p cx m)" "mapping (put_trap_cx p cx m) (ms_root ms) = mapping m (ms_root ms)"
proof -
  have k: "kmem_inv l m" "set (ms_frames ms) \<subseteq> live_frames l m" using ms unfolding ms_inv_def by blast+
  have f: "set (ms_frames ms) \<subseteq> live_frames l (put_trap_cx p cx m)" using k(2) put_trap_cx_inv(2) [OF x k(1)] by simp
  have pg: "pages (put_trap_cx p cx m) q = pages m q" if "q \<in> set (pt_frames (ms_page_table ms))" for q
    using p that by (intro pages_put_trap_cx) auto
  note C = ms_inv_pages_cong [OF ms put_trap_cx_inv(1) [OF x k(1)] f pg]
  show "ms_inv l ms (put_trap_cx p cx m)" by (rule C(1))
  show "mapping (put_trap_cx p cx m) (ms_root ms) = mapping m (ms_root ms)" by (rule C(2))
qed

text \<open>Different pages of a space of framed areas are in different frames.\<close>

lemma ms_data_entry:
  assumes inv: "ms_inv l ms m" and fr: "\<forall>a\<in>set (ms_areas ms). map_type a = Framed" and v: "v \<in> set (ms_pages ms)"
    and e: "mapping m (ms_root ms) v = Some e"
  shows "(v, PTE_ppn e) \<in> set (concat (map data_frames (ms_areas ms)))"
proof -
  obtain a where a: "a \<in> set (ms_areas ms)" "v \<in> set (area_pages a)" using v by (auto simp: ms_pages_def)
  have ok: "area_ok m (ms_root ms) a" using inv a(1) unfolding ms_inv_def by blast
  have "map fst (data_frames a) = area_pages a" "\<forall>(v, f)\<in>set (data_frames a). mapping m (ms_root ms) v = Some (area_pte a f)"
    using ok fr a(1) by (simp_all add: area_ok_def)
  moreover have "v \<in> fst ` set (data_frames a)" using a(2) calculation(1) by (metis list.set_map)
  ultimately obtain f where f: "(v, f) \<in> set (data_frames a)" "mapping m (ms_root ms) v = Some (area_pte a f)" by fastforce
  have "f \<in> live_frames l m" using f(1) a(1) inv unfolding ms_inv_def ms_frames_def area_frames_def by force
  then have "unat f < 2 ^ 44" using live_frame_bounds(2) inv unfolding ms_inv_def by blast
  then have "PTE_ppn e = f" using f(2) e by (simp add: area_pte_def)
  with f(1) a(1) show ?thesis by auto
qed

lemma frames_injective:
  assumes inv: "ms_inv l ms m" and fr: "\<forall>a\<in>set (ms_areas ms). map_type a = Framed"
    and v: "v \<in> set (ms_pages ms)" "w \<in> set (ms_pages ms)" "v \<noteq> w"
    and e: "mapping m (ms_root ms) v = Some d" "mapping m (ms_root ms) w = Some e"
  shows "PTE_ppn d \<noteq> PTE_ppn e"
proof
  let ?D = "concat (map data_frames (ms_areas ms))"
  assume eq: "PTE_ppn d = PTE_ppn e"
  have "distinct (map snd ?D)"
    using inv unfolding ms_inv_def ms_frames_def area_frames_def by (simp add: map_concat comp_def)
  moreover have "(v, PTE_ppn d) \<in> set ?D" "(w, PTE_ppn d) \<in> set ?D"
    using ms_data_entry [OF inv fr v(1) e(1)] ms_data_entry [OF inv fr v(2) e(2)] eq by simp_all
  ultimately show False using v(3) unfolding distinct_map by (metis inj_onD prod.inject snd_conv)
qed

section \<open>The steps of fork\<close>

lemma map_fd_id: "map (\<lambda>fd. case fd of Some f \<Rightarrow> Some f | None \<Rightarrow> None) ts = ts"
  by (intro map_idI) (auto split: option.splits)

definition child_pcb :: "nat \<Rightarrow> usize \<Rightarrow> MemorySet \<Rightarrow> task \<Rightarrow> ProcessControlBlock \<Rightarrow> ProcessControlBlock" where
  "child_pcb self i ms t par = \<lparr>pid = i, is_zombie = False, memory_set = ms, parent = Some self, children = [], exit_code = 0,
    fd_table = fd_table par, mutex_list = [], semaphore_list = [], condvar_list = [], signals = signals par, tasks = [Some t],
    task_res_allocator = \<lparr>ra_current = 1, ra_recycled = []\<rparr>\<rparr>"

definition child_tcb :: "'d machine \<Rightarrow> nat \<Rightarrow> KernelStack \<Rightarrow> usize \<Rightarrow> PhysPageNum \<Rightarrow> TaskControlBlock" where
  "child_tcb M c j base ppn = \<lparr>tcb_process = c, tcb_kstack = j, tcb_res = Some \<lparr>res_tid = 0, res_ustack_base = base\<rparr>,
    tcb_trap_cx_ppn = ppn, tcb_task_cx = goto_trap_return (m_trap_return M) (KernelStack_get_top j), tcb_exit_code = None\<rparr>"

lemma ra_alloc_new: "ra_alloc RecycleAllocator_new = (0, \<lparr>ra_current = 1, ra_recycled = []\<rparr>)"
  by (simp add: ra_alloc_def RecycleAllocator_new_def)

lemma Process_fork_eq:
  assumes par: "get_proc self k = Some par" "tasks par = [Some pt]" "get_tcb pt k = Some PT" "tcb_res PT = Some pres"
    and fe: "from_existed_user (m_syms M) (memory_set par) (kmem_of k) = Some (ms, m)"
    and pa: "ra_alloc (PID_ALLOCATOR (kst k)) = (i, A)" and e: "mapping m (ms_root ms) TRAP_VPN = Some e"
    and ks: "kstack_alloc ((kst k)\<lparr>k_mem := m, PID_ALLOCATOR := A\<rparr>) = Some (j, s')"
  shows "Process_fork M self k = Some (length (procs k),
    (let c = length (procs k); t = length (tcbs k);
         cx = (get_trap_cx (PTE_ppn e) (k_mem s'))\<lparr>tx_kernel_sp := KernelStack_get_top j\<rparr> in
     k\<lparr>kst := s'\<lparr>k_mem := put_trap_cx (PTE_ppn e) cx (k_mem s')\<rparr>,
       procs := (procs k)[self := Some (par\<lparr>children := children par @ [c]\<rparr>)] @ [Some (child_pcb self i ms t par)],
       tcbs := tcbs k @ [Some (child_tcb M c j (res_ustack_base pres) (PTE_ppn e))],
       PID2PCB := snd (bt_insert i c (PID2PCB k)),
       kd := add_task t ((kd k)\<lparr>task_status := (task_status (kd k))(t := Ready)\<rparr>)\<rparr>))"
proof -
  have self: "self < length (procs k)" "procs k ! self = Some par"
    using par(1) by (auto simp: get_proc_def index_at_def split: if_splits)
  have pt: "pt < length (tcbs k)" "tcbs k ! pt = Some PT"
    using par(3) by (auto simp: get_tcb_def index_at_def split: if_splits)
  have ppn: "trap_cx_ppn \<lparr>res_tid = 0, res_ustack_base = b\<rparr> (ms, m) = Some (PTE_ppn e)" for b
    by (rule trap_cx_ppn_mapped [OF e]) simp
  show ?thesis
    using self pt ks
    by (simp add: Process_fork_def par thread_count_def fe set_kmem_def pid_alloc_def pa Let_def get_proc_def set_proc_def
        index_at_def nth_append list_update_append pcb_get_task_def get_tcb_def TaskControlBlock_new_def TaskUserRes_new_def
        ra_alloc_new ppn child_pcb_def child_tcb_def insert_into_pid2process_def map_fd_id)
qed

text \<open>
  What the memory of parent and child looks like after a fork: \<open>m\<close> before, \<open>m'\<close> after, and the trap context of the child
  in the frame \<open>f\<close> with the kernel stack \<open>j\<close>.
\<close>

definition forked_memory :: "PhysPageNum \<Rightarrow> MemorySet \<Rightarrow> kmem \<Rightarrow> MemorySet \<Rightarrow> kmem \<Rightarrow> PhysPageNum \<Rightarrow> KernelStack \<Rightarrow> bool" where
  "forked_memory l src m ms m' f j \<longleftrightarrow> ms_inv l ms m' \<and> ms_inv l src m' \<and> set (ms_frames ms) \<inter> live_frames l m = {}
    \<and> (\<forall>v\<in>set (ms_pages src). v \<noteq> TRAP_VPN \<longrightarrow> page_copied src m ms m' v)
    \<and> (\<forall>p\<in>set (ms_frames src). pages m' p = pages m p)
    \<and> (\<exists>e e'. mapping m (ms_root src) TRAP_VPN = Some e \<and> mapping m' (ms_root ms) TRAP_VPN = Some e' \<and> PTE_flags e' = PTE_flags e
        \<and> PTE_ppn e' = f \<and> get_trap_cx f m' = (get_trap_cx (PTE_ppn e) m)\<lparr>tx_kernel_sp := KernelStack_get_top j\<rparr>)"

lemma forked_memoryI:
  assumes src: "ms_inv l src m" and f: "fresh_space l m ms m1" and kpt: "set (pt_frames kpt) \<subseteq> live_frames l m - set (ms_frames src)"
    and cp: "\<And>v. v \<in> set (ms_pages src) \<Longrightarrow> page_copied src m ms m1 v" and tv: "TRAP_VPN \<in> set (ms_pages src)"
    and fr: "\<forall>a\<in>set (ms_areas ms). map_type a = Framed" and pg: "ms_pages ms = ms_pages src"
    and mp: "mapped_pages l (a, kpt, m1) vs (a', pt', m2)" and e': "mapping m1 (ms_root ms) TRAP_VPN = Some e'"
  shows "forked_memory l src m ms (put_trap_cx (PTE_ppn e') ((get_trap_cx (PTE_ppn e') m2)\<lparr>tx_kernel_sp := KernelStack_get_top j\<rparr>) m2)
    (PTE_ppn e') j"
proof -
  let ?f = "PTE_ppn e'" and ?cx = "(get_trap_cx (PTE_ppn e') m2)\<lparr>tx_kernel_sp := KernelStack_get_top j\<rparr>"
  let ?m = "put_trap_cx ?f ?cx m2"
  have x: "length (tx_x ?cx) = 32" by simp
  have F: "ms_inv l ms m1" "set (ms_frames ms) \<inter> live_frames l m = {}" "live_frames l m1 = live_frames l m \<union> set (ms_frames ms)"
    "\<And>p. p \<in> live_frames l m \<Longrightarrow> pages m1 p = pages m p" using f by (auto simp: fresh_space_def)
  have fs: "set (ms_frames src) \<subseteq> live_frames l m" using src unfolding ms_inv_def by blast
  have k1: "kmem_inv l m1" using F(1) by (simp add: ms_inv_def)
  have src1: "ms_inv l src m1" "mapping m1 (ms_root src) = mapping m (ms_root src)"
    by (rule ms_inv_pages_cong [OF src k1]; use F(3,4) fs in \<open>auto simp: ms_frames_def\<close>)+
  have sep: "set (ms_frames ms) \<inter> set (pt_frames kpt) = {}" "set (ms_frames src) \<inter> set (pt_frames kpt) = {}"
    using kpt F(2) by auto
  note M = space_kept [OF F(1) sep(1) mp] and S = space_kept [OF src1(1) sep(2) mp]
  obtain e where e: "mapping m (ms_root src) TRAP_VPN = Some e" "PTE_flags e' = PTE_flags e" "?f \<in> set (ms_data ms)"
      "pages m1 ?f = pages m (PTE_ppn e)"
    using cp [OF tv] e' by (auto simp: page_copied_def)
  have fd: "?f \<in> set (ms_frames ms)" "?f \<notin> set (pt_frames (ms_page_table ms))"
  proof -
    show "?f \<in> set (ms_frames ms)" using e(3) by (simp add: ms_data_def ms_frames_def)
    have "distinct (ms_frames ms)" using F(1) unfolding ms_inv_def by blast
    then show "?f \<notin> set (pt_frames (ms_page_table ms))" using e(3) by (auto simp: ms_data_def ms_frames_def)
  qed
  have fsrc: "?f \<notin> set (ms_frames src)" using fd(1) fs F(2) by auto
  then have fpt: "?f \<notin> set (pt_frames (ms_page_table src))" by (simp add: ms_frames_def)
  note P = space_put [OF M(1) fd(2) x] and Q = space_put [OF S(1) fpt x]
  have k2: "kmem_inv l m2" using M(1) by (simp add: ms_inv_def)
  have "page_copied src m ms ?m v" if v: "v \<in> set (ms_pages src)" "v \<noteq> TRAP_VPN" for v
  proof -
    obtain d d' where d: "mapping m (ms_root src) v = Some d" "mapping m1 (ms_root ms) v = Some d'" "PTE_flags d' = PTE_flags d"
        "PTE_ppn d' \<in> set (ms_data ms)" "pages m1 (PTE_ppn d') = pages m (PTE_ppn d)"
      using cp [OF v(1)] by (auto simp: page_copied_def)
    have "PTE_ppn d' \<noteq> ?f" by (rule frames_injective [OF F(1) fr _ _ v(2) d(2) e']) (use v(1) tv pg in auto)
    then have "pages ?m (PTE_ppn d') = pages m (PTE_ppn d)"
      using d(4,5) M(3) [of "PTE_ppn d'"] by (simp add: pages_put_trap_cx ms_data_def ms_frames_def)
    then show ?thesis using d P(2) M(2) by (auto simp: page_copied_def)
  qed
  moreover have "pages ?m p = pages m p" if "p \<in> set (ms_frames src)" for p
    using that fsrc S(3) F(4) fs by (subst pages_put_trap_cx) auto
  moreover have "get_trap_cx ?f ?m = (get_trap_cx (PTE_ppn e) m)\<lparr>tx_kernel_sp := KernelStack_get_top j\<rparr>"
    using get_put_trap_cx [OF x k2] get_trap_cx_cong [of m2 ?f m "PTE_ppn e"] M(3) [OF fd(1)] e(4) by simp
  ultimately show ?thesis unfolding forked_memory_def using P Q M(2) F(2) e e' by auto
qed

section \<open>Fork\<close>

text \<open>A process with one thread whose resources and memory are in order, next to the kernel's own space.\<close>

definition can_fork :: "PhysPageNum \<Rightarrow> 'd machine \<Rightarrow> nat \<Rightarrow> ProcessControlBlock \<Rightarrow> 'd kernel \<Rightarrow> bool" where
  "can_fork l M self par k \<longleftrightarrow> get_proc self k = Some par
    \<and> (\<exists>pt PT. tasks par = [Some pt] \<and> get_tcb pt k = Some PT \<and> tcb_res PT \<noteq> None)
    \<and> kspace_inv l (kst k) \<and> ms_inv l (memory_set par) (kmem_of k) \<and> (\<forall>a\<in>set (ms_areas (memory_set par)). map_type a = Framed)
    \<and> set (ms_frames (memory_set par)) \<inter> set (pt_frames (ms_page_table (KERNEL_SPACE (kst k)))) = {}
    \<and> TRAP_VPN \<in> set (ms_pages (memory_set par)) \<and> VA_page_offset (PhysAddr_from (strampoline (m_syms M))) = 0
    \<and> 9 + 3 * length (ms_pages (memory_set par)) \<le> free_frames (kmem_of k)
    \<and> (ra_recycled (KSTACK_ALLOCATOR (kst k)) \<noteq> [] \<or> unat (ra_current (KSTACK_ALLOCATOR (kst k))) < 2 ^ 24)"

lemma fork_ok:
  assumes "can_fork l M self par k"
  shows "\<exists>k' ms j f base. Process_fork M self k = Some (length (procs k), k')
    \<and> procs k' = (procs k)[self := Some (par\<lparr>children := children par @ [length (procs k)]\<rparr>)]
        @ [Some (child_pcb self (fst (ra_alloc (PID_ALLOCATOR (kst k)))) ms (length (tcbs k)) par)]
    \<and> tcbs k' = tcbs k @ [Some (child_tcb M (length (procs k)) j base f)]
    \<and> j \<notin> ra_live (KSTACK_ALLOCATOR (kst k)) \<and> kspace_inv l (kst k')
    \<and> kd k' = add_task (length (tcbs k)) ((kd k)\<lparr>task_status := (task_status (kd k))(length (tcbs k) := Ready)\<rparr>)
    \<and> forked_memory l (memory_set par) (kmem_of k) ms (kmem_of k') f j"
proof -
  let ?src = "memory_set par" and ?m = "kmem_of k"
  from assms obtain pt PT pres where par: "get_proc self k = Some par" "tasks par = [Some pt]" "get_tcb pt k = Some PT" "tcb_res PT = Some pres"
    by (auto simp: can_fork_def)
  have ks: "kspace_inv l (kst k)" and src: "ms_inv l ?src ?m" and fr: "\<forall>a\<in>set (ms_areas ?src). map_type a = Framed"
    and sep: "set (ms_frames ?src) \<inter> set (pt_frames (ms_page_table (KERNEL_SPACE (kst k)))) = {}"
    and tv: "TRAP_VPN \<in> set (ms_pages ?src)" and al: "VA_page_offset (PhysAddr_from (strampoline (m_syms M))) = 0"
    and free: "9 + 3 * length (ms_pages ?src) \<le> free_frames ?m"
    and room: "ra_recycled (KSTACK_ALLOCATOR (kst k)) \<noteq> [] \<or> unat (ra_current (KSTACK_ALLOCATOR (kst k))) < 2 ^ 24"
    using assms unfolding can_fork_def by blast+
  have "3 + 3 * length (ms_pages ?src) \<le> free_frames ?m" using free by simp
  from from_existed_user_ok [OF src fr al this] obtain ms m1 where
    fe: "from_existed_user (m_syms M) ?src ?m = Some (ms, m1)" and ac: "areas_copied l (m_syms M) ?src ?m (ms_areas ?src) (ms, m1)" by auto
  have f: "fresh_space l ?m ms m1" and fr1: "\<forall>a\<in>set (ms_areas ms). map_type a = Framed"
    and cp: "\<And>v. v \<in> set (ms_pages ?src) \<Longrightarrow> page_copied ?src ?m ms m1 v"
    and vr: "map vpn_range (ms_areas ms) = map vpn_range (ms_areas ?src)"
    and fm: "free_frames ?m \<le> free_frames m1 + 3 + 3 * length (ms_pages ?src)"
    using ac by (auto simp: areas_copied_def ms_pages_def)
  have pg: "ms_pages ms = ms_pages ?src" using areas_same_ranges [OF vr] by (simp add: ms_pages_def)
  obtain e' where e': "mapping m1 (ms_root ms) TRAP_VPN = Some e'" using cp [OF tv] by (auto simp: page_copied_def)
  obtain i A where pa: "ra_alloc (PID_ALLOCATOR (kst k)) = (i, A)" by fastforce
  define s1 where "s1 = (kst k)\<lparr>k_mem := m1, PID_ALLOCATOR := A\<rparr>"
  have "kspace_inv l s1" using kspace_grow [OF ks f] by (simp add: s1_def kspace_inv_def)
  moreover have "6 \<le> free_frames (k_mem s1)" using fm free by (simp add: s1_def)
  moreover have "ra_recycled (KSTACK_ALLOCATOR s1) \<noteq> [] \<or> unat (ra_current (KSTACK_ALLOCATOR s1)) < 2 ^ 24" using room by (simp add: s1_def)
  ultimately obtain j s2 pt' a' where al2: "kstack_alloc s1 = Some (j, s2)" "j \<notin> ra_live (KSTACK_ALLOCATOR s1)" "kspace_inv l s2"
      "mapped_pages l (kstack_area j, ms_page_table (KERNEL_SPACE s1), k_mem s1) (range_items (kstack_range j)) (a', pt', k_mem s2)"
      "ms_page_table (KERNEL_SPACE s2) = pt'"
    using kstack_alloc_ok by metis
  let ?cx = "(get_trap_cx (PTE_ppn e') (k_mem s2))\<lparr>tx_kernel_sp := KernelStack_get_top j\<rparr>"
  have fk: "forked_memory l ?src ?m ms (put_trap_cx (PTE_ppn e') ?cx (k_mem s2)) (PTE_ppn e') j"
  proof (rule forked_memoryI [OF src f _ cp tv fr1 pg _ e'])
    have "set (ms_frames (KERNEL_SPACE (kst k))) \<subseteq> live_frames l ?m" using ks unfolding kspace_inv_def ms_inv_def by blast
    then show "set (pt_frames (ms_page_table (KERNEL_SPACE (kst k)))) \<subseteq> live_frames l ?m - set (ms_frames ?src)"
      using sep by (auto simp: ms_frames_def)
    show "mapped_pages l (kstack_area j, ms_page_table (KERNEL_SPACE (kst k)), m1) (range_items (kstack_range j)) (a', pt', k_mem s2)"
      using al2(4) by (simp add: s1_def)
  qed
  have "kspace_inv l (s2\<lparr>k_mem := put_trap_cx (PTE_ppn e') ?cx (k_mem s2)\<rparr>)"
  proof -
    have k2: "ms_inv l (KERNEL_SPACE s2) (k_mem s2)" using al2(3) by (simp add: kspace_inv_def)
    have "PTE_ppn e' \<in> set (ms_frames ms)" using cp [OF tv] e' by (auto simp: page_copied_def ms_data_def ms_frames_def)
    moreover have "set (ms_frames ms) \<inter> live_frames l ?m = {}" "set (ms_frames ms) \<subseteq> live_frames l m1"
      using f by (auto simp: fresh_space_def)
    moreover have "set (pt_frames pt') \<inter> live_frames l m1 \<subseteq> set (pt_frames (ms_page_table (KERNEL_SPACE (kst k))))"
      using al2(4) by (auto simp: mapped_pages_def s1_def)
    moreover have "set (pt_frames (ms_page_table (KERNEL_SPACE (kst k)))) \<subseteq> live_frames l ?m"
      using ks unfolding kspace_inv_def ms_inv_def ms_frames_def by auto
    ultimately have "PTE_ppn e' \<notin> set (pt_frames (ms_page_table (KERNEL_SPACE s2)))"
      unfolding al2(5) by blast
    from space_put(1) [OF k2 this] al2(3) show ?thesis by (simp add: kspace_inv_def)
  qed
  moreover define k' where "k' = k\<lparr>kst := s2\<lparr>k_mem := put_trap_cx (PTE_ppn e') ?cx (k_mem s2)\<rparr>,
     procs := (procs k)[self := Some (par\<lparr>children := children par @ [length (procs k)]\<rparr>)] @ [Some (child_pcb self i ms (length (tcbs k)) par)],
     tcbs := tcbs k @ [Some (child_tcb M (length (procs k)) j (res_ustack_base pres) (PTE_ppn e'))],
     PID2PCB := snd (bt_insert i (length (procs k)) (PID2PCB k)),
     kd := add_task (length (tcbs k)) ((kd k)\<lparr>task_status := (task_status (kd k))(length (tcbs k) := Ready)\<rparr>)\<rparr>"
  moreover have "Process_fork M self k = Some (length (procs k), k')"
    using Process_fork_eq [OF par fe pa e' al2(1) [unfolded s1_def]] by (simp add: k'_def Let_def)
  ultimately show ?thesis using fk al2(2) pa
    by (rule_tac exI [where x = k'], rule_tac exI [where x = ms], rule_tac exI [where x = j],
        rule_tac exI [where x = "PTE_ppn e'"], rule_tac exI [where x = "res_ustack_base pres"], simp add: s1_def)
qed

text \<open>
  C2. \<open>fork\<close> of a process with one thread, whose memory and kernel stacks are in order and with enough free frames, does
  not panic. The child has a new process id and the parent as its parent, the same open files and pending signals, no
  children, and one thread; the parent gets it as its last child, and no other process changes. The memory of the child
  has every page of the parent with the same contents and flags in frames that were free before, except that in the trap
  context the kernel stack pointer is the top of the child's own kernel stack, which was not in use; the pages of the
  parent are unchanged. The child's thread is at the end of the ready queue. A process whose list of threads does not
  have length one panics the kernel.
\<close>

theorem fork_spec:
  shows "(can_fork l M self par k \<longrightarrow> (\<exists>k' C t T. Process_fork M self k = Some (length (procs k), k')
      \<and> get_proc (length (procs k)) k' = Some C \<and> get_tcb t k' = Some T
      \<and> pid C = fst (ra_alloc (PID_ALLOCATOR (kst k))) \<and> parent C = Some self \<and> children C = [] \<and> \<not> is_zombie C
      \<and> fd_table C = fd_table par \<and> signals C = signals par \<and> tasks C = [Some t]
      \<and> get_proc self k' = Some (par\<lparr>children := children par @ [length (procs k)]\<rparr>)
      \<and> (\<forall>q. q \<noteq> self \<and> q \<noteq> length (procs k) \<longrightarrow> get_proc q k' = get_proc q k)
      \<and> ready (kd k') = ready (kd k) @ [t] \<and> task_status (kd k') t = Ready \<and> current_task (kd k') = current_task (kd k)
      \<and> tcb_process T = length (procs k) \<and> tcb_kstack T \<notin> ra_live (KSTACK_ALLOCATOR (kst k)) \<and> kspace_inv l (kst k')
      \<and> forked_memory l (memory_set par) (kmem_of k) (memory_set C) (kmem_of k') (tcb_trap_cx_ppn T) (tcb_kstack T)))
    \<and> (get_proc self k = Some par \<longrightarrow> length (tasks par) \<noteq> 1 \<longrightarrow> Process_fork M self k = None)"
proof (rule conjI; (intro impI)?)
  assume cf: "can_fork l M self par k"
  from fork_ok [OF cf] obtain k' ms j f base where r: "Process_fork M self k = Some (length (procs k), k')"
    "procs k' = (procs k)[self := Some (par\<lparr>children := children par @ [length (procs k)]\<rparr>)]
        @ [Some (child_pcb self (fst (ra_alloc (PID_ALLOCATOR (kst k)))) ms (length (tcbs k)) par)]"
    "tcbs k' = tcbs k @ [Some (child_tcb M (length (procs k)) j base f)]"
    "j \<notin> ra_live (KSTACK_ALLOCATOR (kst k))" "kspace_inv l (kst k')"
    "kd k' = add_task (length (tcbs k)) ((kd k)\<lparr>task_status := (task_status (kd k))(length (tcbs k) := Ready)\<rparr>)"
    "forked_memory l (memory_set par) (kmem_of k) ms (kmem_of k') f j" by blast
  have self: "self < length (procs k)" using cf by (auto simp: can_fork_def get_proc_def index_at_def split: if_splits)
  have "get_proc q k' = get_proc q k" if "q \<noteq> self" "q \<noteq> length (procs k)" for q
    using that by (auto simp: get_proc_def r(2) index_at_def nth_append)
  moreover have "get_proc self k' = Some (par\<lparr>children := children par @ [length (procs k)]\<rparr>)"
    using self by (simp add: get_proc_def r(2) nth_append)
  moreover have "get_proc (length (procs k)) k' = Some (child_pcb self (fst (ra_alloc (PID_ALLOCATOR (kst k)))) ms (length (tcbs k)) par)"
    by (simp add: get_proc_def r(2) nth_append)
  moreover have "get_tcb (length (tcbs k)) k' = Some (child_tcb M (length (procs k)) j base f)"
    by (simp add: get_tcb_def r(3))
  ultimately show "\<exists>k' C t T. Process_fork M self k = Some (length (procs k), k')
      \<and> get_proc (length (procs k)) k' = Some C \<and> get_tcb t k' = Some T
      \<and> pid C = fst (ra_alloc (PID_ALLOCATOR (kst k))) \<and> parent C = Some self \<and> children C = [] \<and> \<not> is_zombie C
      \<and> fd_table C = fd_table par \<and> signals C = signals par \<and> tasks C = [Some t]
      \<and> get_proc self k' = Some (par\<lparr>children := children par @ [length (procs k)]\<rparr>)
      \<and> (\<forall>q. q \<noteq> self \<and> q \<noteq> length (procs k) \<longrightarrow> get_proc q k' = get_proc q k)
      \<and> ready (kd k') = ready (kd k) @ [t] \<and> task_status (kd k') t = Ready \<and> current_task (kd k') = current_task (kd k)
      \<and> tcb_process T = length (procs k) \<and> tcb_kstack T \<notin> ra_live (KSTACK_ALLOCATOR (kst k)) \<and> kspace_inv l (kst k')
      \<and> forked_memory l (memory_set par) (kmem_of k) (memory_set C) (kmem_of k') (tcb_trap_cx_ppn T) (tcb_kstack T)"
    using r(1,4-7)
    by (rule_tac exI [where x = k'], rule_tac exI [where x = "child_pcb self (fst (ra_alloc (PID_ALLOCATOR (kst k)))) ms (length (tcbs k)) par"],
        rule_tac exI [where x = "length (tcbs k)"], rule_tac exI [where x = "child_tcb M (length (procs k)) j base f"],
        simp add: child_pcb_def child_tcb_def add_task_def tm_add_def current_task_def)
next
  assume "get_proc self k = Some par" "length (tasks par) \<noteq> 1"
  then show "Process_fork M self k = None" by (simp add: Process_fork_def thread_count_def)
qed

text \<open>A kernel that has just booted, with one process that has only the trap context page mapped.\<close>

lemma sample_spaces:
  "\<exists>kms ms m. kspace_inv 0x80500 \<lparr>k_mem = m, KERNEL_SPACE = kms, PID_ALLOCATOR = RecycleAllocator_new, KSTACK_ALLOCATOR = RecycleAllocator_new\<rparr>
    \<and> ms_inv 0x80500 ms m \<and> (\<forall>a\<in>set (ms_areas ms). map_type a = Framed) \<and> ms_pages ms = [TRAP_VPN]
    \<and> set (ms_frames ms) \<inter> set (pt_frames (ms_page_table kms)) = {} \<and> 100 \<le> free_frames m"
proof -
  let ?l = "0x80500 :: usize" and ?k = "boot_kmem 0x80500000"
  let ?syms = "\<lparr>stext = 0, etext = 0, srodata = 0, erodata = 0, sdata = 0, edata = 0, sbss_with_stack = 0,
    ebss = 0, ekernel = 0, strampoline = 0\<rparr>"
  have al: "VA_page_offset (PhysAddr_from (strampoline ?syms)) = 0" by (simp add: VA_page_offset_def PhysAddr_from_def)
  have "3 \<le> free_frames ?k" by (simp add: boot_sample)
  from new_space_ok [OF boot_sample(1) this al] obtain kms k1 where
    n: "fresh_space ?l ?k kms k1" "ms_areas kms = []" "free_frames ?k \<le> free_frames k1 + 3" by blast
  have ki: "kmem_inv ?l k1" "ms_inv ?l kms k1" "set (ms_frames kms) \<subseteq> live_frames ?l k1"
    using n(1) by (auto simp: fresh_space_def ms_inv_def)
  have "3 \<le> free_frames k1" using n(3) by (simp add: boot_sample)
  from new_space_ok [OF ki(1) this al] obtain ums k2 where
    u: "fresh_space ?l k1 ums k2" "ms_areas ums = []" "free_frames k1 \<le> free_frames k2 + 3" by blast
  define a where "a = \<lparr>vpn_range = \<lparr>range_l = TRAP_VPN, range_r = TRAP_VPN + 1\<rparr>, data_frames = [], map_type = Framed, map_perm = MP_R OR MP_W\<rparr>"
  have vs: "area_pages a = [TRAP_VPN]" by (simp add: area_pages_def a_def range_items_eq TRAP_VPN_def)
  have "fresh_area ums a"
    by (simp add: fresh_area_def vs) (simp add: a_def range_ok_def ms_pages_def u(2) TRAMPOLINE_VPN_eq TRAP_VPN_def)
  moreover have ui: "ms_inv ?l ums k2" using u(1) by (simp add: fresh_space_def)
  moreover have "3 * length (area_pages a) \<le> free_frames k2" using n(3) u(3) by (simp add: vs boot_sample)
  ultimately obtain a' pt' m where p: "ms_inv ?l (ums\<lparr>ms_page_table := pt', ms_areas := ms_areas ums @ [a']\<rparr>) m"
    "mapped_pages ?l (a, ms_page_table ums, k2) (area_pages a) (a', pt', m)" using ms_push_framed by blast
  let ?ms = "ums\<lparr>ms_page_table := pt', ms_areas := ms_areas ums @ [a']\<rparr>"
  let ?s = "\<lambda>m. \<lparr>k_mem = m, KERNEL_SPACE = kms, PID_ALLOCATOR = RecycleAllocator_new, KSTACK_ALLOCATOR = RecycleAllocator_new\<rparr>"
  from p(2) obtain fs where fs: "a' = a\<lparr>data_frames := zip [TRAP_VPN] fs\<rparr>" "length fs = 1" "free_frames k2 \<le> free_frames m + 3"
      "set fs \<inter> live_frames ?l k2 = {}" "set (pt_frames pt') \<inter> live_frames ?l k2 \<subseteq> set (pt_frames (ms_page_table ums))"
    by (auto simp: mapped_pages_def vs)
  have "area_frames a' = fs" using fs(1,2) by (simp add: area_frames_def)
  then have q: "vpn_range a' = vpn_range a" "map_type a' = map_type a" "free_frames k2 \<le> free_frames m + 3"
      "set (area_frames a') \<inter> live_frames ?l k2 = {}" "set (pt_frames pt') \<inter> live_frames ?l k2 \<subseteq> set (pt_frames (ms_page_table ums))"
    using fs by simp_all
  have sep: "set (ms_frames ums) \<inter> set (ms_frames kms) = {}" "set (ms_frames kms) \<subseteq> live_frames ?l k2"
    using u(1) ki(3) by (auto simp: fresh_space_def)
  have "kspace_inv ?l (?s k1)"
    using ki(2) n(2) by (simp add: kspace_inv_def ra_inv_def ra_live_def RecycleAllocator_new_def ms_pages_def)
  then have ks2: "kspace_inv ?l (?s k2)" using kspace_grow [of ?l "?s k1"] u(1) by simp
  have "set (ms_frames kms) \<inter> set (pt_frames (ms_page_table ums)) = {}" using sep(1) by (auto simp: ms_frames_def)
  moreover have "ms_inv ?l kms k2" using ks2 by (simp add: kspace_inv_def)
  ultimately have "ms_inv ?l kms m" using space_kept(1) p(2) by blast
  then have "kspace_inv ?l (?s m)" using ks2 by (simp add: kspace_inv_def)
  moreover have "set (pt_frames (ms_page_table kms)) \<subseteq> live_frames ?l k2" "set (pt_frames (ms_page_table kms)) \<inter> set (pt_frames (ms_page_table ums)) = {}"
    using sep by (auto simp: ms_frames_def)
  then have "set (ms_frames ?ms) \<inter> set (pt_frames (ms_page_table kms)) = {}" using q(4,5) u(2) by (auto simp: ms_frames_def)
  moreover have "ms_pages ?ms = [TRAP_VPN]" "\<forall>a\<in>set (ms_areas ?ms). map_type a = Framed" "100 \<le> free_frames m"
    using q(1-3) u(2,3) n(3) vs by (simp_all add: ms_pages_def area_pages_def boot_sample a_def)
  ultimately show ?thesis using p(1) by blast
qed

theorem fork_spec_witness:
  "\<exists>(M :: bytes machine) par k k' C t T. can_fork 0x80500 M 0 par k \<and> Process_fork M 0 k = Some (1, k')
     \<and> get_proc 1 k' = Some C \<and> fd_table C = [Some 0, None, Some 1] \<and> get_tcb t k' = Some T
     \<and> forked_memory 0x80500 (memory_set par) (kmem_of k) (memory_set C) (kmem_of k') (tcb_trap_cx_ppn T) (tcb_kstack T)
     \<and> Process_fork M 0 sample_kernel = None"
proof -
  obtain kms ms m where s: "kspace_inv 0x80500 \<lparr>k_mem = m, KERNEL_SPACE = kms, PID_ALLOCATOR = RecycleAllocator_new, KSTACK_ALLOCATOR = RecycleAllocator_new\<rparr>"
      "ms_inv 0x80500 ms m" "\<forall>a\<in>set (ms_areas ms). map_type a = Framed" "ms_pages ms = [TRAP_VPN]"
      "set (ms_frames ms) \<inter> set (pt_frames (ms_page_table kms)) = {}" "100 \<le> free_frames m"
    using sample_spaces by blast
  define par where "par = sample_pcb\<lparr>memory_set := ms, tasks := [Some 0]\<rparr>"
  define k where "k = sample_kernel\<lparr>kst := \<lparr>k_mem = m, KERNEL_SPACE = kms, PID_ALLOCATOR = RecycleAllocator_new, KSTACK_ALLOCATOR = RecycleAllocator_new\<rparr>,
    procs := [Some par]\<rparr>"
  define M :: "bytes machine" where "M = \<lparr>m_bdev = BlockFile, m_efs = fresh_fs 1100 1, m_root = root_inode (fresh_fs 1100 1),
    m_syms = \<lparr>stext = 0, etext = 0, srodata = 0, erodata = 0, sdata = 0, edata = 0, sbss_with_stack = 0, ebss = 0, ekernel = 0, strampoline = 0\<rparr>,
    m_elf = (\<lambda>_. None), m_trap_return = 0, m_trap_handler = 0, m_sstatus = 0\<rparr>"
  have "VA_page_offset (PhysAddr_from (strampoline (m_syms M))) = 0" by (simp add: M_def VA_page_offset_def PhysAddr_from_def)
  then have cf: "can_fork 0x80500 M 0 par k"
    using s by (simp add: can_fork_def k_def par_def get_proc_def index_at_def get_tcb_def sample_kernel_def sample_tcb_def RecycleAllocator_new_def)
  have "length (procs k) = 1" "fd_table par = [Some 0, None, Some 1]" by (simp_all add: k_def par_def sample_pcb_def)
  moreover have "Process_fork M 0 sample_kernel = None"
    by (rule fork_spec [THEN conjunct2, THEN mp, THEN mp, OF sample_current(2)]) (simp add: sample_pcb_def)
  ultimately show ?thesis using fork_spec [THEN conjunct1, THEN mp, OF cf] cf by metis
qed

end
