(* ===== verification/Threads.thy ===== *)
theory Threads
  imports Fork
begin

text \<open>
  The life of a thread (\<open>os/src/syscall/thread.rs\<close>, \<open>os/src/task/id.rs\<close>): \<open>sys_thread_create\<close> gives it a tid, a user
  stack and a trap context in the memory of its process and a kernel stack in the kernel's, \<open>exit_current_and_run_next\<close>
  gives back the tid and the user memory, and \<open>sys_waittid\<close> the exit code and the kernel stack.
\<close>

section \<open>The areas of a thread\<close>

definition ustack_range :: "usize \<Rightarrow> usize \<Rightarrow> VPNRange" where
  "ustack_range base i = \<lparr>range_l = of_nat (unat base div 4096 + 3 * unat i), range_r = of_nat (unat base div 4096 + 3 * unat i + 2)\<rparr>"

definition trap_range :: "usize \<Rightarrow> VPNRange" where
  "trap_range i = \<lparr>range_l = of_nat (2 ^ 27 - 2 - unat i), range_r = of_nat (2 ^ 27 - 1 - unat i)\<rparr>"

text \<open>There is room for \<open>n\<close> threads: page-aligned user stacks in the lower half, trap contexts in the upper half.\<close>

definition tids_fit :: "usize \<Rightarrow> nat \<Rightarrow> bool" where
  "tids_fit base n \<longleftrightarrow> unat base mod 4096 = 0 \<and> unat base + 12288 * n \<le> 2 ^ 38 \<and> n \<le> 2 ^ 24"

lemma unat_of_page: "x \<le> 2 ^ 27 \<Longrightarrow> unat (of_nat x :: usize) = x"
  by (rule unat_of_nat_usize) simp

lemma range_unat:
  assumes "tids_fit base n" "unat i < n"
  shows "unat (range_l (ustack_range base i)) = unat base div 4096 + 3 * unat i"
    "unat (range_r (ustack_range base i)) = unat base div 4096 + 3 * unat i + 2" "unat base div 4096 + 3 * unat i + 3 \<le> 2 ^ 26"
    "unat (range_l (trap_range i)) = 2 ^ 27 - 2 - unat i" "unat (range_r (trap_range i)) = 2 ^ 27 - 1 - unat i"
    "2 ^ 26 < 2 ^ 27 - 2 - unat i"
proof -
  have le: "unat base + 12288 * Suc (unat i) \<le> 2 ^ 38" and i: "unat i < 2 ^ 24" using assms by (simp_all add: tids_fit_def)
  from le show p: "unat base div 4096 + 3 * unat i + 3 \<le> 2 ^ 26" by simp
  then have p': "unat base div 4096 + 3 * unat i \<le> 2 ^ 27" "unat base div 4096 + 3 * unat i + 2 \<le> 2 ^ 27" by simp_all
  show "unat (range_l (ustack_range base i)) = unat base div 4096 + 3 * unat i"
    "unat (range_r (ustack_range base i)) = unat base div 4096 + 3 * unat i + 2"
    by (simp_all only: ustack_range_def SimpleRange.simps unat_of_page [OF p'(1)] unat_of_page [OF p'(2)])
  have q: "2 ^ 27 - 2 - unat i \<le> 2 ^ 27" "2 ^ 27 - 1 - unat i \<le> 2 ^ 27" by simp_all
  show "unat (range_l (trap_range i)) = 2 ^ 27 - 2 - unat i" "unat (range_r (trap_range i)) = 2 ^ 27 - 1 - unat i"
    by (simp_all only: trap_range_def SimpleRange.simps unat_of_page [OF q(1)] unat_of_page [OF q(2)])
  show "2 ^ 26 < 2 ^ 27 - 2 - unat i" using i by simp
qed

lemma thread_va:
  assumes fit: "tids_fit base n" and i: "unat i < n"
  shows "VA_floor (VirtAddr_from (ustack_bottom_from_tid base i)) = range_l (ustack_range base i)"
    "VA_page_offset (VirtAddr_from (ustack_bottom_from_tid base i)) = 0"
    "VA_ceil (VirtAddr_from (ustack_bottom_from_tid base i + USER_STACK_SIZE)) = range_r (ustack_range base i)"
    "VA_floor (VirtAddr_from (trap_cx_bottom_from_tid i)) = range_l (trap_range i)"
    "VA_page_offset (VirtAddr_from (trap_cx_bottom_from_tid i)) = 0"
    "VA_ceil (VirtAddr_from (trap_cx_bottom_from_tid i + PAGE_SIZE)) = range_r (trap_range i)"
proof -
  note R = range_unat [OF fit i]
  have le: "unat base + 12288 * Suc (unat i) \<le> 2 ^ 38" and i24: "unat i < 2 ^ 24" using fit i by (simp_all add: tids_fit_def)
  obtain q where q: "unat base = 4096 * q" using fit by (auto simp: tids_fit_def mod_eq_0_iff_dvd elim: dvdE)
  note U = ustack_unat [OF le]
  have b: "unat (VirtAddr_from (ustack_bottom_from_tid base i)) = 4096 * (q + 3 * unat i)"
    using U(1) le by (simp add: unat_VirtAddr_from q)
  show "VA_floor (VirtAddr_from (ustack_bottom_from_tid base i)) = range_l (ustack_range base i)"
    by (simp only: word_unat_eq_iff unat_VA_floor b R(1)) (simp add: q)
  show "VA_page_offset (VirtAddr_from (ustack_bottom_from_tid base i)) = 0"
    by (simp only: word_unat_eq_iff unat_VA_page_offset b) simp
  have t: "unat (VirtAddr_from (ustack_bottom_from_tid base i + USER_STACK_SIZE)) = 4096 * (q + 3 * unat i + 2)"
    using U(2) le by (simp add: unat_VirtAddr_from q)
  have "unat (VA_ceil (VirtAddr_from (ustack_bottom_from_tid base i + USER_STACK_SIZE))) = (4096 * (q + 3 * unat i + 2) + 4095) div 4096"
    unfolding t [symmetric] by (rule unat_VA_ceil) (use t le q in simp)
  also have "\<dots> = q + 3 * unat i + 2" by simp
  finally show "VA_ceil (VirtAddr_from (ustack_bottom_from_tid base i + USER_STACK_SIZE)) = range_r (ustack_range base i)"
    by (simp only: word_unat_eq_iff R(2)) (simp add: q)
  define d where "d = unat i"
  have d: "d < 2 ^ 24" using i24 by (simp add: d_def)
  have T: "unat (trap_cx_bottom_from_tid i) = 2 ^ 64 - (8192 + 4096 * d)" using trap_cx_unat [OF i24] by (simp add: d_def)
  have c: "unat (VirtAddr_from (trap_cx_bottom_from_tid i)) = 4096 * (2 ^ 27 - 2 - d)"
    using T d mod_2_39 [of "8192 + 4096 * d"] by (simp add: unat_VirtAddr_from)
  show "VA_floor (VirtAddr_from (trap_cx_bottom_from_tid i)) = range_l (trap_range i)"
    by (simp only: word_unat_eq_iff unat_VA_floor c R(4)) (simp add: d_def)
  show "VA_page_offset (VirtAddr_from (trap_cx_bottom_from_tid i)) = 0"
    by (simp only: word_unat_eq_iff unat_VA_page_offset c) simp
  have "unat (trap_cx_bottom_from_tid i + PAGE_SIZE) = 2 ^ 64 - (4096 + 4096 * d)"
    using T d by (subst unat_add_usize) (simp_all add: PAGE_SIZE_def)
  then have e: "unat (VirtAddr_from (trap_cx_bottom_from_tid i + PAGE_SIZE)) = 4096 * (2 ^ 27 - 1 - d)"
    using d mod_2_39 [of "4096 + 4096 * d"] by (simp add: unat_VirtAddr_from)
  have "unat (VA_ceil (VirtAddr_from (trap_cx_bottom_from_tid i + PAGE_SIZE))) = (4096 * (2 ^ 27 - 1 - d) + 4095) div 4096"
    unfolding e [symmetric] by (rule unat_VA_ceil) (use e in simp)
  also have "\<dots> = 2 ^ 27 - 1 - d" by simp
  finally show "VA_ceil (VirtAddr_from (trap_cx_bottom_from_tid i + PAGE_SIZE)) = range_r (trap_range i)"
    by (simp only: word_unat_eq_iff R(5)) (simp add: d_def)
qed

text \<open>The two areas of a thread, and their pages.\<close>

definition tid_ranges :: "usize \<Rightarrow> usize \<Rightarrow> VPNRange list" where
  "tid_ranges base i = [ustack_range base i, trap_range i]"

definition ranges_pages :: "VPNRange list \<Rightarrow> VirtPageNum list" where
  "ranges_pages rs = concat (map range_items rs)"

abbreviation ms_ranges :: "MemorySet \<Rightarrow> VPNRange list" where
  "ms_ranges ms \<equiv> map vpn_range (ms_areas ms)"

lemma ms_pages_ranges: "ms_pages ms = ranges_pages (ms_ranges ms)"
  by (simp add: ms_pages_def ranges_pages_def area_pages_def [abs_def] comp_def)

lemma ranges_pages_mono: "set rs \<subseteq> set rs' \<Longrightarrow> set (ranges_pages rs) \<subseteq> set (ranges_pages rs')"
  by (auto simp: ranges_pages_def)

lemma tid_range_ok:
  assumes fit: "tids_fit base n" and i: "unat i < n" and r: "r \<in> set (tid_ranges base i)"
  shows "range_ok r" "TRAMPOLINE_VPN \<notin> set (range_items r)" "range_items r \<noteq> []" "length (range_items r) \<le> 2"
    "v \<in> set (range_items r) \<longleftrightarrow> unat (range_l r) \<le> unat v \<and> unat v < unat (range_r r)"
    "unat (range_l r) < unat (range_r r)"
proof -
  note R = range_unat [OF fit i]
  have lr: "unat (range_l r) < unat (range_r r)" "unat (range_r r) < 2 ^ 27" "unat (range_r r) \<le> unat (range_l r) + 2"
    using r R by (auto simp: tid_ranges_def)
  then show ok: "range_ok r" "unat (range_l r) < unat (range_r r)" by (simp_all add: range_ok_def word_le_nat_alt)
  then have ler: "range_l r \<le> range_r r" by (simp add: range_ok_def)
  show iff: "v \<in> set (range_items r) \<longleftrightarrow> unat (range_l r) \<le> unat v \<and> unat v < unat (range_r r)" for v
    using ler by (simp add: set_range_items word_le_nat_alt word_less_nat_alt)
  have "range_l r \<in> set (range_items r)" using iff lr(1) by simp
  then show "range_items r \<noteq> []" by auto
  have "length (range_items r) = unat (range_r r) - unat (range_l r)"
    using map_unat_range_items [OF ler] by (metis length_map length_upt)
  then show "length (range_items r) \<le> 2" using lr(3) by simp
  have "unat TRAMPOLINE_VPN = 2 ^ 27 - 1" by (simp add: TRAMPOLINE_VPN_eq)
  then show "TRAMPOLINE_VPN \<notin> set (range_items r)" using iff [of TRAMPOLINE_VPN] r R by (auto simp: tid_ranges_def)
qed

lemma tid_ranges_apart:
  assumes fit: "tids_fit base n" and i: "unat i < n" "unat j < n" "i \<noteq> j" and r: "r \<in> set (tid_ranges base i)" "q \<in> set (tid_ranges base j)"
  shows "set (range_items r) \<inter> set (range_items q) = {}" "range_l r \<noteq> range_l q"
proof -
  note R = range_unat [OF fit i(1)] range_unat [OF fit i(2)]
  have "unat i \<noteq> unat j" using i(3) by (simp add: word_unat_eq_iff)
  then have "unat (range_r r) \<le> unat (range_l q) \<or> unat (range_r q) \<le> unat (range_l r)"
    using r R by (auto simp: tid_ranges_def) linarith
  then show "set (range_items r) \<inter> set (range_items q) = {}" "range_l r \<noteq> range_l q"
    using tid_range_ok(5) [OF fit i(1) r(1)] tid_range_ok(5) [OF fit i(2) r(2)] tid_range_ok(6) [OF fit i(1) r(1)] tid_range_ok(6) [OF fit i(2) r(2)]
    by auto
qed

lemma own_ranges_apart:
  assumes "tids_fit base n" "unat i < n"
  shows "set (range_items (ustack_range base i)) \<inter> set (range_items (trap_range i)) = {}" "range_l (ustack_range base i) \<noteq> range_l (trap_range i)"
proof -
  note R = range_unat [OF assms]
  show "range_l (ustack_range base i) \<noteq> range_l (trap_range i)" using R by (auto simp: word_unat_eq_iff)
  show "set (range_items (ustack_range base i)) \<inter> set (range_items (trap_range i)) = {}"
    using tid_range_ok(5) [OF assms, of "ustack_range base i"] tid_range_ok(5) [OF assms, of "trap_range i"] R by (auto simp: tid_ranges_def)
qed

section \<open>The memory of a process next to the kernel's\<close>

definition space_ok :: "PhysPageNum \<Rightarrow> kstate \<Rightarrow> MemorySet \<Rightarrow> bool" where
  "space_ok l s ms \<longleftrightarrow> kspace_inv l s \<and> ms_inv l ms (k_mem s) \<and> (\<forall>a\<in>set (ms_areas ms). map_type a = Framed)
     \<and> set (ms_frames ms) \<inter> set (ms_frames (KERNEL_SPACE s)) = {}"

lemma space_okD:
  assumes "space_ok l s ms"
  shows "kspace_inv l s" "ms_inv l ms (k_mem s)" "ms_inv l (KERNEL_SPACE s) (k_mem s)" "set (ms_frames ms) \<inter> set (ms_frames (KERNEL_SPACE s)) = {}"
    "\<forall>a\<in>set (ms_areas ms). map_type a = Framed" "kmem_inv l (k_mem s)"
    "set (ms_frames ms) \<subseteq> live_frames l (k_mem s)" "set (ms_frames (KERNEL_SPACE s)) \<subseteq> live_frames l (k_mem s)"
    "set (pt_frames (ms_page_table ms)) \<subseteq> set (ms_frames ms)"
    "set (pt_frames (ms_page_table (KERNEL_SPACE s))) \<subseteq> set (ms_frames (KERNEL_SPACE s))"
  using assms unfolding space_ok_def kspace_inv_def ms_inv_def ms_frames_def by auto

lemma kspace_set_mem: "kspace_inv l s \<Longrightarrow> ms_inv l (KERNEL_SPACE s) m \<Longrightarrow> kspace_inv l (s\<lparr>k_mem := m\<rparr>)"
  by (simp add: kspace_inv_def)

lemma space_push:
  assumes ok: "space_ok l s ms" and ma: "MapArea_new sv ev Framed perm = Some a" and r: "range_ok r" "vpn_range a = r"
    and fresh: "set (range_items r) \<inter> insert TRAMPOLINE_VPN (set (ms_pages ms)) = {}" and free: "3 * length (range_items r) \<le> free_frames (k_mem s)"
  shows "\<exists>ms' m'. insert_framed_area sv ev perm (ms, k_mem s) = Some (ms', m') \<and> space_ok l (s\<lparr>k_mem := m'\<rparr>) ms'
    \<and> ms_ranges ms' = ms_ranges ms @ [r] \<and> free_frames (k_mem s) \<le> free_frames m' + 3 * length (range_items r)
    \<and> (\<forall>v\<in>set (range_items r). \<exists>e. mapping m' (ms_root ms') v = Some e \<and> PTE_ppn e \<in> set (ms_frames ms')
        \<and> PTE_ppn e \<notin> set (pt_frames (ms_page_table ms')))"
proof -
  note D = space_okD [OF ok]
  have a: "map_type a = Framed" "data_frames a = []" "area_pages a = range_items r"
    using ma r(2) by (auto simp: MapArea_new_def area_pages_def split: bind_splits)
  then have "fresh_area ms a" using r fresh by (simp add: fresh_area_def)
  then obtain a' pt' m' where p: "ms_push a None (ms, k_mem s) = Some (ms\<lparr>ms_page_table := pt', ms_areas := ms_areas ms @ [a']\<rparr>, m')"
      "ms_inv l (ms\<lparr>ms_page_table := pt', ms_areas := ms_areas ms @ [a']\<rparr>) m'"
      "mapped_pages l (a, ms_page_table ms, k_mem s) (range_items r) (a', pt', m')"
    using ms_push_framed [OF D(2)] free a(3) by metis
  define ms' where "ms' = ms\<lparr>ms_page_table := pt', ms_areas := ms_areas ms @ [a']\<rparr>"
  from p(3) obtain fs where fs: "a' = a\<lparr>data_frames := zip (range_items r) fs\<rparr>" "length fs = length (range_items r)"
      "root_ppn pt' = root_ppn (ms_page_table ms)" "set fs \<inter> (live_frames l (k_mem s) \<union> set (pt_frames pt')) = {}"
      "set (pt_frames pt') \<inter> live_frames l (k_mem s) \<subseteq> set (pt_frames (ms_page_table ms))"
      "live_frames l m' = live_frames l (k_mem s) \<union> set fs \<union> set (pt_frames pt')"
      "\<And>w. unat w < 2 ^ 27 \<Longrightarrow> mapping m' (ms_root ms) w = (case map_of (zip (range_items r) fs) w of
          None \<Rightarrow> mapping (k_mem s) (ms_root ms) w | Some f \<Rightarrow> Some (area_pte a f))"
      "free_frames (k_mem s) \<le> free_frames m' + 3 * length (range_items r)" "kmem_inv l m'"
    unfolding mapped_pages_def by auto
  have fr: "set (ms_frames ms') \<subseteq> set (ms_frames ms) \<union> set fs \<union> set (pt_frames pt')" "set fs \<subseteq> set (ms_frames ms')"
    using fs(1,2) by (auto simp: ms'_def ms_frames_def area_frames_def dest: set_zip_rightD)
  have "ms_inv l (KERNEL_SPACE s) m'" by (rule space_kept(1) [OF D(3) _ p(3)]) (use D(4,9) in blast)
  then have "kspace_inv l (s\<lparr>k_mem := m'\<rparr>)" by (rule kspace_set_mem [OF D(1)])
  moreover have "set (ms_frames ms') \<inter> set (ms_frames (KERNEL_SPACE s)) = {}" using fr(1) fs(4,5) D(4,8,9) by blast
  ultimately have "space_ok l (s\<lparr>k_mem := m'\<rparr>) ms'"
    using p(2) D(5) a(1) fs(1) by (auto simp: space_ok_def ms'_def)
  moreover have "\<exists>e. mapping m' (ms_root ms') v = Some e \<and> PTE_ppn e \<in> set (ms_frames ms') \<and> PTE_ppn e \<notin> set (pt_frames (ms_page_table ms'))"
    if v: "v \<in> set (range_items r)" for v
  proof -
    obtain f where f: "map_of (zip (range_items r) fs) v = Some f" using v fs(2) by (metis map_of_zip_is_Some)
    then have ff: "f \<in> set fs" by (blast dest: map_of_SomeD set_zip_rightD)
    then have "unat f < 2 ^ 44" using live_frame_bounds(2) [OF fs(9)] fs(6) by blast
    then have "PTE_ppn (area_pte a f) = f" by (simp add: area_pte_def)
    moreover have "mapping m' (ms_root ms') v = Some (area_pte a f)"
      using fs(7) [OF range_items_page(1) [OF r(1) v]] f fs(3) by (simp add: ms'_def)
    ultimately show ?thesis using ff fr(2) fs(4) by (auto simp: ms'_def)
  qed
  moreover have "ms_ranges ms' = ms_ranges ms @ [r]" using fs(1) r(2) by (simp add: ms'_def)
  moreover have "insert_framed_area sv ev perm (ms, k_mem s) = Some (ms', m')" using p(1) ma by (simp add: insert_framed_area_def ms'_def)
  ultimately show ?thesis using fs(8) by blast
qed

lemma space_remove:
  assumes ok: "space_ok l s ms" and r: "r \<in> set (ms_ranges ms)" and only: "\<forall>q\<in>set (ms_ranges ms). range_l q = range_l r \<longrightarrow> q = r"
  shows "\<exists>ms' m' as bs. remove_area_with_start_vpn (range_l r) (ms, k_mem s) = Some (ms', m') \<and> space_ok l (s\<lparr>k_mem := m'\<rparr>) ms'
    \<and> free_frames (k_mem s) \<le> free_frames m' \<and> ms_ranges ms = as @ r # bs \<and> ms_ranges ms' = as @ bs"
proof -
  note D = space_okD [OF ok]
  have "\<exists>a\<in>set (ms_areas ms). get_start (vpn_range a) = range_l r" using r by (auto simp: get_start_def)
  then obtain as a bs where as: "ms_areas ms = as @ a # bs" "get_start (vpn_range a) = range_l r" "\<forall>b\<in>set as. get_start (vpn_range b) \<noteq> range_l r"
    using split_list_first_prop [of "ms_areas ms" "\<lambda>a. get_start (vpn_range a) = range_l r"] by blast
  have a: "map_type a = Framed" "vpn_range a = r" using D(5) only as(1,2) by (auto simp: get_start_def)
  from remove_area_ok [OF D(2) as(1) a(1) as(2,3)] obtain m' where
    R: "remove_area_with_start_vpn (range_l r) (ms, k_mem s) = Some (ms\<lparr>ms_areas := as @ bs\<rparr>, m')" "ms_inv l (ms\<lparr>ms_areas := as @ bs\<rparr>) m'"
      "live_frames l m' = live_frames l (k_mem s) - set (area_frames a)" "free_frames (k_mem s) \<le> free_frames m'"
      "\<forall>p. p \<notin> set (pt_frames (ms_page_table ms)) \<longrightarrow> pages m' p = pages (k_mem s) p" by blast
  have "set (area_frames a) \<subseteq> set (ms_frames ms)" by (auto simp: ms_frames_def as(1))
  then have fr: "set (ms_frames (KERNEL_SPACE s)) \<subseteq> live_frames l m'" using R(3) D(4,8) by blast
  have "kmem_inv l m'" using R(2) by (simp add: ms_inv_def)
  then have "ms_inv l (KERNEL_SPACE s) m'"
    by (rule ms_inv_pages_cong(1) [OF D(3) _ fr]) (use R(5) D(4,9,10) in blast)
  then have "kspace_inv l (s\<lparr>k_mem := m'\<rparr>)" by (rule kspace_set_mem [OF D(1)])
  moreover have "set (ms_frames (ms\<lparr>ms_areas := as @ bs\<rparr>)) \<subseteq> set (ms_frames ms)" by (auto simp: ms_frames_def as(1))
  ultimately have "space_ok l (s\<lparr>k_mem := m'\<rparr>) (ms\<lparr>ms_areas := as @ bs\<rparr>)"
    using R(2) D(4,5) as(1) by (auto simp: space_ok_def)
  then show ?thesis using R(1,4) as(1) a(2) by fastforce
qed

lemma space_kstack_alloc:
  assumes ok: "space_ok l s ms" and free: "6 \<le> free_frames (k_mem s)"
    and room: "ra_recycled (KSTACK_ALLOCATOR s) \<noteq> [] \<or> unat (ra_current (KSTACK_ALLOCATOR s)) < 2 ^ 24"
  shows "\<exists>j s'. kstack_alloc s = Some (j, s') \<and> space_ok l s' ms \<and> j \<notin> ra_live (KSTACK_ALLOCATOR s)
    \<and> ra_live (KSTACK_ALLOCATOR s') = insert j (ra_live (KSTACK_ALLOCATOR s)) \<and> free_frames (k_mem s) \<le> free_frames (k_mem s') + 6
    \<and> unat (ra_current (KSTACK_ALLOCATOR s')) \<le> unat (ra_current (KSTACK_ALLOCATOR s)) + 1"
proof -
  note D = space_okD [OF ok]
  obtain j s' pt' a' where al: "kstack_alloc s = Some (j, s')" "j \<notin> ra_live (KSTACK_ALLOCATOR s)"
      "ra_live (KSTACK_ALLOCATOR s') = insert j (ra_live (KSTACK_ALLOCATOR s))" "kspace_inv l s'"
      "ms_areas (KERNEL_SPACE s') = ms_areas (KERNEL_SPACE s) @ [a']" "unat j < 2 ^ 24"
      "mapped_pages l (kstack_area j, ms_page_table (KERNEL_SPACE s), k_mem s) (range_items (kstack_range j)) (a', pt', k_mem s')"
      "ms_page_table (KERNEL_SPACE s') = pt'"
    using kstack_alloc_ok [OF D(1) free room] by blast
  have "ms_inv l ms (k_mem s')" by (rule space_kept(1) [OF D(2) _ al(7)]) (use D(4,10) in blast)
  moreover from al(7) obtain fs where f0: "a' = (kstack_area j)\<lparr>data_frames := zip (range_items (kstack_range j)) fs\<rparr>" "length fs = length (range_items (kstack_range j))"
      and fs: "set fs \<inter> live_frames l (k_mem s) = {}"
      "set (pt_frames pt') \<inter> live_frames l (k_mem s) \<subseteq> set (pt_frames (ms_page_table (KERNEL_SPACE s)))"
      "free_frames (k_mem s) \<le> free_frames (k_mem s') + 3 * length (range_items (kstack_range j))"
    unfolding mapped_pages_def by auto
  moreover have af: "area_frames a' = fs" using f0 by (simp add: area_frames_def)
  moreover have "set (ms_frames (KERNEL_SPACE s')) \<subseteq> set (ms_frames (KERNEL_SPACE s)) \<union> set fs \<union> set (pt_frames pt')"
    using af by (auto simp: ms_frames_def al(5,8))
  then have "set (ms_frames ms) \<inter> set (ms_frames (KERNEL_SPACE s')) = {}" using fs(1,2) D(4,7,10) by blast
  ultimately have "space_ok l s' ms" using al(4) D(5) by (simp add: space_ok_def)
  moreover have "unat (ra_current (KSTACK_ALLOCATOR s')) \<le> unat (ra_current (KSTACK_ALLOCATOR s)) + 1"
  proof -
    have "KSTACK_ALLOCATOR s' = snd (ra_alloc (KSTACK_ALLOCATOR s))"
      using al(1) by (auto simp: kstack_alloc_def split: prod.splits bind_splits)
    moreover have "unat (x + 1) \<le> unat x + 1" for x :: usize using unat_plus_if' [of x 1] by (simp split: if_splits)
    ultimately show ?thesis by (simp add: ra_alloc_def Let_def split: list.splits)
  qed
  ultimately show ?thesis using al(1-3) fs(3) length_kstack_pages [OF al(6)] by auto
qed

lemma space_kstack_drop:
  assumes ok: "space_ok l s ms" and j: "j \<in> ra_live (KSTACK_ALLOCATOR s)"
  shows "\<exists>s'. KernelStack_drop j s = Some s' \<and> space_ok l s' ms \<and> ra_live (KSTACK_ALLOCATOR s') = ra_live (KSTACK_ALLOCATOR s) - {j}
    \<and> free_frames (k_mem s) \<le> free_frames (k_mem s')"
proof -
  note D = space_okD [OF ok]
  obtain s' a where d: "KernelStack_drop j s = Some s'" "kspace_inv l s'" "ra_live (KSTACK_ALLOCATOR s') = ra_live (KSTACK_ALLOCATOR s) - {j}"
      "a \<in> set (ms_areas (KERNEL_SPACE s))" "live_frames l (k_mem s') = live_frames l (k_mem s) - set (area_frames a)"
      "free_frames (k_mem s) \<le> free_frames (k_mem s')"
      "\<And>p. p \<notin> set (pt_frames (ms_page_table (KERNEL_SPACE s))) \<Longrightarrow> pages (k_mem s') p = pages (k_mem s) p"
      "set (ms_frames (KERNEL_SPACE s')) \<subseteq> set (ms_frames (KERNEL_SPACE s))"
    using KernelStack_drop_ok [OF D(1) j] by blast
  have "set (area_frames a) \<subseteq> set (ms_frames (KERNEL_SPACE s))" using d(4) by (auto simp: ms_frames_def)
  then have fr: "set (ms_frames ms) \<subseteq> live_frames l (k_mem s')" using d(5) D(4,7) by blast
  have "kmem_inv l (k_mem s')" using d(2) by (simp add: kspace_inv_def ms_inv_def)
  then have "ms_inv l ms (k_mem s')" by (rule ms_inv_pages_cong(1) [OF D(2) _ fr]) (use d(7) D(4,9,10) in blast)
  then show ?thesis using d D(4,5) by (auto simp: space_ok_def)
qed

lemma space_put_cx:
  assumes ok: "space_ok l s ms" and p: "p \<in> set (ms_frames ms)" "p \<notin> set (pt_frames (ms_page_table ms))" and x: "length (tx_x cx) = 32"
  shows "space_ok l (s\<lparr>k_mem := put_trap_cx p cx (k_mem s)\<rparr>) ms"
proof -
  note D = space_okD [OF ok]
  have "p \<notin> set (pt_frames (ms_page_table (KERNEL_SPACE s)))" using p(1) D(4,10) by blast
  then have "kspace_inv l (s\<lparr>k_mem := put_trap_cx p cx (k_mem s)\<rparr>)" by (intro kspace_set_mem [OF D(1)] space_put(1) [OF D(3)] x)
  then show ?thesis using space_put(1) [OF D(2) p(2) x] D(4,5) by (simp add: space_ok_def)
qed

section \<open>Tids and their areas\<close>

text \<open>
  The tids in use have their areas, those not in use have no page in any area, and no other area starts where one of theirs does.
\<close>

definition tids_inv :: "usize \<Rightarrow> nat \<Rightarrow> RecycleAllocator \<Rightarrow> VPNRange list \<Rightarrow> bool" where
  "tids_inv base n A rs \<longleftrightarrow> tids_fit base n \<and> ra_inv A \<and> unat (ra_current A) \<le> n
     \<and> (\<forall>i r. unat i < n \<longrightarrow> r \<in> set (tid_ranges base i) \<longrightarrow>
          (if i \<in> ra_live A then r \<in> set rs else set (range_items r) \<inter> set (ranges_pages rs) = {})
          \<and> (\<forall>q\<in>set rs. range_l q = range_l r \<longrightarrow> q = r))"

lemma tids_invD:
  assumes "tids_inv base n A rs" "unat i < n" "r \<in> set (tid_ranges base i)"
  shows "i \<in> ra_live A \<Longrightarrow> r \<in> set rs" "i \<notin> ra_live A \<Longrightarrow> set (range_items r) \<inter> set (ranges_pages rs) = {}"
    "\<forall>q\<in>set rs. range_l q = range_l r \<longrightarrow> q = r" "tids_fit base n"
  using assms unfolding tids_inv_def by (metis (full_types))+

lemma tids_inv_add:
  assumes inv: "tids_inv base n A rs" and i: "unat i < n" and A': "ra_inv A'" "unat (ra_current A') \<le> n" "ra_live A' = insert i (ra_live A)"
  shows "tids_inv base n A' (rs @ tid_ranges base i)"
  unfolding tids_inv_def
proof (intro conjI allI impI)
  show fit: "tids_fit base n" using inv by (simp add: tids_inv_def)
  show "ra_inv A'" "unat (ra_current A') \<le> n" by (rule A')+
  fix j r assume j: "unat j < n" "r \<in> set (tid_ranges base j)"
  note J = tids_invD [OF inv j]
  have ap: "set (range_items r) \<inter> set (ranges_pages (tid_ranges base i)) = {} \<and> (\<forall>q\<in>set (tid_ranges base i). range_l q \<noteq> range_l r)" if "j \<noteq> i"
    using tid_ranges_apart [OF fit j(1) i that j(2)] by (force simp: ranges_pages_def)
  then show "if j \<in> ra_live A' then r \<in> set (rs @ tid_ranges base i) else set (range_items r) \<inter> set (ranges_pages (rs @ tid_ranges base i)) = {}"
    using J(1,2) j(2) A'(3) by (auto simp: ranges_pages_def)
  show "\<forall>q\<in>set (rs @ tid_ranges base i). range_l q = range_l r \<longrightarrow> q = r"
  proof (cases "j = i")
    case True
    then show ?thesis using J(3) j(2) own_ranges_apart(2) [OF fit i] by (auto simp: tid_ranges_def)
  qed (use J(3) ap in auto)
qed

lemma tids_inv_remove:
  assumes inv: "tids_inv base n A rs" and i: "unat i < n" and A': "ra_inv A'" "ra_current A' = ra_current A" "ra_live A' = ra_live A - {i}"
    and rs: "set rs' = set rs - set (tid_ranges base i)" and gone: "\<forall>r\<in>set (tid_ranges base i). set (range_items r) \<inter> set (ranges_pages rs') = {}"
  shows "tids_inv base n A' rs'"
  unfolding tids_inv_def
proof (intro conjI allI impI)
  show fit: "tids_fit base n" and "ra_inv A'" "unat (ra_current A') \<le> n" using inv A'(1,2) by (simp_all add: tids_inv_def)
  fix j r assume j: "unat j < n" "r \<in> set (tid_ranges base j)"
  note J = tids_invD [OF inv j]
  have "r \<notin> set (tid_ranges base i)" if "j \<noteq> i" using tid_ranges_apart(2) [OF fit j(1) i that j(2)] by blast
  moreover have "set (ranges_pages rs') \<subseteq> set (ranges_pages rs)" using rs by (auto simp: ranges_pages_def)
  ultimately show "if j \<in> ra_live A' then r \<in> set rs' else set (range_items r) \<inter> set (ranges_pages rs') = {}"
    using J(1,2) A'(3) rs gone j(2) by (cases "j = i") auto
  show "\<forall>q\<in>set rs'. range_l q = range_l r \<longrightarrow> q = r" using J(3) rs by auto
qed

text \<open>The resources of a new thread: a tid, its two areas, and a page for its trap context.\<close>

lemma vpn_from_va: "VA_page_offset v = 0 \<Longrightarrow> VirtPageNum_from_VirtAddr v = Some (VA_floor v)"
  by (simp add: VirtPageNum_from_VirtAddr_def)

lemma MapArea_new_range:
  "VA_floor sv = range_l r \<Longrightarrow> VA_ceil ev = range_r r \<Longrightarrow> range_ok r \<Longrightarrow>
   \<exists>a. MapArea_new sv ev Framed perm = Some a \<and> vpn_range a = r"
  by (cases r) (auto simp: MapArea_new_def SimpleRange_new_def range_ok_def)

lemma alloc_user_res_ok:
  assumes ok: "space_ok l s ms" and fit: "tids_fit base n" and i: "unat i < n" and free: "9 \<le> free_frames (k_mem s)"
    and fresh: "\<forall>r\<in>set (tid_ranges base i). set (range_items r) \<inter> set (ms_pages ms) = {}"
  shows "\<exists>ms' m' ppn. alloc_user_res \<lparr>res_tid = i, res_ustack_base = base\<rparr> (ms, k_mem s) = Some (ms', m') \<and> space_ok l (s\<lparr>k_mem := m'\<rparr>) ms'
    \<and> ms_ranges ms' = ms_ranges ms @ tid_ranges base i \<and> free_frames (k_mem s) \<le> free_frames m' + 9
    \<and> trap_cx_ppn \<lparr>res_tid = i, res_ustack_base = base\<rparr> (ms', m') = Some ppn
    \<and> ppn \<in> set (ms_frames ms') \<and> ppn \<notin> set (pt_frames (ms_page_table ms'))"
proof -
  let ?u = "ustack_range base i" and ?t = "trap_range i"
  note V = thread_va [OF fit i]
  have mem: "?u \<in> set (tid_ranges base i)" "?t \<in> set (tid_ranges base i)" by (simp_all add: tid_ranges_def)
  note U = tid_range_ok [OF fit i mem(1)] and T = tid_range_ok [OF fit i mem(2)]
  obtain a where a: "MapArea_new (VirtAddr_from (ustack_bottom_from_tid base i)) (VirtAddr_from (ustack_bottom_from_tid base i + USER_STACK_SIZE)) Framed
      ((MP_R OR MP_U) OR MP_W) = Some a" "vpn_range a = ?u"
    using MapArea_new_range [OF V(1,3) U(1)] by blast
  have "set (range_items ?u) \<inter> insert TRAMPOLINE_VPN (set (ms_pages ms)) = {}" using fresh mem(1) U(2) by blast
  moreover have "3 * length (range_items ?u) \<le> free_frames (k_mem s)" using U(4) free by simp
  ultimately obtain ms1 m1 where p1: "insert_framed_area (VirtAddr_from (ustack_bottom_from_tid base i))
        (VirtAddr_from (ustack_bottom_from_tid base i + USER_STACK_SIZE)) ((MP_R OR MP_U) OR MP_W) (ms, k_mem s) = Some (ms1, m1)"
      "space_ok l (s\<lparr>k_mem := m1\<rparr>) ms1" "ms_ranges ms1 = ms_ranges ms @ [?u]" "free_frames (k_mem s) \<le> free_frames m1 + 3 * length (range_items ?u)"
    using space_push [OF ok a(1) U(1) a(2)] by blast
  obtain b where b: "MapArea_new (VirtAddr_from (trap_cx_bottom_from_tid i)) (VirtAddr_from (trap_cx_bottom_from_tid i + PAGE_SIZE)) Framed (MP_R OR MP_W) = Some b"
      "vpn_range b = ?t"
    using MapArea_new_range [OF V(4,6) T(1)] by blast
  have one: "length (range_items ?t) = 1"
  proof -
    have "length (range_items ?t) = unat (range_r ?t) - unat (range_l ?t)"
      using map_unat_range_items [of ?t] T(1) by (metis length_map length_upt range_ok_def)
    then show ?thesis using range_unat(4-6) [OF fit i] by simp
  qed
  have "set (range_items ?t) \<inter> insert TRAMPOLINE_VPN (set (ms_pages ms1)) = {}"
    using fresh mem(2) T(2) own_ranges_apart(1) [OF fit i] by (auto simp: ms_pages_ranges p1(3) ranges_pages_def)
  moreover have "3 * length (range_items ?t) \<le> free_frames m1" using p1(4) U(4) one free by simp
  ultimately obtain ms2 m2 where p2: "insert_framed_area (VirtAddr_from (trap_cx_bottom_from_tid i)) (VirtAddr_from (trap_cx_bottom_from_tid i + PAGE_SIZE))
        (MP_R OR MP_W) (ms1, m1) = Some (ms2, m2)"
      "space_ok l (s\<lparr>k_mem := m2\<rparr>) ms2" "ms_ranges ms2 = ms_ranges ms1 @ [?t]" "free_frames m1 \<le> free_frames m2 + 3 * length (range_items ?t)"
      "\<And>v. v \<in> set (range_items ?t) \<Longrightarrow> \<exists>e. mapping m2 (ms_root ms2) v = Some e \<and> PTE_ppn e \<in> set (ms_frames ms2) \<and> PTE_ppn e \<notin> set (pt_frames (ms_page_table ms2))"
    using space_push [OF p1(2) b(1) T(1) b(2)] by auto
  have "range_l ?t \<in> set (range_items ?t)" using T(5,6) by simp
  from p2(5) [OF this] obtain e where e: "mapping m2 (ms_root ms2) (range_l ?t) = Some e" "PTE_ppn e \<in> set (ms_frames ms2)"
      "PTE_ppn e \<notin> set (pt_frames (ms_page_table ms2))" by blast
  have "trap_cx_ppn \<lparr>res_tid = i, res_ustack_base = base\<rparr> (ms2, m2) = Some (PTE_ppn e)"
    using e(1) V(4,5) by (simp add: trap_cx_ppn_def vpn_from_va unwrap_translate_def ms_translate_def pt_translate_mapped)
  moreover have "alloc_user_res \<lparr>res_tid = i, res_ustack_base = base\<rparr> (ms, k_mem s) = Some (ms2, m2)"
    using p1(1) p2(1) by (simp add: alloc_user_res_def)
  moreover have "free_frames (k_mem s) \<le> free_frames m2 + 9" using p1(4) p2(4) U(4) one by simp
  ultimately show ?thesis using p2(2,3) p1(3) e(2,3) by (auto simp: tid_ranges_def)
qed

lemma remove_one:
  assumes d: "distinct (ranges_pages (as @ r # bs))" and ne: "range_items r \<noteq> []"
  shows "set (as @ bs) = set (as @ r # bs) - {r}" "set (range_items r) \<inter> set (ranges_pages (as @ bs)) = {}"
proof -
  show dis: "set (range_items r) \<inter> set (ranges_pages (as @ bs)) = {}" using d by (auto simp: ranges_pages_def)
  have "r \<notin> set (as @ bs)"
  proof
    assume "r \<in> set (as @ bs)"
    then have "set (range_items r) \<subseteq> set (ranges_pages (as @ bs))" by (auto simp: ranges_pages_def)
    then show False using dis ne by (metis Int_absorb2 set_empty)
  qed
  then show "set (as @ bs) = set (as @ r # bs) - {r}" by auto
qed

lemma dealloc_user_res_ok:
  assumes ok: "space_ok l s ms" and inv: "tids_inv base n A (ms_ranges ms)" and i: "i \<in> ra_live A" "unat i < n"
  shows "\<exists>ms' m'. dealloc_user_res \<lparr>res_tid = i, res_ustack_base = base\<rparr> (ms, k_mem s) = Some (ms', m') \<and> space_ok l (s\<lparr>k_mem := m'\<rparr>) ms'
    \<and> free_frames (k_mem s) \<le> free_frames m' \<and> set (ms_ranges ms') = set (ms_ranges ms) - set (tid_ranges base i)
    \<and> (\<forall>r\<in>set (tid_ranges base i). set (range_items r) \<inter> set (ranges_pages (ms_ranges ms')) = {})"
proof -
  let ?u = "ustack_range base i" and ?t = "trap_range i"
  have mem: "?u \<in> set (tid_ranges base i)" "?t \<in> set (tid_ranges base i)" by (simp_all add: tid_ranges_def)
  note iu = tids_invD [OF inv i(2) mem(1)] and it = tids_invD [OF inv i(2) mem(2)]
  note V = thread_va [OF iu(4) i(2)] and ne = tid_range_ok(3) [OF iu(4) i(2)] and apart = own_ranges_apart(2) [OF iu(4) i(2)]
  obtain ms1 m1 as bs where p1: "remove_area_with_start_vpn (range_l ?u) (ms, k_mem s) = Some (ms1, m1)" "space_ok l (s\<lparr>k_mem := m1\<rparr>) ms1"
      "free_frames (k_mem s) \<le> free_frames m1" "ms_ranges ms = as @ ?u # bs" "ms_ranges ms1 = as @ bs"
    using space_remove [OF ok iu(1) [OF i(1)] iu(3)] by blast
  have "distinct (ranges_pages (ms_ranges ms))" using space_okD(2) [OF ok] by (simp add: ms_inv_def ms_pages_ranges)
  then have s1: "set (ms_ranges ms1) = set (ms_ranges ms) - {?u}" "set (range_items ?u) \<inter> set (ranges_pages (ms_ranges ms1)) = {}"
    using remove_one [of as ?u bs] ne [OF mem(1)] unfolding p1(4,5) by blast+
  have ut: "?u \<noteq> ?t" using apart by metis
  have t1: "?t \<in> set (ms_ranges ms1)" using it(1) [OF i(1)] ut unfolding s1(1) by (metis DiffI singletonD)
  have "\<forall>q\<in>set (ms_ranges ms1). range_l q = range_l ?t \<longrightarrow> q = ?t" using it(3) unfolding s1(1) by blast
  from space_remove [OF p1(2) t1 this] obtain ms2 m2 cs ds where p2: "remove_area_with_start_vpn (range_l ?t) (ms1, m1) = Some (ms2, m2)" "space_ok l (s\<lparr>k_mem := m2\<rparr>) ms2"
      "free_frames m1 \<le> free_frames m2" "ms_ranges ms1 = cs @ ?t # ds" "ms_ranges ms2 = cs @ ds"
    by auto
  have "distinct (ranges_pages (ms_ranges ms1))" using space_okD(2) [OF p1(2)] by (simp add: ms_inv_def ms_pages_ranges)
  then have s2: "set (ms_ranges ms2) = set (ms_ranges ms1) - {?t}" "set (range_items ?t) \<inter> set (ranges_pages (ms_ranges ms2)) = {}"
    using remove_one [of cs ?t ds] ne [OF mem(2)] unfolding p2(4,5) by blast+
  have sub: "set (ranges_pages (ms_ranges ms2)) \<subseteq> set (ranges_pages (ms_ranges ms1))" by (rule ranges_pages_mono) (use s2(1) in blast)
  have "dealloc_user_res \<lparr>res_tid = i, res_ustack_base = base\<rparr> (ms, k_mem s) = Some (ms2, m2)"
    using p1(1) p2(1) V by (simp add: dealloc_user_res_def vpn_from_va)
  moreover have "set (ms_ranges ms2) = set (ms_ranges ms) - set (tid_ranges base i)" using s1(1) s2(1) by (auto simp: tid_ranges_def)
  moreover have "\<forall>r\<in>set (tid_ranges base i). set (range_items r) \<inter> set (ranges_pages (ms_ranges ms2)) = {}"
    using s1(2) s2(2) sub by (auto simp: tid_ranges_def)
  ultimately show ?thesis using p2(2) p1(3) p2(3) by (meson le_trans)
qed

section \<open>Creating a thread\<close>

text \<open>A process whose memory and tids are in order.\<close>

definition threads_ok :: "PhysPageNum \<Rightarrow> usize \<Rightarrow> nat \<Rightarrow> nat \<Rightarrow> ProcessControlBlock \<Rightarrow> 'd kernel \<Rightarrow> bool" where
  "threads_ok l base n p P k \<longleftrightarrow> get_proc p k = Some P \<and> space_ok l (kst k) (memory_set P)
     \<and> tids_inv base n (task_res_allocator P) (ms_ranges (memory_set P))"

text \<open>A task, and the current one, is a thread of the process with user stacks from \<open>base\<close> on.\<close>

definition thread_of :: "task \<Rightarrow> usize \<Rightarrow> usize \<Rightarrow> nat \<Rightarrow> 'd kernel \<Rightarrow> bool" where
  "thread_of t i base p k \<longleftrightarrow> (\<exists>T. get_tcb t k = Some T \<and> tcb_process T = p \<and> tcb_res T = Some \<lparr>res_tid = i, res_ustack_base = base\<rparr>)"

definition caller :: "task \<Rightarrow> usize \<Rightarrow> usize \<Rightarrow> nat \<Rightarrow> 'd kernel \<Rightarrow> bool" where
  "caller cur c base p k \<longleftrightarrow> current_task (kd k) = Some cur \<and> thread_of cur c base p k"

definition new_tcb :: "'d machine \<Rightarrow> nat \<Rightarrow> usize \<Rightarrow> usize \<Rightarrow> KernelStack \<Rightarrow> PhysPageNum \<Rightarrow> TaskControlBlock" where
  "new_tcb M p base i j ppn = \<lparr>tcb_process = p, tcb_kstack = j, tcb_res = Some \<lparr>res_tid = i, res_ustack_base = base\<rparr>, tcb_trap_cx_ppn = ppn,
     tcb_task_cx = goto_trap_return (m_trap_return M) (KernelStack_get_top j), tcb_exit_code = None\<rparr>"

text \<open>The state when the new thread has been stored and the old owner of the slot is not yet dropped.\<close>

definition stored :: "'d machine \<Rightarrow> nat \<Rightarrow> ProcessControlBlock \<Rightarrow> usize \<Rightarrow> usize \<Rightarrow> RecycleAllocator \<Rightarrow> MemorySet \<Rightarrow> KernelStack \<Rightarrow> kstate \<Rightarrow> PhysPageNum \<Rightarrow> 'd kernel \<Rightarrow> 'd kernel" where
  "stored M p P base i A ms j s ppn k =
     k\<lparr>kst := s, tcbs := tcbs k @ [Some (new_tcb M p base i j ppn)],
       kd := add_task (length (tcbs k)) ((kd k)\<lparr>task_status := (task_status (kd k))(length (tcbs k) := Ready)\<rparr>),
       procs := (procs k)[p := Some (P\<lparr>task_res_allocator := A, memory_set := ms, tasks := put_thread (unat i) (length (tcbs k)) (tasks P)\<rparr>)]\<rparr>"

definition start_cx :: "'d machine \<Rightarrow> usize \<Rightarrow> usize \<Rightarrow> usize \<Rightarrow> usize \<Rightarrow> KernelStack \<Rightarrow> 'd kernel \<Rightarrow> TrapContext" where
  "start_cx M ent arg base i j k =
     (let cx = app_init_context (m_sstatus M) ent (ustack_bottom_from_tid base i + USER_STACK_SIZE) (kernel_token k) (KernelStack_get_top j) (m_trap_handler M)
      in cx\<lparr>tx_x := (tx_x cx)[10 := arg]\<rparr>)"

lemma length_start_cx: "length (tx_x (start_cx M ent arg base i j k)) = 32"
  by (simp add: start_cx_def app_init_context_def set_sp_def Let_def)

lemma sys_thread_create_eq:
  assumes cal: "caller cur c base p k" and P: "get_proc p k = Some P" and al: "ra_alloc (task_res_allocator P) = (i, A)"
    and ur: "alloc_user_res \<lparr>res_tid = i, res_ustack_base = base\<rparr> (memory_set P, kmem_of k) = Some (ms, m)"
    and ppn: "trap_cx_ppn \<lparr>res_tid = i, res_ustack_base = base\<rparr> (ms, m) = Some ppn" and ks: "kstack_alloc ((kst k)\<lparr>k_mem := m\<rparr>) = Some (j, s)"
  shows "sys_thread_create M ent arg k = do {
      k1 \<leftarrow> (case (if unat i < length (tasks P) then tasks P ! unat i else None) of
          None \<Rightarrow> Some (stored M p P base i A ms j s ppn k) | Some u \<Rightarrow> release_task u (stored M p P base i A ms j s ppn k));
      Some (Ret i (set_kmem (put_trap_cx ppn (start_cx M ent arg base i j k1) (kmem_of k1)) k1)) }"
proof -
  obtain T where T: "current_task (kd k) = Some cur" "get_tcb cur k = Some T" "tcb_process T = p" "tcb_res T = Some \<lparr>res_tid = c, res_ustack_base = base\<rparr>"
    using cal by (auto simp: caller_def thread_of_def)
  have p: "p < length (procs k)" "procs k ! p = Some P" using P by (auto simp: get_proc_def index_at_def split: if_splits)
  have t: "cur < length (tcbs k)" "tcbs k ! cur = Some T" using T(2) by (auto simp: get_tcb_def index_at_def split: if_splits)
  show ?thesis
    using T(1,3,4) t p al ur ppn ks
    by (simp add: sys_thread_create_def current_process_def TaskControlBlock_new_def TaskUserRes_new_def set_kmem_def set_proc_def
        get_proc_def get_tcb_def index_at_def stored_def new_tcb_def start_cx_def ustack_top_def Let_def split: option.split)
qed

abbreviation kstack_live :: "'d kernel \<Rightarrow> usize set" where
  "kstack_live k \<equiv> ra_live (KSTACK_ALLOCATOR (kst k))"

lemma stored_simps [simp]:
  "kst (stored M p P base i A ms j s ppn k) = s"
  "get_tcb (length (tcbs k)) (stored M p P base i A ms j s ppn k) = Some (new_tcb M p base i j ppn)"
  "t < length (tcbs k) \<Longrightarrow> get_tcb t (stored M p P base i A ms j s ppn k) = get_tcb t k"
  "ready (kd (stored M p P base i A ms j s ppn k)) = ready (kd k) @ [length (tcbs k)]"
  "current_task (kd (stored M p P base i A ms j s ppn k)) = current_task (kd k)"
  "TIMERS (stored M p P base i A ms j s ppn k) = TIMERS k"
  "length (tcbs (stored M p P base i A ms j s ppn k)) = Suc (length (tcbs k))"
  by (simp_all add: stored_def get_tcb_def index_at_def nth_append add_task_def tm_add_def current_task_def)

lemma get_proc_stored:
  "get_proc p k = Some P0 \<Longrightarrow> get_proc p (stored M p P base i A ms j s ppn k)
     = Some (P\<lparr>task_res_allocator := A, memory_set := ms, tasks := put_thread (unat i) (length (tcbs k)) (tasks P)\<rparr>)"
  by (auto simp: stored_def get_proc_def index_at_def split: if_splits)

lemma ra_alloc_current: "unat (ra_current (snd (ra_alloc A))) \<le> unat (ra_current A) + 1"
proof -
  have "unat (x + 1) \<le> unat x + 1" for x :: usize using unat_plus_if' [of x 1] by (simp split: if_splits)
  then show ?thesis by (simp add: ra_alloc_def Let_def split: list.splits)
qed

lemma thread_create_ok:
  assumes ok: "threads_ok l base n p P k" and cal: "caller cur c base p k" and free: "15 \<le> free_frames (kmem_of k)"
    and room: "ra_recycled (task_res_allocator P) \<noteq> [] \<or> unat (ra_current (task_res_allocator P)) < n"
    and kroom: "ra_recycled (KSTACK_ALLOCATOR (kst k)) \<noteq> [] \<or> unat (ra_current (KSTACK_ALLOCATOR (kst k))) < 2 ^ 24"
  shows "\<exists>i A ms j s ppn. i = fst (ra_alloc (task_res_allocator P)) \<and> i \<notin> ra_live (task_res_allocator P) \<and> unat i < n
    \<and> sys_thread_create M ent arg k = do {
      k1 \<leftarrow> (case (if unat i < length (tasks P) then tasks P ! unat i else None) of
          None \<Rightarrow> Some (stored M p P base i A ms j s ppn k) | Some u \<Rightarrow> release_task u (stored M p P base i A ms j s ppn k));
      Some (Ret i (set_kmem (put_trap_cx ppn (start_cx M ent arg base i j k1) (kmem_of k1)) k1)) }
    \<and> threads_ok l base n p (P\<lparr>task_res_allocator := A, memory_set := ms, tasks := put_thread (unat i) (length (tcbs k)) (tasks P)\<rparr>)
        (stored M p P base i A ms j s ppn k)
    \<and> ra_live A = insert i (ra_live (task_res_allocator P)) \<and> ppn \<in> set (ms_frames ms) \<and> ppn \<notin> set (pt_frames (ms_page_table ms))
    \<and> j \<notin> kstack_live k \<and> ra_live (KSTACK_ALLOCATOR s) = insert j (kstack_live k)
    \<and> unat (ra_current (KSTACK_ALLOCATOR s)) \<le> unat (ra_current (KSTACK_ALLOCATOR (kst k))) + 1 \<and> free_frames (kmem_of k) \<le> free_frames (k_mem s) + 15"
proof -
  let ?A = "task_res_allocator P"
  have P: "get_proc p k = Some P" and sp: "space_ok l (kst k) (memory_set P)" and inv: "tids_inv base n ?A (ms_ranges (memory_set P))"
    using ok by (simp_all add: threads_ok_def)
  have fit: "tids_fit base n" "ra_inv ?A" "unat (ra_current ?A) \<le> n" using inv by (simp_all add: tids_inv_def)
  obtain i A where al: "ra_alloc ?A = (i, A)" by fastforce
  have n24: "n \<le> 2 ^ 24" using fit(1) by (simp add: tids_fit_def)
  have "ra_room ?A" using room n24 by (auto simp: ra_room_def unsigned_minus_1_eq_mask mask_eq_exp_minus_1)
  then have f: "ra_inv A" "i \<notin> ra_live ?A" "ra_live A = insert i (ra_live ?A)" using ra.alloc_fresh [OF fit(2), of i A] al by simp_all
  have cur: "unat (ra_current A) \<le> n"
  proof (cases "ra_recycled ?A = []")
    case True
    then show ?thesis using room ra_alloc_current [of ?A] al by simp
  qed (use al fit(3) in \<open>auto simp: ra_alloc_def\<close>)
  have i: "unat i < n" by (rule ra_live_bound [OF _ cur]) (simp add: f(3))
  have "\<forall>r\<in>set (tid_ranges base i). set (range_items r) \<inter> set (ms_pages (memory_set P)) = {}"
    using tids_invD(2) [OF inv i _ f(2)] by (simp add: ms_pages_ranges)
  moreover have "9 \<le> free_frames (kmem_of k)" using free by simp
  ultimately obtain ms m ppn where u: "alloc_user_res \<lparr>res_tid = i, res_ustack_base = base\<rparr> (memory_set P, kmem_of k) = Some (ms, m)"
      "space_ok l ((kst k)\<lparr>k_mem := m\<rparr>) ms" "ms_ranges ms = ms_ranges (memory_set P) @ tid_ranges base i" "free_frames (kmem_of k) \<le> free_frames m + 9"
      "trap_cx_ppn \<lparr>res_tid = i, res_ustack_base = base\<rparr> (ms, m) = Some ppn" "ppn \<in> set (ms_frames ms)" "ppn \<notin> set (pt_frames (ms_page_table ms))"
    using alloc_user_res_ok [OF sp fit(1) i] by blast
  have "6 \<le> free_frames (k_mem ((kst k)\<lparr>k_mem := m\<rparr>))" using u(4) free by simp
  from space_kstack_alloc [OF u(2) this] kroom obtain j s where ks: "kstack_alloc ((kst k)\<lparr>k_mem := m\<rparr>) = Some (j, s)" "space_ok l s ms"
      "j \<notin> kstack_live k" "ra_live (KSTACK_ALLOCATOR s) = insert j (kstack_live k)" "free_frames m \<le> free_frames (k_mem s) + 6"
      "unat (ra_current (KSTACK_ALLOCATOR s)) \<le> unat (ra_current (KSTACK_ALLOCATOR (kst k))) + 1"
    by auto
  have "threads_ok l base n p (P\<lparr>task_res_allocator := A, memory_set := ms, tasks := put_thread (unat i) (length (tcbs k)) (tasks P)\<rparr>)
      (stored M p P base i A ms j s ppn k)"
    using ks(2) tids_inv_add [OF inv i f(1) cur f(3)] by (simp add: threads_ok_def get_proc_stored [OF P] u(3))
  moreover note sys_thread_create_eq [OF cal P al u(1,5) ks(1), of M ent arg]
  ultimately show ?thesis using al f(2,3) i u(6,7) ks(3,4,6) u(4) ks(5)
    by (intro exI [of _ i] exI [of _ A] exI [of _ ms] exI [of _ j] exI [of _ s] exI [of _ ppn]) simp
qed

section \<open>Dropping a thread\<close>

lemma thread_put:
  assumes "threads_ok l base n p P k" "ppn \<in> set (ms_frames (memory_set P))" "ppn \<notin> set (pt_frames (ms_page_table (memory_set P)))" "length (tx_x cx) = 32"
  shows "threads_ok l base n p P (set_kmem (put_trap_cx ppn cx (kmem_of k)) k)"
  using assms space_put_cx [OF _ assms(2-4)] by (auto simp: threads_ok_def set_kmem_def get_proc_def)

lemma threads_ok_cong: "threads_ok l base n p P k \<Longrightarrow> get_proc p k' = Some P' \<Longrightarrow> kst k' = kst k \<Longrightarrow> memory_set P' = memory_set P \<Longrightarrow>
    task_res_allocator P' = task_res_allocator P \<Longrightarrow> threads_ok l base n p P' k'"
  by (simp add: threads_ok_def)

lemma thread_release_ok:
  assumes ok: "threads_ok l base n p P k" and u: "get_tcb u k = Some U" "tcb_res U = None" "tcb_kstack U \<in> kstack_live k" "\<not> task_owned u k"
  shows "\<exists>s. release_task u k = Some (k\<lparr>kst := s, tcbs := (tcbs k)[u := None]\<rparr>) \<and> threads_ok l base n p P (k\<lparr>kst := s, tcbs := (tcbs k)[u := None]\<rparr>)
    \<and> ra_live (KSTACK_ALLOCATOR s) = kstack_live k - {tcb_kstack U}"
proof -
  have sp: "space_ok l (kst k) (memory_set P)" using ok by (simp add: threads_ok_def)
  obtain s where s: "KernelStack_drop (tcb_kstack U) (kst k) = Some s" "space_ok l s (memory_set P)"
      "ra_live (KSTACK_ALLOCATOR s) = kstack_live k - {tcb_kstack U}"
    using space_kstack_drop [OF sp u(3)] by blast
  have "release_task u k = Some (k\<lparr>kst := s, tcbs := (tcbs k)[u := None]\<rparr>)" using u s(1) by (simp add: release_task_def Let_def)
  moreover have "threads_ok l base n p P (k\<lparr>kst := s, tcbs := (tcbs k)[u := None]\<rparr>)" using ok s(2) by (simp add: threads_ok_def get_proc_def)
  ultimately show ?thesis using s(3) by blast
qed

lemma exit_ok:
  assumes ok: "threads_ok l base n p P k" and t: "current_task (kd k) = Some t" "get_tcb t k = Some T" "tcb_process T = p"
    and res: "tcb_res T = Some \<lparr>res_tid = i, res_ustack_base = base\<rparr>" "i \<in> ra_live (task_res_allocator P)" "i \<noteq> 0"
  shows "\<exists>k' A ms. exit_current_and_run_next code k = Some (Gone k') \<and> threads_ok l base n p (P\<lparr>task_res_allocator := A, memory_set := ms\<rparr>) k'
    \<and> fst (ra_alloc A) = i \<and> ra_recycled A \<noteq> [] \<and> ra_live A = ra_live (task_res_allocator P) - {i} \<and> free_frames (kmem_of k) \<le> free_frames (kmem_of k')
    \<and> KSTACK_ALLOCATOR (kst k') = KSTACK_ALLOCATOR (kst k) \<and> TIMERS k' = TIMERS k
    \<and> tcbs k' = (tcbs k)[t := Some (T\<lparr>tcb_exit_code := Some code, tcb_res := None\<rparr>)]
    \<and> procs k' = (procs k)[p := Some (P\<lparr>task_res_allocator := A, memory_set := ms\<rparr>)]"
proof -
  let ?A = "task_res_allocator P"
  have P: "get_proc p k = Some P" and sp: "space_ok l (kst k) (memory_set P)" and inv: "tids_inv base n ?A (ms_ranges (memory_set P))"
    using ok by (simp_all add: threads_ok_def)
  have A: "ra_inv ?A" "unat (ra_current ?A) \<le> n" using inv by (simp_all add: tids_inv_def)
  have i: "unat i < n" by (rule ra_live_bound [OF res(2) A(2)])
  from ra.dealloc_live [OF A(1) res(2)] obtain A' where d: "ra_dealloc i ?A = Some A'" "ra_inv A'" "ra_live A' = ra_live ?A - {i}" by blast
  have d': "ra_current A' = ra_current ?A" "ra_recycled A' = ra_recycled ?A @ [i]" using d(1) by (auto simp: ra_dealloc_def)
  obtain ms m where u: "dealloc_user_res \<lparr>res_tid = i, res_ustack_base = base\<rparr> (memory_set P, kmem_of k) = Some (ms, m)"
      "space_ok l ((kst k)\<lparr>k_mem := m\<rparr>) ms" "free_frames (kmem_of k) \<le> free_frames m"
      "set (ms_ranges ms) = set (ms_ranges (memory_set P)) - set (tid_ranges base i)"
      "\<forall>r\<in>set (tid_ranges base i). set (range_items r) \<inter> set (ranges_pages (ms_ranges ms)) = {}"
    using dealloc_user_res_ok [OF sp inv res(2) i] by blast
  define k' where "k' = set_kmem m (set_proc p (P\<lparr>task_res_allocator := A', memory_set := ms\<rparr>)
    (set_tcb t (T\<lparr>tcb_exit_code := Some code, tcb_res := None\<rparr>) (k\<lparr>kd := snd (take_current_task (kd k))\<rparr>)))"
  have tc: "take_current_task (kd k) = (Some t, snd (take_current_task (kd k)))" using t(1) take_current_fields(1) [of "kd k"] by (metis prod.collapse)
  have ix: "p < length (procs k)" "procs k ! p = Some P" "t < length (tcbs k)" "tcbs k ! t = Some T"
    using P t(2) by (auto simp: get_proc_def get_tcb_def index_at_def split: if_splits)
  have "exit_current_and_run_next code k = Some (Gone k')"
    unfolding exit_current_and_run_next_def by (subst tc)
      (use ix t(3) res d(1) u(1) in \<open>simp add: drop_res_def TaskUserRes_drop_def get_proc_def get_tcb_def index_at_def set_tcb_def k'_def set_kmem_def set_proc_def\<close>)
  moreover have "threads_ok l base n p (P\<lparr>task_res_allocator := A', memory_set := ms\<rparr>) k'"
    using u(2) tids_inv_remove [OF inv i d(2) d'(1) d(3) u(4,5)] P
    by (auto simp: threads_ok_def k'_def set_kmem_def set_proc_def set_tcb_def get_proc_def index_at_def split: if_splits)
  moreover have "fst (ra_alloc A') = i" "ra_recycled A' \<noteq> []" using d'(2) by (simp_all add: ra_alloc_def)
  ultimately show ?thesis using d(3) u(3)
    by (intro exI [of _ k'] exI [of _ A'] exI [of _ ms]) (simp add: k'_def set_kmem_def set_proc_def set_tcb_def)
qed

section \<open>Slots\<close>

lemma set_some_tasks: "set (some_tasks ts) = {t. Some t \<in> set ts}"
  by (induction ts) (auto simp: some_tasks_def split: option.splits)

lemma unowned_proc:
  assumes "get_proc p k = Some P" "\<not> task_owned t k"
  shows "t \<notin> set (owned_by P)"
proof -
  have "p < length (procs k)" "procs k ! p = Some P" using assms(1) by (auto simp: get_proc_def index_at_def split: if_splits)
  then have "Some P \<in> set (procs k)" using nth_mem by metis
  then show ?thesis using assms(2) by (force simp: task_owned_def list_ex_iff)
qed

text \<open>A task that nobody owned and that only the scheduler and the threads of one process can have come to own.\<close>

lemma not_owned:
  assumes P: "get_proc p k = Some P" and no: "\<not> task_owned t k"
    and k': "TIMERS k' = TIMERS k" "procs k' = (procs k)[p := Some P']"
    and P': "mutex_list P' = mutex_list P" "semaphore_list P' = semaphore_list P" "condvar_list P' = condvar_list P" "Some t \<notin> set (tasks P')"
    and d: "t \<notin> set (ready (kd k'))" "current_task (kd k') \<noteq> Some t"
  shows "\<not> task_owned t k'"
proof -
  from unowned_proc [OF P no] have own: "t \<notin> set (owned_by P')" using P' by (simp add: owned_by_def set_some_tasks)
  have "t \<notin> set (owned_by Q)" if "Some Q \<in> set (procs k')" for Q
  proof -
    have "Q = P' \<or> Some Q \<in> set (procs k)" using that k'(2) set_update_subset_insert [of "procs k" p "Some P'"] by auto
    then show ?thesis using own no by (force simp: task_owned_def list_ex_iff)
  qed
  then show ?thesis using d no k'(1) by (auto simp: task_owned_def list_ex_iff split: option.splits)
qed

text \<open>A thread that runs, and one that has exited, in the slot of its tid.\<close>

definition in_slot :: "nat \<Rightarrow> ProcessControlBlock \<Rightarrow> usize \<Rightarrow> task \<Rightarrow> TaskControlBlock \<Rightarrow> 'd kernel \<Rightarrow> bool" where
  "in_slot p P i t N k \<longleftrightarrow> unat i < length (tasks P) \<and> tasks P ! unat i = Some t \<and> get_tcb t k = Some N \<and> tcb_kstack N \<in> kstack_live k
     \<and> (\<forall>d. t \<notin> set (ready d) \<longrightarrow> current_task d \<noteq> Some t \<longrightarrow> \<not> task_owned t (set_proc p (P\<lparr>tasks := (tasks P)[unat i := None]\<rparr>) (k\<lparr>kd := d\<rparr>)))"

definition running :: "PhysPageNum \<Rightarrow> usize \<Rightarrow> nat \<Rightarrow> nat \<Rightarrow> ProcessControlBlock \<Rightarrow> usize \<Rightarrow> task \<Rightarrow> 'd kernel \<Rightarrow> bool" where
  "running l base n p P i t k \<longleftrightarrow> threads_ok l base n p P k \<and> i \<in> ra_live (task_res_allocator P)
     \<and> (\<exists>N. in_slot p P i t N k \<and> tcb_process N = p \<and> tcb_res N = Some \<lparr>res_tid = i, res_ustack_base = base\<rparr> \<and> tcb_exit_code N = None)"

definition exited :: "PhysPageNum \<Rightarrow> usize \<Rightarrow> nat \<Rightarrow> nat \<Rightarrow> ProcessControlBlock \<Rightarrow> usize \<Rightarrow> task \<Rightarrow> i32 \<Rightarrow> 'd kernel \<Rightarrow> bool" where
  "exited l base n p P i t code k \<longleftrightarrow> threads_ok l base n p P k \<and> i \<notin> ra_live (task_res_allocator P)
     \<and> fst (ra_alloc (task_res_allocator P)) = i \<and> ra_recycled (task_res_allocator P) \<noteq> []
     \<and> (\<exists>N. in_slot p P i t N k \<and> tcb_res N = None \<and> tcb_exit_code N = Some code)"

lemma put_thread_slot:
  "i < length (put_thread i t ts)" "put_thread i t ts ! i = Some t" "Some u \<in> set ((put_thread i t ts)[i := None]) \<Longrightarrow> Some u \<in> set ts"
proof -
  show "i < length (put_thread i t ts)" "put_thread i t ts ! i = Some t" by (simp_all add: put_thread_def)
  assume "Some u \<in> set ((put_thread i t ts)[i := None])"
  then have "Some u \<in> set ((ts @ replicate (i + 1 - length ts) None)[i := None])" by (simp add: put_thread_def)
  then show "Some u \<in> set ts" using set_update_subset_insert [of "ts @ replicate (i + 1 - length ts) None" i None] by auto
qed

lemma set_kmem_simps [simp]:
  "get_tcb t (set_kmem m k) = get_tcb t k" "KSTACK_ALLOCATOR (kst (set_kmem m k)) = KSTACK_ALLOCATOR (kst k)" "kd (set_kmem m k) = kd k"
  "TIMERS (set_kmem m k) = TIMERS k" "procs (set_kmem m k) = procs k" "tcbs (set_kmem m k) = tcbs k" "kmem_of (set_kmem m k) = m"
  by (simp_all add: set_kmem_def get_tcb_def)

lemma free_frames_put [simp]: "free_frames (put_trap_cx ppn cx m) = free_frames m"
  by (simp add: put_trap_cx_def)

lemma tcb_index: "get_tcb t k = Some T \<Longrightarrow> t < length (tcbs k) \<and> tcbs k ! t = Some T"
  by (auto simp: get_tcb_def index_at_def split: if_splits)

lemma create_in_empty_slot:
  assumes ok: "threads_ok l base n p P k" and cal: "caller cur c base p k" and free: "15 \<le> free_frames (kmem_of k)"
    and room: "ra_recycled (task_res_allocator P) \<noteq> [] \<or> unat (ra_current (task_res_allocator P)) < n"
    and kroom: "ra_recycled (KSTACK_ALLOCATOR (kst k)) \<noteq> [] \<or> unat (ra_current (KSTACK_ALLOCATOR (kst k))) < 2 ^ 24"
    and fresh: "\<not> task_owned (length (tcbs k)) k"
    and empty: "\<And>i. i = fst (ra_alloc (task_res_allocator P)) \<Longrightarrow> unat i < length (tasks P) \<Longrightarrow> tasks P ! unat i = None"
  shows "\<exists>i k1 P1 N. i = fst (ra_alloc (task_res_allocator P)) \<and> i \<notin> ra_live (task_res_allocator P) \<and> sys_thread_create M ent arg k = Some (Ret i k1)
    \<and> running l base n p P1 i (length (tcbs k)) k1 \<and> caller cur c base p k1 \<and> ready (kd k1) = ready (kd k) @ [length (tcbs k)]
    \<and> get_tcb (length (tcbs k)) k1 = Some N \<and> tcb_kstack N \<notin> kstack_live k \<and> kstack_live k1 = insert (tcb_kstack N) (kstack_live k)
    \<and> get_trap_cx (tcb_trap_cx_ppn N) (kmem_of k1) = start_cx M ent arg base i (tcb_kstack N) k1
    \<and> ra_live (task_res_allocator P1) = insert i (ra_live (task_res_allocator P)) \<and> tasks P1 = put_thread (unat i) (length (tcbs k)) (tasks P)
    \<and> unat (ra_current (KSTACK_ALLOCATOR (kst k1))) \<le> unat (ra_current (KSTACK_ALLOCATOR (kst k))) + 1 \<and> free_frames (kmem_of k) \<le> free_frames (kmem_of k1) + 15
    \<and> length (tcbs k1) = Suc (length (tcbs k))"
proof -
  let ?t = "length (tcbs k)"
  have P: "get_proc p k = Some P" using ok by (simp add: threads_ok_def)
  obtain i A ms j s ppn where C: "i = fst (ra_alloc (task_res_allocator P))" "i \<notin> ra_live (task_res_allocator P)" "unat i < n"
      "sys_thread_create M ent arg k = do {
        k1 \<leftarrow> (case (if unat i < length (tasks P) then tasks P ! unat i else None) of
            None \<Rightarrow> Some (stored M p P base i A ms j s ppn k) | Some u \<Rightarrow> release_task u (stored M p P base i A ms j s ppn k));
        Some (Ret i (set_kmem (put_trap_cx ppn (start_cx M ent arg base i j k1) (kmem_of k1)) k1)) }"
      "threads_ok l base n p (P\<lparr>task_res_allocator := A, memory_set := ms, tasks := put_thread (unat i) ?t (tasks P)\<rparr>) (stored M p P base i A ms j s ppn k)"
      "ra_live A = insert i (ra_live (task_res_allocator P))" "ppn \<in> set (ms_frames ms)" "ppn \<notin> set (pt_frames (ms_page_table ms))"
      "j \<notin> kstack_live k" "ra_live (KSTACK_ALLOCATOR s) = insert j (kstack_live k)"
      "unat (ra_current (KSTACK_ALLOCATOR s)) \<le> unat (ra_current (KSTACK_ALLOCATOR (kst k))) + 1" "free_frames (kmem_of k) \<le> free_frames (k_mem s) + 15"
    using thread_create_ok [OF ok cal free room kroom, of M ent arg] by blast
  let ?S = "stored M p P base i A ms j s ppn k" and ?P1 = "P\<lparr>task_res_allocator := A, memory_set := ms, tasks := put_thread (unat i) ?t (tasks P)\<rparr>"
  let ?cx = "start_cx M ent arg base i j ?S"
  define k1 where "k1 = set_kmem (put_trap_cx ppn ?cx (kmem_of ?S)) ?S"
  have r: "sys_thread_create M ent arg k = Some (Ret i k1)" using C(4) empty [OF C(1)] by (simp add: k1_def)
  have th: "threads_ok l base n p ?P1 k1" unfolding k1_def by (rule thread_put [OF C(5)]) (use C(7,8) length_start_cx in simp_all)
  obtain T where T: "get_tcb cur k = Some T" "tcb_process T = p" "tcb_res T = Some \<lparr>res_tid = c, res_ustack_base = base\<rparr>" "current_task (kd k) = Some cur"
    using cal by (auto simp: caller_def thread_of_def)
  have cur: "caller cur c base p k1" using T tcb_index [OF T(1)] by (auto simp: caller_def thread_of_def k1_def)
  have no: "\<not> task_owned ?t (set_proc p (?P1\<lparr>tasks := (tasks ?P1)[unat i := None]\<rparr>) (k1\<lparr>kd := d\<rparr>))" if "?t \<notin> set (ready d)" "current_task d \<noteq> Some ?t" for d
  proof (rule not_owned [OF P fresh, where P' = "?P1\<lparr>tasks := (tasks ?P1)[unat i := None]\<rparr>"])
    from unowned_proc [OF P fresh] show "Some ?t \<notin> set (tasks (?P1\<lparr>tasks := (tasks ?P1)[unat i := None]\<rparr>))"
      using put_thread_slot(3) [of ?t "unat i" ?t "tasks P"] by (auto simp: owned_by_def set_some_tasks)
  qed (use that in \<open>simp_all add: k1_def set_proc_def stored_def\<close>)
  have "in_slot p ?P1 i ?t (new_tcb M p base i j ppn) k1"
    using no C(10) put_thread_slot(1,2) by (simp add: in_slot_def k1_def) (simp add: new_tcb_def)
  then have "running l base n p ?P1 i ?t k1" using th C(6) by (auto simp: running_def new_tcb_def)
  moreover have "get_trap_cx ppn (kmem_of k1) = start_cx M ent arg base i j k1"
  proof -
    have "kmem_inv l (kmem_of ?S)" using C(5) space_okD(6) [of l s ms] by (simp add: threads_ok_def)
    then have "get_trap_cx ppn (kmem_of k1) = ?cx" by (simp add: k1_def get_put_trap_cx [OF length_start_cx])
    then show ?thesis by (simp add: start_cx_def k1_def set_kmem_def)
  qed
  ultimately show ?thesis using r C(1,2,6,9-12) cur
    by (intro exI [of _ i] exI [of _ k1] exI [of _ ?P1] exI [of _ "new_tcb M p base i j ppn"]) (simp add: k1_def, simp add: new_tcb_def)
qed

section \<open>Exit and wait\<close>

lemma set_proc_sched: "(set_proc p P k)\<lparr>kd := d\<rparr> = set_proc p P (k\<lparr>kd := d\<rparr>)"
  by (simp add: set_proc_def)

lemma exit_running:
  assumes run: "running l base n p P i t k" and d: "current_task d = Some t" and i: "i \<noteq> 0"
  shows "\<exists>k' P'. exit_current_and_run_next code (k\<lparr>kd := d\<rparr>) = Some (Gone k') \<and> exited l base n p P' i t code k'
    \<and> tasks P' = tasks P \<and> ra_live (task_res_allocator P') = ra_live (task_res_allocator P) - {i} \<and> free_frames (kmem_of k) \<le> free_frames (kmem_of k')
    \<and> KSTACK_ALLOCATOR (kst k') = KSTACK_ALLOCATOR (kst k) \<and> (\<forall>u. u \<noteq> t \<longrightarrow> get_tcb u k' = get_tcb u k) \<and> length (tcbs k') = length (tcbs k)
    \<and> (\<forall>T. get_tcb t k = Some T \<longrightarrow> (\<exists>T'. get_tcb t k' = Some T' \<and> tcb_kstack T' = tcb_kstack T))"
proof -
  obtain N where N: "in_slot p P i t N k" "tcb_process N = p" "tcb_res N = Some \<lparr>res_tid = i, res_ustack_base = base\<rparr>" and th: "threads_ok l base n p P k"
      and live: "i \<in> ra_live (task_res_allocator P)"
    using run by (auto simp: running_def)
  have P: "get_proc p k = Some P" using th by (simp add: threads_ok_def)
  have S: "unat i < length (tasks P)" "tasks P ! unat i = Some t" "get_tcb t k = Some N" "tcb_kstack N \<in> kstack_live k"
      "\<And>d. t \<notin> set (ready d) \<Longrightarrow> current_task d \<noteq> Some t \<Longrightarrow> \<not> task_owned t (set_proc p (P\<lparr>tasks := (tasks P)[unat i := None]\<rparr>) (k\<lparr>kd := d\<rparr>))"
    using N(1) by (auto simp: in_slot_def)
  let ?k = "k\<lparr>kd := d\<rparr>"
  have "threads_ok l base n p P ?k" by (rule threads_ok_cong [OF th]) (use P in \<open>simp_all add: get_proc_def\<close>)
  moreover have "current_task (kd ?k) = Some t" "get_tcb t ?k = Some N" using d S(3) by (simp_all add: get_tcb_def)
  ultimately obtain k' A ms where E: "exit_current_and_run_next code ?k = Some (Gone k')" "threads_ok l base n p (P\<lparr>task_res_allocator := A, memory_set := ms\<rparr>) k'"
      "fst (ra_alloc A) = i" "ra_recycled A \<noteq> []" "ra_live A = ra_live (task_res_allocator P) - {i}" "free_frames (kmem_of k) \<le> free_frames (kmem_of k')"
      "KSTACK_ALLOCATOR (kst k') = KSTACK_ALLOCATOR (kst k)" "TIMERS k' = TIMERS k"
      "tcbs k' = (tcbs k)[t := Some (N\<lparr>tcb_exit_code := Some code, tcb_res := None\<rparr>)]"
      "procs k' = (procs k)[p := Some (P\<lparr>task_res_allocator := A, memory_set := ms\<rparr>)]"
    using exit_ok [of l base n p P ?k t N i code] N(2,3) live i by auto
  let ?P' = "P\<lparr>task_res_allocator := A, memory_set := ms\<rparr>" and ?N = "N\<lparr>tcb_exit_code := Some code, tcb_res := None\<rparr>"
  have t: "get_tcb t k' = Some ?N" using tcb_index [OF S(3)] E(9) by (simp add: get_tcb_def index_at_def)
  have no: "\<not> task_owned t (set_proc p (?P'\<lparr>tasks := (tasks ?P')[unat i := None]\<rparr>) (k'\<lparr>kd := e\<rparr>))" if e: "t \<notin> set (ready e)" "current_task e \<noteq> Some t" for e
  proof (rule not_owned [OF _ S(5) [OF e], where P' = "?P'\<lparr>tasks := (tasks ?P')[unat i := None]\<rparr>"])
    show "get_proc p (set_proc p (P\<lparr>tasks := (tasks P)[unat i := None]\<rparr>) (k\<lparr>kd := e\<rparr>)) = Some (P\<lparr>tasks := (tasks P)[unat i := None]\<rparr>)"
      using P by (auto simp: get_proc_def set_proc_def index_at_def split: if_splits)
    from unowned_proc [OF this S(5) [OF e]] show "Some t \<notin> set (tasks (?P'\<lparr>tasks := (tasks ?P')[unat i := None]\<rparr>))"
      by (simp add: owned_by_def set_some_tasks)
  qed (use e E(8,10) in \<open>simp_all add: set_proc_def\<close>)
  have "in_slot p ?P' i t ?N k'" using S t no E(7) by (simp add: in_slot_def)
  then have "exited l base n p ?P' i t code k'" using E(2-5) by (auto simp: exited_def)
  moreover have "\<forall>u. u \<noteq> t \<longrightarrow> get_tcb u k' = get_tcb u k" using E(9) by (simp add: get_tcb_def index_at_def)
  ultimately show ?thesis using E(1,5-7,9) t S(3) by (intro exI [of _ k'] exI [of _ ?P']) simp
qed

lemma caller_cong: "caller cur c base p k \<Longrightarrow> current_task (kd k') = Some cur \<Longrightarrow> get_tcb cur k' = get_tcb cur k \<Longrightarrow> caller cur c base p k'"
  by (simp add: caller_def thread_of_def)

lemma wait_running:
  assumes "running l base n p P i t k" "caller cur c base p k" "i \<noteq> c"
  shows "sys_waittid i k = Some (Ret (-2) k)"
  using assms by (auto simp: running_def in_slot_def threads_ok_def caller_def thread_of_def sys_waittid_def index_at_def)

lemma wait_no_slot:
  assumes "get_proc p k = Some P" "caller cur c base p k" "i \<noteq> c"
  shows "length (tasks P) \<le> unat i \<Longrightarrow> sys_waittid i k = None"
    "unat i < length (tasks P) \<Longrightarrow> tasks P ! unat i = None \<Longrightarrow> sys_waittid i k = Some (Ret (-1) k)"
  using assms by (auto simp: caller_def thread_of_def sys_waittid_def index_at_def)

lemma wait_exited:
  assumes ex: "exited l base n p P i t code k" and cal: "caller cur c base p k" and i: "i \<noteq> c" and nr: "t \<notin> set (ready (kd k))" and cur: "cur \<noteq> t"
  shows "\<exists>k' P' T. sys_waittid i k = Some (Ret (scast code) k') \<and> threads_ok l base n p P' k' \<and> tasks P' = (tasks P)[unat i := None]
    \<and> task_res_allocator P' = task_res_allocator P \<and> get_tcb t k' = None \<and> caller cur c base p k'
    \<and> get_tcb t k = Some T \<and> kstack_live k' = kstack_live k - {tcb_kstack T} \<and> sys_waittid i k' = Some (Ret (-1) k')"
proof -
  obtain N where N: "in_slot p P i t N k" "tcb_res N = None" "tcb_exit_code N = Some code" and th: "threads_ok l base n p P k"
    using ex by (auto simp: exited_def)
  have P: "get_proc p k = Some P" using th by (simp add: threads_ok_def)
  have S: "unat i < length (tasks P)" "tasks P ! unat i = Some t" "get_tcb t k = Some N" "tcb_kstack N \<in> kstack_live k"
    using N(1) by (auto simp: in_slot_def)
  let ?P' = "P\<lparr>tasks := (tasks P)[unat i := None]\<rparr>"
  let ?k = "set_proc p ?P' k"
  have c: "current_task (kd k) = Some cur" using cal by (simp add: caller_def)
  have "k\<lparr>kd := kd k\<rparr> = k" by simp
  then have no: "\<not> task_owned t ?k" using N(1) nr c cur unfolding in_slot_def by (metis option.inject)
  have P': "get_proc p ?k = Some ?P'" using get_set_proc [OF P] by simp
  have th': "threads_ok l base n p ?P' ?k" by (rule threads_ok_cong [OF th P']) (simp_all add: set_proc_def)
  obtain s where r: "release_task t ?k = Some (?k\<lparr>kst := s, tcbs := (tcbs ?k)[t := None]\<rparr>)" "threads_ok l base n p ?P' (?k\<lparr>kst := s, tcbs := (tcbs ?k)[t := None]\<rparr>)"
      "ra_live (KSTACK_ALLOCATOR s) = kstack_live k - {tcb_kstack N}"
    using thread_release_ok [OF th', of t N] S(3,4) N(2) no by (auto simp: set_proc_def get_tcb_def)
  define k' where "k' = ?k\<lparr>kst := s, tcbs := (tcbs ?k)[t := None]\<rparr>"
  have w: "sys_waittid i k = Some (Ret (scast code) k')"
    using cal P S(1-3) N(3) i r(1) by (auto simp: caller_def thread_of_def sys_waittid_def index_at_def Let_def k'_def)
  have cal': "caller cur c base p k'" by (rule caller_cong [OF cal]) (use c cur in \<open>simp_all add: k'_def set_proc_def get_tcb_def index_at_def\<close>)
  have p': "get_proc p k' = Some ?P'" using P' by (simp add: k'_def get_proc_def)
  have "sys_waittid i k' = Some (Ret (-1) k')" using wait_no_slot(2) [OF p' cal' i] S(1) by simp
  moreover have "get_tcb t k' = None" using tcb_index [OF S(3)] by (simp add: k'_def get_tcb_def set_proc_def index_at_def)
  ultimately show ?thesis using w r(2,3) cal' S(3)
    by (intro exI [of _ k'] exI [of _ ?P'] exI [of _ N]) (simp add: k'_def)
qed

text \<open>A thread that is created when another has exited and nobody has waited for it.\<close>

lemma create_over_exited:
  assumes ex: "exited l base n p P i t code k" and cal: "caller cur c base p k" and nr: "t \<notin> set (ready (kd k))" and cur: "cur \<noteq> t"
    and free: "15 \<le> free_frames (kmem_of k)"
    and kroom: "ra_recycled (KSTACK_ALLOCATOR (kst k)) \<noteq> [] \<or> unat (ra_current (KSTACK_ALLOCATOR (kst k))) < 2 ^ 24"
  shows "\<exists>k' P'. sys_thread_create M ent arg k = Some (Ret i k') \<and> get_proc p k' = Some P' \<and> tasks P' = (tasks P)[unat i := Some (length (tcbs k))]
    \<and> get_tcb t k' = None \<and> caller cur c base p k' \<and> (i \<noteq> c \<longrightarrow> sys_waittid i k' = Some (Ret (-2) k'))"
proof -
  obtain N where N: "in_slot p P i t N k" "tcb_res N = None" and th: "threads_ok l base n p P k" and al: "fst (ra_alloc (task_res_allocator P)) = i"
      and rc: "ra_recycled (task_res_allocator P) \<noteq> []"
    using ex by (auto simp: exited_def)
  have P: "get_proc p k = Some P" using th by (simp add: threads_ok_def)
  have S: "unat i < length (tasks P)" "tasks P ! unat i = Some t" "get_tcb t k = Some N" "tcb_kstack N \<in> kstack_live k"
    using N(1) by (auto simp: in_slot_def)
  note tl = tcb_index [OF S(3)]
  obtain A ms j s ppn where C: "sys_thread_create M ent arg k = do {
        k1 \<leftarrow> (case (if unat i < length (tasks P) then tasks P ! unat i else None) of
            None \<Rightarrow> Some (stored M p P base i A ms j s ppn k) | Some u \<Rightarrow> release_task u (stored M p P base i A ms j s ppn k));
        Some (Ret i (set_kmem (put_trap_cx ppn (start_cx M ent arg base i j k1) (kmem_of k1)) k1)) }"
      "threads_ok l base n p (P\<lparr>task_res_allocator := A, memory_set := ms, tasks := put_thread (unat i) (length (tcbs k)) (tasks P)\<rparr>) (stored M p P base i A ms j s ppn k)"
      "ra_live (KSTACK_ALLOCATOR s) = insert j (kstack_live k)"
    using thread_create_ok [OF th cal free disjI1 [OF rc] kroom, of M ent arg] unfolding al by blast
  let ?S = "stored M p P base i A ms j s ppn k" and ?P1 = "P\<lparr>task_res_allocator := A, memory_set := ms, tasks := put_thread (unat i) (length (tcbs k)) (tasks P)\<rparr>"
  have pt: "put_thread (unat i) (length (tcbs k)) (tasks P) = (tasks P)[unat i := Some (length (tcbs k))]" using S(1) by (simp add: put_thread_def)
  let ?Pn = "P\<lparr>tasks := (tasks P)[unat i := None]\<rparr>"
  have "current_task (kd k) \<noteq> Some t" using cal cur by (simp add: caller_def)
  then have no: "\<not> task_owned t (set_proc p ?Pn k)" using N(1) nr unfolding in_slot_def by (metis kernel.surjective kernel.update_convs(2))
  have Pn: "get_proc p (set_proc p ?Pn k) = Some ?Pn" using get_set_proc [OF P] by simp
  have "\<not> task_owned t ?S"
  proof (rule not_owned [OF Pn no, where P' = ?P1])
    have "Some t \<notin> set ((tasks P)[unat i := None])" using unowned_proc [OF Pn no] by (simp add: owned_by_def set_some_tasks)
    moreover have "(tasks P)[unat i := Some u] = ((tasks P)[unat i := None])[unat i := Some u]" for u by simp
    moreover have "t \<noteq> length (tcbs k)" using tl by simp
    ultimately show "Some t \<notin> set (tasks ?P1)" using set_update_subset_insert [of "(tasks P)[unat i := None]" "unat i" "Some (length (tcbs k))"] by (auto simp: pt)
  qed (use nr tl \<open>current_task (kd k) \<noteq> Some t\<close> in \<open>simp_all add: set_proc_def\<close>, simp add: stored_def)
  moreover have "get_tcb t ?S = Some N" "tcb_kstack N \<in> kstack_live ?S" using S(3,4) tl C(3) by simp_all
  ultimately obtain s' where r: "release_task t ?S = Some (?S\<lparr>kst := s', tcbs := (tcbs ?S)[t := None]\<rparr>)"
    using thread_release_ok [OF C(2) _ N(2)] by blast
  define k1 where "k1 = ?S\<lparr>kst := s', tcbs := (tcbs ?S)[t := None]\<rparr>"
  define k' where "k' = set_kmem (put_trap_cx ppn (start_cx M ent arg base i j k1) (kmem_of k1)) k1"
  have w: "sys_thread_create M ent arg k = Some (Ret i k')" using C(1) S(1,2) r by (simp add: k1_def k'_def)
  have p': "get_proc p k' = Some ?P1" using get_proc_stored [OF P, of M P base i A ms j s ppn] by (simp add: k'_def k1_def get_proc_def set_kmem_def)
  have tcb: "get_tcb u k' = (if u = t then None else get_tcb u ?S)" for u
    using tl by (auto simp: k'_def k1_def get_tcb_def index_at_def)
  have c: "current_task (kd k) = Some cur" "cur < length (tcbs k)" using cal tcb_index by (auto simp: caller_def thread_of_def)
  have cal': "caller cur c base p k'" by (rule caller_cong [OF cal]) (use c cur tcb in \<open>simp_all add: k'_def k1_def\<close>)
  have "sys_waittid i k' = Some (Ret (-2) k')" if "i \<noteq> c"
    using cal' p' that tcb [of "length (tcbs k)"] tl S(1) by (auto simp: caller_def thread_of_def sys_waittid_def index_at_def pt new_tcb_def)
  then show ?thesis using w p' tcb [of t] cal' pt by (intro exI [of _ k'] exI [of _ ?P1]) simp
qed

lemma exited_sched: "exited l base n p P i t code k \<Longrightarrow> exited l base n p P i t code (k\<lparr>kd := e\<rparr>)"
  by (auto simp: exited_def in_slot_def threads_ok_def get_proc_def get_tcb_def)

text \<open>The thread exits, and its creator waits for it or creates another thread.\<close>

lemma after_exit:
  assumes run: "running l base n p P i t k" and cal: "caller cur c base p k" and i: "i \<noteq> 0" "i \<noteq> c" and cur: "cur \<noteq> t"
    and k: "get_tcb t k = Some N" "length (tcbs k) = Suc t" "15 \<le> free_frames (kmem_of k)" "unat (ra_current (KSTACK_ALLOCATOR (kst k))) < 2 ^ 24"
    and d: "current_task d = Some t"
  shows "\<exists>k2. exit_current_and_run_next code (k\<lparr>kd := d\<rparr>) = Some (Gone k2)
      \<and> (\<forall>e. current_task e = Some cur \<longrightarrow> t \<notin> set (ready e) \<longrightarrow>
          (\<exists>k3 P3. sys_waittid i (k2\<lparr>kd := e\<rparr>) = Some (Ret (scast code) k3) \<and> sys_waittid i k3 = Some (Ret (-1) k3)
            \<and> get_tcb t k3 = None \<and> threads_ok l base n p P3 k3 \<and> ra_live (task_res_allocator P3) = ra_live (task_res_allocator P) - {i}
            \<and> kstack_live k3 = kstack_live k - {tcb_kstack N})
        \<and> (\<exists>k3 P3. sys_thread_create M ent' arg' (k2\<lparr>kd := e\<rparr>) = Some (Ret i k3) \<and> get_proc p k3 = Some P3
            \<and> pcb_get_task P3 (unat i) = Some (Suc t) \<and> get_tcb t k3 = None \<and> sys_waittid i k3 = Some (Ret (-2) k3)))"
    (is "\<exists>k2. _ \<and> (\<forall>e. _ \<longrightarrow> _ \<longrightarrow> ?waits k2 e \<and> ?creates k2 e)")
proof -
  obtain k2 P2 T where E: "exit_current_and_run_next code (k\<lparr>kd := d\<rparr>) = Some (Gone k2)" "exited l base n p P2 i t code k2"
      "ra_live (task_res_allocator P2) = ra_live (task_res_allocator P) - {i}" "free_frames (kmem_of k) \<le> free_frames (kmem_of k2)"
      "KSTACK_ALLOCATOR (kst k2) = KSTACK_ALLOCATOR (kst k)" "\<forall>u. u \<noteq> t \<longrightarrow> get_tcb u k2 = get_tcb u k" "length (tcbs k2) = length (tcbs k)"
      "get_tcb t k2 = Some T" "tcb_kstack T = tcb_kstack N"
    using exit_running [OF run d i(1), of code] k(1) by blast
  have "?waits k2 e \<and> ?creates k2 e" if e: "current_task e = Some cur" "t \<notin> set (ready e)" for e
  proof
    let ?k = "k2\<lparr>kd := e\<rparr>"
    have cal': "caller cur c base p ?k" by (rule caller_cong [OF cal]) (use e cur E(6) in \<open>simp_all add: get_tcb_def\<close>)
    note ex = exited_sched [OF E(2), of e]
    have nr: "t \<notin> set (ready (kd ?k))" using e(2) by simp
    have t: "get_tcb t ?k = Some T" using E(8) by (simp add: get_tcb_def)
    have "kstack_live ?k - {tcb_kstack T} = kstack_live k - {tcb_kstack N}" using E(5,9) by simp
    then show "?waits k2 e" using wait_exited [OF ex cal' i(2) nr cur] t E(3) by (metis option.inject)
    have sl: "unat i < length (tasks P2)" using E(2) by (auto simp: exited_def in_slot_def)
    have len: "length (tcbs ?k) = Suc t" using E(7) k(2) by simp
    have fr: "15 \<le> free_frames (kmem_of ?k)" using k(3) E(4) by simp
    have kr: "ra_recycled (KSTACK_ALLOCATOR (kst ?k)) \<noteq> [] \<or> unat (ra_current (KSTACK_ALLOCATOR (kst ?k))) < 2 ^ 24" using k(4) E(5) by simp
    from create_over_exited [OF ex cal' nr cur fr kr, of M ent' arg'] obtain k3 P3 where
        "sys_thread_create M ent' arg' ?k = Some (Ret i k3)" "get_proc p k3 = Some P3" "tasks P3 = (tasks P2)[unat i := Some (Suc t)]"
        "get_tcb t k3 = None" "sys_waittid i k3 = Some (Ret (-2) k3)"
      using i(2) unfolding len by blast
    then show "?creates k2 e" using sl by (auto simp: pcb_get_task_def index_at_def)
  qed
  with E(1) show ?thesis by blast
qed

section \<open>The life of a thread\<close>

text \<open>
  C34. The life of a thread, in a process whose memory and tids are in order and with enough free frames. \<open>sys_thread_create\<close>
  returns a tid that was not in use and stores a new task under it: the task is at the end of the ready queue, has a kernel
  stack of its own that was not in use, and its trap context starts it at the entry point on its own user stack with the
  argument in register \<open>a0\<close>. As long as it runs, \<open>sys_waittid\<close> returns -2. When it runs and exits, by
  \<open>exit_current_and_run_next\<close>, its user memory and its tid are given back, and what the creator does next decides
  about the exit code, whatever the scheduler has done in between: \<open>sys_waittid\<close> returns the exit code (sign-extended), drops the
  task and its kernel stack, so that tids and kernel stacks in use are those from before, and returns -1 from then on. But if the creator first creates another
  thread, this one gets the same tid and takes the place of the first, whose exit code is lost: \<open>sys_waittid\<close>
  returns -2. A tid beyond the list of threads panics the kernel, where the documentation of \<open>sys_waittid\<close> says -1.
\<close>

theorem thread_lifecycle:
  assumes ok: "threads_ok l base n p P k" and cal: "caller cur c base p k"
    and live: "0 \<in> ra_live (task_res_allocator P)" "c \<in> ra_live (task_res_allocator P)"
    and room: "30 \<le> free_frames (kmem_of k)" "unat (ra_current (task_res_allocator P)) < n" "unat (ra_current (KSTACK_ALLOCATOR (kst k))) + 2 \<le> 2 ^ 24"
    and new: "\<not> task_owned t k" "t = length (tcbs k)"
    and empty: "\<forall>i. i = fst (ra_alloc (task_res_allocator P)) \<longrightarrow> unat i < length (tasks P) \<longrightarrow> tasks P ! unat i = None"
  shows "\<exists>i k1 P1 N. sys_thread_create M ent arg k = Some (Ret i k1)
    \<and> i = fst (ra_alloc (task_res_allocator P)) \<and> i \<notin> ra_live (task_res_allocator P)
    \<and> get_proc p k1 = Some P1 \<and> tasks P1 = put_thread (unat i) t (tasks P) \<and> pcb_get_task P1 (unat i) = Some t \<and> ready (kd k1) = ready (kd k) @ [t]
    \<and> get_tcb t k1 = Some N \<and> tcb_kstack N \<notin> kstack_live k
    \<and> get_trap_cx (tcb_trap_cx_ppn N) (kmem_of k1) = start_cx M ent arg base i (tcb_kstack N) k1
    \<and> sys_waittid i k1 = Some (Ret (-2) k1)
    \<and> (\<forall>j. length (tasks P1) \<le> unat j \<longrightarrow> j \<noteq> c \<longrightarrow> sys_waittid j k1 = None)
    \<and> (\<forall>d. current_task d = Some t \<longrightarrow> (\<exists>k2. exit_current_and_run_next code (k1\<lparr>kd := d\<rparr>) = Some (Gone k2)
      \<and> (\<forall>e. current_task e = Some cur \<longrightarrow> t \<notin> set (ready e) \<longrightarrow>
          (\<exists>k3 P3. sys_waittid i (k2\<lparr>kd := e\<rparr>) = Some (Ret (scast code) k3) \<and> sys_waittid i k3 = Some (Ret (-1) k3)
            \<and> get_tcb t k3 = None \<and> threads_ok l base n p P3 k3 \<and> ra_live (task_res_allocator P3) = ra_live (task_res_allocator P)
            \<and> kstack_live k3 = kstack_live k)
        \<and> (\<exists>k3 P3. sys_thread_create M ent' arg' (k2\<lparr>kd := e\<rparr>) = Some (Ret i k3) \<and> get_proc p k3 = Some P3
            \<and> pcb_get_task P3 (unat i) = Some (Suc t) \<and> get_tcb t k3 = None \<and> sys_waittid i k3 = Some (Ret (-2) k3)))))"
proof -
  obtain i k1 P1 N where C: "i = fst (ra_alloc (task_res_allocator P))" "i \<notin> ra_live (task_res_allocator P)" "sys_thread_create M ent arg k = Some (Ret i k1)"
      "running l base n p P1 i t k1" "caller cur c base p k1" "ready (kd k1) = ready (kd k) @ [t]"
      "get_tcb t k1 = Some N" "tcb_kstack N \<notin> kstack_live k" "kstack_live k1 = insert (tcb_kstack N) (kstack_live k)"
      "get_trap_cx (tcb_trap_cx_ppn N) (kmem_of k1) = start_cx M ent arg base i (tcb_kstack N) k1"
      "ra_live (task_res_allocator P1) = insert i (ra_live (task_res_allocator P))"
      "unat (ra_current (KSTACK_ALLOCATOR (kst k1))) \<le> unat (ra_current (KSTACK_ALLOCATOR (kst k))) + 1" "free_frames (kmem_of k) \<le> free_frames (kmem_of k1) + 15"
      "length (tcbs k1) = Suc t" "tasks P1 = put_thread (unat i) t (tasks P)"
    using create_in_empty_slot [OF ok cal, of M ent arg] room new empty by auto
  have i: "i \<noteq> 0" "i \<noteq> c" using C(2) live by auto
  have P1: "get_proc p k1 = Some P1" "pcb_get_task P1 (unat i) = Some t"
    using C(4) by (auto simp: running_def threads_ok_def in_slot_def pcb_get_task_def index_at_def)
  have cur: "cur \<noteq> t" "cur < t" using cal tcb_index new(2) by (auto simp: caller_def thread_of_def)
  have eq: "ra_live (task_res_allocator P1) - {i} = ra_live (task_res_allocator P)" "kstack_live k1 - {tcb_kstack N} = kstack_live k"
    using C(2,8,9,11) by auto
  have "15 \<le> free_frames (kmem_of k1)" "unat (ra_current (KSTACK_ALLOCATOR (kst k1))) < 2 ^ 24" using room(1,3) C(12,13) by simp_all
  note after_exit [OF C(4,5) i cur(1) C(7,14) this, of _ code M ent' arg', unfolded eq]
  moreover have "sys_waittid i k1 = Some (Ret (-2) k1)" by (rule wait_running [OF C(4,5) i(2)])
  moreover have "sys_waittid j k1 = None" if "length (tasks P1) \<le> unat j" "j \<noteq> c" for j using wait_no_slot(1) [OF P1(1) C(5) that(2,1)] .
  ultimately show ?thesis using C(1-3,6-8,10,15) P1 by blast
qed

text \<open>A kernel that has just booted, with one process that has one thread.\<close>

lemma sample_empty_space:
  "\<exists>s ms. space_ok 0x80500 s ms \<and> ms_areas ms = [] \<and> KSTACK_ALLOCATOR s = RecycleAllocator_new \<and> 100 \<le> free_frames (k_mem s)"
proof -
  let ?l = "0x80500 :: usize" and ?k = "boot_kmem 0x80500000"
  let ?syms = "\<lparr>stext = 0, etext = 0, srodata = 0, erodata = 0, sdata = 0, edata = 0, sbss_with_stack = 0,
    ebss = 0, ekernel = 0, strampoline = 0\<rparr>"
  have al: "VA_page_offset (PhysAddr_from (strampoline ?syms)) = 0" by (simp add: VA_page_offset_def PhysAddr_from_def)
  have "3 \<le> free_frames ?k" by (simp add: boot_sample)
  from new_space_ok [OF boot_sample(1) this al] obtain kms k1 where
    n: "fresh_space ?l ?k kms k1" "ms_areas kms = []" "free_frames ?k \<le> free_frames k1 + 3" by blast
  have ki: "kmem_inv ?l k1" "ms_inv ?l kms k1" "set (ms_frames kms) \<subseteq> live_frames ?l k1"
    using n(1) by (auto simp: fresh_space_def ms_inv_def)
  have "3 \<le> free_frames k1" using n(3) by (simp add: boot_sample)
  from new_space_ok [OF ki(1) this al] obtain ums k2 where
    u: "fresh_space ?l k1 ums k2" "ms_areas ums = []" "free_frames k1 \<le> free_frames k2 + 3" by blast
  let ?s = "\<lambda>m. \<lparr>k_mem = m, KERNEL_SPACE = kms, PID_ALLOCATOR = RecycleAllocator_new, KSTACK_ALLOCATOR = RecycleAllocator_new\<rparr>"
  have "kspace_inv ?l (?s k1)"
    using ki(2) n(2) by (simp add: kspace_inv_def ra_inv_def ra_live_def RecycleAllocator_new_def ms_pages_def)
  then have "kspace_inv ?l (?s k2)" using kspace_grow [of ?l "?s k1"] u(1) by simp
  then have "space_ok ?l (?s k2) ums" using u(1,2) ki(3) by (auto simp: space_ok_def fresh_space_def)
  moreover have "100 \<le> free_frames k2" using n(3) u(3) by (simp add: boot_sample)
  ultimately show ?thesis using u(2) by (intro exI [of _ "?s k2"] exI [of _ ums]) simp
qed

lemma sample_thread:
  "\<exists>(k :: bytes kernel) P. threads_ok 0x80500 0x10000 16 0 P k \<and> caller 0 0 0x10000 0 k \<and> ra_live (task_res_allocator P) = {0} \<and> tasks P = [Some 0]
    \<and> fst (ra_alloc (task_res_allocator P)) = 1 \<and> unat (ra_current (task_res_allocator P)) = 1 \<and> 30 \<le> free_frames (kmem_of k)
    \<and> unat (ra_current (KSTACK_ALLOCATOR (kst k))) = 0 \<and> \<not> task_owned 1 k \<and> length (tcbs k) = 1"
proof -
  let ?l = "0x80500 :: usize" and ?b = "0x10000 :: usize"
  obtain s ms where s: "space_ok ?l s ms" "ms_areas ms = []" "KSTACK_ALLOCATOR s = RecycleAllocator_new" "100 \<le> free_frames (k_mem s)"
    using sample_empty_space by blast
  have fit: "tids_fit ?b 16" by (simp add: tids_fit_def)
  have inv0: "tids_inv ?b 16 RecycleAllocator_new []"
    using fit by (simp add: tids_inv_def ra_inv_def ra_live_def RecycleAllocator_new_def ranges_pages_def)
  have free: "9 \<le> free_frames (k_mem s)" using s(4) by simp
  have none: "\<forall>r\<in>set (tid_ranges ?b 0). set (range_items r) \<inter> set (ms_pages ms) = {}" by (simp add: ms_pages_def s(2))
  obtain ms' m' where u: "space_ok ?l (s\<lparr>k_mem := m'\<rparr>) ms'" "ms_ranges ms' = ms_ranges ms @ tid_ranges ?b 0" "free_frames (k_mem s) \<le> free_frames m' + 9"
    using alloc_user_res_ok [OF s(1) fit _ free none] by auto
  let ?A = "RecycleAllocator_new\<lparr>ra_current := 1\<rparr>"
  have A: "ra_inv ?A" "ra_live ?A = {0}" "fst (ra_alloc ?A) = 1"
    by (auto simp: ra_inv_def ra_live_def RecycleAllocator_new_def ra_alloc_def Let_def word_less_nat_alt word_unat_eq_iff)
  have "ra_live RecycleAllocator_new = {}" by (auto simp: ra_live_def RecycleAllocator_new_def)
  then have "tids_inv ?b 16 ?A ([] @ tid_ranges ?b 0)"
    by (intro tids_inv_add [OF inv0 _ A(1)]) (use A(2) in \<open>simp_all add: RecycleAllocator_new_def\<close>)
  then have inv: "tids_inv ?b 16 ?A (ms_ranges ms')" using u(2) s(2) by simp
  define P where "P = sample_pcb\<lparr>memory_set := ms', tasks := [Some 0], task_res_allocator := ?A\<rparr>"
  define k where "k = sample_kernel\<lparr>kst := s\<lparr>k_mem := m'\<rparr>, procs := [Some P], tcbs := [Some (sample_tcb 0 (Some \<lparr>res_tid = 0, res_ustack_base = ?b\<rparr>) None)]\<rparr>"
  have "threads_ok ?l ?b 16 0 P k" using u(1) inv by (simp add: threads_ok_def k_def P_def get_proc_def index_at_def)
  moreover have "caller 0 0 ?b 0 k"
    by (simp add: caller_def thread_of_def k_def sample_kernel_def current_task_def get_tcb_def index_at_def sample_tcb_def)
  moreover have "\<not> task_owned 1 k"
    by (simp add: task_owned_def k_def P_def sample_kernel_def sample_pcb_def owned_by_def some_tasks_def TaskManager_new_def current_task_def)
  moreover have "30 \<le> free_frames (kmem_of k)" using s(4) u(3) by (simp add: k_def)
  ultimately show ?thesis using A(2,3) s(3)
    by (intro exI [of _ k] exI [of _ P]) (simp add: P_def k_def RecycleAllocator_new_def)
qed

definition sample_sched :: "task \<Rightarrow> sched" where
  "sample_sched t = \<lparr>TASK_MANAGER = TaskManager_new, PROCESSOR = \<lparr>proc_current = Some t, idle_task_cx = TaskContext_zero_init\<rparr>, task_status = (\<lambda>_. Running)\<rparr>"

theorem thread_lifecycle_witness:
  "\<forall>M :: bytes machine. \<exists>k k1 k2 k3 k4. sys_thread_create M 0x1000 7 k = Some (Ret 1 k1) \<and> sys_waittid 1 k1 = Some (Ret (-2) k1) \<and> sys_waittid 2 k1 = None
    \<and> exit_current_and_run_next 3 (k1\<lparr>kd := sample_sched 1\<rparr>) = Some (Gone k2)
    \<and> sys_waittid 1 (k2\<lparr>kd := sample_sched 0\<rparr>) = Some (Ret 3 k3) \<and> sys_waittid 1 k3 = Some (Ret (-1) k3)
    \<and> sys_thread_create M 0x2000 8 (k2\<lparr>kd := sample_sched 0\<rparr>) = Some (Ret 1 k4) \<and> sys_waittid 1 k4 = Some (Ret (-2) k4)" (is "\<forall>M. ?P M")
proof
  fix M :: "bytes machine"
  let ?l = "0x80500 :: usize" and ?b = "0x10000 :: usize"
  obtain k :: "bytes kernel" and P where K: "threads_ok ?l ?b 16 0 P k" "caller 0 0 ?b 0 k" "ra_live (task_res_allocator P) = {0}" "tasks P = [Some 0]"
      "fst (ra_alloc (task_res_allocator P)) = 1" "unat (ra_current (task_res_allocator P)) = 1" "30 \<le> free_frames (kmem_of k)"
      "unat (ra_current (KSTACK_ALLOCATOR (kst k))) = 0" "\<not> task_owned 1 k" "length (tcbs k) = 1"
    using sample_thread by blast
  have h: "0 \<in> ra_live (task_res_allocator P)" "unat (ra_current (task_res_allocator P)) < 16" "unat (ra_current (KSTACK_ALLOCATOR (kst k))) + 2 \<le> 2 ^ 24"
      "\<forall>i. i = fst (ra_alloc (task_res_allocator P)) \<longrightarrow> unat i < length (tasks P) \<longrightarrow> tasks P ! unat i = None"
    using K by simp_all
  have d: "current_task (sample_sched t) = Some t" "u \<notin> set (ready (sample_sched t))" for t u
    by (simp_all add: sample_sched_def current_task_def TaskManager_new_def)
  obtain i k1 and P1 :: ProcessControlBlock where C0: "sys_thread_create M 0x1000 7 k = Some (Ret i k1)" "i = fst (ra_alloc (task_res_allocator P))" "tasks P1 = put_thread (unat i) 1 (tasks P)"
      "sys_waittid i k1 = Some (Ret (-2) k1)" "\<forall>j. length (tasks P1) \<le> unat j \<longrightarrow> j \<noteq> 0 \<longrightarrow> sys_waittid j k1 = None"
      "\<forall>d. current_task d = Some 1 \<longrightarrow> (\<exists>k2. exit_current_and_run_next 3 (k1\<lparr>kd := d\<rparr>) = Some (Gone k2)
        \<and> (\<forall>e. current_task e = Some 0 \<longrightarrow> 1 \<notin> set (ready e) \<longrightarrow>
            (\<exists>k3 P3. sys_waittid i (k2\<lparr>kd := e\<rparr>) = Some (Ret (scast (3 :: i32)) k3) \<and> sys_waittid i k3 = Some (Ret (-1) k3)
              \<and> get_tcb 1 k3 = None \<and> threads_ok ?l ?b 16 0 P3 k3 \<and> ra_live (task_res_allocator P3) = ra_live (task_res_allocator P) \<and> kstack_live k3 = kstack_live k)
          \<and> (\<exists>k3 P3. sys_thread_create M 0x2000 8 (k2\<lparr>kd := e\<rparr>) = Some (Ret i k3) \<and> get_proc 0 k3 = Some P3
              \<and> pcb_get_task P3 (unat i) = Some (Suc 1) \<and> get_tcb 1 k3 = None \<and> sys_waittid i k3 = Some (Ret (-2) k3))))"
    using thread_lifecycle [OF K(1,2) h(1,1) K(7) h(2,3) K(9) K(10) [symmetric] h(4), of M "0x1000" 7 3 "0x2000" 8] by (elim exE conjE) (rule that; assumption)
  have i: "i = 1" using C0(2) K(5) by simp
  note C = C0(1) [unfolded i] C0(3) [unfolded i K(4) unat_1] C0(4) [unfolded i] C0(5) C0(6) [unfolded i]
  have "sys_waittid 2 k1 = None" using C(2,4) by (simp add: put_thread_def)
  moreover obtain k2 where "exit_current_and_run_next 3 (k1\<lparr>kd := sample_sched 1\<rparr>) = Some (Gone k2)"
      "\<exists>k3. sys_waittid 1 (k2\<lparr>kd := sample_sched 0\<rparr>) = Some (Ret (scast (3 :: i32)) k3) \<and> sys_waittid 1 k3 = Some (Ret (-1) k3)"
      "\<exists>k3. sys_thread_create M 0x2000 8 (k2\<lparr>kd := sample_sched 0\<rparr>) = Some (Ret 1 k3) \<and> sys_waittid 1 k3 = Some (Ret (-2) k3)"
    using C(5) d by blast
  moreover have "scast (3 :: i32) = (3 :: usize)" by simp
  ultimately show "?P M" using C(1,3) by metis
qed

end
