(* ===== verification/VfsFiles.thy ===== *)
theory VfsFiles
  imports VfsProps
begin

text \<open>
  The files of a file system together: an operation on one file leaves every other file alone. The state of the disk
  stands for a partial map from inode numbers to the contents of files, on which writing and creating act.
\<close>

section \<open>Slots and files\<close>

definition slots_apart :: "inode \<Rightarrow> inode \<Rightarrow> bool" where
  "slots_apart i j \<longleftrightarrow> ino_block_id i \<noteq> ino_block_id j \<or> ino_block_offset i + 128 \<le> ino_block_offset j \<or> ino_block_offset j + 128 \<le> ino_block_offset i"

lemma other_slot:
  assumes "same_slots ino v v'" "slots_apart ino j" "ino_block_offset j + 128 \<le> BLOCK_SZ"
    and "ino_block_id j \<noteq> ino_block_id ino \<Longrightarrow> v' (ino_block_id j) = v (ino_block_id j)"
  shows "slice_at (ino_block_offset j) 128 (v' (ino_block_id j)) = slice_at (ino_block_offset j) 128 (v (ino_block_id j))"
  using assms by (cases "ino_block_id j = ino_block_id ino") (auto simp: same_slots_def slots_apart_def)

text \<open>A file that shares no block with the one that is changed.\<close>

lemma other_file:
  assumes j: "inode_in N fs j v e" and geo: "geometry_ok N fs ino" and apart: "slots_apart ino j"
    and dis: "set (used_ids v d) \<inter> set (used_ids v e) = {}"
    and out: "same_outside (insert (ino_block_id ino) (touched fs v' d')) v v'" and g: "gains fs k v d v' d'"
    and sl: "same_slots ino v v'" and mk: "marked fs v' d'"
  shows "inode_in N fs j v' e" "file_bytes v' e = file_bytes v e" "used_ids v' e = used_ids v e"
    "set (used_ids v' d') \<inter> set (used_ids v' e) = {}"
proof -
  let ?ds = "unat (data_area_start_block fs)" and ?bm = "data_bitmap fs"
  from j have gj: "geometry_ok N fs j" and wf: "wf_inode N {ino_block_id j} v e" and me: "marked fs v e"
    and de: "from_mem DiskInode (slice_at (ino_block_offset j) 128 (v (ino_block_id j))) = Some e" by (simp_all add: inode_in_def)
  have new: "b \<notin> set (used_ids v' d')" if "b \<in> set (used_ids v e)" for b
    using g that dis me by (auto simp: gains_def marked_def)
  have same: "v' (unat b) = v (unat b)" if b: "b \<in> set (used_ids v e)" for b
  proof -
    have "?ds \<le> unat b" using me b by (simp add: marked_def)
    then have "unat b \<noteq> ino_block_id ino" "unat b \<notin> {start_block_id ?bm..<?ds}" using geo by (auto simp: geometry_ok_def)
    moreover have "unat b \<notin> unat ` set (used_ids v' d')" using new [OF b] by (auto simp: image_iff simp flip: word_unat_eq_iff)
    ultimately show ?thesis using out by (simp add: same_outside_def touched_def)
  qed
  note cg = file_cong [where v' = v', OF wf same]
  show "file_bytes v' e = file_bytes v e" by (rule cg(2))
  show "used_ids v' e = used_ids v e" by (rule cg(1))
  then show "set (used_ids v' d') \<inter> set (used_ids v' e) = {}" using new by auto
  have "v' (ino_block_id j) = v (ino_block_id j)" if "ino_block_id j \<noteq> ino_block_id ino"
  proof -
    have "ino_block_id j \<notin> touched fs v' d'" using gj mk by (auto simp: touched_def marked_def geometry_ok_def)
    then show ?thesis using out that by (simp add: same_outside_def)
  qed
  then have "slice_at (ino_block_offset j) 128 (v' (ino_block_id j)) = slice_at (ino_block_offset j) 128 (v (ino_block_id j))"
    using gj by (intro other_slot [OF sl apart]) (simp_all add: geometry_ok_def)
  moreover have "marked fs v' e" using me gains_bits [OF g] by (simp add: marked_def cg)
  ultimately show "inode_in N fs j v' e" using gj cg(3) de by (simp add: inode_in_def)
qed

section \<open>The files of a disk\<close>

definition slot_of :: "efs \<Rightarrow> nat \<Rightarrow> inode" where
  "slot_of fs n = (case get_disk_inode_pos fs (of_nat n) of (bid, off) \<Rightarrow> Inode_new bid off)"

text \<open>The slots of the inodes lie between the two bitmaps and do not overlap.\<close>

definition fs_shape :: "nat \<Rightarrow> efs \<Rightarrow> bool" where
  "fs_shape N fs \<longleftrightarrow> bm_ok N Map.empty (inode_bitmap fs) \<and> bitmap_maximum (inode_bitmap fs) \<le> 2 ^ 32 \<and> 0 < start_block_id (inode_bitmap fs) \<and>
     (\<forall>n<bitmap_maximum (inode_bitmap fs). geometry_ok N fs (slot_of fs n) \<and>
        start_block_id (inode_bitmap fs) + blocks (inode_bitmap fs) \<le> ino_block_id (slot_of fs n) \<and>
        (\<forall>m<bitmap_maximum (inode_bitmap fs). m \<noteq> n \<longrightarrow> slots_apart (slot_of fs n) (slot_of fs m)))"

lemma fresh_slot:
  assumes fit: "layout_fits tb ib" and n: "n < bitmap_maximum (inode_bitmap (fresh_fs tb ib))" and ib: "unat ib * 4096 \<le> 2 ^ 32"
  shows "ino_block_id (slot_of (fresh_fs tb ib) n) = 1 + unat ib + n div 4" "ino_block_offset (slot_of (fresh_fs tb ib) n) = n mod 4 * 128"
proof -
  note lay = fresh_fs_layout [OF fit]
  have m: "n < unat ib * 4096" using n lay(2) by (simp add: bitmap_maximum_def)
  have u: "unat (of_nat n :: u32) = n" by (rule unat_of_nat_u32) (use m ib in linarith)
  have "unat ib * 1025 < 2 ^ 32" using fit by (simp add: layout_fits_def)
  moreover have "n div 4 < unat ib * 1024" using m by (simp add: less_mult_imp_div_less)
  ultimately have "unat (inode_area_start_block (fresh_fs tb ib)) + unat (of_nat n div 4 :: u32) < 2 ^ 32" using lay(3) u by (simp add: unat_div)
  from unat_plus_u32 [OF this] show "ino_block_id (slot_of (fresh_fs tb ib) n) = 1 + unat ib + n div 4"
    using lay(3) u by (simp add: slot_of_def get_disk_inode_pos_def Inode_new_def Let_def BLOCK_SZ_def unat_div)
  show "ino_block_offset (slot_of (fresh_fs tb ib) n) = n mod 4 * 128"
    using u by (simp add: slot_of_def get_disk_inode_pos_def Inode_new_def Let_def BLOCK_SZ_def unat_mod)
qed

lemma fresh_shape:
  assumes fit: "layout_fits tb ib" and ib: "unat ib * 4096 \<le> 2 ^ 32" and N: "unat tb \<le> N" "N \<le> 2 ^ 32"
  shows "fs_shape N (fresh_fs tb ib)"
proof -
  let ?fs = "fresh_fs tb ib"
  note lay = fresh_fs_layout [OF fit]
  have f: "1 + unat ib * 1025 \<le> unat tb" using fit by (simp add: layout_fits_def)
  have mx: "bitmap_maximum (inode_bitmap ?fs) = unat ib * 4096" using lay(2) by (simp add: bitmap_maximum_def)
  have bm: "bm_ok N Map.empty (inode_bitmap ?fs)" using lay f N by (auto simp: bm_ok_def)
  have "geometry_ok N ?fs (slot_of ?fs n)" "start_block_id (inode_bitmap ?fs) + blocks (inode_bitmap ?fs) \<le> ino_block_id (slot_of ?fs n)"
    if n: "n < unat ib * 4096" for n
  proof -
    note sl = fresh_slot [OF fit _ ib, of n, unfolded mx, OF n]
    have "n div 4 < unat ib * 1024" using n by (simp add: less_mult_imp_div_less)
    moreover have "n mod 4 * 128 + 128 \<le> 512" using mod_less_divisor [of 4 n] by simp
    ultimately show "geometry_ok N ?fs (slot_of ?fs n)" using sl lay f N by (simp add: geometry_ok_def BLOCK_SZ_def)
    show "start_block_id (inode_bitmap ?fs) + blocks (inode_bitmap ?fs) \<le> ino_block_id (slot_of ?fs n)" using sl lay by simp
  qed
  moreover have "slots_apart (slot_of ?fs n) (slot_of ?fs m)" if "n < unat ib * 4096" "m < unat ib * 4096" "m \<noteq> n" for n m
  proof -
    note sl = fresh_slot [OF fit _ ib, of n, unfolded mx, OF that(1)] fresh_slot [OF fit _ ib, of m, unfolded mx, OF that(2)]
    have "n div 4 \<noteq> m div 4 \<or> n mod 4 \<noteq> m mod 4" using that(3) by (metis mult_div_mod_eq)
    then show ?thesis using sl by (auto simp: slots_apart_def)
  qed
  ultimately show ?thesis using bm ib lay(1) by (simp add: fs_shape_def mx)
qed

text \<open>
  The files \<open>F\<close> of a disk: each is well-formed, its inode is taken, no two share a block, and every slot can be read.
\<close>

definition slot_bytes :: "efs \<Rightarrow> (nat \<Rightarrow> bytes) \<Rightarrow> nat \<Rightarrow> bytes" where
  "slot_bytes fs v n = slice_at (ino_block_offset (slot_of fs n)) 128 (v (ino_block_id (slot_of fs n)))"

definition fs_files :: "nat \<Rightarrow> efs \<Rightarrow> (nat \<Rightarrow> bytes) \<Rightarrow> (nat \<rightharpoonup> disk_inode) \<Rightarrow> bool" where
  "fs_files N fs v F \<longleftrightarrow> fs_shape N fs \<and>
     (\<forall>n d. F n = Some d \<longrightarrow> n < bitmap_maximum (inode_bitmap fs) \<and> bit_set v (inode_bitmap fs) n \<and> inode_in N fs (slot_of fs n) v d) \<and>
     (\<forall>n m d e. F n = Some d \<longrightarrow> F m = Some e \<longrightarrow> n \<noteq> m \<longrightarrow> set (used_ids v d) \<inter> set (used_ids v e) = {}) \<and>
     (\<forall>n<bitmap_maximum (inode_bitmap fs). from_mem DiskInode (slot_bytes fs v n) \<noteq> None)"

text \<open>What the disk stands for.\<close>

definition file_contents :: "(nat \<Rightarrow> bytes) \<Rightarrow> (nat \<rightharpoonup> disk_inode) \<Rightarrow> (nat \<rightharpoonup> bytes)" where
  "file_contents v F = (\<lambda>n. map_option (file_bytes v) (F n))"

lemma fs_filesD:
  assumes "fs_files N fs v F"
  shows "fs_shape N fs"
    "F n = Some d \<Longrightarrow> n < bitmap_maximum (inode_bitmap fs) \<and> bit_set v (inode_bitmap fs) n \<and> inode_in N fs (slot_of fs n) v d"
    "F n = Some d \<Longrightarrow> F m = Some e \<Longrightarrow> n \<noteq> m \<Longrightarrow> set (used_ids v d) \<inter> set (used_ids v e) = {}"
    "n < bitmap_maximum (inode_bitmap fs) \<Longrightarrow> from_mem DiskInode (slot_bytes fs v n) \<noteq> None"
  using assms by (auto simp: fs_files_def)

lemma shapeD:
  assumes "fs_shape N fs" "n < bitmap_maximum (inode_bitmap fs)"
  shows "geometry_ok N fs (slot_of fs n)" "start_block_id (inode_bitmap fs) + blocks (inode_bitmap fs) \<le> ino_block_id (slot_of fs n)"
    "m < bitmap_maximum (inode_bitmap fs) \<Longrightarrow> m \<noteq> n \<Longrightarrow> slots_apart (slot_of fs n) (slot_of fs m)"
  using assms by (auto simp: fs_shape_def)

text \<open>One file changes: the others are what they were.\<close>

lemma one_file_changes:
  assumes files: "fs_files N fs v F" and n: "F n = Some d"
    and i: "inode_in N fs (slot_of fs n) v' d'"
    and out: "same_outside (insert (ino_block_id (slot_of fs n)) (touched fs v' d')) v v'" and g: "gains fs k v d v' d'"
    and sl: "same_slots (slot_of fs n) v v'"
  shows "fs_files N fs v' (F(n \<mapsto> d'))" "m \<noteq> n \<Longrightarrow> file_contents v' (F(n \<mapsto> d')) m = file_contents v F m"
    "c < bitmap_maximum (inode_bitmap fs) \<Longrightarrow> bit_set v' (inode_bitmap fs) c = bit_set v (inode_bitmap fs) c" "v' 0 = v 0"
proof -
  let ?i = "inode_bitmap fs" and ?F = "F(n \<mapsto> d')"
  note fd = fs_filesD [OF files]
  note nn = fd(2) [OF n]
  have geo: "geometry_ok N fs (slot_of fs n)" and mk: "marked fs v' d'" using i by (simp_all add: inode_in_def)
  have oth: "inode_in N fs (slot_of fs m) v' e" "file_bytes v' e = file_bytes v e" "used_ids v' e = used_ids v e"
      "set (used_ids v' d') \<inter> set (used_ids v' e) = {}" if "F m = Some e" "m \<noteq> n" for m e
  proof -
    have m: "m < bitmap_maximum ?i" "inode_in N fs (slot_of fs m) v e" using fd(2) [OF that(1)] by auto
    have ap: "slots_apart (slot_of fs n) (slot_of fs m)" using shapeD(3) [OF fd(1), of n m] nn m that(2) by simp
    have dj: "set (used_ids v d) \<inter> set (used_ids v e) = {}" using fd(3) [OF n that(1)] that(2) by simp
    note o = other_file [OF m(2) geo ap dj out g sl mk]
    show "inode_in N fs (slot_of fs m) v' e" "file_bytes v' e = file_bytes v e" "used_ids v' e = used_ids v e"
      "set (used_ids v' d') \<inter> set (used_ids v' e) = {}" by (rule o)+
  qed
  have low: "v' b = v b" if "b < start_block_id (data_bitmap fs)" "b \<noteq> ino_block_id (slot_of fs n)" for b
  proof -
    have "b \<notin> touched fs v' d'" using that(1) mk geo by (auto simp: touched_def marked_def geometry_ok_def)
    then show ?thesis using out that(2) by (simp add: same_outside_def)
  qed
  show "v' 0 = v 0" using geo by (intro low) (auto simp: geometry_ok_def)
  show bits: "bit_set v' ?i c = bit_set v ?i c" if "c < bitmap_maximum ?i" for c
  proof -
    have "c div 4096 < blocks ?i" using that by (simp add: bitmap_maximum_def less_mult_imp_div_less)
    then have "start_block_id ?i + c div 4096 < ino_block_id (slot_of fs n)" using shapeD(2) [OF fd(1), of n] nn by linarith
    then show ?thesis using geo by (intro bit_set_cong low) (auto simp: geometry_ok_def)
  qed
  have dec: "from_mem DiskInode (slot_bytes fs v' m) \<noteq> None" if m: "m < bitmap_maximum ?i" for m
  proof (cases "m = n")
    case True
    then show ?thesis using i by (simp add: inode_in_def slot_bytes_def)
  next
    case False
    have gm: "geometry_ok N fs (slot_of fs m)" by (rule shapeD(1) [OF fd(1) m])
    have ap: "slots_apart (slot_of fs n) (slot_of fs m)" using shapeD(3) [OF fd(1), of n m] nn m False by simp
    have "slot_bytes fs v' m = slot_bytes fs v m"
      unfolding slot_bytes_def by (rule other_slot [OF sl ap]) (use gm low in \<open>auto simp: geometry_ok_def\<close>)
    then show ?thesis using fd(4) [OF m] by simp
  qed
  show "fs_files N fs v' ?F"
    unfolding fs_files_def
  proof (intro conjI allI impI)
    show "fs_shape N fs" by (rule fd(1))
    fix m e assume m: "?F m = Some e"
    show lt: "m < bitmap_maximum ?i" using m fd(2) nn by (auto split: if_splits)
    show "bit_set v' ?i m" using m fd(2) nn bits [OF lt] by (auto split: if_splits)
    show "inode_in N fs (slot_of fs m) v' e" using m i oth(1) by (auto split: if_splits)
    fix l f assume l: "?F l = Some f" "m \<noteq> l"
    show "set (used_ids v' e) \<inter> set (used_ids v' f) = {}"
    proof (cases "m = n \<or> l = n")
      case True
      then show ?thesis using m l oth(4) [of l f] oth(4) [of m e] by (auto split: if_splits)
    next
      case False
      then show ?thesis using m l fd(3) [of m e l f] by (simp add: oth(3))
    qed
  qed (rule dec)
  show "file_contents v' ?F m = file_contents v F m" if "m \<noteq> n"
    using oth(2) that by (cases "F m") (auto simp: file_contents_def)
qed

text \<open>A slot is taken: a new empty file, and the others are what they were.\<close>

lemma empty_inode_in:
  assumes "geometry_ok N fs ino" "length (slice_at (ino_block_offset ino) 128 (v (ino_block_id ino))) = 128" "di_size f = 0" "indirect2 f = 0"
    and "from_mem DiskInode (slice_at (ino_block_offset ino) 128 (v (ino_block_id ino))) = Some f"
  shows "inode_in N fs ino v f" "used_ids v f = []" "file_bytes v f = []"
proof -
  have "length (slice_at (ino_block_offset ino) 128 (v (ino_block_id ino))) = size_of DiskInode" using assms(2) by simp
  note iv = inode_repr.from_mem_valid [OF assms(5) this]
  have z: "data_blocks f = 0" using assms(3) by (simp add: data_blocks_def data_blocks_of_def BLOCK_SZ_def)
  show u: "used_ids v f = []" using z by (simp add: used_ids_def data_ids_def meta_ids_def)
  show "inode_in N fs ino v f" using assms iv u by (simp add: inode_in_def wf_inode_def marked_def)
  show "file_bytes v f = []" using assms(3) by (simp add: file_bytes_def)
qed

lemma slot_taken:
  assumes files: "fs_files N fs v F" and i: "first_free v (inode_bitmap fs) = Some i" and made: "slot_made fs v i (slot_of fs i) v'"
    and new: "inode_in N fs (slot_of fs i) v' f" "used_ids v' f = []"
  shows "fs_files N fs v' (F(i \<mapsto> f))" "F i = None" "m \<noteq> i \<Longrightarrow> file_contents v' (F(i \<mapsto> f)) m = file_contents v F m" "v' 0 = v 0"
proof -
  let ?i = "inode_bitmap fs" and ?F = "F(i \<mapsto> f)"
  note fd = fs_filesD [OF files]
  have im: "i < bitmap_maximum ?i" "\<not> bit_set v ?i i" using first_free_cases [where v = v and bm = ?i] i by auto
  show F: "F i = None" using im(2) fd(2) [of i] by (cases "F i") auto
  note gi = shapeD [OF fd(1) im(1)]
  from made have sm: "\<And>b. b < start_block_id ?i \<or> start_block_id ?i + blocks ?i \<le> b \<Longrightarrow> b \<noteq> ino_block_id (slot_of fs i) \<Longrightarrow> v' b = v b"
      "same_slots (slot_of fs i) v v'" "\<And>c. c < bitmap_maximum ?i \<Longrightarrow> bit_set v' ?i c \<longleftrightarrow> bit_set v ?i c \<or> c = i"
    by (auto simp: slot_made_def)
  have "0 < start_block_id ?i" using fd(1) by (simp add: fs_shape_def)
  then show "v' 0 = v 0" using gi(2) by (intro sm(1)) auto
  have high: "v' b = v b" if "start_block_id (data_bitmap fs) \<le> b" for b
    using that gi(1,2) by (intro sm(1)) (auto simp: geometry_ok_def)
  have sl: "slot_bytes fs v' m = slot_bytes fs v m" if m: "m < bitmap_maximum ?i" "m \<noteq> i" for m
    unfolding slot_bytes_def
    by (rule other_slot [OF sm(2) gi(3) [OF m]]) (use shapeD(1,2) [OF fd(1) m(1)] sm(1) in \<open>auto simp: geometry_ok_def\<close>)
  have oth: "inode_in N fs (slot_of fs m) v' e" "file_bytes v' e = file_bytes v e" "used_ids v' e = used_ids v e" if "F m = Some e" for m e
  proof -
    have m: "m < bitmap_maximum ?i" "m \<noteq> i" "inode_in N fs (slot_of fs m) v e" using fd(2) [OF that] that F by auto
    from inode_in_cong [where v' = v', OF m(3) high] sl [OF m(1,2)]
    show "inode_in N fs (slot_of fs m) v' e" "file_bytes v' e = file_bytes v e" "used_ids v' e = used_ids v e"
      by (simp_all add: slot_bytes_def)
  qed
  show "fs_files N fs v' ?F"
    unfolding fs_files_def
  proof (intro conjI allI impI)
    show "fs_shape N fs" by (rule fd(1))
    fix m e assume m: "?F m = Some e"
    show lt: "m < bitmap_maximum ?i" using m fd(2) im by (auto split: if_splits)
    show "bit_set v' ?i m" using m fd(2) sm(3) [OF lt] by (auto split: if_splits)
    show "inode_in N fs (slot_of fs m) v' e" using m new oth(1) by (auto split: if_splits)
    fix l g assume l: "?F l = Some g" "m \<noteq> l"
    show "set (used_ids v' e) \<inter> set (used_ids v' g) = {}"
      using m l new(2) fd(3) [of m e l g] by (auto simp: oth(3) split: if_splits)
  next
    fix m assume m: "m < bitmap_maximum ?i"
    show "from_mem DiskInode (slot_bytes fs v' m) \<noteq> None"
      using sl [OF m] fd(4) [OF m] new(1) by (cases "m = i") (auto simp: inode_in_def slot_bytes_def)
  qed
  show "file_contents v' ?F m = file_contents v F m" if "m \<noteq> i"
    using oth(2) that by (cases "F m") (auto simp: file_contents_def)
qed

section \<open>Operations on one file\<close>

text \<open>
  What an operation does to the rest of the disk: the next \<open>k\<close> free data blocks and the inodes \<open>I\<close> are taken, the files
  outside \<open>S\<close> and the super block are unchanged.
\<close>

definition advances :: "efs \<Rightarrow> nat \<Rightarrow> nat set \<Rightarrow> nat set \<Rightarrow> (nat \<Rightarrow> bytes) \<Rightarrow> (nat \<rightharpoonup> disk_inode) \<Rightarrow> (nat \<Rightarrow> bytes) \<Rightarrow> (nat \<rightharpoonup> disk_inode) \<Rightarrow> bool" where
  "advances fs k I S v F v' F' \<longleftrightarrow>
     free_bits v' (data_bitmap fs) = drop k (free_bits v (data_bitmap fs)) \<and>
     (\<forall>c<bitmap_maximum (inode_bitmap fs). bit_set v' (inode_bitmap fs) c \<longleftrightarrow> bit_set v (inode_bitmap fs) c \<or> c \<in> I) \<and>
     (\<forall>m. m \<notin> S \<longrightarrow> file_contents v' F' m = file_contents v F m) \<and> v' 0 = v 0"

lemma advances_trans:
  "advances fs k I S v F v' F' \<Longrightarrow> advances fs l J T v' F' v'' F'' \<Longrightarrow> advances fs (k + l) (I \<union> J) (S \<union> T) v F v'' F''"
  by (auto simp: advances_def add.commute)

lemma advances_room: "advances fs k I S v F v' F' \<Longrightarrow> has_room N fs v (k + m) \<Longrightarrow> has_room N fs v' m"
  by (auto simp: advances_def has_room_def take_drop add.commute dest: in_set_dropD)

lemma has_room_le: "has_room N fs v k \<Longrightarrow> m \<le> k \<Longrightarrow> has_room N fs v m"
  by (auto simp: has_room_def) (metis set_take_subset_set_take subsetD)

context block_dev
begin

text \<open>\<open>Inode::write_at\<close> changes one file.\<close>

lemma write_one_file:
  assumes s: "st Map.empty v s" and files: "fs_files nblocks fs v F" and n: "F n = Some d"
    and sz: "off + length buf \<le> INDIRECT2_BOUND * BLOCK_SZ"
    and room: "has_room nblocks fs v (blocks_for (unat (data_blocks_of (of_nat (off + length buf)))) - blocks_for (unat (data_blocks d)))"
  shows "\<exists>s' v' d'. vfs_write_at bd fs (slot_of fs n) off buf s = Some (length buf, s') \<and> st Map.empty v' s' \<and> contents (device s') = v' \<and>
    fs_files nblocks fs v' (F(n \<mapsto> d')) \<and> di_type d' = di_type d \<and> overwritten (file_bytes v d) off buf (file_bytes v' d') \<and>
    advances fs (blocks_for (unat (data_blocks_of (max (di_size d) (of_nat (off + length buf))))) - blocks_for (unat (data_blocks d)))
      {} {n} v F v' (F(n \<mapsto> d'))"
proof -
  have "inode_in nblocks fs (slot_of fs n) v d" using fs_filesD(2) [OF files n] by simp
  from vfs_write_ok [OF s this sz room] obtain s' v' d' where
    w: "vfs_write_at bd fs (slot_of fs n) off buf s = Some (length buf, s')" "st Map.empty v' s'" "contents (device s') = v'"
      "inode_in nblocks fs (slot_of fs n) v' d'" "di_type d' = di_type d" "overwritten (file_bytes v d) off buf (file_bytes v' d')"
      "same_outside (insert (ino_block_id (slot_of fs n)) (touched fs v' d')) v v'"
      "gains fs (blocks_for (unat (data_blocks_of (max (di_size d) (of_nat (off + length buf))))) - blocks_for (unat (data_blocks d))) v d v' d'"
      "same_slots (slot_of fs n) v v'" by blast
  note c = one_file_changes [OF files n w(4,7,8,9)]
  have "advances fs (blocks_for (unat (data_blocks_of (max (di_size d) (of_nat (off + length buf))))) - blocks_for (unat (data_blocks d)))
      {} {n} v F v' (F(n \<mapsto> d'))"
    using w(8) c(2-4) by (simp add: advances_def gains_def)
  with w(1-3,5,6) c(1) show ?thesis by blast
qed

text \<open>\<open>Inode::create\<close> adds a file and changes its directory.\<close>

lemma create_one_file:
  assumes s: "st Map.empty v s" and files: "fs_files nblocks fs v F" and r: "F r = Some d"
    and dir: "is_dir d" "names_ok (dir_entries v d)" "unat (di_size d) mod 32 = 0" "unat (di_size d) + 32 \<le> INDIRECT2_BOUND * BLOCK_SZ"
    and i: "first_free v (inode_bitmap fs) = Some i" and none: "lookup_name nm (dir_entries v d) = None"
    and nm: "0 \<notin> set nm" "from_utf8_ok nm" "length nm \<le> NAME_LENGTH_LIMIT"
  defines "k \<equiv> blocks_for (unat (data_blocks_of (of_nat (unat (di_size d) + 32)))) - blocks_for (unat (data_blocks d))"
  assumes room: "has_room nblocks fs v k"
  shows "\<exists>s' v' d' e f. vfs_create bd fs (slot_of fs r) nm s = Some (Some (slot_of fs i), s') \<and> st Map.empty v' s' \<and> contents (device s') = v' \<and>
    fs_files nblocks fs v' (F(i \<mapsto> f, r \<mapsto> d')) \<and> is_dir d' \<and> unat (di_size d') = unat (di_size d) + 32 \<and>
    dir_entries v' d' = dir_entries v d @ [e] \<and> name e = Some nm \<and> inode_number e = of_nat i \<and>
    F i = None \<and> is_file f \<and> di_size f = 0 \<and> advances fs k {i} {r, i} v F v' (F(i \<mapsto> f, r \<mapsto> d'))"
proof -
  let ?i = "inode_bitmap fs" and ?si = "slot_of fs i" and ?sr = "slot_of fs r"
  note fd = fs_filesD [OF files]
  have im: "i < bitmap_maximum ?i" "\<not> bit_set v ?i i" using first_free_cases [where v = v and bm = ?i] i by auto
  note rr = fd(2) [OF r]
  have ri: "r \<noteq> i" using rr im(2) by auto
  note gi = shapeD [OF fd(1) im(1)] and gr = shapeD [OF fd(1), of r]
  have "create_pre nblocks fs ?sr v d i ?si"
    unfolding create_pre_def new_slot_def
    using rr dir i gi(1,2) gi(3) [of r] gr(2) ri fd(1) fd(4) [OF im(1)] room
    by (auto simp: fs_shape_def slots_apart_def slot_bytes_def slot_of_def k_def)
  from vfs_create_ok [OF s this none nm, folded k_def] obtain s' v' d' e f v2 where
    c: "vfs_create bd fs ?sr nm s = Some (Some ?si, s')" "st Map.empty v' s'" "contents (device s') = v'"
      "inode_in nblocks fs ?sr v' d'" "is_dir d'" "unat (di_size d') = unat (di_size d) + 32"
      "dir_entries v' d' = dir_entries v d @ [e]" "name e = Some nm" "inode_number e = of_nat i"
      "from_mem DiskInode (slice_at (ino_block_offset ?si) 128 (v' (ino_block_id ?si))) = Some f" "is_file f" "di_size f = 0" "indirect2 f = 0"
      "slot_made fs v i ?si v2" "used_ids v2 d = used_ids v d" "same_outside (insert (ino_block_id ?sr) (touched fs v' d')) v2 v'"
      "gains fs k v2 d v' d'" "same_slots ?sr v2 v'" by blast
  have eq: "slice_at (ino_block_offset ?si) 128 (v' (ino_block_id ?si)) = slice_at (ino_block_offset ?si) 128 (v2 (ino_block_id ?si))"
  proof (rule other_slot [OF c(18)])
    show "slots_apart ?sr ?si" using gr(3) rr im(1) ri by simp
    show "ino_block_offset ?si + 128 \<le> BLOCK_SZ" using gi(1) by (simp add: geometry_ok_def)
    have "ino_block_id ?si \<notin> touched fs v' d'" using c(4) gi(1) by (auto simp: touched_def marked_def geometry_ok_def inode_in_def)
    then show "v' (ino_block_id ?si) = v2 (ino_block_id ?si)" if "ino_block_id ?si \<noteq> ino_block_id ?sr"
      using c(16) that by (simp add: same_outside_def)
  qed
  have "length (v' (ino_block_id ?si)) = BLOCK_SZ" by (rule st_length [OF c(2)]) (use gi(1) in \<open>auto simp: geometry_ok_def\<close>)
  then have "length (slice_at (ino_block_offset ?si) 128 (v2 (ino_block_id ?si))) = 128" using gi(1) by (simp flip: eq add: geometry_ok_def BLOCK_SZ_def)
  note new = empty_inode_in [where v = v2, OF gi(1) this c(12,13) c(10) [unfolded eq]]
  note t = slot_taken [OF files i c(14) new(1,2)]
  have "(F(i \<mapsto> f)) r = Some d" using r ri by simp
  note o = one_file_changes [OF t(1) this c(4,16,17,18)]
  have "free_bits v2 (data_bitmap fs) = free_bits v (data_bitmap fs)"
    using c(14) gi(1,2) by (intro free_bits_cong bit_set_cong) (auto simp: slot_made_def geometry_ok_def)
  moreover have "file_contents v' (F(i \<mapsto> f, r \<mapsto> d')) m = file_contents v F m" if "m \<notin> {r, i}" for m
    by (rule trans [OF o(2) t(3)]) (use that in auto)
  ultimately have "advances fs k {i} {r, i} v F v' (F(i \<mapsto> f, r \<mapsto> d'))"
    using c(14,17) o(3,4) t(4) by (simp add: advances_def gains_def slot_made_def)
  then show ?thesis using c(1-3,5-9,11,12) o(1) t(2) by blast
qed

end

section \<open>A formatted disk\<close>

lemma root_slot: "root_inode fs = slot_of fs 0"
  by (simp add: slot_of_def root_inode_def split: prod.split)

lemma formatted_files:
  assumes fit: "layout_fits tb ib" and ib: "unat ib * 4096 \<le> 2 ^ 32" and fmt: "formatted tb ib v" and N: "unat tb \<le> N" "N \<le> 2 ^ 32"
    and len: "length (v (1 + unat ib)) = BLOCK_SZ"
  shows "\<exists>d. fs_files N (fresh_fs tb ib) v [0 \<mapsto> d] \<and> is_dir d \<and> di_size d = 0 \<and> dir_entries v d = [] \<and> file_bytes v d = [] \<and> data_blocks d = 0"
proof -
  let ?fs = "fresh_fs tb ib" and ?r = "1 + unat ib"
  note lay = fresh_fs_layout [OF fit]
  have f: "0 < unat ib" "1 + unat ib * 1025 \<le> unat tb" using fit by (simp_all add: layout_fits_def)
  have mx: "bitmap_maximum (inode_bitmap ?fs) = unat ib * 4096" using lay(2) by (simp add: bitmap_maximum_def)
  from formatted_root [OF fit fmt N len] obtain d where d: "inode_in N ?fs (root_inode ?fs) v d" "is_dir d" "di_size d = 0"
    "dir_entries v d = []" "file_bytes v d = []" "data_blocks d = 0" by blast
  note root = root_slot [of ?fs, symmetric]
  obtain ia it db da where eq: "area_sizes tb ib = (ia, it, db, da)" by (metis prod_cases4)
  have bits: "bit_set v (inode_bitmap ?fs) 0" and z: "slice_at 128 384 (v ?r) = replicate 384 0"
    and zero: "\<And>b. ?r < b \<Longrightarrow> b < unat tb \<Longrightarrow> v b = zero_block"
    using fmt f mx unfolding formatted_def eq Let_def prod.case by simp_all
  have "from_mem DiskInode (slot_bytes ?fs v n) \<noteq> None" if n: "n < unat ib * 4096" for n
  proof (cases "n = 0")
    case True
    then show ?thesis using d(1) root by (simp add: slot_bytes_def inode_in_def)
  next
    case False
    note sl = fresh_slot [OF fit _ ib, of n, unfolded mx, OF n]
    have "slot_bytes ?fs v n = replicate 128 0"
    proof (cases "n div 4 = 0")
      case True
      then have m: "n mod 4 = n" "n < 4" by auto
      have "slot_bytes ?fs v n = slice_at ((n - 1) * 128) 128 (slice_at 128 384 (v ?r))"
        using sl True m False by (simp add: slot_bytes_def slice_slice diff_mult_distrib)
      also have "\<dots> = replicate 128 0" unfolding z using m False by (simp add: slice_at_def)
      finally show ?thesis .
    next
      case F: False
      have "n div 4 < unat ib * 1024" using n by (simp add: less_mult_imp_div_less)
      then have "v (ino_block_id (slot_of ?fs n)) = zero_block" using sl F f by (intro zero) auto
      moreover have "n mod 4 * 128 + 128 \<le> 512" using mod_less_divisor [of 4 n] by simp
      ultimately show ?thesis using sl by (simp add: slot_bytes_def slice_at_def zero_block_def BLOCK_SZ_def)
    qed
    also have "\<dots> = slice_at 0 128 zero_block" by (simp add: slice_at_def zero_block_def BLOCK_SZ_def)
    finally show ?thesis using zero_inode by simp
  qed
  then have "fs_files N ?fs v [0 \<mapsto> d]"
    using fresh_shape [OF fit ib N] bits d(1) root f mx by (auto simp: fs_files_def split: if_splits)
  with d show ?thesis by blast
qed

section \<open>Properties\<close>

text \<open>
  C6. Files are independent. On a disk that holds the files \<open>F\<close>, well-formed and with no block in common, a write through
  \<open>Inode::write_at\<close> to file \<open>n\<close>, within the size limit and with room in the data area, refines an update of the map from
  inode numbers to contents: the device then holds the same files, still well-formed and with no block in common, the content
  of \<open>n\<close> is the old one with the buffer written at the offset, and the content of every other file is what it was.
\<close>

theorem files_independent:
  assumes "cache_state file_block (\<lambda>f. length f = N * BLOCK_SZ) N Map.empty v s" and "fs_files N fs v F" "F n = Some d"
    and "off + length buf \<le> INDIRECT2_BOUND * BLOCK_SZ"
    and "has_room N fs v (blocks_for (unat (data_blocks_of (of_nat (off + length buf)))) - blocks_for (unat (data_blocks d)))"
  shows "\<exists>s' d' new. vfs_write_at BlockFile fs (slot_of fs n) off buf s = Some (length buf, s') \<and>
    fs_files N fs (file_block (device s')) (F(n \<mapsto> d')) \<and> overwritten (file_bytes v d) off buf new \<and>
    file_contents (file_block (device s')) (F(n \<mapsto> d')) = (file_contents v F)(n \<mapsto> new)"
proof -
  from bf.write_one_file [OF assms] obtain s' v' d' where
    w: "vfs_write_at BlockFile fs (slot_of fs n) off buf s = Some (length buf, s')" "file_block (device s') = v'"
      "fs_files N fs v' (F(n \<mapsto> d'))" "overwritten (file_bytes v d) off buf (file_bytes v' d')"
      "\<And>m. m \<noteq> n \<Longrightarrow> file_contents v' (F(n \<mapsto> d')) m = file_contents v F m" unfolding advances_def by blast
  have "file_contents v' (F(n \<mapsto> d')) = (file_contents v F)(n \<mapsto> file_bytes v' d')"
    by (rule ext) (use w(5) in \<open>auto simp: file_contents_def\<close>)
  with w show ?thesis by blast
qed

text \<open>A disk with two files: the root directory and a new file in it.\<close>

lemma sample_files:
  "\<exists>s v F d f. cache_state file_block (\<lambda>f. length f = 1100 * BLOCK_SZ) 1100 Map.empty v s \<and> fs_files 1100 (fresh_fs 1100 1) v F \<and>
    F 0 = Some d \<and> di_size d = 32 \<and> F 1 = Some f \<and> di_size f = 0 \<and> has_room 1100 (fresh_fs 1100 1) v 1"
proof -
  let ?fs = "fresh_fs 1100 1"
  from sample_disk obtain s v d where
    c: "cache_state file_block (\<lambda>f. length f = 1100 * BLOCK_SZ) 1100 Map.empty v s" "formatted 1100 1 v"
      "inode_in 1100 ?fs (root_inode ?fs) v d" "is_dir d" "di_size d = 0"
      "dir_entries v d = []" "data_blocks d = 0" "has_room 1100 ?fs v 1" by blast
  have fit: "layout_fits 1100 1" by (simp add: layout_fits_def)
  have len: "length (v (1 + unat (1 :: u32))) = BLOCK_SZ" by (rule bf.st_length [OF c(1)]) simp
  from formatted_files [OF fit _ c(2) _ _ len, of 1100] obtain d0 where d0: "fs_files 1100 ?fs v [0 \<mapsto> d0]"
    "is_dir d0" "di_size d0 = 0" "dir_entries v d0 = []" "data_blocks d0 = 0" by auto
  have i: "first_free v (inode_bitmap ?fs) = Some 1" using sample_create_pre [OF c] by (simp add: create_pre_def new_slot_def)
  have k: "blocks_for (unat (data_blocks_of (of_nat (unat (di_size d0) + 32)))) - blocks_for (unat (data_blocks d0)) = 1"
    using d0 by (simp add: data_blocks_of_def BLOCK_SZ_def blocks_for_def)
  have room: "has_room 1100 ?fs v (1 + 1)"
    by (rule formatted_room [OF fit c(2)]) (use fresh_fs_layout(5,6) [OF fit] in \<open>simp_all add: bitmap_maximum_def\<close>)
  have r0: "([0 \<mapsto> d0]) 0 = Some d0" by simp
  have pre: "names_ok (dir_entries v d0)" "unat (di_size d0) mod 32 = 0" "unat (di_size d0) + 32 \<le> INDIRECT2_BOUND * BLOCK_SZ"
    "lookup_name [97] (dir_entries v d0) = None" "0 \<notin> set [97 :: u8]" "from_utf8_ok [97]" "length [97 :: u8] \<le> NAME_LENGTH_LIMIT"
    using d0(3,4) by (simp_all add: names_ok_def BLOCK_SZ_def)
  have "has_room 1100 ?fs v 1" by (rule has_room_le [OF room]) simp
  from bf.create_one_file [OF c(1) d0(1) r0 d0(2) pre(1-3) i pre(4-7), unfolded k, OF this]
  obtain s' v' d' f where r: "cache_state file_block (\<lambda>f. length f = 1100 * BLOCK_SZ) 1100 Map.empty v' s'"
    "fs_files 1100 ?fs v' ([0 \<mapsto> d0, 1 \<mapsto> f, 0 \<mapsto> d'])" "unat (di_size d') = unat (di_size d0) + 32" "di_size f = 0"
    "advances ?fs 1 {1} {0, 1} v [0 \<mapsto> d0] v' ([0 \<mapsto> d0, 1 \<mapsto> f, 0 \<mapsto> d'])" by blast
  have "di_size d' = 32" using r(3) d0(3) by (simp add: word_unat_eq_iff)
  with r advances_room [OF r(5) room] show ?thesis by fastforce
qed

theorem files_independent_witness:
  "\<exists>s v F d f s' d' new. F 0 = Some d \<and> di_size d = 32 \<and> F 1 = Some f \<and>
    vfs_write_at BlockFile (fresh_fs 1100 1) (slot_of (fresh_fs 1100 1) 1) 0 [1, 2, 3] s = Some (length [1 :: u8, 2, 3], s') \<and>
    fs_files 1100 (fresh_fs 1100 1) (file_block (device s')) (F(1 \<mapsto> d')) \<and> overwritten (file_bytes v f) 0 [1, 2, 3] new \<and>
    file_contents (file_block (device s')) (F(1 \<mapsto> d')) = (file_contents v F)(1 \<mapsto> new)"
proof -
  from sample_files obtain s v F d f where
    c: "cache_state file_block (\<lambda>f. length f = 1100 * BLOCK_SZ) 1100 Map.empty v s" "fs_files 1100 (fresh_fs 1100 1) v F"
      "F 0 = Some d" "di_size d = 32" "F 1 = Some f" "di_size f = 0" "has_room 1100 (fresh_fs 1100 1) v 1" by blast
  have "has_room 1100 (fresh_fs 1100 1) v
      (blocks_for (unat (data_blocks_of (of_nat (0 + length [1 :: u8, 2, 3])))) - blocks_for (unat (data_blocks f)))"
    using c(6,7) by (simp add: data_blocks_def data_blocks_of_def BLOCK_SZ_def blocks_for_def)
  moreover have "0 + length [1 :: u8, 2, 3] \<le> INDIRECT2_BOUND * BLOCK_SZ" by (simp add: BLOCK_SZ_def)
  ultimately show ?thesis using files_independent [OF c(1,2,5)] c(3-5) by blast
qed

end
