(* ===== verification/Packer.thy ===== *)
theory Packer
  imports VfsFiles
begin

text \<open>
  The program that builds the disk image of the kernel, \<^verbatim>\<open>easy-fs-fuse/src/main.rs\<close>: it formats an image and
  copies each application into a file of the root directory. The file system of the host is a parameter: the names of the
  source directory, and what opening and reading a path gives (\<open>None\<close> where it fails, on which the program panics).
\<close>

section \<open>The program\<close>

text \<open>\<open>File::set_len\<close>, and the name of an application: a file name up to its first dot; one without a dot is a panic.\<close>

definition set_len :: "nat \<Rightarrow> bytes \<Rightarrow> bytes" where
  "set_len n f = take n f @ replicate (n - length f) 0"

definition app_name :: "bytes \<Rightarrow> bytes option" where
  "app_name nm = do { assert_that (from_utf8_ok nm); assert_that (46 \<in> set nm); Some (takeWhile (\<lambda>c. c \<noteq> 46) nm) }"

fun pack_apps :: "'d block_device \<Rightarrow> (bytes \<Rightarrow> bytes option) \<Rightarrow> bytes \<Rightarrow> efs \<Rightarrow> inode \<Rightarrow> bytes list \<Rightarrow> 'd bcm \<Rightarrow> 'd bcm option" where
  "pack_apps bd host target_path fs root [] s = Some s"
| "pack_apps bd host target_path fs root (app # apps) s =
     do { all_data \<leftarrow> host (target_path @ app);
          (r, s) \<leftarrow> vfs_create bd fs root app s;
          inode \<leftarrow> r;
          (_, s) \<leftarrow> vfs_write_at bd fs inode 0 all_data s;
          pack_apps bd host target_path fs root apps s }"

definition easy_fs_pack :: "(bytes \<Rightarrow> bytes option) \<Rightarrow> bytes \<Rightarrow> bytes list \<Rightarrow> bytes \<Rightarrow> bytes bcm option" where
  "easy_fs_pack host target_path names img =
     do { let img = set_len (16 * 2048 * 512) img;
          (fs, s) \<leftarrow> efs_create BlockFile (16 * 2048) 1 (BlockCacheManager_new img);
          let root = root_inode fs;
          apps \<leftarrow> those (map app_name names);
          pack_apps BlockFile host target_path fs root apps s }"

section \<open>A packed disk\<close>

text \<open>
  The blocks a file of \<open>n\<close> bytes takes, and what packing files of the given lengths takes when the directory has
  \<open>k\<close> entries.
\<close>

definition file_blocks :: "nat \<Rightarrow> nat" where
  "file_blocks n = blocks_for (unat (data_blocks_of (of_nat n)))"

fun pack_need :: "nat \<Rightarrow> nat list \<Rightarrow> nat" where
  "pack_need k [] = 0"
| "pack_need k (n # ns) = (file_blocks (32 * k + 32) - file_blocks (32 * k)) + (file_blocks n + pack_need (Suc k) ns)"

text \<open>The files \<open>fl\<close>, names with their contents, are those of the root directory, in the inodes from 1 on.\<close>

definition packed :: "nat \<Rightarrow> efs \<Rightarrow> (bytes \<times> bytes) list \<Rightarrow> (nat \<Rightarrow> bytes) \<Rightarrow> (nat \<rightharpoonup> disk_inode) \<Rightarrow> bool" where
  "packed N fs fl v F \<longleftrightarrow> fs_files N fs v F \<and>
     (\<exists>d. F 0 = Some d \<and> is_dir d \<and> unat (di_size d) = 32 * length fl \<and>
        map name (dir_entries v d) = map (\<lambda>x. Some (fst x)) fl \<and> map inode_number (dir_entries v d) = map of_nat [1..<Suc (length fl)]) \<and>
     (\<forall>c<bitmap_maximum (inode_bitmap fs). bit_set v (inode_bitmap fs) c \<longleftrightarrow> c \<le> length fl) \<and>
     (\<forall>j<length fl. file_contents v F (Suc j) = Some (snd (fl ! j)))"

text \<open>An application the loop can copy: a name that fits a directory entry, a host file that can be read and is within the size limit.\<close>

definition app_ok :: "(bytes \<Rightarrow> bytes option) \<Rightarrow> bytes \<Rightarrow> bytes \<Rightarrow> bool" where
  "app_ok host target_path app \<longleftrightarrow> 0 \<notin> set app \<and> from_utf8_ok app \<and> length app \<le> NAME_LENGTH_LIMIT \<and>
     (case host (target_path @ app) of None \<Rightarrow> False | Some data \<Rightarrow> length data \<le> INDIRECT2_BOUND * BLOCK_SZ)"

definition app_data :: "(bytes \<Rightarrow> bytes option) \<Rightarrow> bytes \<Rightarrow> bytes \<Rightarrow> bytes" where
  "app_data host target_path app = the (host (target_path @ app))"

lemma lookup_none: "lookup_name nm es = None \<longleftrightarrow> Some nm \<notin> set (map name es)"
  by (induction es) auto

lemma names_listed:
  assumes "map name es = map (\<lambda>x. Some (fst x)) fl"
  shows "names_ok es" "map (\<lambda>e. the (name e)) es = map fst fl" "lookup_name nm es = None \<longleftrightarrow> nm \<notin> fst ` set fl"
proof -
  have "map the (map name es) = map the (map (\<lambda>x. Some (fst x)) fl)" by (rule arg_cong [OF assms])
  then show "map (\<lambda>e. the (name e)) es = map fst fl" by (simp add: comp_def)
  have "None \<notin> set (map name es)" unfolding assms by auto
  then show "names_ok es" by (force simp: names_ok_def)
  show "lookup_name nm es = None \<longleftrightarrow> nm \<notin> fst ` set fl" unfolding lookup_none assms by auto
qed

lemma lookup_listed:
  assumes "map name es = map (\<lambda>x. Some (fst x)) fl" "distinct (map fst fl)" "j < length fl"
  shows "lookup_name (fst (fl ! j)) es = Some (inode_number (es ! j))"
  using assms
proof (induction es arbitrary: fl j)
  case (Cons e es)
  then obtain x xs where fl: "fl = x # xs" "name e = Some (fst x)" "map name es = map (\<lambda>x. Some (fst x)) xs" by (auto simp: Cons_eq_map_conv)
  show ?case
  proof (cases j)
    case (Suc i)
    then have "fst (xs ! i) \<noteq> fst x" using Cons.prems fl by (metis distinct.simps(2) length_map list.simps(9) nth_map nth_mem length_Cons Suc_less_eq)
    then show ?thesis using Cons.IH [OF fl(3), of i] Cons.prems fl Suc by simp
  qed (use fl in simp)
qed simp

lemma overwritten_empty: "overwritten [] 0 buf new \<Longrightarrow> new = buf"
  by (simp add: overwritten_def slice_at_def) (metis order_refl take_all)

lemma dir_entries_eq: "file_bytes v' d = file_bytes v d \<Longrightarrow> dir_entries v' d = dir_entries v d"
  by (simp add: dir_entries_def dir_entry_at_def)

lemma packed_free:
  assumes "packed N fs fl v F" "Suc (length fl) < bitmap_maximum (inode_bitmap fs)"
  shows "first_free v (inode_bitmap fs) = Some (Suc (length fl))"
  unfolding first_free_def by (rule find_upt_eqI) (use assms in \<open>auto simp: packed_def\<close>)

section \<open>Packing\<close>

context block_dev
begin

text \<open>One round of the loop: the file is created in the next inode and written.\<close>

lemma pack_one:
  assumes s: "st Map.empty v s" and pk: "packed nblocks fs fl v F" and new: "nm \<notin> fst ` set fl"
    and nm: "0 \<notin> set nm" "from_utf8_ok nm" "length nm \<le> NAME_LENGTH_LIMIT"
    and sz: "length buf \<le> INDIRECT2_BOUND * BLOCK_SZ" "32 * length fl + 32 \<le> INDIRECT2_BOUND * BLOCK_SZ"
    and free: "Suc (length fl) < bitmap_maximum (inode_bitmap fs)"
    and room: "has_room nblocks fs v (file_blocks (32 * length fl + 32) - file_blocks (32 * length fl) + (file_blocks (length buf) + k))"
  shows "\<exists>s1 s2 v' F'. vfs_create bd fs (slot_of fs 0) nm s = Some (Some (slot_of fs (Suc (length fl))), s1) \<and>
    vfs_write_at bd fs (slot_of fs (Suc (length fl))) 0 buf s1 = Some (length buf, s2) \<and> st Map.empty v' s2 \<and> contents (device s2) = v' \<and>
    packed nblocks fs (fl @ [(nm, buf)]) v' F' \<and> has_room nblocks fs v' k \<and> v' 0 = v 0"
proof -
  let ?n = "Suc (length fl)" and ?a = "file_blocks (32 * length fl + 32) - file_blocks (32 * length fl)" and ?b = "file_blocks (length buf)"
  from pk obtain d where files: "fs_files nblocks fs v F"
    and d: "F 0 = Some d" "is_dir d" "unat (di_size d) = 32 * length fl"
      "map name (dir_entries v d) = map (\<lambda>x. Some (fst x)) fl" "map inode_number (dir_entries v d) = map of_nat [1..<Suc (length fl)]"
    and bits: "\<And>c. c < bitmap_maximum (inode_bitmap fs) \<Longrightarrow> bit_set v (inode_bitmap fs) c \<longleftrightarrow> c \<le> length fl"
    and old: "\<And>j. j < length fl \<Longrightarrow> file_contents v F (Suc j) = Some (snd (fl ! j))"
    by (auto simp: packed_def)
  note nl = names_listed [OF d(4)]
  have "di_size d = of_nat (32 * length fl)" using arg_cong [OF d(3), of "of_nat :: nat \<Rightarrow> u32"] by simp
  then have a: "blocks_for (unat (data_blocks_of (of_nat (unat (di_size d) + 32)))) - blocks_for (unat (data_blocks d)) = ?a"
    using d(3) by (simp add: file_blocks_def data_blocks_def)
  have ra: "has_room nblocks fs v ?a" by (rule has_room_le [OF room]) simp
  from create_one_file [OF s files d(1,2) nl(1) _ _ packed_free [OF pk free] _ nm, unfolded a] ra nl(3) new sz(2) d(3)
  obtain s1 v1 d1 e f where
    c: "vfs_create bd fs (slot_of fs 0) nm s = Some (Some (slot_of fs ?n), s1)" "st Map.empty v1 s1"
      "fs_files nblocks fs v1 (F(?n \<mapsto> f, 0 \<mapsto> d1))" "is_dir d1" "unat (di_size d1) = 32 * length fl + 32"
      "dir_entries v1 d1 = dir_entries v d @ [e]" "name e = Some nm" "inode_number e = of_nat ?n" "di_size f = 0"
      "advances fs ?a {?n} {0, ?n} v F v1 (F(?n \<mapsto> f, 0 \<mapsto> d1))" by auto
  let ?F = "F(?n \<mapsto> f, 0 \<mapsto> d1)"
  have f: "?F ?n = Some f" "data_blocks f = 0" "file_bytes v1 f = []" 
    using c(9) by (simp_all add: data_blocks_def data_blocks_of_def BLOCK_SZ_def file_bytes_def)
  have b: "blocks_for (unat (data_blocks_of (of_nat (0 + length buf)))) - blocks_for (unat (data_blocks f)) = ?b"
      "blocks_for (unat (data_blocks_of (max (di_size f) (of_nat (0 + length buf))))) - blocks_for (unat (data_blocks f)) = ?b"
    using f(2) c(9) by (simp_all add: file_blocks_def blocks_for_def)
  have r1: "has_room nblocks fs v1 (?b + k)" by (rule advances_room [OF c(10) room])
  have rb: "has_room nblocks fs v1 ?b" by (rule has_room_le [OF r1]) simp
  have sb: "0 + length buf \<le> INDIRECT2_BOUND * BLOCK_SZ" using sz(1) by simp
  from write_one_file [OF c(2,3) f(1) sb, unfolded b, OF rb] obtain s2 v2 f2 where
    w: "vfs_write_at bd fs (slot_of fs ?n) 0 buf s1 = Some (length buf, s2)" "st Map.empty v2 s2" "contents (device s2) = v2"
      "fs_files nblocks fs v2 (?F(?n \<mapsto> f2))" "overwritten (file_bytes v1 f) 0 buf (file_bytes v2 f2)"
      "advances fs ?b {} {?n} v1 ?F v2 (?F(?n \<mapsto> f2))" by blast
  let ?G = "?F(?n \<mapsto> f2)"
  have adv: "advances fs (?a + ?b) {?n} {0, ?n} v F v2 ?G" using advances_trans [OF c(10) w(6)] by (simp add: insert_commute)
  have fb: "file_contents v2 ?G ?n = Some buf" using overwritten_empty w(5) f(3) by (simp add: file_contents_def)
  have "file_contents v2 ?G 0 = file_contents v1 ?F 0" using w(6) by (simp add: advances_def)
  then have "dir_entries v2 d1 = dir_entries v d @ [e]" using c(6) dir_entries_eq [of v2 d1 v1] by (simp add: file_contents_def)
  moreover have "file_contents v2 ?G (Suc j) = Some (snd ((fl @ [(nm, buf)]) ! j))" if j: "j < Suc (length fl)" for j
  proof (cases "j < length fl")
    case True
    then have "file_contents v2 ?G (Suc j) = file_contents v F (Suc j)" using adv unfolding advances_def by (metis Suc_inject insertE less_irrefl nat.distinct(1) singletonD)
    then show ?thesis using old [OF True] True by (simp add: nth_append)
  next
    case False
    then show ?thesis using j fb by (simp add: less_Suc_eq)
  qed
  moreover have "bit_set v2 (inode_bitmap fs) c \<longleftrightarrow> c \<le> Suc (length fl)" if "c < bitmap_maximum (inode_bitmap fs)" for c
    using adv bits [OF that] that by (auto simp: advances_def)
  ultimately have "packed nblocks fs (fl @ [(nm, buf)]) v2 ?G" using w(4) c(4,5,7,8) d(4,5) by (simp add: packed_def)
  moreover have "has_room nblocks fs v2 k" by (rule advances_room [OF adv]) (use room in \<open>simp add: add.assoc\<close>)
  moreover have "v2 0 = v 0" using adv by (simp add: advances_def)
  ultimately show ?thesis using c(1) w(1-3) by blast
qed

text \<open>The loop.\<close>

lemma pack_apps_ok:
  assumes "st Map.empty v s" "contents (device s) = v" "packed nblocks fs fl v F"
    and "distinct (map fst fl @ apps)" "\<forall>a\<in>set apps. app_ok host t a"
    and "length fl + length apps < bitmap_maximum (inode_bitmap fs)" "32 * (length fl + length apps) \<le> INDIRECT2_BOUND * BLOCK_SZ"
    and "has_room nblocks fs v (pack_need (length fl) (map (\<lambda>a. length (app_data host t a)) apps))"
  shows "\<exists>s' v' F'. pack_apps bd host t fs (slot_of fs 0) apps s = Some s' \<and> st Map.empty v' s' \<and> contents (device s') = v' \<and>
    packed nblocks fs (fl @ map (\<lambda>a. (a, app_data host t a)) apps) v' F' \<and> v' 0 = v 0"
  using assms
proof (induction apps arbitrary: s v F fl)
  case (Cons a apps)
  let ?d = "app_data host t a"
  have a: "0 \<notin> set a" "from_utf8_ok a" "length a \<le> NAME_LENGTH_LIMIT" "host (t @ a) = Some ?d" "length ?d \<le> INDIRECT2_BOUND * BLOCK_SZ"
    using Cons.prems(5) by (auto simp: app_ok_def app_data_def split: option.splits)
  have "a \<notin> fst ` set fl" using Cons.prems(4) by simp
  moreover have "32 * length fl + 32 \<le> INDIRECT2_BOUND * BLOCK_SZ" "Suc (length fl) < bitmap_maximum (inode_bitmap fs)"
    using Cons.prems(6,7) by simp_all
  ultimately obtain s1 s2 v' F' where
    p: "vfs_create bd fs (slot_of fs 0) a s = Some (Some (slot_of fs (Suc (length fl))), s1)"
      "vfs_write_at bd fs (slot_of fs (Suc (length fl))) 0 ?d s1 = Some (length ?d, s2)" "st Map.empty v' s2" "contents (device s2) = v'"
      "packed nblocks fs (fl @ [(a, ?d)]) v' F'" "has_room nblocks fs v' (pack_need (Suc (length fl)) (map (\<lambda>a. length (app_data host t a)) apps))" "v' 0 = v 0"
    using pack_one [OF Cons.prems(1,3) _ a(1-3,5) _ _ Cons.prems(8) [unfolded list.map pack_need.simps]] by blast
  have "\<exists>s' w G. pack_apps bd host t fs (slot_of fs 0) apps s2 = Some s' \<and> st Map.empty w s' \<and> contents (device s') = w \<and>
      packed nblocks fs ((fl @ [(a, ?d)]) @ map (\<lambda>a. (a, app_data host t a)) apps) w G \<and> w 0 = v' 0"
    by (rule Cons.IH [OF p(3-5)]) (use Cons.prems(4-7) p(6) in auto)
  then show ?case using a(4) p(1,2,7) by simp
qed auto

text \<open>What a packed disk gives back.\<close>

lemma packed_ls:
  assumes "st Map.empty v s" "packed nblocks fs fl v F"
  shows "\<exists>s'. vfs_ls bd (slot_of fs 0) s = Some (map fst fl, s') \<and> st Map.empty v s'"
proof -
  from assms(2) obtain d where d: "inode_in nblocks fs (slot_of fs 0) v d" "map name (dir_entries v d) = map (\<lambda>x. Some (fst x)) fl"
    using fs_filesD(2) by (fastforce simp: packed_def)
  from vfs_ls_ok [OF assms(1) d(1) names_listed(1) [OF d(2)]] show ?thesis by (simp add: names_listed(2) [OF d(2)])
qed

lemma packed_find_read:
  assumes s: "st Map.empty v s" and pk: "packed nblocks fs fl v F" and dis: "distinct (map fst fl)"
    and j: "j < length fl" and out: "length out = length (snd (fl ! j))"
  shows "\<exists>ino s1 s2. vfs_find bd fs (slot_of fs 0) (fst (fl ! j)) s = Some (Some ino, s1) \<and>
    vfs_read_at bd ino 0 out s1 = Some ((length (snd (fl ! j)), snd (fl ! j)), s2)"
proof -
  from pk obtain d where files: "fs_files nblocks fs v F" and d: "F 0 = Some d" "is_dir d"
      "map name (dir_entries v d) = map (\<lambda>x. Some (fst x)) fl" "map inode_number (dir_entries v d) = map of_nat [1..<Suc (length fl)]"
    and fc: "file_contents v F (Suc j) = Some (snd (fl ! j))"
    using j by (auto simp: packed_def)
  have root: "inode_in nblocks fs (slot_of fs 0) v d" using fs_filesD(2) [OF files d(1)] by simp
  have "length (dir_entries v d) = length fl" using arg_cong [OF d(3), of length] by simp
  then have "inode_number (dir_entries v d ! j) = of_nat (Suc j)"
    using arg_cong [OF d(4), of "\<lambda>xs. xs ! j"] j by (simp del: upt_Suc)
  then have lk: "lookup_name (fst (fl ! j)) (dir_entries v d) = Some (of_nat (Suc j))" using lookup_listed [OF d(3) dis j] by simp
  from vfs_find_ok [OF s root d(2) names_listed(1) [OF d(3)], of "fst (fl ! j)"] lk obtain s1 where
    f: "vfs_find bd fs (slot_of fs 0) (fst (fl ! j)) s = Some (Some (slot_of fs (Suc j)), s1)" "st Map.empty v s1"
    by (auto simp: slot_of_def simp del: of_nat_Suc)
  from fc obtain e where e: "F (Suc j) = Some e" "file_bytes v e = snd (fl ! j)" by (auto simp: file_contents_def)
  have ie: "inode_in nblocks fs (slot_of fs (Suc j)) v e" using fs_filesD(2) [OF files e(1)] by simp
  have "unat (di_size e) = length out" using arg_cong [OF e(2), of length] out by simp
  with vfs_read_ok [OF f(2) ie, of 0 out] obtain s2 where
    "vfs_read_at bd (slot_of fs (Suc j)) 0 out s1 = Some ((length out, splice_at 0 (slice_at 0 (length out) (file_bytes v e)) out), s2)"
    by (auto simp: Let_def)
  then show ?thesis using f(1) e(2) out by (auto simp: slice_at_def splice_at_def)
qed

end

section \<open>The image\<close>

lemma length_set_len [simp]: "length (set_len n f) = n"
  by (simp add: set_len_def)

text \<open>The disk the packer starts from: formatted, with an empty directory and 31734 free blocks.\<close>

lemma packer_disk:
  "\<exists>s v F. efs_create BlockFile (16 * 2048) 1 (BlockCacheManager_new (set_len (16 * 2048 * 512) img)) = Some (fresh_fs 32768 1, s) \<and>
    cache_state file_block (\<lambda>f. length f = 32768 * BLOCK_SZ) 32768 Map.empty v s \<and> file_block (device s) = v \<and>
    packed 32768 (fresh_fs 32768 1) [] v F \<and> has_room 32768 (fresh_fs 32768 1) v 31734 \<and> super_at 32768 1 v"
proof -
  let ?fs = "fresh_fs 32768 1" and ?f = "set_len (16 * 2048 * 512) img"
  have fit: "layout_fits 32768 1" by (simp add: layout_fits_def)
  note lay = fresh_fs_layout [OF fit]
  have "cache_state file_block (\<lambda>f. length f = 32768 * BLOCK_SZ) 32768 Map.empty (file_block ?f) (BlockCacheManager_new ?f)"
    by (rule bf.new_ok) (simp add: BLOCK_SZ_def)
  from bf.create_ok [OF this fit] obtain s v where
    c: "efs_create BlockFile 32768 1 (BlockCacheManager_new ?f) = Some (?fs, s)"
      "cache_state file_block (\<lambda>f. length f = 32768 * BLOCK_SZ) 32768 Map.empty v s" "file_block (device s) = v" "formatted 32768 1 v" by auto
  have "length (v (1 + unat (1 :: u32))) = BLOCK_SZ" by (rule bf.st_length [OF c(2)]) simp
  from formatted_files [OF fit _ c(4) _ _ this, of 32768] obtain d where
    d: "fs_files 32768 ?fs v [0 \<mapsto> d]" "is_dir d" "di_size d = 0" "dir_entries v d = []" by auto
  obtain ia it db da where eq: "area_sizes 32768 1 = (ia, it, db, da)" by (metis prod_cases4)
  have "\<forall>b<bitmap_maximum (inode_bitmap ?fs). bit_set v (inode_bitmap ?fs) b \<longleftrightarrow> b = 0"
    using c(4) unfolding formatted_def eq Let_def prod.case by simp
  then have "packed 32768 ?fs [] v [0 \<mapsto> d]" using d by (simp add: packed_def)
  moreover have "has_room 32768 ?fs v 31734"
    by (rule formatted_room [OF fit c(4)]) (use lay in \<open>simp_all add: bitmap_maximum_def\<close>)
  moreover have "super_at 32768 1 v" by (rule formatted_super [OF c(4)])
  ultimately show ?thesis using c(1-3) by auto
qed

text \<open>
  C5. The image the packer builds holds the applications. For a source directory whose file names give distinct stems, at most
  4095 of them, each a name of at most 27 bytes whose host file can be read, as long as the blocks the files and the directory
  need fit the 31734 blocks of the data area: \<open>easy_fs_pack\<close> does not panic; opening the image it leaves, through an empty
  cache, gives a file system whose root directory lists exactly the stems in order; and finding any of them and reading it from
  the start returns exactly the bytes of the host file.
\<close>

theorem pack_roundtrip:
  assumes "those (map app_name names) = Some apps" "distinct apps" "\<forall>a\<in>set apps. app_ok host target_path a" "length apps \<le> 4095"
    and "pack_need 0 (map (\<lambda>a. length (app_data host target_path a)) apps) \<le> 31734"
  shows "\<exists>s fs s1. easy_fs_pack host target_path names img = Some s \<and>
    efs_open BlockFile (BlockCacheManager_new (device s)) = Some (fs, s1) \<and>
    (\<exists>s2. vfs_ls BlockFile (root_inode fs) s1 = Some (apps, s2)) \<and>
    (\<forall>a\<in>set apps. \<forall>out. length out = length (app_data host target_path a) \<longrightarrow>
      (\<exists>ino s2 s3. vfs_find BlockFile fs (root_inode fs) a s1 = Some (Some ino, s2) \<and>
        vfs_read_at BlockFile ino 0 out s2 = Some ((length out, app_data host target_path a), s3)))"
proof -
  let ?fs = "fresh_fs 32768 1" and ?st = "cache_state file_block (\<lambda>f. length f = 32768 * BLOCK_SZ) 32768 Map.empty"
  let ?fl = "map (\<lambda>a. (a, app_data host target_path a)) apps"
  from packer_disk obtain s v F where
    c: "efs_create BlockFile (16 * 2048) 1 (BlockCacheManager_new (set_len (16 * 2048 * 512) img)) = Some (?fs, s)"
      "?st v s" "file_block (device s) = v" "packed 32768 ?fs [] v F" "has_room 32768 ?fs v 31734" "super_at 32768 1 v" by blast
  have mx: "bitmap_maximum (inode_bitmap ?fs) = 4096"
    using fresh_fs_layout(2) [of 32768 1] by (simp add: bitmap_maximum_def layout_fits_def)
  have "\<exists>s' v' F'. pack_apps BlockFile host target_path ?fs (slot_of ?fs 0) apps s = Some s' \<and> ?st v' s' \<and> file_block (device s') = v' \<and>
      packed 32768 ?fs ([] @ ?fl) v' F' \<and> v' 0 = v 0"
    by (rule bf.pack_apps_ok [OF c(2-4)]) (use assms(2-4) mx has_room_le [OF c(5) assms(5)] in \<open>simp_all add: BLOCK_SZ_def\<close>)
  then obtain s' v' F' where p: "pack_apps BlockFile host target_path ?fs (slot_of ?fs 0) apps s = Some s'" "?st v' s'" "file_block (device s') = v'"
    "packed 32768 ?fs ?fl v' F'" "v' 0 = v 0" by auto
  have run: "easy_fs_pack host target_path names img = Some s'" using c(1) p(1) assms(1) by (simp add: easy_fs_pack_def root_slot)
  from p(2) have "length (device s') = 32768 * BLOCK_SZ" by (simp add: cache_state_def cache_inv_def)
  then have n: "?st v' (BlockCacheManager_new (device s'))" using bf.new_ok [of "device s'" 32768] p(3) by simp
  have "super_at 32768 1 v'" using c(6) p(5) by (simp add: super_at_def)
  from bf.open_super_ok [OF n _ _ _ this] obtain s1 where
    o: "efs_open BlockFile (BlockCacheManager_new (device s')) = Some (?fs, s1)" "?st v' s1" by (auto simp: BLOCK_CACHE_SIZE_def)
  have dis: "distinct (map fst ?fl)" using assms(2) by (simp add: comp_def)
  have "\<exists>ino s2 s3. vfs_find BlockFile ?fs (root_inode ?fs) a s1 = Some (Some ino, s2) \<and>
      vfs_read_at BlockFile ino 0 out s2 = Some ((length out, app_data host target_path a), s3)"
    if "a \<in> set apps" "length out = length (app_data host target_path a)" for a out
  proof -
    from that(1) obtain j where "j < length apps" "apps ! j = a" by (auto simp: in_set_conv_nth)
    with bf.packed_find_read [OF o(2) p(4) dis, of j out] that(2) show ?thesis by (simp add: root_slot)
  qed
  moreover have "\<exists>s2. vfs_ls BlockFile (root_inode ?fs) s1 = Some (apps, s2)"
    using bf.packed_ls [OF o(2) p(4)] by (auto simp: root_slot comp_def)
  ultimately show ?thesis using run o(1) by blast
qed

text \<open>Two applications \<^verbatim>\<open>a.rs\<close> and \<^verbatim>\<open>b.rs\<close>, with three bytes and none.\<close>

definition sample_host :: "bytes \<Rightarrow> bytes option" where
  "sample_host p = (if p = [47, 97] then Some [1, 2, 3] else if p = [47, 98] then Some [] else None)"

theorem pack_roundtrip_witness:
  "let names = [[97, 46, 114, 115], [98, 46, 114, 115]]; apps = [[97], [98]]; target_path = [47] in
   \<exists>s fs s1. easy_fs_pack sample_host target_path names [] = Some s \<and>
    efs_open BlockFile (BlockCacheManager_new (device s)) = Some (fs, s1) \<and>
    (\<exists>s2. vfs_ls BlockFile (root_inode fs) s1 = Some (apps, s2)) \<and>
    (\<forall>a\<in>set apps. \<forall>out. length out = length (app_data sample_host target_path a) \<longrightarrow>
      (\<exists>ino s2 s3. vfs_find BlockFile fs (root_inode fs) a s1 = Some (Some ino, s2) \<and>
        vfs_read_at BlockFile ino 0 out s2 = Some ((length out, app_data sample_host target_path a), s3)))"
  unfolding Let_def
proof (rule pack_roundtrip)
  show "those (map app_name [[97, 46, 114, 115], [98, 46, 114, 115]]) = Some [[97], [98]]"
    by (simp add: app_name_def)
  show "\<forall>a\<in>set [[97], [98]]. app_ok sample_host [47] a" by (simp add: app_ok_def sample_host_def BLOCK_SZ_def)
  show "pack_need 0 (map (\<lambda>a. length (app_data sample_host [47] a)) [[97], [98]]) \<le> 31734"
    by (simp add: app_data_def sample_host_def file_blocks_def data_blocks_of_def blocks_for_def BLOCK_SZ_def)
qed simp_all

end
