(* ===== verification/ExecArgs.thy ===== *)
theory ExecArgs
  imports SyscallProps
begin

text \<open>
  The way of the arguments of \<open>exec\<close>: the kernel reads the vector of the caller (\<open>sys_exec\<close>), copies it onto the user stack
  of the new address space (\<open>ProcessControlBlock::exec\<close>), and the start-up code of the new program (\<open>_start\<close>,
  \<open>user/src/lib.rs\<close>) reads it from there before it calls \<open>main\<close>.
\<close>

section \<open>The start-up code of a program\<close>

text \<open>Loads of a user program: the processor translates the address as the page table says.\<close>

definition user_load_byte :: "kmem \<Rightarrow> usize \<Rightarrow> usize \<Rightarrow> u8 option" where
  "user_load_byte m token a = map_option (load_byte m) (translated_ref m token a)"

definition user_load_word :: "kmem \<Rightarrow> usize \<Rightarrow> usize \<Rightarrow> usize option" where
  "user_load_word m token a = map_option (load_word m) (translated_ref m token a)"

text \<open>\<open>core::str::from_utf8\<close> accepts exactly the well-formed sequences of UTF-8.\<close>

definition utf8_cont :: "u8 \<Rightarrow> bool" where
  "utf8_cont b \<longleftrightarrow> 0x80 \<le> b \<and> b \<le> 0xBF"

fun utf8_valid :: "bytes \<Rightarrow> bool" where
  "utf8_valid [] = True"
| "utf8_valid (a # bs) =
    (if a < 0x80 then utf8_valid bs
     else case bs of [] \<Rightarrow> False | b # cs \<Rightarrow>
       if 0xC2 \<le> a \<and> a \<le> 0xDF then utf8_cont b \<and> utf8_valid cs
       else case cs of [] \<Rightarrow> False | c # ds \<Rightarrow>
         if 0xE0 \<le> a \<and> a \<le> 0xEF then utf8_cont b \<and> (a = 0xE0 \<longrightarrow> 0xA0 \<le> b) \<and> (a = 0xED \<longrightarrow> b \<le> 0x9F) \<and> utf8_cont c \<and> utf8_valid ds
         else case ds of [] \<Rightarrow> False | d # es \<Rightarrow>
           0xF0 \<le> a \<and> a \<le> 0xF4 \<and> utf8_cont b \<and> (a = 0xF0 \<longrightarrow> 0x90 \<le> b) \<and> (a = 0xF4 \<longrightarrow> b \<le> 0x8F) \<and> utf8_cont c \<and> utf8_cont d \<and> utf8_valid es)"

text \<open>\<open>(0usize..).find(..)\<close>: the first offset with a zero byte.\<close>

partial_function (option) str_len :: "kmem \<Rightarrow> usize \<Rightarrow> usize \<Rightarrow> usize \<Rightarrow> usize option" where
  "str_len m token str_start i = do {
    b \<leftarrow> user_load_byte m token (str_start + i);
    if b = 0 then Some i else str_len m token str_start (i + 1)
  }"

definition start_arg :: "kmem \<Rightarrow> usize \<Rightarrow> usize \<Rightarrow> nat \<Rightarrow> bytes option" where
  "start_arg m token argv i = do {
    str_start \<leftarrow> user_load_word m token (argv + of_nat (8 * i));
    len \<leftarrow> str_len m token str_start 0;
    bs \<leftarrow> those (map (\<lambda>j. user_load_byte m token (str_start + of_nat j)) [0..<unat len]);
    assert_that (utf8_valid bs);
    Some bs
  }"

text \<open>The arguments that \<open>_start\<close> passes to \<open>main\<close>, from the registers \<open>a0\<close> and \<open>a1\<close>.\<close>

definition start_args :: "kmem \<Rightarrow> usize \<Rightarrow> usize \<Rightarrow> usize \<Rightarrow> bytes list option" where
  "start_args m token argc argv = those (map (start_arg m token argv) [0..<unat argc])"

section \<open>Writing to user memory\<close>

definition vframe :: "kmem \<Rightarrow> PhysPageNum \<Rightarrow> nat \<Rightarrow> PhysPageNum" where
  "vframe k r n = PTE_ppn (the (mapping k r (of_nat (n div 4096))))"

text \<open>Addresses \<open>lo..<hi\<close> of an address space are mapped, to a frame per page that is not a page table.\<close>

definition user_region :: "kmem \<Rightarrow> PhysPageNum \<Rightarrow> nat \<Rightarrow> nat \<Rightarrow> bool" where
  "user_region k r lo hi \<longleftrightarrow> hi \<le> 2 ^ 38 \<and> (\<forall>p. length (pages k p) = 4096)
     \<and> (\<forall>n. lo \<le> n \<longrightarrow> n < hi \<longrightarrow> vmapped k r n \<and> vframe k r n \<noteq> 0 \<and> vframe k r n \<notin> tables k r)
     \<and> (\<forall>n n'. lo \<le> n \<longrightarrow> n < hi \<longrightarrow> lo \<le> n' \<longrightarrow> n' < hi \<longrightarrow> vframe k r n = vframe k r n' \<longrightarrow> n div 4096 = n' div 4096)"

text \<open>The bytes of the region after some of them have been written.\<close>

definition written :: "kmem \<Rightarrow> PhysPageNum \<Rightarrow> nat \<Rightarrow> nat \<Rightarrow> (nat \<rightharpoonup> u8) \<Rightarrow> kmem \<Rightarrow> bool" where
  "written k r lo hi W k' \<longleftrightarrow> user_region k' r lo hi \<and> mapping k' r = mapping k r
     \<and> (\<forall>n. lo \<le> n \<longrightarrow> n < hi \<longrightarrow> vbyte k' r n = (case W n of Some b \<Rightarrow> b | None \<Rightarrow> vbyte k r n))"

lemma written_trans:
  assumes "written k r lo hi V k1" "written k1 r lo hi W k2"
  shows "written k r lo hi (V ++ W) k2"
  using assms by (auto simp: written_def map_add_def split: option.splits)

lemma written_refl: "user_region k r lo hi \<Longrightarrow> written k r lo hi Map.empty k"
  by (simp add: written_def)

text \<open>A pointer that the kernel holds to a user address.\<close>

definition points_to :: "kmem \<Rightarrow> PhysPageNum \<Rightarrow> PhysAddr \<Rightarrow> nat \<Rightarrow> bool" where
  "points_to k r pa n \<longleftrightarrow> VA_floor pa = vframe k r n \<and> unat (VA_page_offset pa) = n mod 4096 \<and> pa \<noteq> 0"

lemma points_to_written: "written k r lo hi W k' \<Longrightarrow> points_to k' r pa n = points_to k r pa n"
  by (simp add: written_def points_to_def vframe_def)

lemma refmut_ok:
  assumes reg: "user_region k (root_ppn pt) lo hi" and n: "lo \<le> unat a" "unat a < hi" and root: "unat (root_ppn pt) < 2 ^ 44"
  obtains pa where "translated_refmut k (pt_token pt) a = Some pa" "translated_ref k (pt_token pt) a = Some pa"
    "points_to k (root_ppn pt) pa (unat a)"
proof -
  obtain e where e: "mapping k (root_ppn pt) (of_nat (unat a div 4096)) = Some e" "PTE_ppn e \<noteq> 0" "vframe k (root_ppn pt) (unat a) = PTE_ppn e"
    using reg n unfolding user_region_def vmapped_def vframe_def by (metis option.collapse option.sel)
  have "unat a < 2 ^ 39" using reg n by (simp add: user_region_def)
  then obtain pa where pa: "translate_va (from_token (pt_token pt)) (VirtAddr_from a) k = Some (Some pa)" "VA_floor pa = PTE_ppn e"
    "unat (VA_page_offset pa) = unat a mod 4096"
    using translate_va_mapped [of a k "from_token (pt_token pt)" e] e(1) from_token_token [OF root] by auto
  have "pa \<noteq> 0" using pa(2) e(2) by (auto simp: VA_floor_def)
  then show thesis using that pa e(3) by (simp add: translated_refmut_def translated_ref_def PhysAddr_get_mut_def points_to_def)
qed

lemma store_byte_written:
  assumes reg: "user_region k r lo hi" and n: "lo \<le> n" "n < hi" and pa: "points_to k r pa n"
  shows "written k r lo hi [n \<mapsto> b] (store_byte pa b k)"
proof -
  let ?f = "vframe k r n"
  let ?k = "store_byte pa b k"
  have f: "?f \<notin> tables k r" using reg n by (simp add: user_region_def)
  have pg: "pages ?k = (pages k)(?f := (pages k ?f)[n mod 4096 := b])"
    using pa by (simp add: store_byte_def set_bytes_array_def points_to_def)
  have same: "pages ?k p = pages k p" if "p \<in> tables k r" for p using that f pg by auto
  have mp: "mapping ?k r = mapping k r" "tables ?k r = tables k r" using tables_pages_cong(2,4) [OF same] by auto
  have vf: "vframe ?k r = vframe k r" "vmapped ?k r = vmapped k r" by (simp_all add: vframe_def vmapped_def fun_eq_iff mp)
  have len: "length (pages ?k p) = 4096" for p using reg by (simp add: user_region_def pg)
  have reg': "user_region ?k r lo hi" using reg len unfolding user_region_def vf mp by blast
  have "vbyte ?k r n' = (if n' = n then b else vbyte k r n')" if "lo \<le> n'" "n' < hi" for n'
  proof (cases "vframe k r n' = ?f")
    case True
    then have d: "n' div 4096 = n div 4096" using reg n that unfolding user_region_def by metis
    have "n' mod 4096 = n mod 4096 \<longleftrightarrow> n' = n" using d by (metis div_mult_mod_eq)
    moreover have "n mod 4096 < length (pages k ?f)" using reg by (simp add: user_region_def)
    moreover have "vbyte ?k r n' = pages ?k ?f ! (n' mod 4096)" "vbyte k r n' = pages k ?f ! (n' mod 4096)"
      using True by (simp_all add: vbyte_def vframe_def mp d)
    ultimately show ?thesis using pg by (auto simp: nth_list_update)
  next
    case False
    then have "n' \<noteq> n" by auto
    moreover have "vbyte ?k r n' = pages ?k (vframe k r n') ! (n' mod 4096)" "vbyte k r n' = pages k (vframe k r n') ! (n' mod 4096)"
      by (simp_all add: vbyte_def vframe_def mp)
    ultimately show ?thesis using False pg by simp
  qed
  then show ?thesis using reg' mp by (simp add: written_def)
qed

lemma load_byte_points: "points_to k r pa n \<Longrightarrow> load_byte k pa = vbyte k r n"
  by (simp add: load_byte_def points_to_def vbyte_def vframe_def)

lemma points_to_add:
  assumes "points_to k r pa n" "n mod 4096 + i < 4096"
  shows "points_to k r (pa + of_nat i) (n + i)"
proof -
  have o: "unat pa mod 4096 = n mod 4096" using assms(1) by (simp add: points_to_def unat_VA_page_offset)
  have f: "unat (VA_floor pa) = unat pa div 4096" by (rule unat_VA_floor)
  define q where "q = unat pa div 4096"
  have pa: "unat pa = 4096 * q + n mod 4096" using o by (metis q_def mult_div_mod_eq)
  have "unat pa < 2 ^ 64" using unsigned_less [of pa] by simp
  then have "unat pa < 2 ^ 52 * 4096" by simp
  then have "q < 2 ^ 52" unfolding q_def by (rule less_mult_imp_div_less)
  then have "unat pa + i < 2 ^ 64" using pa assms(2) by simp
  then have u: "unat (pa + of_nat i) = 4096 * q + (n mod 4096 + i)" using pa assms(2) by (simp add: unat_add_usize unat_of_nat_usize)
  then have "unat (pa + of_nat i) div 4096 = q" "unat (pa + of_nat i) mod 4096 = n mod 4096 + i" using assms(2) by simp_all
  moreover have "(n + i) div 4096 = n div 4096" "(n + i) mod 4096 = n mod 4096 + i"
  proof -
    have "n + i = 4096 * (n div 4096) + (n mod 4096 + i)" by simp
    then show "(n + i) div 4096 = n div 4096" "(n + i) mod 4096 = n mod 4096 + i" using assms(2)
      by (metis div_mult_self4 div_less add.right_neutral zero_neq_numeral, metis mod_mult_self4 mod_less)
  qed
  moreover have "VA_floor (pa + of_nat i) = VA_floor pa" using calculation(1) f q_def by (simp add: word_unat_eq_iff unat_VA_floor)
  moreover have "pa + of_nat i \<noteq> 0"
  proof
    assume "pa + of_nat i = 0"
    then have "VA_floor pa = 0" using calculation(5) by (simp add: VA_floor_def)
    then have "q = 0" using f q_def by simp
    then show False using u assms(1) \<open>pa + of_nat i = 0\<close> pa by (auto simp: points_to_def word_unat_eq_iff)
  qed
  ultimately show ?thesis using assms(1) by (simp add: points_to_def vframe_def unat_VA_page_offset)
qed

text \<open>A list of bytes at consecutive addresses.\<close>

definition vwrite :: "nat \<Rightarrow> bytes \<Rightarrow> nat \<rightharpoonup> u8" where
  "vwrite n bs x = (if n \<le> x \<and> x < n + length bs then Some (bs ! (x - n)) else None)"

lemma vwrite_Nil [simp]: "vwrite n [] = Map.empty"
  by (auto simp: vwrite_def)

lemma vwrite_Cons: "[n \<mapsto> b] ++ vwrite (Suc n) bs = vwrite n (b # bs)"
proof
  fix x
  consider "x < n" | "x = n" | y where "x = Suc (n + y)" by (metis less_imp_Suc_add linorder_neqE_nat)
  then show "([n \<mapsto> b] ++ vwrite (Suc n) bs) x = vwrite n (b # bs) x" by cases (auto simp: vwrite_def map_add_def split: option.splits)
qed

lemma vwrite_snoc: "vwrite n bs ++ [n + length bs \<mapsto> b] = vwrite n (bs @ [b])"
  by (auto simp: fun_eq_iff vwrite_def map_add_def nth_append split: option.splits)

lemma word_in_page: "n mod 8 = 0 \<Longrightarrow> i < 8 \<Longrightarrow> n mod 4096 + i < (4096 :: nat)"
proof -
  assume "n mod 8 = 0" "i < 8"
  moreover have "n mod 4096 mod 8 = n mod 8" by (simp add: mod_mod_cancel)
  then obtain q where "n mod 4096 = 8 * q" using calculation(1) by (metis mod_0_imp_dvd dvdE)
  moreover from this have "q < 512" using mod_less_divisor [of 4096 n] by linarith
  ultimately show ?thesis by linarith
qed

lemma store_word_written:
  assumes reg: "user_region k r lo hi" and n: "lo \<le> n" "n + 8 \<le> hi" "n mod 8 = 0" and pa: "points_to k r pa n"
  shows "written k r lo hi (vwrite n (le_encode 8 (unat w))) (store_word pa w k)"
proof -
  let ?e = "le_encode 8 (unat w)"
  have "written k r lo hi (vwrite n (take j ?e)) (fold (\<lambda>i. store_byte (pa + of_nat i) (?e ! i)) [0..<j] k)" if "j \<le> 8" for j
    using that
  proof (induction j)
    case 0
    then show ?case using written_refl [OF reg] by simp
  next
    case (Suc j)
    let ?k = "fold (\<lambda>i. store_byte (pa + of_nat i) (?e ! i)) [0..<j] k"
    have IH: "written k r lo hi (vwrite n (take j ?e)) ?k" using Suc by simp
    have "points_to ?k r (pa + of_nat j) (n + j)"
      using points_to_add [OF pa word_in_page [OF n(3)]] Suc.prems points_to_written [OF IH] by simp
    then have "written ?k r lo hi [n + j \<mapsto> ?e ! j] (store_byte (pa + of_nat j) (?e ! j) ?k)"
      using IH n Suc.prems by (intro store_byte_written) (auto simp: written_def)
    from written_trans [OF IH this] vwrite_snoc [of n "take j ?e" "?e ! j"] show ?case
      using Suc.prems by (simp add: take_Suc_conv_app_nth)
  qed
  from this [of 8] show ?thesis by (simp add: store_word_def)
qed

lemma load_word_points:
  assumes pa: "points_to k r pa n" and n: "n mod 8 = 0" and b: "\<And>i. i < 8 \<Longrightarrow> vbyte k r (n + i) = le_encode 8 (unat w) ! i"
  shows "load_word k pa = w"
proof -
  have "load_byte k (pa + of_nat i) = le_encode 8 (unat w) ! i" if "i < 8" for i
    using load_byte_points [OF points_to_add [OF pa word_in_page [OF n that]]] b [OF that] by simp
  then have "map (\<lambda>i. load_byte k (pa + of_nat i)) [0..<8] = le_encode 8 (unat w)"
    by (intro nth_equalityI) simp_all
  moreover have "unat w < 2 ^ 64" using unsigned_less [of w] by simp
  ultimately show ?thesis by (simp add: load_word_def le_decode_encode)
qed

lemma push_bytes_written:
  assumes root: "unat (root_ppn pt) < 2 ^ 44"
  shows "user_region k (root_ppn pt) lo hi \<Longrightarrow> lo \<le> unat p \<Longrightarrow> unat p + length cs < hi \<Longrightarrow>
    \<exists>k'. push_bytes (pt_token pt) cs p k = Some k' \<and> written k (root_ppn pt) lo hi (vwrite (unat p) (cs @ [0])) k'"
proof (induction cs arbitrary: p k)
  case Nil
  then have "unat p < hi" by simp
  from refmut_ok [OF Nil(1,2) this root] obtain pa where
    pa: "translated_refmut k (pt_token pt) p = Some pa" "points_to k (root_ppn pt) pa (unat p)" by blast
  from store_byte_written [OF Nil(1,2) \<open>unat p < hi\<close> pa(2), of 0] show ?case
    using pa(1) vwrite_Cons [of "unat p" 0 "[]"] by simp
next
  case (Cons c cs)
  then have h: "unat p < hi" by simp
  from refmut_ok [OF Cons(2,3) this root] obtain pa where
    pa: "translated_refmut k (pt_token pt) p = Some pa" "points_to k (root_ppn pt) pa (unat p)" by blast
  note W = store_byte_written [OF Cons(2,3) h pa(2), of c]
  have "hi \<le> 2 ^ 38" using Cons(2) by (simp add: user_region_def)
  then have u: "unat (p + 1) = Suc (unat p)" using h by (subst unat_add_usize) simp_all
  have "user_region (store_byte pa c k) (root_ppn pt) lo hi" using W by (simp add: written_def)
  from Cons.IH [OF this, of "p + 1"] obtain k' where k': "push_bytes (pt_token pt) cs (p + 1) (store_byte pa c k) = Some k'"
      "written (store_byte pa c k) (root_ppn pt) lo hi (vwrite (Suc (unat p)) (cs @ [0])) k'"
    using Cons.prems u by auto
  from written_trans [OF W k'(2)] show ?case using k'(1) pa(1) by (simp add: vwrite_Cons)
qed

section \<open>The argument vector on the stack\<close>

definition vbytes_at :: "kmem \<Rightarrow> PhysPageNum \<Rightarrow> nat \<Rightarrow> bytes \<Rightarrow> bool" where
  "vbytes_at k r n bs \<longleftrightarrow> (\<forall>j<length bs. vbyte k r (n + j) = bs ! j)"

text \<open>One space is another one with changes only in two ranges of addresses.\<close>

definition changed :: "kmem \<Rightarrow> PhysPageNum \<Rightarrow> nat \<Rightarrow> nat \<Rightarrow> (nat \<Rightarrow> bool) \<Rightarrow> kmem \<Rightarrow> bool" where
  "changed k r lo hi D k' \<longleftrightarrow> user_region k' r lo hi \<and> mapping k' r = mapping k r
     \<and> (\<forall>n. lo \<le> n \<longrightarrow> n < hi \<longrightarrow> \<not> D n \<longrightarrow> vbyte k' r n = vbyte k r n)"

lemma written_changed:
  "written k r lo hi W k' \<Longrightarrow> (\<And>n. W n \<noteq> None \<Longrightarrow> D n) \<Longrightarrow> changed k r lo hi D k'"
  by (force simp: written_def changed_def split: option.splits)

lemma changed_trans:
  "changed k r lo hi D k1 \<Longrightarrow> changed k1 r lo hi E k2 \<Longrightarrow> changed k r lo hi (\<lambda>n. D n \<or> E n) k2"
  by (auto simp: changed_def)

lemma changed_mono: "changed k r lo hi D k' \<Longrightarrow> (\<And>n. D n \<Longrightarrow> E n) \<Longrightarrow> changed k r lo hi E k'"
  by (auto simp: changed_def)

lemma written_bytes_at:
  "written k r lo hi (vwrite n bs) k' \<Longrightarrow> lo \<le> n \<Longrightarrow> n + length bs \<le> hi \<Longrightarrow> vbytes_at k' r n bs"
  by (auto simp: written_def vbytes_at_def vwrite_def)

lemma changed_bytes_at:
  "changed k r lo hi D k' \<Longrightarrow> vbytes_at k r n bs \<Longrightarrow> lo \<le> n \<Longrightarrow> n + length bs \<le> hi \<Longrightarrow>
    (\<And>j. n \<le> j \<Longrightarrow> j < n + length bs \<Longrightarrow> \<not> D j) \<Longrightarrow> vbytes_at k' r n bs"
  by (auto simp: changed_def vbytes_at_def)

definition room_for :: "bytes list \<Rightarrow> nat" where
  "room_for args = sum_list (map (\<lambda>a. length a + 1) args)"

lemma room_for_simps [simp]: "room_for [] = 0" "room_for (a # args) = length a + 1 + room_for args"
  by (simp_all add: room_for_def)

lemma push_args_ok:
  assumes root: "unat (root_ppn pt) < 2 ^ 44"
  defines "r \<equiv> root_ppn pt"
  shows "user_region k r lo hi \<Longrightarrow> lo + room_for args \<le> unat sp \<Longrightarrow> unat sp \<le> base \<Longrightarrow> base mod 8 = 0 \<Longrightarrow>
    base + 8 * length args \<le> hi \<Longrightarrow> length args \<le> length argv \<Longrightarrow>
    (\<And>i. i < length args \<Longrightarrow> points_to k r (argv ! i) (base + 8 * i)) \<Longrightarrow>
    \<exists>sp' k' (ptrs :: usize list). push_args (pt_token pt) args argv sp k = Some (sp', k') \<and> unat sp' + room_for args = unat sp
      \<and> changed k r lo hi (\<lambda>n. unat sp' \<le> n \<and> n < unat sp \<or> base \<le> n \<and> n < base + 8 * length args) k'
      \<and> length ptrs = length args
      \<and> (\<forall>i<length args. unat sp' \<le> unat (ptrs ! i) \<and> unat (ptrs ! i) + length (args ! i) < unat sp
          \<and> vbytes_at k' r (unat (ptrs ! i)) (args ! i @ [0]) \<and> vbytes_at k' r (base + 8 * i) (le_encode 8 (unat (ptrs ! i))))"
proof (induction args arbitrary: argv sp k base)
  case Nil
  have "changed k r lo hi (\<lambda>n. unat sp \<le> n \<and> n < unat sp \<or> base \<le> n \<and> n < base + 8 * length []) k"
    using Nil.prems(1) by (auto simp: changed_def)
  then show ?case by simp
next
  case (Cons arg args)
  obtain a argv' where argv: "argv = a # argv'" using Cons.prems(6) by (cases argv) auto
  define sp1 where "sp1 = sp - of_nat (length arg + 1)"
  have hi: "hi \<le> 2 ^ 38" using Cons.prems(1) by (simp add: user_region_def)
  have l1: "length arg + 1 \<le> unat sp" using Cons.prems(2) by simp
  have "unat sp < 2 ^ 64" using unsigned_less [of sp] by simp
  then have "unat (of_nat (length arg + 1) :: usize) = length arg + 1" using l1 by (intro unat_of_nat_usize) simp
  then have s1: "unat sp1 = unat sp - (length arg + 1)" using l1 unfolding sp1_def by (subst unat_sub) (simp_all add: word_le_nat_alt)
  have b: "lo \<le> base" "base + 8 \<le> hi" using Cons.prems(2,3,5) by simp_all
  have "points_to k r a base" using Cons.prems(7) [of 0] argv by simp
  note W = store_word_written [OF Cons.prems(1) b Cons.prems(4) this, of sp1]
  let ?k1 = "store_word a sp1 k"
  have reg1: "user_region ?k1 r lo hi" using W by (simp add: written_def)
  have "lo \<le> unat sp1" "unat sp1 + length arg < hi" using s1 Cons.prems(2,3) b by simp_all
  from push_bytes_written [OF root reg1 [unfolded r_def] this] obtain k2 where
    k2: "push_bytes (pt_token pt) arg sp1 ?k1 = Some k2" "written ?k1 r lo hi (vwrite (unat sp1) (arg @ [0])) k2"
    unfolding r_def by blast
  have k02: "written k r lo hi (vwrite base (le_encode 8 (unat sp1)) ++ vwrite (unat sp1) (arg @ [0])) k2"
    by (rule written_trans [OF W k2(2)])
  have reg2: "user_region k2 r lo hi" using k2(2) by (simp add: written_def)
  have pts: "points_to k2 r (argv' ! i) (base + 8 + 8 * i)" if "i < length args" for i
    using Cons.prems(7) [of "Suc i"] that argv points_to_written [OF k02] by (simp add: add.assoc)
  have "\<exists>sp' k' (ptrs :: usize list). push_args (pt_token pt) args argv' sp1 k2 = Some (sp', k') \<and> unat sp' + room_for args = unat sp1
      \<and> changed k2 r lo hi (\<lambda>n. unat sp' \<le> n \<and> n < unat sp1 \<or> base + 8 \<le> n \<and> n < base + 8 + 8 * length args) k'
      \<and> length ptrs = length args
      \<and> (\<forall>i<length args. unat sp' \<le> unat (ptrs ! i) \<and> unat (ptrs ! i) + length (args ! i) < unat sp1
          \<and> vbytes_at k' r (unat (ptrs ! i)) (args ! i @ [0]) \<and> vbytes_at k' r (base + 8 + 8 * i) (le_encode 8 (unat (ptrs ! i))))"
    by (rule Cons.IH [where k = k2 and sp = sp1 and base = "base + 8" and argv = argv'])
      (use reg2 Cons.prems s1 argv pts in \<open>simp_all\<close>)
  then obtain sp' k' and ptrs :: "usize list" where IH: "push_args (pt_token pt) args argv' sp1 k2 = Some (sp', k')" "unat sp' + room_for args = unat sp1"
      "changed k2 r lo hi (\<lambda>n. unat sp' \<le> n \<and> n < unat sp1 \<or> base + 8 \<le> n \<and> n < base + 8 + 8 * length args) k'"
      "length ptrs = length args"
      "\<And>i. i < length args \<Longrightarrow> unat sp' \<le> unat (ptrs ! i) \<and> unat (ptrs ! i) + length (args ! i) < unat sp1
          \<and> vbytes_at k' r (unat (ptrs ! i)) (args ! i @ [0]) \<and> vbytes_at k' r (base + 8 + 8 * i) (le_encode 8 (unat (ptrs ! i)))"
    by blast
  have ends: "unat sp1 + length (arg @ [0]) = unat sp" "unat sp' \<le> unat sp1" using s1 l1 IH(2) by simp_all
  have "push_args (pt_token pt) (arg # args) argv sp k = Some (sp', k')"
    using IH(1) k2(1) argv by (simp add: sp1_def)
  moreover have "unat sp' + room_for (arg # args) = unat sp" using IH(2) ends(1) by simp
  moreover have "changed k r lo hi (\<lambda>n. unat sp' \<le> n \<and> n < unat sp \<or> base \<le> n \<and> n < base + 8 * length (arg # args)) k'"
  proof (rule changed_mono [OF changed_trans [OF written_changed [OF k02] IH(3)]])
    fix n assume "(vwrite base (le_encode 8 (unat sp1)) ++ vwrite (unat sp1) (arg @ [0])) n \<noteq> None"
    then show "base \<le> n \<and> n < base + 8 \<or> unat sp1 \<le> n \<and> n < unat sp" using ends
      by (auto simp: vwrite_def map_add_def split: if_splits)
  qed (use ends in auto)
  moreover have "vbytes_at k' r (unat sp1) (arg @ [0])"
  proof (rule changed_bytes_at [OF IH(3)])
    show "vbytes_at k2 r (unat sp1) (arg @ [0])" by (rule written_bytes_at [OF k2(2)]) (use Cons.prems b ends in simp_all)
  qed (use Cons.prems b ends in auto)
  moreover have "vbytes_at k' r base (le_encode 8 (unat sp1))"
  proof (rule changed_bytes_at [OF IH(3)])
    have at1: "vbytes_at ?k1 r base (le_encode 8 (unat sp1))" by (rule written_bytes_at [OF W]) (use b in simp_all)
    have "changed ?k1 r lo hi (\<lambda>n. unat sp1 \<le> n \<and> n < unat sp) k2"
      by (rule written_changed [OF k2(2)]) (use ends in \<open>auto simp: vwrite_def split: if_splits\<close>)
    from changed_bytes_at [OF this at1] show "vbytes_at k2 r base (le_encode 8 (unat sp1))"
      using b Cons.prems(3) by auto
  qed (use b Cons.prems(3) ends in auto)
  moreover have "unat sp' \<le> unat ((sp1 # ptrs) ! i) \<and> unat ((sp1 # ptrs) ! i) + length ((arg # args) ! i) < unat sp
      \<and> vbytes_at k' r (unat ((sp1 # ptrs) ! i)) ((arg # args) ! i @ [0]) \<and> vbytes_at k' r (base + 8 * i) (le_encode 8 (unat ((sp1 # ptrs) ! i)))"
    if "i < length (arg # args)" for i
    using that IH(5) [of "i - 1"] ends calculation(4,5) by (cases i) (auto simp: add.assoc)
  moreover have "length (sp1 # ptrs) = length (arg # args)" using IH(4) by simp
  ultimately show ?case by blast
qed

lemma argv_refs_ok:
  assumes reg: "user_region k (root_ppn pt) lo hi" and root: "unat (root_ppn pt) < 2 ^ 44"
    and "\<And>i. i \<in> set is \<Longrightarrow> lo \<le> unat base + 8 * i \<and> unat base + 8 * i < hi"
  shows "\<exists>pas. argv_refs k (pt_token pt) base is = Some pas \<and> length pas = length is
    \<and> (\<forall>j<length is. points_to k (root_ppn pt) (pas ! j) (unat base + 8 * is ! j))"
  using assms(3)
proof (induction "is")
  case (Cons i "is")
  have h: "lo \<le> unat base + 8 * i" "unat base + 8 * i < hi" "hi \<le> 2 ^ 38" using Cons.prems [of i] reg by (simp_all add: user_region_def)
  then have "unat (of_nat (8 * i) :: usize) = 8 * i" by (intro unat_of_nat_usize) simp
  then have u: "unat (base + of_nat (8 * i)) = unat base + 8 * i" using h by (subst unat_add_usize) simp_all
  from refmut_ok [OF reg, of "base + of_nat (8 * i)"] h u root obtain pa where
    "translated_refmut k (pt_token pt) (base + of_nat (8 * i)) = Some pa" "points_to k (root_ppn pt) pa (unat base + 8 * i)" by auto
  moreover obtain pas where "argv_refs k (pt_token pt) base is = Some pas" "length pas = length is"
    "\<forall>j<length is. points_to k (root_ppn pt) (pas ! j) (unat base + 8 * is ! j)"
    using Cons.IH Cons.prems by auto
  moreover have "\<forall>j<length (i # is). points_to k (root_ppn pt) ((pa # pas) ! j) (unat base + 8 * (i # is) ! j)"
    using calculation(2,5) by (auto simp: nth_Cons split: nat.split)
  ultimately show ?case by (intro exI [of _ "pa # pas"]) simp
qed simp

text \<open>What \<open>_start\<close> needs to find: the pointers, the strings they point to.\<close>

definition argv_at :: "kmem \<Rightarrow> PhysPageNum \<Rightarrow> nat \<Rightarrow> nat \<Rightarrow> nat \<Rightarrow> bytes list \<Rightarrow> usize list \<Rightarrow> bool" where
  "argv_at k r lo hi base args ptrs \<longleftrightarrow> length ptrs = length args \<and> base mod 8 = 0 \<and> lo \<le> base \<and> base + 8 * length args < hi
     \<and> (\<forall>i<length args. lo \<le> unat (ptrs ! i) \<and> unat (ptrs ! i) + length (args ! i) < hi
        \<and> vbytes_at k r (unat (ptrs ! i)) (args ! i @ [0]) \<and> vbytes_at k r (base + 8 * i) (le_encode 8 (unat (ptrs ! i))))"

lemma push_argv_ok:
  assumes root: "unat (root_ppn pt) < 2 ^ 44" and reg: "user_region k (root_ppn pt) lo (unat stack_top)"
    and al: "unat stack_top mod 8 = 0" "lo mod 8 = 0" and room: "lo + 8 * (length args + 1) + room_for args \<le> unat stack_top"
  shows "\<exists>user_sp base k' ptrs. push_argv (pt_token pt) args stack_top k = Some (user_sp, base, k')
    \<and> unat user_sp mod 8 = 0 \<and> lo \<le> unat user_sp \<and> unat user_sp \<le> unat base \<and> unat base = unat stack_top - 8 * (length args + 1)
    \<and> user_region k' (root_ppn pt) lo (unat stack_top) \<and> mapping k' (root_ppn pt) = mapping k (root_ppn pt)
    \<and> argv_at k' (root_ppn pt) lo (unat stack_top) (unat base) args ptrs"
proof -
  let ?r = "root_ppn pt" and ?hi = "unat stack_top"
  define base where "base = stack_top - of_nat ((length args + 1) * 8)"
  have hi: "?hi < 2 ^ 64" using unsigned_less [of stack_top] by simp
  then have "unat (of_nat ((length args + 1) * 8) :: usize) = (length args + 1) * 8" using room by (intro unat_of_nat_usize) simp
  then have b: "unat base = ?hi - 8 * (length args + 1)" using room unfolding base_def
    by (subst unat_sub) (simp_all add: word_le_nat_alt)
  obtain q where "?hi = 8 * q" using al(1) by (metis mod_0_imp_dvd dvdE)
  then have "unat base = 8 * (q - (length args + 1))" using b by (simp add: diff_mult_distrib2)
  then have b8: "unat base mod 8 = 0" by simp
  have bb: "lo + room_for args \<le> unat base" "unat base + 8 * (length args + 1) = ?hi" using b room by simp_all
  obtain argv where argv: "argv_refs k (pt_token pt) base [0..<Suc (length args)] = Some argv" "length argv = Suc (length args)"
      "\<And>j. j \<le> length args \<Longrightarrow> points_to k ?r (argv ! j) (unat base + 8 * j)"
    using argv_refs_ok [OF reg root, of "[0..<Suc (length args)]" base] bb by (auto simp: less_Suc_eq_le simp del: upt_Suc)
  let ?k1 = "store_word (argv ! length args) 0 k"
  have W: "written k ?r lo ?hi (vwrite (unat base + 8 * length args) (le_encode 8 (unat (0 :: usize)))) ?k1"
    by (rule store_word_written [OF reg _ _ _ argv(3)]) (use bb b8 in simp_all)
  have reg1: "user_region ?k1 ?r lo ?hi" using W by (simp add: written_def)
  obtain sp' k' and ptrs :: "usize list" where p: "push_args (pt_token pt) args argv base ?k1 = Some (sp', k')"
      "unat sp' + room_for args = unat base"
      "changed ?k1 ?r lo ?hi (\<lambda>n. unat sp' \<le> n \<and> n < unat base \<or> unat base \<le> n \<and> n < unat base + 8 * length args) k'"
      "length ptrs = length args"
      "\<And>i. i < length args \<Longrightarrow> unat sp' \<le> unat (ptrs ! i) \<and> unat (ptrs ! i) + length (args ! i) < unat base
          \<and> vbytes_at k' ?r (unat (ptrs ! i)) (args ! i @ [0]) \<and> vbytes_at k' ?r (unat base + 8 * i) (le_encode 8 (unat (ptrs ! i)))"
    using push_args_ok [OF root reg1, of args base "unat base" argv] bb b8 argv(2,3) points_to_written [OF W] by auto
  define user_sp where "user_sp = sp' - sp' mod 8"
  have u: "unat user_sp = unat sp' - unat sp' mod 8"
    unfolding user_sp_def by (subst unat_sub) (simp_all add: word_le_nat_alt unat_mod)
  have "unat user_sp mod 8 = 0" unfolding u by (simp add: minus_mod_eq_mult_div)
  moreover have "lo \<le> unat user_sp"
  proof -
    have "lo \<le> unat sp'" using p(2) bb by simp
    moreover have "unat sp' - unat sp' mod 8 = 8 * (unat sp' div 8)" by (simp add: minus_mod_eq_mult_div)
    moreover have "lo = 8 * (lo div 8)" using mult_div_mod_eq [of 8 lo] al(2) by simp
    moreover have "lo div 8 \<le> unat sp' div 8" using calculation(1) by (rule div_le_mono)
    ultimately show ?thesis unfolding u by linarith
  qed
  moreover have "push_argv (pt_token pt) args stack_top k = Some (user_sp, base, k')"
    using argv(1) p(1) by (simp add: push_argv_def base_def user_sp_def Let_def del: upt_Suc)
  moreover have "argv_at k' ?r lo ?hi (unat base) args ptrs"
  proof -
    have "lo \<le> unat (ptrs ! i) \<and> unat (ptrs ! i) + length (args ! i) < ?hi" if "i < length args" for i
      using p(5) [OF that] p(2) bb by linarith
    then show ?thesis using p(4,5) bb b8 by (auto simp: argv_at_def)
  qed
  moreover have "user_region k' ?r lo ?hi" "mapping k' ?r = mapping k ?r" using p(3) W by (simp_all add: changed_def written_def)
  moreover have "unat user_sp \<le> unat base" using u p(2) by simp
  ultimately show ?thesis using b by (intro exI [of _ user_sp] exI [of _ base] exI [of _ k'] exI [of _ ptrs] conjI)
qed

lemma user_load_byte_ok:
  assumes "user_region k (root_ppn pt) lo hi" "unat (root_ppn pt) < 2 ^ 44" "lo \<le> n" "n < hi" "unat a = n"
  shows "user_load_byte k (pt_token pt) a = Some (vbyte k (root_ppn pt) n)"
proof -
  from refmut_ok [OF assms(1), of a] assms(2-5) obtain pa where
    "translated_ref k (pt_token pt) a = Some pa" "points_to k (root_ppn pt) pa n" by auto
  then show ?thesis by (simp add: user_load_byte_def load_byte_points)
qed

lemma user_load_word_ok:
  assumes "user_region k (root_ppn pt) lo hi" "unat (root_ppn pt) < 2 ^ 44" "lo \<le> n" "n < hi" "unat a = n" "n mod 8 = 0"
    and "vbytes_at k (root_ppn pt) n (le_encode 8 (unat w))"
  shows "user_load_word k (pt_token pt) a = Some w"
proof -
  from refmut_ok [OF assms(1), of a] assms(2-5) obtain pa where
    "translated_ref k (pt_token pt) a = Some pa" "points_to k (root_ppn pt) pa n" by auto
  with load_word_points [OF this(2) assms(6), of w] assms(7) show ?thesis by (simp add: user_load_word_def vbytes_at_def)
qed

text \<open>An address inside the region, as an offset from a pointer.\<close>

lemma region_offset:
  fixes p :: usize
  assumes "user_region k r lo hi" "unat p + i < hi"
  shows "unat (p + of_nat i) = unat p + i"
proof -
  have "hi \<le> 2 ^ 38" using assms(1) by (simp add: user_region_def)
  then have "unat (of_nat i :: usize) = i" using assms(2) by (intro unat_of_nat_usize) simp
  then show ?thesis using assms(2) \<open>hi \<le> 2 ^ 38\<close> by (subst unat_add_usize) simp_all
qed

lemma str_len_ok:
  assumes reg: "user_region k (root_ppn pt) lo hi" and root: "unat (root_ppn pt) < 2 ^ 44"
    and s: "lo \<le> unat p" "unat p + length bs < hi" "vbytes_at k (root_ppn pt) (unat p) (bs @ [0])" "0 \<notin> set bs"
  shows "i \<le> length bs \<Longrightarrow> str_len k (pt_token pt) p (of_nat i) = Some (of_nat (length bs))"
proof (induction "length bs - i" arbitrary: i)
  case 0
  then have i: "i = length bs" by simp
  then have "user_load_byte k (pt_token pt) (p + of_nat i) = Some (vbyte k (root_ppn pt) (unat p + i))"
    using s region_offset [OF reg, of p i] by (intro user_load_byte_ok [OF reg root]) simp_all
  moreover have "vbyte k (root_ppn pt) (unat p + i) = 0" using s(3) i by (auto simp: vbytes_at_def dest!: spec [of _ i])
  ultimately show ?case using i by (subst str_len.simps) simp
next
  case (Suc n)
  then have i: "i < length bs" by simp
  then have "user_load_byte k (pt_token pt) (p + of_nat i) = Some (vbyte k (root_ppn pt) (unat p + i))"
    using s region_offset [OF reg, of p i] by (intro user_load_byte_ok [OF reg root]) simp_all
  moreover have "vbyte k (root_ppn pt) (unat p + i) = bs ! i" using s(3) i by (auto simp: vbytes_at_def nth_append dest!: spec [of _ i])
  moreover have "bs ! i \<noteq> 0" using s(4) i by (metis nth_mem)
  moreover have "n = length bs - Suc i" using Suc.hyps(2) by simp
  then have "str_len k (pt_token pt) p (of_nat (Suc i)) = Some (of_nat (length bs))" by (rule Suc.hyps(1)) (use i in simp)
  ultimately show ?case by (subst str_len.simps) (simp add: add.commute)
qed

lemma those_map_Some: "(\<And>x. x \<in> set xs \<Longrightarrow> f x = Some (g x)) \<Longrightarrow> those (map f xs) = Some (map g xs)"
  by (induction xs) simp_all

lemma start_arg_ok:
  assumes reg: "user_region k (root_ppn pt) lo hi" and root: "unat (root_ppn pt) < 2 ^ 44"
    and at: "argv_at k (root_ppn pt) lo hi (unat base) args ptrs" and i: "i < length args"
    and str: "utf8_valid (args ! i)" "0 \<notin> set (args ! i)"
  shows "start_arg k (pt_token pt) base i = Some (args ! i)"
proof -
  let ?r = "root_ppn pt" and ?p = "ptrs ! i" and ?s = "args ! i"
  have a: "unat base mod 8 = 0" "lo \<le> unat base" "unat base + 8 * length args < hi" "lo \<le> unat ?p" "unat ?p + length ?s < hi"
      "vbytes_at k ?r (unat ?p) (?s @ [0])" "vbytes_at k ?r (unat base + 8 * i) (le_encode 8 (unat ?p))"
    using at i by (simp_all add: argv_at_def)
  have "unat base + 8 * i < hi" using a(3) i by simp
  then have "user_load_word k (pt_token pt) (base + of_nat (8 * i)) = Some ?p"
    using a region_offset [OF reg, of base "8 * i"] by (intro user_load_word_ok [OF reg root _ _ _ _ a(7)]) (simp_all add: mod_add_eq)
  moreover have "str_len k (pt_token pt) ?p 0 = Some (of_nat (length ?s))"
    using str_len_ok [OF reg root a(4-6) str(2), of 0] by simp
  moreover have "unat (of_nat (length ?s) :: usize) = length ?s"
  proof -
    have "hi \<le> 2 ^ 38" using reg by (simp add: user_region_def)
    then show ?thesis using a(5) by (intro unat_of_nat_usize) simp
  qed
  moreover have "those (map (\<lambda>j. user_load_byte k (pt_token pt) (?p + of_nat j)) [0..<length ?s]) = Some (map (\<lambda>j. ?s ! j) [0..<length ?s])"
  proof (rule those_map_Some)
    fix j assume "j \<in> set [0..<length ?s]"
    then have j: "j < length ?s" by simp
    then have "user_load_byte k (pt_token pt) (?p + of_nat j) = Some (vbyte k ?r (unat ?p + j))"
      using a region_offset [OF reg, of ?p j] by (intro user_load_byte_ok [OF reg root]) simp_all
    moreover have "vbyte k ?r (unat ?p + j) = ?s ! j" using a(6) j by (auto simp: vbytes_at_def nth_append dest!: spec [of _ j])
    ultimately show "user_load_byte k (pt_token pt) (?p + of_nat j) = Some (?s ! j)" by simp
  qed
  ultimately show ?thesis using str(1) by (simp add: start_arg_def map_nth)
qed

text \<open>
  C7. \<open>exec\<close> hands its arguments over: on a user stack that is mapped, with room for the vector and the strings,
  copying them does not panic and changes no mapping; the new stack pointer is aligned and below the vector; and the
  start-up code of the new program, given the number of arguments and the address of the vector, finds exactly the
  strings that \<open>exec\<close> was given, for strings of UTF-8 without zero bytes.
\<close>

theorem exec_start_roundtrip:
  assumes "unat (root_ppn pt) < 2 ^ 44" "user_region k (root_ppn pt) lo (unat stack_top)" "unat stack_top mod 8 = 0" "lo mod 8 = 0"
    and "lo + 8 * (length args + 1) + room_for args \<le> unat stack_top" "list_all (\<lambda>s. utf8_valid s \<and> 0 \<notin> set s) args"
  shows "\<exists>user_sp argv k'. push_argv (pt_token pt) args stack_top k = Some (user_sp, argv, k')
    \<and> unat user_sp mod 8 = 0 \<and> lo \<le> unat user_sp \<and> unat user_sp \<le> unat argv \<and> mapping k' (root_ppn pt) = mapping k (root_ppn pt)
    \<and> start_args k' (pt_token pt) (of_nat (length args)) argv = Some args"
proof -
  from push_argv_ok [OF assms(1-5)] obtain user_sp base k' ptrs where p: "push_argv (pt_token pt) args stack_top k = Some (user_sp, base, k')"
    "unat user_sp mod 8 = 0" "lo \<le> unat user_sp" "unat user_sp \<le> unat base" "user_region k' (root_ppn pt) lo (unat stack_top)"
    "mapping k' (root_ppn pt) = mapping k (root_ppn pt)" "argv_at k' (root_ppn pt) lo (unat stack_top) (unat base) args ptrs"
    by - (elim exE conjE, rule that)
  have "unat stack_top \<le> 2 ^ 38" using p(5) by (simp add: user_region_def)
  then have "unat (of_nat (length args) :: usize) = length args" using assms(5) by (intro unat_of_nat_usize) simp
  moreover have "those (map (start_arg k' (pt_token pt) base) [0..<length args]) = Some (map (\<lambda>i. args ! i) [0..<length args])"
    using assms(6) by (intro those_map_Some start_arg_ok [OF p(5) assms(1) p(7)]) (simp_all add: list_all_length)
  ultimately have "start_args k' (pt_token pt) (of_nat (length args)) base = Some args" by (simp add: start_args_def map_nth)
  then show ?thesis using p by (intro exI [of _ user_sp] exI [of _ base] exI [of _ k'] conjI)
qed

text \<open>A stack of one page.\<close>

lemma sample_region:
  assumes "sample_ok k pt f"
  shows "user_region k (root_ppn pt) 4096 8192"
proof -
  have s: "unat f < 2 ^ 44" "f \<noteq> 0" "f \<notin> tables k (root_ppn pt)" "\<forall>p. length (pages k p) = 4096"
    "mapping k (root_ppn pt) = map_at (\<lambda>_. None) 1 (Some (PTE_new f (PTE_U OR PTE_V)))"
    using assms by (auto simp: sample_ok_def pt_inv_def kmem_inv_def)
  have "n div 4096 = 1" if "4096 \<le> n" "n < 8192" for n :: nat using that by auto
  then have "vframe k (root_ppn pt) n = f" "vmapped k (root_ppn pt) n" if "4096 \<le> n" "n < 8192" for n
    using that s by (simp_all add: vframe_def vmapped_def map_at_def)
  then show ?thesis using s(2-4) \<open>\<And>n. 4096 \<le> n \<Longrightarrow> n < 8192 \<Longrightarrow> n div 4096 = 1\<close> by (simp add: user_region_def)
qed

theorem exec_start_roundtrip_witness:
  "\<exists>k pt user_sp argv k'. push_argv (pt_token pt) [[104, 105], [0xC3, 0xA9]] 8192 k = Some (user_sp, argv, k')
     \<and> start_args k' (pt_token pt) 2 argv = Some [[104, 105], [0xC3, 0xA9]]"
proof -
  obtain k pt f where s: "sample_ok k pt f" using sample_space by blast
  then have root: "unat (root_ppn pt) < 2 ^ 44" by (simp add: sample_ok_def)
  have reg: "user_region k (root_ppn pt) 4096 (unat (8192 :: usize))" using sample_region [OF s] by simp
  from exec_start_roundtrip [OF root reg, of "[[104, 105], [0xC3, 0xA9]]"]
  show ?thesis by (auto simp: utf8_cont_def) blast
qed

section \<open>The arguments of the caller\<close>

definition user_word :: "kmem \<Rightarrow> PhysPageNum \<Rightarrow> nat \<Rightarrow> usize \<Rightarrow> bool" where
  "user_word k r n w \<longleftrightarrow> n mod 8 = 0 \<and> n < 2 ^ 38 \<and> vmapped k r n \<and> vframe k r n \<noteq> 0 \<and> vbytes_at k r n (le_encode 8 (unat w))"

text \<open>A vector of pointers to strings that ends in a null pointer.\<close>

fun user_vector :: "kmem \<Rightarrow> PhysPageNum \<Rightarrow> nat \<Rightarrow> bytes list \<Rightarrow> bool" where
  "user_vector k r n [] = user_word k r n 0"
| "user_vector k r n (s # ss) = ((\<exists>p. p \<noteq> 0 \<and> user_word k r n p \<and> user_string k r (unat p) s) \<and> user_vector k r (n + 8) ss)"

lemma user_word_load:
  assumes "user_word k (root_ppn pt) (unat a) w" "unat (root_ppn pt) < 2 ^ 44"
  shows "\<exists>pa. translated_ref k (pt_token pt) a = Some pa \<and> load_word k pa = w"
proof -
  let ?r = "root_ppn pt"
  have w: "unat a mod 8 = 0" "unat a < 2 ^ 38" "vmapped k ?r (unat a)" "vframe k ?r (unat a) \<noteq> 0" "vbytes_at k ?r (unat a) (le_encode 8 (unat w))"
    using assms(1) by (simp_all add: user_word_def)
  then obtain e where e: "mapping k ?r (of_nat (unat a div 4096)) = Some e" "PTE_ppn e \<noteq> 0" "vframe k ?r (unat a) = PTE_ppn e"
    by (auto simp: vmapped_def vframe_def)
  have "unat a < 2 ^ 39" using w(2) by simp
  then obtain pa where pa: "translate_va (from_token (pt_token pt)) (VirtAddr_from a) k = Some (Some pa)" "VA_floor pa = PTE_ppn e"
    "unat (VA_page_offset pa) = unat a mod 4096"
    using translate_va_mapped [of a k "from_token (pt_token pt)" e] e(1) from_token_token [OF assms(2)] by auto
  have "pa \<noteq> 0" using pa(2) e(2) by (auto simp: VA_floor_def)
  then have "translated_ref k (pt_token pt) a = Some pa" "points_to k ?r pa (unat a)"
    using pa e(3) by (simp_all add: translated_ref_def PhysAddr_get_mut_def points_to_def)
  moreover from load_word_points [OF this(2) w(1), of w] w(5) have "load_word k pa = w" by (simp add: vbytes_at_def)
  ultimately show ?thesis by blast
qed

lemma exec_args_ok:
  assumes root: "unat (root_ppn pt) < 2 ^ 44"
  shows "user_vector k (root_ppn pt) (unat a) strs \<Longrightarrow>
    exec_args k (pt_token pt) a acc = Some (acc @ map (\<lambda>s. concat (map push_char s)) strs)"
proof (induction strs arbitrary: a acc)
  case Nil
  then obtain pa where "translated_ref k (pt_token pt) a = Some pa" "load_word k pa = 0" using user_word_load [of k pt a 0] root by auto
  then show ?case by (subst exec_args.simps) simp
next
  case (Cons s strs)
  then obtain p where p: "p \<noteq> 0" "user_word k (root_ppn pt) (unat a) p" "user_string k (root_ppn pt) (unat p) s"
    "user_vector k (root_ppn pt) (unat a + 8) strs" by auto
  obtain pa where pa: "translated_ref k (pt_token pt) a = Some pa" "load_word k pa = p" using user_word_load [OF p(2) root] by blast
  have "unat (a + 8) = unat a + 8" using p(2) by (subst unat_add_usize) (simp_all add: user_word_def)
  then have IH: "exec_args k (pt_token pt) (a + 8) (acc @ [concat (map push_char s)])
      = Some ((acc @ [concat (map push_char s)]) @ map (\<lambda>s. concat (map push_char s)) strs)"
    using p(4) by (intro Cons.IH) simp
  have "translated_str k (pt_token pt) p = Some (concat (map push_char s))"
    using translated_str_loop_ok [of k "from_token (pt_token pt)" p s "[]"] p(3) from_token_token [OF root] by (simp add: translated_str_def)
  then show ?case using pa p(1) IH by (subst exec_args.simps) simp
qed

lemma utf8_two:
  assumes "0xC2 \<le> a" "a \<le> 0xDF" "utf8_cont b"
  shows "utf8_valid (a # b # bs) = utf8_valid bs" "a \<noteq> 0"
proof -
  have "0x80 \<le> a" by (rule order_trans [OF _ assms(1)]) simp
  then show "utf8_valid (a # b # bs) = utf8_valid bs" "a \<noteq> 0" using assms by (auto simp: not_less [symmetric])
qed

lemma push_char_utf8: "ch \<noteq> 0 \<Longrightarrow> utf8_valid (push_char ch @ bs) = utf8_valid bs \<and> 0 \<notin> set (push_char ch)"
proof -
  have *: "list_all (\<lambda>n. let ch = of_nat n :: u8 in 0x80 \<le> ch \<longrightarrow> 0xC2 \<le> 0xC0 OR drop_bit 6 ch \<and> 0xC0 OR drop_bit 6 ch \<le> 0xDF
      \<and> utf8_cont (0x80 OR (ch AND 0x3F)) \<and> 0x80 OR (ch AND 0x3F) \<noteq> 0) [0..<256]" by code_simp
  have "unat ch \<in> set [0..<256]" using unsigned_less [of ch] by simp
  from bspec [OF * [unfolded list_all_iff] this] have "0x80 \<le> ch \<longrightarrow> 0xC2 \<le> 0xC0 OR drop_bit 6 ch \<and> 0xC0 OR drop_bit 6 ch \<le> 0xDF
      \<and> utf8_cont (0x80 OR (ch AND 0x3F)) \<and> 0x80 OR (ch AND 0x3F) \<noteq> 0"
    by (simp add: Let_def)
  moreover assume "ch \<noteq> 0"
  ultimately show ?thesis by (cases "ch < 0x80") (auto simp: push_char_def not_less utf8_two simp del: utf8_valid.simps(2), simp_all)
qed

lemma push_string_utf8: "0 \<notin> set s \<Longrightarrow> utf8_valid (concat (map push_char s)) \<and> 0 \<notin> set (concat (map push_char s))"
proof (induction s)
  case (Cons c s)
  then show ?case using push_char_utf8 [of c "concat (map push_char s)"] by auto
qed simp

text \<open>
  C36. \<open>sys_exec\<close> reads the arguments of the caller: for a vector of pointers to strings that ends in a null pointer,
  all of it mapped, the loop ends and yields the strings in order, with the bytes as codes of the characters. They are
  strings of UTF-8 without zero bytes, as the copying onto the new stack and the start-up code need; ASCII strings are
  unchanged.
\<close>

theorem exec_args_spec:
  assumes "unat (root_ppn pt) < 2 ^ 44" "user_vector k (root_ppn pt) (unat args) strs"
  shows "\<exists>v. exec_args k (pt_token pt) args [] = Some v \<and> length v = length strs \<and> list_all (\<lambda>s. utf8_valid s \<and> 0 \<notin> set s) v
    \<and> (list_all (list_all (\<lambda>c. c < 0x80)) strs \<longrightarrow> v = strs)"
proof -
  have "0 \<notin> set s" if "user_string k' r n s" for k' r n s
    using that by (auto simp: user_string_def in_set_conv_nth)
  then have "list_all (\<lambda>s. 0 \<notin> set s) ss" if "user_vector k r n ss" for r n ss
    using that by (induction ss arbitrary: n) auto
  then have "list_all (\<lambda>s. utf8_valid s \<and> 0 \<notin> set s) (map (\<lambda>s. concat (map push_char s)) strs)"
    using assms(2) push_string_utf8 unfolding list_all_iff by (metis (no_types, lifting) imageE list.set_map)
  moreover have "map (\<lambda>s. concat (map push_char s)) strs = strs" if "list_all (list_all (\<lambda>c. c < 0x80)) strs"
    using that by (induction strs) (simp_all add: push_ascii)
  ultimately show ?thesis using exec_args_ok [OF assms, of "[]"] by auto
qed

text \<open>A vector with one argument: the pointer at the start of the page, the string in its second half.\<close>

definition sample_vector_page :: bytes where
  "sample_vector_page = le_encode 8 (4096 + 2048) @ replicate 2040 0 @ [108, 115] @ replicate 2046 0"

theorem exec_args_spec_witness:
  "\<exists>k pt. exec_args k (pt_token pt) 4096 [] = Some [[108, 115]]"
proof -
  obtain k pt f where s: "sample_ok k pt f" using sample_space by blast
  let ?r = "root_ppn pt"
  define k' where "k' = set_bytes_array f sample_vector_page k"
  have root: "unat ?r < 2 ^ 44" and f: "unat f < 2 ^ 44" "f \<noteq> 0" "f \<notin> tables k ?r"
    and m: "mapping k ?r = map_at (\<lambda>_. None) 1 (Some (PTE_new f (PTE_U OR PTE_V)))"
    using s by (auto simp: sample_ok_def pt_inv_def)
  have "mapping k' ?r = mapping k ?r"
    by (rule tables_pages_cong(4)) (use f(3) in \<open>auto simp: k'_def set_bytes_array_def\<close>)
  then have m': "mapping k' ?r (of_nat (n div 4096)) = Some (PTE_new f (PTE_U OR PTE_V))" if "4096 \<le> n" "n < 8192" for n
  proof -
    have "n div 4096 = 1" using that by auto
    then show ?thesis using m \<open>mapping k' ?r = mapping k ?r\<close> by (simp add: map_at_def)
  qed
  have pf: "PTE_ppn (PTE_new f (PTE_U OR PTE_V)) = f" using f by simp
  have b: "vbyte k' ?r (4096 + n) = sample_vector_page ! n" if "n < 4096" for n
    using m' [of "4096 + n"] that pf by (simp add: vbyte_def k'_def set_bytes_array_def)
  have page: "sample_vector_page ! n = (if n < 8 then le_encode 8 6144 ! n else if n = 2048 then 108 else if n = 2049 then 115 else 0)"
    if "n < 4096" for n
    using that by (auto simp: sample_vector_page_def nth_append nth_Cons')
  have w: "user_word k' ?r (4096 + n) w" if "n < 4096" "n mod 8 = 0" "\<And>j. j < 8 \<Longrightarrow> sample_vector_page ! (n + j) = le_encode 8 (unat w) ! j" for n w
  proof -
    have "vbyte k' ?r (4096 + n + j) = le_encode 8 (unat w) ! j" if "j < 8" for j
      using b [of "n + j"] word_in_page [OF \<open>n mod 8 = 0\<close> that] \<open>n < 4096\<close> \<open>\<And>j. j < 8 \<Longrightarrow> _\<close> [OF that] by (simp add: add.assoc)
    then show ?thesis using that m' [of "4096 + n"] pf f by (simp add: user_word_def vmapped_def vframe_def vbytes_at_def mod_add_eq [of 4096 8 n, symmetric])
  qed
  have "user_word k' ?r 4096 6144" using w [of 0 6144] page by simp
  moreover have "user_word k' ?r 4104 0" 
  proof -
    have "sample_vector_page ! (8 + j) = le_encode 8 (unat (0 :: usize)) ! j" if "j < 8" for j
    proof -
      have "le_encode 8 0 = replicate 8 (0 :: u8)" by code_simp
      then show ?thesis using that page [of "8 + j"] by simp
    qed
    from w [of 8 0, OF _ _ this] show ?thesis by simp
  qed
  moreover have "user_string k' ?r 6144 [108, 115]"
    unfolding user_string_def
  proof (intro conjI allI impI)
    fix i assume "i \<le> length [108, 115 :: u8]"
    then show "\<exists>e. mapping k' ?r (of_nat ((6144 + i) div 4096)) = Some e \<and> PTE_ppn e \<noteq> 0" using m' [of "6144 + i"] pf f by simp
  next
    fix i assume "i < length [108, 115 :: u8]"
    then consider "i = 0" | "i = 1" by force
    then show "vbyte k' ?r (6144 + i) = [108, 115] ! i" "[108, 115 :: u8] ! i \<noteq> 0"
      using b [of 2048] b [of 2049] page [of 2048] page [of 2049] by (cases; simp)+
  qed (use b [of 2050] page [of 2050] in simp_all)
  ultimately have "user_vector k' ?r (unat (4096 :: usize)) [[108, 115]]" by (auto intro!: exI [of _ "6144 :: usize"])
  from exec_args_spec [OF root this] show ?thesis by auto
qed

end
