(* ===== verification/UserLocks.thy ===== *)
theory UserLocks
  imports Prelude
begin

text \<open>
  The locks of the user programs (\<open>user/src/bin/\<close>) and the two kinds of programs that use them: the adders, whose threads
  increment one variable (\<open>adder*.rs\<close>), and the programs that assert inside the critical section that nobody else is
  there (\<open>peterson.rs\<close>, \<open>eisenberg.rs\<close>). Every access to a shared variable is a step of its own, and the processor may
  switch between any two steps: a run is given by the list of the threads that make them. There is one processor, so
  that the accesses of all threads happen in one order.

  A lock is a record of its steps. The locale \<open>user_lock\<close> says what a lock has to promise, and both kinds of programs
  are proved correct once, for every lock that keeps the promise.
\<close>

section \<open>Locks as steps\<close>

datatype ('l, 'u) lock_pc = Idle | Acquiring 'l | Holding | Releasing 'u

text \<open>
  \<open>lock_step\<close> and \<open>unlock_step\<close> make one step of the thread inside \<open>lock\<close> or \<open>unlock\<close>: the point it is at afterwards, or
  \<open>None\<close> when the function returns, and the shared variables of the lock. They have no value when the thread cannot
  make a step (it is not on the processor). \<open>env_step\<close> are the steps of the rest of the system.
\<close>

record ('g, 'l, 'u, 'e) lock_ops =
  lock_start :: 'l
  lock_step :: "nat \<Rightarrow> 'l \<Rightarrow> 'g \<Rightarrow> ('l option \<times> 'g) option"
  unlock_start :: "nat \<Rightarrow> 'u"
  unlock_step :: "nat \<Rightarrow> 'u \<Rightarrow> 'g \<Rightarrow> ('u option \<times> 'g) option"
  env_step :: "'e \<Rightarrow> 'g \<Rightarrow> 'g option"

datatype 'e turn = Thread nat | Env 'e

section \<open>The adders\<close>

datatype ('l, 'u) adder_pc = Loop | Locking 'l | Enter | Read "64 word" | Unlocking 'u | Exited "32 word"

text \<open>\<open>A\<close> is the shared variable, \<open>t\<close> and the number of rounds done are local to each thread.\<close>

record ('g, 'l, 'u) adder =
  ad_A :: "64 word"
  ad_lock :: 'g
  ad_pc :: "nat \<Rightarrow> ('l, 'u) adder_pc"
  ad_iter :: "nat \<Rightarrow> nat"
  ad_t :: "nat \<Rightarrow> 64 word"

definition square_rounds :: "64 word \<Rightarrow> 64 word" where
  "square_rounds t = ((\<lambda>t. t * t mod 10007) ^^ 500) t"

definition adder_goto :: "nat \<Rightarrow> ('l, 'u) adder_pc \<Rightarrow> ('g, 'l, 'u) adder \<Rightarrow> ('g, 'l, 'u) adder" where
  "adder_goto i p s = s\<lparr>ad_pc := (ad_pc s)(i := p)\<rparr>"

text \<open>
  One step of thread \<open>i\<close> in \<open>f\<close>: the head of the loop over \<open>0..PER_THREAD\<close>, a step of \<open>lock\<close>, the load and the store of
  \<open>critical_section\<close>, a step of \<open>unlock\<close>, the exit with \<open>t\<close> as its code.
\<close>

definition adder_step :: "('g, 'l, 'u, 'e) lock_ops \<Rightarrow> 64 word \<Rightarrow> nat \<Rightarrow> ('g, 'l, 'u) adder \<Rightarrow> ('g, 'l, 'u) adder option" where
  "adder_step L per_thread i s = (case ad_pc s i of
     Loop \<Rightarrow> Some (if ad_iter s i < unat per_thread then adder_goto i (Locking (lock_start L)) s
                   else adder_goto i (Exited (ucast (ad_t s i))) s)
   | Locking l \<Rightarrow> do { (r, g) \<leftarrow> lock_step L i l (ad_lock s);
                       Some (adder_goto i (case r of Some l \<Rightarrow> Locking l | None \<Rightarrow> Enter) (s\<lparr>ad_lock := g\<rparr>)) }
   | Enter \<Rightarrow> Some (adder_goto i (Read (ad_A s)) s)
   | Read cur \<Rightarrow> Some (adder_goto i (Unlocking (unlock_start L i))
                   (s\<lparr>ad_A := cur + 1, ad_t := (ad_t s)(i := square_rounds (ad_t s i))\<rparr>))
   | Unlocking u \<Rightarrow> do { (r, g) \<leftarrow> unlock_step L i u (ad_lock s);
                         Some (case r of Some u \<Rightarrow> adder_goto i (Unlocking u) (s\<lparr>ad_lock := g\<rparr>)
                               | None \<Rightarrow> adder_goto i Loop (s\<lparr>ad_lock := g, ad_iter := (ad_iter s)(i := ad_iter s i + 1)\<rparr>)) }
   | Exited _ \<Rightarrow> None)"

fun adder_turn :: "('g, 'l, 'u, 'e) lock_ops \<Rightarrow> 64 word \<Rightarrow> nat \<Rightarrow> 'e turn \<Rightarrow> ('g, 'l, 'u) adder \<Rightarrow> ('g, 'l, 'u) adder" where
  "adder_turn L n c (Thread i) s = (if i < c then case adder_step L n i s of Some s' \<Rightarrow> s' | None \<Rightarrow> s else s)"
| "adder_turn L n c (Env e) s = (case env_step L e (ad_lock s) of Some g \<Rightarrow> s\<lparr>ad_lock := g\<rparr> | None \<Rightarrow> s)"

definition adder_new :: "'g \<Rightarrow> ('g, 'l, 'u) adder" where
  "adder_new g = \<lparr>ad_A = 0, ad_lock = g, ad_pc = \<lambda>_. Loop, ad_iter = \<lambda>_. 0, ad_t = \<lambda>_. 2\<rparr>"

text \<open>The program: \<open>c\<close> threads that add \<open>n\<close> times each, with the given turns.\<close>

definition adder_run :: "('g, 'l, 'u, 'e) lock_ops \<Rightarrow> 64 word \<Rightarrow> nat \<Rightarrow> 'g \<Rightarrow> 'e turn list \<Rightarrow> ('g, 'l, 'u) adder" where
  "adder_run L n c g turns = fold (adder_turn L n c) turns (adder_new g)"

fun adder_exited :: "('l, 'u) adder_pc \<Rightarrow> bool" where
  "adder_exited (Exited _) = True"
| "adder_exited _ = False"

fun adder_inside :: "('l, 'u) adder_pc \<Rightarrow> bool" where
  "adder_inside Enter = True"
| "adder_inside (Read _) = True"
| "adder_inside _ = False"

definition all_exited :: "nat \<Rightarrow> ('g, 'l, 'u) adder \<Rightarrow> bool" where
  "all_exited c s = list_all (\<lambda>i. adder_exited (ad_pc s i)) [0..<c]"

text \<open>The assertion of \<open>main\<close> after it has waited for all threads.\<close>

definition adder_assertion :: "64 word \<Rightarrow> nat \<Rightarrow> ('g, 'l, 'u) adder \<Rightarrow> bool" where
  "adder_assertion per_thread thread_count s = (ad_A s = per_thread * of_nat thread_count)"

section \<open>Programs that check the critical section\<close>

datatype ('l, 'u) guard_pc =
  GLoop | GLocking 'l | GEnter | GClaim nat | GLeave | GUnlocking 'u | GDone | GPanic

record ('g, 'l, 'u) guarded =
  gd_GUARD :: "64 word"
  gd_lock :: 'g
  gd_pc :: "nat \<Rightarrow> ('l, 'u) guard_pc"
  gd_iter :: "nat \<Rightarrow> nat"

definition guard_goto :: "nat \<Rightarrow> ('l, 'u) guard_pc \<Rightarrow> ('g, 'l, 'u) guarded \<Rightarrow> ('g, 'l, 'u) guarded" where
  "guard_goto i p s = s\<lparr>gd_pc := (gd_pc s)(i := p)\<rparr>"

text \<open>\<open>critical_test_enter\<close>, \<open>critical_test_claim\<close> and \<open>critical_test_exit\<close>: the atomic operation on \<open>GUARD\<close> and its assertion.\<close>

definition critical_test_enter :: "nat \<Rightarrow> ('g, 'l, 'u) guarded \<Rightarrow> ('g, 'l, 'u) guarded" where
  "critical_test_enter i s = guard_goto i (if gd_GUARD s = 0 then GClaim 3 else GPanic) (s\<lparr>gd_GUARD := gd_GUARD s + 1\<rparr>)"

definition critical_test_claim :: "nat \<Rightarrow> nat \<Rightarrow> ('g, 'l, 'u) guarded \<Rightarrow> ('g, 'l, 'u) guarded" where
  "critical_test_claim i left s =
     guard_goto i (if gd_GUARD s = 1 then (if left = 1 then GLeave else GClaim (left - 1)) else GPanic) s"

definition critical_test_exit :: "'u \<Rightarrow> nat \<Rightarrow> ('g, 'l, 'u) guarded \<Rightarrow> ('g, 'l, 'u) guarded" where
  "critical_test_exit u i s = guard_goto i (if gd_GUARD s = 1 then GUnlocking u else GPanic) (s\<lparr>gd_GUARD := gd_GUARD s - 1\<rparr>)"

definition guard_step :: "('g, 'l, 'u, 'e) lock_ops \<Rightarrow> nat \<Rightarrow> nat \<Rightarrow> ('g, 'l, 'u) guarded \<Rightarrow> ('g, 'l, 'u) guarded option" where
  "guard_step L n i s = (case gd_pc s i of
     GLoop \<Rightarrow> Some (guard_goto i (if gd_iter s i < n then GLocking (lock_start L) else GDone) s)
   | GLocking l \<Rightarrow> do { (r, g) \<leftarrow> lock_step L i l (gd_lock s);
                        Some (guard_goto i (case r of Some l \<Rightarrow> GLocking l | None \<Rightarrow> GEnter) (s\<lparr>gd_lock := g\<rparr>)) }
   | GEnter \<Rightarrow> Some (critical_test_enter i s)
   | GClaim left \<Rightarrow> Some (critical_test_claim i left s)
   | GLeave \<Rightarrow> Some (critical_test_exit (unlock_start L i) i s)
   | GUnlocking u \<Rightarrow> do { (r, g) \<leftarrow> unlock_step L i u (gd_lock s);
                          Some (case r of Some u \<Rightarrow> guard_goto i (GUnlocking u) (s\<lparr>gd_lock := g\<rparr>)
                                | None \<Rightarrow> guard_goto i GLoop (s\<lparr>gd_lock := g, gd_iter := (gd_iter s)(i := gd_iter s i + 1)\<rparr>)) }
   | GDone \<Rightarrow> None
   | GPanic \<Rightarrow> None)"

fun guard_turn :: "('g, 'l, 'u, 'e) lock_ops \<Rightarrow> nat \<Rightarrow> nat \<Rightarrow> 'e turn \<Rightarrow> ('g, 'l, 'u) guarded \<Rightarrow> ('g, 'l, 'u) guarded" where
  "guard_turn L n c (Thread i) s = (if i < c then case guard_step L n i s of Some s' \<Rightarrow> s' | None \<Rightarrow> s else s)"
| "guard_turn L n c (Env e) s = (case env_step L e (gd_lock s) of Some g \<Rightarrow> s\<lparr>gd_lock := g\<rparr> | None \<Rightarrow> s)"

definition guard_new :: "'g \<Rightarrow> ('g, 'l, 'u) guarded" where
  "guard_new g = \<lparr>gd_GUARD = 0, gd_lock = g, gd_pc = \<lambda>_. GLoop, gd_iter = \<lambda>_. 0\<rparr>"

definition guard_run :: "('g, 'l, 'u, 'e) lock_ops \<Rightarrow> nat \<Rightarrow> nat \<Rightarrow> 'g \<Rightarrow> 'e turn list \<Rightarrow> ('g, 'l, 'u) guarded" where
  "guard_run L n c g turns = fold (guard_turn L n c) turns (guard_new g)"

fun guard_inside :: "('l, 'u) guard_pc \<Rightarrow> bool" where
  "guard_inside GEnter = True"
| "guard_inside (GClaim _) = True"
| "guard_inside GLeave = True"
| "guard_inside _ = False"

section \<open>What a lock promises\<close>

text \<open>How often a thread has added, and where it is with respect to the lock.\<close>

fun adder_lock_pc :: "('l, 'u) adder_pc \<Rightarrow> ('l, 'u) lock_pc" where
  "adder_lock_pc Loop = Idle"
| "adder_lock_pc (Locking l) = Acquiring l"
| "adder_lock_pc Enter = Holding"
| "adder_lock_pc (Read _) = Holding"
| "adder_lock_pc (Unlocking u) = Releasing u"
| "adder_lock_pc (Exited _) = Idle"

definition added :: "('g, 'l, 'u) adder \<Rightarrow> nat \<Rightarrow> nat" where
  "added s i = ad_iter s i + (case ad_pc s i of Unlocking _ \<Rightarrow> 1 | _ \<Rightarrow> 0)"

definition thread_ok :: "64 word \<Rightarrow> ('g, 'l, 'u) adder \<Rightarrow> nat \<Rightarrow> bool" where
  "thread_ok n s i \<longleftrightarrow> added s i \<le> unat n \<and> ad_t s i = (square_rounds ^^ added s i) 2
     \<and> (case ad_pc s i of Loop \<Rightarrow> True | Read cur \<Rightarrow> cur = ad_A s \<and> added s i < unat n
        | Exited code \<Rightarrow> added s i = unat n \<and> code = ucast ((square_rounds ^^ unat n) 2)
        | Unlocking _ \<Rightarrow> True | _ \<Rightarrow> added s i < unat n)"

definition adder_inv :: "(nat \<Rightarrow> 'g \<Rightarrow> (nat \<Rightarrow> ('l, 'u) lock_pc) \<Rightarrow> bool) \<Rightarrow> 64 word \<Rightarrow> nat \<Rightarrow> ('g, 'l, 'u) adder \<Rightarrow> bool" where
  "adder_inv linv n c s \<longleftrightarrow> linv c (ad_lock s) (adder_lock_pc \<circ> ad_pc s) \<and> ad_A s = of_nat (\<Sum>i<c. added s i) \<and> (\<forall>i<c. thread_ok n s i)"

lemma sum_bump: "i < c \<Longrightarrow> (\<Sum>j<c. (f(i := Suc (f i))) j) = Suc (\<Sum>j<c. f j)" for f :: "nat \<Rightarrow> nat"
  by (simp add: sum.remove [of "{..<c}" i])

lemma comp_upd: "f \<circ> (h(i := x)) = (f \<circ> h)(i := f x)"
  by auto

lemma added_lock [simp]: "added (s\<lparr>ad_lock := g\<rparr>) i = added s i"
  by (simp add: added_def)

lemma thread_ok_lock [simp]: "thread_ok n (s\<lparr>ad_lock := g\<rparr>) i = thread_ok n s i"
  by (cases "ad_pc s i") (simp_all add: thread_ok_def)

fun guard_lock_pc :: "('l, 'u) guard_pc \<Rightarrow> ('l, 'u) lock_pc" where
  "guard_lock_pc (GLocking l) = Acquiring l"
| "guard_lock_pc GEnter = Holding"
| "guard_lock_pc (GClaim _) = Holding"
| "guard_lock_pc GLeave = Holding"
| "guard_lock_pc (GUnlocking u) = Releasing u"
| "guard_lock_pc _ = Idle"

fun counted :: "('l, 'u) guard_pc \<Rightarrow> bool" where
  "counted (GClaim _) = True"
| "counted GLeave = True"
| "counted _ = False"

definition guard_inv :: "(nat \<Rightarrow> 'g \<Rightarrow> (nat \<Rightarrow> ('l, 'u) lock_pc) \<Rightarrow> bool) \<Rightarrow> nat \<Rightarrow> nat \<Rightarrow> ('g, 'l, 'u) guarded \<Rightarrow> bool" where
  "guard_inv linv n c s \<longleftrightarrow> linv c (gd_lock s) (guard_lock_pc \<circ> gd_pc s)
     \<and> gd_GUARD s = (if \<exists>i<c. counted (gd_pc s i) then 1 else 0)
     \<and> (\<forall>i<c. gd_pc s i \<noteq> GPanic \<and> (gd_pc s i = GDone \<longrightarrow> gd_iter s i = n) \<and> gd_iter s i + (if gd_pc s i \<in> {GLoop, GDone} then 0 else 1) \<le> n)"

text \<open>
  An invariant of the shared variables and of where each of the \<open>c\<close> threads is, which every step keeps and under which
  at most one thread holds the lock.
\<close>

locale user_lock =
  fixes L :: "('g, 'l, 'u, 'e) lock_ops"
    and linv :: "nat \<Rightarrow> 'g \<Rightarrow> (nat \<Rightarrow> ('l, 'u) lock_pc) \<Rightarrow> bool"
  assumes inv_call: "linv c g pc \<Longrightarrow> i < c \<Longrightarrow> pc i = Idle \<Longrightarrow> linv c g (pc(i := Acquiring (lock_start L)))"
    and inv_lock: "linv c g pc \<Longrightarrow> i < c \<Longrightarrow> pc i = Acquiring l \<Longrightarrow> lock_step L i l g = Some (r, g') \<Longrightarrow>
      linv c g' (pc(i := case r of Some l \<Rightarrow> Acquiring l | None \<Rightarrow> Holding))"
    and inv_leave: "linv c g pc \<Longrightarrow> i < c \<Longrightarrow> pc i = Holding \<Longrightarrow> linv c g (pc(i := Releasing (unlock_start L i)))"
    and inv_unlock: "linv c g pc \<Longrightarrow> i < c \<Longrightarrow> pc i = Releasing u \<Longrightarrow> unlock_step L i u g = Some (r', g') \<Longrightarrow>
      linv c g' (pc(i := case r' of Some u \<Rightarrow> Releasing u | None \<Rightarrow> Idle))"
    and inv_env: "linv c g pc \<Longrightarrow> env_step L e g = Some g' \<Longrightarrow> linv c g' pc"
    and exclusive: "linv c g pc \<Longrightarrow> i < c \<Longrightarrow> j < c \<Longrightarrow> pc i = Holding \<Longrightarrow> pc j = Holding \<Longrightarrow> i = j"
begin

lemma adder_step_inv:
  assumes "adder_inv linv n c s" "i < c" "adder_step L n i s = Some s'"
  shows "adder_inv linv n c s'"
proof -
  have l: "linv c (ad_lock s) (adder_lock_pc \<circ> ad_pc s)" and A: "ad_A s = of_nat (\<Sum>i<c. added s i)"
    and ok: "\<And>j. j < c \<Longrightarrow> thread_ok n s j" using assms(1) by (auto simp: adder_inv_def)
  have keep: "adder_inv linv n c s'"
    if "linv c (ad_lock s') (adder_lock_pc \<circ> ad_pc s')" "added s' = added s" "ad_A s' = ad_A s" "thread_ok n s' i"
      "\<And>j. j \<noteq> i \<Longrightarrow> ad_pc s' j = ad_pc s j" "ad_t s' = ad_t s"
  proof -
    have "thread_ok n s' j" if "j < c" for j
    proof (cases "j = i")
      case False
      then show ?thesis using ok [OF that] \<open>\<And>j. j \<noteq> i \<Longrightarrow> ad_pc s' j = ad_pc s j\<close> [OF False] \<open>added s' = added s\<close> \<open>ad_A s' = ad_A s\<close> \<open>ad_t s' = ad_t s\<close>
        by (cases "ad_pc s j") (auto simp: thread_ok_def)
    qed (use \<open>thread_ok n s' i\<close> in simp)
    then show ?thesis using that A by (simp add: adder_inv_def)
  qed
  show ?thesis
  proof (cases "ad_pc s i")
    case Loop
    then have s': "s' = adder_goto i (if ad_iter s i < unat n then Locking (lock_start L) else Exited (ucast (ad_t s i))) s"
      using assms(3) by (auto simp: adder_step_def)
    have "linv c (ad_lock s) ((adder_lock_pc \<circ> ad_pc s)(i := Idle))" using l Loop by (simp add: fun_upd_idem)
    moreover have "added s' = added s" using Loop s' by (auto simp: added_def adder_goto_def)
    ultimately show ?thesis using s' Loop ok [OF assms(2)] inv_call [OF l assms(2)]
      by (intro keep) (auto simp: adder_goto_def comp_upd thread_ok_def added_def)
  next
    case (Locking k)
    then obtain r g where r: "lock_step L i k (ad_lock s) = Some (r, g)"
        "s' = adder_goto i (case r of Some l \<Rightarrow> Locking l | None \<Rightarrow> Enter) (s\<lparr>ad_lock := g\<rparr>)"
      using assms(3) by (auto simp: adder_step_def split: bind_splits)
    then show ?thesis using Locking ok [OF assms(2)] inv_lock [OF l assms(2) _ r(1)]
      by (intro keep) (auto simp: adder_goto_def comp_upd thread_ok_def added_def split: option.splits)
  next
    case Enter
    then have s': "s' = adder_goto i (Read (ad_A s)) s" using assms(3) by (auto simp: adder_step_def)
    have "linv c (ad_lock s) ((adder_lock_pc \<circ> ad_pc s)(i := Holding))" using l Enter by (simp add: fun_upd_idem)
    then show ?thesis using s' Enter ok [OF assms(2)]
      by (intro keep) (auto simp: adder_goto_def comp_upd thread_ok_def added_def)
  next
    case (Read cur)
    then have s': "s' = adder_goto i (Unlocking (unlock_start L i))
        (s\<lparr>ad_A := cur + 1, ad_t := (ad_t s)(i := square_rounds (ad_t s i))\<rparr>)"
      using assms(3) by (auto simp: adder_step_def)
    have "added s' = (added s)(i := Suc (added s i))" using Read s' by (auto simp: added_def adder_goto_def)
    moreover have "cur = ad_A s" using ok [OF assms(2)] Read by (simp add: thread_ok_def)
    moreover have "linv c (ad_lock s') (adder_lock_pc \<circ> ad_pc s')"
      using inv_leave [OF l assms(2)] Read s' by (simp add: adder_goto_def comp_upd)
    moreover have "thread_ok n s' j" if "j < c" "j \<noteq> i" for j
      using ok [OF that(1)] that(2) exclusive [OF l assms(2) that(1)] Read s' calculation(1)
      by (cases "ad_pc s j") (auto simp: thread_ok_def adder_goto_def)
    moreover have "thread_ok n s' i" using ok [OF assms(2)] Read s' calculation(1)
      by (auto simp: thread_ok_def adder_goto_def)
    ultimately show ?thesis using A s' assms(2) unfolding adder_inv_def
      by (auto simp: adder_goto_def sum_bump simp del: fun_upd_apply)
  next
    case (Unlocking u)
    then obtain r g where r: "unlock_step L i u (ad_lock s) = Some (r, g)"
        "s' = (case r of Some u \<Rightarrow> adder_goto i (Unlocking u) (s\<lparr>ad_lock := g\<rparr>)
               | None \<Rightarrow> adder_goto i Loop (s\<lparr>ad_lock := g, ad_iter := (ad_iter s)(i := ad_iter s i + 1)\<rparr>))"
      using assms(3) by (auto simp: adder_step_def split: bind_splits)
    then show ?thesis using Unlocking ok [OF assms(2)] inv_unlock [OF l assms(2) _ r(1)]
      by (intro keep) (auto simp: adder_goto_def comp_upd thread_ok_def added_def split: option.splits)
  qed (use assms(3) in \<open>simp add: adder_step_def\<close>)
qed

lemma adder_turn_inv: "adder_inv linv n c s \<Longrightarrow> adder_inv linv n c (adder_turn L n c e s)"
proof (cases e)
  case (Thread i)
  then show "adder_inv linv n c s \<Longrightarrow> ?thesis" using adder_step_inv by (auto split: option.splits)
next
  case (Env e)
  then show "adder_inv linv n c s \<Longrightarrow> ?thesis"
    by (auto simp: adder_inv_def inv_env split: option.splits)
qed

lemma adder_run_inv:
  assumes "linv c g (\<lambda>_. Idle)"
  shows "adder_inv linv n c (adder_run L n c g turns)"
proof -
  have "adder_inv linv n c (adder_new g)"
    using assms by (auto simp: adder_inv_def adder_new_def added_def thread_ok_def comp_def)
  moreover have "adder_inv linv n c s \<Longrightarrow> adder_inv linv n c (fold (adder_turn L n c) turns s)" for s
    by (induction turns arbitrary: s) (auto intro: adder_turn_inv)
  ultimately show ?thesis by (simp add: adder_run_def)
qed

text \<open>Nobody's addition is lost: when all threads have exited, the assertion of \<open>main\<close> holds.\<close>

lemma adder_ok:
  assumes "linv c g (\<lambda>_. Idle)" and s_def: "s = adder_run L n c g turns"
  shows "all_exited c s \<Longrightarrow> adder_assertion n c s"
    and "i < c \<Longrightarrow> ad_pc s i = Exited code \<Longrightarrow> code = ucast ((square_rounds ^^ unat n) 2)"
    and "i < c \<Longrightarrow> j < c \<Longrightarrow> adder_inside (ad_pc s i) \<Longrightarrow> adder_inside (ad_pc s j) \<Longrightarrow> i = j"
proof -
  have inv: "adder_inv linv n c s" unfolding s_def by (rule adder_run_inv [OF assms(1)])
  show "adder_assertion n c s" if "all_exited c s"
  proof -
    have "added s i = unat n" if "i < c" for i
      using inv that \<open>all_exited c s\<close>
      by (cases "ad_pc s i") (auto simp: adder_inv_def thread_ok_def all_exited_def list_all_iff dest!: bspec [of _ _ i] spec [of _ i])
    then have "(\<Sum>i<c. added s i) = c * unat n" by simp
    then have "ad_A s = of_nat (c * unat n)" using inv by (simp add: adder_inv_def)
    then show ?thesis by (simp add: adder_assertion_def)
  qed
  show "code = ucast ((square_rounds ^^ unat n) 2)" if "i < c" "ad_pc s i = Exited code"
    using inv that by (auto simp: adder_inv_def thread_ok_def)
  show "i = j" if "i < c" "j < c" "adder_inside (ad_pc s i)" "adder_inside (ad_pc s j)"
  proof (rule exclusive)
    show "linv c (ad_lock s) (adder_lock_pc \<circ> ad_pc s)" using inv by (simp add: adder_inv_def)
  qed (use that in \<open>auto elim: adder_inside.elims\<close>)
qed

lemma guard_step_inv:
  assumes "guard_inv linv n c s" "i < c" "guard_step L n i s = Some s'"
  shows "guard_inv linv n c s'"
proof -
  have l: "linv c (gd_lock s) (guard_lock_pc \<circ> gd_pc s)" and G: "gd_GUARD s = (if \<exists>i<c. counted (gd_pc s i) then 1 else 0)"
    and ok: "\<And>j. j < c \<Longrightarrow> gd_pc s j \<noteq> GPanic \<and> (gd_pc s j = GDone \<longrightarrow> gd_iter s j = n) \<and> gd_iter s j + (if gd_pc s j \<in> {GLoop, GDone} then 0 else 1) \<le> n"
    using assms(1) by (auto simp: guard_inv_def)
  have keep: "guard_inv linv n c s'"
    if "linv c (gd_lock s') (guard_lock_pc \<circ> gd_pc s')" "gd_GUARD s' = (if \<exists>i<c. counted (gd_pc s' i) then 1 else 0)"
      "\<And>j. j \<noteq> i \<Longrightarrow> gd_pc s' j = gd_pc s j \<and> gd_iter s' j = gd_iter s j"
      "gd_pc s' i \<noteq> GPanic \<and> (gd_pc s' i = GDone \<longrightarrow> gd_iter s' i = n) \<and> gd_iter s' i + (if gd_pc s' i \<in> {GLoop, GDone} then 0 else 1) \<le> n"
    unfolding guard_inv_def using that ok by metis
  have others: "(\<exists>j<c. counted (((gd_pc s)(i := p)) j)) \<longleftrightarrow> counted p \<or> (\<exists>j<c. j \<noteq> i \<and> counted (gd_pc s j))" for p
    using assms(2) by auto
  have same: "(\<exists>j<c. counted (((gd_pc s)(i := p)) j)) \<longleftrightarrow> (\<exists>j<c. counted (gd_pc s j))" if "counted p \<longleftrightarrow> counted (gd_pc s i)" for p
    using assms(2) that by auto
  have alone: "\<not> (\<exists>j<c. j \<noteq> i \<and> counted (gd_pc s j))" if "guard_lock_pc (gd_pc s i) = Holding"
  proof
    assume "\<exists>j<c. j \<noteq> i \<and> counted (gd_pc s j)"
    then obtain j where "j < c" "j \<noteq> i" "guard_lock_pc (gd_pc s j) = Holding" by (auto elim: counted.elims)
    then show False using exclusive [OF l assms(2), of j] that by simp
  qed
  have idem: "linv c (gd_lock s) ((guard_lock_pc \<circ> gd_pc s)(i := guard_lock_pc (gd_pc s i)))" using l by (simp add: fun_upd_idem)
  note defs = guard_goto_def comp_upd
  show ?thesis
  proof (cases "gd_pc s i")
    case GLoop
    then have s': "s' = guard_goto i (if gd_iter s i < n then GLocking (lock_start L) else GDone) s"
      using assms(3) by (auto simp: guard_step_def)
    then show ?thesis using GLoop ok [OF assms(2)] inv_call [OF l assms(2)] idem G same
      by (intro keep) (auto simp: defs fun_upd_same fun_upd_other simp del: fun_upd_apply)
  next
    case (GLocking k)
    then obtain r g where r: "lock_step L i k (gd_lock s) = Some (r, g)"
        "s' = guard_goto i (case r of Some l \<Rightarrow> GLocking l | None \<Rightarrow> GEnter) (s\<lparr>gd_lock := g\<rparr>)"
      using assms(3) by (auto simp: guard_step_def split: bind_splits)
    then show ?thesis using GLocking ok [OF assms(2)] inv_lock [OF l assms(2) _ r(1)] G same
      by (intro keep) (auto simp: defs fun_upd_same fun_upd_other split: option.splits simp del: fun_upd_apply)
  next
    case GEnter
    then have s': "s' = critical_test_enter i s" using assms(3) by (auto simp: guard_step_def)
    have "gd_GUARD s = 0" using alone G GEnter by (auto elim: counted.elims)
    then show ?thesis using GEnter ok [OF assms(2)] idem s' others
      by (intro keep) (auto simp: defs fun_upd_same fun_upd_other critical_test_enter_def simp del: fun_upd_apply)
  next
    case (GClaim k)
    then have s': "s' = critical_test_claim i k s" using assms(3) by (auto simp: guard_step_def)
    have "gd_GUARD s = 1" using G GClaim assms(2) by auto
    then show ?thesis using GClaim ok [OF assms(2)] idem s' others
      by (intro keep) (auto simp: defs fun_upd_same fun_upd_other critical_test_claim_def simp del: fun_upd_apply)
  next
    case GLeave
    then have s': "s' = critical_test_exit (unlock_start L i) i s" using assms(3) by (auto simp: guard_step_def)
    have "gd_GUARD s = 1" using G GLeave assms(2) by auto
    then show ?thesis using GLeave ok [OF assms(2)] inv_leave [OF l assms(2)] s' others alone
      by (intro keep) (auto simp: defs fun_upd_same fun_upd_other critical_test_exit_def simp del: fun_upd_apply)
  next
    case (GUnlocking u)
    then obtain r g where r: "unlock_step L i u (gd_lock s) = Some (r, g)"
        "s' = (case r of Some u \<Rightarrow> guard_goto i (GUnlocking u) (s\<lparr>gd_lock := g\<rparr>)
               | None \<Rightarrow> guard_goto i GLoop (s\<lparr>gd_lock := g, gd_iter := (gd_iter s)(i := gd_iter s i + 1)\<rparr>))"
      using assms(3) by (auto simp: guard_step_def split: bind_splits)
    then show ?thesis using GUnlocking ok [OF assms(2)] inv_unlock [OF l assms(2) _ r(1)] G same
      by (intro keep) (auto simp: defs fun_upd_same fun_upd_other split: option.splits simp del: fun_upd_apply)
  qed (use assms(3) in \<open>simp_all add: guard_step_def\<close>)
qed

lemma guard_turn_inv: "guard_inv linv n c s \<Longrightarrow> guard_inv linv n c (guard_turn L n c e s)"
proof (cases e)
  case (Thread i)
  then show "guard_inv linv n c s \<Longrightarrow> ?thesis" using guard_step_inv by (auto split: option.splits)
next
  case (Env e)
  then show "guard_inv linv n c s \<Longrightarrow> ?thesis" by (auto simp: guard_inv_def inv_env split: option.splits)
qed

lemma guard_run_inv:
  assumes "linv c g (\<lambda>_. Idle)"
  shows "guard_inv linv n c (guard_run L n c g turns)"
proof -
  have "guard_inv linv n c (guard_new g)" using assms by (auto simp: guard_inv_def guard_new_def comp_def)
  moreover have "guard_inv linv n c s \<Longrightarrow> guard_inv linv n c (fold (guard_turn L n c) turns s)" for s
    by (induction turns arbitrary: s) (auto intro: guard_turn_inv)
  ultimately show ?thesis by (simp add: guard_run_def)
qed

text \<open>No assertion of a critical section fails, and nobody is inside together with another thread.\<close>

lemma guard_ok:
  assumes "linv c g (\<lambda>_. Idle)" and s_def: "s = guard_run L n c g turns"
  shows "i < c \<Longrightarrow> gd_pc s i \<noteq> GPanic"
    and "i < c \<Longrightarrow> j < c \<Longrightarrow> guard_inside (gd_pc s i) \<Longrightarrow> guard_inside (gd_pc s j) \<Longrightarrow> i = j"
    and "i < c \<Longrightarrow> gd_iter s i \<le> n \<and> (gd_pc s i = GDone \<longrightarrow> gd_iter s i = n)"
proof -
  have inv: "guard_inv linv n c s" unfolding s_def by (rule guard_run_inv [OF assms(1)])
  show "gd_pc s i \<noteq> GPanic" "gd_iter s i \<le> n \<and> (gd_pc s i = GDone \<longrightarrow> gd_iter s i = n)" if "i < c"
    using inv that by (auto simp: guard_inv_def split: if_splits)
  show "i = j" if "i < c" "j < c" "guard_inside (gd_pc s i)" "guard_inside (gd_pc s j)"
  proof (rule exclusive)
    show "linv c (gd_lock s) (guard_lock_pc \<circ> gd_pc s)" using inv by (simp add: guard_inv_def)
  qed (use that in \<open>auto elim: guard_inside.elims\<close>)
qed

end

end
