(* ===== verification/UserMutual.thy ===== *)
theory UserMutual
  imports UserLocks
begin

text \<open>
  The locks of \<open>adder_peterson_spin.rs\<close>, \<open>adder_peterson_yield.rs\<close>, \<open>peterson.rs\<close>, \<open>eisenberg.rs\<close> and \<open>adder_atomic.rs\<close>, with
  proofs that they keep the contract of \<open>user_lock\<close>, and the programs \<open>adder.rs\<close>, \<open>adder_simple_spin.rs\<close> and
  \<open>adder_simple_yield.rs\<close>, which have no lock or one that does not keep it. Where a program waits by yielding or
  sleeping, this is a turn of the others and not a step of the model. The accesses of a thread are taken in the order of
  the program: that the compiler keeps this order also where the program has no fence between two stores is assumed.
\<close>

unbundle bit_operations_syntax

section \<open>Peterson's lock\<close>

record peterson =
  pt_FLAG :: "bool list"
  pt_TURN :: nat

datatype peterson_pc = SetFlag | SetTurn | TestFlag | TestTurn

fun peterson_lock_step :: "nat \<Rightarrow> nat \<Rightarrow> peterson_pc \<Rightarrow> peterson \<Rightarrow> (peterson_pc option \<times> peterson) option" where
  "peterson_lock_step me peer SetFlag g =
     do { assert_that (me < length (pt_FLAG g)); Some (Some SetTurn, g\<lparr>pt_FLAG := (pt_FLAG g)[me := True]\<rparr>) }"
| "peterson_lock_step me peer SetTurn g = Some (Some TestFlag, g\<lparr>pt_TURN := peer\<rparr>)"
| "peterson_lock_step me peer TestFlag g =
     do { f \<leftarrow> index_at (pt_FLAG g) peer; Some (if f then Some TestTurn else None, g) }"
| "peterson_lock_step me peer TestTurn g = Some (if pt_TURN g = peer then Some TestFlag else None, g)"

definition peterson_unlock_step :: "nat \<Rightarrow> unit \<Rightarrow> peterson \<Rightarrow> (unit option \<times> peterson) option" where
  "peterson_unlock_step me u g =
     do { assert_that (me < length (pt_FLAG g)); Some (None, g\<lparr>pt_FLAG := (pt_FLAG g)[me := False]\<rparr>) }"

definition peterson_ops :: "(nat \<Rightarrow> nat) \<Rightarrow> (peterson, peterson_pc, unit, unit) lock_ops" where
  "peterson_ops peer = \<lparr>lock_start = SetFlag, lock_step = \<lambda>me. peterson_lock_step me (peer me), unlock_start = \<lambda>_. (),
     unlock_step = peterson_unlock_step, env_step = \<lambda>_ g. Some g\<rparr>"

text \<open>The other thread: \<open>1 - id\<close> in the adders, \<open>id ^ 1\<close> in \<open>peterson.rs\<close>.\<close>

definition adder_peer :: "nat \<Rightarrow> nat" where
  "adder_peer me = 1 - me"

definition peterson_peer :: "nat \<Rightarrow> nat" where
  "peterson_peer me = me XOR 1"

definition peterson_new :: peterson where
  "peterson_new = \<lparr>pt_FLAG = [False, False], pt_TURN = 0\<rparr>"

fun wants :: "(peterson_pc, unit) lock_pc \<Rightarrow> bool" where
  "wants Idle = False"
| "wants (Acquiring p) = (p \<noteq> SetFlag)"
| "wants _ = True"

fun testing :: "(peterson_pc, unit) lock_pc \<Rightarrow> bool" where
  "testing (Acquiring p) = (p = TestFlag \<or> p = TestTurn)"
| "testing _ = False"

fun past :: "('l, 'u) lock_pc \<Rightarrow> bool" where
  "past Holding = True"
| "past (Releasing _) = True"
| "past _ = False"

definition peterson_inv :: "nat \<Rightarrow> peterson \<Rightarrow> (nat \<Rightarrow> (peterson_pc, unit) lock_pc) \<Rightarrow> bool" where
  "peterson_inv c g pc \<longleftrightarrow> c \<le> 2 \<and> length (pt_FLAG g) = 2 \<and> pt_TURN g < 2 \<and> (pt_FLAG g ! 0 \<longleftrightarrow> wants (pc 0)) \<and> (pt_FLAG g ! 1 \<longleftrightarrow> wants (pc 1))
     \<and> (past (pc 0) \<longrightarrow> \<not> past (pc 1)) \<and> (past (pc 0) \<and> testing (pc 1) \<longrightarrow> pt_TURN g = 0) \<and> (past (pc 1) \<and> testing (pc 0) \<longrightarrow> pt_TURN g = 1)"

lemma wants_if: "testing p \<Longrightarrow> wants p" "past p \<Longrightarrow> wants p"
  by (auto elim: testing.elims past.elims)

lemma two_threads: "i < c \<Longrightarrow> c \<le> 2 \<Longrightarrow> i = 0 \<or> i = 1" for i :: nat
  by auto

lemma peterson_lock:
  assumes "peer 0 = 1" "peer 1 = 0"
  shows "user_lock (peterson_ops peer) peterson_inv"
proof unfold_locales
  fix c i l r and r' :: "unit option" and g g' :: peterson and pc :: "nat \<Rightarrow> (peterson_pc, unit) lock_pc"
  assume inv: "peterson_inv c g pc" and i: "i < c"
  then have i2: "i = 0 \<or> i = 1" unfolding peterson_inv_def using two_threads by blast
  show "peterson_inv c g (pc(i := Acquiring (lock_start (peterson_ops peer))))" if "pc i = Idle"
    using i2 inv that by (elim disjE) (simp_all add: peterson_inv_def peterson_ops_def)
  show "peterson_inv c g (pc(i := Releasing (unlock_start (peterson_ops peer) i)))" if "pc i = Holding"
    using i2 inv that by (elim disjE) (simp_all add: peterson_inv_def)
  show "peterson_inv c g' (pc(i := case r of Some l \<Rightarrow> Acquiring l | None \<Rightarrow> Holding))"
    if "pc i = Acquiring l" "lock_step (peterson_ops peer) i l g = Some (r, g')"
    using i2 inv that assms by (elim disjE; cases l) (auto simp: peterson_inv_def peterson_ops_def index_at_def dest: wants_if split: if_splits)
  show "peterson_inv c g' (pc(i := case r' of Some u \<Rightarrow> Releasing u | None \<Rightarrow> Idle))"
    if "pc i = Releasing u" "unlock_step (peterson_ops peer) i u g = Some (r', g')" for u
    using i2 inv that by (elim disjE) (auto simp: peterson_inv_def peterson_ops_def peterson_unlock_step_def)
next
  fix c i j and g :: peterson and pc
  assume inv: "peterson_inv c g pc" and ij: "i < c" "j < c" and h: "pc i = Holding" "pc j = Holding"
  then have "c \<le> 2" by (simp add: peterson_inv_def)
  then have "i = 0 \<or> i = 1" "j = 0 \<or> j = 1" using ij two_threads by blast+
  then show "i = j" using inv h by (elim disjE) (simp_all add: peterson_inv_def)
qed (simp add: peterson_ops_def)

interpretation pa: user_lock "peterson_ops adder_peer" peterson_inv
  by (rule peterson_lock) (simp_all add: adder_peer_def)

interpretation pp: user_lock "peterson_ops peterson_peer" peterson_inv
  by (rule peterson_lock) (simp_all add: peterson_peer_def)

section \<open>The lock of Eisenberg and McGuire\<close>

definition THREAD_NUM :: nat where "THREAD_NUM = 10"

datatype FlagState = Out | Want | In

record eisenberg =
  eb_TURN :: nat
  eb_FLAG :: "FlagState list"

text \<open>
  Where a thread is inside \<open>eisenberg_enter_critical\<close>: before the store of \<open>Want\<close>, before the load of \<open>TURN\<close>, in the loop over the
  threads with priority (the next one to look at and the end of the range), before the store of \<open>In\<close>, in the loop of the
  conflict check (the next thread to look at, and the flag \<open>conflict\<close>), before the store of \<open>TURN\<close>.
\<close>

datatype eisenberg_pc = Announce | LoadTurn | Scan nat nat | Claim | Check nat bool | TakeTurn

fun eisenberg_lock_step :: "nat \<Rightarrow> eisenberg_pc \<Rightarrow> eisenberg \<Rightarrow> (eisenberg_pc option \<times> eisenberg) option" where
  "eisenberg_lock_step me Announce g =
     do { assert_that (me < length (eb_FLAG g)); Some (Some LoadTurn, g\<lparr>eb_FLAG := (eb_FLAG g)[me := Want]\<rparr>) }"
| "eisenberg_lock_step me LoadTurn g =
     (let turn = eb_TURN g; ring_id = if me < turn then me + THREAD_NUM else me in Some (Some (Scan turn ring_id), g))"
| "eisenberg_lock_step me (Scan i ring_id) g =
     (if i < ring_id then
        do { f \<leftarrow> index_at (eb_FLAG g) (i mod THREAD_NUM);
             Some (Some (if f \<noteq> Out then LoadTurn else Scan (i + 1) ring_id), g) }
      else Some (Some Claim, g))"
| "eisenberg_lock_step me Claim g =
     do { assert_that (me < length (eb_FLAG g)); Some (Some (Check 0 False), g\<lparr>eb_FLAG := (eb_FLAG g)[me := In]\<rparr>) }"
| "eisenberg_lock_step me (Check i conflict) g =
     (if i < THREAD_NUM then
        if i = me then Some (Some (Check (i + 1) conflict), g)
        else do { f \<leftarrow> index_at (eb_FLAG g) i; Some (Some (Check (i + 1) (f = In \<or> conflict)), g) }
      else Some (Some (if conflict then Announce else TakeTurn), g))"
| "eisenberg_lock_step me TakeTurn g = Some (None, g\<lparr>eb_TURN := me\<rparr>)"

text \<open>Inside \<open>eisenberg_exit_critical\<close>: the loop that looks for the next thread that wants to enter, and the two stores.\<close>

datatype eisenberg_exit = FindNext nat | GiveTurn nat | ClearFlag

fun eisenberg_unlock_step :: "nat \<Rightarrow> eisenberg_exit \<Rightarrow> eisenberg \<Rightarrow> (eisenberg_exit option \<times> eisenberg) option" where
  "eisenberg_unlock_step me (FindNext i) g =
     (if i < me + THREAD_NUM then
        do { f \<leftarrow> index_at (eb_FLAG g) (i mod THREAD_NUM);
             Some (Some (if f = Want then GiveTurn (i mod THREAD_NUM) else FindNext (i + 1)), g) }
      else Some (Some (GiveTurn me), g))"
| "eisenberg_unlock_step me (GiveTurn nxt) g = Some (Some ClearFlag, g\<lparr>eb_TURN := nxt\<rparr>)"
| "eisenberg_unlock_step me ClearFlag g =
     do { assert_that (me < length (eb_FLAG g)); Some (None, g\<lparr>eb_FLAG := (eb_FLAG g)[me := Out]\<rparr>) }"

definition eisenberg_ops :: "(eisenberg, eisenberg_pc, eisenberg_exit, unit) lock_ops" where
  "eisenberg_ops = \<lparr>lock_start = Announce, lock_step = eisenberg_lock_step, unlock_start = \<lambda>me. FindNext (me + 1),
     unlock_step = eisenberg_unlock_step, env_step = \<lambda>_ g. Some g\<rparr>"

definition eisenberg_new :: eisenberg where
  "eisenberg_new = \<lparr>eb_TURN = 0, eb_FLAG = replicate THREAD_NUM Out\<rparr>"

text \<open>
  A thread has announced \<open>In\<close> from the store on. It has passed another thread when it has seen since then that the
  other is not \<open>In\<close>. Two threads never have passed each other: the later one to look would have seen the other.
\<close>

fun claiming :: "(eisenberg_pc, eisenberg_exit) lock_pc \<Rightarrow> bool" where
  "claiming (Acquiring (Check _ _)) = True"
| "claiming (Acquiring TakeTurn) = True"
| "claiming Holding = True"
| "claiming (Releasing _) = True"
| "claiming _ = False"

fun passed :: "(eisenberg_pc, eisenberg_exit) lock_pc \<Rightarrow> nat \<Rightarrow> bool" where
  "passed (Acquiring (Check i conflict)) q = (\<not> conflict \<and> q < i)"
| "passed (Acquiring TakeTurn) q = True"
| "passed Holding q = True"
| "passed (Releasing _) q = True"
| "passed _ q = False"

definition eisenberg_inv :: "nat \<Rightarrow> eisenberg \<Rightarrow> (nat \<Rightarrow> (eisenberg_pc, eisenberg_exit) lock_pc) \<Rightarrow> bool" where
  "eisenberg_inv c g pc \<longleftrightarrow> c \<le> THREAD_NUM \<and> length (eb_FLAG g) = THREAD_NUM
     \<and> (\<forall>p<c. claiming (pc p) \<longrightarrow> eb_FLAG g ! p = In) \<and> (\<forall>p<c. \<forall>q<c. p \<noteq> q \<longrightarrow> passed (pc p) q \<longrightarrow> \<not> passed (pc q) p)"

lemma passed_claiming: "passed p q \<Longrightarrow> claiming p"
  by (auto elim: passed.elims)

text \<open>
  A step that changes only the own flag and the own place keeps the invariant when whom the thread has newly passed
  does not claim.
\<close>

lemma eisenberg_invI:
  assumes "eisenberg_inv c g pc" "me < c" "length (eb_FLAG g') = THREAD_NUM"
    and "\<And>j. j < c \<Longrightarrow> j \<noteq> me \<Longrightarrow> eb_FLAG g' ! j = eb_FLAG g ! j" "claiming p \<Longrightarrow> eb_FLAG g' ! me = In"
    and "\<And>q. q < c \<Longrightarrow> q \<noteq> me \<Longrightarrow> passed p q \<Longrightarrow> passed (pc me) q \<or> eb_FLAG g ! q \<noteq> In"
  shows "eisenberg_inv c g' (pc(me := p))"
proof -
  have new: "\<not> passed (pc q) me" if "q < c" "q \<noteq> me" "passed p q" for q
    using assms(1,2) assms(6) [OF that] that(1,2) passed_claiming [of "pc q" me] unfolding eisenberg_inv_def by metis
  have old: "\<not> passed (pc q) i" if "i < c" "q < c" "i \<noteq> q" "passed (pc i) q" for i q
    using assms(1) that unfolding eisenberg_inv_def by metis
  have "eb_FLAG g' ! i = In" if "i < c" "claiming ((pc(me := p)) i)" for i
    using assms(1,4,5) that unfolding eisenberg_inv_def by (cases "i = me") simp_all
  moreover have "\<not> passed ((pc(me := p)) q) i" if "i < c" "q < c" "i \<noteq> q" "passed ((pc(me := p)) i) q" for i q
    using that new [of q] new [of i] old [of i q] by (cases "i = me"; cases "q = me") auto
  ultimately show ?thesis using assms(1,3) unfolding eisenberg_inv_def by blast
qed

interpretation eb: user_lock eisenberg_ops eisenberg_inv
proof unfold_locales
  fix c me l r and g g' :: eisenberg and pc :: "nat \<Rightarrow> (eisenberg_pc, eisenberg_exit) lock_pc"
  assume inv: "eisenberg_inv c g pc" and me: "me < c"
  have len: "length (eb_FLAG g) = THREAD_NUM" "c \<le> THREAD_NUM" using inv by (simp_all add: eisenberg_inv_def)
  have mine: "eb_FLAG g ! me = In" if "claiming (pc me)" using inv me that by (simp add: eisenberg_inv_def)
  show "eisenberg_inv c g (pc(me := Acquiring (lock_start eisenberg_ops)))" if "pc me = Idle"
    using len by (intro eisenberg_invI [OF inv me]) (auto simp: eisenberg_ops_def)
  show "eisenberg_inv c g (pc(me := Releasing (unlock_start eisenberg_ops me)))" if "pc me = Holding"
    using len mine that by (intro eisenberg_invI [OF inv me]) auto
  show "eisenberg_inv c g' (pc(me := case r of Some l \<Rightarrow> Acquiring l | None \<Rightarrow> Holding))"
    if l: "pc me = Acquiring l" and s: "lock_step eisenberg_ops me l g = Some (r, g')"
  proof (cases l)
    case (Check i conflict)
    with s have s: "eisenberg_lock_step me (Check i conflict) g = Some (r, g')" by (simp add: eisenberg_ops_def)
    then have "g' = g" by (auto split: if_splits bind_splits)
    moreover have "passed (pc me) q \<or> eb_FLAG g ! q \<noteq> In"
      if "q < c" "q \<noteq> me" "passed (case r of Some l \<Rightarrow> Acquiring l | None \<Rightarrow> Holding) q" for q
      using s that l Check len by (auto split: if_splits simp: less_Suc_eq)
    ultimately show ?thesis using len mine l Check by (intro eisenberg_invI [OF inv me]) auto
  qed (use s l len mine me in \<open>auto intro!: eisenberg_invI [OF inv me] simp: eisenberg_ops_def Let_def split: if_splits bind_splits\<close>)
  show "eisenberg_inv c g' (pc(me := case r' of Some u \<Rightarrow> Releasing u | None \<Rightarrow> Idle))"
    if "pc me = Releasing u" "unlock_step eisenberg_ops me u g = Some (r', g')" for u and r' :: "eisenberg_exit option"
    using that len mine me
    by (cases u) (auto intro!: eisenberg_invI [OF inv me] simp: eisenberg_ops_def split: if_splits bind_splits)
next
  fix c i j and g :: eisenberg and pc
  assume "eisenberg_inv c g pc" "i < c" "j < c" "pc i = Holding" "pc j = Holding"
  then show "i = j" unfolding eisenberg_inv_def by (metis passed.simps(3))
qed (simp add: eisenberg_ops_def)

section \<open>The atomic lock\<close>

text \<open>\<open>adder_atomic.rs\<close>: one \<open>compare_exchange\<close> per round of the loop of \<open>lock\<close>, a store in \<open>unlock\<close>.\<close>

definition atomic_lock_step :: "nat \<Rightarrow> unit \<Rightarrow> bool \<Rightarrow> (unit option \<times> bool) option" where
  "atomic_lock_step me l occupied = Some (if occupied then (Some (), occupied) else (None, True))"

definition atomic_unlock_step :: "nat \<Rightarrow> unit \<Rightarrow> bool \<Rightarrow> (unit option \<times> bool) option" where
  "atomic_unlock_step me u occupied = Some (None, False)"

definition atomic_ops :: "(bool, unit, unit, unit) lock_ops" where
  "atomic_ops = \<lparr>lock_start = (), lock_step = atomic_lock_step, unlock_start = \<lambda>_. (), unlock_step = atomic_unlock_step,
     env_step = \<lambda>_ g. Some g\<rparr>"

definition atomic_inv :: "nat \<Rightarrow> bool \<Rightarrow> (nat \<Rightarrow> (unit, unit) lock_pc) \<Rightarrow> bool" where
  "atomic_inv c occupied pc \<longleftrightarrow> (\<forall>i<c. past (pc i) \<longrightarrow> occupied) \<and> (\<forall>i<c. \<forall>j<c. past (pc i) \<longrightarrow> past (pc j) \<longrightarrow> i = j)"

interpretation at: user_lock atomic_ops atomic_inv
proof unfold_locales
  fix c i l r and g g' :: bool and pc :: "nat \<Rightarrow> (unit, unit) lock_pc"
  assume inv: "atomic_inv c g pc" and i: "i < c"
  show "atomic_inv c g (pc(i := Acquiring (lock_start atomic_ops)))" if "pc i = Idle"
    using inv that by (simp add: atomic_inv_def)
  show "atomic_inv c g (pc(i := Releasing (unlock_start atomic_ops i)))" if "pc i = Holding"
    using inv i that unfolding atomic_inv_def by (metis fun_upd_apply past.simps(1))
  show "atomic_inv c g' (pc(i := case r of Some l \<Rightarrow> Acquiring l | None \<Rightarrow> Holding))"
    if "pc i = Acquiring l" "lock_step atomic_ops i l g = Some (r, g')"
    using inv that by (cases g) (auto simp: atomic_inv_def atomic_ops_def atomic_lock_step_def)
  show "atomic_inv c g' (pc(i := case r' of Some u \<Rightarrow> Releasing u | None \<Rightarrow> Idle))"
    if "pc i = Releasing u" "unlock_step atomic_ops i u g = Some (r', g')" for u and r' :: "unit option"
  proof -
    have "r' = None" "\<not> g'" using that(2) by (auto simp: atomic_ops_def atomic_unlock_step_def)
    moreover have "\<not> past (pc j)" if "j < c" "j \<noteq> i" for j
      using inv i that \<open>pc i = Releasing u\<close> unfolding atomic_inv_def by (metis past.simps(2))
    ultimately show ?thesis by (auto simp: atomic_inv_def)
  qed
next
  fix c i j and g :: bool and pc :: "nat \<Rightarrow> (unit, unit) lock_pc"
  assume "atomic_inv c g pc" "i < c" "j < c" "pc i = Holding" "pc j = Holding"
  then show "i = j" unfolding atomic_inv_def by (metis past.simps(1))
qed (simp add: atomic_ops_def)

section \<open>No lock, and a lock that is none\<close>

text \<open>\<open>adder.rs\<close> calls no lock at all; \<open>lock\<close> and \<open>unlock\<close> of the model do nothing.\<close>

definition no_ops :: "(unit, unit, unit, unit) lock_ops" where
  "no_ops = \<lparr>lock_start = (), lock_step = \<lambda>_ _ g. Some (None, g), unlock_start = \<lambda>_. (), unlock_step = \<lambda>_ _ g. Some (None, g),
     env_step = \<lambda>_ g. Some g\<rparr>"

text \<open>\<open>adder_simple_spin.rs\<close> and \<open>adder_simple_yield.rs\<close>: the load and the store of \<open>OCCUPIED\<close> are two steps.\<close>

datatype simple_pc = LoadOccupied | StoreOccupied

fun simple_lock_step :: "nat \<Rightarrow> simple_pc \<Rightarrow> bool \<Rightarrow> (simple_pc option \<times> bool) option" where
  "simple_lock_step me LoadOccupied occupied = Some (Some (if occupied then LoadOccupied else StoreOccupied), occupied)"
| "simple_lock_step me StoreOccupied occupied = Some (None, True)"

definition simple_unlock_step :: "nat \<Rightarrow> unit \<Rightarrow> bool \<Rightarrow> (unit option \<times> bool) option" where
  "simple_unlock_step me u occupied = Some (None, False)"

definition simple_ops :: "(bool, simple_pc, unit, unit) lock_ops" where
  "simple_ops = \<lparr>lock_start = LoadOccupied, lock_step = simple_lock_step, unlock_start = \<lambda>_. (), unlock_step = simple_unlock_step,
     env_step = \<lambda>_ g. Some g\<rparr>"

section \<open>The programs\<close>

text \<open>
  With flags for all threads no index is out of range: a step of \<open>lock\<close> or \<open>unlock\<close> always has a value, so that a thread
  that has neither finished nor panicked can make its next step.
\<close>

lemma peterson_total:
  assumes "me < 2" "peer < 2" "length (pt_FLAG g) = 2"
  shows "peterson_lock_step me peer l g \<noteq> None" "peterson_unlock_step me u g \<noteq> None"
  using assms by (cases l; simp add: index_at_def peterson_unlock_step_def)+

lemma eisenberg_total:
  assumes "me < THREAD_NUM" "length (eb_FLAG g) = THREAD_NUM"
  shows "eisenberg_lock_step me l g \<noteq> None" "eisenberg_unlock_step me u g \<noteq> None"
proof -
  have "i mod THREAD_NUM < THREAD_NUM" for i by (simp add: THREAD_NUM_def)
  then show "eisenberg_lock_step me l g \<noteq> None" "eisenberg_unlock_step me u g \<noteq> None"
    using assms by (cases l; cases u; simp add: index_at_def Let_def)+
qed

lemma guard_step_total:
  assumes "\<And>l. lock_step L i l (gd_lock s) \<noteq> None" "\<And>u. unlock_step L i u (gd_lock s) \<noteq> None" "gd_pc s i \<noteq> GDone" "gd_pc s i \<noteq> GPanic"
  shows "guard_step L n i s \<noteq> None"
  using assms by (cases "gd_pc s i") (auto simp: guard_step_def split: bind_splits)

lemma adder_step_total:
  assumes "\<And>l. lock_step L i l (ad_lock s) \<noteq> None" "\<And>u. unlock_step L i u (ad_lock s) \<noteq> None" "\<not> adder_exited (ad_pc s i)"
  shows "adder_step L n i s \<noteq> None"
  using assms by (cases "ad_pc s i") (auto simp: adder_step_def split: bind_splits)

text \<open>
  C9. \<open>eisenberg.rs\<close>: with any number of its at most ten threads and under every interleaving of their loads and stores,
  no assertion about \<open>GUARD\<close> fails and no index of a flag is out of range: a thread that is not done can make its next
  step and has not panicked. At most one thread is between the return of \<open>eisenberg_enter_critical\<close> and the call of
  \<open>eisenberg_exit_critical\<close>; a thread that is done has been there \<open>n\<close> times. The check of the exit codes in \<open>main\<close> is about
  \<open>waittid\<close> and not about the lock; it is not part of the statement.
\<close>

theorem eisenberg_exclusion:
  fixes turns :: "unit turn list"
  assumes "c \<le> THREAD_NUM" "s = guard_run eisenberg_ops n c eisenberg_new turns" "i < c"
  shows "gd_pc s i \<noteq> GPanic \<and> (gd_pc s i \<noteq> GDone \<longrightarrow> guard_step eisenberg_ops n i s \<noteq> None)
    \<and> (j < c \<and> guard_inside (gd_pc s i) \<and> guard_inside (gd_pc s j) \<longrightarrow> i = j)
    \<and> (gd_pc s i = GDone \<longrightarrow> gd_iter s i = n)"
proof -
  have inv: "eisenberg_inv c eisenberg_new (\<lambda>_. Idle)" using assms(1) by (simp add: eisenberg_inv_def eisenberg_new_def)
  note ok = eb.guard_ok [OF inv assms(2)]
  have "length (eb_FLAG (gd_lock s)) = THREAD_NUM"
    using eb.guard_run_inv [OF inv, of n turns] assms(2) by (simp add: guard_inv_def eisenberg_inv_def)
  then have "guard_step eisenberg_ops n i s \<noteq> None" if "gd_pc s i \<noteq> GDone"
    using ok(1) [OF assms(3)] eisenberg_total [of i] assms(1,3) that by (intro guard_step_total) (simp_all add: eisenberg_ops_def)
  then show ?thesis using ok assms(3) by blast
qed

text \<open>Two threads, one after the other: the first is inside when the second begins, and the second has to wait.\<close>

definition eisenberg_turns :: "unit turn list" where
  "eisenberg_turns = replicate 30 (Thread 1) @ replicate 40 (Thread 4) @ replicate 60 (Thread 1) @ replicate 90 (Thread 4)"

theorem eisenberg_exclusion_witness:
  "gd_pc (guard_run eisenberg_ops 1 10 eisenberg_new eisenberg_turns) 4 = GDone
   \<and> gd_iter (guard_run eisenberg_ops 1 10 eisenberg_new eisenberg_turns) 4 = 1"
proof -
  have "gd_pc (guard_run eisenberg_ops 1 10 eisenberg_new eisenberg_turns) 4 = GDone" by code_simp
  then show ?thesis using eisenberg_exclusion [of 10 _ 1 eisenberg_turns 4 4] by (simp add: THREAD_NUM_def)
qed

text \<open>
  C10. Peterson's lock, for two threads and under every interleaving. \<open>adder_peterson_spin.rs\<close> and
  \<open>adder_peterson_yield.rs\<close>: at most one thread is in the critical section, and when both have exited, \<open>A\<close> is twice
  \<open>PER_THREAD\<close>, as \<open>main\<close> asserts. \<open>peterson.rs\<close>: no assertion about \<open>GUARD\<close> fails and at most one thread is in the critical
  section; the check of the exit codes in \<open>main\<close> is about \<open>waittid\<close> and not part of the statement. No index of a flag is
  out of range: a thread that is not done can make its next step.
\<close>

theorem peterson_exclusion:
  fixes turns :: "unit turn list"
  shows "s = adder_run (peterson_ops adder_peer) n 2 peterson_new turns \<and> g = guard_run (peterson_ops peterson_peer) m 2 peterson_new turns
    \<longrightarrow> (all_exited 2 s \<longrightarrow> adder_assertion n 2 s) \<and> \<not> (adder_inside (ad_pc s 0) \<and> adder_inside (ad_pc s 1))
      \<and> gd_pc g 0 \<noteq> GPanic \<and> gd_pc g 1 \<noteq> GPanic \<and> \<not> (guard_inside (gd_pc g 0) \<and> guard_inside (gd_pc g 1))
      \<and> (i < 2 \<and> \<not> adder_exited (ad_pc s i) \<longrightarrow> adder_step (peterson_ops adder_peer) n i s \<noteq> None)
      \<and> (i < 2 \<and> gd_pc g i \<noteq> GDone \<longrightarrow> guard_step (peterson_ops peterson_peer) m i g \<noteq> None)"
proof (rule impI)
  assume a: "s = adder_run (peterson_ops adder_peer) n 2 peterson_new turns \<and> g = guard_run (peterson_ops peterson_peer) m 2 peterson_new turns"
  have inv: "peterson_inv 2 peterson_new (\<lambda>_. Idle)" by (simp add: peterson_inv_def peterson_new_def)
  note ad = pa.adder_ok(1,3) [OF inv conjunct1 [OF a]] and gd = pp.guard_ok(1,2) [OF inv conjunct2 [OF a]]
  have fl: "length (pt_FLAG (ad_lock s)) = 2" "length (pt_FLAG (gd_lock g)) = 2"
    using pa.adder_run_inv [OF inv, of n turns] pp.guard_run_inv [OF inv, of m turns] a
    by (simp_all add: adder_inv_def guard_inv_def peterson_inv_def)
  have peer: "adder_peer i < 2" "peterson_peer i < 2" if "i < 2"
    using two_threads [OF that] by (auto simp: adder_peer_def peterson_peer_def)
  have "adder_step (peterson_ops adder_peer) n i s \<noteq> None" if "i < 2" "\<not> adder_exited (ad_pc s i)"
    using peterson_total [OF that(1) peer(1) [OF that(1)] fl(1)] that(2) by (intro adder_step_total) (simp_all add: peterson_ops_def)
  moreover have "guard_step (peterson_ops peterson_peer) m i g \<noteq> None" if "i < 2" "gd_pc g i \<noteq> GDone"
    using peterson_total [OF that(1) peer(2) [OF that(1)] fl(2)] that gd(1) [OF that(1)] by (intro guard_step_total) (simp_all add: peterson_ops_def)
  moreover have "0 < (2::nat)" "1 < (2::nat)" "0 \<noteq> (1::nat)" by simp_all
  then have "(all_exited 2 s \<longrightarrow> adder_assertion n 2 s) \<and> \<not> (adder_inside (ad_pc s 0) \<and> adder_inside (ad_pc s 1))
      \<and> gd_pc g 0 \<noteq> GPanic \<and> gd_pc g 1 \<noteq> GPanic \<and> \<not> (guard_inside (gd_pc g 0) \<and> guard_inside (gd_pc g 1))"
    using ad gd by metis
  ultimately show "(all_exited 2 s \<longrightarrow> adder_assertion n 2 s) \<and> \<not> (adder_inside (ad_pc s 0) \<and> adder_inside (ad_pc s 1))
      \<and> gd_pc g 0 \<noteq> GPanic \<and> gd_pc g 1 \<noteq> GPanic \<and> \<not> (guard_inside (gd_pc g 0) \<and> guard_inside (gd_pc g 1))
      \<and> (i < 2 \<and> \<not> adder_exited (ad_pc s i) \<longrightarrow> adder_step (peterson_ops adder_peer) n i s \<noteq> None)
      \<and> (i < 2 \<and> gd_pc g i \<noteq> GDone \<longrightarrow> guard_step (peterson_ops peterson_peer) m i g \<noteq> None)" by blast
qed

theorem peterson_exclusion_witness:
  "(let turns = replicate 5 (Thread 0) @ replicate 7 (Thread 1) @ replicate 9 (Thread 0) @ replicate 9 (Thread 1) in
     all_exited 2 (adder_run (peterson_ops adder_peer) 1 2 peterson_new turns)
     \<and> ad_A (adder_run (peterson_ops adder_peer) 1 2 peterson_new turns) = 2)"
proof -
  let ?turns = "replicate 5 (Thread 0) @ replicate 7 (Thread 1) @ replicate 9 (Thread 0) @ replicate 9 (Thread 1) :: unit turn list"
  let ?s = "adder_run (peterson_ops adder_peer) 1 2 peterson_new ?turns"
  have "all_exited 2 ?s"
    by (simp add: all_exited_def adder_run_def adder_new_def adder_step_def adder_goto_def peterson_ops_def peterson_new_def
        peterson_unlock_step_def adder_peer_def eval_nat_numeral)
  moreover have "adder_assertion 1 2 ?s"
    using peterson_exclusion [of ?s 1 ?turns _ 0] calculation by simp
  ultimately show ?thesis by (simp add: Let_def adder_assertion_def)
qed

text \<open>
  C35. Which of the other adders count correctly. \<open>adder_atomic.rs\<close>: under every interleaving of any number of threads the
  assertion of \<open>main\<close> holds. \<open>adder.rs\<close>, without a lock, and \<open>adder_simple_spin.rs\<close>, whose \<open>lock\<close> reads and sets the flag
  in two steps: there is an interleaving of two threads that add once each in which both have read the same value, and
  the assertion fails after both have exited.
\<close>

theorem adder_locks:
  "(all_exited c (adder_run atomic_ops n c False turns) \<longrightarrow> adder_assertion n c (adder_run atomic_ops n c False turns))
   \<and> (\<exists>turns'. all_exited 2 (adder_run no_ops 1 2 () turns') \<and> \<not> adder_assertion 1 2 (adder_run no_ops 1 2 () turns'))
   \<and> (\<exists>turns'. all_exited 2 (adder_run simple_ops 1 2 False turns') \<and> \<not> adder_assertion 1 2 (adder_run simple_ops 1 2 False turns'))"
proof -
  note eval = all_exited_def adder_run_def adder_new_def adder_step_def adder_goto_def adder_assertion_def eval_nat_numeral
  have "atomic_inv c False (\<lambda>_. Idle)" by (simp add: atomic_inv_def)
  from at.adder_ok(1) [OF this refl]
  have "all_exited c (adder_run atomic_ops n c False turns) \<longrightarrow> adder_assertion n c (adder_run atomic_ops n c False turns)" by blast
  moreover have "\<exists>turns'. all_exited 2 (adder_run no_ops 1 2 () turns') \<and> \<not> adder_assertion 1 2 (adder_run no_ops 1 2 () turns')"
    by (rule exI [of _ "[Thread 0, Thread 1, Thread 0, Thread 1, Thread 0, Thread 1] @ replicate 4 (Thread 0) @ replicate 4 (Thread 1)"])
      (simp add: eval no_ops_def)
  moreover have "\<exists>turns'. all_exited 2 (adder_run simple_ops 1 2 False turns') \<and> \<not> adder_assertion 1 2 (adder_run simple_ops 1 2 False turns')"
    by (rule exI [of _ "[Thread 0, Thread 0, Thread 1, Thread 1, Thread 0, Thread 1, Thread 0, Thread 1] @ replicate 4 (Thread 0) @ replicate 4 (Thread 1)"])
      (simp add: eval simple_ops_def simple_unlock_step_def)
  ultimately show ?thesis by blast
qed

theorem adder_locks_witness:
  "all_exited 3 (adder_run atomic_ops 1 3 False (replicate 4 (Thread 2) @ replicate 9 (Thread 0) @ replicate 3 (Thread 2) @ replicate 9 (Thread 0) @ replicate 9 (Thread 1)))
   \<and> adder_assertion 1 3 (adder_run atomic_ops 1 3 False (replicate 4 (Thread 2) @ replicate 9 (Thread 0) @ replicate 3 (Thread 2) @ replicate 9 (Thread 0) @ replicate 9 (Thread 1)))"
proof -
  let ?s = "adder_run atomic_ops 1 3 False (replicate 4 (Thread 2) @ replicate 9 (Thread 0) @ replicate 3 (Thread 2) @ replicate 9 (Thread 0) @ replicate 9 (Thread 1))"
  have "all_exited 3 ?s"
    by (simp add: all_exited_def adder_run_def adder_new_def adder_step_def adder_goto_def atomic_ops_def atomic_lock_step_def
        atomic_unlock_step_def eval_nat_numeral)
  then show ?thesis using adder_locks by blast
qed

end
