(* ===== verification/UserMutex.thy ===== *)
theory UserMutex
  imports UserLocks SyncProps
begin

text \<open>
  The adders on the mutexes of the kernel (\<open>adder_mutex_blocking.rs\<close>, \<open>adder_mutex_spin.rs\<close>): \<open>mutex_lock(0)\<close> and
  \<open>mutex_unlock(0)\<close> are the system calls on the mutex of the process, in the scheduler of the kernel. Only the task on
  the processor makes steps; between them the kernel dispatches the next ready task or takes the processor from the
  current one.
\<close>

datatype kernel_turn = TimeSlice | RunNext

definition kernel_lock_step :: "task \<Rightarrow> mutex_pc \<Rightarrow> Mutex \<times> sched \<Rightarrow> (mutex_pc option \<times> Mutex \<times> sched) option" where
  "kernel_lock_step t p ms = (case ms of (m, s) \<Rightarrow>
     if current_task s \<noteq> Some t then None
     else if p = Waiting then Some (None, m, s)
     else do { (r, m, s) \<leftarrow> Mutex_lock m s;
               Some (case r of Acquired \<Rightarrow> None | Parked \<Rightarrow> Some Waiting | Retry \<Rightarrow> Some Trying, m, s) })"

definition kernel_unlock_step :: "task \<Rightarrow> unit \<Rightarrow> Mutex \<times> sched \<Rightarrow> (unit option \<times> Mutex \<times> sched) option" where
  "kernel_unlock_step t u ms = (case ms of (m, s) \<Rightarrow>
     if current_task s \<noteq> Some t then None else map_option (Pair None) (Mutex_unlock m s))"

fun kernel_env_step :: "kernel_turn \<Rightarrow> Mutex \<times> sched \<Rightarrow> (Mutex \<times> sched) option" where
  "kernel_env_step TimeSlice (m, s) = map_option (Pair m) (suspend_current_and_run_next s)"
| "kernel_env_step RunNext (m, s) = (if current_task s = None then Some (m, run_tasks_step s) else None)"

definition kernel_mutex_ops :: "(Mutex \<times> sched, mutex_pc, unit, kernel_turn) lock_ops" where
  "kernel_mutex_ops = \<lparr>lock_start = Out, lock_step = kernel_lock_step, unlock_start = \<lambda>_. (), unlock_step = kernel_unlock_step,
     env_step = kernel_env_step\<rparr>"

text \<open>Where a thread is, as the mutex sees it.\<close>

fun mutex_view :: "(mutex_pc, unit) lock_pc \<Rightarrow> mutex_pc" where
  "mutex_view Idle = Out"
| "mutex_view (Acquiring p) = p"
| "mutex_view Holding = In"
| "mutex_view (Releasing _) = In"

definition kernel_mutex_inv :: "nat \<Rightarrow> Mutex \<times> sched \<Rightarrow> (nat \<Rightarrow> (mutex_pc, unit) lock_pc) \<Rightarrow> bool" where
  "kernel_mutex_inv c ms pc \<longleftrightarrow>
     mutex_inv Mutex_locked Mutex_queue \<lparr>sys_mutex = fst ms, sys_sched = snd ms, sys_pc = mutex_view \<circ> pc\<rparr> \<and> (\<forall>i. pc i \<noteq> Acquiring In)"

lemma mutex_inv_sched:
  assumes inv: "mutex_inv Mutex_locked Mutex_queue \<lparr>sys_mutex = m, sys_sched = s, sys_pc = pc\<rparr>"
    and step: "sched_step s e s'" "e = Suspend \<or> e = Dispatch"
  shows "mutex_inv Mutex_locked Mutex_queue \<lparr>sys_mutex = m, sys_sched = s', sys_pc = pc\<rparr>"
proof -
  have "parked (Mutex_queue m) s'" using inv step(2) by (auto simp: mutex_inv_def Let_def intro!: parked_step [OF _ step(1)])
  moreover have "t \<in> set (ready s') \<or> current_task s' = Some t" if "t \<in> set (ready s) \<or> current_task s = Some t" for t
    using step(1)
  proof cases
    case suspend
    then show ?thesis using that by (auto elim!: suspend_Some)
  next
    case dispatch
    then show ?thesis using that run_step_fields(1) [of s] by (cases "ready s") (auto simp: run_step_fields)
  qed (use step(2) in auto)
  ultimately show ?thesis using inv by (auto simp: mutex_inv_def Let_def)
qed

interpretation km_lock: user_lock kernel_mutex_ops kernel_mutex_inv
proof unfold_locales
  fix c i l r g g' and pc :: "nat \<Rightarrow> (mutex_pc, unit) lock_pc"
  assume inv: "kernel_mutex_inv c g pc" and i: "i < c"
  obtain m s where g: "g = (m, s)" by (cases g)
  have mi: "mutex_inv Mutex_locked Mutex_queue \<lparr>sys_mutex = m, sys_sched = s, sys_pc = mutex_view \<circ> pc\<rparr>"
    using inv g by (simp add: kernel_mutex_inv_def)
  have idem: "(mutex_view \<circ> pc)(i := mutex_view (pc i)) = mutex_view \<circ> pc" by auto
  show "kernel_mutex_inv c g (pc(i := Acquiring (lock_start kernel_mutex_ops)))" if "pc i = Idle"
    using inv idem that by (auto simp: kernel_mutex_inv_def kernel_mutex_ops_def comp_upd)
  show "kernel_mutex_inv c g (pc(i := Releasing (unlock_start kernel_mutex_ops i)))" if "pc i = Holding"
    using inv idem that by (auto simp: kernel_mutex_inv_def comp_upd)
  show "kernel_mutex_inv c g' (pc(i := case r of Some l \<Rightarrow> Acquiring l | None \<Rightarrow> Holding))"
    if l: "pc i = Acquiring l" and st: "lock_step kernel_mutex_ops i l g = Some (r, g')"
  proof (cases "l = Waiting")
    case True
    with st g have "current_task s = Some i" "r = None" "g' = g" by (auto simp: kernel_mutex_ops_def kernel_lock_step_def split: if_splits)
    then show ?thesis using dynm.inv_resume [OF mi] l True g inv by (auto simp: kernel_mutex_inv_def comp_upd)
  next
    case False
    with st g obtain o' m' s' where o: "current_task s = Some i" "Mutex_lock m s = Some (o', m', s')" "g' = (m', s')"
        "r = (case o' of Acquired \<Rightarrow> None | Parked \<Rightarrow> Some Waiting | Retry \<Rightarrow> Some Trying)"
      by (auto simp: kernel_mutex_ops_def kernel_lock_step_def split: if_splits bind_splits)
    have "l = Out \<or> l = Trying" using False inv l by (cases l) (auto simp: kernel_mutex_inv_def)
    then have "mutex_inv Mutex_locked Mutex_queue \<lparr>sys_mutex = m', sys_sched = s', sys_pc = (mutex_view \<circ> pc)(i := pc_of_outcome o')\<rparr>"
      using dynm.inv_lock [OF mi o(1) _ o(2)] l by simp
    then show ?thesis using inv o by (cases o') (auto simp: kernel_mutex_inv_def comp_upd)
  qed
  show "kernel_mutex_inv c g' (pc(i := case r' of Some u \<Rightarrow> Releasing u | None \<Rightarrow> Idle))"
    if u: "pc i = Releasing u" and st: "unlock_step kernel_mutex_ops i u g = Some (r', g')" for u and r' :: "unit option"
  proof -
    obtain m' s' where o: "current_task s = Some i" "Mutex_unlock m s = Some (m', s')" "g' = (m', s')" "r' = None"
      using st g by (auto simp: kernel_mutex_ops_def kernel_unlock_step_def split: if_splits)
    then show ?thesis using dynm.inv_unlock [OF mi o(1) _ o(2)] u inv by (auto simp: kernel_mutex_inv_def comp_upd)
  qed
next
  fix c g g' e and pc :: "nat \<Rightarrow> (mutex_pc, unit) lock_pc"
  assume "kernel_mutex_inv c g pc" "env_step kernel_mutex_ops e g = Some g'"
  then show "kernel_mutex_inv c g' pc"
    by (cases e; cases g) (auto simp: kernel_mutex_inv_def kernel_mutex_ops_def split: if_splits
        intro: mutex_inv_sched [OF _ sched_step.suspend disjI1 [OF refl]] mutex_inv_sched [OF _ sched_step.dispatch disjI2 [OF refl]])
next
  fix c g i j and pc :: "nat \<Rightarrow> (mutex_pc, unit) lock_pc"
  assume "kernel_mutex_inv c g pc" "pc i = Holding" "pc j = Holding"
  then have "i \<in> owners (mutex_view \<circ> pc) (Mutex_queue (fst g))" "j \<in> owners (mutex_view \<circ> pc) (Mutex_queue (fst g))"
      "mutex_inv Mutex_locked Mutex_queue \<lparr>sys_mutex = fst g, sys_sched = snd g, sys_pc = mutex_view \<circ> pc\<rparr>"
    by (auto simp: kernel_mutex_inv_def owners_def)
  then show "i = j" using dynm.holder_locked(2) by fastforce
qed

text \<open>
  C8. \<open>adder_mutex_blocking.rs\<close> and \<open>adder_mutex_spin.rs\<close> on the scheduler and the mutex of the kernel, with any number of
  threads and wherever the kernel takes the processor from a thread: at most one thread is in the critical section, and
  when all threads have exited, \<open>A\<close> is \<open>PER_THREAD * thread_count\<close> as \<open>main\<close> asserts.
\<close>

theorem adder_mutex_correct:
  assumes "sched_inv s0" "m0 = Blocking MutexBlocking_new \<or> m0 = Spin MutexSpin_new"
    and "a = adder_run kernel_mutex_ops n c (m0, s0) turns"
  shows "(all_exited c a \<longrightarrow> adder_assertion n c a)
    \<and> (i < c \<and> j < c \<and> adder_inside (ad_pc a i) \<and> adder_inside (ad_pc a j) \<longrightarrow> i = j)"
proof -
  have "mutex_inv Mutex_locked Mutex_queue \<lparr>sys_mutex = m0, sys_sched = s0, sys_pc = \<lambda>_. Out\<rparr>"
    by (rule dynm.inv_start) (use assms in \<open>auto simp: MutexBlocking_new_def MutexSpin_new_def\<close>)
  then have "kernel_mutex_inv c (m0, s0) (\<lambda>_. Idle)" by (simp add: kernel_mutex_inv_def comp_def)
  from km_lock.adder_ok(1,3) [OF this assms(3)] show ?thesis by blast
qed

text \<open>The first thread is suspended with the mutex held, the second parks and is woken by the unlock of the first.\<close>

definition two_adders :: sched where
  "two_adders = add_task 1 (add_task 0 (sched_new (\<lambda>_. Ready)))"

definition contended_turns :: "kernel_turn turn list" where
  "contended_turns = [Env RunNext, Thread 0, Thread 0, Thread 0, Env TimeSlice, Env RunNext, Thread 1, Thread 1, Env RunNext,
     Thread 0, Thread 0, Thread 0, Env TimeSlice, Env RunNext, Thread 1, Thread 1, Thread 1, Thread 1, Thread 1]"

lemmas mutex_run_eval = adder_run_def adder_new_def adder_step_def adder_goto_def eval_nat_numeral
  kernel_mutex_ops_def kernel_lock_step_def kernel_unlock_step_def MutexBlocking_new_def MutexBlocking_lock_def
  MutexBlocking_unlock_def two_adders_def contended_eval suspend_current_and_run_next_def block_current_and_run_next_def
  wakeup_task_def Let_def

lemma contended_adders_exit:
  "adder_exited (ad_pc (adder_run kernel_mutex_ops 1 2 (Blocking MutexBlocking_new, two_adders) contended_turns) 0)"
  "adder_exited (ad_pc (adder_run kernel_mutex_ops 1 2 (Blocking MutexBlocking_new, two_adders) contended_turns) 1)"
  unfolding contended_turns_def by (simp add: mutex_run_eval) (simp add: mutex_run_eval)

theorem adder_mutex_correct_witness:
  "adder_assertion 1 2 (adder_run kernel_mutex_ops 1 2 (Blocking MutexBlocking_new, two_adders) contended_turns)
   \<and> all_exited 2 (adder_run kernel_mutex_ops 1 2 (Blocking MutexBlocking_new, two_adders) contended_turns)"
proof -
  let ?a = "adder_run kernel_mutex_ops 1 2 (Blocking MutexBlocking_new, two_adders) contended_turns"
  have "sched_inv two_adders"
    by (simp add: two_adders_def sched_inv_def add_task_def tm_add_def sched_new_def TaskManager_new_def Processor_new_def current_task_def)
  note ok = adder_mutex_correct [OF this disjI1 [OF refl] refl, THEN conjunct1, THEN mp]
  have "all_exited 2 ?a" using contended_adders_exit by (simp add: all_exited_def eval_nat_numeral)
  with ok [OF this] show ?thesis by simp
qed

end
