(* ===== verification/UserLib.thy ===== *)
theory UserLib
  imports Fork
begin

text \<open>
  The system call interface of the user library (\<open>user/src/syscall.rs\<close>, \<open>user/src/lib.rs\<close>): a wrapper puts the number of
  the call and its arguments into the registers in which the trap handler of the kernel finds them, and the functions
  that wait for a process or a thread ask again until there is an answer.
\<close>

section \<open>The wrappers of the system calls\<close>

text \<open>The registers of the program at its \<open>ecall\<close>, as the trap saves them. Slices and strings are passed as addresses.\<close>

definition user_syscall :: "usize \<Rightarrow> usize list \<Rightarrow> TrapContext \<Rightarrow> TrapContext" where
  "user_syscall i args cx = cx\<lparr>tx_x := (tx_x cx)[10 := args ! 0, 11 := args ! 1, 12 := args ! 2, 17 := i]\<rparr>"

definition user_SYSCALL_DUP :: usize where "user_SYSCALL_DUP = 24"
definition user_SYSCALL_OPEN :: usize where "user_SYSCALL_OPEN = 56"
definition user_SYSCALL_CLOSE :: usize where "user_SYSCALL_CLOSE = 57"
definition user_SYSCALL_PIPE :: usize where "user_SYSCALL_PIPE = 59"
definition user_SYSCALL_READ :: usize where "user_SYSCALL_READ = 63"
definition user_SYSCALL_WRITE :: usize where "user_SYSCALL_WRITE = 64"
definition user_SYSCALL_EXIT :: usize where "user_SYSCALL_EXIT = 93"
definition user_SYSCALL_SLEEP :: usize where "user_SYSCALL_SLEEP = 101"
definition user_SYSCALL_YIELD :: usize where "user_SYSCALL_YIELD = 124"
definition user_SYSCALL_KILL :: usize where "user_SYSCALL_KILL = 129"
definition user_SYSCALL_GET_TIME :: usize where "user_SYSCALL_GET_TIME = 169"
definition user_SYSCALL_GETPID :: usize where "user_SYSCALL_GETPID = 172"
definition user_SYSCALL_FORK :: usize where "user_SYSCALL_FORK = 220"
definition user_SYSCALL_EXEC :: usize where "user_SYSCALL_EXEC = 221"
definition user_SYSCALL_WAITPID :: usize where "user_SYSCALL_WAITPID = 260"
definition user_SYSCALL_THREAD_CREATE :: usize where "user_SYSCALL_THREAD_CREATE = 1000"
definition user_SYSCALL_GETTID :: usize where "user_SYSCALL_GETTID = 1001"
definition user_SYSCALL_WAITTID :: usize where "user_SYSCALL_WAITTID = 1002"
definition user_SYSCALL_MUTEX_CREATE :: usize where "user_SYSCALL_MUTEX_CREATE = 1010"
definition user_SYSCALL_MUTEX_LOCK :: usize where "user_SYSCALL_MUTEX_LOCK = 1011"
definition user_SYSCALL_MUTEX_UNLOCK :: usize where "user_SYSCALL_MUTEX_UNLOCK = 1012"
definition user_SYSCALL_SEMAPHORE_CREATE :: usize where "user_SYSCALL_SEMAPHORE_CREATE = 1020"
definition user_SYSCALL_SEMAPHORE_UP :: usize where "user_SYSCALL_SEMAPHORE_UP = 1021"
definition user_SYSCALL_SEMAPHORE_DOWN :: usize where "user_SYSCALL_SEMAPHORE_DOWN = 1022"
definition user_SYSCALL_CONDVAR_CREATE :: usize where "user_SYSCALL_CONDVAR_CREATE = 1030"
definition user_SYSCALL_CONDVAR_SIGNAL :: usize where "user_SYSCALL_CONDVAR_SIGNAL = 1031"
definition user_SYSCALL_CONDVAR_WAIT :: usize where "user_SYSCALL_CONDVAR_WAIT = 1032"

definition user_sys_dup :: "usize \<Rightarrow> TrapContext \<Rightarrow> TrapContext" where
  "user_sys_dup fd = user_syscall user_SYSCALL_DUP [fd, 0, 0]"

definition user_sys_open :: "usize \<Rightarrow> u32 \<Rightarrow> TrapContext \<Rightarrow> TrapContext" where
  "user_sys_open path flags = user_syscall user_SYSCALL_OPEN [path, ucast flags, 0]"

definition user_sys_close :: "usize \<Rightarrow> TrapContext \<Rightarrow> TrapContext" where
  "user_sys_close fd = user_syscall user_SYSCALL_CLOSE [fd, 0, 0]"

definition user_sys_pipe :: "usize \<Rightarrow> TrapContext \<Rightarrow> TrapContext" where
  "user_sys_pipe pipe = user_syscall user_SYSCALL_PIPE [pipe, 0, 0]"

definition user_sys_read :: "usize \<Rightarrow> usize \<Rightarrow> usize \<Rightarrow> TrapContext \<Rightarrow> TrapContext" where
  "user_sys_read fd buffer len = user_syscall user_SYSCALL_READ [fd, buffer, len]"

definition user_sys_write :: "usize \<Rightarrow> usize \<Rightarrow> usize \<Rightarrow> TrapContext \<Rightarrow> TrapContext" where
  "user_sys_write fd buffer len = user_syscall user_SYSCALL_WRITE [fd, buffer, len]"

definition user_sys_exit :: "i32 \<Rightarrow> TrapContext \<Rightarrow> TrapContext" where
  "user_sys_exit code = user_syscall user_SYSCALL_EXIT [scast code, 0, 0]"

definition user_sys_sleep :: "usize \<Rightarrow> TrapContext \<Rightarrow> TrapContext" where
  "user_sys_sleep sleep_ms = user_syscall user_SYSCALL_SLEEP [sleep_ms, 0, 0]"

definition user_sys_yield :: "TrapContext \<Rightarrow> TrapContext" where
  "user_sys_yield = user_syscall user_SYSCALL_YIELD [0, 0, 0]"

definition user_sys_kill :: "usize \<Rightarrow> i32 \<Rightarrow> TrapContext \<Rightarrow> TrapContext" where
  "user_sys_kill i signal = user_syscall user_SYSCALL_KILL [i, scast signal, 0]"

definition user_sys_get_time :: "TrapContext \<Rightarrow> TrapContext" where
  "user_sys_get_time = user_syscall user_SYSCALL_GET_TIME [0, 0, 0]"

definition user_sys_getpid :: "TrapContext \<Rightarrow> TrapContext" where
  "user_sys_getpid = user_syscall user_SYSCALL_GETPID [0, 0, 0]"

definition user_sys_fork :: "TrapContext \<Rightarrow> TrapContext" where
  "user_sys_fork = user_syscall user_SYSCALL_FORK [0, 0, 0]"

definition user_sys_exec :: "usize \<Rightarrow> usize \<Rightarrow> TrapContext \<Rightarrow> TrapContext" where
  "user_sys_exec path args = user_syscall user_SYSCALL_EXEC [path, args, 0]"

definition user_sys_waitpid :: "usize \<Rightarrow> usize \<Rightarrow> TrapContext \<Rightarrow> TrapContext" where
  "user_sys_waitpid i exit_code_ptr = user_syscall user_SYSCALL_WAITPID [i, exit_code_ptr, 0]"

definition user_sys_thread_create :: "usize \<Rightarrow> usize \<Rightarrow> TrapContext \<Rightarrow> TrapContext" where
  "user_sys_thread_create ent arg = user_syscall user_SYSCALL_THREAD_CREATE [ent, arg, 0]"

definition user_sys_gettid :: "TrapContext \<Rightarrow> TrapContext" where
  "user_sys_gettid = user_syscall user_SYSCALL_GETTID [0, 0, 0]"

definition user_sys_waittid :: "usize \<Rightarrow> TrapContext \<Rightarrow> TrapContext" where
  "user_sys_waittid tid = user_syscall user_SYSCALL_WAITTID [tid, 0, 0]"

definition user_sys_mutex_create :: "bool \<Rightarrow> TrapContext \<Rightarrow> TrapContext" where
  "user_sys_mutex_create blocking = user_syscall user_SYSCALL_MUTEX_CREATE [of_bool blocking, 0, 0]"

definition user_sys_mutex_lock :: "usize \<Rightarrow> TrapContext \<Rightarrow> TrapContext" where
  "user_sys_mutex_lock i = user_syscall user_SYSCALL_MUTEX_LOCK [i, 0, 0]"

definition user_sys_mutex_unlock :: "usize \<Rightarrow> TrapContext \<Rightarrow> TrapContext" where
  "user_sys_mutex_unlock i = user_syscall user_SYSCALL_MUTEX_UNLOCK [i, 0, 0]"

definition user_sys_semaphore_create :: "usize \<Rightarrow> TrapContext \<Rightarrow> TrapContext" where
  "user_sys_semaphore_create res_count = user_syscall user_SYSCALL_SEMAPHORE_CREATE [res_count, 0, 0]"

definition user_sys_semaphore_up :: "usize \<Rightarrow> TrapContext \<Rightarrow> TrapContext" where
  "user_sys_semaphore_up sem_id = user_syscall user_SYSCALL_SEMAPHORE_UP [sem_id, 0, 0]"

definition user_sys_semaphore_down :: "usize \<Rightarrow> TrapContext \<Rightarrow> TrapContext" where
  "user_sys_semaphore_down sem_id = user_syscall user_SYSCALL_SEMAPHORE_DOWN [sem_id, 0, 0]"

definition user_sys_condvar_create :: "TrapContext \<Rightarrow> TrapContext" where
  "user_sys_condvar_create = user_syscall user_SYSCALL_CONDVAR_CREATE [0, 0, 0]"

definition user_sys_condvar_signal :: "usize \<Rightarrow> TrapContext \<Rightarrow> TrapContext" where
  "user_sys_condvar_signal condvar_id = user_syscall user_SYSCALL_CONDVAR_SIGNAL [condvar_id, 0, 0]"

definition user_sys_condvar_wait :: "usize \<Rightarrow> usize \<Rightarrow> TrapContext \<Rightarrow> TrapContext" where
  "user_sys_condvar_wait condvar_id mutex_id = user_syscall user_SYSCALL_CONDVAR_WAIT [condvar_id, mutex_id, 0]"

section \<open>What the kernel does for a wrapper\<close>

text \<open>The end of the trap handler after a system call.\<close>

definition finish_call :: "'d outcome \<Rightarrow> 'd outcome option" where
  "finish_call r = (case r of
      Ret res k \<Rightarrow> do {
        ppn \<leftarrow> current_trap_cx_ppn k;
        let cx = get_trap_cx ppn (kmem_of k);
        trap_end (set_kmem (put_trap_cx ppn (cx\<lparr>tx_x := (tx_x cx)[10 := res]\<rparr>) (kmem_of k)) k)
      }
    | Switch k \<Rightarrow> Some (Switch k)
    | Halt b \<Rightarrow> Some (Halt b))"

text \<open>
  A wrapper is served by an operation of the kernel: when the program traps with its registers, the trap handler
  advances the program counter, runs this operation, and ends as for every call.
\<close>

definition served :: "'d machine \<Rightarrow> inputs \<Rightarrow> (TimerCondVar list \<Rightarrow> nat option) \<Rightarrow> PhysPageNum \<Rightarrow> TrapContext \<Rightarrow>
    (TrapContext \<Rightarrow> TrapContext) \<Rightarrow> ('d kernel \<Rightarrow> 'd outcome option) \<Rightarrow> 'd kernel \<Rightarrow> bool" where
  "served M inp pk ppn cx wrapper operation k \<longleftrightarrow> (get_trap_cx ppn (kmem_of k) = wrapper cx \<longrightarrow>
    trap_handler M inp pk UserEnvCall k = do {
      r \<leftarrow> operation (set_kmem (put_trap_cx ppn ((wrapper cx)\<lparr>tx_sepc := tx_sepc cx + 4\<rparr>) (kmem_of k)) k);
      finish_call r
    })"

lemma served_user_syscall:
  assumes "current_trap_cx_ppn k = Some ppn" "length (tx_x cx) = 32"
    and "\<And>k. syscall M inp i a0 a1 a2 k = operation k"
  shows "served M inp pk ppn cx (user_syscall i [a0, a1, a2]) operation k"
  using assms by (auto simp: served_def trap_handler_def user_syscall_def finish_call_def Let_def intro!: bind_option_cong split: outcome.split)

lemmas user_sys_defs = user_sys_dup_def user_sys_open_def user_sys_close_def user_sys_pipe_def user_sys_read_def user_sys_write_def user_sys_exit_def user_sys_sleep_def user_sys_yield_def user_sys_kill_def user_sys_get_time_def user_sys_getpid_def user_sys_fork_def user_sys_exec_def user_sys_waitpid_def user_sys_thread_create_def user_sys_gettid_def user_sys_waittid_def user_sys_mutex_create_def user_sys_mutex_lock_def user_sys_mutex_unlock_def user_sys_semaphore_create_def user_sys_semaphore_up_def user_sys_semaphore_down_def user_sys_condvar_create_def user_sys_condvar_signal_def user_sys_condvar_wait_def

lemmas syscall_numbers = user_SYSCALL_DUP_def SYSCALL_DUP_def user_SYSCALL_OPEN_def SYSCALL_OPEN_def user_SYSCALL_CLOSE_def SYSCALL_CLOSE_def user_SYSCALL_PIPE_def SYSCALL_PIPE_def user_SYSCALL_READ_def SYSCALL_READ_def user_SYSCALL_WRITE_def SYSCALL_WRITE_def user_SYSCALL_EXIT_def SYSCALL_EXIT_def user_SYSCALL_SLEEP_def SYSCALL_SLEEP_def user_SYSCALL_YIELD_def SYSCALL_YIELD_def user_SYSCALL_KILL_def SYSCALL_KILL_def user_SYSCALL_GET_TIME_def SYSCALL_GET_TIME_def user_SYSCALL_GETPID_def SYSCALL_GETPID_def user_SYSCALL_FORK_def SYSCALL_FORK_def user_SYSCALL_EXEC_def SYSCALL_EXEC_def user_SYSCALL_WAITPID_def SYSCALL_WAITPID_def user_SYSCALL_THREAD_CREATE_def SYSCALL_THREAD_CREATE_def user_SYSCALL_GETTID_def SYSCALL_GETTID_def user_SYSCALL_WAITTID_def SYSCALL_WAITTID_def user_SYSCALL_MUTEX_CREATE_def SYSCALL_MUTEX_CREATE_def user_SYSCALL_MUTEX_LOCK_def SYSCALL_MUTEX_LOCK_def user_SYSCALL_MUTEX_UNLOCK_def SYSCALL_MUTEX_UNLOCK_def user_SYSCALL_SEMAPHORE_CREATE_def SYSCALL_SEMAPHORE_CREATE_def user_SYSCALL_SEMAPHORE_UP_def SYSCALL_SEMAPHORE_UP_def user_SYSCALL_SEMAPHORE_DOWN_def SYSCALL_SEMAPHORE_DOWN_def user_SYSCALL_CONDVAR_CREATE_def SYSCALL_CONDVAR_CREATE_def user_SYSCALL_CONDVAR_SIGNAL_def SYSCALL_CONDVAR_SIGNAL_def user_SYSCALL_CONDVAR_WAIT_def SYSCALL_CONDVAR_WAIT_def

lemma sign_extend_back [simp]: "ucast (scast (w :: i32) :: usize) = w" "ucast (ucast (v :: u32) :: usize) = v"
  by (rule bit_word_eqI; auto simp: bit_simps)+

text \<open>
  C12. The user library and the kernel agree on the system calls: for every wrapper, the trap of a program that enters
  with the registers of the wrapper runs the operation of the kernel of the same name, on the same arguments (exit codes
  and signals are sign-extended and cut to 32 bits again, the choice of a mutex passes through a word), and the result
  ends in the register from which the wrapper takes it.
\<close>

theorem syscall_interface:
  assumes cur: "current_trap_cx_ppn k = Some ppn" and regs: "length (tx_x cx) = 32"
  shows "served M inp pk ppn cx (user_sys_dup fd) (sys_dup fd) k
    \<and> served M inp pk ppn cx (user_sys_open path flags) (sys_open M path flags) k
    \<and> served M inp pk ppn cx (user_sys_close fd) (sys_close fd) k
    \<and> served M inp pk ppn cx (user_sys_pipe pipe) (sys_pipe pipe) k
    \<and> served M inp pk ppn cx (user_sys_read fd buffer len) (sys_read M inp fd buffer len) k
    \<and> served M inp pk ppn cx (user_sys_write fd buffer len) (sys_write M fd buffer len) k
    \<and> served M inp pk ppn cx (user_sys_exit code) (sys_exit code) k
    \<and> served M inp pk ppn cx (user_sys_sleep sleep_ms) (sys_sleep_call inp sleep_ms) k
    \<and> served M inp pk ppn cx user_sys_yield sys_yield k
    \<and> served M inp pk ppn cx (user_sys_kill i signal) (sys_kill i signal) k
    \<and> served M inp pk ppn cx user_sys_get_time (sys_get_time inp) k
    \<and> served M inp pk ppn cx user_sys_getpid sys_getpid k
    \<and> served M inp pk ppn cx user_sys_fork (sys_fork M) k
    \<and> served M inp pk ppn cx (user_sys_exec path args) (sys_exec M path args) k
    \<and> served M inp pk ppn cx (user_sys_waitpid i exit_code_ptr) (sys_waitpid i exit_code_ptr) k
    \<and> served M inp pk ppn cx (user_sys_thread_create ent arg) (sys_thread_create M ent arg) k
    \<and> served M inp pk ppn cx user_sys_gettid sys_gettid k
    \<and> served M inp pk ppn cx (user_sys_waittid tid) (sys_waittid tid) k
    \<and> served M inp pk ppn cx (user_sys_mutex_create blocking) (sys_mutex_create blocking) k
    \<and> served M inp pk ppn cx (user_sys_mutex_lock i) (sys_mutex_lock i) k
    \<and> served M inp pk ppn cx (user_sys_mutex_unlock i) (sys_mutex_unlock i) k
    \<and> served M inp pk ppn cx (user_sys_semaphore_create res_count) (sys_semaphore_create res_count) k
    \<and> served M inp pk ppn cx (user_sys_semaphore_up sem_id) (sys_semaphore_up sem_id) k
    \<and> served M inp pk ppn cx (user_sys_semaphore_down sem_id) (sys_semaphore_down sem_id) k
    \<and> served M inp pk ppn cx user_sys_condvar_create sys_condvar_create k
    \<and> served M inp pk ppn cx (user_sys_condvar_signal condvar_id) (sys_condvar_signal condvar_id) k
    \<and> served M inp pk ppn cx (user_sys_condvar_wait condvar_id mutex_id) (sys_condvar_wait condvar_id mutex_id) k"
  unfolding user_sys_defs
  by (intro conjI; rule served_user_syscall [OF cur regs]; simp add: syscall_def syscall_numbers)

text \<open>The program of the sample process asks for its id.\<close>

definition asking_kernel :: "bytes kernel" where
  "asking_kernel = set_kmem (put_trap_cx 0 (user_sys_getpid (get_trap_cx 0 (kmem_of sample_kernel))) (kmem_of sample_kernel)) sample_kernel"

theorem syscall_interface_witness:
  "\<forall>M inp pk. trap_handler M inp pk UserEnvCall asking_kernel = (let cx = get_trap_cx 0 (kmem_of sample_kernel) in do {
      r \<leftarrow> sys_getpid (set_kmem (put_trap_cx 0 ((user_sys_getpid cx)\<lparr>tx_sepc := tx_sepc cx + 4\<rparr>) (kmem_of asking_kernel)) asking_kernel);
      finish_call r
    })"
proof -
  let ?cx = "get_trap_cx 0 (kmem_of sample_kernel)"
  have "kmem_inv (VA_ceil 0x80300000) (boot_kmem 0x80300000)" by (rule boot_kmem_inv) (simp add: MEMORY_END_def)
  then have m: "kmem_inv (VA_ceil 0x80300000) (kmem_of sample_kernel)" by (simp add: sample_kernel_def)
  have "length (tx_x (user_sys_getpid ?cx)) = 32" by (simp add: user_sys_getpid_def user_syscall_def)
  then have cx: "get_trap_cx 0 (kmem_of asking_kernel) = user_sys_getpid ?cx"
    by (simp add: asking_kernel_def set_kmem_def get_put_trap_cx [OF _ m])
  have "current_trap_cx_ppn asking_kernel = Some 0"
    by (simp add: asking_kernel_def sample_kernel_def set_kmem_def current_trap_cx_ppn_def current_task_def get_tcb_def index_at_def sample_tcb_def)
  from syscall_interface [where cx = ?cx, OF this length_get_trap_cx]
  have "served M inp pk 0 ?cx user_sys_getpid sys_getpid asking_kernel" for M inp pk
    by (rule conjunct2 [THEN conjunct2, THEN conjunct2, THEN conjunct2, THEN conjunct2, THEN conjunct2, THEN conjunct2,
        THEN conjunct2, THEN conjunct2, THEN conjunct2, THEN conjunct2, THEN conjunct1])
  with cx show ?thesis by (simp add: served_def Let_def)
qed

section \<open>Waiting\<close>

text \<open>
  What a system call answers, when it returns. \<open>others\<close> is what the other tasks do between the moment a task yields and
  its next turn.
\<close>

definition answer :: "'d outcome option \<Rightarrow> (usize \<times> 'd kernel) option" where
  "answer r = (case r of Some (Ret v k) \<Rightarrow> Some (v, k) | _ \<Rightarrow> None)"

definition yield_now :: "('d kernel \<Rightarrow> 'd kernel option) \<Rightarrow> 'd kernel \<Rightarrow> 'd kernel option" where
  "yield_now others k = (case sys_yield k of Some (Switch k) \<Rightarrow> others k | _ \<Rightarrow> None)"

partial_function (option) ask_again :: "('d kernel \<Rightarrow> 'd outcome option) \<Rightarrow> ('d kernel \<Rightarrow> 'd kernel option) \<Rightarrow> 'd kernel \<Rightarrow> (usize \<times> 'd kernel) option" where
  "ask_again call others k = do {
    (r, k) \<leftarrow> answer (call k);
    if r = -2 then do { k \<leftarrow> yield_now others k; ask_again call others k }
    else Some (r, k)
  }"

definition user_wait :: "('d kernel \<Rightarrow> 'd kernel option) \<Rightarrow> usize \<Rightarrow> 'd kernel \<Rightarrow> (usize \<times> 'd kernel) option" where
  "user_wait others ptr = ask_again (sys_waitpid (-1) ptr) others"

definition user_waitpid :: "('d kernel \<Rightarrow> 'd kernel option) \<Rightarrow> usize \<Rightarrow> usize \<Rightarrow> 'd kernel \<Rightarrow> (usize \<times> 'd kernel) option" where
  "user_waitpid others i ptr = ask_again (sys_waitpid i ptr) others"

definition user_waitpid_nb :: "usize \<Rightarrow> usize \<Rightarrow> 'd kernel \<Rightarrow> (usize \<times> 'd kernel) option" where
  "user_waitpid_nb i ptr k = answer (sys_waitpid i ptr k)"

definition user_waittid :: "('d kernel \<Rightarrow> 'd kernel option) \<Rightarrow> usize \<Rightarrow> 'd kernel \<Rightarrow> (usize \<times> 'd kernel) option" where
  "user_waittid others tid = ask_again (sys_waittid tid) others"

text \<open>The turns of the caller: every call but the last is answered with -2, and the last one with something else.\<close>

definition turns :: "('d kernel \<Rightarrow> 'd outcome option) \<Rightarrow> ('d kernel \<Rightarrow> 'd kernel option) \<Rightarrow> (nat \<Rightarrow> 'd kernel) \<Rightarrow> nat \<Rightarrow> usize \<Rightarrow> 'd kernel \<Rightarrow> bool" where
  "turns call others K n r k' \<longleftrightarrow> (\<forall>j<n. \<exists>l. call (K j) = Some (Ret (-2) l) \<and> yield_now others l = Some (K (Suc j)))
    \<and> call (K n) = Some (Ret r k') \<and> r \<noteq> -2"

lemma turns_Suc:
  "turns call others K (Suc n) r k' \<longleftrightarrow> (\<exists>l. call (K 0) = Some (Ret (-2) l) \<and> yield_now others l = Some (K 1))
    \<and> turns call others (\<lambda>j. K (Suc j)) n r k'"
  by (auto simp: turns_def All_less_Suc2)

lemma ask_again_turns: "turns call others K n r k' \<Longrightarrow> ask_again call others (K 0) = Some (r, k')"
proof (induction n arbitrary: K)
  case 0
  then show ?case by (subst ask_again.simps) (simp add: turns_def answer_def)
next
  case (Suc n)
  then obtain l where "call (K 0) = Some (Ret (-2) l)" "yield_now others l = Some (K 1)" "turns call others (\<lambda>j. K (Suc j)) n r k'"
    by (auto simp: turns_Suc)
  with Suc.IH [of "\<lambda>j. K (Suc j)"] show ?case by (subst ask_again.simps) (simp add: answer_def)
qed

lemma answer_Some: "answer x = Some (v, k) \<longleftrightarrow> x = Some (Ret v k)"
  by (auto simp: answer_def split: option.splits outcome.splits)

lemma turns_ask_again: "ask_again call others k = Some y \<Longrightarrow> \<exists>n K. K 0 = k \<and> turns call others K n (fst y) (snd y)"
proof (induction call others k y rule: ask_again.raw_induct [rotated, consumes 1, case_names step])
  case (step rec call others k y)
  from step(2) obtain r l where a: "call k = Some (Ret r l)"
    and b: "(if r = -2 then yield_now others l \<bind> rec call others else Some (r, l)) = Some y"
    by (auto simp: bind_eq_Some_conv answer_Some)
  show ?case
  proof (cases "r = -2")
    case True
    then obtain m where m: "yield_now others l = Some m" "rec call others m = Some y" using b by (auto simp: bind_eq_Some_conv)
    obtain n K where K: "K 0 = m" "turns call others K n (fst y) (snd y)" using step(1) [OF m(2)] by (elim exE conjE)
    have "turns call others (case_nat k K) (Suc n) (fst y) (snd y)" using True a m(1) K by (simp add: turns_Suc)
    then show ?thesis by (intro exI [of _ "Suc n"] exI [of _ "case_nat k K"]) simp
  next
    case False
    then have "turns call others (\<lambda>_. k) 0 (fst y) (snd y)" using a b by (auto simp: turns_def)
    then show ?thesis by (intro exI [of _ 0] exI [of _ "\<lambda>_. k"]) simp
  qed
qed

lemma ask_again_iff: "ask_again call others k = Some (r, k') \<longleftrightarrow> (\<exists>n K. K 0 = k \<and> turns call others K n r k')"
  using turns_ask_again [of call others k "(r, k')"] ask_again_turns [of call others _ _ r k'] by auto

section \<open>Waiting for a child\<close>

lemma release_task_children: "release_task t k = Some k' \<Longrightarrow> map_option children (get_proc q k') = map_option children (get_proc q k)"
  by (auto simp: release_task_def Let_def get_proc_def set_proc_def set_kmem_def index_at_def bind_eq_Some_conv nth_list_update
      split: if_splits option.splits)

lemma foldo_release_children: "foldo release_task ts k = Some k' \<Longrightarrow> map_option children (get_proc q k') = map_option children (get_proc q k)"
  by (induction ts arbitrary: k) (auto simp: bind_eq_Some_conv release_task_children)

lemma release_process_children:
  assumes "release_process c k = Some k'"
  shows "map_option children (get_proc q k') = (if q = c then None else map_option children (get_proc q k))"
proof -
  obtain C ks m where C: "get_proc c k = Some C"
    and r: "foldo release_task (remdups (owned_by C)) (k\<lparr>kst := ks\<lparr>k_mem := m\<rparr>, procs := (procs k)[c := None]\<rparr>) = Some k'"
    using assms by (auto simp: release_process_def bind_eq_Some_conv)
  have "map_option children (get_proc q (k\<lparr>kst := ks\<lparr>k_mem := m\<rparr>, procs := (procs k)[c := None]\<rparr>)) =
      (if q = c then None else map_option children (get_proc q k))"
    using C by (auto simp: get_proc_def index_at_def nth_list_update split: if_splits)
  then show ?thesis by (simp only: foldo_release_children [OF r])
qed

text \<open>A child that \<open>waitpid\<close> may report, and one that it can report now.\<close>

definition waited_for :: "usize \<Rightarrow> 'd kernel \<Rightarrow> nat \<Rightarrow> bool" where
  "waited_for i k c \<longleftrightarrow> (case get_proc c k of Some C \<Rightarrow> pid_matches i C | None \<Rightarrow> False)"

definition has_exited :: "'d kernel \<Rightarrow> nat \<Rightarrow> bool" where
  "has_exited k c \<longleftrightarrow> (case get_proc c k of Some C \<Rightarrow> is_zombie C | None \<Rightarrow> False)"

lemma sys_waitpid_eq:
  assumes "current_process k = Some p" "get_proc p k = Some P"
  shows "sys_waitpid i ptr k =
    (if filter (waited_for i k) (children P) = [] then Some (Ret (-1) k)
     else case find_index (\<lambda>c. waited_for i k c \<and> has_exited k c) (children P) of
      None \<Rightarrow> Some (Ret (-2) k)
    | Some idx \<Rightarrow> do {
        let c = children P ! idx;
        let k = set_proc p (P\<lparr>children := take idx (children P) @ drop (Suc idx) (children P)\<rparr>) k;
        assert_that (\<not> proc_shared c k);
        C \<leftarrow> get_proc c k;
        pa \<leftarrow> translated_refmut (kmem_of k) (ms_token (memory_set P)) ptr;
        let k = set_kmem (store_i32 pa (exit_code C) (kmem_of k)) k;
        k \<leftarrow> release_process c k;
        Some (Ret (pid C) k)
      })"
proof -
  have "(\<lambda>c. case get_proc c k of Some C \<Rightarrow> is_zombie C \<and> pid_matches i C | None \<Rightarrow> False) = (\<lambda>c. waited_for i k c \<and> has_exited k c)"
    by (auto simp: waited_for_def has_exited_def fun_eq_iff split: option.splits)
  moreover have "(\<not> list_ex (\<lambda>c. case get_proc c k of Some C \<Rightarrow> pid_matches i C | None \<Rightarrow> False) (children P)) \<longleftrightarrow> filter (waited_for i k) (children P) = []"
    by (auto simp: list_ex_iff filter_empty_conv waited_for_def)
  ultimately show ?thesis using assms by (simp add: sys_waitpid_def)
qed

lemma sys_waitpid_reaps:
  assumes cur: "current_process k = Some p" "get_proc p k = Some P" and p: "p \<notin> set (children P)"
    and w: "sys_waitpid i ptr k = Some (Ret r k')" and idx: "find_index (\<lambda>c. waited_for i k c \<and> has_exited k c) (children P) = Some idx"
  shows "\<exists>C. get_proc (children P ! idx) k = Some C \<and> pid_matches i C \<and> is_zombie C \<and> r = pid C \<and> get_proc (children P ! idx) k' = None
    \<and> map_option children (get_proc p k') = Some (take idx (children P) @ drop (Suc idx) (children P))"
proof -
  let ?c = "children P ! idx" and ?k = "set_proc p (P\<lparr>children := take idx (children P) @ drop (Suc idx) (children P)\<rparr>) k"
  note idx' = find_index_SomeD [OF idx]
  have ne: "?c \<noteq> p" using p idx' by (metis nth_mem)
  have "filter (waited_for i k) (children P) \<noteq> []" using idx' by (auto simp: filter_empty_conv dest: nth_mem)
  then obtain C m where C: "get_proc ?c ?k = Some C" and r: "release_process ?c (set_kmem m ?k) = Some k'" "r = pid C"
    using w idx by (auto simp: sys_waitpid_eq [OF cur] Let_def bind_eq_Some_conv)
  have Ck: "get_proc ?c k = Some C" using C ne by (simp add: get_set_proc [OF cur(2)])
  then have "pid_matches i C \<and> is_zombie C" using idx' by (simp add: waited_for_def has_exited_def)
  moreover have "get_proc ?c k' = None" using release_process_children [OF r(1), of ?c] by simp
  moreover have "map_option children (get_proc p k') = Some (take idx (children P) @ drop (Suc idx) (children P))"
    using release_process_children [OF r(1), of p] ne by (simp add: get_set_proc [OF cur(2)])
  ultimately show ?thesis using Ck r(2) by blast
qed

lemma ask_again_step:
  "call k = Some (Ret r l) \<Longrightarrow> ask_again call others k = (if r = -2 then yield_now others l \<bind> ask_again call others else Some (r, l))"
  by (subst ask_again.simps) (simp add: answer_def)

text \<open>
  C13. Waiting for a child with \<open>waitpid\<close> of the user library. It returns exactly when one of its calls is answered with
  something else than -2, with the answer of the first such call. It returns -1 at once when no child has the id; it
  yields and asks again while no child with the id has exited; and when there is one, the answer is the id of the first
  such child, which is then gone, and removed from the children of the caller and no other one is.
\<close>

theorem waitpid_spec:
  assumes cur: "current_process k = Some p" "get_proc p k = Some P" and p: "p \<notin> set (children P)"
  shows "(user_waitpid others i ptr k = Some (r, k') \<longleftrightarrow> (\<exists>n K. K 0 = k \<and> turns (sys_waitpid i ptr) others K n r k'))
    \<and> (filter (waited_for i k) (children P) = [] \<longrightarrow> user_waitpid others i ptr k = Some (-1, k))
    \<and> (filter (waited_for i k) (children P) \<noteq> [] \<longrightarrow> filter (has_exited k) (filter (waited_for i k) (children P)) = [] \<longrightarrow>
      user_waitpid others i ptr k = yield_now others k \<bind> user_waitpid others i ptr)
    \<and> (find_index (\<lambda>c. waited_for i k c \<and> has_exited k c) (children P) = Some idx \<longrightarrow> user_waitpid_nb i ptr k = Some (r, k') \<longrightarrow>
      (r \<noteq> -2 \<longrightarrow> user_waitpid others i ptr k = Some (r, k'))
      \<and> (\<exists>C. get_proc (children P ! idx) k = Some C \<and> pid_matches i C \<and> is_zombie C \<and> r = pid C \<and> get_proc (children P ! idx) k' = None
        \<and> map_option children (get_proc p k') = Some (take idx (children P) @ drop (Suc idx) (children P))))"
proof (intro conjI impI)
  show "user_waitpid others i ptr k = Some (r, k') \<longleftrightarrow> (\<exists>n K. K 0 = k \<and> turns (sys_waitpid i ptr) others K n r k')"
    by (simp add: user_waitpid_def ask_again_iff)
  show "user_waitpid others i ptr k = Some (-1, k)" if "filter (waited_for i k) (children P) = []"
    using that by (simp add: user_waitpid_def sys_waitpid_eq [OF cur] ask_again_step [where r = "-1" and l = k])
  show "user_waitpid others i ptr k = yield_now others k \<bind> user_waitpid others i ptr"
    if "filter (waited_for i k) (children P) \<noteq> []" "filter (has_exited k) (filter (waited_for i k) (children P)) = []"
  proof -
    have "find_index (\<lambda>c. waited_for i k c \<and> has_exited k c) (children P) = None"
      using that(2) by (auto simp: find_index_None_iff filter_empty_conv)
    then have "sys_waitpid i ptr k = Some (Ret (-2) k)" using that(1) by (simp add: sys_waitpid_eq [OF cur])
    then show ?thesis by (simp add: user_waitpid_def ask_again_step)
  qed
  assume idx: "find_index (\<lambda>c. waited_for i k c \<and> has_exited k c) (children P) = Some idx" and "user_waitpid_nb i ptr k = Some (r, k')"
  then have w: "sys_waitpid i ptr k = Some (Ret r k')" by (simp add: user_waitpid_nb_def answer_Some)
  show "user_waitpid others i ptr k = Some (r, k')" if "r \<noteq> -2"
    using that w by (simp add: user_waitpid_def ask_again_step)
  show "\<exists>C. get_proc (children P ! idx) k = Some C \<and> pid_matches i C \<and> is_zombie C \<and> r = pid C \<and> get_proc (children P ! idx) k' = None
      \<and> map_option children (get_proc p k') = Some (take idx (children P) @ drop (Suc idx) (children P))"
    by (rule sys_waitpid_reaps [OF cur p w idx])
qed

text \<open>A process whose child 8 is running and that waits for it; when its turn comes again the child is gone.\<close>

definition waiting_kernel :: "bytes kernel" where
  "waiting_kernel = sample_kernel\<lparr>procs := [Some (sample_pcb\<lparr>children := [1]\<rparr>), Some (sample_pcb\<lparr>pid := 8\<rparr>)]\<rparr>"

theorem waitpid_spec_witness:
  "user_waitpid (\<lambda>_. Some sample_kernel) 9 0 waiting_kernel = Some (-1, waiting_kernel)
   \<and> user_waitpid (\<lambda>_. Some sample_kernel) 8 0 waiting_kernel = Some (-1, sample_kernel)"
proof -
  have cur: "current_process waiting_kernel = Some 0" "get_proc 0 waiting_kernel = Some (sample_pcb\<lparr>children := [1]\<rparr>)"
    by (simp_all add: waiting_kernel_def sample_kernel_def current_process_def current_task_def get_tcb_def get_proc_def index_at_def sample_tcb_def)
  have one: "get_proc (Suc 0) waiting_kernel = Some (sample_pcb\<lparr>pid := 8\<rparr>)" by (simp add: waiting_kernel_def get_proc_def index_at_def)
  note w = waitpid_spec [OF cur, of "\<lambda>_. Some sample_kernel" _ 0] and s = waitpid_spec [OF sample_current, of "\<lambda>_. Some sample_kernel" 8 0]
  have p: "0 \<notin> set (children (sample_pcb\<lparr>children := [1]\<rparr>))" "0 \<notin> set (children sample_pcb)" by (simp_all add: sample_pcb_def)
  have f: "waited_for 8 waiting_kernel 1" "\<not> waited_for 9 waiting_kernel 1" "\<not> has_exited waiting_kernel 1"
    by (simp_all add: waited_for_def has_exited_def one pid_matches_def sample_pcb_def)
  have y: "yield_now (\<lambda>_. Some sample_kernel) waiting_kernel = Some sample_kernel"
    by (simp add: yield_now_def sys_yield_def switch_suspend_def waiting_kernel_def sample_kernel_def suspend_current_and_run_next_def take_current_task_def take_current_def)
  have "user_waitpid (\<lambda>_. Some sample_kernel) 8 0 sample_kernel = Some (-1, sample_kernel)"
    using s [OF p(2)] by (simp add: sample_pcb_def)
  then show ?thesis using w [OF p(1), of 9] w [OF p(1), of 8] f y by simp
qed

text \<open>
  An exit code of -2 is taken for "not yet": the kernel has handed over the code and released the thread, but \<open>waittid\<close>
  asks again, finds the slot empty and returns -1.
\<close>

lemma waittid_minus_two:
  assumes cur: "current_task (kd k) = Some t" "get_tcb t k = Some T" "get_proc (tcb_process T) k = Some P" "tcb_res T = Some res" "res_tid res \<noteq> tid"
    and w: "unat tid < length (tasks P)" "tasks P ! unat tid = Some w" "get_tcb w k = Some W" "tcb_exit_code W = Some (-2)"
    and rel: "release_task w (set_proc (tcb_process T) (P\<lparr>tasks := (tasks P)[unat tid := None]\<rparr>) k) = Some l" "yield_now others l = Some m"
    and nxt: "current_task (kd m) = Some t" "get_tcb t m = Some T'" "get_proc (tcb_process T') m = Some P'" "tcb_res T' = Some res" 
      "unat tid < length (tasks P')" "tasks P' ! unat tid = None"
  shows "user_waittid others tid k = Some (-1, m)"
proof -
  have "sys_waittid tid k = Some (Ret (-2) l)" using cur w rel(1) by (simp add: sys_waittid_def)
  moreover have "sys_waittid tid m = Some (Ret (-1) m)" using cur(5) nxt by (simp add: sys_waittid_def)
  ultimately show ?thesis using rel(2) by (simp add: user_waittid_def ask_again_step)
qed

end
