(* ===== verification/Shell.thy ===== *)
theory Shell
  imports UserLib
begin

text \<open>
  The shell (\<open>user/src/bin/user_shell.rs\<close>): line editing, the parsing of a command line into the arguments and the
  redirections of its commands, and the processes and pipes of a pipeline on the system calls of the kernel. A string is
  the list of its characters, which are below 256 because the shell reads them byte by byte; \<open>None\<close> is a panic of the
  shell or of the kernel. Prompts, echo and messages are not modelled.
\<close>

section \<open>Command lines\<close>

definition LF :: u8 where "LF = 0x0a"
definition CR :: u8 where "CR = 0x0d"
definition DL :: u8 where "DL = 0x7f"
definition BS :: u8 where "BS = 0x08"

text \<open>One key: the line afterwards, and the line to execute, if the key ends one.\<close>

definition shell_key :: "u8 \<Rightarrow> bytes \<Rightarrow> bytes \<times> bytes option" where
  "shell_key c line =
    (if c = LF \<or> c = CR then (if line \<noteq> [] then ([], Some line) else (line, None))
     else if c = BS \<or> c = DL then (if line \<noteq> [] then (butlast line, None) else (line, None))
     else (line @ [c], None))"

text \<open>The loop of \<open>main\<close> on a sequence of keys: the lines it executes, and what is left of the last one.\<close>

fun shell_keys :: "bytes \<Rightarrow> bytes \<Rightarrow> bytes list \<times> bytes" where
  "shell_keys [] line = ([], line)"
| "shell_keys (c # cs) line = (case shell_key c line of (line, cmd) \<Rightarrow>
    (case shell_keys cs line of (cmds, line) \<Rightarrow> (case cmd of None \<Rightarrow> cmds | Some l \<Rightarrow> l # cmds, line)))"

text \<open>\<open>str::split\<close> on a character.\<close>

fun split_on :: "u8 \<Rightarrow> bytes \<Rightarrow> bytes list" where
  "split_on c [] = [[]]"
| "split_on c (x # xs) = (if x = c then [] # split_on c xs
    else (case split_on c xs of [] \<Rightarrow> [[x]] | w # ws \<Rightarrow> (x # w) # ws))"

record ProcessArguments =
  pa_input :: bytes
  pa_output :: bytes
  pa_args_copy :: "bytes list"
  pa_args_addr :: "usize list"

text \<open>The word after the first occurrence of a sign, and the words without the two of them.\<close>

definition take_redirect :: "u8 \<Rightarrow> bytes list \<Rightarrow> (bytes \<times> bytes list) option" where
  "take_redirect sign args = (case find_index (\<lambda>arg. arg = [sign, 0]) args of
      None \<Rightarrow> Some ([], args)
    | Some idx \<Rightarrow> do {
        w \<leftarrow> index_at args (idx + 1);
        Some (w, take idx args @ drop (idx + 2) args)
      })"

text \<open>\<open>as_ptr\<close> is where the heap allocator has put the strings of \<open>args_copy\<close>.\<close>

definition ProcessArguments_new :: "(nat \<Rightarrow> usize) \<Rightarrow> bytes \<Rightarrow> ProcessArguments option" where
  "ProcessArguments_new as_ptr command = do {
    let args = split_on 32 command;
    let args_copy = map (\<lambda>arg. arg @ [0]) (filter (\<lambda>arg. arg \<noteq> []) args);
    (input, args_copy) \<leftarrow> take_redirect 60 args_copy;
    (output, args_copy) \<leftarrow> take_redirect 62 args_copy;
    let args_addr = map as_ptr [0..<length args_copy] @ [0];
    Some \<lparr>pa_input = input, pa_output = output, pa_args_copy = args_copy, pa_args_addr = args_addr\<rparr>
  }"

text \<open>The commands of a line, each with the addresses of its strings, and the check of their redirections.\<close>

definition parse_line :: "(nat \<Rightarrow> nat \<Rightarrow> usize) \<Rightarrow> bytes \<Rightarrow> ProcessArguments list option" where
  "parse_line as_ptr line = those (map (\<lambda>(i, cmd). ProcessArguments_new (as_ptr i) cmd) (enumerate 0 (split_on 124 line)))"

definition binding_ok :: "nat \<Rightarrow> nat \<Rightarrow> ProcessArguments \<Rightarrow> bool" where
  "binding_ok n i pa =
    (if i = 0 then pa_output pa = []
     else if i = n - 1 then pa_input pa = []
     else pa_output pa = [] \<and> pa_input pa = [])"

definition valid_line :: "ProcessArguments list \<Rightarrow> bool" where
  "valid_line pas \<longleftrightarrow> length pas = 1 \<or> list_all (\<lambda>(i, pa). binding_ok (length pas) i pa) (enumerate 0 pas)"

section \<open>The processes of a pipeline\<close>

text \<open>What a child has done: it has returned from \<open>main\<close>, it goes on, or it has become another program.\<close>

datatype 'd child = Returns i32 "'d kernel" | Goes_on "'d kernel" | Execs "'d kernel"

text \<open>Redirection of a descriptor to a file, whose name is at address \<open>path\<close>.\<close>

definition redirect :: "'d machine \<Rightarrow> usize \<Rightarrow> u32 \<Rightarrow> usize \<Rightarrow> 'd kernel \<Rightarrow> 'd child option" where
  "redirect M path flags target k = do {
    (fd, k) \<leftarrow> answer (sys_open M path flags k);
    if fd = -1 then Some (Returns (-4) k)
    else do {
      (_, k) \<leftarrow> answer (sys_close target k);
      (d, k) \<leftarrow> answer (sys_dup fd k);
      assert_that (d = target);
      (_, k) \<leftarrow> answer (sys_close fd k);
      Some (Goes_on k)
    }
  }"

definition redirect_to :: "usize \<Rightarrow> usize \<Rightarrow> 'd kernel \<Rightarrow> 'd kernel option" where
  "redirect_to target end k = do {
    (_, k) \<leftarrow> answer (sys_close target k);
    (d, k) \<leftarrow> answer (sys_dup end k);
    assert_that (d = target);
    Some k
  }"

definition close_pipe :: "usize \<times> usize \<Rightarrow> 'd kernel \<Rightarrow> 'd kernel option" where
  "close_pipe pipe_fd k = do {
    (_, k) \<leftarrow> answer (sys_close (fst pipe_fd) k);
    (_, k) \<leftarrow> answer (sys_close (snd pipe_fd) k);
    Some k
  }"

definition close_pipes :: "(usize \<times> usize) list \<Rightarrow> 'd kernel \<Rightarrow> 'd kernel option" where
  "close_pipes pipes_fd k = foldo close_pipe pipes_fd k"

text \<open>The descriptors of the \<open>i\<close>-th of \<open>n\<close> commands.\<close>

definition child_pipes :: "(usize \<times> usize) list \<Rightarrow> nat \<Rightarrow> nat \<Rightarrow> 'd kernel \<Rightarrow> 'd kernel option" where
  "child_pipes pipes_fd n i k = do {
    k \<leftarrow> (if i > 0 then do { pipe_fd \<leftarrow> index_at pipes_fd (i - 1); redirect_to 0 (fst pipe_fd) k } else Some k);
    k \<leftarrow> (if i < n - 1 then do { pipe_fd \<leftarrow> index_at pipes_fd i; redirect_to 1 (snd pipe_fd) k } else Some k);
    close_pipes pipes_fd k
  }"

text \<open>
  What the child of \<open>fork\<close> does. The addresses of the names of the two files, of the program and of the argument vector
  are those of the strings and the vector of its \<open>ProcessArguments\<close>.
\<close>

definition shell_child :: "'d machine \<Rightarrow> usize \<Rightarrow> usize \<Rightarrow> usize \<Rightarrow> ProcessArguments \<Rightarrow> (usize \<times> usize) list \<Rightarrow> nat \<Rightarrow> nat \<Rightarrow> 'd kernel \<Rightarrow> 'd child option" where
  "shell_child M input_ptr output_ptr args_ptr pa pipes_fd n i k = do {
    r \<leftarrow> (if pa_input pa \<noteq> [] then redirect M input_ptr RDONLY 0 k else Some (Goes_on k));
    case r of Goes_on k \<Rightarrow> do {
      r \<leftarrow> (if pa_output pa \<noteq> [] then redirect M output_ptr (O_CREATE OR WRONLY) 1 k else Some (Goes_on k));
      case r of Goes_on k \<Rightarrow> do {
        k \<leftarrow> child_pipes pipes_fd n i k;
        _ \<leftarrow> index_at (pa_args_copy pa) 0;
        (r, k) \<leftarrow> answer (sys_exec M (pa_args_addr pa ! 0) args_ptr k);
        if r = -1 then Some (Returns (-4) k) else Some (Execs k)
      }
      | r \<Rightarrow> Some r
    }
    | r \<Rightarrow> Some r
  }"

text \<open>What the shell does itself. The array for \<open>pipe\<close> is at address \<open>buf\<close>, and the exit code goes to address \<open>ptr\<close>.\<close>

definition new_pipe :: "usize \<Rightarrow> (usize \<times> usize) list \<times> 'd kernel \<Rightarrow> ((usize \<times> usize) list \<times> 'd kernel) option" where
  "new_pipe buf = (\<lambda>(pipes_fd, k). do {
    (_, k) \<leftarrow> answer (sys_pipe buf k);
    token \<leftarrow> current_user_token k;
    pa0 \<leftarrow> translated_ref (kmem_of k) token buf;
    pa1 \<leftarrow> translated_ref (kmem_of k) token (buf + 8);
    Some (pipes_fd @ [(load_word (kmem_of k) pa0, load_word (kmem_of k) pa1)], k)
  })"

definition fork_child :: "'d machine \<Rightarrow> usize list \<times> 'd kernel \<Rightarrow> (usize list \<times> 'd kernel) option" where
  "fork_child M = (\<lambda>(children, k). do {
    (pid, k) \<leftarrow> answer (sys_fork M k);
    Some (children @ [pid], k)
  })"

definition wait_child :: "('d kernel \<Rightarrow> 'd kernel option) \<Rightarrow> usize \<Rightarrow> usize \<Rightarrow> 'd kernel \<Rightarrow> 'd kernel option" where
  "wait_child others ptr i k = do {
    (exit_pid, k) \<leftarrow> user_waitpid others i ptr k;
    assert_that (i = exit_pid);
    Some k
  }"

definition shell_parent :: "'d machine \<Rightarrow> ('d kernel \<Rightarrow> 'd kernel option) \<Rightarrow> usize \<Rightarrow> usize \<Rightarrow> ProcessArguments list \<Rightarrow> 'd kernel \<Rightarrow> 'd kernel option" where
  "shell_parent M others buf ptr pas k = (if \<not> valid_line pas then Some k else do {
    (pipes_fd, k) \<leftarrow> foldo (\<lambda>_. new_pipe buf) [0..<length pas - 1] ([], k);
    (children, k) \<leftarrow> foldo (\<lambda>_. fork_child M) pas ([], k);
    k \<leftarrow> close_pipes pipes_fd k;
    foldo (wait_child others ptr) children k
  })"

section \<open>Parsing\<close>

lemma split_on_nonempty [simp]: "split_on c xs \<noteq> []"
  by (cases "(c, xs)" rule: split_on.cases) (auto split: list.splits)

lemma split_on_none: "c \<notin> set xs \<Longrightarrow> split_on c xs = [xs]"
  by (induction xs) auto

lemma split_on_append: "c \<notin> set xs \<Longrightarrow> split_on c (xs @ c # ys) = xs # split_on c ys"
  by (induction xs) auto

text \<open>The commands with bars between them.\<close>

fun with_bars :: "bytes list \<Rightarrow> bytes" where
  "with_bars [] = []"
| "with_bars [c] = c"
| "with_bars (c # cs) = c @ 124 # with_bars cs"

lemma split_with_bars: "cs \<noteq> [] \<Longrightarrow> \<forall>c\<in>set cs. 124 \<notin> set c \<Longrightarrow> split_on 124 (with_bars cs) = cs"
  by (induction cs rule: with_bars.induct) (auto simp: split_on_none split_on_append)

text \<open>
  Words with the number of spaces before each of them, and the number of spaces at the end. Two words have at least one
  space between them; there may be none before the first word and after the last one.
\<close>

fun spaced :: "(nat \<times> bytes) list \<Rightarrow> nat \<Rightarrow> bytes" where
  "spaced [] n = replicate n 32"
| "spaced ((g, w) # gws) n = replicate g 32 @ w @ spaced gws n"

definition gaps_ok :: "(nat \<times> bytes) list \<Rightarrow> bool" where
  "gaps_ok gws \<longleftrightarrow> list_all (\<lambda>(g, w). 0 < g) (tl gws)"

definition is_word :: "bytes \<Rightarrow> bool" where
  "is_word w \<longleftrightarrow> w \<noteq> [] \<and> 32 \<notin> set w"

definition plain_word :: "bytes \<Rightarrow> bool" where
  "plain_word w \<longleftrightarrow> is_word w \<and> w \<noteq> [60] \<and> w \<noteq> [62]"

lemma split_replicate: "filter (\<lambda>w. w \<noteq> []) (split_on c (replicate g c @ xs)) = filter (\<lambda>w. w \<noteq> []) (split_on c xs)"
  by (induction g) auto

lemma spaced_start:
  assumes "gaps_ok (x # gws)"
  shows "spaced gws n = [] \<or> (\<exists>r. spaced gws n = 32 # r)"
proof (cases gws)
  case Nil
  then show ?thesis by (cases n) simp_all
next
  case (Cons gw gws')
  then obtain g w where "gw = (Suc g, w)" using assms by (cases gw) (auto simp: gaps_ok_def gr0_conv_Suc)
  then show ?thesis using Cons by simp
qed

lemma split_spaced:
  assumes "\<forall>(g, w)\<in>set gws. is_word w" "gaps_ok gws"
  shows "filter (\<lambda>w. w \<noteq> []) (split_on 32 (spaced gws n)) = map snd gws"
  using assms
proof (induction gws)
  case Nil
  show ?case using split_replicate [of 32 n "[]"] by simp
next
  case (Cons gw gws)
  obtain g w where gw: "gw = (g, w)" by force
  then have w: "w \<noteq> []" "32 \<notin> set w" using Cons.prems by (auto simp: is_word_def)
  have IH: "filter (\<lambda>w. w \<noteq> []) (split_on 32 (spaced gws n)) = map snd gws"
    using Cons by (cases gws) (simp_all add: gaps_ok_def)
  from spaced_start [OF Cons.prems(2), of n]
  have "filter (\<lambda>w. w \<noteq> []) (split_on 32 (w @ spaced gws n)) = w # filter (\<lambda>w. w \<noteq> []) (split_on 32 (spaced gws n))"
    using w by (auto simp: split_on_none split_on_append)
  then show ?case using IH by (simp add: gw split_replicate)
qed

lemma take_redirect_none: "\<forall>w\<in>set ws. w \<noteq> [s] \<Longrightarrow> take_redirect s (map (\<lambda>w. w @ [0]) ws) = Some ([], map (\<lambda>w. w @ [0]) ws)"
  by (auto simp: take_redirect_def find_index_None_iff split: option.splits dest!: find_index_SomeD)

lemma find_index_append: "\<forall>x\<in>set xs. \<not> Q x \<Longrightarrow> find_index Q (xs @ ys) = map_option ((+) (length xs)) (find_index Q ys)"
  by (induction xs; cases "find_index Q ys") auto

lemma take_redirect_some:
  assumes "\<forall>w\<in>set ws. w \<noteq> [s]"
  shows "take_redirect s (map (\<lambda>w. w @ [0]) (ws @ [s] # w # vs)) = Some (w @ [0], map (\<lambda>w. w @ [0]) (ws @ vs))"
    "take_redirect s (map (\<lambda>w. w @ [0]) (ws @ [[s]])) = None"
proof -
  have "\<forall>w\<in>set (map (\<lambda>w. w @ [0]) ws). w \<noteq> [s, 0]" using assms by auto
  then show "take_redirect s (map (\<lambda>w. w @ [0]) (ws @ [s] # w # vs)) = Some (w @ [0], map (\<lambda>w. w @ [0]) (ws @ vs))"
    "take_redirect s (map (\<lambda>w. w @ [0]) (ws @ [[s]])) = None"
    by (simp_all add: take_redirect_def find_index_append index_at_def nth_append)
qed

text \<open>The redirections of a command, and a word as the shell stores it, with a null byte at its end.\<close>

definition redirections :: "bytes option \<Rightarrow> bytes option \<Rightarrow> bytes list" where
  "redirections inp out = (case inp of None \<Rightarrow> [] | Some w \<Rightarrow> [[60], w]) @ (case out of None \<Rightarrow> [] | Some w \<Rightarrow> [[62], w])"

definition stored :: "bytes option \<Rightarrow> bytes" where
  "stored r = (case r of None \<Rightarrow> [] | Some w \<Rightarrow> w @ [0])"

lemma take_input:
  assumes "\<forall>w\<in>set (ws @ vs). w \<noteq> [60]"
  shows "take_redirect 60 (map (\<lambda>w. w @ [0]) (ws @ (case inp of None \<Rightarrow> [] | Some w \<Rightarrow> [[60], w]) @ vs)) = Some (stored inp, map (\<lambda>w. w @ [0]) (ws @ vs))"
  using assms take_redirect_none [of "ws @ vs" 60] take_redirect_some(1) [of ws 60 _ vs] by (auto simp: stored_def split: option.split)

lemma take_output:
  assumes "\<forall>w\<in>set ws. w \<noteq> [62]"
  shows "take_redirect 62 (map (\<lambda>w. w @ [0]) (ws @ (case out of None \<Rightarrow> [] | Some w \<Rightarrow> [[62], w]))) = Some (stored out, map (\<lambda>w. w @ [0]) ws)"
  using assms take_redirect_none [of ws 62] take_redirect_some(1) [of ws 62 _ "[]"] by (auto simp: stored_def split: option.split)

lemma shell_keys_typed:
  "\<forall>c\<in>set cs. c \<noteq> LF \<and> c \<noteq> CR \<and> c \<noteq> BS \<and> c \<noteq> DL \<Longrightarrow> shell_keys (cs @ ds) line = shell_keys ds (line @ cs)"
  by (induction cs arbitrary: line) (auto simp: shell_key_def split: prod.split)

lemma shell_keys_erase: "shell_keys (replicate n DL @ ds) line = shell_keys ds (take (length line - n) line)"
proof (induction n arbitrary: line)
  case (Suc n)
  then show ?case by (auto simp: shell_key_def LF_def CR_def BS_def DL_def butlast_conv_take min_def split: prod.split)
qed simp

lemma new_spaced:
  assumes "\<forall>w\<in>set (map snd gws). is_word w" "gaps_ok gws"
  shows "ProcessArguments_new as_ptr (spaced gws n) = do {
    (input, args) \<leftarrow> take_redirect 60 (map (\<lambda>w. w @ [0]) (map snd gws));
    (output, args) \<leftarrow> take_redirect 62 args;
    Some \<lparr>pa_input = input, pa_output = output, pa_args_copy = args, pa_args_addr = map as_ptr [0..<length args] @ [0]\<rparr>
  }"
proof -
  have "filter (\<lambda>w. w \<noteq> []) (split_on 32 (spaced gws n)) = map snd gws" using assms by (intro split_spaced) auto
  then show ?thesis by (simp only: ProcessArguments_new_def Let_def)
qed




section \<open>The descriptors of a pipeline\<close>

text \<open>The kernel \<open>k\<close> is \<open>k0\<close> but for the descriptors of the process \<open>p\<close>, which stand for the files given by \<open>T\<close>.\<close>

definition fds_are :: "nat \<Rightarrow> ProcessControlBlock \<Rightarrow> 'd kernel \<Rightarrow> (nat \<Rightarrow> nat option) \<Rightarrow> 'd kernel \<Rightarrow> bool" where
  "fds_are p P k0 T k \<longleftrightarrow> current_process k0 = Some p \<and> get_proc p k0 = Some P
    \<and> (\<exists>t. k = set_proc p (P\<lparr>fd_table := t\<rparr>) k0 \<and> fd_file t = T \<and> 2 \<le> length t)"

lemma set_proc_same:
  assumes "get_proc p k = Some P"
  shows "set_proc p P k = k"
proof -
  have "procs k ! p = Some P" using assms by (auto simp: get_proc_def index_at_def split: if_splits)
  then show ?thesis using list_update_id [of "procs k" p] by (simp add: set_proc_def)
qed

lemma fds_areE:
  assumes "fds_are p P k0 T k"
  obtains t where "k = set_proc p (P\<lparr>fd_table := t\<rparr>) k0" "fd_file t = T" "2 \<le> length t"
    "current_process k = Some p" "get_proc p k = Some (P\<lparr>fd_table := t\<rparr>)" "current_process k0 = Some p" "get_proc p k0 = Some P"
  using assms by (auto simp: fds_are_def current_process_set_proc get_set_proc)

lemma fds_areI:
  assumes "fds_are p P k0 T k" "k' = set_proc p (P\<lparr>fd_table := t\<rparr>) k0" "fd_file t = T'" "2 \<le> length t"
  shows "fds_are p P k0 T' k'"
  using assms unfolding fds_are_def by blast

lemma close_fds:
  assumes k: "fds_are p P k0 T k" and fd: "T (unat fd) = Some f"
  shows "\<exists>k'. answer (sys_close fd k) = Some (0, k') \<and> fds_are p P k0 (T(unat fd := None)) k'"
proof -
  obtain t where t: "k = set_proc p (P\<lparr>fd_table := t\<rparr>) k0" "fd_file t = T" "2 \<le> length t"
      "current_process k = Some p" "get_proc p k = Some (P\<lparr>fd_table := t\<rparr>)" using k by (rule fds_areE)
  have u: "unat fd < length t" "t ! unat fd = Some f" using fd t(2) by (auto simp: fd_file_def split: if_splits)
  then have "sys_close fd k = Some (Ret 0 (set_proc p (P\<lparr>fd_table := t[unat fd := None]\<rparr>) k0))"
    using t by (simp add: sys_close_def)
  moreover have "fds_are p P k0 (T(unat fd := None)) (set_proc p (P\<lparr>fd_table := t[unat fd := None]\<rparr>) k0)"
    by (rule fds_areI [OF k refl]) (use t u in \<open>simp_all add: fd_file_update\<close>)
  ultimately show ?thesis by (simp add: answer_Some)
qed

lemma find_upt_eq: "n < m \<Longrightarrow> Q n \<Longrightarrow> \<forall>j<n. \<not> Q j \<Longrightarrow> find Q [0..<m] = Some n"
  by (auto simp: find_Some_iff intro!: exI [of _ n])

lemma dup_fds:
  assumes k: "fds_are p P k0 T k" and fd: "T (unat fd) = Some f" and n: "n < 2" "T n = None" "\<forall>j<n. T j \<noteq> None"
  shows "\<exists>k'. answer (sys_dup fd k) = Some (of_nat n, k') \<and> fds_are p P k0 (T(n := Some f)) k'"
proof -
  obtain t where t: "k = set_proc p (P\<lparr>fd_table := t\<rparr>) k0" "fd_file t = T" "2 \<le> length t"
      "current_process k = Some p" "get_proc p k = Some (P\<lparr>fd_table := t\<rparr>)" using k by (rule fds_areE)
  have u: "unat fd < length t" "t ! unat fd = Some f" using fd t(2) by (auto simp: fd_file_def split: if_splits)
  have tn: "t ! j = T j" if "j < 2" for j using that t(2,3) by (auto simp: fd_file_def)
  have "find (\<lambda>j. t ! j = None) [0..<length t] = Some n" using n t(3) tn by (intro find_upt_eq) auto
  then have "sys_dup fd k = Some (Ret (of_nat n) (set_proc p (P\<lparr>fd_table := t[n := Some f]\<rparr>) k0))"
    using t u by (simp add: sys_dup_def install_fd_def alloc_fd_def)
  moreover have "fds_are p P k0 (T(n := Some f)) (set_proc p (P\<lparr>fd_table := t[n := Some f]\<rparr>) k0)"
    by (rule fds_areI [OF k refl]) (use t n in \<open>simp_all add: fd_file_update\<close>)
  ultimately show ?thesis by (simp add: answer_Some)
qed

lemma redirect_to_fds:
  assumes k: "fds_are p P k0 T k" and e: "T (unat end) = Some f" "unat end \<noteq> n" and n: "n < 2" "T n \<noteq> None" "\<forall>j<n. T j \<noteq> None"
  shows "\<exists>k'. redirect_to (of_nat n) end k = Some k' \<and> fds_are p P k0 (T(n := Some f)) k'"
proof -
  have un: "unat (of_nat n :: usize) = n" using n(1) by (intro unat_of_nat_usize) simp
  obtain g where "T (unat (of_nat n :: usize)) = Some g" using n(2) by (auto simp: un)
  from close_fds [OF k this] obtain k1 where k1: "answer (sys_close (of_nat n) k) = Some (0, k1)" "fds_are p P k0 (T(n := None)) k1" by (auto simp: un)
  obtain k2 where "answer (sys_dup end k1) = Some (of_nat n, k2)" "fds_are p P k0 (T(n := Some f)) k2"
    using dup_fds [OF k1(2), of "end" f n] e n by auto
  with k1 show ?thesis by (simp add: redirect_to_def)
qed

lemma close_pipes_fds:
  assumes "fds_are p P k0 T k" "distinct (concat (map (\<lambda>(r, w). [unat r, unat w]) pipes))" "\<forall>(r, w)\<in>set pipes. T (unat r) \<noteq> None \<and> T (unat w) \<noteq> None"
  shows "\<exists>k'. close_pipes pipes k = Some k'
    \<and> fds_are p P k0 (\<lambda>d. if d \<in> set (concat (map (\<lambda>(r, w). [unat r, unat w]) pipes)) then None else T d) k'"
  using assms
proof (induction pipes arbitrary: T k)
  case Nil
  then show ?case by (simp add: close_pipes_def)
next
  case (Cons e pipes)
  obtain r w where e: "e = (r, w)" by force
  obtain f g where f: "T (unat r) = Some f" "T (unat w) = Some g" using Cons.prems(3) by (auto simp: e)
  obtain k1 where k1: "answer (sys_close r k) = Some (0, k1)" "fds_are p P k0 (T(unat r := None)) k1"
    using close_fds [OF Cons.prems(1) f(1)] by blast
  have "(T(unat r := None)) (unat w) = Some g" using f(2) Cons.prems(2) by (auto simp: e)
  from close_fds [OF k1(2) this] obtain k2 where k2: "answer (sys_close w k1) = Some (0, k2)"
      "fds_are p P k0 (T(unat r := None, unat w := None)) k2" by blast
  have "\<forall>(r', w')\<in>set pipes. (T(unat r := None, unat w := None)) (unat r') \<noteq> None \<and> (T(unat r := None, unat w := None)) (unat w') \<noteq> None"
    using Cons.prems(2,3) by (fastforce simp: e)
  moreover have "distinct (concat (map (\<lambda>(r, w). [unat r, unat w]) pipes))" using Cons.prems(2) by (simp add: e)
  ultimately obtain k3 where k3: "close_pipes pipes k2 = Some k3"
      "fds_are p P k0 (\<lambda>d. if d \<in> set (concat (map (\<lambda>(r, w). [unat r, unat w]) pipes)) then None else (T(unat r := None, unat w := None)) d) k3"
    using Cons.IH [OF k2(2)] by blast
  have "close_pipes (e # pipes) k = Some k3" using k1(1) k2(1) k3(1) by (simp add: close_pipes_def close_pipe_def e)
  moreover have eq: "(\<lambda>d. if d \<in> set (concat (map (\<lambda>(r, w). [unat r, unat w]) pipes)) then None else (T(unat r := None, unat w := None)) d) =
      (\<lambda>d. if d \<in> set (concat (map (\<lambda>(r, w). [unat r, unat w]) (e # pipes))) then None else T d)"
    by (auto simp: e fun_eq_iff)
  ultimately show ?case using k3(2) unfolding eq by blast
qed

text \<open>The descriptors of the ends of the pipes.\<close>

definition pipe_fds :: "(usize \<times> usize) list \<Rightarrow> nat list" where
  "pipe_fds pipes = concat (map (\<lambda>(r, w). [unat r, unat w]) pipes)"

text \<open>What the descriptors of the \<open>i\<close>-th of \<open>n\<close> commands stand for.\<close>

definition child_table :: "(nat \<Rightarrow> nat) \<Rightarrow> (nat \<Rightarrow> nat) \<Rightarrow> (usize \<times> usize) list \<Rightarrow> nat \<Rightarrow> nat \<Rightarrow> (nat \<Rightarrow> nat option) \<Rightarrow> nat \<Rightarrow> nat option" where
  "child_table R W pipes n i T d =
    (if d = 0 \<and> 0 < i then Some (R (i - 1)) else if d = 1 \<and> i < n - 1 then Some (W i)
     else if d \<in> set (pipe_fds pipes) then None else T d)"

lemma pipe_fds_nth: "j < length pipes \<Longrightarrow> unat (fst (pipes ! j)) \<in> set (pipe_fds pipes) \<and> unat (snd (pipes ! j)) \<in> set (pipe_fds pipes)"
  by (cases "pipes ! j") (force simp: pipe_fds_def dest!: nth_mem)

lemma child_pipes_fds:
  assumes k: "fds_are p P k0 T k" and std: "T 0 \<noteq> None" "T 1 \<noteq> None" and n: "n = Suc (length pipes)" "i < n"
    and d: "distinct (0 # 1 # pipe_fds pipes)"
    and ends: "\<forall>j<length pipes. T (unat (fst (pipes ! j))) = Some (R j) \<and> T (unat (snd (pipes ! j))) = Some (W j)"
  shows "\<exists>k'. child_pipes pipes n i k = Some k' \<and> fds_are p P k0 (child_table R W pipes n i T) k'"
proof -
  have ne: "unat (fst (pipes ! j)) \<notin> {0, 1}" "unat (snd (pipes ! j)) \<notin> {0, 1}" if "j < length pipes" for j
    using d pipe_fds_nth [OF that] by (metis distinct.simps(2) insertE list.set_intros(2) singletonD)+
  let ?T1 = "if 0 < i then T(0 := Some (R (i - 1))) else T"
  have "\<exists>k1. (if i > 0 then do { e \<leftarrow> index_at pipes (i - 1); redirect_to 0 (fst e) k } else Some k) = Some k1 \<and> fds_are p P k0 ?T1 k1"
  proof (cases "0 < i")
    case True
    then have i: "i - 1 < length pipes" using n by simp
    then show ?thesis using redirect_to_fds [OF k, of "fst (pipes ! (i - 1))" "R (i - 1)" 0] ends ne(1) [OF i] std True by (auto simp: index_at_def)
  qed (use k in simp)
  then obtain k1 where k1: "(if i > 0 then do { e \<leftarrow> index_at pipes (i - 1); redirect_to 0 (fst e) k } else Some k) = Some k1" "fds_are p P k0 ?T1 k1" by blast
  let ?T2 = "if i < n - 1 then ?T1(1 := Some (W i)) else ?T1"
  have "\<exists>k2. (if i < n - 1 then do { e \<leftarrow> index_at pipes i; redirect_to 1 (snd e) k1 } else Some k1) = Some k2 \<and> fds_are p P k0 ?T2 k2"
  proof (cases "i < n - 1")
    case True
    then have i: "i < length pipes" using n by simp
    then show ?thesis using redirect_to_fds [OF k1(2), of "snd (pipes ! i)" "W i" 1] ends ne(2) [OF i] std True by (auto simp: index_at_def)
  qed (use k1 in simp)
  then obtain k2 where k2: "(if i < n - 1 then do { e \<leftarrow> index_at pipes i; redirect_to 1 (snd e) k1 } else Some k1) = Some k2" "fds_are p P k0 ?T2 k2" by blast
  have T2: "?T2 f = T f" if "f \<notin> {0, 1}" for f using that by auto
  have "\<forall>(r, w)\<in>set pipes. ?T2 (unat r) \<noteq> None \<and> ?T2 (unat w) \<noteq> None"
  proof clarify
    fix r w assume "(r, w) \<in> set pipes"
    then obtain j where j: "j < length pipes" "pipes ! j = (r, w)" by (auto simp: in_set_conv_nth)
    show "?T2 (unat r) \<noteq> None \<and> ?T2 (unat w) \<noteq> None"
      unfolding T2 [OF ne(1) [OF j(1), unfolded j(2) fst_conv]] T2 [OF ne(2) [OF j(1), unfolded j(2) snd_conv]] using ends j by auto
  qed
  from close_pipes_fds [OF k2(2) _ this] d obtain k3 where k3: "close_pipes pipes k2 = Some k3"
      "fds_are p P k0 (\<lambda>d. if d \<in> set (pipe_fds pipes) then None else ?T2 d) k3" by (auto simp: pipe_fds_def [symmetric])
  have eq: "(\<lambda>d. if d \<in> set (pipe_fds pipes) then None else ?T2 d) = child_table R W pipes n i T"
    using d by (auto simp: child_table_def fun_eq_iff)
  have "child_pipes pipes n i k = Some k3" unfolding child_pipes_def k1(1) by (simp only: bind.bind_lunit k2(1) k3(1))
  then show ?thesis using k3(2) unfolding eq by blast
qed

text \<open>
  C11. The pipes of a pipeline. In the \<open>i\<close>-th of the \<open>n\<close> children of the shell, whose descriptors are those of the shell,
  standard input is the read end of the pipe before it and standard output the write end of the pipe after it, if there
  are such pipes; the other descriptors of the pipes are closed and no other descriptor changes. So a child refers to no
  end of a pipe but these two, once each. The shell itself has closed all ends when it starts to wait: the write end
  of a pipe is open in no process but the one that writes to it, and the reader sees the end of its input when this one
  is gone.
\<close>

theorem pipeline_fds:
  assumes cur: "current_process k = Some p" "get_proc p k = Some P" and T: "T = fd_file (fd_table P)"
    and std: "T 0 \<noteq> None" "T 1 \<noteq> None" and n: "n = Suc (length pipes)" "i < n"
    and d: "distinct (0 # 1 # pipe_fds pipes)"
    and ends: "\<forall>j<length pipes. T (unat (fst (pipes ! j))) = Some (R j) \<and> T (unat (snd (pipes ! j))) = Some (W j)"
    and files: "inj R" "inj W" "\<forall>j l. R j \<noteq> W l" "\<forall>f j. f \<notin> set (pipe_fds pipes) \<longrightarrow> T f \<noteq> Some (R j) \<and> T f \<noteq> Some (W j)"
  shows "(\<exists>t. child_pipes pipes n i k = Some (set_proc p (P\<lparr>fd_table := t\<rparr>) k) \<and> fd_file t = child_table R W pipes n i T
      \<and> (\<forall>j<length pipes. \<forall>f. (fd_file t f = Some (R j) \<longleftrightarrow> f = 0 \<and> i = Suc j) \<and> (fd_file t f = Some (W j) \<longleftrightarrow> f = 1 \<and> i = j)))
    \<and> (\<exists>t. close_pipes pipes k = Some (set_proc p (P\<lparr>fd_table := t\<rparr>) k)
      \<and> fd_file t = (\<lambda>f. if f \<in> set (pipe_fds pipes) then None else T f) \<and> (\<forall>j f. fd_file t f \<noteq> Some (R j) \<and> fd_file t f \<noteq> Some (W j)))"
proof
  have "1 < length (fd_table P)" using std(2) by (auto simp: T fd_file_def split: if_splits)
  then have k: "fds_are p P k T k" using cur set_proc_same [OF cur(2)] by (auto simp: fds_are_def T intro!: exI [of _ "fd_table P"])
  obtain k' where k': "child_pipes pipes n i k = Some k'" "fds_are p P k (child_table R W pipes n i T) k'"
    using child_pipes_fds [OF k std n d ends] by blast
  have "W j \<noteq> R l" for j l using files(3) by metis
  then have "\<forall>j<length pipes. \<forall>f. (child_table R W pipes n i T f = Some (R j) \<longleftrightarrow> f = 0 \<and> i = Suc j) \<and> (child_table R W pipes n i T f = Some (W j) \<longleftrightarrow> f = 1 \<and> i = j)"
    using files n by (auto simp: child_table_def dest: injD split: if_splits)
  with k' show "\<exists>t. child_pipes pipes n i k = Some (set_proc p (P\<lparr>fd_table := t\<rparr>) k) \<and> fd_file t = child_table R W pipes n i T
      \<and> (\<forall>j<length pipes. \<forall>f. (fd_file t f = Some (R j) \<longleftrightarrow> f = 0 \<and> i = Suc j) \<and> (fd_file t f = Some (W j) \<longleftrightarrow> f = 1 \<and> i = j))"
    by (auto simp: fds_are_def)
  have "\<forall>(r, w)\<in>set pipes. T (unat r) \<noteq> None \<and> T (unat w) \<noteq> None" using ends by (force simp: in_set_conv_nth)
  then obtain k2 where "close_pipes pipes k = Some k2" "fds_are p P k (\<lambda>f. if f \<in> set (pipe_fds pipes) then None else T f) k2"
    using close_pipes_fds [OF k, of pipes] d by (auto simp: pipe_fds_def [symmetric])
  then obtain t where "close_pipes pipes k = Some (set_proc p (P\<lparr>fd_table := t\<rparr>) k)" "fd_file t = (\<lambda>f. if f \<in> set (pipe_fds pipes) then None else T f)"
    by (auto simp: fds_are_def)
  then show "\<exists>t. close_pipes pipes k = Some (set_proc p (P\<lparr>fd_table := t\<rparr>) k)
      \<and> fd_file t = (\<lambda>f. if f \<in> set (pipe_fds pipes) then None else T f) \<and> (\<forall>j f. fd_file t f \<noteq> Some (R j) \<and> fd_file t f \<noteq> Some (W j))"
    using files(4) by (intro exI [of _ t]) auto
qed

lemma fd_file_map_Some: "fd_file (map Some xs) f = (if f < length xs then Some (xs ! f) else None)"
  by (simp add: fd_file_def)

text \<open>The second of three commands: the shell has two pipes, with descriptors 3 to 6.\<close>

definition shell_kernel :: "bytes kernel" where
  "shell_kernel = sample_kernel\<lparr>procs := [Some (sample_pcb\<lparr>fd_table := map Some [0, 1, 1, 2, 3, 4, 5]\<rparr>)]\<rparr>"

theorem pipeline_fds_witness:
  "\<exists>t. child_pipes [(3, 4), (5, 6)] 3 1 shell_kernel = Some (set_proc 0 (sample_pcb\<lparr>fd_table := t\<rparr>) shell_kernel)
    \<and> fd_file t 0 = Some 2 \<and> fd_file t 1 = Some 5 \<and> fd_file t 2 = Some 1 \<and> map (fd_file t) [3, 4, 5, 6] = [None, None, None, None]"
proof -
  let ?P = "sample_pcb\<lparr>fd_table := map Some [0, 1, 1, 2, 3, 4, 5]\<rparr>" and ?pipes = "[(3, 4), (5, 6)] :: (usize \<times> usize) list"
  have cur: "current_process shell_kernel = Some 0" "get_proc 0 shell_kernel = Some ?P"
    by (simp_all add: shell_kernel_def sample_kernel_def current_process_def current_task_def get_tcb_def get_proc_def index_at_def sample_tcb_def)
  let ?T = "fd_file (fd_table ?P)"
  have T: "?T f = (if f < 7 then Some ([0, 1, 1, 2, 3, 4, 5] ! f) else None)" for f
    using fd_file_map_Some [of "[0, 1, 1, 2, 3, 4, 5]" f] by simp
  have fds: "pipe_fds ?pipes = [3, 4, 5, 6]" by (simp add: pipe_fds_def)
  have "\<exists>t. child_pipes ?pipes 3 1 shell_kernel = Some (set_proc 0 (?P\<lparr>fd_table := t\<rparr>) shell_kernel)
      \<and> fd_file t = child_table (\<lambda>j. 2 * j + 2) (\<lambda>j. 2 * j + 3) ?pipes 3 1 ?T
      \<and> (\<forall>j<length ?pipes. \<forall>f. (fd_file t f = Some (2 * j + 2) \<longleftrightarrow> f = 0 \<and> 1 = Suc j) \<and> (fd_file t f = Some (2 * j + 3) \<longleftrightarrow> f = 1 \<and> 1 = j))"
  proof (rule pipeline_fds [OF cur refl, THEN conjunct1])
    show "\<forall>f j. f \<notin> set (pipe_fds ?pipes) \<longrightarrow> ?T f \<noteq> Some (2 * j + 2) \<and> ?T f \<noteq> Some (2 * j + 3)"
      unfolding T fds by (auto simp: nth_Cons' split: if_splits)
    show "\<forall>j<length ?pipes. ?T (unat (fst (?pipes ! j))) = Some (2 * j + 2) \<and> ?T (unat (snd (?pipes ! j))) = Some (2 * j + 3)"
      by (simp add: All_less_Suc fd_file_def)
    show "\<forall>j l :: nat. 2 * j + 2 \<noteq> 2 * l + 3" by presburger
    show "distinct (0 # 1 # pipe_fds ?pipes)" by (simp add: fds)
  qed (simp_all add: inj_def fd_file_def)
  then obtain t where c: "child_pipes ?pipes 3 1 shell_kernel = Some (set_proc 0 (?P\<lparr>fd_table := t\<rparr>) shell_kernel)"
    and t: "fd_file t = child_table (\<lambda>j. 2 * j + 2) (\<lambda>j. 2 * j + 3) ?pipes 3 1 ?T" by blast
  have "fd_file t 0 = Some 2" "fd_file t 1 = Some 5" "fd_file t 2 = Some 1" "map (fd_file t) [3, 4, 5, 6] = [None, None, None, None]"
    unfolding t child_table_def fds T by simp_all
  with c show ?thesis by (intro exI [of _ t]) simp
qed

end
