(* ===== verification/Coroutine.thy ===== *)
theory Coroutine
  imports Prelude
begin

text \<open>
  The user-level threads of \<open>user/src/bin/stackful_coroutine.rs\<close>: the switch of registers, the round-robin runtime, and
  the program of four tasks that count and yield. Addresses of stacks and functions are parameters.
\<close>

section \<open>Registers\<close>

text \<open>The registers a switch concerns; \<open>s\<close> are the callee-saved ones, x8, x9 and x18 to x27.\<close>

record co_regs =
  rg_x1 :: u64
  rg_x2 :: u64
  rg_s :: "u64 list"
  rg_pc :: u64

record co_context =
  cx_x1 :: u64
  cx_x2 :: u64
  cx_s :: "u64 list"
  cx_nx1 :: u64

text \<open>The two halves of \<open>switch\<close>.\<close>

definition co_save :: "co_regs \<Rightarrow> co_context" where
  "co_save g = \<lparr>cx_x1 = rg_x1 g, cx_x2 = rg_x2 g, cx_s = rg_s g, cx_nx1 = rg_x1 g\<rparr>"

definition co_load :: "co_context \<Rightarrow> co_regs" where
  "co_load c = \<lparr>rg_x1 = cx_x1 c, rg_x2 = cx_x2 c, rg_s = cx_s c, rg_pc = cx_nx1 c\<rparr>"

definition co_context_default :: co_context where
  "co_context_default = \<lparr>cx_x1 = 0, cx_x2 = 0, cx_s = replicate 12 0, cx_nx1 = 0\<rparr>"

section \<open>The runtime\<close>

definition DEFAULT_STACK_SIZE :: nat where "DEFAULT_STACK_SIZE = 4096"
definition MAX_TASKS :: nat where "MAX_TASKS = 5"

datatype co_state = Available | Running | Ready

record co_task =
  ct_id :: nat
  ct_stack :: u64
  ct_ctx :: co_context
  ct_state :: co_state

record co_runtime =
  rt_tasks :: "co_task list"
  rt_current :: nat

definition co_task_new :: "u64 \<Rightarrow> nat \<Rightarrow> co_task" where
  "co_task_new stack i = \<lparr>ct_id = i, ct_stack = stack, ct_ctx = co_context_default, ct_state = Available\<rparr>"

definition runtime_new :: "(nat \<Rightarrow> u64) \<Rightarrow> co_runtime" where
  "runtime_new stacks =
    \<lparr>rt_tasks = \<lparr>ct_id = 0, ct_stack = stacks 0, ct_ctx = co_context_default, ct_state = Running\<rparr>
      # map (\<lambda>i. co_task_new (stacks i) i) [1..<MAX_TASKS], rt_current = 0\<rparr>"

definition set_co_state :: "nat \<Rightarrow> co_state \<Rightarrow> co_task list \<Rightarrow> co_task list" where
  "set_co_state i s ts = ts[i := (ts ! i)\<lparr>ct_state := s\<rparr>]"

text \<open>The search of \<open>t_yield\<close>: \<open>Some None\<close> when it is back at the current task.\<close>

function find_ready :: "co_task list \<Rightarrow> nat \<Rightarrow> nat \<Rightarrow> nat option option" where
  "find_ready ts cur pos =
    (if length ts \<le> pos \<or> length ts \<le> cur then None
     else if ct_state (ts ! pos) = Ready then Some (Some pos)
     else let pos = (if pos + 1 = length ts then 0 else pos + 1) in
       if pos = cur then Some None else find_ready ts cur pos)"
  by auto
termination
  by (relation "measure (\<lambda>(ts, cur, pos). if pos < cur then cur - pos else length ts - pos + cur)") (auto split: if_splits)

declare find_ready.simps [simp del]

text \<open>A switch saves the registers in the context of the old task and loads those of the new one.\<close>

definition t_yield :: "co_regs \<Rightarrow> co_runtime \<Rightarrow> (bool \<times> co_regs \<times> co_runtime) option" where
  "t_yield g rt = do {
    let cur = rt_current rt;
    r \<leftarrow> find_ready (rt_tasks rt) cur cur;
    case r of
      None \<Rightarrow> Some (False, g, rt)
    | Some pos \<Rightarrow> do {
        let ts = (if ct_state (rt_tasks rt ! cur) \<noteq> Available then set_co_state cur Ready (rt_tasks rt) else rt_tasks rt);
        let ts = set_co_state pos Running ts;
        let ts = ts[cur := (ts ! cur)\<lparr>ct_ctx := co_save g\<rparr>];
        Some (True, co_load (ct_ctx (ts ! pos)), \<lparr>rt_tasks = ts, rt_current = pos\<rparr>)
      }
  }"

definition t_return :: "co_regs \<Rightarrow> co_runtime \<Rightarrow> (bool \<times> co_regs \<times> co_runtime) option" where
  "t_return g rt =
    (if rt_current rt \<noteq> 0 then do {
       _ \<leftarrow> index_at (rt_tasks rt) (rt_current rt);
       t_yield g (rt\<lparr>rt_tasks := set_co_state (rt_current rt) Available (rt_tasks rt)\<rparr>)
     } else Some (False, g, rt))"

text \<open>\<open>guard\<close> and \<open>f\<close> are the addresses of the two functions.\<close>

definition co_spawn :: "u64 \<Rightarrow> u64 \<Rightarrow> co_runtime \<Rightarrow> co_runtime option" where
  "co_spawn guard f rt = do {
    i \<leftarrow> find_index (\<lambda>t. ct_state t = Available) (rt_tasks rt);
    let t = rt_tasks rt ! i;
    let s_ptr = and (ct_stack t + of_nat DEFAULT_STACK_SIZE) (not 7);
    let c = (ct_ctx t)\<lparr>cx_x1 := guard, cx_nx1 := f, cx_x2 := s_ptr - 32\<rparr>;
    Some (rt\<lparr>rt_tasks := (rt_tasks rt)[i := t\<lparr>ct_ctx := c, ct_state := Ready\<rparr>]\<rparr>)
  }"

section \<open>The program\<close>

text \<open>
  The tasks count up to their limits. Between two calls of the runtime a task changes the registers as it likes
  (\<open>work\<close>).
\<close>

record co_prog =
  pr_rt :: co_runtime
  pr_regs :: co_regs
  pr_iter :: "nat list"
  pr_out :: "(nat \<times> nat) list"

text \<open>
  From one switch to the next: the base task is in the loop of \<open>run\<close>, which ends when \<open>t_yield\<close> answers false; another
  one prints its counter and yields, or has come to its end and returns to \<open>guard\<close>.
\<close>

definition prog_step :: "(nat \<Rightarrow> co_regs \<Rightarrow> co_regs) \<Rightarrow> nat list \<Rightarrow> co_prog \<Rightarrow> (bool \<times> co_prog) option" where
  "prog_step work limits s = do {
    let cur = rt_current (pr_rt s);
    let g = work cur (pr_regs s);
    if cur = 0 then do {
      (b, g, rt) \<leftarrow> t_yield g (pr_rt s);
      Some (b, s\<lparr>pr_rt := rt, pr_regs := g\<rparr>)
    } else if pr_iter s ! cur < limits ! cur then do {
      let i = pr_iter s ! cur;
      (_, g, rt) \<leftarrow> t_yield g (pr_rt s);
      Some (True, s\<lparr>pr_rt := rt, pr_regs := g, pr_iter := (pr_iter s)[cur := i + 1], pr_out := pr_out s @ [(cur, i)]\<rparr>)
    } else do {
      (b, g, rt) \<leftarrow> t_return g (pr_rt s);
      assert_that b;
      Some (True, s\<lparr>pr_rt := rt, pr_regs := g\<rparr>)
    }
  }"

partial_function (option) prog_run :: "(nat \<Rightarrow> co_regs \<Rightarrow> co_regs) \<Rightarrow> nat list \<Rightarrow> co_prog \<Rightarrow> co_prog option" where
  "prog_run work limits s = do {
    (b, s) \<leftarrow> prog_step work limits s;
    if b then prog_run work limits s else Some s
  }"

text \<open>\<open>main\<close>: tasks with the given addresses and limits are spawned, and the runtime runs.\<close>

definition prog_start :: "(nat \<Rightarrow> u64) \<Rightarrow> u64 \<Rightarrow> co_regs \<Rightarrow> (u64 \<times> nat) list \<Rightarrow> co_prog option" where
  "prog_start stacks guard g fs = do {
    rt \<leftarrow> foldo (\<lambda>f. co_spawn guard (fst f)) fs (runtime_new stacks);
    Some \<lparr>pr_rt = rt, pr_regs = g, pr_iter = replicate MAX_TASKS 0, pr_out = []\<rparr>
  }"

definition prog_limits :: "(u64 \<times> nat) list \<Rightarrow> nat list" where
  "prog_limits fs = 0 # map snd fs @ replicate (MAX_TASKS - 1 - length fs) 0"

section \<open>The search\<close>

definition co_ready :: "co_task list \<Rightarrow> nat \<Rightarrow> bool" where
  "co_ready ts p \<longleftrightarrow> ct_state (ts ! p) = Ready"

lemma find_ready_from:
  "cur < length ts \<Longrightarrow> pos < length ts \<Longrightarrow>
    find_ready ts cur pos = Some (find (co_ready ts) (if pos < cur then [pos..<cur] else [pos..<length ts] @ [0..<cur]))"
proof (induction ts cur pos rule: find_ready.induct)
  case (1 ts cur pos)
  let ?q = "if pos + 1 = length ts then 0 else pos + 1"
  have l: "(if pos < cur then [pos..<cur] else [pos..<length ts] @ [0..<cur]) =
      pos # (if ?q = cur then [] else if ?q < cur then [?q..<cur] else [?q..<length ts] @ [0..<cur])"
    using "1.prems" by (auto simp: upt_conv_Cons)
  show ?case
  proof (cases "co_ready ts pos")
    case True
    then show ?thesis using "1.prems" unfolding l by (subst find_ready.simps) (simp add: co_ready_def)
  next
    case False
    have "find_ready ts cur ?q = Some (find (co_ready ts) (if ?q < cur then [?q..<cur] else [?q..<length ts] @ [0..<cur]))" if "?q \<noteq> cur"
      by (rule "1.IH") (use "1.prems" False that in \<open>auto simp: co_ready_def\<close>)
    then show ?thesis using "1.prems" False unfolding l by (subst find_ready.simps) (simp add: co_ready_def Let_def)
  qed
qed

text \<open>The order in which the other tasks are asked.\<close>

definition co_order :: "co_task list \<Rightarrow> nat \<Rightarrow> nat list" where
  "co_order ts cur = [Suc cur..<length ts] @ [0..<cur]"

lemma find_ready_order: "cur < length ts \<Longrightarrow> \<not> co_ready ts cur \<Longrightarrow> find_ready ts cur cur = Some (find (co_ready ts) (co_order ts cur))"
  by (simp add: find_ready_from co_order_def upt_conv_Cons)

lemma set_co_order: "cur < length ts \<Longrightarrow> j \<in> set (co_order ts cur) \<longleftrightarrow> j < length ts \<and> j \<noteq> cur"
  by (auto simp: co_order_def)

lemma find_order_Some:
  assumes "find (co_ready ts) (co_order ts cur) = Some pos" "cur < length ts"
  shows "pos < length ts \<and> pos \<noteq> cur \<and> co_ready ts pos"
proof -
  have "pos \<in> set (co_order ts cur) \<and> co_ready ts pos" using assms(1) by (auto simp: find_Some_iff)
  then show ?thesis using set_co_order [OF assms(2)] by simp
qed

lemma find_order_None: "find (co_ready ts) (co_order ts cur) = None \<longleftrightarrow> (\<forall>j<length ts. j \<noteq> cur \<longrightarrow> \<not> co_ready ts j)" if "cur < length ts"
  using that by (auto simp: find_None_iff set_co_order)

text \<open>The tasks after a switch from \<open>cur\<close> to \<open>pos\<close>.\<close>

definition switched_tasks :: "co_regs \<Rightarrow> nat \<Rightarrow> nat \<Rightarrow> co_task list \<Rightarrow> co_task list" where
  "switched_tasks g cur pos ts = ts
    [cur := (ts ! cur)\<lparr>ct_ctx := co_save g, ct_state := (if ct_state (ts ! cur) = Available then Available else Ready)\<rparr>,
     pos := (ts ! pos)\<lparr>ct_state := Running\<rparr>]"

lemma co_task_update:
  "t\<lparr>ct_state := x, ct_ctx := c\<rparr> = t\<lparr>ct_ctx := c, ct_state := x\<rparr>"
  "ct_state t = x \<Longrightarrow> t\<lparr>ct_ctx := c, ct_state := x\<rparr> = t\<lparr>ct_ctx := c\<rparr>"
  by (cases t; simp)+

lemma t_yield_eq:
  assumes "rt_current rt < length (rt_tasks rt)" "\<not> co_ready (rt_tasks rt) (rt_current rt)"
  shows "t_yield g rt = Some (case find (co_ready (rt_tasks rt)) (co_order (rt_tasks rt) (rt_current rt)) of
      None \<Rightarrow> (False, g, rt)
    | Some pos \<Rightarrow> (True, co_load (ct_ctx (rt_tasks rt ! pos)), \<lparr>rt_tasks = switched_tasks g (rt_current rt) pos (rt_tasks rt), rt_current = pos\<rparr>))"
proof (cases "find (co_ready (rt_tasks rt)) (co_order (rt_tasks rt) (rt_current rt))")
  case None
  then show ?thesis using assms by (simp add: t_yield_def find_ready_order)
next
  case (Some pos)
  note p = find_order_Some [OF Some assms(1)]
  then show ?thesis using assms Some
    by (auto simp: t_yield_def find_ready_order set_co_state_def switched_tasks_def Let_def list_update_swap co_task_update)
qed

section \<open>What a task finds when it goes on\<close>

text \<open>Exactly the current task is running.\<close>

definition rt_ok :: "co_runtime \<Rightarrow> bool" where
  "rt_ok rt \<longleftrightarrow> rt_current rt < length (rt_tasks rt)
    \<and> list_all (\<lambda>j. ct_state (rt_tasks rt ! j) = Running \<longleftrightarrow> j = rt_current rt) [0..<length (rt_tasks rt)]"

lemma rt_ok_iff: "rt_ok rt \<longleftrightarrow> rt_current rt < length (rt_tasks rt)
    \<and> (\<forall>j<length (rt_tasks rt). ct_state (rt_tasks rt ! j) = Running \<longleftrightarrow> j = rt_current rt)"
  by (auto simp: rt_ok_def list_all_iff)

text \<open>As above, but the current task may have given back its place: the situation in which \<open>t_yield\<close> is called.\<close>

definition rt_leaving :: "co_runtime \<Rightarrow> bool" where
  "rt_leaving rt \<longleftrightarrow> rt_current rt < length (rt_tasks rt) \<and> ct_state (rt_tasks rt ! rt_current rt) \<noteq> Ready
    \<and> list_all (\<lambda>j. ct_state (rt_tasks rt ! j) = Running \<longrightarrow> j = rt_current rt) [0..<length (rt_tasks rt)]"

lemma rt_ok_leaving: "rt_ok rt \<Longrightarrow> rt_leaving rt"
  by (auto simp: rt_ok_iff rt_leaving_def list_all_iff)

lemma length_switched [simp]: "length (switched_tasks g cur pos ts) = length ts"
  by (simp add: switched_tasks_def)

lemma switched_nth:
  assumes "cur < length ts" "pos < length ts" "pos \<noteq> cur"
  shows "ct_state (switched_tasks g cur pos ts ! j) = (if j = pos then Running
      else if j = cur then (if ct_state (ts ! cur) = Available then Available else Ready) else ct_state (ts ! j))"
    "ct_ctx (switched_tasks g cur pos ts ! j) = (if j = cur then co_save g else ct_ctx (ts ! j))"
  using assms by (cases "j = pos"; cases "j = cur"; simp add: switched_tasks_def)+

lemma t_yield_cases:
  assumes "rt_leaving rt"
  shows "(t_yield g rt = Some (False, g, rt) \<and> (\<forall>j<length (rt_tasks rt). j \<noteq> rt_current rt \<longrightarrow> \<not> co_ready (rt_tasks rt) j))
    \<or> (\<exists>pos. pos < length (rt_tasks rt) \<and> pos \<noteq> rt_current rt \<and> co_ready (rt_tasks rt) pos
      \<and> t_yield g rt = Some (True, co_load (ct_ctx (rt_tasks rt ! pos)), \<lparr>rt_tasks = switched_tasks g (rt_current rt) pos (rt_tasks rt), rt_current = pos\<rparr>))"
proof -
  have c: "rt_current rt < length (rt_tasks rt)" "\<not> co_ready (rt_tasks rt) (rt_current rt)"
    using assms by (auto simp: rt_leaving_def co_ready_def)
  show ?thesis
    using t_yield_eq [OF c, of g] find_order_Some [OF _ c(1)] find_order_None [OF c(1)]
    by (cases "find (co_ready (rt_tasks rt)) (co_order (rt_tasks rt) (rt_current rt))") auto
qed

lemma t_yield_TrueE:
  assumes "rt_leaving rt" "t_yield g rt = Some (True, g', rt')"
  obtains pos where "pos < length (rt_tasks rt)" "pos \<noteq> rt_current rt" "co_ready (rt_tasks rt) pos" "g' = co_load (ct_ctx (rt_tasks rt ! pos))"
    "rt' = \<lparr>rt_tasks = switched_tasks g (rt_current rt) pos (rt_tasks rt), rt_current = pos\<rparr>"
  using assms t_yield_cases [OF assms(1), of g] by auto

lemma switched_ok:
  assumes "rt_leaving rt" "pos < length (rt_tasks rt)" "pos \<noteq> rt_current rt" "co_ready (rt_tasks rt) pos"
  shows "rt_ok \<lparr>rt_tasks = switched_tasks g (rt_current rt) pos (rt_tasks rt), rt_current = pos\<rparr>"
proof -
  have "rt_current rt < length (rt_tasks rt)" and r: "\<And>j. j < length (rt_tasks rt) \<Longrightarrow> ct_state (rt_tasks rt ! j) = Running \<Longrightarrow> j = rt_current rt"
    using assms(1) by (auto simp: rt_leaving_def list_all_iff)
  note n = switched_nth(1) [OF this(1) assms(2,3)]
  show ?thesis unfolding rt_ok_iff using assms(2,3) r by (auto simp: n)
qed

lemma leaving_return: "rt_ok rt \<Longrightarrow> rt_leaving (rt\<lparr>rt_tasks := set_co_state (rt_current rt) Available (rt_tasks rt)\<rparr>)"
  by (auto simp: rt_ok_iff rt_leaving_def set_co_state_def nth_list_update list_all_iff)

lemma t_return_eq: "rt_ok rt \<Longrightarrow> rt_current rt \<noteq> 0 \<Longrightarrow>
    t_return g rt = t_yield g (rt\<lparr>rt_tasks := set_co_state (rt_current rt) Available (rt_tasks rt)\<rparr>)"
  by (simp add: t_return_def rt_ok_iff)

text \<open>The other tasks yield, end, and spawn new ones.\<close>

inductive others_run :: "nat \<Rightarrow> co_runtime \<Rightarrow> co_runtime \<Rightarrow> bool" for a :: nat where
  start: "others_run a rt rt"
| yields: "others_run a rt rt1 \<Longrightarrow> rt_current rt1 \<noteq> a \<Longrightarrow> t_yield g rt1 = Some (True, g', rt2) \<Longrightarrow> others_run a rt rt2"
| returns: "others_run a rt rt1 \<Longrightarrow> rt_current rt1 \<noteq> a \<Longrightarrow> rt_current rt1 \<noteq> 0 \<Longrightarrow> t_return g rt1 = Some (True, g', rt2) \<Longrightarrow> others_run a rt rt2"
| spawns: "others_run a rt rt1 \<Longrightarrow> rt_current rt1 \<noteq> a \<Longrightarrow> co_spawn guard f rt1 = Some rt2 \<Longrightarrow> others_run a rt rt2"

lemma switched_keeps:
  "a \<noteq> cur \<Longrightarrow> ct_ctx (switched_tasks g cur pos ts ! a) = ct_ctx (ts ! a) \<and> (ct_state (ts ! a) \<noteq> Available \<longrightarrow> ct_state (switched_tasks g cur pos ts ! a) \<noteq> Available)"
  if "pos < length ts" "pos \<noteq> cur"
  using that by (cases "a = pos") (auto simp: switched_tasks_def)

lemma co_spawn_Some:
  assumes "co_spawn guard f rt = Some rt'"
  obtains i t where "i < length (rt_tasks rt)" "ct_state (rt_tasks rt ! i) = Available" "ct_state t = Ready" "rt' = rt\<lparr>rt_tasks := (rt_tasks rt)[i := t]\<rparr>"
proof -
  obtain i c where i: "find_index (\<lambda>t. ct_state t = Available) (rt_tasks rt) = Some i"
    and rt': "rt' = rt\<lparr>rt_tasks := (rt_tasks rt)[i := (rt_tasks rt ! i)\<lparr>ct_ctx := c, ct_state := Ready\<rparr>]\<rparr>"
    using assms by (auto simp: co_spawn_def bind_eq_Some_conv Let_def)
  from find_index_SomeD [OF i] show thesis by (intro that [OF _ _ _ rt']) auto
qed

definition waits :: "co_context \<Rightarrow> nat \<Rightarrow> co_runtime \<Rightarrow> bool" where
  "waits c a rt \<longleftrightarrow> rt_ok rt \<and> a < length (rt_tasks rt) \<and> ct_ctx (rt_tasks rt ! a) = c \<and> ct_state (rt_tasks rt ! a) \<noteq> Available"

lemma waits_yield:
  assumes "rt_leaving rt" "a < length (rt_tasks rt)" "ct_ctx (rt_tasks rt ! a) = c" "ct_state (rt_tasks rt ! a) \<noteq> Available"
    "rt_current rt \<noteq> a" "t_yield g rt = Some (True, g', rt')"
  shows "waits c a rt'" "rt_current rt' = a \<longrightarrow> g' = co_load c"
proof -
  obtain pos where pos: "pos < length (rt_tasks rt)" "pos \<noteq> rt_current rt" "co_ready (rt_tasks rt) pos" "g' = co_load (ct_ctx (rt_tasks rt ! pos))"
    "rt' = \<lparr>rt_tasks = switched_tasks g (rt_current rt) pos (rt_tasks rt), rt_current = pos\<rparr>"
    using assms(1,6) by (rule t_yield_TrueE)
  show "waits c a rt'" using switched_ok [OF assms(1) pos(1-3), of g] switched_keeps [OF pos(1,2), of a g] assms(2-5) by (auto simp: pos(5) waits_def)
  show "rt_current rt' = a \<longrightarrow> g' = co_load c" using assms(3) by (auto simp: pos)
qed

lemma waits_leaving: "waits c a rt \<Longrightarrow> rt_leaving rt \<and> a < length (rt_tasks rt) \<and> ct_ctx (rt_tasks rt ! a) = c \<and> ct_state (rt_tasks rt ! a) \<noteq> Available"
  by (auto simp: waits_def rt_ok_leaving)

lemma waits_return:
  assumes "waits c a rt" "rt_current rt \<noteq> a" "rt_current rt \<noteq> 0" "t_return g rt = Some (True, g', rt')"
  shows "waits c a rt' \<and> (rt_current rt' = a \<longrightarrow> g' = co_load c)"
proof -
  let ?rt = "rt\<lparr>rt_tasks := set_co_state (rt_current rt) Available (rt_tasks rt)\<rparr>"
  have ok: "rt_ok rt" using assms(1) by (simp add: waits_def)
  have "t_yield g ?rt = Some (True, g', rt')" using assms(3,4) by (simp add: t_return_eq [OF ok])
  from waits_yield [OF leaving_return [OF ok] _ _ _ _ this, of a c] assms(1,2) show ?thesis by (simp add: waits_def set_co_state_def)
qed

lemma waits_spawn: "waits c a rt \<Longrightarrow> co_spawn guard f rt = Some rt' \<Longrightarrow> waits c a rt'"
  by (erule co_spawn_Some) (auto simp: waits_def rt_ok_iff nth_list_update)

lemma others_run_waits: "others_run a rt rt' \<Longrightarrow> waits c a rt \<Longrightarrow> waits c a rt'"
  by (induction rule: others_run.induct) (auto dest: waits_return waits_spawn waits_yield(1) [rotated -1] waits_leaving)

lemma waits_after_yield:
  assumes "rt_ok rt" "t_yield g rt = Some (True, g', rt')"
  shows "waits (co_save g) (rt_current rt) rt'"
proof -
  obtain pos where pos: "pos < length (rt_tasks rt)" "pos \<noteq> rt_current rt" "co_ready (rt_tasks rt) pos"
    "rt' = \<lparr>rt_tasks = switched_tasks g (rt_current rt) pos (rt_tasks rt), rt_current = pos\<rparr>"
    using rt_ok_leaving [OF assms(1)] assms(2) by (rule t_yield_TrueE)
  have c: "rt_current rt < length (rt_tasks rt)" "ct_state (rt_tasks rt ! rt_current rt) = Running" using assms(1) by (auto simp: rt_ok_iff)
  show ?thesis using switched_ok [OF rt_ok_leaving [OF assms(1)] pos(1-3), of g] c pos(2)
    by (simp add: waits_def pos(4) switched_nth [OF c(1) pos(1,2)])
qed

text \<open>
  C38. The runtime of the coroutines. \<open>t_yield\<close> goes to the next ready task in the order of the table, behind the current one
  and from the start again, and answers false when there is none. A task that has yielded finds its registers as they were when
  it is switched to again, and goes on behind its call: whatever the other tasks did in between, whether they yielded, ended or
  spawned new tasks, and whether the last of them yields to it or ends.
\<close>

theorem coroutine_resumes:
  assumes ok: "rt_ok rt" and a: "a = rt_current rt"
  shows "t_yield g rt = Some (case find (co_ready (rt_tasks rt)) (co_order (rt_tasks rt) a) of
        None \<Rightarrow> (False, g, rt)
      | Some pos \<Rightarrow> (True, co_load (ct_ctx (rt_tasks rt ! pos)), \<lparr>rt_tasks = switched_tasks g a pos (rt_tasks rt), rt_current = pos\<rparr>))
    \<and> (t_yield g rt = Some (True, g1, rt1) \<longrightarrow> others_run a rt1 rt2 \<longrightarrow> rt_current rt2 \<noteq> a \<longrightarrow> rt_current rt3 = a \<longrightarrow>
      t_yield g2 rt2 = Some (True, g3, rt3) \<or> rt_current rt2 \<noteq> 0 \<and> t_return g2 rt2 = Some (True, g3, rt3) \<longrightarrow> g3 = g\<lparr>rg_pc := rg_x1 g\<rparr>)"
proof (intro conjI impI)
  have "rt_current rt < length (rt_tasks rt)" "\<not> co_ready (rt_tasks rt) (rt_current rt)" using ok by (auto simp: rt_ok_iff co_ready_def)
  then show "t_yield g rt = Some (case find (co_ready (rt_tasks rt)) (co_order (rt_tasks rt) a) of
        None \<Rightarrow> (False, g, rt)
      | Some pos \<Rightarrow> (True, co_load (ct_ctx (rt_tasks rt ! pos)), \<lparr>rt_tasks = switched_tasks g a pos (rt_tasks rt), rt_current = pos\<rparr>))" unfolding a by (rule t_yield_eq)
  assume y: "t_yield g rt = Some (True, g1, rt1)" and o: "others_run a rt1 rt2" and c: "rt_current rt2 \<noteq> a" "rt_current rt3 = a"
    and s: "t_yield g2 rt2 = Some (True, g3, rt3) \<or> rt_current rt2 \<noteq> 0 \<and> t_return g2 rt2 = Some (True, g3, rt3)"
  have w: "waits (co_save g) a rt2" using others_run_waits [OF o] waits_after_yield [OF ok y] by (simp add: a)
  have "g3 = co_load (co_save g)" using s waits_yield(2) [of rt2 a "co_save g" g2 g3 rt3] waits_return [OF w c(1), of g2 g3 rt3] waits_leaving [OF w] c by blast
  then show "g3 = g\<lparr>rg_pc := rg_x1 g\<rparr>" by (simp add: co_load_def co_save_def)
qed

text \<open>Two tasks that yield to each other.\<close>

definition two_tasks :: co_runtime where
  "two_tasks = \<lparr>rt_tasks = [(co_task_new 0 0)\<lparr>ct_state := Running\<rparr>, (co_task_new 0 1)\<lparr>ct_state := Ready\<rparr>], rt_current = 0\<rparr>"

definition some_regs :: "u64 \<Rightarrow> co_regs" where
  "some_regs x = \<lparr>rg_x1 = x, rg_x2 = x + 1, rg_s = replicate 12 x, rg_pc = x + 2\<rparr>"

theorem coroutine_resumes_witness:
  "\<exists>g1 rt1 g3 rt3. t_yield (some_regs 5) two_tasks = Some (True, g1, rt1) \<and> t_yield (some_regs 9) rt1 = Some (True, g3, rt3)
    \<and> rg_pc g3 = 5 \<and> g3 = (some_regs 5)\<lparr>rg_pc := 5\<rparr>"
proof -
  have ok: "rt_ok two_tasks" by code_simp
  define g1 where "g1 = co_load co_context_default"
  define rt1 where "rt1 = \<lparr>rt_tasks = switched_tasks (some_regs 5) 0 1 (rt_tasks two_tasks), rt_current = 1\<rparr>"
  have "find (co_ready (rt_tasks two_tasks)) (co_order (rt_tasks two_tasks) 0) = Some 1" by code_simp
  then have y: "t_yield (some_regs 5) two_tasks = Some (True, g1, rt1)"
    using coroutine_resumes [OF ok refl, THEN conjunct1, of "some_regs 5"] by (simp add: g1_def rt1_def two_tasks_def co_task_new_def)
  define rt3 where "rt3 = \<lparr>rt_tasks = switched_tasks (some_regs 9) 1 0 (rt_tasks rt1), rt_current = 0\<rparr>"
  have ok1: "rt_ok rt1" unfolding rt1_def by code_simp
  have "find (co_ready (rt_tasks rt1)) (co_order (rt_tasks rt1) 1) = Some 0" unfolding rt1_def by code_simp
  then have z: "t_yield (some_regs 9) rt1 = Some (True, co_load (ct_ctx (rt_tasks rt1 ! 0)), rt3)"
    using coroutine_resumes [OF ok1 refl, THEN conjunct1, of "some_regs 9"] by (simp add: rt3_def rt1_def)
  have "co_load (ct_ctx (rt_tasks rt1 ! 0)) = (some_regs 5)\<lparr>rg_pc := rg_x1 (some_regs 5)\<rparr>"
    by (rule coroutine_resumes [OF ok refl, THEN conjunct2, THEN mp, THEN mp, THEN mp, THEN mp, THEN mp, of _ g1 rt1 rt1 rt3 "some_regs 9"])
      (use y z in \<open>simp_all add: others_run.start rt1_def rt3_def two_tasks_def\<close>)
  with y z show ?thesis by (auto simp: some_regs_def)
qed

section \<open>The program ends\<close>

definition printed :: "nat \<Rightarrow> (nat \<times> nat) list \<Rightarrow> nat list" where
  "printed j out = map snd (filter (\<lambda>e. fst e = j) out)"

definition prog_inv :: "nat list \<Rightarrow> co_prog \<Rightarrow> bool" where
  "prog_inv limits s \<longleftrightarrow> rt_ok (pr_rt s) \<and> length (rt_tasks (pr_rt s)) = length limits \<and> length (pr_iter s) = length limits
    \<and> ct_state (rt_tasks (pr_rt s) ! 0) \<noteq> Available
    \<and> list_all (\<lambda>j. pr_iter s ! j \<le> limits ! j \<and> (ct_state (rt_tasks (pr_rt s) ! j) = Available \<longrightarrow> pr_iter s ! j = limits ! j)
      \<and> printed j (pr_out s) = [0..<pr_iter s ! j]) [1..<length limits]"

lemma prog_invD:
  assumes "prog_inv limits s"
  shows "rt_ok (pr_rt s)" "length (rt_tasks (pr_rt s)) = length limits" "length (pr_iter s) = length limits"
    "ct_state (rt_tasks (pr_rt s) ! 0) \<noteq> Available"
    "\<And>j. 0 < j \<Longrightarrow> j < length limits \<Longrightarrow> pr_iter s ! j \<le> limits ! j \<and> (ct_state (rt_tasks (pr_rt s) ! j) = Available \<longrightarrow> pr_iter s ! j = limits ! j)
      \<and> printed j (pr_out s) = [0..<pr_iter s ! j]"
  using assms by (auto simp: prog_inv_def list_all_iff)

text \<open>What is left to do: for each task that has not ended, its rounds and its end.\<close>

definition to_do :: "nat list \<Rightarrow> co_task list \<Rightarrow> nat list \<Rightarrow> nat \<Rightarrow> nat" where
  "to_do limits ts iter j = (if ct_state (ts ! j) = Available then 0 else Suc (limits ! j - iter ! j))"

definition prog_weight :: "nat list \<Rightarrow> co_prog \<Rightarrow> nat" where
  "prog_weight limits s = 2 * (\<Sum>j = 1..<length limits. to_do limits (rt_tasks (pr_rt s)) (pr_iter s) j) + (if rt_current (pr_rt s) = 0 then 1 else 0)"

lemma sum_one_less:
  fixes f g :: "nat \<Rightarrow> nat"
  assumes "finite A" "j \<in> A" "f j = Suc (g j)" "\<And>i. i \<in> A \<Longrightarrow> i \<noteq> j \<Longrightarrow> f i = g i"
  shows "sum f A = Suc (sum g A)"
proof -
  have "sum f (A - {j}) = sum g (A - {j})" using assms(4) by (intro sum.cong) auto
  then show ?thesis using assms(3) by (simp add: sum.remove [OF assms(1,2), of f] sum.remove [OF assms(1,2), of g])
qed

lemma switched_available:
  assumes "cur < length ts" "pos < length ts" "pos \<noteq> cur" "co_ready ts pos"
  shows "ct_state (switched_tasks g cur pos ts ! j) = Available \<longleftrightarrow> ct_state (ts ! j) = Available"
  using assms(4) by (simp add: switched_nth [OF assms(1-3)] co_ready_def)

lemma base_yields:
  assumes inv: "prog_inv limits s" and c: "rt_current (pr_rt s) = 0"
  shows "(\<exists>s'. prog_step work limits s = Some (True, s') \<and> prog_inv limits s' \<and> prog_weight limits s' < prog_weight limits s)
    \<or> (\<exists>s'. prog_step work limits s = Some (False, s') \<and> prog_inv limits s' \<and> (\<forall>j. 0 < j \<longrightarrow> j < length limits \<longrightarrow> ct_state (rt_tasks (pr_rt s') ! j) = Available))"
proof -
  let ?rt = "pr_rt s" and ?g = "work 0 (pr_regs s)"
  note d = prog_invD [OF inv]
  have l: "rt_leaving ?rt" by (rule rt_ok_leaving [OF d(1)])
  from t_yield_cases [OF l, of ?g] show ?thesis
  proof (elim disjE exE conjE)
    assume y: "t_yield ?g ?rt = Some (False, ?g, ?rt)" and n: "\<forall>j<length (rt_tasks ?rt). j \<noteq> rt_current ?rt \<longrightarrow> \<not> co_ready (rt_tasks ?rt) j"
    have "ct_state (rt_tasks ?rt ! j) = Available" if "0 < j" "j < length limits" for j
      using n d(1,2) that c by (cases "ct_state (rt_tasks ?rt ! j)") (auto simp: co_ready_def rt_ok_iff)
    moreover have "prog_step work limits s = Some (False, s\<lparr>pr_rt := ?rt, pr_regs := ?g\<rparr>)" using c y by (simp add: prog_step_def)
    ultimately show ?thesis using inv by (auto simp: prog_inv_def)
  next
    fix pos
    let ?ts = "switched_tasks ?g (rt_current ?rt) pos (rt_tasks ?rt)"
    let ?s = "s\<lparr>pr_rt := \<lparr>rt_tasks = ?ts, rt_current = pos\<rparr>, pr_regs := co_load (ct_ctx (rt_tasks ?rt ! pos))\<rparr>"
    assume p: "pos < length (rt_tasks ?rt)" "pos \<noteq> rt_current ?rt" "co_ready (rt_tasks ?rt) pos"
      and y: "t_yield ?g ?rt = Some (True, co_load (ct_ctx (rt_tasks ?rt ! pos)), \<lparr>rt_tasks = ?ts, rt_current = pos\<rparr>)"
    have cl: "rt_current ?rt < length (rt_tasks ?rt)" using d(1) by (simp add: rt_ok_iff)
    note av = switched_available [OF cl p]
    have "prog_step work limits s = Some (True, ?s)" using c y by (simp add: prog_step_def)
    moreover have "prog_inv limits ?s" using inv switched_ok [OF l p] by (simp add: prog_inv_def av)
    moreover have "prog_weight limits ?s < prog_weight limits s" using c p(2) by (simp add: prog_weight_def to_do_def av [unfolded c])
    ultimately show ?thesis by blast
  qed
qed

lemma task_step:
  assumes inv: "prog_inv limits s" and c: "rt_current (pr_rt s) \<noteq> 0"
  shows "\<exists>s'. prog_step work limits s = Some (True, s') \<and> prog_inv limits s' \<and> prog_weight limits s' < prog_weight limits s"
proof -
  let ?rt = "pr_rt s" and ?cur = "rt_current (pr_rt s)"
  let ?g = "work ?cur (pr_regs s)" and ?i = "pr_iter s ! ?cur"
  note d = prog_invD [OF inv]
  have cl: "?cur < length (rt_tasks ?rt)" and run: "ct_state (rt_tasks ?rt ! ?cur) = Running" using d(1) by (auto simp: rt_ok_iff)
  have "0 < length (rt_tasks ?rt)" using cl by linarith
  then have "ct_state (rt_tasks ?rt ! 0) \<noteq> Running" using d(1) c by (simp add: rt_ok_iff)
  then have r0: "co_ready (rt_tasks ?rt) 0" using d(4) by (cases "ct_state (rt_tasks ?rt ! 0)") (simp_all add: co_ready_def)
  have goes: "\<exists>pos. pos < length ts \<and> pos \<noteq> ?cur \<and> co_ready ts pos \<and> t_yield ?g (?rt\<lparr>rt_tasks := ts\<rparr>) =
      Some (True, co_load (ct_ctx (ts ! pos)), \<lparr>rt_tasks = switched_tasks ?g ?cur pos ts, rt_current = pos\<rparr>)"
    if "rt_leaving (?rt\<lparr>rt_tasks := ts\<rparr>)" "ts ! 0 = rt_tasks ?rt ! 0" "length ts = length (rt_tasks ?rt)" for ts
  proof -
    have "co_ready ts 0" "0 < length ts" using r0 cl that(2,3) by (auto simp: co_ready_def)
    then have "\<not> (\<forall>j<length ts. j \<noteq> ?cur \<longrightarrow> \<not> co_ready ts j)" using c by (auto intro!: exI [of _ 0])
    then show ?thesis using t_yield_cases [OF that(1), of ?g] by auto
  qed
  have in_sum: "?cur \<in> {1..<length limits}" using c cl d(2) by auto
  note dc = d(5) [of ?cur]
  show ?thesis
  proof (cases "?i < limits ! ?cur")
    case True
    obtain pos where p: "pos < length (rt_tasks ?rt)" "pos \<noteq> ?cur" "co_ready (rt_tasks ?rt) pos"
      and y: "t_yield ?g ?rt = Some (True, co_load (ct_ctx (rt_tasks ?rt ! pos)), \<lparr>rt_tasks = switched_tasks ?g ?cur pos (rt_tasks ?rt), rt_current = pos\<rparr>)"
      using goes [of "rt_tasks ?rt"] rt_ok_leaving [OF d(1)] by auto
    let ?s = "s\<lparr>pr_rt := \<lparr>rt_tasks = switched_tasks ?g ?cur pos (rt_tasks ?rt), rt_current = pos\<rparr>,
      pr_regs := co_load (ct_ctx (rt_tasks ?rt ! pos)), pr_iter := (pr_iter s)[?cur := ?i + 1], pr_out := pr_out s @ [(?cur, ?i)]\<rparr>"
    note av = switched_available [OF cl p]
    have "prog_step work limits s = Some (True, ?s)" using c True y by (simp add: prog_step_def Let_def)
    moreover have "prog_inv limits ?s"
      unfolding prog_inv_def using switched_ok [OF rt_ok_leaving [OF d(1)] p, of ?g] d True run
      by (auto simp: av list_all_iff nth_list_update printed_def)
    moreover have "(\<Sum>j = 1..<length limits. to_do limits (rt_tasks ?rt) (pr_iter s) j) = Suc (\<Sum>j = 1..<length limits. to_do limits (rt_tasks (pr_rt ?s)) (pr_iter ?s) j)"
      using in_sum True run d(3) by (intro sum_one_less [of _ ?cur]) (auto simp: to_do_def av)
    then have "prog_weight limits ?s < prog_weight limits s" using c by (simp add: prog_weight_def)
    ultimately show ?thesis by blast
  next
    case False
    let ?us = "set_co_state ?cur Available (rt_tasks ?rt)"
    have us: "length ?us = length (rt_tasks ?rt)" "?us ! 0 = rt_tasks ?rt ! 0" using c by (simp_all add: set_co_state_def)
    have lv: "rt_leaving (?rt\<lparr>rt_tasks := ?us\<rparr>)" by (rule leaving_return [OF d(1)])
    obtain pos where p: "pos < length ?us" "pos \<noteq> ?cur" "co_ready ?us pos"
      and y: "t_yield ?g (?rt\<lparr>rt_tasks := ?us\<rparr>) = Some (True, co_load (ct_ctx (?us ! pos)), \<lparr>rt_tasks = switched_tasks ?g ?cur pos ?us, rt_current = pos\<rparr>)"
      using goes [OF lv us(2,1)] by blast
    let ?s = "s\<lparr>pr_rt := \<lparr>rt_tasks = switched_tasks ?g ?cur pos ?us, rt_current = pos\<rparr>, pr_regs := co_load (ct_ctx (?us ! pos))\<rparr>"
    have av: "ct_state (switched_tasks ?g ?cur pos ?us ! j) = Available \<longleftrightarrow> j = ?cur \<or> ct_state (rt_tasks ?rt ! j) = Available" for j
      using switched_available [of ?cur ?us pos ?g j] cl p us(1) by (cases "j = ?cur") (auto simp: set_co_state_def)
    have "prog_step work limits s = Some (True, ?s)" using c False y by (simp add: prog_step_def Let_def t_return_eq [OF d(1)])
    moreover have "prog_inv limits ?s"
      unfolding prog_inv_def using switched_ok [OF lv, of pos ?g] p us d(2-5) c False
      by (auto simp: av list_all_iff intro: le_antisym)
    moreover have "(\<Sum>j = 1..<length limits. to_do limits (rt_tasks ?rt) (pr_iter s) j) = Suc (\<Sum>j = 1..<length limits. to_do limits (rt_tasks (pr_rt ?s)) (pr_iter ?s) j)"
      using in_sum False run by (intro sum_one_less [of _ ?cur]) (auto simp: to_do_def av)
    then have "prog_weight limits ?s < prog_weight limits s" using c by (simp add: prog_weight_def)
    ultimately show ?thesis by blast
  qed
qed

lemma prog_run_ends:
  "prog_inv limits s \<Longrightarrow> \<exists>s'. prog_run work limits s = Some s' \<and> prog_inv limits s'
    \<and> (\<forall>j. 0 < j \<longrightarrow> j < length limits \<longrightarrow> ct_state (rt_tasks (pr_rt s') ! j) = Available)"
proof (induction "prog_weight limits s" arbitrary: s rule: less_induct)
  case less
  consider s' where "prog_step work limits s = Some (True, s')" "prog_inv limits s'" "prog_weight limits s' < prog_weight limits s"
    | s' where "prog_step work limits s = Some (False, s')" "prog_inv limits s'"
      "\<forall>j. 0 < j \<longrightarrow> j < length limits \<longrightarrow> ct_state (rt_tasks (pr_rt s') ! j) = Available"
    using base_yields [OF less.prems, of work] task_step [OF less.prems, of work] by blast
  then show ?case
  proof cases
    case 1
    then show ?thesis using less.hyps [OF 1(3,2)] by (subst prog_run.simps) simp
  next
    case 2
    then show ?thesis by (subst prog_run.simps) simp
  qed
qed

text \<open>The states after \<open>n\<close> tasks have been spawned.\<close>

definition spawned :: "nat \<Rightarrow> co_runtime \<Rightarrow> bool" where
  "spawned n rt \<longleftrightarrow> rt_current rt = 0 \<and> map ct_state (rt_tasks rt) = Running # replicate n Ready @ replicate (MAX_TASKS - 1 - n) Available"

lemma spawned_nth:
  assumes "spawned n rt" "n \<le> MAX_TASKS - 1"
  shows "length (rt_tasks rt) = MAX_TASKS"
    "j < MAX_TASKS \<Longrightarrow> ct_state (rt_tasks rt ! j) = (if j = 0 then Running else if j \<le> n then Ready else Available)"
proof -
  let ?l = "Running # replicate n Ready @ replicate (MAX_TASKS - 1 - n) Available"
  have m: "map ct_state (rt_tasks rt) = ?l" using assms(1) by (simp add: spawned_def)
  from arg_cong [OF m, of length] show l: "length (rt_tasks rt) = MAX_TASKS" using assms(2) by (simp add: MAX_TASKS_def)
  show "ct_state (rt_tasks rt ! j) = (if j = 0 then Running else if j \<le> n then Ready else Available)" if "j < MAX_TASKS"
    using arg_cong [OF m, of "\<lambda>xs. xs ! j"] that l assms(2) by (auto simp: nth_Cons' nth_append MAX_TASKS_def split: if_splits)
qed

lemma spawn_next:
  assumes "spawned n rt" "n < MAX_TASKS - 1"
  shows "\<exists>rt'. co_spawn guard f rt = Some rt' \<and> spawned (Suc n) rt'"
proof -
  note sn = spawned_nth [OF assms(1) less_imp_le [OF assms(2)]]
  have i: "find_index (\<lambda>t. ct_state t = Available) (rt_tasks rt) = Some (Suc n)"
    by (rule find_index_eqI) (use sn assms(2) in auto)
  obtain rt' where rt': "co_spawn guard f rt = Some rt'" by (simp add: co_spawn_def i Let_def)
  obtain c where t: "rt' = rt\<lparr>rt_tasks := (rt_tasks rt)[Suc n := (rt_tasks rt ! Suc n)\<lparr>ct_ctx := c, ct_state := Ready\<rparr>]\<rparr>"
    using rt' by (auto simp: co_spawn_def i Let_def)
  have "map ct_state (rt_tasks rt) = Running # replicate n Ready @ replicate (MAX_TASKS - 1 - n) Available" "rt_current rt = 0"
    using assms(1) by (simp_all add: spawned_def)
  moreover have "MAX_TASKS - 1 - n = Suc (MAX_TASKS - 1 - Suc n)" using assms(2) by simp
  ultimately have "spawned (Suc n) rt'" by (simp add: spawned_def t map_update list_update_append replicate_append_same del: diff_Suc_1)
  with rt' show ?thesis by blast
qed

lemma spawn_full:
  assumes "spawned (MAX_TASKS - 1) rt"
  shows "co_spawn guard f rt = None"
proof -
  have "find_index (\<lambda>t. ct_state t = Available) (rt_tasks rt) = None"
    using spawned_nth [OF assms] by (auto simp: find_index_None_iff in_set_conv_nth split: if_splits)
  then show ?thesis by (simp add: co_spawn_def)
qed

lemma spawn_all:
  "spawned n rt \<Longrightarrow> n \<le> MAX_TASKS - 1 \<Longrightarrow> (if n + length fs \<le> MAX_TASKS - 1
    then \<exists>rt'. foldo (\<lambda>f. co_spawn guard (fst f)) fs rt = Some rt' \<and> spawned (n + length fs) rt'
    else foldo (\<lambda>f. co_spawn guard (fst f)) fs rt = None)"
proof (induction fs arbitrary: n rt)
  case (Cons f fs)
  show ?case
  proof (cases "n = MAX_TASKS - 1")
    case True
    then show ?thesis using Cons.prems(1) by (simp add: spawn_full)
  next
    case False
    then obtain rt' where "co_spawn guard (fst f) rt = Some rt'" "spawned (Suc n) rt'" using spawn_next [OF Cons.prems(1)] Cons.prems(2) by fastforce
    then show ?thesis using Cons.IH [of "Suc n" rt'] Cons.prems(2) False by (auto split: if_splits)
  qed
qed simp

lemma spawned_new: "spawned 0 (runtime_new stacks)"
  by (simp add: spawned_def runtime_new_def MAX_TASKS_def co_task_new_def upt_rec numeral_eq_Suc)

text \<open>
  C39. The program of the coroutines ends, and every task does its work. With at most four tasks, whatever they do to the
  registers between their calls, the loop of \<open>run\<close> ends; then each task has printed its counters in order, from 0 to
  its limit, and all tasks but the base task are available again. A fifth task finds no place and the program panics.
\<close>

theorem coroutines_end:
  "(length fs \<le> 4 \<longrightarrow> (\<exists>s s'. prog_start stacks guard g fs = Some s \<and> prog_run work (prog_limits fs) s = Some s'
      \<and> (\<forall>j<length fs. printed (Suc j) (pr_out s') = [0..<snd (fs ! j)])
      \<and> map (\<lambda>j. ct_state (rt_tasks (pr_rt s') ! j)) [1..<MAX_TASKS] = replicate 4 Available))
   \<and> (4 < length fs \<longrightarrow> prog_start stacks guard g fs = None)"
proof (intro conjI impI)
  have all: "if length fs \<le> 4 then \<exists>rt'. foldo (\<lambda>f. co_spawn guard (fst f)) fs (runtime_new stacks) = Some rt' \<and> spawned (length fs) rt'
      else foldo (\<lambda>f. co_spawn guard (fst f)) fs (runtime_new stacks) = None"
    using spawn_all [OF spawned_new, of fs guard stacks] by (auto simp: MAX_TASKS_def split: if_splits)
  then show "prog_start stacks guard g fs = None" if "4 < length fs" using that by (simp add: prog_start_def)
  assume l: "length fs \<le> 4"
  then obtain rt where rt: "foldo (\<lambda>f. co_spawn guard (fst f)) fs (runtime_new stacks) = Some rt" "spawned (length fs) rt" using all by auto
  let ?s = "\<lparr>pr_rt = rt, pr_regs = g, pr_iter = replicate MAX_TASKS 0, pr_out = []\<rparr>" and ?l = "prog_limits fs"
  have m: "length ?l = MAX_TASKS" using l by (simp add: prog_limits_def MAX_TASKS_def)
  have st: "length (rt_tasks rt) = MAX_TASKS" "ct_state (rt_tasks rt ! j) = (if j = 0 then Running else if j \<le> length fs then Ready else Available)"
    if "j < MAX_TASKS" for j using spawned_nth [OF rt(2)] that l by (auto simp: MAX_TASKS_def)
  have "rt_current rt = 0" using rt(2) by (simp add: spawned_def)
  then have "rt_ok rt" using st [of 0] st(2) by (auto simp: rt_ok_iff MAX_TASKS_def)
  moreover have "?l ! j = 0" if "length fs < j" "j < MAX_TASKS" for j using that l by (auto simp: prog_limits_def nth_Cons' nth_append MAX_TASKS_def)
  ultimately have "prog_inv ?l ?s" using st [of 0] st(2) m by (auto simp: prog_inv_def list_all_iff printed_def MAX_TASKS_def)
  then obtain s' where s': "prog_run work ?l ?s = Some s'" "prog_inv ?l s'"
      and av: "\<And>j. 0 < j \<Longrightarrow> j < MAX_TASKS \<Longrightarrow> ct_state (rt_tasks (pr_rt s') ! j) = Available"
    using prog_run_ends [of ?l ?s work] by (auto simp: m)
  have "printed (Suc j) (pr_out s') = [0..<snd (fs ! j)]" if "j < length fs" for j
  proof -
    have j: "Suc j < MAX_TASKS" using that l by (simp add: MAX_TASKS_def)
    have "?l ! Suc j = snd (fs ! j)" using that by (simp add: prog_limits_def nth_append)
    then show ?thesis using prog_invD(5) [OF s'(2), of "Suc j"] av [OF _ j] j by (simp add: m)
  qed
  moreover have "map (\<lambda>j. ct_state (rt_tasks (pr_rt s') ! j)) [1..<MAX_TASKS] = replicate 4 Available"
    by (rule nth_equalityI) (auto simp: MAX_TASKS_def intro!: av)
  ultimately show "\<exists>s s'. prog_start stacks guard g fs = Some s \<and> prog_run work ?l s = Some s'
      \<and> (\<forall>j<length fs. printed (Suc j) (pr_out s') = [0..<snd (fs ! j)])
      \<and> map (\<lambda>j. ct_state (rt_tasks (pr_rt s') ! j)) [1..<MAX_TASKS] = replicate 4 Available"
    using rt(1) s'(1) by (auto simp: prog_start_def)
qed

text \<open>The program of the source, whose four tasks count to 4, 8, 12 and 16.\<close>

theorem coroutines_end_witness:
  "\<exists>s s'. prog_start of_nat 1 (some_regs 0) [(2, 4), (3, 8), (4, 12), (5, 16)] = Some s
    \<and> prog_run (\<lambda>_ g. g) (prog_limits [(2, 4), (3, 8), (4, 12), (5, 16)]) s = Some s' \<and> printed 4 (pr_out s') = [0..<16]"
proof -
  let ?fs = "[(2, 4), (3, 8), (4, 12), (5, 16)] :: (u64 \<times> nat) list"
  obtain s s' where "prog_start of_nat 1 (some_regs 0) ?fs = Some s" "prog_run (\<lambda>_ g. g) (prog_limits ?fs) s = Some s'"
      "\<forall>j<length ?fs. printed (Suc j) (pr_out s') = [0..<snd (?fs ! j)]"
    using coroutines_end [of ?fs of_nat 1 "some_regs 0" "\<lambda>_ g. g", THEN conjunct1, THEN mp] by auto
  then show ?thesis by (auto dest!: spec [of _ 3])
qed

end
