(* ===== verification/Executor.thy ===== *)
theory Executor
  imports Prelude
begin

text \<open>
  The futures and the executor of \<open>user/src/bin/stackless_coroutine.rs\<close>. The executor knows its futures by their
  \<open>poll\<close> only: what it does with futures that print one message per poll is shown in a locale, of which the futures of
  the program are an interpretation.
\<close>

section \<open>Futures\<close>

datatype wait_state = Halted | Running

datatype poll_result = Poll_Ready | Poll_Pending

definition Waiter_poll :: "wait_state \<Rightarrow> poll_result \<times> wait_state" where
  "Waiter_poll st = (case st of Halted \<Rightarrow> (Poll_Ready, Running) | Running \<Rightarrow> (Poll_Pending, Halted))"

text \<open>
  The asynchronous block of \<open>main\<close>: messages with \<open>task.waiter().await\<close> between them. A future has the state of its
  task and the messages to come, and is at its start or in one of its waits.
\<close>

record 'm future =
  fu_task :: wait_state
  fu_rest :: "'m list"
  fu_waiting :: bool

definition future_new :: "'m list \<Rightarrow> 'm future" where
  "future_new ms = \<lparr>fu_task = Running, fu_rest = ms, fu_waiting = False\<rparr>"

text \<open>From a message to the next wait that is not over at once.\<close>

fun future_run :: "wait_state \<Rightarrow> 'm list \<Rightarrow> 'm list \<times> 'm future option" where
  "future_run st [] = ([], None)"
| "future_run st [m] = ([m], None)"
| "future_run st (m # ms) = (case Waiter_poll st of
      (Poll_Ready, st) \<Rightarrow> (case future_run st ms of (out, f) \<Rightarrow> (m # out, f))
    | (Poll_Pending, st) \<Rightarrow> ([m], Some \<lparr>fu_task = st, fu_rest = ms, fu_waiting = True\<rparr>))"

text \<open>\<open>poll\<close>: what is printed, and the future again when it is pending.\<close>

definition future_poll :: "'m future \<Rightarrow> 'm list \<times> 'm future option" where
  "future_poll f =
    (if fu_waiting f then (case Waiter_poll (fu_task f) of
        (Poll_Ready, st) \<Rightarrow> future_run st (fu_rest f)
      | (Poll_Pending, st) \<Rightarrow> ([], Some (f\<lparr>fu_task := st\<rparr>)))
     else future_run (fu_task f) (fu_rest f))"

section \<open>The executor\<close>

definition Executor_new :: "'f list" where
  "Executor_new = []"

definition Executor_push :: "'f \<Rightarrow> 'f list \<Rightarrow> 'f list" where
  "Executor_push f tasks = tasks @ [f]"

text \<open>\<open>run\<close> with what has been printed so far.\<close>

partial_function (option) Executor_run :: "('f \<Rightarrow> 'm list \<times> 'f option) \<Rightarrow> 'f list \<Rightarrow> 'm list \<Rightarrow> 'm list option" where
  "Executor_run poll tasks out = (case tasks of
      [] \<Rightarrow> Some out
    | task # tasks \<Rightarrow> (case poll task of (o', r) \<Rightarrow>
        Executor_run poll (case r of None \<Rightarrow> tasks | Some task \<Rightarrow> tasks @ [task]) (out @ o')))"

text \<open>\<open>main\<close> with the bodies of its futures.\<close>

definition executor_main :: "'m list list \<Rightarrow> 'm list option" where
  "executor_main bodies = Executor_run future_poll (fold (\<lambda>b. Executor_push (future_new b)) bodies Executor_new) []"

section \<open>Rounds\<close>

lemma transpose_nonempty:
  "\<forall>x\<in>set xs. x \<noteq> [] \<Longrightarrow> xs \<noteq> [] \<Longrightarrow> transpose xs = map hd xs # transpose (map tl xs)"
proof (cases xs)
  case (Cons x ys)
  have "concat (map (\<lambda>z. case z of [] \<Rightarrow> [] | h # t \<Rightarrow> [h]) ys) = map hd ys \<and> concat (map (\<lambda>z. case z of [] \<Rightarrow> [] | h # t \<Rightarrow> [t]) ys) = map tl ys"
    if "\<forall>y\<in>set ys. y \<noteq> []" using that by (induction ys) (auto split: list.splits)
  moreover assume "\<forall>x\<in>set xs. x \<noteq> []"
  ultimately show ?thesis using Cons by (cases x) auto
qed simp

lemma concat_drop_empty: "g [] = [] \<Longrightarrow> concat (map g (filter (\<lambda>x. x \<noteq> []) xs)) = concat (map g xs)"
  by (induction xs) auto

lemma transpose_drop_empty: "transpose (filter (\<lambda>x. x \<noteq> []) xs) = transpose xs"
  by (induction xs rule: transpose.induct) (simp_all add: concat_drop_empty)

text \<open>
  Futures that print one message per poll: \<open>susp ms\<close> is a future with the messages \<open>ms\<close> to come.
\<close>

locale round_futures =
  fixes poll :: "'f \<Rightarrow> 'm list \<times> 'f option" and susp :: "'m list \<Rightarrow> 'f"
  assumes poll_susp: "ms \<noteq> [] \<Longrightarrow> poll (susp ms) = ([hd ms], if tl ms = [] then None else Some (susp (tl ms)))"
begin

lemma one_round:
  assumes "\<And>ms. ms \<noteq> [] \<Longrightarrow> poll (start ms) = poll (susp ms)"
  shows "\<forall>x\<in>set xs. x \<noteq> [] \<Longrightarrow> Executor_run poll (map start xs @ map susp ys) out =
    Executor_run poll (map susp (ys @ filter (\<lambda>x. x \<noteq> []) (map tl xs))) (out @ map hd xs)"
proof (induction xs arbitrary: ys out)
  case (Cons x xs)
  have "Executor_run poll (map start (x # xs) @ map susp ys) out =
      Executor_run poll (map start xs @ map susp (ys @ (if tl x = [] then [] else [tl x]))) (out @ [hd x])"
    using Cons.prems by (subst Executor_run.simps) (simp add: assms poll_susp)
  also have "\<dots> = Executor_run poll (map susp ((ys @ (if tl x = [] then [] else [tl x])) @ filter (\<lambda>x. x \<noteq> []) (map tl xs))) ((out @ [hd x]) @ map hd xs)"
    using Cons.prems by (intro Cons.IH) simp
  finally show ?case by simp
qed simp

lemma run_rounds: "\<forall>x\<in>set xs. x \<noteq> [] \<Longrightarrow> Executor_run poll (map susp xs) out = Some (out @ concat (transpose xs))"
proof (induction "length (concat xs)" arbitrary: xs out rule: less_induct)
  case less
  show ?case
  proof (cases "xs = []")
    case True
    then show ?thesis by (subst Executor_run.simps) simp
  next
    case False
    let ?xs = "filter (\<lambda>x. x \<noteq> []) (map tl xs)"
    have "length (concat ?xs) \<le> length (concat (map tl xs))" by (induction xs) auto
    also have "\<dots> < length (concat xs)" using False less.prems by (cases xs) (auto simp: length_concat intro!: add_less_le_mono sum_list_mono)
    finally have "Executor_run poll (map susp ?xs) (out @ map hd xs) = Some ((out @ map hd xs) @ concat (transpose ?xs))" by (rule less.hyps) simp
    moreover have "Executor_run poll (map susp xs) out = Executor_run poll (map susp ?xs) (out @ map hd xs)"
      using one_round [of susp xs "[]" out] less.prems by simp
    ultimately show ?thesis using transpose_nonempty [OF less.prems False] transpose_drop_empty [of "map tl xs"] by simp
  qed
qed

lemma run_from_start:
  assumes "\<And>ms. ms \<noteq> [] \<Longrightarrow> poll (start ms) = poll (susp ms)" "\<forall>x\<in>set xs. x \<noteq> []"
  shows "Executor_run poll (map start xs) [] = Some (concat (transpose xs))"
proof -
  have "Executor_run poll (map start xs) [] = Executor_run poll (map susp (filter (\<lambda>x. x \<noteq> []) (map tl xs))) (map hd xs)"
    using one_round [OF assms(1) assms(2), of "[]" "[]"] by simp
  also have "\<dots> = Executor_run poll (map susp xs) []" using one_round [of susp xs "[]" "[]"] assms(2) by simp
  finally show ?thesis using run_rounds [OF assms(2), of "[]"] by simp
qed

end

text \<open>The futures of the program, in one of their waits.\<close>

definition waiting :: "'m list \<Rightarrow> 'm future" where
  "waiting ms = \<lparr>fu_task = Halted, fu_rest = ms, fu_waiting = True\<rparr>"

lemma future_run_Running: "ms \<noteq> [] \<Longrightarrow> future_run Running ms = ([hd ms], if tl ms = [] then None else Some (waiting (tl ms)))"
  by (cases "(Running, ms)" rule: future_run.cases) (auto simp: Waiter_poll_def waiting_def)

interpretation fr: round_futures future_poll waiting
  by unfold_locales (simp add: future_poll_def waiting_def Waiter_poll_def future_run_Running)

lemma push_all: "fold (\<lambda>b. Executor_push (future_new b)) bodies ts = ts @ map future_new bodies"
  by (induction bodies arbitrary: ts) (simp_all add: Executor_push_def)

text \<open>
  C40. The executor runs all its futures to their ends, in turns: what is printed is the first message of every future, in
  the order in which they were pushed, then the second message of those that have one, and so on.
\<close>

theorem executor_in_turns:
  assumes "\<forall>b\<in>set bodies. b \<noteq> []"
  shows "executor_main bodies = Some (concat (transpose bodies))"
proof -
  have "future_poll (future_new ms) = future_poll (waiting ms)" if "ms \<noteq> []" for ms :: "'a list"
    using fr.poll_susp [OF that] that by (simp add: future_poll_def future_new_def future_run_Running)
  from fr.run_from_start [OF this assms] show ?thesis by (simp add: executor_main_def push_all Executor_new_def)
qed

text \<open>The three tasks of the program and their three messages.\<close>

theorem executor_in_turns_witness:
  "executor_main [[(1, 0), (1, 1), (1, 2)], [(2, 0), (2, 1), (2, 2)], [(3 :: nat, 0), (3, 1), (3, 2 :: nat)]] =
    Some [(1, 0), (2, 0), (3, 0), (1, 1), (2, 1), (3, 1), (1, 2), (2, 2), (3, 2)]"
  by (subst executor_in_turns) simp_all

end
